(* ===== verification/Skep_Prelude.thy ===== *)
theory Skep_Prelude
  imports Main "HOL-Library.Monad_Syntax" "HOL-Library.List_Lexorder" "HOL-Library.Sublist"
begin

text \<open>
  Shared vocabulary of the development.

  \<^item> A Rust \<^verbatim>\<open>Result<T, E>\<close> is the sum \<open>('a, 'e) result\<close>, with \<open>Ok\<close> and \<open>Err\<close> for its
    two injections.
  \<^item> A function whose body can panic (\<^verbatim>\<open>expect\<close>, \<^verbatim>\<open>assert!\<close>, an index out of range, a
    \<^verbatim>\<open>BigUint\<close> subtraction that underflows) returns \<open>'a exec\<close>: \<open>panic\<close> is the fault,
    \<open>ret v\<close> the value it returns. Panic freedom is then a theorem, never a convention.
  \<^item> \<^verbatim>\<open>BigUint\<close> is \<open>nat\<close>; a \<^verbatim>\<open>usize\<close> that counts components or spans held in memory is
    \<open>nat\<close> too.

  The rest are the lemmas on lists, on the lexicographic order and on the two monads that
  the component theories share.
\<close>

section \<open>Results and panics\<close>

type_synonym ('a, 'e) result = "'e + 'a"
type_synonym 'a exec = "'a option"

abbreviation Ok :: "'a \<Rightarrow> ('a, 'e) result" where "Ok \<equiv> Inr"
abbreviation Err :: "'e \<Rightarrow> ('a, 'e) result" where "Err \<equiv> Inl"
abbreviation panic :: "'a exec" where "panic \<equiv> None"
abbreviation ret :: "'a \<Rightarrow> 'a exec" where "ret \<equiv> Some"

named_theorems model_defs \<open>definitions a component's proofs unfold together\<close>
named_theorems returns \<open>facts that an operation returns, with the value it returns\<close>

text \<open>\<^verbatim>\<open>Result::expect\<close>: the value, or a panic.\<close>

fun expect_ok :: "('a, 'e) result \<Rightarrow> 'a exec" where
  "expect_ok (Err e) = panic"
| "expect_ok (Ok v) = ret v"

text \<open>
  A fallible function that can also panic returns \<open>('a, 'e) result exec\<close>; \<open>and_then\<close> is the
  \<^verbatim>\<open>?\<close> operator, which returns early on an error.
\<close>

abbreviation ok :: "'a \<Rightarrow> ('a, 'e) result exec" where "ok x \<equiv> Some (Inr x)"
abbreviation err :: "'e \<Rightarrow> ('a, 'e) result exec" where "err e \<equiv> Some (Inl e)"

definition and_then ::
  "('a, 'e) result exec \<Rightarrow> ('a \<Rightarrow> ('b, 'e) result exec) \<Rightarrow> ('b, 'e) result exec" where
  "and_then m f = (case m of None \<Rightarrow> None | Some (Inl e) \<Rightarrow> Some (Inl e) | Some (Inr x) \<Rightarrow> f x)"

lemma and_then_simps [simp]:
  "and_then panic f = panic" "and_then (err e) f = err e" "and_then (ok x) f = f x"
  by (simp_all add: and_then_def)

lemma and_then_cong [fundef_cong]:
  "m = m' \<Longrightarrow> (\<And>x. m' = ok x \<Longrightarrow> f x = f' x) \<Longrightarrow> and_then m f = and_then m' f'"
  by (simp add: and_then_def split: option.split sum.split)

lemma and_then_okE:
  assumes "and_then m f = ok y"
  obtains x where "m = ok x" "f x = ok y"
  using assms by (auto simp: and_then_def split: option.splits sum.splits)

lemma and_then_ok_iff: "and_then m f = ok y \<longleftrightarrow> (\<exists>x. m = ok x \<and> f x = ok y)"
  by (auto simp: and_then_def split: option.splits sum.splits)

lemma and_then_panic_iff: "and_then m f = panic \<longleftrightarrow> m = panic \<or> (\<exists>x. m = ok x \<and> f x = panic)"
  by (auto simp: and_then_def split: option.splits sum.splits)

text \<open>\<^verbatim>\<open>BigUint\<close> subtraction: underflow panics.\<close>

definition nat_sub :: "nat \<Rightarrow> nat \<Rightarrow> nat exec" where
  "nat_sub a b = (if b \<le> a then ret (a - b) else panic)"

lemma nat_sub_ret [simp]: "b \<le> a \<Longrightarrow> nat_sub a b = ret (a - b)"
  by (simp add: nat_sub_def)

text \<open>An iterator's \<^verbatim>\<open>map(..).collect()\<close> over a function that can panic.\<close>

fun exec_map :: "('a \<Rightarrow> 'b exec) \<Rightarrow> 'a list \<Rightarrow> 'b list exec" where
  "exec_map f [] = ret []"
| "exec_map f (x # xs) = do { y \<leftarrow> f x; ys \<leftarrow> exec_map f xs; ret (y # ys) }"

lemma exec_map_ret:
  "(\<And>x. x \<in> set xs \<Longrightarrow> f x = ret (g x)) \<Longrightarrow> exec_map f xs = ret (map g xs)"
  by (induction xs) auto

text \<open>The short-circuiting \<^verbatim>\<open>filter\<close>, \<^verbatim>\<open>all\<close> and \<^verbatim>\<open>any\<close> over a test that can panic.\<close>

fun exec_filter :: "('a \<Rightarrow> bool exec) \<Rightarrow> 'a list \<Rightarrow> 'a list exec" where
  "exec_filter p [] = ret []"
| "exec_filter p (x # xs) = do { b \<leftarrow> p x; ys \<leftarrow> exec_filter p xs; ret (if b then x # ys else ys) }"

fun exec_all :: "('a \<Rightarrow> bool exec) \<Rightarrow> 'a list \<Rightarrow> bool exec" where
  "exec_all p [] = ret True"
| "exec_all p (x # xs) = do { b \<leftarrow> p x; if b then exec_all p xs else ret False }"

fun exec_any :: "('a \<Rightarrow> bool exec) \<Rightarrow> 'a list \<Rightarrow> bool exec" where
  "exec_any p [] = ret False"
| "exec_any p (x # xs) = do { b \<leftarrow> p x; if b then ret True else exec_any p xs }"

lemma exec_filter_ret:
  "(\<And>x. x \<in> set xs \<Longrightarrow> p x = ret (q x)) \<Longrightarrow> exec_filter p xs = ret (filter q xs)"
  by (induction xs) auto

lemma exec_all_ret:
  "(\<And>x. x \<in> set xs \<Longrightarrow> p x = ret (q x)) \<Longrightarrow> exec_all p xs = ret (\<forall>x \<in> set xs. q x)"
  by (induction xs) auto

lemma exec_any_ret:
  "(\<And>x. x \<in> set xs \<Longrightarrow> p x = ret (q x)) \<Longrightarrow> exec_any p xs = ret (\<exists>x \<in> set xs. q x)"
  by (induction xs) auto

lemma exec_map_returns:
  "(\<And>x. x \<in> set xs \<Longrightarrow> \<exists>y. f x = ret y \<and> Q x y) \<Longrightarrow> \<exists>ys. exec_map f xs = ret ys \<and> list_all2 Q xs ys"
proof (induction xs)
  case (Cons x xs)
  obtain y where "f x = ret y" "Q x y" using Cons.prems [of x] by auto
  moreover obtain ys where "exec_map f xs = ret ys" "list_all2 Q xs ys" using Cons by auto
  ultimately show ?case by simp
qed simp

lemma exec_filter_returns:
  "(\<And>x. x \<in> set xs \<Longrightarrow> \<exists>b. p x = ret b) \<Longrightarrow> \<exists>ys. exec_filter p xs = ret ys \<and> set ys \<subseteq> set xs"
proof (induction xs)
  case (Cons x xs)
  obtain b where "p x = ret b" using Cons.prems [of x] by auto
  moreover obtain ys where "exec_filter p xs = ret ys" "set ys \<subseteq> set xs" using Cons by auto
  ultimately show ?case by auto
qed simp

lemma exec_all_returns: "(\<And>x. x \<in> set xs \<Longrightarrow> \<exists>b. p x = ret b) \<Longrightarrow> \<exists>b. exec_all p xs = ret b"
proof (induction xs)
  case (Cons x xs)
  obtain b where "p x = ret b" using Cons.prems [of x] by auto
  then show ?case using Cons by (cases b) auto
qed auto

lemma exec_any_returns: "(\<And>x. x \<in> set xs \<Longrightarrow> \<exists>b. p x = ret b) \<Longrightarrow> \<exists>b. exec_any p xs = ret b"
proof (induction xs)
  case (Cons x xs)
  obtain b where "p x = ret b" using Cons.prems [of x] by auto
  then show ?case using Cons by (cases b) auto
qed auto

text \<open>Folding a journal of records into a state with a fold that can panic.\<close>

fun exec_fold :: "('s \<Rightarrow> 'r \<Rightarrow> 's exec) \<Rightarrow> 's \<Rightarrow> 'r list \<Rightarrow> 's exec" where
  "exec_fold f s [] = ret s"
| "exec_fold f s (r # rs) = do { s' \<leftarrow> f s r; exec_fold f s' rs }"

lemma exec_fold_append:
  "exec_fold f s (xs @ ys) = exec_fold f s xs \<bind> (\<lambda>s. exec_fold f s ys)"
  by (induction xs arbitrary: s) simp_all

text \<open>Slice indexing: \<^verbatim>\<open>xs[i]\<close> and \<^verbatim>\<open>&xs[s..e]\<close> panic out of range.\<close>

definition index :: "'a list \<Rightarrow> nat \<Rightarrow> 'a exec" where
  "index xs i = (if i < length xs then ret (xs ! i) else panic)"

definition subslice :: "'a list \<Rightarrow> nat \<Rightarrow> nat \<Rightarrow> 'a list exec" where
  "subslice xs s e = (if s \<le> e \<and> e \<le> length xs then ret (take (e - s) (drop s xs)) else panic)"

lemma index_ret [simp]: "i < length xs \<Longrightarrow> index xs i = ret (xs ! i)"
  by (simp add: index_def)

lemma subslice_append3: "subslice (us @ vs @ ws) (length us) (length us + length vs) = ret vs"
  by (simp add: subslice_def)

lemma subslice_prefix [simp]: "e \<le> length xs \<Longrightarrow> subslice xs 0 e = ret (take e xs)"
  by (simp add: subslice_def)

lemma expect_ok_Some [simp]: "expect_ok r = ret v \<longleftrightarrow> r = Ok v"
  by (cases r) auto

section \<open>Lists\<close>

text \<open>\<^verbatim>\<open>Iterator::position\<close> and \<^verbatim>\<open>rposition\<close>, 0-based.\<close>

fun position :: "('a \<Rightarrow> bool) \<Rightarrow> 'a list \<Rightarrow> nat option" where
  "position P [] = None"
| "position P (x # xs) = (if P x then Some 0 else map_option Suc (position P xs))"

definition rposition :: "('a \<Rightarrow> bool) \<Rightarrow> 'a list \<Rightarrow> nat option" where
  "rposition P xs = map_option (\<lambda>i. length xs - 1 - i) (position P (rev xs))"

lemma position_None_iff: "position P xs = None \<longleftrightarrow> (\<forall>x \<in> set xs. \<not> P x)"
  by (induction xs) auto

lemma position_SomeE:
  assumes "position P xs = Some i"
  obtains us x vs where "xs = us @ x # vs" "length us = i" "P x" "\<forall>u \<in> set us. \<not> P u"
proof -
  have "\<exists>us x vs. xs = us @ x # vs \<and> length us = i \<and> P x \<and> (\<forall>u \<in> set us. \<not> P u)"
    using assms
  proof (induction xs arbitrary: i)
    case (Cons y xs)
    show ?case
    proof (cases "P y")
      case True
      then show ?thesis using Cons.prems by (intro exI [of _ "[]"]) auto
    next
      case False
      then obtain j where "position P xs = Some j" "i = Suc j" using Cons.prems by auto
      with Cons.IH obtain us x vs where
        "xs = us @ x # vs \<and> length us = j \<and> P x \<and> (\<forall>u \<in> set us. \<not> P u)" by blast
      then show ?thesis using False \<open>i = Suc j\<close>
        by (intro exI [of _ "y # us"] exI [of _ x] exI [of _ vs]) auto
    qed
  qed simp
  then show thesis using that by blast
qed

lemma position_Some_intro:
  "P x \<Longrightarrow> \<forall>u \<in> set us. \<not> P u \<Longrightarrow> position P (us @ x # vs) = Some (length us)"
  by (induction us) auto

lemma rposition_snoc: "P x \<Longrightarrow> rposition P (xs @ [x]) = Some (length xs)"
  by (simp add: rposition_def)

lemma last_append_singleton_butlast: "xs \<noteq> [] \<Longrightarrow> butlast xs @ [last xs] = xs"
  by simp

lemma filter_nth_split:
  assumes "filter P xs = us @ y # vs"
  obtains ps qs where "xs = ps @ y # qs" "filter P ps = us" "filter P qs = vs" "P y"
proof -
  have "\<exists>ps qs. xs = ps @ y # qs \<and> filter P ps = us \<and> filter P qs = vs \<and> P y"
    using assms
  proof (induction xs arbitrary: us)
    case Nil
    then show ?case by simp
  next
    case (Cons x xs)
    show ?case
    proof (cases "P x")
      case False
      then have "filter P xs = us @ y # vs" using Cons.prems by simp
      from Cons.IH [OF this] obtain ps qs where
        *: "xs = ps @ y # qs" "filter P ps = us" "filter P qs = vs" "P y" by blast
      then show ?thesis using False by (intro exI [of _ "x # ps"] exI [of _ qs]) simp
    next
      case True
      show ?thesis
      proof (cases us)
        case Nil
        then show ?thesis using True Cons.prems by (intro exI [of _ "[]"] exI [of _ xs]) auto
      next
        case (Cons u us')
        then have "x = u" and "filter P xs = us' @ y # vs" using True Cons.prems by auto
        from Cons.IH [OF this(2)] obtain ps qs where
          *: "xs = ps @ y # qs" "filter P ps = us'" "filter P qs = vs" "P y" by blast
        then show ?thesis using True Cons \<open>x = u\<close>
          by (intro exI [of _ "x # ps"] exI [of _ qs]) simp
      qed
    qed
  qed
  then show thesis using that by blast
qed

text \<open>Two sequences cut at their first separator agree part by part.\<close>

lemma sep_append_iff:
  "x \<notin> set xs \<Longrightarrow> x \<notin> set xs' \<Longrightarrow>
   xs @ x # ys = xs' @ x # ys' \<longleftrightarrow> xs = xs' \<and> ys = ys'"
proof (induction xs arbitrary: xs')
  case Nil
  then show ?case by (cases xs') auto
next
  case (Cons a xs)
  then show ?case by (cases xs') auto
qed

section \<open>The lexicographic order on component sequences\<close>

text \<open>
  \<^verbatim>\<open>Vec\<close>'s slice order is the prefix-smaller lexicographic order of
  \<^theory_text>\<open>HOL-Library.List_Lexorder\<close>.
\<close>

lemma append_less_append_iff [simp]:
  "(xs @ ys :: 'a :: linorder list) < xs @ zs \<longleftrightarrow> ys < zs"
  by (induction xs) auto

lemma append_le_append_iff [simp]:
  "(xs @ ys :: 'a :: linorder list) \<le> xs @ zs \<longleftrightarrow> ys \<le> zs"
  by (induction xs) auto

lemma less_append_self_iff [simp]: "(xs :: 'a :: linorder list) < xs @ ys \<longleftrightarrow> ys \<noteq> []"
  by (induction xs) (auto, metis Nil_less_Cons neq_Nil_conv)

lemma prefix_imp_le: "prefix xs ys \<Longrightarrow> (xs :: 'a :: linorder list) \<le> ys"
  by (metis Nil_le_Cons append.right_neutral append_le_append_iff prefixE)

lemma strict_prefix_imp_less: "strict_prefix xs ys \<Longrightarrow> (xs :: 'a :: linorder list) < ys"
  by (simp add: less_le prefix_imp_le strict_prefix_def)

text \<open>Two sequences compare by prefix or at their first divergence.\<close>

lemma list_less_diverge:
  "(xs :: 'a :: linorder list) < ys \<Longrightarrow>
   strict_prefix xs ys \<or> (\<exists>p x y us vs. xs = p @ x # us \<and> ys = p @ y # vs \<and> x < y)"
proof (induction xs arbitrary: ys)
  case Nil
  then show ?case by (cases ys) auto
next
  case (Cons a xs)
  obtain b ys' where ys: "ys = b # ys'" using Cons.prems by (cases ys) auto
  show ?case
  proof (cases "a = b")
    case False
    then have "a < b" using Cons.prems ys by simp
    then show ?thesis using ys by (metis append_Nil)
  next
    case True
    then have "xs < ys'" using Cons.prems ys by simp
    from Cons.IH [OF this] show ?thesis using True ys
      by (metis append_Cons strict_prefix_simps(3))
  qed
qed

lemma list_less_cases:
  assumes "(xs :: 'a :: linorder list) < ys"
  obtains (prefix) "strict_prefix xs ys"
  | (diverge) p x y us vs where "xs = p @ x # us" "ys = p @ y # vs" "x < y"
  using list_less_diverge [OF assms] by blast

lemma list_less_same_length:
  assumes "(xs :: 'a :: linorder list) < ys" "length xs = length ys"
  obtains p x y us vs where "xs = p @ x # us" "ys = p @ y # vs" "x < y" "length us = length vs"
  using assms
proof (cases rule: list_less_cases)
  case prefix
  then have False using assms(2) prefix_length_less by fastforce
  then show ?thesis ..
next
  case (diverge p x y us vs)
  then show ?thesis using that assms(2) by auto
qed

lemma snoc_less_snoc_iff:
  "length xs = length ys \<Longrightarrow>
   (xs @ [a] :: 'a :: linorder list) < ys @ [b] \<longleftrightarrow> xs < ys \<or> (xs = ys \<and> a < b)"
  by (induction xs ys rule: list_induct2) auto

lemma list_update_last_eq: "xs \<noteq> [] \<Longrightarrow> xs[length xs - 1 := v] = butlast xs @ [v]"
  by (cases xs rule: rev_cases) auto

text \<open>
  The subtree of a prefix is an interval: with the last component advanced by one, the
  reach is the least sequence past every extension.
\<close>

lemma prefix_interval_iff:
  "p @ [x] \<le> ys \<and> ys < p @ [Suc x] \<longleftrightarrow> prefix (p @ [x]) ys"
proof (induction p arbitrary: ys)
  case Nil
  show ?case by (cases ys) (auto simp: less_Suc_eq)
next
  case (Cons a p)
  show ?case
  proof (cases ys)
    case Nil
    then show ?thesis by simp
  next
    case (Cons b ys')
    then show ?thesis using Cons.IH [of ys'] by auto
  qed
qed

end
