(* ===== verification/Tumblers.thy ===== *)
theory Tumblers
  imports Skep_Prelude
begin

text \<open>
  The tumbler value of \<^verbatim>\<open>crates/skep-address/src/tumbler.rs\<close>: identity, order, rendering
  and the prefix test.

  \<^verbatim>\<open>Tumbler\<close> wraps a private \<^verbatim>\<open>Vec<Nat>\<close> that every constructor keeps nonempty (T0). Here
  the sequence is its first component and the rest, so that T0 holds by construction, as the
  private field makes it hold in the crate; \<open>comps\<close> is the component view, \<open>Tumbler_new\<close> the
  admission that refuses the empty sequence and \<open>from_vec\<close> the internal constructor that
  panics on it.
\<close>

section \<open>The carrier\<close>

datatype tumbler = Tumbler nat "nat list"

datatype empty_sequence = EmptySequence

fun comps :: "tumbler \<Rightarrow> nat list" where
  "comps (Tumbler c cs) = c # cs"

definition nat_is_zero :: "nat \<Rightarrow> bool" where
  "nat_is_zero c \<longleftrightarrow> c = 0"

fun Tumbler_new :: "nat list \<Rightarrow> (tumbler, empty_sequence) result" where
  "Tumbler_new [] = Err EmptySequence"
| "Tumbler_new (c # cs) = Ok (Tumbler c cs)"

text \<open>\<^verbatim>\<open>from_vec\<close> asserts nonemptiness in every build.\<close>

fun from_vec :: "nat list \<Rightarrow> tumbler exec" where
  "from_vec [] = panic"
| "from_vec (c # cs) = ret (Tumbler c cs)"

definition tumbler_len :: "tumbler \<Rightarrow> nat" where
  "tumbler_len t = length (comps t)"

text \<open>\<^verbatim>\<open>get\<close> is 1-based and total: \<^verbatim>\<open>i.checked_sub(1)\<close>, then the slice's \<^verbatim>\<open>get\<close>.\<close>

definition tumbler_get :: "tumbler \<Rightarrow> nat \<Rightarrow> nat option" where
  "tumbler_get t i =
     (if i = 0 then None
      else if i - 1 < length (comps t) then Some (comps t ! (i - 1)) else None)"

text \<open>The serde mint path \<^verbatim>\<open>TryFrom<Vec<Nat>>\<close> and its shadow, the bare sequence.\<close>

definition tumbler_try_from :: "nat list \<Rightarrow> (tumbler, empty_sequence) result" where
  "tumbler_try_from cs = Tumbler_new cs"

definition tumbler_serialize :: "tumbler \<Rightarrow> nat list" where
  "tumbler_serialize t = comps t"

lemma comps_not_Nil [simp]: "comps t \<noteq> []" "[] \<noteq> comps t"
  by (cases t; simp)+

lemma comps_inject [simp]: "comps s = comps t \<longleftrightarrow> s = t"
  by (cases s; cases t) simp

lemma tumbler_len_pos [simp]: "0 < tumbler_len t" "tumbler_len t \<noteq> 0"
  by (simp_all add: tumbler_len_def)

lemma from_vec_Some: "from_vec cs = ret t \<longleftrightarrow> comps t = cs"
  by (cases cs; cases t) auto

lemma from_vec_comps [simp]: "from_vec (comps t) = ret t"
  by (simp add: from_vec_Some)

lemma from_vec_returns: "cs \<noteq> [] \<Longrightarrow> \<exists>t. from_vec cs = ret t \<and> comps t = cs"
  by (cases cs) auto

lemma from_vec_eqI: "comps t = cs \<Longrightarrow> from_vec cs = ret t"
  by (simp add: from_vec_Some)

lemma Tumbler_new_Ok [simp]: "Tumbler_new cs = Ok t \<longleftrightarrow> comps t = cs"
  by (cases cs; cases t) auto

lemma Tumbler_new_Err: "Tumbler_new cs = Err e \<longleftrightarrow> cs = []"
  by (cases cs; cases e) auto

lemma ex_comps: "cs \<noteq> [] \<Longrightarrow> \<exists>t. comps t = cs"
  by (cases cs) (auto intro: exI [of _ "Tumbler (hd cs) (tl cs)"])

text \<open>The tumbler with a given nonempty component sequence, for the specifications below.\<close>

definition tumbler_of :: "nat list \<Rightarrow> tumbler" where
  "tumbler_of cs = (case cs of [] \<Rightarrow> Tumbler 0 [] | c # cs' \<Rightarrow> Tumbler c cs')"

lemma comps_tumbler_of [simp]: "cs \<noteq> [] \<Longrightarrow> comps (tumbler_of cs) = cs"
  by (cases cs) (auto simp: tumbler_of_def)

lemma tumbler_of_comps [simp]: "tumbler_of (comps t) = t"
  by (cases t) (simp add: tumbler_of_def)

lemma from_vec_tumbler_of [simp]: "cs \<noteq> [] \<Longrightarrow> from_vec cs = ret (tumbler_of cs)"
  by (simp add: from_vec_Some)

lemma tumbler_len_of [simp]: "cs \<noteq> [] \<Longrightarrow> tumbler_len (tumbler_of cs) = length cs"
  by (simp add: tumbler_len_def)

lemma tumbler_eq_iff: "s = t \<longleftrightarrow> comps s = comps t"
  by simp

lemma comps_butlast_last: "butlast (comps t) @ [last (comps t)] = comps t"
  by simp

section \<open>The order\<close>

text \<open>
  \<^verbatim>\<open>Ord for Tumbler\<close> delegates to the slice order: lexicographic, a proper prefix first,
  zero components in no way special.
\<close>

instantiation tumbler :: linorder
begin

definition less_eq_tumbler :: "tumbler \<Rightarrow> tumbler \<Rightarrow> bool" where
  "s \<le> t \<longleftrightarrow> comps s \<le> comps t"

definition less_tumbler :: "tumbler \<Rightarrow> tumbler \<Rightarrow> bool" where
  "s < t \<longleftrightarrow> comps s < comps t"

instance
  by standard (auto simp: less_eq_tumbler_def less_tumbler_def less_le_not_le)

end

lemmas tumbler_order_defs = less_eq_tumbler_def less_tumbler_def

datatype ordering = Less | Equal | Greater

definition tumbler_cmp :: "tumbler \<Rightarrow> tumbler \<Rightarrow> ordering" where
  "tumbler_cmp s t =
     (if comps s < comps t then Less else if comps s = comps t then Equal else Greater)"

definition is_prefix :: "tumbler \<Rightarrow> tumbler \<Rightarrow> bool" where
  "is_prefix p q \<longleftrightarrow>
     tumbler_len p \<le> tumbler_len q \<and> comps p = take (tumbler_len p) (comps q)"

lemma is_prefix_iff: "is_prefix p q \<longleftrightarrow> prefix (comps p) (comps q)"
proof
  assume "is_prefix p q"
  then show "prefix (comps p) (comps q)"
    unfolding is_prefix_def by (metis take_is_prefix)
next
  assume "prefix (comps p) (comps q)"
  then show "is_prefix p q"
    by (auto simp: is_prefix_def tumbler_len_def prefix_def)
qed

lemma is_prefix_le: "is_prefix p q \<Longrightarrow> p \<le> q"
  by (simp add: is_prefix_iff less_eq_tumbler_def prefix_imp_le)

section \<open>Rendering\<close>

text \<open>
  \<^verbatim>\<open>Display\<close> writes the components in decimal, separated by dots. \<open>decimal\<close> is
  \<^verbatim>\<open>BigUint\<close>'s own \<^verbatim>\<open>Display\<close>.
\<close>

fun decimal :: "nat \<Rightarrow> string" where
  "decimal n =
     (if n < 10 then [char_of (48 + n)] else decimal (n div 10) @ [char_of (48 + n mod 10)])"

declare decimal.simps [simp del]

fun join_dots :: "string list \<Rightarrow> string" where
  "join_dots [] = []"
| "join_dots [s] = s"
| "join_dots (s # ss) = s @ CHR ''.'' # join_dots ss"

definition tumbler_display :: "tumbler \<Rightarrow> string" where
  "tumbler_display t = join_dots (map decimal (comps t))"

text \<open>The reading of a decimal numeral, the left inverse of \<open>decimal\<close>.\<close>

definition undecimal :: "string \<Rightarrow> nat" where
  "undecimal s = foldl (\<lambda>n c. 10 * n + (of_char c - 48)) 0 s"

lemma of_char_digit: "d < 10 \<Longrightarrow> (of_char (char_of (48 + d :: nat)) :: nat) = 48 + d"
  by simp

lemma undecimal_decimal: "undecimal (decimal n) = n"
proof (induction n rule: decimal.induct)
  case (1 n)
  show ?case
  proof (cases "n < 10")
    case True
    then show ?thesis
      by (simp add: decimal.simps [of n] undecimal_def of_char_digit del: of_char_of)
  next
    case False
    have "(of_char (char_of (48 + n mod 10 :: nat)) :: nat) = 48 + n mod 10"
      by (rule of_char_digit) simp
    then show ?thesis using 1 False
      by (simp add: decimal.simps [of n] undecimal_def del: of_char_of)
  qed
qed

lemma decimal_inject [simp]: "decimal m = decimal n \<longleftrightarrow> m = n"
  by (metis undecimal_decimal)

lemma digit_not_dot:
  assumes "d < 10"
  shows "(char_of (48 + d :: nat) :: char) \<noteq> CHR ''.''"
proof
  assume "(char_of (48 + d) :: char) = CHR ''.''"
  then have "(of_char (char_of (48 + d) :: char) :: nat) = of_char (CHR ''.'')" by simp
  moreover have "(of_char (CHR ''.'') :: nat) = 46" by simp
  ultimately show False using of_char_digit [OF assms] by simp
qed

lemma dot_not_in_decimal: "CHR ''.'' \<notin> set (decimal n)"
proof (induction n rule: decimal.induct)
  case (1 n)
  have d: "CHR ''.'' \<noteq> char_of (48 + n mod 10)" using digit_not_dot [of "n mod 10"] by simp
  show ?case
  proof (cases "n < 10")
    case True
    then show ?thesis using digit_not_dot [of n] by (simp add: decimal.simps [of n])
  next
    case False
    then show ?thesis using 1 d by (simp add: decimal.simps [of n])
  qed
qed

lemma join_dots_inject:
  assumes "\<forall>s \<in> set ss. CHR ''.'' \<notin> set s" "\<forall>s \<in> set rs. CHR ''.'' \<notin> set s"
    and "ss \<noteq> []" "rs \<noteq> []" "join_dots ss = join_dots rs"
  shows "ss = rs"
  using assms
proof (induction ss arbitrary: rs rule: join_dots.induct)
  case (2 s)
  then show ?case by (cases rs rule: join_dots.cases) auto
next
  case (3 s s' ss)
  from "3.prems" obtain r r' rs' where rs: "rs = r # r' # rs'"
    by (cases rs rule: join_dots.cases) auto
  have "CHR ''.'' \<notin> set s" "CHR ''.'' \<notin> set r" using "3.prems"(1,2) rs by auto
  then have "s = r" and "join_dots (s' # ss) = join_dots (r' # rs')"
    using "3.prems"(5) rs by (auto simp: sep_append_iff)
  moreover have "s' # ss = r' # rs'"
    by (rule "3.IH") (use "3.prems" rs calculation in auto)
  ultimately show ?case using rs by simp
qed simp

text \<open>
  the rendering is lossless: two tumblers with the same text are the same tumbler, leading
  and trailing zero components included.
\<close>

theorem tumbler_display_inject: "tumbler_display s = tumbler_display t \<longleftrightarrow> s = t"
proof
  assume "tumbler_display s = tumbler_display t"
  then have "map decimal (comps s) = map decimal (comps t)"
    unfolding tumbler_display_def
    by (intro join_dots_inject) (auto simp: dot_not_in_decimal)
  then show "s = t"
    by (auto dest!: inj_mapD simp: inj_def)
qed simp

end
