(* ===== verification/Addresses.thy ===== *)
theory Addresses
  imports Tumblers
begin

text \<open>
  Validation, classification, field projection and decomposition of addresses:
  \<^verbatim>\<open>crates/skep-address/src/address.rs\<close>.

  The definitions follow the file's order. The lemmas then relate the single validating scan
  to the structural reading of T4: a component sequence is an address exactly when cutting it
  at its zeros leaves at most four fields, none of them empty. The field projections, the
  containment tests, \<open>parent\<close> and \<open>document_of\<close> are characterised over those fields, and none
  of their \<^verbatim>\<open>expect\<close>s or slices can fail on a well-formed address.
\<close>

section \<open>Levels, classes and the validating scan\<close>

datatype level = Node | Account | Document | Element

datatype addr_class = ClassNode | ClassAccount | ClassDocument | ClassElement | ClassInvalid

fun class_from_level :: "level \<Rightarrow> addr_class" where
  "class_from_level Node = ClassNode"
| "class_from_level Account = ClassAccount"
| "class_from_level Document = ClassDocument"
| "class_from_level Element = ClassElement"

datatype t4_clause = LeadingZero | TrailingZero | AdjacentZeros | OverDepth

record t4_error =
  clauses :: "t4_clause list"

record t4_scan_result =
  scan_zeros :: nat
  scan_clauses :: "t4_clause list"

text \<open>The loop's state is \<open>(zero_count, adjacent_zeros, prev_zero)\<close>.\<close>

fun t4_loop :: "nat list \<Rightarrow> nat \<times> bool \<times> bool \<Rightarrow> nat \<times> bool \<times> bool" where
  "t4_loop [] st = st"
| "t4_loop (c # cs) (zero_count, adjacent_zeros, prev_zero) =
     (if nat_is_zero c
      then t4_loop cs (zero_count + 1, (if prev_zero then True else adjacent_zeros), True)
      else t4_loop cs (zero_count, adjacent_zeros, False))"

definition t4_scan :: "tumbler \<Rightarrow> t4_scan_result" where
  "t4_scan t =
     (let (zero_count, adjacent_zeros, _) = t4_loop (comps t) (0, False, False) in
      \<lparr>scan_zeros = zero_count,
       scan_clauses =
         (if nat_is_zero (hd (comps t)) then [LeadingZero] else []) @
         (if nat_is_zero (last (comps t)) then [TrailingZero] else []) @
         (if adjacent_zeros then [AdjacentZeros] else []) @
         (if zero_count > 3 then [OverDepth] else [])\<rparr>)"

definition zeros :: "tumbler \<Rightarrow> nat" where
  "zeros t = scan_zeros (t4_scan t)"

text \<open>The catch-all arm is \<^verbatim>\<open>unreachable!\<close>, a panic.\<close>

definition level_of_zeros :: "nat \<Rightarrow> level exec" where
  "level_of_zeros z =
     (if z = 0 then ret Node else if z = 1 then ret Account
      else if z = 2 then ret Document else if z = 3 then ret Element else panic)"

definition admitted_level :: "t4_scan_result \<Rightarrow> level option exec" where
  "admitted_level s =
     (if scan_clauses s = [] then map_option Some (level_of_zeros (scan_zeros s)) else ret None)"

definition is_t4_valid :: "tumbler \<Rightarrow> bool exec" where
  "is_t4_valid t = do { l \<leftarrow> admitted_level (t4_scan t); ret (l \<noteq> None) }"

definition classify :: "tumbler \<Rightarrow> addr_class exec" where
  "classify t = do {
     l \<leftarrow> admitted_level (t4_scan t);
     ret (case l of None \<Rightarrow> ClassInvalid | Some lv \<Rightarrow> class_from_level lv) }"

record address =
  tumbler :: tumbler
  level :: level

definition validate :: "tumbler \<Rightarrow> (address, t4_error) result exec" where
  "validate t =
     (let scan = t4_scan t in do {
        admitted \<leftarrow> admitted_level scan;
        ret (case admitted of
               Some lv \<Rightarrow> Ok \<lparr>tumbler = t, level = lv\<rparr>
             | None \<Rightarrow> Err \<lparr>clauses = scan_clauses scan\<rparr>) })"

text \<open>
  An \<^verbatim>\<open>Address\<close> serialises as its bare tumbler and is decoded through \<open>validate\<close>; its order
  is its tumbler's.
\<close>

definition address_serialize :: "address \<Rightarrow> tumbler" where
  "address_serialize a = tumbler a"

definition address_try_from :: "tumbler \<Rightarrow> (address, t4_error) result exec" where
  "address_try_from t = validate t"

definition address_cmp :: "address \<Rightarrow> address \<Rightarrow> ordering" where
  "address_cmp a b = tumbler_cmp (tumbler a) (tumbler b)"

definition address_display :: "address \<Rightarrow> string" where
  "address_display a = tumbler_display (tumbler a)"

section \<open>Field projections\<close>

text \<open>The 0-based positions of the zero components, in order.\<close>

definition zero_positions :: "nat list \<Rightarrow> nat list" where
  "zero_positions cs = map fst (filter (\<lambda>(_, c). nat_is_zero c) (enumerate 0 cs))"

text \<open>\<^verbatim>\<open>separator\<close> asserts \<open>n \<ge> 1\<close>; the answer is the \<open>n\<close>-th zero position, if there is one.\<close>

definition separator :: "address \<Rightarrow> nat \<Rightarrow> nat option exec" where
  "separator a n =
     (if n = 0 then panic
      else let zs = zero_positions (comps (tumbler a))
           in ret (if n - 1 < length zs then Some (zs ! (n - 1)) else None))"

definition field :: "address \<Rightarrow> nat \<Rightarrow> nat list option exec" where
  "field a n = do {
     sep \<leftarrow> separator a n;
     (case sep of
        None \<Rightarrow> ret None
      | Some i \<Rightarrow> do {
          next_sep \<leftarrow> separator a (n + 1);
          let e = (case next_sep of None \<Rightarrow> tumbler_len (tumbler a) | Some j \<Rightarrow> j);
          f \<leftarrow> subslice (comps (tumbler a)) (i + 1) e;
          ret (Some f) }) }"

definition node_field :: "address \<Rightarrow> nat list exec" where
  "node_field a = do {
     sep \<leftarrow> separator a 1;
     subslice (comps (tumbler a)) 0 (case sep of None \<Rightarrow> length (comps (tumbler a)) | Some i \<Rightarrow> i) }"

definition account_field :: "address \<Rightarrow> nat list option exec" where
  "account_field a = field a 1"

definition document_field :: "address \<Rightarrow> nat list option exec" where
  "document_field a = field a 2"

definition element_field :: "address \<Rightarrow> nat list option exec" where
  "element_field a = field a 3"

text \<open>\<^verbatim>\<open>&e[0]\<close> panics on an empty element field.\<close>

definition subspace :: "address \<Rightarrow> nat option exec" where
  "subspace a = do {
     e \<leftarrow> element_field a;
     (case e of None \<Rightarrow> ret None | Some f \<Rightarrow> do { s \<leftarrow> index f 0; ret (Some s) }) }"

definition document_prefix :: "address \<Rightarrow> nat list option exec" where
  "document_prefix a =
     (case level a of
        Node \<Rightarrow> ret None
      | Account \<Rightarrow> ret None
      | Document \<Rightarrow> ret (Some (comps (tumbler a)))
      | Element \<Rightarrow> do {
          sep \<leftarrow> separator a 3;
          i \<leftarrow> sep;
          p \<leftarrow> subslice (comps (tumbler a)) 0 i;
          ret (Some p) })"

definition content_subspace :: nat where
  "content_subspace = 1"

definition link_subspace :: nat where
  "link_subspace = 2"

section \<open>Containment and decomposition\<close>

definition same_node :: "address \<Rightarrow> address \<Rightarrow> bool exec" where
  "same_node a b = do { na \<leftarrow> node_field a; nb \<leftarrow> node_field b; ret (na = nb) }"

definition same_account :: "address \<Rightarrow> address \<Rightarrow> bool exec" where
  "same_account a b = do {
     fa \<leftarrow> account_field a;
     fb \<leftarrow> account_field b;
     (case (fa, fb) of
        (Some ua, Some ub) \<Rightarrow> do { n \<leftarrow> same_node a b; ret (n \<and> ua = ub) }
      | _ \<Rightarrow> ret False) }"

definition same_document :: "address \<Rightarrow> address \<Rightarrow> bool exec" where
  "same_document a b = do {
     fa \<leftarrow> document_field a;
     fb \<leftarrow> document_field b;
     (case (fa, fb) of
        (Some da, Some db) \<Rightarrow> do { u \<leftarrow> same_account a b; ret (u \<and> da = db) }
      | _ \<Rightarrow> ret False) }"

definition under_document :: "address \<Rightarrow> address \<Rightarrow> bool exec" where
  "under_document a b =
     (if level a \<noteq> Document \<and> level a \<noteq> Element then ret False
      else do {
        p \<leftarrow> document_prefix b;
        ret (case p of Some q \<Rightarrow> prefix q (comps (tumbler a)) | None \<Rightarrow> False) })"

definition parent :: "address \<Rightarrow> address option exec" where
  "parent a =
     (let cs = comps (tumbler a) in
      if length cs = 1 then ret None
      else do {
        let e = length cs - 1;
        c \<leftarrow> index cs (e - 1);
        let e' = (if nat_is_zero c then e - 1 else e);
        p \<leftarrow> subslice cs 0 e';
        t \<leftarrow> from_vec p;
        r \<leftarrow> validate t;
        b \<leftarrow> expect_ok r;
        ret (Some b) })"

definition document_of :: "address \<Rightarrow> address option exec" where
  "document_of a =
     (if level a = Document then ret (Some a)
      else do {
        p \<leftarrow> document_prefix a;
        (case p of
           None \<Rightarrow> ret None
         | Some q \<Rightarrow> do {
             t \<leftarrow> from_vec q;
             r \<leftarrow> validate t;
             b \<leftarrow> expect_ok r;
             ret (Some b) }) })"

definition ordinal :: "tumbler \<Rightarrow> nat" where
  "ordinal t = last (comps t)"

section \<open>The structural reading of T4\<close>

text \<open>Cutting a sequence at its zeros, and joining fields back with one zero between each two.\<close>

fun split_zeros :: "nat list \<Rightarrow> nat list list" where
  "split_zeros [] = [[]]"
| "split_zeros (c # cs) =
     (if c = 0 then [] # split_zeros cs
      else (case split_zeros cs of [] \<Rightarrow> [[c]] | f # fs \<Rightarrow> (c # f) # fs))"

fun join_zeros :: "nat list list \<Rightarrow> nat list" where
  "join_zeros [] = []"
| "join_zeros [f] = f"
| "join_zeros (f # fs) = f @ 0 # join_zeros fs"

text \<open>
  The four clauses, and T4 itself: no clause is violated. The reading over fields is
  \<open>T4_iff_fields\<close> below.
\<close>

fun adjacent_zeros :: "nat list \<Rightarrow> bool" where
  "adjacent_zeros (a # b # cs) \<longleftrightarrow> a = 0 \<and> b = 0 \<or> adjacent_zeros (b # cs)"
| "adjacent_zeros _ \<longleftrightarrow> False"

fun violates :: "nat list \<Rightarrow> t4_clause \<Rightarrow> bool" where
  "violates cs LeadingZero \<longleftrightarrow> hd cs = 0"
| "violates cs TrailingZero \<longleftrightarrow> last cs = 0"
| "violates cs AdjacentZeros \<longleftrightarrow> adjacent_zeros cs"
| "violates cs OverDepth \<longleftrightarrow> 3 < count_list cs 0"

definition T4 :: "nat list \<Rightarrow> bool" where
  "T4 cs \<longleftrightarrow> (\<forall>c. \<not> violates cs c)"

definition level_of :: "nat list \<Rightarrow> level" where
  "level_of cs = [Node, Account, Document, Element] ! count_list cs 0"

definition wf_address :: "address \<Rightarrow> bool" where
  "wf_address a \<longleftrightarrow> T4 (comps (tumbler a)) \<and> level a = level_of (comps (tumbler a))"

lemma T4_unfold:
  "T4 cs \<longleftrightarrow> hd cs \<noteq> 0 \<and> last cs \<noteq> 0 \<and> \<not> adjacent_zeros cs \<and> count_list cs 0 \<le> 3"
proof
  assume "T4 cs"
  then have "\<not> violates cs LeadingZero" "\<not> violates cs TrailingZero"
    "\<not> violates cs AdjacentZeros" "\<not> violates cs OverDepth"
    unfolding T4_def by blast+
  then show "hd cs \<noteq> 0 \<and> last cs \<noteq> 0 \<and> \<not> adjacent_zeros cs \<and> count_list cs 0 \<le> 3" by simp
next
  assume *: "hd cs \<noteq> 0 \<and> last cs \<noteq> 0 \<and> \<not> adjacent_zeros cs \<and> count_list cs 0 \<le> 3"
  have "\<not> violates cs c" for c using * by (cases c) auto
  then show "T4 cs" unfolding T4_def by blast
qed

lemma adjacent_zeros_Cons:
  "adjacent_zeros (c # cs) \<longleftrightarrow> (c = 0 \<and> cs \<noteq> [] \<and> hd cs = 0) \<or> adjacent_zeros cs"
  by (cases cs) auto

text \<open>What the scan's loop computes.\<close>

lemma t4_loop_eq:
  "t4_loop cs (z, adj, pz) =
     (z + count_list cs 0,
      adj \<or> adjacent_zeros cs \<or> (pz \<and> cs \<noteq> [] \<and> hd cs = 0),
      (if cs = [] then pz else last cs = 0))"
  by (induction cs arbitrary: z adj pz)
    (auto simp: adjacent_zeros_Cons nat_is_zero_def)

lemma t4_scan_eq:
  "t4_scan t = \<lparr>scan_zeros = count_list (comps t) 0,
     scan_clauses = filter (violates (comps t)) [LeadingZero, TrailingZero, AdjacentZeros, OverDepth]\<rparr>"
  by (simp add: t4_scan_def t4_loop_eq nat_is_zero_def)

lemma scan_clauses_Nil_iff: "scan_clauses (t4_scan t) = [] \<longleftrightarrow> T4 (comps t)"
  by (auto simp: t4_scan_eq T4_unfold)

lemma level_of_zeros_ret:
  "T4 (comps t) \<Longrightarrow> level_of_zeros (count_list (comps t) 0) = ret (level_of (comps t))"
  unfolding T4_unfold level_of_zeros_def level_of_def
  by (auto simp: le_Suc_eq numeral_3_eq_3 numeral_2_eq_2)

lemma admitted_level_eq [returns]:
  "admitted_level (t4_scan t) = ret (if T4 (comps t) then Some (level_of (comps t)) else None)"
proof (cases "T4 (comps t)")
  case True
  then show ?thesis
    using scan_clauses_Nil_iff [of t] level_of_zeros_ret [OF True]
    by (simp add: admitted_level_def t4_scan_eq)
next
  case False
  then show ?thesis using scan_clauses_Nil_iff [of t] by (simp add: admitted_level_def)
qed

lemma validate_eq [returns]:
  "validate t = ret (if T4 (comps t) then Ok \<lparr>tumbler = t, level = level_of (comps t)\<rparr>
     else Err \<lparr>clauses = filter (violates (comps t))
                [LeadingZero, TrailingZero, AdjacentZeros, OverDepth]\<rparr>)"
  by (simp add: validate_def admitted_level_eq Let_def) (simp add: t4_scan_eq)

lemma is_t4_valid_eq [returns]: "is_t4_valid t = ret (T4 (comps t))"
  by (simp add: is_t4_valid_def admitted_level_eq)

lemma classify_eq [returns]:
  "classify t =
     ret (if T4 (comps t) then class_from_level (level_of (comps t)) else ClassInvalid)"
  by (simp add: classify_def admitted_level_eq)

lemma validate_Ok_iff: "validate t = ret (Ok a) \<longleftrightarrow> wf_address a \<and> tumbler a = t"
  by (cases a) (auto simp: validate_eq wf_address_def)

lemma validate_wf: "wf_address a \<Longrightarrow> validate (tumbler a) = ret (Ok a)"
  by (simp add: validate_Ok_iff)

lemma wf_address_eqI: "wf_address a \<Longrightarrow> wf_address b \<Longrightarrow> tumbler a = tumbler b \<Longrightarrow> a = b"
  by (cases a; cases b) (simp add: wf_address_def)

section \<open>Fields\<close>

lemma split_zeros_not_Nil [simp]: "split_zeros cs \<noteq> []"
  by (cases cs) (auto split: list.splits)

lemma join_zeros_Cons: "fs \<noteq> [] \<Longrightarrow> join_zeros (f # fs) = f @ 0 # join_zeros fs"
  by (cases fs) auto

lemma join_split_zeros [simp]: "join_zeros (split_zeros cs) = cs"
proof (induction cs)
  case (Cons c cs)
  then show ?case
    by (cases "split_zeros cs") (auto simp: join_zeros_Cons, metis append_Cons join_zeros.simps(2) join_zeros_Cons)
qed simp

lemma split_zeros_zero_free: "f \<in> set (split_zeros cs) \<Longrightarrow> 0 \<notin> set f"
proof (induction cs arbitrary: f)
  case (Cons c cs)
  then show ?case by (cases "split_zeros cs") (auto split: if_splits)
qed simp

lemma split_join_zeros:
  "fs \<noteq> [] \<Longrightarrow> (\<forall>f \<in> set fs. 0 \<notin> set f) \<Longrightarrow> split_zeros (join_zeros fs) = fs"
proof (induction fs rule: join_zeros.induct)
  case (2 f)
  then show ?case by (induction f) auto
next
  case (3 f f' fs)
  then have "split_zeros (join_zeros (f' # fs)) = f' # fs" by simp
  moreover have "0 \<notin> set f" using 3 by simp
  then have "split_zeros (f @ 0 # xs) = f # split_zeros xs" for xs by (induction f) auto
  ultimately show ?case by simp
qed simp

lemma length_split_zeros: "length (split_zeros cs) = Suc (count_list cs 0)"
proof (induction cs)
  case (Cons c cs)
  then show ?case by (cases "split_zeros cs") auto
qed simp

lemma hd_split_zeros_Nil: "hd (split_zeros cs) = [] \<longleftrightarrow> cs = [] \<or> hd cs = 0"
  by (cases cs) (auto split: list.splits)

lemma tl_split_zeros_Nil:
  "[] \<in> set (tl (split_zeros cs)) \<longleftrightarrow> (cs \<noteq> [] \<and> last cs = 0) \<or> adjacent_zeros cs"
proof (induction cs)
  case (Cons c cs)
  have mem: "[] \<in> set (split_zeros cs) \<longleftrightarrow>
      hd (split_zeros cs) = [] \<or> [] \<in> set (tl (split_zeros cs))"
    by (cases "split_zeros cs") auto
  show ?case
  proof (cases "c = 0")
    case True
    then show ?thesis using Cons mem hd_split_zeros_Nil [of cs]
      by (auto simp: adjacent_zeros_Cons)
  next
    case False
    then have "tl (split_zeros (c # cs)) = tl (split_zeros cs)"
      by (cases "split_zeros cs") auto
    then show ?thesis using Cons False by (auto simp: adjacent_zeros_Cons)
  qed
qed simp

lemma T4_iff_fields:
  assumes "cs \<noteq> []"
  shows "T4 cs \<longleftrightarrow> [] \<notin> set (split_zeros cs) \<and> length (split_zeros cs) \<le> 4"
proof -
  have "[] \<in> set (split_zeros cs) \<longleftrightarrow>
      hd (split_zeros cs) = [] \<or> [] \<in> set (tl (split_zeros cs))"
    by (cases "split_zeros cs") auto
  then show ?thesis
    using assms hd_split_zeros_Nil [of cs] tl_split_zeros_Nil [of cs] length_split_zeros [of cs]
    by (auto simp: T4_unfold)
qed

definition addr_fields :: "address \<Rightarrow> nat list list" where
  "addr_fields a = split_zeros (comps (tumbler a))"

lemma comps_join_fields: "comps (tumbler a) = join_zeros (addr_fields a)"
  by (simp add: addr_fields_def)

lemma wf_address_iff_fields:
  "wf_address a \<longleftrightarrow>
     [] \<notin> set (addr_fields a) \<and> length (addr_fields a) \<le> 4 \<and>
     level a = [Node, Account, Document, Element] ! (length (addr_fields a) - 1)"
  by (auto simp: wf_address_def addr_fields_def T4_iff_fields length_split_zeros level_of_def)


lemma fields_not_Nil [simp]: "addr_fields a \<noteq> []"
  by (simp add: addr_fields_def)

lemma fields_zero_free: "f \<in> set (addr_fields a) \<Longrightarrow> 0 \<notin> set f"
  by (simp add: addr_fields_def split_zeros_zero_free)

lemma length_fields_pos [simp]: "0 < length (addr_fields a)"
  by simp

text \<open>Joining splits at any field boundary.\<close>

lemma join_zeros_append:
  "us \<noteq> [] \<Longrightarrow> vs \<noteq> [] \<Longrightarrow> join_zeros (us @ vs) = join_zeros us @ 0 # join_zeros vs"
  by (induction us rule: join_zeros.induct) (auto simp: join_zeros_Cons)

lemma join_zeros_take_drop:
  assumes "0 < n" "n < length fs"
  shows "join_zeros fs = join_zeros (take n fs) @ 0 # join_zeros (drop n fs)"
proof -
  have "join_zeros (take n fs @ drop n fs) = join_zeros (take n fs) @ 0 # join_zeros (drop n fs)"
    using assms by (intro join_zeros_append) auto
  then show ?thesis by simp
qed

lemma zero_positions_Nil [simp]: "zero_positions [] = []"
  by (simp add: zero_positions_def)

lemma enumerate_Suc_zero: "enumerate (Suc n) xs = map (\<lambda>(i, x). (Suc i, x)) (enumerate n xs)"
  by (induction xs arbitrary: n) auto

lemma zero_positions_Cons:
  "zero_positions (c # cs) = (if c = 0 then [0] else []) @ map Suc (zero_positions cs)"
  by (simp add: zero_positions_def nat_is_zero_def enumerate_Suc_zero filter_map comp_def
      case_prod_unfold)

lemma zero_positions_append:
  "zero_positions (xs @ ys) = zero_positions xs @ map ((+) (length xs)) (zero_positions ys)"
  by (induction xs) (auto simp: zero_positions_Cons comp_def)

lemma zero_positions_zero_free: "0 \<notin> set cs \<Longrightarrow> zero_positions cs = []"
  by (induction cs) (auto simp: zero_positions_Cons)

lemma length_zero_positions: "length (zero_positions cs) = count_list cs 0"
  by (induction cs) (auto simp: zero_positions_Cons)

text \<open>The \<open>k\<close>-th zero of a joined sequence ends its first \<open>k + 1\<close> fields.\<close>

lemma zero_positions_nth:
  assumes "\<forall>f \<in> set fs. 0 \<notin> set f" "Suc k < length fs"
  shows "zero_positions (join_zeros fs) ! k = length (join_zeros (take (Suc k) fs))"
  using assms
proof (induction fs arbitrary: k rule: join_zeros.induct)
  case (3 f f' fs)
  have pos: "zero_positions (join_zeros (f # f' # fs)) =
      length f # map (\<lambda>i. Suc (length f + i)) (zero_positions (join_zeros (f' # fs)))"
    using 3 by (simp add: zero_positions_append zero_positions_zero_free zero_positions_Cons)
  show ?case
  proof (cases k)
    case 0
    then show ?thesis using pos by simp
  next
    case (Suc k')
    have "length (zero_positions (join_zeros (f' # fs))) = length (f' # fs) - 1"
      using "3.prems"(1) length_split_zeros [of "join_zeros (f' # fs)"]
        split_join_zeros [of "f' # fs"]
      by (simp add: length_zero_positions)
    then have "k' < length (zero_positions (join_zeros (f' # fs)))"
      using Suc "3.prems"(2) by simp
    then show ?thesis
      using pos Suc 3 by (simp add: join_zeros_Cons)
  qed
qed auto

lemma length_zero_positions_fields:
  "length (zero_positions (comps (tumbler a))) = length (addr_fields a) - 1"
  by (simp add: length_zero_positions addr_fields_def length_split_zeros)

lemma separator_eq [returns]:
  assumes "0 < n"
  shows "separator a n =
    ret (if n < length (addr_fields a) then Some (length (join_zeros (take n (addr_fields a)))) else None)"
proof -
  have "zero_positions (comps (tumbler a)) ! (n - 1) = length (join_zeros (take n (addr_fields a)))"
    if "n < length (addr_fields a)"
    using that assms zero_positions_nth [of "addr_fields a" "n - 1"]
    by (simp add: comps_join_fields fields_zero_free)
  then show ?thesis
    using assms length_zero_positions_fields [of a] by (auto simp: separator_def Let_def)
qed

lemma field_eq [returns]:
  assumes "0 < n"
  shows "field a n = ret (if n < length (addr_fields a) then Some (addr_fields a ! n) else None)"
proof (cases "n < length (addr_fields a)")
  case False
  then show ?thesis using assms by (simp add: field_def separator_eq)
next
  case True
  let ?fs = "addr_fields a"
  let ?pre = "join_zeros (take n ?fs) @ [0]"
  let ?e = "if n + 1 < length ?fs then length (join_zeros (take (n + 1) ?fs))
            else tumbler_len (tumbler a)"
  let ?post = "if n + 1 < length ?fs then 0 # join_zeros (drop (n + 1) ?fs) else []"
  have drop: "drop n ?fs = ?fs ! n # drop (n + 1) ?fs" using True by (simp add: Cons_nth_drop_Suc)
  have "join_zeros (drop n ?fs) = ?fs ! n @ ?post"
    using True by (auto simp: drop join_zeros_Cons)
  then have cs: "comps (tumbler a) = ?pre @ ?fs ! n @ ?post"
    using join_zeros_take_drop [OF assms True] comps_join_fields [of a] by simp
  have "join_zeros (take (n + 1) ?fs) = ?pre @ ?fs ! n"
    using True assms by (simp add: take_Suc_conv_app_nth join_zeros_append)
  then have e: "?e = length ?pre + length (?fs ! n)"
    using cs by (auto simp: tumbler_len_def)
  have "subslice (comps (tumbler a)) (length ?pre) ?e = ret (?fs ! n)"
    unfolding e cs by (rule subslice_append3)
  then show ?thesis
    using True assms by (simp add: field_def separator_eq Let_def split: if_splits)
qed

lemma node_field_eq [returns]: "node_field a = ret (addr_fields a ! 0)"
proof (cases "length (addr_fields a) = 1")
  case True
  then obtain f where "addr_fields a = [f]" by (auto simp: length_Suc_conv)
  then show ?thesis using comps_join_fields [of a]
    by (simp add: node_field_def separator_eq)
next
  case False
  then have len: "1 < length (addr_fields a)"
    using length_fields_pos [of a] by linarith
  then have "take 1 (addr_fields a) = [addr_fields a ! 0]" by (cases "addr_fields a") auto
  then have "comps (tumbler a) = addr_fields a ! 0 @ 0 # join_zeros (drop 1 (addr_fields a))"
    using join_zeros_take_drop [of 1 "addr_fields a"] len comps_join_fields [of a] by simp
  then show ?thesis using len \<open>take 1 (addr_fields a) = _\<close>
    by (simp add: node_field_def separator_eq)
qed

lemmas field_projections_defs = account_field_def document_field_def element_field_def


text \<open>The level of a well-formed address counts its fields.\<close>

lemma wf_address_level:
  assumes "wf_address a"
  shows "level a = Node \<longleftrightarrow> length (addr_fields a) = 1"
    and "level a = Account \<longleftrightarrow> length (addr_fields a) = 2"
    and "level a = Document \<longleftrightarrow> length (addr_fields a) = 3"
    and "level a = Element \<longleftrightarrow> length (addr_fields a) = 4"
proof -
  have "1 \<le> length (addr_fields a)" "length (addr_fields a) \<le> 4"
    using assms by (simp_all add: wf_address_iff_fields Suc_le_eq)
  then have "length (addr_fields a) = 1 \<or> length (addr_fields a) = 2 \<or>
      length (addr_fields a) = 3 \<or> length (addr_fields a) = 4" by arith
  moreover have "level a = [Node, Account, Document, Element] ! (length (addr_fields a) - 1)"
    using assms by (simp add: wf_address_iff_fields)
  ultimately show "level a = Node \<longleftrightarrow> length (addr_fields a) = 1"
    "level a = Account \<longleftrightarrow> length (addr_fields a) = 2"
    "level a = Document \<longleftrightarrow> length (addr_fields a) = 3"
    "level a = Element \<longleftrightarrow> length (addr_fields a) = 4"
    by (auto simp: numeral_2_eq_2 numeral_3_eq_3)
qed

lemma wf_field_nonempty: "wf_address a \<Longrightarrow> f \<in> set (addr_fields a) \<Longrightarrow> f \<noteq> []"
  by (auto simp: wf_address_iff_fields)

lemma wf_field_positive: "wf_address a \<Longrightarrow> f \<in> set (addr_fields a) \<Longrightarrow> 0 < f ! 0"
  using fields_zero_free [of f a] wf_field_nonempty [of a f]
  by (metis length_greater_0_conv neq0_conv nth_mem)

lemma subspace_eq [returns]:
  assumes "wf_address a"
  shows "subspace a = ret (if level a = Element then Some (addr_fields a ! 3 ! 0) else None)"
proof (cases "level a = Element")
  case True
  then have "3 < length (addr_fields a)" using wf_address_level [OF assms] by simp
  then show ?thesis
    using True wf_field_nonempty [OF assms, of "addr_fields a ! 3"]
    by (simp add: subspace_def element_field_def field_eq)
next
  case False
  then have "\<not> 3 < length (addr_fields a)"
    using assms wf_address_level [OF assms] by (auto simp: wf_address_iff_fields)
  then show ?thesis using False by (simp add: subspace_def element_field_def field_eq)
qed

lemma document_prefix_eq [returns]:
  assumes "wf_address a"
  shows "document_prefix a =
    ret (if 3 \<le> length (addr_fields a) then Some (join_zeros (take 3 (addr_fields a))) else None)"
proof (cases "level a")
  case Element
  then have len: "length (addr_fields a) = 4" using wf_address_level [OF assms] by simp
  then have "take (length (join_zeros (take 3 (addr_fields a)))) (comps (tumbler a))
      = join_zeros (take 3 (addr_fields a))"
    and "length (join_zeros (take 3 (addr_fields a))) \<le> length (comps (tumbler a))"
    using join_zeros_take_drop [of 3 "addr_fields a"] comps_join_fields [of a] by simp_all
  then show ?thesis using Element len by (simp add: document_prefix_def separator_eq)
next
  case Document
  then have "length (addr_fields a) = 3" using wf_address_level [OF assms] by simp
  then show ?thesis using Document comps_join_fields [of a] by (simp add: document_prefix_def)
qed (use wf_address_level [OF assms] in \<open>auto simp: document_prefix_def\<close>)

lemma same_node_eq [returns]: "same_node a b = ret (addr_fields a ! 0 = addr_fields b ! 0)"
  by (simp add: same_node_def node_field_eq)

lemma same_account_eq [returns]:
  "same_account a b =
     ret (2 \<le> length (addr_fields a) \<and> 2 \<le> length (addr_fields b) \<and> take 2 (addr_fields a) = take 2 (addr_fields b))"
proof (cases "1 < length (addr_fields a) \<and> 1 < length (addr_fields b)")
  case True
  then have "take 2 (addr_fields a) = [addr_fields a ! 0, addr_fields a ! 1]"
    "take 2 (addr_fields b) = [addr_fields b ! 0, addr_fields b ! 1]"
    by (simp_all add: numeral_2_eq_2 take_Suc_conv_app_nth)
  then show ?thesis using True
    by (auto simp: same_account_def account_field_def field_eq same_node_eq)
qed (auto simp: same_account_def account_field_def field_eq)

lemma same_document_eq [returns]:
  "same_document a b =
     ret (3 \<le> length (addr_fields a) \<and> 3 \<le> length (addr_fields b) \<and> take 3 (addr_fields a) = take 3 (addr_fields b))"
proof (cases "2 < length (addr_fields a) \<and> 2 < length (addr_fields b)")
  case True
  then have "take 3 (addr_fields a) = take 2 (addr_fields a) @ [addr_fields a ! 2]"
    "take 3 (addr_fields b) = take 2 (addr_fields b) @ [addr_fields b ! 2]"
    by (simp_all add: numeral_3_eq_3 numeral_2_eq_2 take_Suc_conv_app_nth)
  then show ?thesis using True
    by (auto simp: same_document_def document_field_def field_eq same_account_eq)
qed (auto simp: same_document_def document_field_def field_eq)

section \<open>Well-formed prefixes: parent and document of\<close>

lemma split_zeros_snoc:
  "c \<noteq> 0 \<Longrightarrow> split_zeros (cs @ [c]) = butlast (split_zeros cs) @ [last (split_zeros cs) @ [c]]"
proof (induction cs)
  case (Cons a cs)
  then show ?case by (cases "split_zeros cs") auto
qed simp

lemma count_list_0_prefix: "prefix ps cs \<Longrightarrow> count_list ps (0::nat) \<le> count_list cs 0"
  by (auto simp: prefix_def)

lemma adjacent_zeros_append:
  "adjacent_zeros xs \<Longrightarrow> adjacent_zeros (xs @ ys)" "adjacent_zeros ys \<Longrightarrow> adjacent_zeros (xs @ ys)"
  by (induction xs) (auto simp: adjacent_zeros_Cons)

text \<open>A nonempty prefix of a valid sequence that ends on a nonzero component is valid.\<close>

lemma T4_prefix:
  assumes "T4 cs" "prefix ps cs" "ps \<noteq> []" "last ps \<noteq> 0"
  shows "T4 ps"
proof -
  obtain zs where cs: "cs = ps @ zs" using assms(2) by (auto simp: prefix_def)
  then have "hd ps \<noteq> 0" using assms(1,3) by (simp add: T4_unfold)
  moreover have "\<not> adjacent_zeros ps" using assms(1) cs adjacent_zeros_append(1) T4_unfold by blast
  moreover have "count_list ps 0 \<le> 3"
    using assms(1) count_list_0_prefix [OF assms(2)] by (simp add: T4_unfold)
  ultimately show ?thesis using assms(4) by (simp add: T4_unfold)
qed


lemma adjacent_zeros_nth:
  "adjacent_zeros cs \<longleftrightarrow> (\<exists>i. Suc i < length cs \<and> cs ! i = 0 \<and> cs ! Suc i = 0)"
proof (induction cs)
  case (Cons c cs)
  have "(\<exists>i. Suc i < length (c # cs) \<and> (c # cs) ! i = 0 \<and> (c # cs) ! Suc i = 0) \<longleftrightarrow>
      (cs \<noteq> [] \<and> c = 0 \<and> cs ! 0 = 0) \<or> (\<exists>i. Suc i < length cs \<and> cs ! i = 0 \<and> cs ! Suc i = 0)"
    (is "(\<exists>i. ?P i) \<longleftrightarrow> ?Q")
  proof
    assume "\<exists>i. ?P i"
    then obtain i where "?P i" by blast
    then show ?Q by (cases i) auto
  next
    assume ?Q
    then show "\<exists>i. ?P i"
    proof
      assume "cs \<noteq> [] \<and> c = 0 \<and> cs ! 0 = 0"
      then show ?thesis by (intro exI [of _ 0]) auto
    next
      assume "\<exists>i. Suc i < length cs \<and> cs ! i = 0 \<and> cs ! Suc i = 0"
      then obtain i where "Suc i < length cs \<and> cs ! i = 0 \<and> cs ! Suc i = 0" by blast
      then show ?thesis by (intro exI [of _ "Suc i"]) auto
    qed
  qed
  then show ?case using Cons by (auto simp: adjacent_zeros_Cons hd_conv_nth)
qed simp

lemma last_take: "0 < m \<Longrightarrow> m \<le> length xs \<Longrightarrow> last (take m xs) = xs ! (m - 1)"
  by (subst last_conv_nth) (auto simp: min_def)

text \<open>The peel \<open>parent\<close> makes, as the length of the prefix it keeps.\<close>

definition peel :: "nat list \<Rightarrow> nat" where
  "peel cs = (if cs ! (length cs - 2) = 0 then length cs - 2 else length cs - 1)"

lemma peel_bounds:
  assumes "T4 cs" "2 \<le> length cs"
  shows "0 < peel cs" "peel cs < length cs" "T4 (take (peel cs) cs)"
proof -
  have nz: "cs ! 0 \<noteq> 0" using assms by (cases cs) (auto simp: T4_unfold)
  have "peel cs \<noteq> 0" using nz assms(2) by (cases "length cs = 2") (auto simp: peel_def)
  then show pos: "0 < peel cs" by simp
  show less: "peel cs < length cs" using assms(2) by (auto simp: peel_def)
  have "cs ! (peel cs - 1) \<noteq> 0"
  proof (cases "cs ! (length cs - 2) = 0")
    case False
    then show ?thesis by (simp add: peel_def numeral_2_eq_2)
  next
    case True
    then have p: "peel cs = length cs - 2" by (simp add: peel_def)
    show ?thesis
    proof
      assume z: "cs ! (peel cs - 1) = 0"
      have "Suc (peel cs - 1) = peel cs" using pos by simp
      then have "Suc (peel cs - 1) < length cs \<and> cs ! (peel cs - 1) = 0 \<and> cs ! Suc (peel cs - 1) = 0"
        using less z True p by metis
      then have "adjacent_zeros cs" unfolding adjacent_zeros_nth by blast
      then show False using assms(1) by (simp add: T4_unfold)
    qed
  qed
  then have "last (take (peel cs) cs) \<noteq> 0" using pos less by (simp add: last_take)
  then show "T4 (take (peel cs) cs)"
    using pos less by (intro T4_prefix [OF assms(1) take_is_prefix]) auto
qed

lemma peel_greatest:
  assumes "T4 ps" "strict_prefix ps cs" "ps \<noteq> []"
  shows "prefix ps (take (peel cs) cs)"
proof -
  have ps: "ps = take (length ps) cs" and len: "length ps < length cs"
    using assms(2) by (auto simp: strict_prefix_def prefix_def)
  have "cs ! (length ps - 1) \<noteq> 0"
    using assms(1,3) ps len last_take [of "length ps" cs] by (simp add: T4_unfold)
  then have "length ps \<le> peel cs"
    using len by (cases "length ps = length cs - 1") (auto simp: peel_def numeral_2_eq_2)
  then show ?thesis by (metis ps take_is_prefix take_take min.absorb1)
qed

lemma parent_eq [returns]:
  assumes "wf_address a" "2 \<le> tumbler_len (tumbler a)"
  obtains p where "parent a = ret (Some p)" "wf_address p"
    "comps (tumbler p) = take (peel (comps (tumbler a))) (comps (tumbler a))"
proof -
  let ?cs = "comps (tumbler a)"
  have len: "2 \<le> length ?cs" and T4: "T4 ?cs"
    using assms by (auto simp: tumbler_len_def wf_address_def)
  note peel = peel_bounds [OF T4 len]
  obtain t where t: "comps t = take (peel ?cs) ?cs"
    using ex_comps [of "take (peel ?cs) ?cs"] peel by auto
  let ?p = "\<lparr>tumbler = t, level = level_of (comps t)\<rparr>"
  have "from_vec (take (peel ?cs) ?cs) = ret t" using t by (rule from_vec_eqI)
  moreover have "validate t = ret (Ok ?p)" using t peel(3) by (simp add: validate_eq)
  moreover have "(if nat_is_zero (?cs ! (length ?cs - 1 - 1)) then length ?cs - 1 - 1
      else length ?cs - 1) = peel ?cs"
    by (simp add: peel_def nat_is_zero_def numeral_2_eq_2)
  ultimately have "parent a = ret (Some ?p)"
    using len peel(2) unfolding parent_def Let_def by simp
  moreover have "wf_address ?p" using t peel(3) by (simp add: wf_address_def)
  ultimately show thesis using that t by simp
qed

text \<open>The document-level prefix: the first three fields.\<close>

lemma T4_join_take3:
  assumes "wf_address a" "3 \<le> length (addr_fields a)"
  obtains d where "wf_address d" "level d = Document" "addr_fields d = take 3 (addr_fields a)"
    "comps (tumbler d) = join_zeros (take 3 (addr_fields a))"
proof -
  let ?fs = "take 3 (addr_fields a)"
  have ne: "?fs \<noteq> []" "\<forall>f \<in> set ?fs. 0 \<notin> set f" "[] \<notin> set ?fs" "length ?fs = 3"
    using assms wf_field_nonempty [OF assms(1)] fields_zero_free [of _ a]
    by (auto dest!: in_set_takeD)
  then have split: "split_zeros (join_zeros ?fs) = ?fs" by (simp add: split_join_zeros)
  have "join_zeros ?fs \<noteq> []" using split ne(3) by (metis list.set_intros(1) split_zeros.simps(1))
  then obtain t where t: "comps t = join_zeros ?fs" using ex_comps by blast
  let ?d = "\<lparr>tumbler = t, level = Document\<rparr>"
  have fs: "addr_fields ?d = ?fs" using t split by (simp add: addr_fields_def)
  have "wf_address ?d" using ne fs by (simp add: wf_address_iff_fields numeral_2_eq_2)
  then show thesis using that fs t by simp
qed

lemma document_of_Some [returns]:
  assumes "wf_address a" "3 \<le> length (addr_fields a)"
  obtains d where "document_of a = ret (Some d)" "wf_address d" "level d = Document"
    "addr_fields d = take 3 (addr_fields a)"
proof -
  obtain d where d: "wf_address d" "level d = Document" "addr_fields d = take 3 (addr_fields a)"
    "comps (tumbler d) = join_zeros (take 3 (addr_fields a))"
    using T4_join_take3 [OF assms] by blast
  show thesis
  proof (cases "level a = Document")
    case True
    then have "length (addr_fields a) = 3" using wf_address_level [OF assms(1)] by simp
    then have "tumbler d = tumbler a" using d(4) comps_join_fields [of a] by (simp flip: comps_inject)
    then have "d = a" using wf_address_eqI d(1) assms(1) by blast
    then show ?thesis using that [of a] True assms d by (simp add: document_of_def)
  next
    case False
    have "from_vec (join_zeros (take 3 (addr_fields a))) = ret (tumbler d)"
      using d(4) by (rule from_vec_eqI)
    then have "document_of a = ret (Some d)"
      using False assms d validate_wf [OF d(1)]
      by (simp add: document_of_def document_prefix_eq)
    then show ?thesis using that d by blast
  qed
qed

lemma document_of_None [returns]:
  assumes "wf_address a" "length (addr_fields a) < 3"
  shows "document_of a = ret None"
  using assms wf_address_level [OF assms(1)] by (simp add: document_of_def document_prefix_eq)


lemma document_of_longest:
  assumes "wf_address a" "document_of a = ret (Some d)"
    and "wf_address e" "level e = Document" "is_prefix (tumbler e) (tumbler a)"
  shows "is_prefix (tumbler e) (tumbler d)"
proof (cases "length (addr_fields a) = 3")
  case True
  then have "d = a" using assms wf_address_level [OF assms(1)] by (simp add: document_of_def)
  then show ?thesis using assms by simp
next
  case False
  have "3 \<le> length (addr_fields a)" using assms document_of_None [OF assms(1)] by fastforce
  then have len: "3 < length (addr_fields a)" using False by simp
  let ?P = "join_zeros (take 3 (addr_fields a))"
  have "addr_fields d = take 3 (addr_fields a)"
    using document_of_Some [OF assms(1)] len assms(2) by (metis less_imp_le option.inject)
  then have d: "comps (tumbler d) = ?P" using comps_join_fields [of d] by simp
  have cs: "comps (tumbler a) = ?P @ 0 # join_zeros (drop 3 (addr_fields a))"
    using join_zeros_take_drop [of 3 "addr_fields a"] len comps_join_fields [of a] by simp
  have "\<not> prefix (?P @ [0]) (comps (tumbler e))"
  proof
    assume "prefix (?P @ [0]) (comps (tumbler e))"
    then have "count_list (?P @ [0]) 0 \<le> count_list (comps (tumbler e)) 0"
      by (rule count_list_0_prefix)
    moreover have "count_list ?P 0 = 2"
      using length_split_zeros [of "comps (tumbler d)"] \<open>addr_fields d = _\<close> d len
      by (simp add: addr_fields_def)
    moreover have "count_list (comps (tumbler e)) 0 = 2"
      using wf_address_level(3) [OF assms(3)] assms(4) length_split_zeros [of "comps (tumbler e)"]
      by (simp add: addr_fields_def)
    ultimately show False by simp
  qed
  moreover have "prefix (comps (tumbler e)) ((?P @ [0]) @ join_zeros (drop 3 (addr_fields a)))"
    using assms(5) cs by (simp add: is_prefix_iff)
  then have "prefix (comps (tumbler e)) (?P @ [0]) \<or> prefix (?P @ [0]) (comps (tumbler e))"
    by (metis prefix_def prefix_same_cases)
  ultimately have "prefix (comps (tumbler e)) ?P"
    by (metis prefix_order.refl prefix_snoc)
  then show ?thesis using d by (simp add: is_prefix_iff)
qed

lemma document_of_is_prefix:
  assumes "wf_address a" "document_of a = ret (Some d)"
  shows "is_prefix (tumbler d) (tumbler a)"
proof -
  have len: "3 \<le> length (addr_fields a)" using assms document_of_None [OF assms(1)] by fastforce
  then have "addr_fields d = take 3 (addr_fields a)"
    using document_of_Some [OF assms(1)] assms(2) by (metis option.inject)
  then have "comps (tumbler d) = join_zeros (take 3 (addr_fields a))"
    using comps_join_fields [of d] by simp
  moreover have "prefix (join_zeros (take 3 (addr_fields a))) (join_zeros (addr_fields a))"
  proof (cases "length (addr_fields a) = 3")
    case False
    then show ?thesis using len join_zeros_take_drop [of 3 "addr_fields a"] by simp
  qed simp
  ultimately show ?thesis using comps_join_fields [of a] by (simp add: is_prefix_iff)
qed

lemma under_document_eq [returns]:
  assumes "wf_address a" "wf_address b"
  shows "under_document a b = ret (3 \<le> length (addr_fields a) \<and> 3 \<le> length (addr_fields b) \<and>
    prefix (join_zeros (take 3 (addr_fields b))) (comps (tumbler a)))"
proof -
  have "level a = Document \<or> level a = Element \<longleftrightarrow> 3 \<le> length (addr_fields a)"
    using assms(1) wf_address_level [OF assms(1)] by (auto simp: wf_address_iff_fields)
  then show ?thesis using assms(2) by (auto simp: under_document_def document_prefix_eq)
qed


lemma document_of_cases:
  assumes "wf_address a"
  obtains r where "document_of a = ret r" "r = None \<longleftrightarrow> length (addr_fields a) < 3"
    "\<forall>d. r = Some d \<longrightarrow> wf_address d \<and> level d = Document \<and>
       comps (tumbler d) = join_zeros (take 3 (addr_fields a)) \<and> addr_fields d = take 3 (addr_fields a)"
proof (cases "length (addr_fields a) < 3")
  case True
  then show thesis using that [of None] document_of_None [OF assms] by simp
next
  case False
  then obtain d where d: "document_of a = ret (Some d)" "wf_address d" "level d = Document"
    "addr_fields d = take 3 (addr_fields a)"
    using document_of_Some [OF assms] by (metis not_less)
  then have "comps (tumbler d) = join_zeros (take 3 (addr_fields a))"
    using comps_join_fields [of d] by simp
  then show thesis using that [of "Some d"] d False by simp
qed

section \<open>Properties\<close>

text \<open>Sample addresses for the witnesses: an account, a document and one of its elements.\<close>

definition sample_account :: address where
  "sample_account = \<lparr>tumbler = Tumbler 1 [0, 2], level = Account\<rparr>"

definition sample_doc :: address where
  "sample_doc = \<lparr>tumbler = Tumbler 1 [0, 2, 0, 3], level = Document\<rparr>"

definition sample_elem :: address where
  "sample_elem = \<lparr>tumbler = Tumbler 1 [0, 2, 0, 3, 0, 1, 5], level = Element\<rparr>"

lemma wf_samples [simp]:
  "wf_address sample_account" "wf_address sample_doc" "wf_address sample_elem"
  by (simp_all add: sample_account_def sample_doc_def sample_elem_def wf_address_def T4_unfold
      level_of_def numeral_2_eq_2 numeral_3_eq_3)

lemma level_samples [simp]:
  "level sample_account = Account" "level sample_doc = Document" "level sample_elem = Element"
  by (simp_all add: sample_account_def sample_doc_def sample_elem_def)

text \<open>
  C11: \<open>validate\<close> always returns. It admits a tumbler exactly when cutting its components at the
  zeros leaves one to four nonempty fields, and then carries that tumbler with the level the
  classifier reports; otherwise the error lists every violated clause once, and no other.
\<close>

theorem validate_exact:
  "\<exists>r. validate t = ret r \<and>
     (case r of
        Ok a \<Rightarrow> tumbler a = t \<and> wf_address a \<and> classify t = ret (class_from_level (level a)) \<and>
          [] \<notin> set (split_zeros (comps t)) \<and> length (split_zeros (comps t)) \<le> 4
      | Err e \<Rightarrow> classify t = ret ClassInvalid \<and> distinct (clauses e) \<and>
          set (clauses e) = {c. violates (comps t) c} \<and>
          ([] \<in> set (split_zeros (comps t)) \<or> 4 < length (split_zeros (comps t))))"
proof (cases "T4 (comps t)")
  case True
  then show ?thesis
    using T4_iff_fields [of "comps t"] by (simp add: validate_eq classify_eq wf_address_def)
next
  case False
  let ?cs = "filter (violates (comps t)) [LeadingZero, TrailingZero, AdjacentZeros, OverDepth]"
  have "distinct ?cs" by (rule distinct_filter) simp
  moreover have "c \<in> set [LeadingZero, TrailingZero, AdjacentZeros, OverDepth]" for c
    by (cases c) simp_all
  then have "set ?cs = {c. violates (comps t) c}" unfolding set_filter by blast
  ultimately show ?thesis
    using False T4_iff_fields [of "comps t"]
    by (auto simp: validate_eq classify_eq simp del: filter.simps)
qed

text \<open>
  the field projections decompose an address. None of them panics; each field is present
  exactly when the level says so, is nonempty and zero free, and the components are the fields
  with one zero between each two. The subspace of an element is the first numeral of its
  element field.
\<close>

theorem fields_decompose:
  assumes "wf_address a"
  shows "\<exists>fs. (\<forall>f \<in> set fs. f \<noteq> [] \<and> 0 \<notin> set f) \<and>
    fs = take (case level a of Node \<Rightarrow> 1 | Account \<Rightarrow> 2 | Document \<Rightarrow> 3 | Element \<Rightarrow> 4) fs \<and>
    comps (tumbler a) = join_zeros fs \<and>
    node_field a = ret (fs ! 0) \<and>
    account_field a = ret (if level a = Node then None else Some (fs ! 1)) \<and>
    document_field a = ret (if level a = Document \<or> level a = Element then Some (fs ! 2) else None) \<and>
    element_field a = ret (if level a = Element then Some (fs ! 3) else None) \<and>
    subspace a = ret (if level a = Element then Some (fs ! 3 ! 0) else None)"
proof (intro exI [of _ "addr_fields a"] conjI)
  note lv = wf_address_level [OF assms]
  show "\<forall>f \<in> set (addr_fields a). f \<noteq> [] \<and> 0 \<notin> set f"
    using wf_field_nonempty [OF assms] fields_zero_free [of _ a] by blast
  show "addr_fields a =
      take (case level a of Node \<Rightarrow> 1 | Account \<Rightarrow> 2 | Document \<Rightarrow> 3 | Element \<Rightarrow> 4) (addr_fields a)"
    using lv by (cases "level a") simp_all
  show "account_field a = ret (if level a = Node then None else Some (addr_fields a ! 1))"
    using lv by (cases "level a") (simp_all add: account_field_def field_eq)
  show "document_field a =
      ret (if level a = Document \<or> level a = Element then Some (addr_fields a ! 2) else None)"
    using lv by (cases "level a") (simp_all add: document_field_def field_eq)
  show "element_field a = ret (if level a = Element then Some (addr_fields a ! 3) else None)"
    using lv by (cases "level a") (simp_all add: element_field_def field_eq)
  show "subspace a = ret (if level a = Element then Some (addr_fields a ! 3 ! 0) else None)"
    by (rule subspace_eq [OF assms])
qed (simp_all add: comps_join_fields node_field_eq)

theorem fields_decompose_witness:
  "\<exists>fs. comps (tumbler sample_elem) = join_zeros fs \<and> element_field sample_elem = ret (Some (fs ! 3)) \<and>
     subspace sample_elem = ret (Some (fs ! 3 ! 0))"
  using fields_decompose [OF wf_samples(3)] by auto

text \<open>
  \<open>parent\<close> never panics on an address. It is \<open>None\<close> exactly for a single component, and
  otherwise the longest proper prefix that is itself an address.
\<close>

theorem parent_longest:
  assumes "wf_address a"
  shows "\<exists>r. parent a = ret r \<and>
    (case r of
       None \<Rightarrow> tumbler_len (tumbler a) = 1
     | Some p \<Rightarrow> wf_address p \<and> strict_prefix (comps (tumbler p)) (comps (tumbler a)) \<and>
         (\<forall>q. wf_address q \<and> strict_prefix (comps (tumbler q)) (comps (tumbler a))
            \<longrightarrow> is_prefix (tumbler q) (tumbler p)))"
proof (cases "tumbler_len (tumbler a) = 1")
  case True
  then show ?thesis by (simp add: parent_def tumbler_len_def Let_def)
next
  case False
  then have len: "2 \<le> tumbler_len (tumbler a)"
    using tumbler_len_pos(1) [of "tumbler a"] by linarith
  obtain p where p: "parent a = ret (Some p)" "wf_address p"
    "comps (tumbler p) = take (peel (comps (tumbler a))) (comps (tumbler a))"
    by (rule parent_eq [OF assms len])
  have "peel (comps (tumbler a)) < length (comps (tumbler a))"
    using peel_bounds(2) assms len by (simp add: wf_address_def tumbler_len_def)
  then have "length (comps (tumbler p)) \<noteq> length (comps (tumbler a))" using p(3) by simp
  then have "strict_prefix (comps (tumbler p)) (comps (tumbler a))"
    using p(3) by (metis strict_prefixI take_is_prefix)
  then show ?thesis
    using p peel_greatest by (auto simp: is_prefix_iff wf_address_def)
qed

theorem parent_longest_witness:
  "\<exists>r. parent sample_elem = ret r \<and>
    (case r of
       None \<Rightarrow> tumbler_len (tumbler sample_elem) = 1
     | Some p \<Rightarrow> wf_address p \<and> strict_prefix (comps (tumbler p)) (comps (tumbler sample_elem)) \<and>
         (\<forall>q. wf_address q \<and> strict_prefix (comps (tumbler q)) (comps (tumbler sample_elem))
            \<longrightarrow> is_prefix (tumbler q) (tumbler p)))"
  using parent_longest [OF wf_samples(3)] .

text \<open>
  \<open>document_of\<close> never panics on an address; it is \<open>None\<close> exactly below document level, and
  otherwise the longest document-level prefix. The containment tests agree with it: two
  addresses share a document exactly when their documents are equal, and an address lies under
  another's document exactly when it is itself at document level or below and extends it.
\<close>

theorem document_of_containment:
  assumes "wf_address a" "wf_address b"
  shows "\<exists>da db. document_of a = ret da \<and> document_of b = ret db \<and>
    (da = None \<longleftrightarrow> level a = Node \<or> level a = Account) \<and>
    (case da of None \<Rightarrow> True
     | Some d \<Rightarrow> wf_address d \<and> level d = Document \<and> is_prefix (tumbler d) (tumbler a) \<and>
        (\<forall>e. wf_address e \<and> level e = Document \<and> is_prefix (tumbler e) (tumbler a)
           \<longrightarrow> is_prefix (tumbler e) (tumbler d))) \<and>
    same_document a b = ret (da \<noteq> None \<and> da = db) \<and>
    under_document a b =
      ret (da \<noteq> None \<and> (case db of None \<Rightarrow> False | Some d \<Rightarrow> is_prefix (tumbler d) (tumbler a)))"
proof -
  obtain da where da: "document_of a = ret da" "da = None \<longleftrightarrow> length (addr_fields a) < 3"
    and ca: "\<forall>d. da = Some d \<longrightarrow> wf_address d \<and> level d = Document \<and>
      comps (tumbler d) = join_zeros (take 3 (addr_fields a)) \<and> addr_fields d = take 3 (addr_fields a)"
    by (rule document_of_cases [OF assms(1)])
  obtain db where db: "document_of b = ret db" "db = None \<longleftrightarrow> length (addr_fields b) < 3"
    and cb: "\<forall>d. db = Some d \<longrightarrow> wf_address d \<and> level d = Document \<and>
      comps (tumbler d) = join_zeros (take 3 (addr_fields b)) \<and> addr_fields d = take 3 (addr_fields b)"
    by (rule document_of_cases [OF assms(2)])
  have lv: "length (addr_fields a) < 3 \<longleftrightarrow> level a = Node \<or> level a = Account"
    using wf_address_level [OF assms(1)] assms(1) by (cases "level a") (auto simp: wf_address_iff_fields)
  have same: "same_document a b = ret (da \<noteq> None \<and> da = db)"
  proof (cases "da = None \<or> db = None")
    case True
    then show ?thesis using da(2) db(2) by (auto simp: same_document_eq)
  next
    case False
    then obtain d e where "da = Some d" "db = Some e" by auto
    then have "d = e \<longleftrightarrow> take 3 (addr_fields a) = take 3 (addr_fields b)"
      using ca cb wf_address_eqI [of d e] by (metis comps_inject)
    then show ?thesis using False da(2) db(2) \<open>da = Some d\<close> \<open>db = Some e\<close>
      by (auto simp: same_document_eq)
  qed
  have under: "under_document a b =
      ret (da \<noteq> None \<and> (case db of None \<Rightarrow> False | Some d \<Rightarrow> is_prefix (tumbler d) (tumbler a)))"
  proof (cases db)
    case None
    then show ?thesis using db(2) by (simp add: under_document_eq [OF assms])
  next
    case (Some e)
    then have "comps (tumbler e) = join_zeros (take 3 (addr_fields b))" using cb by simp
    moreover have "3 \<le> length (addr_fields b)" using db(2) Some by simp
    moreover have "3 \<le> length (addr_fields a) \<longleftrightarrow> da \<noteq> None" using da(2) by (simp add: not_less)
    ultimately show ?thesis using Some by (simp add: under_document_eq [OF assms] is_prefix_iff)
  qed
  have "case da of None \<Rightarrow> True
     | Some d \<Rightarrow> wf_address d \<and> level d = Document \<and> is_prefix (tumbler d) (tumbler a) \<and>
        (\<forall>e. wf_address e \<and> level e = Document \<and> is_prefix (tumbler e) (tumbler a)
           \<longrightarrow> is_prefix (tumbler e) (tumbler d))"
    using ca da(1) document_of_is_prefix [OF assms(1)] document_of_longest [OF assms(1)]
    by (cases da) auto
  then show ?thesis using da db lv same under by blast
qed

theorem document_of_containment_witness:
  "\<exists>da db. document_of sample_elem = ret da \<and> document_of sample_doc = ret db \<and>
     same_document sample_elem sample_doc = ret (da \<noteq> None \<and> da = db) \<and>
     under_document sample_elem sample_doc =
      ret (da \<noteq> None \<and> (case db of None \<Rightarrow> False | Some d \<Rightarrow> is_prefix (tumbler d) (tumbler sample_elem)))"
  using document_of_containment [OF wf_samples(3) wf_samples(2)] by blast

end
