(* ===== verification/Arithmetic.thy ===== *)
theory Arithmetic
  imports Addresses
begin

text \<open>
  Position arithmetic and the ordinal shift: \<^verbatim>\<open>crates/skep-address/src/arithmetic.rs\<close>.

  The operators \<^verbatim>\<open>add\<close> and \<^verbatim>\<open>sub\<close> act at the action point of a displacement with no carry;
  \<open>inc\<close>, \<open>shift\<close> and \<open>elem_addr\<close> mint new positions. The lemmas state what each computes,
  that none of their slices, indexes, subtractions or \<^verbatim>\<open>expect\<close>s can fail on the inputs
  that reach them, and the order laws the span algebra and the allocators stand on.
\<close>

section \<open>Definitions\<close>

definition action_point :: "tumbler \<Rightarrow> nat option" where
  "action_point w = map_option (\<lambda>i. i + 1) (position (\<lambda>c. \<not> nat_is_zero c) (comps w))"

datatype add_domain_clause = ZeroDisplacement | AddActionPointTooDeep

definition add_domain :: "tumbler \<Rightarrow> tumbler \<Rightarrow> (nat, add_domain_clause) result" where
  "add_domain a w =
     (case action_point w of
        None \<Rightarrow> Err ZeroDisplacement
      | Some k \<Rightarrow> if k > tumbler_len a then Err AddActionPointTooDeep else Ok k)"

definition sig :: "tumbler \<Rightarrow> nat" where
  "sig t = (case rposition (\<lambda>c. \<not> nat_is_zero c) (comps t) of
              None \<Rightarrow> tumbler_len t | Some i \<Rightarrow> i + 1)"

datatype add_precond = AddPrecond

definition add :: "tumbler \<Rightarrow> tumbler \<Rightarrow> (tumbler, add_precond) result exec" where
  "add a w =
     (case add_domain a w of
        Err _ \<Rightarrow> ret (Err AddPrecond)
      | Ok k \<Rightarrow> do {
          pre \<leftarrow> subslice (comps a) 0 (k - 1);
          x \<leftarrow> index (comps a) (k - 1);
          y \<leftarrow> index (comps w) (k - 1);
          post \<leftarrow> subslice (comps w) k (length (comps w));
          t \<leftarrow> from_vec (pre @ [x + y] @ post);
          ret (Ok t) })"

definition padded_comp :: "tumbler \<Rightarrow> nat \<Rightarrow> nat \<Rightarrow> nat" where
  "padded_comp t i zero = (if i < length (comps t) then comps t ! i else zero)"

datatype sub_precond = SubPrecond

definition sub :: "tumbler \<Rightarrow> tumbler \<Rightarrow> (tumbler, sub_precond) result exec" where
  "sub a w =
     (if a < w then ret (Err SubPrecond)
      else
        let padded_len = max (tumbler_len a) (tumbler_len w);
            padded_divergence =
              find (\<lambda>i. padded_comp a i 0 \<noteq> padded_comp w i 0) [0..<padded_len]
        in case padded_divergence of
             None \<Rightarrow> do { t \<leftarrow> from_vec (replicate padded_len 0); ret (Ok t) }
           | Some d \<Rightarrow> do {
               x \<leftarrow> nat_sub (padded_comp a d 0) (padded_comp w d 0);
               t \<leftarrow> from_vec (replicate d 0 @ [x] @
                              map (\<lambda>i. padded_comp a i 0) [d + 1..<padded_len]);
               ret (Ok t) })"

definition inc :: "tumbler \<Rightarrow> nat \<Rightarrow> tumbler exec" where
  "inc t k =
     (if k = 0 then do {
        x \<leftarrow> index (comps t) (sig t - 1);
        from_vec ((comps t)[sig t - 1 := x + 1]) }
      else from_vec (comps t @ replicate (k - 1) 0 @ [1]))"

definition inc_preserves_t4 :: "address \<Rightarrow> nat \<Rightarrow> bool" where
  "inc_preserves_t4 a k =
     (if k = 0 \<or> k = 1 then True else if k = 2 then level a \<noteq> Element else False)"

datatype gate_violation = GateViolation

definition checked_inc :: "address \<Rightarrow> nat \<Rightarrow> (address, gate_violation) result exec" where
  "checked_inc a k =
     (if \<not> inc_preserves_t4 a k then ret (Err GateViolation)
      else do {
        t \<leftarrow> inc (tumbler a) k;
        r \<leftarrow> validate t;
        b \<leftarrow> expect_ok r;
        ret (Ok b) })"

definition displacement :: "tumbler \<Rightarrow> tumbler \<Rightarrow> tumbler option exec" where
  "displacement a b =
     (if a \<ge> b then ret None
      else if tumbler_len a > tumbler_len b then ret None
      else if is_prefix a b then ret None
      else do { r \<leftarrow> sub b a; w \<leftarrow> expect_ok r; ret (Some w) })"

definition shift :: "tumbler \<Rightarrow> nat \<Rightarrow> tumbler exec" where
  "shift v n = from_vec (butlast (comps v) @ [last (comps v) + n])"

definition next_at_length :: "tumbler \<Rightarrow> tumbler exec" where
  "next_at_length t = shift t 1"

record elem_pos =
  doc :: address
  pos_subspace :: nat
  pos_ordinal :: nat

datatype elem_error = DocNotDocument | SubspaceZero | OrdinalZero

definition elem_addr :: "elem_pos \<Rightarrow> (address, elem_error) result exec" where
  "elem_addr p =
     (if level (doc p) \<noteq> Document then ret (Err DocNotDocument)
      else if nat_is_zero (pos_subspace p) then ret (Err SubspaceZero)
      else if nat_is_zero (pos_ordinal p) then ret (Err OrdinalZero)
      else do {
        t \<leftarrow> from_vec (comps (tumbler (doc p)) @ [0] @ [pos_subspace p] @ [pos_ordinal p]);
        r \<leftarrow> validate t;
        a \<leftarrow> expect_ok r;
        ret (Ok a) })"

definition shift_ordinal :: "elem_pos \<Rightarrow> nat \<Rightarrow> elem_pos" where
  "shift_ordinal p n = p\<lparr>pos_ordinal := pos_ordinal p + n\<rparr>"

section \<open>The action point and the domain of addition\<close>

lemma action_point_None_iff: "action_point w = None \<longleftrightarrow> (\<forall>c \<in> set (comps w). c = 0)"
  by (simp add: action_point_def position_None_iff nat_is_zero_def)

lemma action_point_intro:
  "comps w = replicate n 0 @ y # vs \<Longrightarrow> y \<noteq> 0 \<Longrightarrow> action_point w = Some (Suc n)"
  using position_Some_intro [of "\<lambda>c. \<not> nat_is_zero c" y "replicate n 0" vs]
  by (simp add: action_point_def nat_is_zero_def)

lemma action_point_SomeE:
  assumes "action_point w = Some k"
  obtains n y vs where "k = Suc n" "comps w = replicate n 0 @ y # vs" "0 < y"
proof -
  obtain i where i: "position (\<lambda>c. \<not> nat_is_zero c) (comps w) = Some i" and k: "k = Suc i"
    using assms by (auto simp: action_point_def)
  obtain us y vs where *: "comps w = us @ y # vs" "length us = i" "\<not> nat_is_zero y"
    "\<forall>u \<in> set us. \<not> \<not> nat_is_zero u"
    by (rule position_SomeE [OF i])
  then have "us = replicate i 0"
    by (metis nat_is_zero_def replicate_eqI)
  then show thesis using that * k by (simp add: nat_is_zero_def)
qed

text \<open>
  What \<open>add\<close> returns: the start up to the action point, the sum there, the displacement's
  tail after it.
\<close>

definition oplus :: "tumbler \<Rightarrow> tumbler \<Rightarrow> tumbler" where
  "oplus a w = (case action_point w of
     None \<Rightarrow> a
   | Some k \<Rightarrow> tumbler_of (take (k - 1) (comps a) @
                [comps a ! (k - 1) + comps w ! (k - 1)] @ drop k (comps w)))"

lemma add_domain_Ok_iff:
  "add_domain a w = Ok k \<longleftrightarrow> action_point w = Some k \<and> k \<le> tumbler_len a"
  by (auto simp: add_domain_def split: option.splits)

lemma action_point_bounds: "action_point w = Some k \<Longrightarrow> 0 < k \<and> k \<le> tumbler_len w"
  by (elim action_point_SomeE) (simp add: tumbler_len_def)

lemma add_eq [returns]:
  "add a w = ret (case add_domain a w of Err _ \<Rightarrow> Err AddPrecond | Ok _ \<Rightarrow> Ok (oplus a w))"
proof (cases "add_domain a w")
  case (Inr k)
  then have k: "action_point w = Some k" "k \<le> length (comps a)"
    by (simp_all add: add_domain_Ok_iff tumbler_len_def)
  then have "0 < k" "k \<le> length (comps w)"
    using action_point_bounds [OF k(1)] by (simp_all add: tumbler_len_def)
  moreover have "subslice (comps w) k (length (comps w)) = ret (drop k (comps w))"
    using calculation by (simp add: subslice_def)
  ultimately show ?thesis using Inr k by (simp add: add_def oplus_def)
qed (simp add: add_def)

text \<open>A start and a displacement in \<open>add\<close>'s domain, component by component.\<close>

lemma oplus_shape:
  assumes "add_domain a w = Ok k"
  obtains p x us y vs where "comps a = p @ x # us" "comps w = replicate (length p) 0 @ y # vs"
    "0 < y" "k = Suc (length p)" "comps (oplus a w) = p @ (x + y) # vs"
proof -
  have k: "action_point w = Some k" "k \<le> length (comps a)"
    using assms by (simp_all add: add_domain_Ok_iff tumbler_len_def)
  obtain n y vs where w: "k = Suc n" "comps w = replicate n 0 @ y # vs" "0 < y"
    by (rule action_point_SomeE [OF k(1)])
  have n: "n < length (comps a)" using k w by simp
  let ?p = "take n (comps a)"
  have a: "comps a = ?p @ comps a ! n # drop k (comps a)"
    using n w(1) by (simp add: id_take_nth_drop)
  have "comps (oplus a w) = ?p @ (comps a ! n + y) # vs"
    using k w n by (simp add: oplus_def nth_append)
  moreover have "length ?p = n" using n by simp
  ultimately show thesis using that a w by metis
qed

lemma less_oplus: "add_domain a w = Ok k \<Longrightarrow> a < oplus a w"
  by (elim oplus_shape) (simp add: less_tumbler_def)

lemma tumbler_len_oplus: "add_domain a w = Ok k \<Longrightarrow> tumbler_len (oplus a w) = tumbler_len w"
  by (elim oplus_shape) (simp add: tumbler_len_def)


lemma list_le_take_nth:
  assumes "(xs :: nat list) \<le> ys" "n < length xs" "n < length ys"
  shows "take n xs < take n ys \<or> (take n xs = take n ys \<and> xs ! n \<le> ys ! n)"
  using assms
proof (induction n arbitrary: xs ys)
  case 0
  then show ?case by (cases xs; cases ys) auto
next
  case (Suc n)
  obtain x xs' y ys' where "xs = x # xs'" "ys = y # ys'"
    using Suc.prems by (cases xs; cases ys) auto
  then show ?case using Suc.prems Suc.IH [of xs' ys'] by auto
qed

lemma less_append_same_length:
  "(xs :: nat list) < ys \<Longrightarrow> length xs = length ys \<Longrightarrow> xs @ us < ys @ vs"
  by (elim list_less_same_length) auto

text \<open>Adding one displacement keeps the order of two starts.\<close>

lemma oplus_mono:
  assumes "a \<le> b" "add_domain a w = Ok k" "add_domain b w = Ok k"
  shows "oplus a w \<le> oplus b w"
proof -
  let ?n = "k - 1"
  have k: "action_point w = Some k" "0 < k" "k \<le> length (comps a)" "k \<le> length (comps b)"
    using assms(2,3) action_point_bounds [of w k] by (auto simp: add_domain_Ok_iff tumbler_len_def)
  have shape: "comps (oplus c w) = take ?n (comps c) @ [comps c ! ?n + comps w ! ?n] @ drop k (comps w)"
    for c using k by (simp add: oplus_def)
  have "take ?n (comps a) < take ?n (comps b) \<or>
      (take ?n (comps a) = take ?n (comps b) \<and> comps a ! ?n \<le> comps b ! ?n)"
    using assms(1) k by (intro list_le_take_nth) (auto simp: less_eq_tumbler_def)
  then show ?thesis
  proof
    assume "take ?n (comps a) < take ?n (comps b)"
    then have "comps (oplus a w) < comps (oplus b w)"
      unfolding shape using k by (intro less_append_same_length) auto
    then show ?thesis by (simp add: less_eq_tumbler_def)
  next
    assume "take ?n (comps a) = take ?n (comps b) \<and> comps a ! ?n \<le> comps b ! ?n"
    then show ?thesis unfolding less_eq_tumbler_def shape by (auto simp: le_less)
  qed
qed

section \<open>Subtraction and displacement\<close>

definition ominus :: "tumbler \<Rightarrow> tumbler \<Rightarrow> tumbler" where
  "ominus a w =
     (let n = max (tumbler_len a) (tumbler_len w) in
      tumbler_of (case find (\<lambda>i. padded_comp a i 0 \<noteq> padded_comp w i 0) [0..<n] of
        None \<Rightarrow> replicate n 0
      | Some d \<Rightarrow> replicate d 0 @ [padded_comp a d 0 - padded_comp w d 0] @
                  map (\<lambda>i. padded_comp a i 0) [d + 1..<n]))"

lemma padded_comp_append:
  "comps t = us @ vs \<Longrightarrow> i < length us \<Longrightarrow> padded_comp t i 0 = us ! i"
  by (simp add: padded_comp_def nth_append)

lemma find_upt_SomeD:
  assumes "find P [0..<n] = Some d"
  shows "d < n" "P d" "i < d \<Longrightarrow> \<not> P i"
  using assms by (auto simp: find_Some_iff)

lemma find_upt_SomeI:
  assumes "d < n" "P d" "\<And>i. i < d \<Longrightarrow> \<not> P i"
  shows "find P [0..<n] = Some d"
  using assms by (auto simp: find_Some_iff intro!: exI [of _ d])

lemma padded_divergence_eq:
  assumes "comps a = p @ y # vs" "comps w = p @ x # us" "x \<noteq> y"
  shows "find (\<lambda>i. padded_comp a i 0 \<noteq> padded_comp w i 0)
    [0..<max (tumbler_len a) (tumbler_len w)] = Some (length p)"
  using assms
  by (intro find_upt_SomeI) (auto simp: tumbler_len_def padded_comp_def nth_append)

lemma padded_no_underflow:
  assumes "\<not> a < w"
    and "find (\<lambda>i. padded_comp a i 0 \<noteq> padded_comp w i 0)
      [0..<max (tumbler_len a) (tumbler_len w)] = Some d"
  shows "padded_comp w d 0 \<le> padded_comp a d 0"
proof (cases "a = w")
  case False
  then have "comps w < comps a" using assms(1) by (simp flip: less_tumbler_def)
  then show ?thesis
  proof (cases rule: list_less_cases)
    case prefix
    then obtain zs where zs: "comps a = comps w @ zs" by (auto simp: strict_prefix_def prefix_def)
    then have "\<not> d < length (comps w)"
      using find_upt_SomeD(2) [OF assms(2)] by (auto simp: padded_comp_def nth_append)
    then show ?thesis by (simp add: padded_comp_def)
  next
    case (diverge p x y us vs)
    then have "d = length p" using padded_divergence_eq [of a p y vs w x us] assms(2) by simp
    then show ?thesis using diverge by (simp add: padded_comp_def nth_append)
  qed
qed simp

lemma sub_eq [returns]:
  "sub a w = ret (if a < w then Err SubPrecond else Ok (ominus a w))"
proof (cases "a < w")
  case False
  let ?n = "max (tumbler_len a) (tumbler_len w)"
  let ?div = "find (\<lambda>i. padded_comp a i 0 \<noteq> padded_comp w i 0) [0..<?n]"
  show ?thesis
  proof (cases ?div)
    case None
    have "replicate ?n 0 \<noteq> []" using tumbler_len_pos(1) [of a] by (simp add: max_def)
    then show ?thesis using False None by (simp add: sub_def ominus_def Let_def)
  next
    case (Some d)
    then show ?thesis using False padded_no_underflow [OF False Some]
      by (simp add: sub_def ominus_def Let_def)
  qed
qed (simp add: sub_def)

lemma map_padded_tail:
  assumes "comps a = us @ vs" "length us \<le> n"
  shows "map (\<lambda>i. padded_comp a i 0) [length us..<n] =
    take (n - length us) (vs @ replicate (n - length us) 0)"
  using assms
  by (intro nth_equalityI) (auto simp: padded_comp_def nth_append min_def)

text \<open>
  Past a divergence the difference is zeros, the gap at the divergence, and the minuend's
  tail padded to the longer operand.
\<close>

lemma ominus_diverge:
  assumes "comps a = p @ y # vs" "comps w = p @ x # us" "x < y"
  shows "comps (ominus a w) = replicate (length p) 0 @ (y - x) # vs @ replicate (length us - length vs) 0"
proof -
  let ?n = "max (tumbler_len a) (tumbler_len w)"
  have n: "?n = Suc (length p) + max (length vs) (length us)"
    using assms by (simp add: tumbler_len_def)
  have "map (\<lambda>i. padded_comp a i 0) [length p + 1..<?n] =
      take (?n - length (p @ [y])) (vs @ replicate (?n - length (p @ [y])) 0)"
    using map_padded_tail [of a "p @ [y]" vs ?n] assms(1) n by simp
  also have "\<dots> = vs @ replicate (length us - length vs) 0"
    using n by (auto simp: max_def)
  finally have tail: "map (\<lambda>i. padded_comp a i 0) [length p + 1..<?n] =
      vs @ replicate (length us - length vs) 0" .
  have "padded_comp a (length p) 0 = y" "padded_comp w (length p) 0 = x"
    using assms by (simp_all add: padded_comp_def nth_append)
  then show ?thesis
    using padded_divergence_eq [of a p y vs w x us] assms tail
    by (simp add: ominus_def Let_def)
qed

text \<open>Below a divergence no deeper than the start, subtracting and adding back is exact.\<close>

lemma oplus_ominus:
  assumes "comps a = p @ x # us" "comps b = p @ y # vs" "x < y" "length us \<le> length vs"
  shows "add_domain a (ominus b a) = Ok (Suc (length p))" "oplus a (ominus b a) = b"
    "tumbler_len (ominus b a) = tumbler_len b"
proof -
  have w: "comps (ominus b a) = replicate (length p) 0 @ (y - x) # vs"
    using ominus_diverge [of b p y vs a x us] assms by simp
  then have k: "action_point (ominus b a) = Some (Suc (length p))"
    using assms(3) by (intro action_point_intro) auto
  then show dom: "add_domain a (ominus b a) = Ok (Suc (length p))"
    using assms(1) by (simp add: add_domain_Ok_iff tumbler_len_def)
  have "comps (oplus a (ominus b a)) = p @ (x + (y - x)) # vs"
    using k w assms(1) by (simp add: oplus_def nth_append)
  then show "oplus a (ominus b a) = b" using assms(2,3) by (simp add: tumbler_eq_iff)
  show "tumbler_len (ominus b a) = tumbler_len b" using w assms(2) by (simp add: tumbler_len_def)
qed

lemma displacement_shape:
  assumes "a < b" "tumbler_len a \<le> tumbler_len b" "\<not> is_prefix a b"
  obtains p x us y vs where "comps a = p @ x # us" "comps b = p @ y # vs" "x < y"
    "length us \<le> length vs"
proof -
  have "comps a < comps b" using assms(1) by (simp add: less_tumbler_def)
  then show thesis
  proof (cases rule: list_less_cases)
    case prefix
    then have "is_prefix a b" by (simp add: is_prefix_iff strict_prefix_def)
    then show thesis using assms(3) by blast
  next
    case (diverge p x y us vs)
    then show thesis using that assms(2) by (simp add: tumbler_len_def)
  qed
qed

lemma displacement_eq [returns]:
  "displacement a b = ret (if a < b \<and> tumbler_len a \<le> tumbler_len b \<and> \<not> is_prefix a b
     then Some (ominus b a) else None)"
  by (auto simp: displacement_def sub_eq)

text \<open>A start and a result determine the displacement between them.\<close>

lemma oplus_left_cancel:
  assumes "add_domain a w = Ok k" "add_domain a w' = Ok k'" "oplus a w = oplus a w'"
  shows "w = w'"
proof -
  obtain p x us y vs where 1: "comps a = p @ x # us" "comps w = replicate (length p) 0 @ y # vs"
    "0 < y" "comps (oplus a w) = p @ (x + y) # vs"
    by (rule oplus_shape [OF assms(1)])
  obtain p' x' us' y' vs' where 2: "comps a = p' @ x' # us'"
    "comps w' = replicate (length p') 0 @ y' # vs'" "0 < y'" "comps (oplus a w') = p' @ (x' + y') # vs'"
    by (rule oplus_shape [OF assms(2)])
  have eq: "p @ (x + y) # vs = p' @ (x' + y') # vs'" using 1(4) 2(4) assms(3) by simp
  have "length p = length p'"
  proof (rule ccontr)
    assume "length p \<noteq> length p'"
    then consider (less) "length p < length p'" | (greater) "length p' < length p" by linarith
    then show False
    proof cases
      case less
      then have "p' ! length p = x" "p' ! length p = x + y"
        using 1(1) 2(1) eq by (metis nth_append nth_append_length)+
      then show False using 1(3) by simp
    next
      case greater
      then have "p ! length p' = x'" "p ! length p' = x' + y'"
        using 1(1) 2(1) eq by (metis nth_append nth_append_length)+
      then show False using 2(3) by simp
    qed
  qed
  then have "p = p'" "x = x'" "y = y'" "vs = vs'" using 1(1) 2(1) eq by auto
  then show ?thesis using 1(2) 2(2) by (simp flip: comps_inject)
qed


section \<open>Advancing a position\<close>

lemma sig_shape:
  obtains us x vs where "comps t = us @ x # vs" "sig t = Suc (length us)"
    "x = 0 \<longrightarrow> vs = []" "\<forall>v \<in> set vs. v = 0"
proof (cases "position (\<lambda>c. \<not> nat_is_zero c) (rev (comps t))")
  case None
  then have "sig t = Suc (length (butlast (comps t)))"
    by (simp add: sig_def rposition_def tumbler_len_def)
  then show thesis
    using that [of "butlast (comps t)" "last (comps t)" "[]"] by (simp add: comps_butlast_last)
next
  case (Some i)
  obtain us x vs where *: "rev (comps t) = us @ x # vs" "length us = i" "\<not> nat_is_zero x"
    "\<forall>u \<in> set us. \<not> \<not> nat_is_zero u"
    by (rule position_SomeE [OF Some])
  then have cs: "comps t = rev vs @ x # rev us" by (metis append.assoc append_Cons append_Nil
      rev.simps(2) rev_append rev_rev_ident)
  then have "sig t = Suc (length (rev vs))"
    using Some * by (simp add: sig_def rposition_def)
  then show thesis using that [of "rev vs" x "rev us"] cs * by (simp add: nat_is_zero_def)
qed

lemma sig_T4: "T4 (comps t) \<Longrightarrow> sig t = tumbler_len t"
  using rposition_snoc [of "\<lambda>c. \<not> nat_is_zero c" "last (comps t)" "butlast (comps t)"]
  by (simp add: sig_def T4_unfold nat_is_zero_def tumbler_len_def)

definition inc_comps :: "tumbler \<Rightarrow> nat \<Rightarrow> nat list" where
  "inc_comps t k =
     (if k = 0 then (comps t)[sig t - 1 := comps t ! (sig t - 1) + 1]
      else comps t @ replicate (k - 1) 0 @ [1])"

lemma inc_eq [returns]: "inc t k = ret (tumbler_of (inc_comps t k))"
proof (cases "k = 0")
  case True
  obtain us x vs where "comps t = us @ x # vs" "sig t = Suc (length us)" by (rule sig_shape)
  then show ?thesis using True by (simp add: inc_def inc_comps_def)
qed (simp add: inc_def inc_comps_def)

lemma inc_comps_not_Nil [simp]: "inc_comps t k \<noteq> []"
  by (simp add: inc_comps_def)

lemma less_inc: "t < tumbler_of (inc_comps t k)"
proof (cases "k = 0")
  case True
  obtain us x vs where *: "comps t = us @ x # vs" "sig t = Suc (length us)" by (rule sig_shape)
  then have "inc_comps t k = us @ (x + 1) # vs"
    using True by (simp add: inc_comps_def)
  then show ?thesis using * by (simp add: less_tumbler_def)
qed (simp add: less_tumbler_def inc_comps_def)

text \<open>Cutting at zeros after appending.\<close>

lemma split_zeros_append_zero: "split_zeros (xs @ 0 # ys) = split_zeros xs @ split_zeros ys"
proof (induction xs)
  case (Cons x xs)
  then show ?case by (cases "split_zeros xs") auto
qed simp

lemma T4_snoc_iff:
  assumes "T4 (xs @ [c])" "d \<noteq> 0"
  shows "T4 (xs @ [d])"
proof -
  have c: "c \<noteq> 0" using assms(1) by (simp add: T4_unfold)
  show ?thesis using assms(1)
    by (simp add: T4_iff_fields split_zeros_snoc [OF c] split_zeros_snoc [OF assms(2)])
qed

lemma T4_append_one:
  assumes "T4 cs" "cs \<noteq> []" "d \<noteq> 0"
  shows "T4 (cs @ [d])"
  using assms
  by (auto simp: T4_iff_fields split_zeros_snoc dest: in_set_butlastD)

lemma T4_append_field:
  assumes "T4 cs" "cs \<noteq> []" "f \<noteq> []" "0 \<notin> set f"
  shows "T4 (cs @ 0 # f) \<longleftrightarrow> count_list cs 0 \<le> 2"
proof -
  have "split_zeros f = [f]" using assms(4) by (induction f) auto
  then show ?thesis using assms
    by (auto simp: T4_iff_fields split_zeros_append_zero length_split_zeros)
qed

lemma T4_inc_iff:
  assumes "wf_address a"
  shows "T4 (inc_comps (tumbler a) k) \<longleftrightarrow> inc_preserves_t4 a k"
proof -
  let ?cs = "comps (tumbler a)"
  have T4: "T4 ?cs" using assms by (simp add: wf_address_def)
  consider "k = 0" | "k = 1" | "k = 2" | "3 \<le> k" by linarith
  then show ?thesis
  proof cases
    case 1
    have "?cs = butlast ?cs @ [last ?cs]" by simp
    then have "inc_comps (tumbler a) k = butlast ?cs @ [last ?cs + 1]"
      using 1 sig_T4 [OF T4]
      by (simp add: inc_comps_def tumbler_len_def last_conv_nth list_update_last_eq flip: One_nat_def)
    then show ?thesis using 1 T4_snoc_iff [of "butlast ?cs" "last ?cs" "last ?cs + 1"] T4
      by (simp add: inc_preserves_t4_def)
  next
    case 2
    then show ?thesis using T4_append_one [OF T4] by (simp add: inc_comps_def inc_preserves_t4_def)
  next
    case 3
    have "level a = Element \<longleftrightarrow> count_list ?cs 0 = 3"
      using wf_address_level(4) [OF assms] by (simp add: addr_fields_def length_split_zeros)
    moreover have "count_list ?cs 0 \<le> 3" using T4 by (simp add: T4_unfold)
    ultimately show ?thesis using 3 T4_append_field [OF T4, of "[1]"]
      by (auto simp: inc_comps_def inc_preserves_t4_def)
  next
    case 4
    then obtain j where "k = Suc (Suc (Suc j))" by (auto simp: numeral_3_eq_3 Suc_le_eq less_iff_Suc_add)
    then have "inc_comps (tumbler a) k = ?cs @ 0 # 0 # replicate j 0 @ [1]"
      by (simp add: inc_comps_def)
    then have "adjacent_zeros (inc_comps (tumbler a) k)"
      using adjacent_zeros_append(2) [of "0 # 0 # replicate j 0 @ [1]" ?cs] by simp
    then show ?thesis using 4 by (simp add: T4_unfold inc_preserves_t4_def)
  qed
qed

lemma checked_inc_eq [returns]:
  assumes "wf_address a"
  shows "checked_inc a k = ret (if inc_preserves_t4 a k
    then Ok \<lparr>tumbler = tumbler_of (inc_comps (tumbler a) k),
             level = level_of (inc_comps (tumbler a) k)\<rparr>
    else Err GateViolation)"
  using T4_inc_iff [OF assms, of k] by (simp add: checked_inc_def inc_eq validate_eq)

section \<open>The ordinal shift\<close>

definition advance :: "tumbler \<Rightarrow> nat \<Rightarrow> tumbler" where
  "advance v n = tumbler_of (butlast (comps v) @ [last (comps v) + n])"

lemma comps_advance [simp]: "comps (advance v n) = butlast (comps v) @ [last (comps v) + n]"
  by (simp add: advance_def)

lemma shift_eq [simp, returns]: "shift v n = ret (advance v n)"
  by (simp add: shift_def advance_def)

lemma next_at_length_eq [simp, returns]: "next_at_length v = ret (advance v 1)"
  by (simp add: next_at_length_def)

lemma advance_len [simp]: "tumbler_len (advance v n) = tumbler_len v"
  by (simp add: tumbler_len_def)

lemma ordinal_advance [simp]: "ordinal (advance v n) = ordinal v + n"
  by (simp add: ordinal_def)

lemma advance_0 [simp]: "advance v 0 = v"
  by (simp flip: comps_inject)

lemma advance_advance [simp]: "advance (advance v m) n = advance v (m + n)"
  by (simp add: add.assoc flip: comps_inject)

lemma advance_less_iff [simp]: "advance v m < advance v n \<longleftrightarrow> m < n"
  by (simp add: less_tumbler_def)

lemma advance_le_iff [simp]: "advance v m \<le> advance v n \<longleftrightarrow> m \<le> n"
  by (simp add: less_eq_tumbler_def le_less)

lemma advance_inject [simp]: "advance v m = advance v n \<longleftrightarrow> m = n"
  by (simp flip: comps_inject)

lemma less_advance [simp]: "v < advance v n \<longleftrightarrow> 0 < n"
  using advance_less_iff [of v 0 n] by simp

lemma le_advance [simp]: "v \<le> advance v n"
  using advance_le_iff [of v 0 n] by simp

lemma advance_inj_point: "advance v n = advance w n \<Longrightarrow> v = w"
  by (metis add_right_cancel append_butlast_last_id butlast_snoc comps_advance comps_inject
      comps_not_Nil(1) last_snoc)

lemma advance_mono:
  assumes "v < w" "tumbler_len v = tumbler_len w"
  shows "advance v n < advance w n"
proof -
  have len: "length (butlast (comps v)) = length (butlast (comps w))"
    using assms(2) by (simp add: tumbler_len_def)
  have "butlast (comps v) @ [last (comps v)] < butlast (comps w) @ [last (comps w)]"
    using assms(1) by (simp add: less_tumbler_def)
  then show ?thesis
    unfolding less_tumbler_def comps_advance snoc_less_snoc_iff [OF len] by auto
qed

section \<open>Element positions\<close>

lemma elem_addr_Ok:
  assumes "wf_address (doc p)" "level (doc p) = Document" "0 < pos_subspace p" "0 < pos_ordinal p"
  obtains a where "elem_addr p = ret (Ok a)" "wf_address a" "level a = Element"
    "comps (tumbler a) = comps (tumbler (doc p)) @ [0, pos_subspace p, pos_ordinal p]"
    "addr_fields a = addr_fields (doc p) @ [[pos_subspace p, pos_ordinal p]]"
proof -
  let ?cs = "comps (tumbler (doc p)) @ [0, pos_subspace p, pos_ordinal p]"
  let ?a = "\<lparr>tumbler = tumbler_of ?cs, level = level_of ?cs\<rparr>"
  have "count_list (comps (tumbler (doc p))) 0 = 2"
    using wf_address_level(3) [OF assms(1)] assms(2) by (simp add: addr_fields_def length_split_zeros)
  then have T4: "T4 ?cs"
    using T4_append_field [of "comps (tumbler (doc p))" "[pos_subspace p, pos_ordinal p]"] assms
    by (simp add: wf_address_def)
  have lvl: "level_of ?cs = Element"
    using \<open>count_list _ 0 = 2\<close> assms(3,4) by (simp add: level_of_def numeral_3_eq_3)
  have "elem_addr p = ret (Ok ?a)" using assms T4 by (simp add: elem_addr_def nat_is_zero_def validate_eq)
  moreover have "wf_address ?a" using T4 by (simp add: wf_address_def)
  moreover have "addr_fields ?a = addr_fields (doc p) @ [[pos_subspace p, pos_ordinal p]]"
    using assms(3,4) by (simp add: addr_fields_def split_zeros_append_zero)
  ultimately show thesis using that lvl by simp
qed

section \<open>Properties\<close>

lemma add_Ok_iff: "add a w = ret (Ok b) \<longleftrightarrow> (\<exists>k. add_domain a w = Ok k) \<and> b = oplus a w"
  by (cases "add_domain a w") (auto simp: add_eq)

lemma displacement_complete:
  assumes "add a w = ret (Ok b)" "tumbler_len a \<le> tumbler_len b"
  shows "displacement a b = ret (Some w)"
proof -
  obtain k where k: "add_domain a w = Ok k" and b: "b = oplus a w" using assms(1) add_Ok_iff by blast
  obtain p x us y vs where *: "comps a = p @ x # us" "0 < y" "comps b = p @ (x + y) # vs"
    using oplus_shape [OF k] b by metis
  have np: "\<not> is_prefix a b" using * by (auto simp: is_prefix_iff)
  have less: "a < b" using less_oplus [OF k] b by simp
  have len: "length us \<le> length vs" using * assms(2) by (simp add: tumbler_len_def)
  have o: "add_domain a (ominus b a) = Ok (Suc (length p))" "oplus a (ominus b a) = b"
    using oplus_ominus [of a p x us b "x + y" vs] * len by simp_all
  have "ominus b a = w" using oplus_left_cancel [OF o(1) k] o(2) b by simp
  then show ?thesis using np less assms(2) by (simp add: displacement_eq)
qed

text \<open>
  C12: \<open>displacement\<close> inverts \<open>add\<close>. It never panics; a displacement it returns takes the first
  tumbler to the second and is the only one that does; and when it returns none, no displacement
  at all reaches the second tumbler from the first unless the second is the shorter one.
\<close>

theorem displacement_inverts_add:
  "\<exists>r. displacement a b = ret r \<and>
     (case r of
        Some w \<Rightarrow> a < b \<and> add a w = ret (Ok b) \<and> (\<forall>v. add a v = ret (Ok b) \<longrightarrow> v = w)
      | None \<Rightarrow> tumbler_len b < tumbler_len a \<or> (\<forall>v. add a v \<noteq> ret (Ok b)))"
proof (cases "a < b \<and> tumbler_len a \<le> tumbler_len b \<and> \<not> is_prefix a b")
  case True
  then obtain p x us y vs where *: "comps a = p @ x # us" "comps b = p @ y # vs" "x < y"
    "length us \<le> length vs" by (elim conjE) (rule displacement_shape)
  have o: "add_domain a (ominus b a) = Ok (Suc (length p))" "oplus a (ominus b a) = b"
    by (rule oplus_ominus [OF *])+
  then have ok: "add a (ominus b a) = ret (Ok b)" by (simp add: add_eq)
  have "\<forall>v. add a v = ret (Ok b) \<longrightarrow> v = ominus b a"
    using o add_Ok_iff oplus_left_cancel by metis
  moreover have "displacement a b = ret (Some (ominus b a))" using True by (simp add: displacement_eq)
  ultimately have "displacement a b = ret (Some (ominus b a)) \<and>
    (case Some (ominus b a) of
        Some w \<Rightarrow> a < b \<and> add a w = ret (Ok b) \<and> (\<forall>v. add a v = ret (Ok b) \<longrightarrow> v = w)
      | None \<Rightarrow> tumbler_len b < tumbler_len a \<or> (\<forall>v. add a v \<noteq> ret (Ok b)))"
    unfolding option.case using True ok by blast
  then show ?thesis by (rule exI)
next
  case False
  then have none: "displacement a b = ret None" by (simp only: displacement_eq if_False)
  have "add a v \<noteq> ret (Ok b)" if "tumbler_len a \<le> tumbler_len b" for v
  proof
    assume "add a v = ret (Ok b)"
    then show False using displacement_complete that none by fastforce
  qed
  then have "tumbler_len b < tumbler_len a \<or> (\<forall>v. add a v \<noteq> ret (Ok b))" by (meson not_le)
  then show ?thesis by (intro exI [of _ None] conjI none) simp
qed

theorem displacement_inverts_add_witness:
  "\<exists>r. displacement (Tumbler 1 [2]) (Tumbler 1 [5, 7]) = ret r \<and>
     (case r of
        Some w \<Rightarrow> add (Tumbler 1 [2]) w = ret (Ok (Tumbler 1 [5, 7]))
      | None \<Rightarrow> \<forall>v. add (Tumbler 1 [2]) v \<noteq> ret (Ok (Tumbler 1 [5, 7])))"
  using displacement_inverts_add [of "Tumbler 1 [2]" "Tumbler 1 [5, 7]"]
  by (auto simp: tumbler_len_def split: option.splits)

text \<open>
  C13: the allocation gate is exact. On a well-formed address \<open>checked_inc\<close> never panics; it
  refuses precisely the depths at which the incremented tumbler would break T4, and otherwise
  returns a well-formed address with the tumbler \<open>inc\<close> computes, strictly after the one given and,
  at every positive depth, strictly below it in the tree.
\<close>

theorem checked_inc_exact:
  assumes "wf_address a"
  shows "\<exists>r t. checked_inc a k = ret r \<and> inc (tumbler a) k = ret t \<and>
    (case r of
       Err e \<Rightarrow> \<not> T4 (comps t)
     | Ok b \<Rightarrow> wf_address b \<and> tumbler b = t \<and> tumbler a < tumbler b \<and>
         (0 < k \<longrightarrow> is_prefix (tumbler a) (tumbler b)))"
proof -
  let ?t = "tumbler_of (inc_comps (tumbler a) k)"
  have 1: "T4 (comps ?t) \<longleftrightarrow> inc_preserves_t4 a k" using T4_inc_iff [OF assms] by simp
  have 2: "0 < k \<Longrightarrow> is_prefix (tumbler a) ?t" by (simp add: inc_comps_def is_prefix_iff)
  show ?thesis
    using 1 2 less_inc [of "tumbler a" k]
    by (simp add: checked_inc_eq [OF assms] inc_eq wf_address_def)
qed

theorem checked_inc_exact_witness:
  "\<exists>r t. checked_inc sample_elem 2 = ret r \<and> inc (tumbler sample_elem) 2 = ret t \<and>
    (case r of Err e \<Rightarrow> \<not> T4 (comps t) | Ok b \<Rightarrow> wf_address b \<and> tumbler b = t)"
  using checked_inc_exact [OF wf_samples(3), of 2] by (auto split: sum.splits)

text \<open>
  \<open>elem_addr\<close> names the violated precondition, in the order document, subspace, ordinal, and on
  a legal position composes a well-formed element address whose document is the position's, whose
  subspace and ordinal read back, and whose tumbler moves with \<open>shift\<close> as the position does with
  \<open>shift_ordinal\<close>.
\<close>

theorem elem_addr_exact:
  assumes "wf_address (doc p)"
  shows "\<exists>r. elem_addr p = ret r \<and>
    (case r of
       Err DocNotDocument \<Rightarrow> level (doc p) \<noteq> Document
     | Err SubspaceZero \<Rightarrow> level (doc p) = Document \<and> pos_subspace p = 0
     | Err OrdinalZero \<Rightarrow> level (doc p) = Document \<and> 0 < pos_subspace p \<and> pos_ordinal p = 0
     | Ok a \<Rightarrow> wf_address a \<and> level a = Element \<and> document_of a = ret (Some (doc p)) \<and>
         subspace a = ret (Some (pos_subspace p)) \<and> ordinal (tumbler a) = pos_ordinal p \<and>
         (\<forall>n. \<exists>b t. elem_addr (shift_ordinal p n) = ret (Ok b) \<and> shift (tumbler a) n = ret t \<and>
            tumbler b = t))"
proof (cases "level (doc p) = Document \<and> 0 < pos_subspace p \<and> 0 < pos_ordinal p")
  case True
  obtain a where a: "elem_addr p = ret (Ok a)" "wf_address a" "level a = Element"
    "comps (tumbler a) = comps (tumbler (doc p)) @ [0, pos_subspace p, pos_ordinal p]"
    "addr_fields a = addr_fields (doc p) @ [[pos_subspace p, pos_ordinal p]]"
    using elem_addr_Ok [OF assms] True by metis
  have len: "length (addr_fields (doc p)) = 3"
    using wf_address_level [OF assms] assms True by (auto simp: wf_address_iff_fields)
  obtain d where d: "document_of a = ret (Some d)" "wf_address d" "addr_fields d = take 3 (addr_fields a)"
    using document_of_Some [OF a(2)] a(5) len by auto
  have "tumbler d = tumbler (doc p)"
    using d(3) a(5) len comps_join_fields [of d] comps_join_fields [of "doc p"]
    by (simp flip: comps_inject)
  then have doc: "document_of a = ret (Some (doc p))" using d assms wf_address_eqI by metis
  have sub: "subspace a = ret (Some (pos_subspace p))"
    using a(5) len by (simp add: subspace_def element_field_def field_eq nth_append)
  have sh: "\<exists>b t. elem_addr (shift_ordinal p n) = ret (Ok b) \<and> shift (tumbler a) n = ret t \<and> tumbler b = t" for n
  proof -
    obtain b where b: "elem_addr (shift_ordinal p n) = ret (Ok b)"
      "comps (tumbler b) = comps (tumbler (doc p)) @ [0, pos_subspace p, pos_ordinal p + n]"
      using elem_addr_Ok [of "shift_ordinal p n"] assms True by (auto simp: shift_ordinal_def)
    then have "tumbler b = advance (tumbler a) n"
      using a(4) by (simp add: butlast_append flip: comps_inject)
    then show ?thesis using b(1) by simp
  qed
  show ?thesis using a doc sub sh by (simp add: ordinal_def)
qed (auto simp: elem_addr_def nat_is_zero_def)

theorem elem_addr_exact_witness:
  "\<exists>a. elem_addr \<lparr>doc = sample_doc, pos_subspace = 1, pos_ordinal = 5\<rparr> = ret (Ok a) \<and>
    document_of a = ret (Some sample_doc) \<and> ordinal (tumbler a) = 5"
proof -
  let ?p = "\<lparr>doc = sample_doc, pos_subspace = 1, pos_ordinal = 5\<rparr>"
  have "wf_address (doc ?p)" by simp
  from elem_addr_exact [OF this] obtain r where r: "elem_addr ?p = ret r"
    "case r of Err DocNotDocument \<Rightarrow> False | Err SubspaceZero \<Rightarrow> False | Err OrdinalZero \<Rightarrow> False
     | Ok a \<Rightarrow> document_of a = ret (Some sample_doc) \<and> ordinal (tumbler a) = 5"
    by (elim exE conjE) (fastforce split: sum.splits elem_error.splits)
  then show ?thesis by (cases r) (auto split: elem_error.splits)
qed

end
