(* ===== verification/Spans.thy ===== *)
theory Spans
  imports Arithmetic
begin

text \<open>
  Spans and the pairwise interval algebra: \<^verbatim>\<open>crates/skep-address/src/span.rs\<close>.

  A span is stored as \<open>(start, width)\<close>; its reach \<open>start \<oplus> width\<close> is derived. The set a span
  denotes is the half-open interval \<open>den\<close> of the tumbler order. Each operation is shown to
  return (none of the \<^verbatim>\<open>expect\<close>s in \<^verbatim>\<open>reach\<close>, \<^verbatim>\<open>from_endpoints\<close>, \<^verbatim>\<open>intersection\<close>, \<^verbatim>\<open>merge\<close>,
  \<^verbatim>\<open>split\<close> and \<^verbatim>\<open>difference\<close> can fire on admitted spans), to refuse exactly where the level gate
  says, and to compute the set operation it is named after on denotations.
\<close>

section \<open>Definitions\<close>

datatype t12_clause = ZeroWidth | ActionPointTooDeep

datatype wf_error = NotIncreasing | WfLevelMismatch

datatype level_mismatch = LevelMismatch

record span =
  start :: tumbler
  width :: tumbler

datatype span_set = SpanSet (spans: "span list")

definition Span_new :: "tumbler \<Rightarrow> tumbler \<Rightarrow> (span, t12_clause) result" where
  "Span_new s w =
     (case add_domain s w of
        Ok _ \<Rightarrow> Ok \<lparr>start = s, width = w\<rparr>
      | Err ZeroDisplacement \<Rightarrow> Err ZeroWidth
      | Err AddActionPointTooDeep \<Rightarrow> Err ActionPointTooDeep)"

definition span_serialize :: "span \<Rightarrow> tumbler \<times> tumbler" where
  "span_serialize s = (start s, width s)"

definition span_try_from :: "tumbler \<times> tumbler \<Rightarrow> (span, t12_clause) result" where
  "span_try_from p = Span_new (fst p) (snd p)"

definition from_endpoints :: "tumbler \<Rightarrow> tumbler \<Rightarrow> (span, wf_error) result exec" where
  "from_endpoints s r =
     (if tumbler_len s \<noteq> tumbler_len r then ret (Err WfLevelMismatch)
      else if s \<ge> r then ret (Err NotIncreasing)
      else do {
        d \<leftarrow> sub r s;
        w \<leftarrow> expect_ok d;
        x \<leftarrow> expect_ok (Span_new s w);
        ret (Ok x) })"

definition reach :: "span \<Rightarrow> tumbler exec" where
  "reach s = do { r \<leftarrow> add (start s) (width s); expect_ok r }"

definition contains :: "span \<Rightarrow> tumbler \<Rightarrow> bool exec" where
  "contains s t = (if t \<ge> start s then do { r \<leftarrow> reach s; ret (t < r) } else ret False)"

definition is_level_uniform :: "span \<Rightarrow> bool" where
  "is_level_uniform s \<longleftrightarrow> tumbler_len (start s) = tumbler_len (width s)"

record endpoints =
  ep_start :: tumbler
  ep_reach :: tumbler

definition endpoints_of :: "span \<Rightarrow> endpoints exec" where
  "endpoints_of s = do { r \<leftarrow> reach s; ret \<lparr>ep_start = start s, ep_reach = r\<rparr> }"

definition into_span :: "endpoints \<Rightarrow> (span, wf_error) result exec" where
  "into_span e = from_endpoints (ep_start e) (ep_reach e)"

definition subtree_of :: "tumbler \<Rightarrow> span exec" where
  "subtree_of p = do {
     q \<leftarrow> next_at_length p;
     r \<leftarrow> from_endpoints p q;
     expect_ok r }"

datatype span_rel = Separated | Adjacent | ProperOverlap | Containment | EqualSpans

datatype oriented_rel =
    OSeparated | OAdjacent | OEqual | AContainsB | BContainsA | OverlapAFirst | OverlapBFirst

definition relate :: "endpoints \<Rightarrow> endpoints \<Rightarrow> oriented_rel" where
  "relate a b =
     (let max_start = max (ep_start a) (ep_start b); min_reach = min (ep_reach a) (ep_reach b) in
      if max_start > min_reach then OSeparated
      else if max_start = min_reach then OAdjacent
      else if ep_start a = ep_start b \<and> ep_reach a = ep_reach b then OEqual
      else if ep_start a \<le> ep_start b \<and> ep_reach b \<le> ep_reach a then AContainsB
      else if ep_start b \<le> ep_start a \<and> ep_reach a \<le> ep_reach b then BContainsA
      else if ep_start a < ep_start b then OverlapAFirst else OverlapBFirst)"

definition separated :: "endpoints \<Rightarrow> endpoints \<Rightarrow> bool" where
  "separated a b \<longleftrightarrow> max (ep_start a) (ep_start b) > min (ep_reach a) (ep_reach b)"

definition intersection :: "endpoints \<Rightarrow> endpoints \<Rightarrow> span option exec" where
  "intersection a b =
     (let s = max (ep_start a) (ep_start b); r = min (ep_reach a) (ep_reach b) in
      if s < r then do { x \<leftarrow> from_endpoints s r; y \<leftarrow> expect_ok x; ret (Some y) }
      else ret None)"

definition classify_spans :: "span \<Rightarrow> span \<Rightarrow> span_rel exec" where
  "classify_spans a b = do {
     ea \<leftarrow> endpoints_of a;
     eb \<leftarrow> endpoints_of b;
     ret (case relate ea eb of
            OSeparated \<Rightarrow> Separated
          | OAdjacent \<Rightarrow> Adjacent
          | OEqual \<Rightarrow> EqualSpans
          | AContainsB \<Rightarrow> Containment
          | BContainsA \<Rightarrow> Containment
          | OverlapAFirst \<Rightarrow> ProperOverlap
          | OverlapBFirst \<Rightarrow> ProperOverlap) }"

definition gated_endpoints ::
  "span \<Rightarrow> span \<Rightarrow> (endpoints \<times> endpoints, level_mismatch) result exec" where
  "gated_endpoints a b =
     (if is_level_uniform a \<and> is_level_uniform b \<and> tumbler_len (start a) = tumbler_len (start b)
      then do { ea \<leftarrow> endpoints_of a; eb \<leftarrow> endpoints_of b; ret (Ok (ea, eb)) }
      else ret (Err LevelMismatch))"

definition intersect :: "span \<Rightarrow> span \<Rightarrow> (span option, level_mismatch) result exec" where
  "intersect a b = do {
     g \<leftarrow> gated_endpoints a b;
     (case g of
        Err e \<Rightarrow> ret (Err e)
      | Ok (ea, eb) \<Rightarrow> do { x \<leftarrow> intersection ea eb; ret (Ok x) }) }"

definition merge :: "span \<Rightarrow> span \<Rightarrow> (span option, level_mismatch) result exec" where
  "merge a b = do {
     g \<leftarrow> gated_endpoints a b;
     (case g of
        Err e \<Rightarrow> ret (Err e)
      | Ok (ea, eb) \<Rightarrow>
          if separated ea eb then ret (Ok None)
          else do {
            r \<leftarrow> from_endpoints (min (ep_start ea) (ep_start eb)) (max (ep_reach ea) (ep_reach eb));
            x \<leftarrow> expect_ok r;
            ret (Ok (Some x)) }) }"

datatype split_error = NotInterior | SplitLevelMismatch

definition split :: "span \<Rightarrow> tumbler \<Rightarrow> (span \<times> span, split_error) result exec" where
  "split s p =
     (if \<not> is_level_uniform s \<or> tumbler_len (start s) \<noteq> tumbler_len p
      then ret (Err SplitLevelMismatch)
      else do {
        r \<leftarrow> reach s;
        (if \<not> (start s < p \<and> p < r) then ret (Err NotInterior)
         else do {
           l \<leftarrow> from_endpoints (start s) p;
           left \<leftarrow> expect_ok l;
           q \<leftarrow> from_endpoints p r;
           right \<leftarrow> expect_ok q;
           ret (Ok (left, right)) }) })"

text \<open>The two closures of \<^verbatim>\<open>difference\<close>: each is run only on the arms that need it.\<close>

definition left_complement :: "endpoints \<Rightarrow> endpoints \<Rightarrow> span exec" where
  "left_complement ea eb = do { r \<leftarrow> from_endpoints (ep_start ea) (ep_start eb); expect_ok r }"

definition right_complement :: "endpoints \<Rightarrow> endpoints \<Rightarrow> span exec" where
  "right_complement ea eb = do { r \<leftarrow> from_endpoints (ep_reach eb) (ep_reach ea); expect_ok r }"

definition difference :: "span \<Rightarrow> span \<Rightarrow> (span_set, level_mismatch) result exec" where
  "difference a b = do {
     g \<leftarrow> gated_endpoints a b;
     (case g of
        Err e \<Rightarrow> ret (Err e)
      | Ok (ea, eb) \<Rightarrow>
         (case relate ea eb of
            OSeparated \<Rightarrow> ret (Ok (SpanSet [a]))
          | OAdjacent \<Rightarrow> ret (Ok (SpanSet [a]))
          | OEqual \<Rightarrow> ret (Ok (SpanSet []))
          | BContainsA \<Rightarrow> ret (Ok (SpanSet []))
          | AContainsB \<Rightarrow> do {
              l \<leftarrow> (if ep_start ea < ep_start eb
                    then do { x \<leftarrow> left_complement ea eb; ret [x] } else ret []);
              r \<leftarrow> (if ep_reach eb < ep_reach ea
                    then do { x \<leftarrow> right_complement ea eb; ret [x] } else ret []);
              ret (Ok (SpanSet (l @ r))) }
          | OverlapAFirst \<Rightarrow> do { x \<leftarrow> left_complement ea eb; ret (Ok (SpanSet [x])) }
          | OverlapBFirst \<Rightarrow> do { x \<leftarrow> right_complement ea eb; ret (Ok (SpanSet [x])) })) }"

section \<open>The interval a span denotes\<close>

definition wf_span :: "span \<Rightarrow> bool" where
  "wf_span s \<longleftrightarrow> (case add_domain (start s) (width s) of Ok _ \<Rightarrow> True | Err _ \<Rightarrow> False)"

definition reach_of :: "span \<Rightarrow> tumbler" where
  "reach_of s = oplus (start s) (width s)"

definition den :: "span \<Rightarrow> tumbler set" where
  "den s = {start s..<reach_of s}"

text \<open>The span from \<open>s\<close> up to \<open>r\<close>, as \<open>from_endpoints\<close> builds it.\<close>

definition mk_span :: "tumbler \<Rightarrow> tumbler \<Rightarrow> span" where
  "mk_span s r = \<lparr>start = s, width = ominus r s\<rparr>"

text \<open>A span all of whose endpoints have one length.\<close>

definition at_level :: "nat \<Rightarrow> span \<Rightarrow> bool" where
  "at_level n s \<longleftrightarrow> wf_span s \<and> tumbler_len (start s) = n \<and> tumbler_len (width s) = n"

lemma wf_spanE:
  assumes "wf_span s"
  obtains k where "add_domain (start s) (width s) = Ok k"
  using assms by (auto simp: wf_span_def split: sum.splits)

lemma wf_spanI: "add_domain (start s) (width s) = Ok k \<Longrightarrow> wf_span s"
  by (simp add: wf_span_def)

lemma Span_new_Ok_iff: "Span_new s w = Ok x \<longleftrightarrow> wf_span x \<and> start x = s \<and> width x = w"
  by (cases x) (auto simp: Span_new_def wf_span_def split: sum.splits add_domain_clause.splits)

lemma reach_eq [simp, returns]: "wf_span s \<Longrightarrow> reach s = ret (reach_of s)"
  by (elim wf_spanE) (simp add: reach_def add_eq reach_of_def)

lemma start_less_reach: "wf_span s \<Longrightarrow> start s < reach_of s"
  by (elim wf_spanE) (simp add: reach_of_def less_oplus)

lemma contains_eq [simp, returns]: "wf_span s \<Longrightarrow> contains s t = ret (t \<in> den s)"
  by (simp add: contains_def den_def)

lemma den_not_empty: "wf_span s \<Longrightarrow> den s \<noteq> {}"
  using start_less_reach [of s] by (simp add: den_def)

lemma endpoints_of_eq [simp, returns]:
  "wf_span s \<Longrightarrow> endpoints_of s = ret \<lparr>ep_start = start s, ep_reach = reach_of s\<rparr>"
  by (simp add: endpoints_of_def)

lemma reach_len: "wf_span s \<Longrightarrow> tumbler_len (reach_of s) = tumbler_len (width s)"
  by (elim wf_spanE) (simp add: reach_of_def tumbler_len_oplus)

lemma at_level_wf [simp]: "at_level n s \<Longrightarrow> wf_span s"
  by (simp add: at_level_def)

lemma at_level_len:
  "at_level n s \<Longrightarrow> tumbler_len (start s) = n" "at_level n s \<Longrightarrow> tumbler_len (reach_of s) = n"
  by (simp_all add: at_level_def reach_len)

lemma at_level_iff:
  "at_level n s \<longleftrightarrow> wf_span s \<and> is_level_uniform s \<and> tumbler_len (start s) = n"
  by (auto simp: at_level_def is_level_uniform_def)

lemma same_length_shape:
  assumes "s < r" "tumbler_len s = tumbler_len r"
  obtains p x us y vs where "comps s = p @ x # us" "comps r = p @ y # vs" "x < y"
    "length us = length vs"
  using assms list_less_same_length [of "comps s" "comps r"]
  by (metis less_tumbler_def tumbler_len_def)

lemma mk_span_props:
  assumes "s < r" "tumbler_len s = tumbler_len r"
  shows "wf_span (mk_span s r)" "reach_of (mk_span s r) = r" "start (mk_span s r) = s"
    "at_level (tumbler_len s) (mk_span s r)" "den (mk_span s r) = {s..<r}"
proof -
  obtain p x us y vs where *: "comps s = p @ x # us" "comps r = p @ y # vs" "x < y"
    "length us = length vs"
    by (rule same_length_shape [OF assms])
  note o = oplus_ominus [OF *(1,2,3) eq_imp_le [OF *(4)]]
  show wf: "wf_span (mk_span s r)" using o(1) by (simp add: wf_span_def mk_span_def)
  show reach: "reach_of (mk_span s r) = r" using o(2) by (simp add: reach_of_def mk_span_def)
  show "start (mk_span s r) = s" by (simp add: mk_span_def)
  show "at_level (tumbler_len s) (mk_span s r)"
    using wf o(3) assms(2) by (simp add: at_level_def mk_span_def)
  show "den (mk_span s r) = {s..<r}" using reach by (simp add: den_def mk_span_def)
qed

lemma from_endpoints_eq [returns]:
  "from_endpoints s r = ret (if tumbler_len s \<noteq> tumbler_len r then Err WfLevelMismatch
     else if s \<ge> r then Err NotIncreasing else Ok (mk_span s r))"
proof (cases "tumbler_len s = tumbler_len r \<and> s < r")
  case True
  then have "wf_span (mk_span s r)" by (simp add: mk_span_props)
  then have "Span_new s (ominus r s) = Ok (mk_span s r)"
    by (simp add: Span_new_Ok_iff) (simp add: mk_span_def)
  then show ?thesis using True by (auto simp: from_endpoints_def sub_eq)
qed (auto simp: from_endpoints_def)

lemma from_endpoints_ret [simp]:
  "s < r \<Longrightarrow> tumbler_len s = tumbler_len r \<Longrightarrow> from_endpoints s r = ret (Ok (mk_span s r))"
  by (simp add: from_endpoints_eq)

text \<open>A level-uniform span is determined by its endpoints.\<close>

lemma mk_span_start_reach:
  assumes "at_level n s"
  shows "mk_span (start s) (reach_of s) = s"
proof -
  let ?m = "mk_span (start s) (reach_of s)"
  have less: "start s < reach_of s" and len: "tumbler_len (start s) = tumbler_len (reach_of s)"
    using assms by (auto simp: start_less_reach at_level_len)
  obtain k where k: "add_domain (start s) (width s) = Ok k"
    using assms by (auto elim: wf_spanE simp: at_level_def)
  obtain k' where k': "add_domain (start s) (width ?m) = Ok k'"
    using mk_span_props(1,3) [OF less len] by (metis wf_spanE)
  have "oplus (start s) (width ?m) = reach_of s"
    using mk_span_props(2,3) [OF less len] by (simp add: reach_of_def)
  then have "width ?m = width s"
    using oplus_left_cancel [OF k' k] by (simp add: reach_of_def)
  then show ?thesis by (simp add: mk_span_def)
qed

lemma at_level_eqI: "at_level n s \<Longrightarrow> at_level n t \<Longrightarrow> den s = den t \<Longrightarrow> s = t"
  by (metis at_level_wf atLeastLessThan_eq_iff den_def mk_span_start_reach start_less_reach)


section \<open>The subtree span\<close>

lemma subtree_of_eq [simp, returns]: "subtree_of p = ret (mk_span p (advance p 1))"
  by (simp add: subtree_of_def)

lemma den_subtree: "den (mk_span p (advance p 1)) = {t. is_prefix p t}"
proof -
  have "den (mk_span p (advance p 1)) = {p..<advance p 1}"
    by (rule mk_span_props) simp_all
  moreover have "p \<le> t \<and> t < advance p 1 \<longleftrightarrow> is_prefix p t" for t
    using prefix_interval_iff [of "butlast (comps p)" "last (comps p)" "comps t"]
    by (simp add: is_prefix_iff less_eq_tumbler_def less_tumbler_def)
  ultimately show ?thesis by auto
qed

section \<open>The pairwise algebra on denotations\<close>

text \<open>
  Half-open intervals of a linear order: inclusion and disjointness are endpoint comparisons
  when the intervals are not empty.
\<close>

lemma ivl_subset_iff:
  "(a :: 'a :: linorder) < b \<Longrightarrow> {a..<b} \<subseteq> {c..<d} \<longleftrightarrow> c \<le> a \<and> b \<le> d"
  by (auto dest: atLeastLessThan_subset_iff)

lemma ivl_disjoint_iff:
  "(a :: 'a :: linorder) < b \<Longrightarrow> c < d \<Longrightarrow> {a..<b} \<inter> {c..<d} = {} \<longleftrightarrow> b \<le> c \<or> d \<le> a"
  by (simp add: Int_atLeastLessThan) (auto simp: min_def max_def)

lemma ivl_union_ivl:
  assumes "(a :: 'a :: linorder) < b" "c < d" "max a c \<le> min b d"
  shows "{a..<b} \<union> {c..<d} = {min a c..<max b d}"
  using assms by (auto simp: min_def max_def split: if_splits)

lemma ivl_diff_ivl:
  "{a..<b} - {c..<d} = {a..<min b c} \<union> {max a d..<b :: 'a :: linorder}"
  by (auto simp: min_def max_def)

definition eps :: "span \<Rightarrow> endpoints" where
  "eps s = \<lparr>ep_start = start s, ep_reach = reach_of s\<rparr>"

lemma eps_sel [simp]: "ep_start (eps s) = start s" "ep_reach (eps s) = reach_of s"
  by (simp_all add: eps_def)

lemma endpoints_of_eps [simp]: "wf_span s \<Longrightarrow> endpoints_of s = ret (eps s)"
  by (simp add: eps_def)

lemma gated_endpoints_eq [returns]:
  assumes "wf_span a" "wf_span b"
  shows "gated_endpoints a b =
    ret (if at_level (tumbler_len (start a)) a \<and> at_level (tumbler_len (start a)) b
         then Ok (eps a, eps b) else Err LevelMismatch)"
  using assms by (auto simp: gated_endpoints_def at_level_iff)

lemma relate_den:
  assumes "wf_span a" "wf_span b"
  shows "case relate (eps a) (eps b) of
      OSeparated \<Rightarrow> den a \<inter> den b = {} \<and> reach_of a \<noteq> start b \<and> reach_of b \<noteq> start a
    | OAdjacent \<Rightarrow> den a \<inter> den b = {} \<and> (reach_of a = start b \<or> reach_of b = start a)
    | OEqual \<Rightarrow> den a = den b
    | AContainsB \<Rightarrow> den b \<subset> den a
    | BContainsA \<Rightarrow> den a \<subset> den b
    | OverlapAFirst \<Rightarrow> start a < start b \<and> start b < reach_of a \<and> reach_of a < reach_of b
    | OverlapBFirst \<Rightarrow> start b < start a \<and> start a < reach_of b \<and> reach_of b < reach_of a"
proof -
  note less = start_less_reach [OF assms(1)] start_less_reach [OF assms(2)]
  show ?thesis
    using less
    by (auto simp: relate_def Let_def den_def psubset_eq ivl_subset_iff ivl_disjoint_iff
        atLeastLessThan_eq_iff max_def min_def split: if_splits)
qed

lemma intersection_eq [returns]:
  assumes "at_level n a" "at_level n b"
  shows "intersection (eps a) (eps b) =
    ret (let s = max (start a) (start b); r = min (reach_of a) (reach_of b) in
         if s < r then Some (mk_span s r) else None)"
  using assms by (auto simp: intersection_def Let_def at_level_len max_def min_def)

lemma intersect_den:
  assumes "at_level n a" "at_level n b"
  shows "\<exists>r. intersect a b = ret (Ok r) \<and>
    (case r of None \<Rightarrow> den a \<inter> den b = {} | Some x \<Rightarrow> at_level n x \<and> den x = den a \<inter> den b)"
proof -
  let ?s = "max (start a) (start b)" and ?r = "min (reach_of a) (reach_of b)"
  have len: "tumbler_len ?s = n" "tumbler_len ?r = n"
    using assms by (auto simp: max_def min_def at_level_len)
  have int: "den a \<inter> den b = {?s..<?r}" by (simp add: den_def Int_atLeastLessThan)
  have "gated_endpoints a b = ret (Ok (eps a, eps b))"
    using assms by (simp add: gated_endpoints_eq at_level_len)
  then have eq: "intersect a b = ret (Ok (if ?s < ?r then Some (mk_span ?s ?r) else None))"
    using intersection_eq [OF assms] by (simp add: intersect_def Let_def)
  show ?thesis
  proof (cases "?s < ?r")
    case True
    then show ?thesis using eq int len mk_span_props [of ?s ?r] by auto
  next
    case False
    then show ?thesis using eq int by auto
  qed
qed

lemma separated_eps:
  "separated (eps a) (eps b) \<longleftrightarrow> max (start a) (start b) > min (reach_of a) (reach_of b)"
  by (simp add: separated_def)

lemma separated_union_not_ivl:
  assumes "wf_span a" "wf_span b" "separated (eps a) (eps b)"
  shows "den a \<union> den b \<noteq> {s..<r}"
proof
  assume eq: "den a \<union> den b = {s..<r}"
  note less = start_less_reach [OF assms(1)] start_less_reach [OF assms(2)]
  let ?m = "min (reach_of a) (reach_of b)"
  have "?m \<notin> den a \<union> den b"
    using assms(3) less by (auto simp: separated_eps den_def min_def max_def split: if_splits)
  moreover have "start a \<in> {s..<r}" "start b \<in> {s..<r}"
    using eq less by (auto simp: den_def)
  then have "?m \<in> {s..<r}"
    using assms(3) less by (auto simp: separated_eps min_def max_def split: if_splits)
  ultimately show False using eq by simp
qed

lemma merge_den:
  assumes "at_level n a" "at_level n b"
  shows "\<exists>r. merge a b = ret (Ok r) \<and>
    (case r of None \<Rightarrow> \<forall>x. wf_span x \<longrightarrow> den x \<noteq> den a \<union> den b
     | Some x \<Rightarrow> at_level n x \<and> den x = den a \<union> den b)"
proof -
  let ?s = "min (start a) (start b)" and ?r = "max (reach_of a) (reach_of b)"
  have wf: "wf_span a" "wf_span b" using assms by auto
  note less = start_less_reach [OF wf(1)] start_less_reach [OF wf(2)]
  have len: "tumbler_len ?s = n" "tumbler_len ?r = n"
    using assms by (auto simp: max_def min_def at_level_len)
  have sr: "?s < ?r" using less by (auto simp: min_def max_def)
  have g: "gated_endpoints a b = ret (Ok (eps a, eps b))"
    using assms by (simp add: gated_endpoints_eq at_level_len)
  show ?thesis
  proof (cases "separated (eps a) (eps b)")
    case True
    then show ?thesis using g separated_union_not_ivl [OF wf True]
      by (simp add: merge_def) (metis den_def)
  next
    case False
    then have "merge a b = ret (Ok (Some (mk_span ?s ?r)))"
      using g sr len by (simp add: merge_def)
    moreover have "den (mk_span ?s ?r) = den a \<union> den b"
      using mk_span_props(5) [OF sr] len False less ivl_union_ivl [of "start a" "reach_of a" "start b" "reach_of b"]
      by (simp add: separated_eps den_def not_less)
    ultimately show ?thesis using mk_span_props(4) [OF sr] len by simp
  qed
qed

lemma split_den:
  assumes "wf_span s" "split s p = ret (Ok (l, r))"
  shows "den l \<union> den r = den s" "den l \<inter> den r = {}" "reach_of l = p" "start r = p"
    "start l = start s" "reach_of r = reach_of s" "at_level (tumbler_len p) l" "at_level (tumbler_len p) r"
proof -
  have u: "is_level_uniform s" "tumbler_len (start s) = tumbler_len p"
    and i: "start s < p" "p < reach_of s" and l: "l = mk_span (start s) p" and r: "r = mk_span p (reach_of s)"
    using assms by (auto simp: split_def from_endpoints_eq is_level_uniform_def reach_len split: if_splits)
  have len: "tumbler_len p = tumbler_len (reach_of s)"
    using u assms(1) by (simp add: reach_len is_level_uniform_def)
  note pl = mk_span_props [OF i(1) u(2)] and pr = mk_span_props [OF i(2) len]
  show "den l \<union> den r = den s" "den l \<inter> den r = {}"
    using pl(5) pr(5) i l r by (auto simp: den_def)
  show "reach_of l = p" "start r = p" "start l = start s" "reach_of r = reach_of s"
    "at_level (tumbler_len p) l" "at_level (tumbler_len p) r"
    using pl pr l r u by simp_all
qed

lemma split_eq [returns]:
  assumes "wf_span s"
  shows "split s p = ret (if \<not> at_level (tumbler_len p) s then Err SplitLevelMismatch
    else if \<not> (start s < p \<and> p < reach_of s) then Err NotInterior
    else Ok (mk_span (start s) p, mk_span p (reach_of s)))"
  using assms by (auto simp: split_def at_level_iff reach_len is_level_uniform_def)


text \<open>
  What a normalised sequence of spans is: one level, ascending, each two neither overlapping
  nor touching.
\<close>

definition canonical :: "nat \<Rightarrow> span list \<Rightarrow> bool" where
  "canonical n xs \<longleftrightarrow>
     (\<forall>x \<in> set xs. at_level n x) \<and> sorted_wrt (\<lambda>x y. reach_of x < start y) xs"

definition den_list :: "span list \<Rightarrow> tumbler set" where
  "den_list xs = (\<Union>x \<in> set xs. den x)"

lemma den_list_simps [simp]:
  "den_list [] = {}" "den_list (x # xs) = den x \<union> den_list xs"
  "den_list (xs @ ys) = den_list xs \<union> den_list ys"
  by (auto simp: den_list_def)

lemma difference_Ok:
  assumes "at_level n a" "at_level n b"
  obtains xs where "difference a b = ret (Ok (SpanSet xs))" "canonical n xs" "length xs \<le> 2"
    "den_list xs = den a - den b"
proof -
  have wf: "wf_span a" "wf_span b" using assms by auto
  note less = start_less_reach [OF wf(1)] start_less_reach [OF wf(2)]
  have g: "gated_endpoints a b = ret (Ok (eps a, eps b))"
    using assms by (simp add: gated_endpoints_eq at_level_len)
  have len: "tumbler_len (start a) = n" "tumbler_len (start b) = n"
    "tumbler_len (reach_of a) = n" "tumbler_len (reach_of b) = n"
    using assms by (simp_all add: at_level_len)
  define L where "L = mk_span (start a) (start b)"
  define R where "R = mk_span (reach_of b) (reach_of a)"
  have L: "left_complement (eps a) (eps b) = ret L" "at_level n L" "den L = {start a..<start b}"
      "reach_of L = start b" if "start a < start b"
    using mk_span_props [OF that] that len by (simp_all add: left_complement_def L_def)
  have R: "right_complement (eps a) (eps b) = ret R" "at_level n R" "den R = {reach_of b..<reach_of a}"
      "start R = reach_of b" if "reach_of b < reach_of a"
    using mk_span_props [OF that] that len by (simp_all add: right_complement_def R_def)
  note rel = relate_den [OF wf]
  show thesis
  proof (cases "relate (eps a) (eps b)")
    case AContainsB
    let ?xs = "(if start a < start b then [L] else []) @ (if reach_of b < reach_of a then [R] else [])"
    have diff: "difference a b = ret (Ok (SpanSet ?xs))"
      using g AContainsB L(1) R(1) by (simp add: difference_def)
    have sub: "start a \<le> start b" "reach_of b \<le> reach_of a"
      using rel AContainsB less by (auto simp: psubset_eq den_def)
    have "den_list ?xs = {start a..<start b} \<union> {reach_of b..<reach_of a}"
      using L(3) R(3) by simp
    also have "\<dots> = den a - den b"
      using sub less by (simp add: den_def ivl_diff_ivl min_def max_def)
    finally have "den_list ?xs = den a - den b" .
    moreover have "canonical n ?xs" using L(2,4) R(2,4) less(2) by (simp add: canonical_def)
    ultimately show thesis using that diff by simp
  next
    case OverlapAFirst
    then have f: "start a < start b" "start b < reach_of a" "reach_of a < reach_of b"
      using rel by simp_all
    have "difference a b = ret (Ok (SpanSet [L]))"
      using g OverlapAFirst L(1) [OF f(1)] by (simp add: difference_def)
    moreover have "den_list [L] = den a - den b"
      using L(3) [OF f(1)] f by (simp add: den_def ivl_diff_ivl min_def max_def)
    moreover have "canonical n [L]" using L(2) [OF f(1)] by (simp add: canonical_def)
    ultimately show thesis using that by simp
  next
    case OverlapBFirst
    then have f: "start b < start a" "start a < reach_of b" "reach_of b < reach_of a"
      using rel by simp_all
    have "difference a b = ret (Ok (SpanSet [R]))"
      using g OverlapBFirst R(1) [OF f(3)] by (simp add: difference_def)
    moreover have "den_list [R] = den a - den b"
      using R(3) [OF f(3)] f by (simp add: den_def ivl_diff_ivl min_def max_def)
    moreover have "canonical n [R]" using R(2) [OF f(3)] by (simp add: canonical_def)
    ultimately show thesis using that by simp
  qed (use that [of "[a]"] that [of "[]"] g rel assms in
      \<open>auto simp: difference_def canonical_def\<close>)
qed

lemma gate_refuses [returns]:
  assumes "wf_span a" "wf_span b"
    and "\<not> (is_level_uniform a \<and> is_level_uniform b \<and> tumbler_len (start a) = tumbler_len (start b))"
  shows "intersect a b = ret (Err LevelMismatch)" "merge a b = ret (Err LevelMismatch)"
    "difference a b = ret (Err LevelMismatch)"
  using assms by (auto simp: intersect_def merge_def difference_def gated_endpoints_def)

section \<open>Properties\<close>

text \<open>
  \<open>subtree_of\<close> captures a subtree exactly: for every tumbler it returns a legal span, and the
  span's membership test answers, without panicking, whether the given tumbler is a prefix.
\<close>

theorem subtree_of_exact:
  "\<exists>s. subtree_of p = ret s \<and> wf_span s \<and> is_level_uniform s \<and>
     (\<forall>t. contains s t = ret (is_prefix p t))"
proof -
  have "at_level (tumbler_len p) (mk_span p (advance p 1))" by (rule mk_span_props(4)) simp_all
  then show ?thesis by (simp add: den_subtree at_level_iff del: One_nat_def)
qed

text \<open>What each answer of \<open>classify_spans\<close> says of two spans.\<close>

fun rel_holds :: "span_rel \<Rightarrow> span \<Rightarrow> span \<Rightarrow> bool" where
  "rel_holds Separated a b \<longleftrightarrow> den a \<inter> den b = {} \<and> reach_of a \<noteq> start b \<and> reach_of b \<noteq> start a"
| "rel_holds Adjacent a b \<longleftrightarrow> den a \<inter> den b = {} \<and> (reach_of a = start b \<or> reach_of b = start a)"
| "rel_holds ProperOverlap a b \<longleftrightarrow> den a \<inter> den b \<noteq> {} \<and> \<not> den a \<subseteq> den b \<and> \<not> den b \<subseteq> den a"
| "rel_holds Containment a b \<longleftrightarrow> den a \<subset> den b \<or> den b \<subset> den a"
| "rel_holds EqualSpans a b \<longleftrightarrow> den a = den b"

lemma rel_holds_sym: "rel_holds c a b \<longleftrightarrow> rel_holds c b a"
  by (cases c) auto

lemma rel_holds_unique:
  "wf_span a \<Longrightarrow> wf_span b \<Longrightarrow> rel_holds c a b \<Longrightarrow> rel_holds d a b \<Longrightarrow> c = d"
  using den_not_empty [of a] den_not_empty [of b] by (cases c; cases d) (simp_all, blast+)

lemma classify_spans_den:
  assumes "wf_span a" "wf_span b"
  obtains c where "classify_spans a b = ret c" "rel_holds c a b"
proof -
  note less = start_less_reach [OF assms(1)] start_less_reach [OF assms(2)]
  have overlap: "den a \<inter> den b \<noteq> {} \<and> \<not> den a \<subseteq> den b \<and> \<not> den b \<subseteq> den a"
    if "start a < start b \<and> start b < reach_of a \<and> reach_of a < reach_of b \<or>
        start b < start a \<and> start a < reach_of b \<and> reach_of b < reach_of a"
    unfolding den_def ivl_subset_iff [OF less(1)] ivl_subset_iff [OF less(2)]
      ivl_disjoint_iff [OF less] using that by auto
  let ?f = "\<lambda>r. case r of OSeparated \<Rightarrow> Separated | OAdjacent \<Rightarrow> Adjacent | OEqual \<Rightarrow> EqualSpans
    | AContainsB \<Rightarrow> Containment | BContainsA \<Rightarrow> Containment
    | OverlapAFirst \<Rightarrow> ProperOverlap | OverlapBFirst \<Rightarrow> ProperOverlap"
  have "classify_spans a b = ret (?f (relate (eps a) (eps b)))"
    by (simp add: classify_spans_def assms eps_def)
  moreover have "rel_holds (?f (relate (eps a) (eps b))) a b"
    using relate_den [OF assms] overlap by (cases "relate (eps a) (eps b)") simp_all
  ultimately show thesis by (rule that)
qed

text \<open>
  \<open>classify_spans\<close> never panics on legal spans, is symmetric, and its five answers are the five
  ways two intervals of the tumbler line can lie: apart, touching, overlapping with neither
  inside the other, one strictly inside the other, or equal.
\<close>

theorem classify_spans_exact:
  assumes "wf_span a" "wf_span b"
  shows "\<exists>c. classify_spans a b = ret c \<and> classify_spans b a = ret c \<and>
    (c = Separated \<longleftrightarrow> den a \<inter> den b = {} \<and> reach_of a \<noteq> start b \<and> reach_of b \<noteq> start a) \<and>
    (c = Adjacent \<longleftrightarrow> reach_of a = start b \<or> reach_of b = start a) \<and>
    (c = ProperOverlap \<longleftrightarrow> den a \<inter> den b \<noteq> {} \<and> \<not> den a \<subseteq> den b \<and> \<not> den b \<subseteq> den a) \<and>
    (c = Containment \<longleftrightarrow> den a \<subset> den b \<or> den b \<subset> den a) \<and>
    (c = EqualSpans \<longleftrightarrow> den a = den b)"
proof -
  have touch: "reach_of a = start b \<or> reach_of b = start a \<Longrightarrow> den a \<inter> den b = {}"
    by (auto simp: den_def)
  obtain c where c: "classify_spans a b = ret c" "rel_holds c a b"
    by (rule classify_spans_den [OF assms])
  obtain d where d: "classify_spans b a = ret d" "rel_holds d b a"
    by (rule classify_spans_den [OF assms(2,1)])
  note iff = rel_holds_unique [OF assms c(2)]
  have "classify_spans b a = ret c" using iff d rel_holds_sym by blast
  moreover have is_r: "c = r \<longleftrightarrow> rel_holds r a b" for r using c(2) iff by blast
  have "c = Adjacent \<longleftrightarrow> reach_of a = start b \<or> reach_of b = start a"
    using is_r [of Adjacent] touch by auto
  ultimately show ?thesis
    using c(1) is_r [of Separated] is_r [of ProperOverlap] is_r [of Containment] is_r [of EqualSpans]
    unfolding rel_holds.simps by (intro exI [of _ c] conjI)
qed

text \<open>Sample spans at one level: a pair that overlaps.\<close>

definition sample_span1 :: span where
  "sample_span1 = \<lparr>start = Tumbler 1 [2], width = Tumbler 0 [5]\<rparr>"

definition sample_span2 :: span where
  "sample_span2 = \<lparr>start = Tumbler 1 [4], width = Tumbler 0 [9]\<rparr>"

lemma at_level_samples [simp]: "at_level 2 sample_span1" "at_level 2 sample_span2"
  by (simp_all add: sample_span1_def sample_span2_def at_level_def wf_span_def add_domain_def
      action_point_def nat_is_zero_def tumbler_len_def)

theorem classify_spans_exact_witness:
  "\<exists>c. classify_spans sample_span1 sample_span2 = ret c \<and> classify_spans sample_span2 sample_span1 = ret c \<and>
    (c = EqualSpans \<longleftrightarrow> den sample_span1 = den sample_span2)"
  using classify_spans_exact [OF at_level_wf at_level_wf, OF at_level_samples] by blast

text \<open>
  C10: on two legal spans of one level, \<open>intersect\<close>, \<open>merge\<close> and \<open>difference\<close> never panic and compute
  the set operation on what the spans cover: the meet, when there is one; the union, when some
  span covers it, and none otherwise; and the difference as at most two spans in normal form. On
  spans that are not of one level all three refuse.
\<close>

theorem span_pair_algebra:
  assumes "wf_span a" "wf_span b"
  shows "if is_level_uniform a \<and> is_level_uniform b \<and> tumbler_len (start a) = tumbler_len (start b)
    then (\<exists>i m d. intersect a b = ret (Ok i) \<and> merge a b = ret (Ok m) \<and> difference a b = ret (Ok d) \<and>
      (case i of None \<Rightarrow> den a \<inter> den b = {} | Some x \<Rightarrow> wf_span x \<and> den x = den a \<inter> den b) \<and>
      (case m of None \<Rightarrow> \<forall>x. wf_span x \<longrightarrow> den x \<noteq> den a \<union> den b
       | Some x \<Rightarrow> wf_span x \<and> den x = den a \<union> den b) \<and>
      canonical (tumbler_len (start a)) (spans d) \<and> length (spans d) \<le> 2 \<and>
      den_list (spans d) = den a - den b)
    else intersect a b = ret (Err LevelMismatch) \<and> merge a b = ret (Err LevelMismatch) \<and>
      difference a b = ret (Err LevelMismatch)"
proof (cases "is_level_uniform a \<and> is_level_uniform b \<and> tumbler_len (start a) = tumbler_len (start b)")
  case True
  let ?n = "tumbler_len (start a)"
  have lv: "at_level ?n a" "at_level ?n b" using assms True by (simp_all add: at_level_iff)
  obtain i where i: "intersect a b = ret (Ok i)"
    "case i of None \<Rightarrow> den a \<inter> den b = {} | Some x \<Rightarrow> at_level ?n x \<and> den x = den a \<inter> den b"
    using intersect_den [OF lv] by blast
  obtain m where m: "merge a b = ret (Ok m)"
    "case m of None \<Rightarrow> \<forall>x. wf_span x \<longrightarrow> den x \<noteq> den a \<union> den b
     | Some x \<Rightarrow> at_level ?n x \<and> den x = den a \<union> den b"
    using merge_den [OF lv] by blast
  obtain xs where d: "difference a b = ret (Ok (SpanSet xs))" "canonical ?n xs" "length xs \<le> 2"
    "den_list xs = den a - den b" by (rule difference_Ok [OF lv])
  have "case i of None \<Rightarrow> den a \<inter> den b = {} | Some x \<Rightarrow> wf_span x \<and> den x = den a \<inter> den b"
    using i(2) by (cases i) auto
  moreover have "case m of None \<Rightarrow> \<forall>x. wf_span x \<longrightarrow> den x \<noteq> den a \<union> den b
       | Some x \<Rightarrow> wf_span x \<and> den x = den a \<union> den b"
    using m(2) by (cases m) auto
  moreover have "canonical ?n (spans (SpanSet xs)) \<and> length (spans (SpanSet xs)) \<le> 2 \<and>
      den_list (spans (SpanSet xs)) = den a - den b" using d by simp
  ultimately show ?thesis unfolding if_P [OF True] using i(1) m(1) d(1) by blast
next
  case False
  then show ?thesis unfolding if_not_P [OF False] using gate_refuses [OF assms False] by blast
qed

theorem span_pair_algebra_witness:
  "\<exists>d. difference sample_span1 sample_span2 = ret (Ok d) \<and>
     den_list (spans d) = den sample_span1 - den sample_span2"
proof -
  have "is_level_uniform sample_span1 \<and> is_level_uniform sample_span2 \<and>
    tumbler_len (start sample_span1) = tumbler_len (start sample_span2)"
    using at_level_samples by (simp add: at_level_iff)
  from span_pair_algebra [OF at_level_wf at_level_wf, OF at_level_samples, unfolded if_P [OF this]]
  show ?thesis by blast
qed

text \<open>
  \<open>split\<close> on a legal span never panics. It refuses a cut of another length and a cut that is not
  strictly inside; otherwise its two spans meet at the cut, share nothing, and together cover
  exactly what the span covered.
\<close>

theorem split_exact:
  assumes "wf_span s"
  shows "\<exists>r. split s p = ret r \<and>
    (case r of
       Err SplitLevelMismatch \<Rightarrow> \<not> is_level_uniform s \<or> tumbler_len p \<noteq> tumbler_len (start s)
     | Err NotInterior \<Rightarrow> \<not> (start s < p \<and> p \<in> den s)
     | Ok (l, u) \<Rightarrow> wf_span l \<and> wf_span u \<and> reach l = ret p \<and> start u = p \<and>
         den l \<inter> den u = {} \<and> den l \<union> den u = den s)"
proof (cases "at_level (tumbler_len p) s \<and> start s < p \<and> p < reach_of s")
  case True
  then have r: "split s p = ret (Ok (mk_span (start s) p, mk_span p (reach_of s)))"
    by (simp add: split_eq [OF assms])
  show ?thesis using r split_den [OF assms r] by simp
next
  case False
  then show ?thesis using assms by (auto simp: split_eq [OF assms] at_level_iff den_def)
qed

theorem split_exact_witness:
  "\<exists>r. split sample_span1 (Tumbler 1 [4]) = ret r \<and>
    (case r of
       Err SplitLevelMismatch \<Rightarrow>
         \<not> is_level_uniform sample_span1 \<or> tumbler_len (Tumbler 1 [4]) \<noteq> tumbler_len (start sample_span1)
     | Err NotInterior \<Rightarrow> \<not> (start sample_span1 < Tumbler 1 [4] \<and> Tumbler 1 [4] \<in> den sample_span1)
     | Ok (l, u) \<Rightarrow> wf_span l \<and> wf_span u \<and> reach l = ret (Tumbler 1 [4]) \<and> start u = Tumbler 1 [4] \<and>
         den l \<inter> den u = {} \<and> den l \<union> den u = den sample_span1)"
  by (rule split_exact [OF at_level_wf [OF at_level_samples(1)]])

end
