(* ===== verification/Set_Algebra.thy ===== *)
theory Set_Algebra
  imports Skep_Prelude
begin

text \<open>
  The interface the span-set algebra offers the modules above it: representations \<open>'s\<close> of sets
  of points \<open>'p\<close>, an admissibility predicate (one length class), a total join, and fallible
  operations that return canonical representations. Clients rely on the laws only; the lemmas
  below are what they get from them, as equations between the values the operations return.
\<close>

locale set_algebra =
  fixes ok :: "'s \<Rightarrow> bool"
    and den :: "'s \<Rightarrow> 'p set"
    and norm :: "'s \<Rightarrow> ('s, 'e) result exec"
    and join :: "'s \<Rightarrow> 's \<Rightarrow> 's"
    and meet :: "'s \<Rightarrow> 's \<Rightarrow> ('s, 'e) result exec"
    and diff :: "'s \<Rightarrow> 's \<Rightarrow> ('s, 'e) result exec"
  assumes norm_returns: "ok a \<Longrightarrow> \<exists>b. norm a = ret (Ok b) \<and> ok b \<and> den b = den a"
    and norm_unique: "ok a \<Longrightarrow> ok b \<Longrightarrow> den a = den b \<Longrightarrow> norm a = norm b"
    and join_ok: "ok a \<Longrightarrow> ok b \<Longrightarrow> ok (join a b)"
    and join_den: "den (join a b) = den a \<union> den b"
    and meet_returns: "ok a \<Longrightarrow> ok b \<Longrightarrow>
      \<exists>c. meet a b = ret (Ok c) \<and> ok c \<and> den c = den a \<inter> den b \<and> norm c = ret (Ok c)"
    and diff_returns: "ok a \<Longrightarrow> ok b \<Longrightarrow>
      \<exists>c. diff a b = ret (Ok c) \<and> ok c \<and> den c = den a - den b \<and> norm c = ret (Ok c)"
begin

lemma canonical_eqI:
  "ok a \<Longrightarrow> ok b \<Longrightarrow> norm a = ret (Ok a) \<Longrightarrow> norm b = ret (Ok b) \<Longrightarrow> den a = den b \<Longrightarrow> a = b"
  by (metis norm_unique option.inject sum.inject(2))

lemma norm_result: "ok a \<Longrightarrow> norm a = ret (Ok b) \<Longrightarrow> ok b \<and> den b = den a"
  using norm_returns [of a] by auto

lemma norm_idem: "ok a \<Longrightarrow> norm a = ret (Ok b) \<Longrightarrow> norm b = ret (Ok b)"
  by (metis norm_result norm_unique)

text \<open>The join is a semilattice up to the normal form.\<close>

lemma join_commute: "ok a \<Longrightarrow> ok b \<Longrightarrow> norm (join a b) = norm (join b a)"
  by (rule norm_unique) (auto simp: join_ok join_den)

lemma join_assoc:
  "ok a \<Longrightarrow> ok b \<Longrightarrow> ok c \<Longrightarrow> norm (join (join a b) c) = norm (join a (join b c))"
  by (rule norm_unique) (auto simp: join_ok join_den)

lemma join_idem: "ok a \<Longrightarrow> norm (join a a) = norm a"
  by (rule norm_unique) (auto simp: join_ok join_den)

lemma join_absorb_norm:
  "ok a \<Longrightarrow> ok b \<Longrightarrow> norm a = ret (Ok c) \<Longrightarrow> norm (join c b) = norm (join a b)"
  using norm_result by (intro norm_unique) (auto simp: join_ok join_den)

text \<open>Meet and difference return the same value for arguments that denote the same set.\<close>

lemma meet_eqI:
  assumes "ok a" "ok b" "ok a'" "ok b'" "den a \<inter> den b = den a' \<inter> den b'"
  shows "meet a b = meet a' b'"
proof -
  obtain c c' where "meet a b = ret (Ok c)" "ok c" "den c = den a \<inter> den b" "norm c = ret (Ok c)"
    "meet a' b' = ret (Ok c')" "ok c'" "den c' = den a' \<inter> den b'" "norm c' = ret (Ok c')"
    using meet_returns [OF assms(1,2)] meet_returns [OF assms(3,4)] by blast
  then show ?thesis using canonical_eqI [of c c'] assms(5) by simp
qed

lemma diff_eqI:
  assumes "ok a" "ok b" "ok a'" "ok b'" "den a - den b = den a' - den b'"
  shows "diff a b = diff a' b'"
proof -
  obtain c c' where "diff a b = ret (Ok c)" "ok c" "den c = den a - den b" "norm c = ret (Ok c)"
    "diff a' b' = ret (Ok c')" "ok c'" "den c' = den a' - den b'" "norm c' = ret (Ok c')"
    using diff_returns [OF assms(1,2)] diff_returns [OF assms(3,4)] by blast
  then show ?thesis using canonical_eqI [of c c'] assms(5) by simp
qed

lemma meet_commute: "ok a \<Longrightarrow> ok b \<Longrightarrow> meet a b = meet b a"
  by (rule meet_eqI) auto

lemma meet_assoc:
  assumes "ok a" "ok b" "ok c" "meet a b = ret (Ok ab)" "meet b c = ret (Ok bc)"
  shows "meet ab c = meet a bc"
  using assms meet_returns [OF assms(1,2)] meet_returns [OF assms(2,3)]
  by (intro meet_eqI) auto

lemma diff_join:
  assumes "ok a" "ok b" "ok c" "diff a b = ret (Ok ab)"
  shows "diff ab c = diff a (join b c)"
  using assms diff_returns [OF assms(1,2)]
  by (intro diff_eqI) (auto simp: join_ok join_den)

lemma meet_as_diff:
  assumes "ok a" "ok b" "diff a b = ret (Ok ab)"
  shows "diff a ab = meet a b"
proof -
  have ab: "ok ab" "den ab = den a - den b" using diff_returns [OF assms(1,2)] assms(3) by auto
  obtain c d where "diff a ab = ret (Ok c)" "ok c" "den c = den a - den ab" "norm c = ret (Ok c)"
    "meet a b = ret (Ok d)" "ok d" "den d = den a \<inter> den b" "norm d = ret (Ok d)"
    using diff_returns [OF assms(1) ab(1)] meet_returns [OF assms(1,2)] by blast
  moreover have "c = d" using calculation ab(2) by (intro canonical_eqI) auto
  ultimately show ?thesis by simp
qed

lemma join_meet_diff:
  assumes "ok a" "ok b" "meet a b = ret (Ok m)" "diff a b = ret (Ok d)"
  shows "norm (join m d) = norm a"
  using assms meet_returns [OF assms(1,2)] diff_returns [OF assms(1,2)]
  by (intro norm_unique) (auto simp: join_ok join_den)

end

end
