(* ===== verification/Span_Sets.thy ===== *)
theory Span_Sets
  imports Spans Set_Algebra
begin

text \<open>
  Span-sets, their canonical form and the set-level algebra:
  \<^verbatim>\<open>crates/skep-address/src/spanset.rs\<close>.

  A span-set is a sequence of spans that denotes their union. \<open>normalize\<close> sorts and coalesces;
  the lemmas show that it returns on every span-set of one length class, keeps the denotation
  and yields the unique canonical sequence for it, so that \<open>equiv\<close> and \<open>canonical_key\<close> decide
  equality of denotations. The two sweeps over canonical forms compute intersection and
  difference, again in canonical form.
\<close>

section \<open>Definitions\<close>

definition spanset_empty :: span_set where
  "spanset_empty = SpanSet []"

definition singleton :: "span \<Rightarrow> span_set" where
  "singleton s = SpanSet [s]"

definition spanset_from_iter :: "span list \<Rightarrow> span_set" where
  "spanset_from_iter xs = SpanSet xs"

definition spanset_len :: "span_set \<Rightarrow> nat" where
  "spanset_len ss = length (spans ss)"

definition spanset_is_empty :: "span_set \<Rightarrow> bool" where
  "spanset_is_empty ss \<longleftrightarrow> spans ss = []"

definition level_class :: "span_set \<Rightarrow> (nat option, level_mismatch) result" where
  "level_class ss =
     (case spans ss of
        [] \<Rightarrow> Ok None
      | f # _ \<Rightarrow>
          let shared_length = tumbler_len (start f) in
          if (\<exists>s \<in> set (spans ss). \<not> is_level_uniform s \<or> tumbler_len (start s) \<noteq> shared_length)
          then Err LevelMismatch else Ok (Some shared_length))"

text \<open>
  The \<^verbatim>\<open>BTreeMap\<close> of \<^verbatim>\<open>by_level_class\<close> is the association list of its entries in key order;
  \<open>class_push\<close> is \<^verbatim>\<open>entry(..).or_default().push(..)\<close>.
\<close>

fun class_push :: "nat \<Rightarrow> span \<Rightarrow> (nat \<times> span list) list \<Rightarrow> (nat \<times> span list) list" where
  "class_push k s [] = [(k, [s])]"
| "class_push k s ((l, xs) # m) =
     (if k < l then (k, [s]) # (l, xs) # m
      else if k = l then (l, xs @ [s]) # m
      else (l, xs) # class_push k s m)"

definition by_level_class :: "span_set \<Rightarrow> (nat \<times> span_set) list" where
  "by_level_class ss =
     map (\<lambda>(l, xs). (l, spanset_from_iter xs))
       (foldl (\<lambda>m s. class_push (tumbler_len (start s)) s m) [] (spans ss))"

text \<open>The coalescing sweep: \<open>run\<close> is the span being grown.\<close>

fun normalize_sweep :: "endpoints \<Rightarrow> endpoints list \<Rightarrow> span list exec" where
  "normalize_sweep run [] = do { r \<leftarrow> into_span run; x \<leftarrow> expect_ok r; ret [x] }"
| "normalize_sweep run (following # rest) =
     (if \<not> separated run following
      then normalize_sweep
             (if ep_reach following > ep_reach run then run\<lparr>ep_reach := ep_reach following\<rparr> else run)
             rest
      else do {
        r \<leftarrow> into_span run;
        x \<leftarrow> expect_ok r;
        xs \<leftarrow> normalize_sweep following rest;
        ret (x # xs) })"

definition normalize :: "span_set \<Rightarrow> (span_set, level_mismatch) result exec" where
  "normalize ss =
     (case level_class ss of
        Err e \<Rightarrow> ret (Err e)
      | Ok None \<Rightarrow> ret (Ok spanset_empty)
      | Ok (Some _) \<Rightarrow> do {
          es \<leftarrow> exec_map endpoints_of (spans ss);
          (case sort_key ep_start es of
             [] \<Rightarrow> panic
           | run # rest \<Rightarrow> do {
               out \<leftarrow> normalize_sweep run rest;
               ret (Ok (spanset_from_iter out)) }) })"

definition is_normalized :: "span_set \<Rightarrow> bool exec" where
  "is_normalized ss = do {
     r \<leftarrow> normalize ss;
     ret (case r of Ok n \<Rightarrow> n = ss | Err LevelMismatch \<Rightarrow> False) }"

text \<open>\<^verbatim>\<open>iter().any(..)\<close> stops at the first span that contains the point.\<close>

fun any_contains :: "span list \<Rightarrow> tumbler \<Rightarrow> bool exec" where
  "any_contains [] t = ret False"
| "any_contains (s # xs) t = do { c \<leftarrow> contains s t; (if c then ret True else any_contains xs t) }"

definition denotes :: "span_set \<Rightarrow> tumbler \<Rightarrow> bool exec" where
  "denotes ss t = any_contains (spans ss) t"

definition union :: "span_set \<Rightarrow> span_set \<Rightarrow> span_set" where
  "union a b = SpanSet (spans a @ spans b)"

definition normalized_endpoints ::
  "span_set \<Rightarrow> span_set \<Rightarrow> (endpoints list \<times> endpoints list, level_mismatch) result exec" where
  "normalized_endpoints a b = do {
     ra \<leftarrow> normalize a;
     (case ra of
        Err e \<Rightarrow> ret (Err e)
      | Ok na \<Rightarrow> do {
          rb \<leftarrow> normalize b;
          (case rb of
             Err e \<Rightarrow> ret (Err e)
           | Ok nb \<Rightarrow>
              (case (level_class na, level_class nb) of
                 (Err e, _) \<Rightarrow> ret (Err e)
               | (_, Err e) \<Rightarrow> ret (Err e)
               | (Ok la, Ok lb) \<Rightarrow>
                   if la \<noteq> None \<and> lb \<noteq> None \<and> la \<noteq> lb then ret (Err LevelMismatch)
                   else do {
                     ea \<leftarrow> exec_map endpoints_of (spans na);
                     eb \<leftarrow> exec_map endpoints_of (spans nb);
                     ret (Ok (ea, eb)) })) }) }"

text \<open>The two cursors of \<^verbatim>\<open>intersect_sets\<close> are the suffixes they point at.\<close>

fun intersect_sweep :: "endpoints list \<Rightarrow> endpoints list \<Rightarrow> span list exec" where
  "intersect_sweep (a # as) (b # bs) = do {
     x \<leftarrow> intersection a b;
     rest \<leftarrow> (if ep_reach a \<le> ep_reach b then intersect_sweep as (b # bs)
              else intersect_sweep (a # as) bs);
     ret (case x of Some s \<Rightarrow> s # rest | None \<Rightarrow> rest) }"
| "intersect_sweep _ _ = ret []"

definition intersect_sets :: "span_set \<Rightarrow> span_set \<Rightarrow> (span_set, level_mismatch) result exec" where
  "intersect_sets a b = do {
     r \<leftarrow> normalized_endpoints a b;
     (case r of
        Err e \<Rightarrow> ret (Err e)
      | Ok (as, bs) \<Rightarrow> do { out \<leftarrow> intersect_sweep as bs; ret (Ok (spanset_from_iter out)) }) }"

text \<open>
  The inner loop of \<^verbatim>\<open>difference_sets\<close> over the b-spans from the cursor: the gaps it pushes and
  where the survivor starts when it stops.
\<close>

fun difference_inner ::
  "tumbler \<Rightarrow> tumbler \<Rightarrow> endpoints list \<Rightarrow> (span list \<times> tumbler) exec" where
  "difference_inner surviving_from a_reach [] = ret ([], surviving_from)"
| "difference_inner surviving_from a_reach (b # bs) =
     (if \<not> ep_start b < a_reach then ret ([], surviving_from)
      else do {
        gap \<leftarrow> (if ep_start b > surviving_from
                 then do { r \<leftarrow> from_endpoints surviving_from (ep_start b);
                           x \<leftarrow> expect_ok r; ret [x] }
                 else ret []);
        let surviving' = (if ep_reach b > surviving_from then ep_reach b else surviving_from);
        (if surviving' \<ge> a_reach then ret (gap, surviving')
         else do {
           (gaps, s) \<leftarrow> difference_inner surviving' a_reach bs;
           ret (gap @ gaps, s) }) })"

fun difference_sweep :: "endpoints list \<Rightarrow> endpoints list \<Rightarrow> span list exec" where
  "difference_sweep [] bs = ret []"
| "difference_sweep (a # as) bs = do {
     let bs' = dropWhile (\<lambda>b. ep_reach b \<le> ep_start a) bs;
     (gaps, surviving_from) \<leftarrow> difference_inner (ep_start a) (ep_reach a) bs';
     tail \<leftarrow> (if surviving_from < ep_reach a
              then do { r \<leftarrow> from_endpoints surviving_from (ep_reach a);
                        x \<leftarrow> expect_ok r; ret [x] }
              else ret []);
     rest \<leftarrow> difference_sweep as bs';
     ret (gaps @ tail @ rest) }"

definition difference_sets :: "span_set \<Rightarrow> span_set \<Rightarrow> (span_set, level_mismatch) result exec" where
  "difference_sets a b = do {
     r \<leftarrow> normalized_endpoints a b;
     (case r of
        Err e \<Rightarrow> ret (Err e)
      | Ok (as, bs) \<Rightarrow> do { out \<leftarrow> difference_sweep as bs; ret (Ok (spanset_from_iter out)) }) }"

definition equiv :: "span_set \<Rightarrow> span_set \<Rightarrow> (bool, level_mismatch) result exec" where
  "equiv a b = do {
     ra \<leftarrow> normalize a;
     (case ra of
        Err e \<Rightarrow> ret (Err e)
      | Ok na \<Rightarrow> do {
          rb \<leftarrow> normalize b;
          ret (case rb of Err e \<Rightarrow> Err e | Ok nb \<Rightarrow> Ok (na = nb)) }) }"

datatype canonical_form = CanonicalForm (as_set: span_set)

definition canonical_key :: "span_set \<Rightarrow> (canonical_form, level_mismatch) result exec" where
  "canonical_key ss = do {
     r \<leftarrow> normalize ss;
     ret (case r of Err e \<Rightarrow> Err e | Ok n \<Rightarrow> Ok (CanonicalForm n)) }"

text \<open>The loop of \<^verbatim>\<open>hull\<close> carries \<open>(min_point, max_point)\<close>.\<close>

fun hull_loop :: "tumbler list \<Rightarrow> tumbler \<times> tumbler \<Rightarrow> tumbler \<times> tumbler" where
  "hull_loop [] st = st"
| "hull_loop (p # ps) (min_point, max_point) =
     hull_loop ps (if p < min_point then p else min_point, if p > max_point then p else max_point)"

definition hull :: "tumbler list \<Rightarrow> (span option, level_mismatch) result exec" where
  "hull points =
     (case points of
        [] \<Rightarrow> ret (Ok None)
      | first # rest \<Rightarrow>
          let (min_point, max_point) = hull_loop rest (first, first) in
          if tumbler_len min_point \<noteq> tumbler_len max_point then ret (Err LevelMismatch)
          else do {
            q \<leftarrow> next_at_length max_point;
            r \<leftarrow> from_endpoints min_point q;
            x \<leftarrow> expect_ok r;
            ret (Ok (Some x)) })"

definition cover :: "tumbler list \<Rightarrow> span_set exec" where
  "cover points = do { xs \<leftarrow> exec_map subtree_of points; ret (spanset_from_iter xs) }"


section \<open>Length classes\<close>

definition wf_set :: "span_set \<Rightarrow> bool" where
  "wf_set ss \<longleftrightarrow> (\<forall>s \<in> set (spans ss). wf_span s)"

definition uniform :: "nat \<Rightarrow> span_set \<Rightarrow> bool" where
  "uniform n ss \<longleftrightarrow> (\<forall>s \<in> set (spans ss). at_level n s)"

definition den_set :: "span_set \<Rightarrow> tumbler set" where
  "den_set ss = den_list (spans ss)"

lemma uniform_wf: "uniform n ss \<Longrightarrow> wf_set ss"
  by (auto simp: uniform_def wf_set_def)

lemma den_set_simps [simp]:
  "den_set spanset_empty = {}" "den_set (singleton s) = den s"
  "den_set (union a b) = den_set a \<union> den_set b" "den_set (SpanSet xs) = den_list xs"
  by (simp_all add: den_set_def spanset_empty_def singleton_def union_def)

lemma level_class_uniform:
  "uniform n ss \<Longrightarrow> level_class ss = Ok (if spans ss = [] then None else Some n)"
  by (cases "spans ss") (auto simp: level_class_def uniform_def at_level_iff Let_def)

lemma level_class_Ok_iff:
  assumes "wf_set ss"
  shows "level_class ss = Ok r \<longleftrightarrow>
    (case r of None \<Rightarrow> spans ss = [] | Some n \<Rightarrow> spans ss \<noteq> [] \<and> uniform n ss)"
proof (cases "spans ss")
  case Nil
  then show ?thesis by (auto simp: level_class_def split: option.splits)
next
  case (Cons f fs)
  have "level_class ss = Ok (Some n) \<longleftrightarrow> uniform n ss" for n
    using assms Cons by (auto simp: level_class_def uniform_def wf_set_def at_level_iff Let_def)
  moreover have "level_class ss \<noteq> Ok None" using Cons by (simp add: level_class_def Let_def)
  ultimately show ?thesis using Cons by (cases r) auto
qed

lemma level_class_Err_iff:
  assumes "wf_set ss"
  shows "level_class ss = Err LevelMismatch \<longleftrightarrow> (\<forall>n. \<not> uniform n ss)"
proof
  assume err: "level_class ss = Err LevelMismatch"
  show "\<forall>n. \<not> uniform n ss"
  proof
    fix n
    show "\<not> uniform n ss" using err level_class_uniform [of n ss] by auto
  qed
next
  assume not: "\<forall>n. \<not> uniform n ss"
  show "level_class ss = Err LevelMismatch"
  proof (cases "level_class ss")
    case (Inl e)
    then show ?thesis by (cases e) simp
  next
    case (Inr r)
    then have "case r of None \<Rightarrow> spans ss = [] | Some n \<Rightarrow> spans ss \<noteq> [] \<and> uniform n ss"
      using level_class_Ok_iff [OF assms] by blast
    then show ?thesis using not by (cases r) (auto simp: uniform_def)
  qed
qed

section \<open>Canonical sequences\<close>

lemma canonical_Nil [simp]: "canonical n []"
  by (simp add: canonical_def)

lemma canonical_Cons:
  "canonical n (x # xs) \<longleftrightarrow> at_level n x \<and> (\<forall>y \<in> set xs. reach_of x < start y) \<and> canonical n xs"
  by (auto simp: canonical_def)

lemma canonical_append:
  "canonical n (xs @ ys) \<longleftrightarrow> canonical n xs \<and> canonical n ys \<and>
     (\<forall>x \<in> set xs. \<forall>y \<in> set ys. reach_of x < start y)"
  by (auto simp: canonical_def sorted_wrt_append)

lemma start_in_den: "wf_span x \<Longrightarrow> start x \<in> den x"
  using start_less_reach [of x] by (simp add: den_def)

lemma den_listI: "x \<in> set xs \<Longrightarrow> t \<in> den x \<Longrightarrow> t \<in> den_list xs"
  by (auto simp: den_list_def)

lemma den_list_lower:
  "t \<in> den_list xs \<Longrightarrow> \<forall>x \<in> set xs. b < start x \<Longrightarrow> b < t"
  by (fastforce simp: den_list_def den_def)

lemma canonical_start_least:
  assumes "canonical n (x # xs)" "t \<in> den_list (x # xs)"
  shows "start x \<le> t"
proof -
  have "start x < reach_of x" using assms(1) by (auto simp: canonical_Cons start_less_reach)
  then show ?thesis
    using assms den_list_lower [of t xs "reach_of x"] by (auto simp: canonical_Cons den_def)
qed

lemma canonical_reach_notin:
  assumes "canonical n (x # xs)"
  shows "reach_of x \<notin> den_list (x # xs)"
  using assms den_list_lower [of "reach_of x" xs "reach_of x"] by (auto simp: canonical_Cons den_def)

lemma canonical_tail_den:
  assumes "canonical n (x # xs)"
  shows "den_list xs = den_list (x # xs) - den x"
  using assms den_list_lower [of _ xs "reach_of x"] by (fastforce simp: canonical_Cons den_def)

text \<open>
  The heads of two canonical sequences with one denotation agree: they share the least point,
  and the first point missing above it.
\<close>

lemma canonical_head_reach_le:
  assumes "canonical n (x # xs)" "canonical m (y # ys)"
    and "den_list (x # xs) = den_list (y # ys)"
  shows "start x = start y" "reach_of y \<le> reach_of x"
proof -
  have wf: "wf_span x" "wf_span y" using assms(1,2) by (auto simp: canonical_Cons)
  have "start x \<in> den_list (y # ys)" "start y \<in> den_list (x # xs)"
    using start_in_den [OF wf(1)] start_in_den [OF wf(2)] assms(3) by auto
  then show s: "start x = start y"
    using canonical_start_least [OF assms(1)] canonical_start_least [OF assms(2)] by fastforce
  show "reach_of y \<le> reach_of x"
  proof (rule ccontr)
    assume "\<not> reach_of y \<le> reach_of x"
    then have "reach_of x \<in> den y" using s start_less_reach [OF wf(1)] by (auto simp: den_def)
    then show False using canonical_reach_notin [OF assms(1)] assms(3) by auto
  qed
qed

lemma canonical_unique:
  assumes "canonical n xs" "canonical m ys" "den_list xs = den_list ys"
  shows "xs = ys"
  using assms
proof (induction xs arbitrary: ys)
  case Nil
  then show ?case
    using start_in_den by (cases ys) (auto simp: canonical_Cons den_not_empty)
next
  case (Cons x xs)
  then obtain y ys' where ys: "ys = y # ys'"
    by (cases ys) (auto simp: canonical_Cons den_not_empty)
  have cy: "canonical m (y # ys')" using Cons.prems ys by simp
  have eq: "den_list (x # xs) = den_list (y # ys')" using Cons.prems ys by simp
  note h = canonical_head_reach_le [OF Cons.prems(1) cy eq]
    canonical_head_reach_le [OF cy Cons.prems(1) eq [symmetric]]
  have "den x = den y" using h by (simp add: den_def)
  moreover have "n = m"
    using h(1) Cons.prems(1) cy by (auto simp: canonical_Cons at_level_def)
  ultimately have "x = y"
    using Cons.prems(1) cy at_level_eqI by (auto simp: canonical_Cons)
  moreover have "den_list xs = den_list ys'"
    using canonical_tail_den [OF Cons.prems(1)] canonical_tail_den [OF cy] eq \<open>den x = den y\<close>
    by simp
  then have "xs = ys'" using Cons.IH [of ys'] Cons.prems(1) cy by (simp add: canonical_Cons)
  ultimately show ?case using ys by simp
qed

section \<open>Normalisation\<close>

text \<open>Endpoint pairs of one length class, and the spans they convert to.\<close>

definition ep_ok :: "nat \<Rightarrow> endpoints \<Rightarrow> bool" where
  "ep_ok n e \<longleftrightarrow>
     tumbler_len (ep_start e) = n \<and> tumbler_len (ep_reach e) = n \<and> ep_start e < ep_reach e"

definition ep_den :: "endpoints \<Rightarrow> tumbler set" where
  "ep_den e = {ep_start e..<ep_reach e}"

definition ep_span :: "endpoints \<Rightarrow> span" where
  "ep_span e = mk_span (ep_start e) (ep_reach e)"

lemma ep_ok_eps: "at_level n s \<Longrightarrow> ep_ok n (eps s)"
  by (simp add: ep_ok_def at_level_len start_less_reach)

lemma ep_span_eps: "at_level n s \<Longrightarrow> ep_span (eps s) = s"
  by (simp add: ep_span_def mk_span_start_reach)

lemma ep_den_eps [simp]: "ep_den (eps s) = den s"
  by (simp add: ep_den_def den_def)

lemma ep_span_props:
  assumes "ep_ok n e"
  shows "into_span e = ret (Ok (ep_span e))" "at_level n (ep_span e)" "den (ep_span e) = ep_den e"
    "start (ep_span e) = ep_start e" "reach_of (ep_span e) = ep_reach e"
  using assms mk_span_props [of "ep_start e" "ep_reach e"]
  by (simp_all add: into_span_def ep_ok_def ep_span_def ep_den_def)

lemma normalize_sweep_spec:
  assumes "ep_ok n run" "\<forall>f \<in> set rest. ep_ok n f \<and> ep_start run \<le> ep_start f"
    and "sorted_wrt (\<lambda>x y. ep_start x \<le> ep_start y) rest"
  shows "\<exists>xs. normalize_sweep run rest = ret xs \<and> canonical n xs \<and>
    den_list xs = ep_den run \<union> \<Union> (ep_den ` set rest) \<and>
    (\<forall>x \<in> set xs. ep_start run \<le> start x) \<and> length xs \<le> Suc (length rest)"
  using assms
proof (induction run rest rule: normalize_sweep.induct)
  case (1 run)
  then show ?case by (simp add: ep_span_props [OF 1(1)] canonical_Cons)
next
  case (2 run f rest)
  have f: "ep_ok n f" "ep_start run \<le> ep_start f" "ep_start f < ep_reach f"
    and run: "ep_start run < ep_reach run" "tumbler_len (ep_start run) = n"
    using "2.prems" by (auto simp: ep_ok_def)
  have sep: "separated run f \<longleftrightarrow> ep_reach run < ep_start f"
    using f run by (auto simp: separated_def max_def min_def)
  show ?case
  proof (cases "separated run f")
    case False
    let ?run = "if ep_reach f > ep_reach run then run\<lparr>ep_reach := ep_reach f\<rparr> else run"
    have ok: "ep_ok n ?run" using "2.prems"(1) f run by (auto simp: ep_ok_def)
    have start: "ep_start ?run = ep_start run" by simp
    have den: "ep_den ?run = ep_den run \<union> ep_den f"
      using False sep f run by (auto simp: ep_den_def)
    obtain xs where "normalize_sweep ?run rest = ret xs" "canonical n xs"
      "den_list xs = ep_den ?run \<union> \<Union> (ep_den ` set rest)"
      "\<forall>x \<in> set xs. ep_start run \<le> start x" "length xs \<le> Suc (length rest)"
      using "2.IH"(1) [OF _ ok] False "2.prems" start by auto
    then show ?thesis using False den by (auto simp: Un_assoc)
  next
    case True
    have "\<forall>g \<in> set rest. ep_ok n g \<and> ep_start f \<le> ep_start g"
      and "sorted_wrt (\<lambda>x y. ep_start x \<le> ep_start y) rest"
      using "2.prems" by auto
    moreover note p = ep_span_props [OF "2.prems"(1)]
    ultimately obtain xs where xs: "normalize_sweep f rest = ret xs" "canonical n xs"
      "den_list xs = ep_den f \<union> \<Union> (ep_den ` set rest)"
      "\<forall>x \<in> set xs. ep_start f \<le> start x" "length xs \<le> Suc (length rest)"
      using "2.IH"(2) [OF _ p(1)] True f(1) by auto
    have "canonical n (ep_span run # xs)"
      using p xs sep True by (fastforce simp: canonical_Cons)
    moreover have "\<forall>x \<in> set xs. ep_start run \<le> start x" using xs(4) f(2) by fastforce
    ultimately show ?thesis using True p xs by (auto simp: Un_assoc)
  qed
qed


lemma exec_map_endpoints:
  "wf_set ss \<Longrightarrow> exec_map endpoints_of (spans ss) = ret (map eps (spans ss))"
  by (intro exec_map_ret) (auto simp: wf_set_def)

lemma normalize_Ok:
  assumes "uniform n ss"
  obtains xs where "normalize ss = ret (Ok (SpanSet xs))" "canonical n xs"
    "den_list xs = den_set ss" "length xs \<le> length (spans ss)"
proof (cases "spans ss = []")
  case True
  then show thesis using that [of "[]"] level_class_uniform [OF assms]
    by (simp add: normalize_def spanset_empty_def den_set_def)
next
  case False
  let ?es = "sort_key ep_start (map eps (spans ss))"
  obtain run rest where es: "?es = run # rest"
    using False by (metis list.exhaust length_0_conv length_map length_sort)
  have ok: "\<forall>e \<in> set ?es. ep_ok n e"
    using assms by (auto simp: uniform_def ep_ok_eps)
  have "sorted (map ep_start ?es)" by simp
  then have "\<forall>f \<in> set rest. ep_start run \<le> ep_start f"
    "sorted_wrt (\<lambda>x y. ep_start x \<le> ep_start y) rest"
    using es by (auto simp: sorted_wrt_map)
  then obtain xs where xs: "normalize_sweep run rest = ret xs" "canonical n xs"
    "den_list xs = ep_den run \<union> \<Union> (ep_den ` set rest)" "length xs \<le> Suc (length rest)"
    using normalize_sweep_spec [of n run rest] ok es by auto
  have "ep_den run \<union> \<Union> (ep_den ` set rest) = \<Union> (ep_den ` set ?es)" using es by simp
  also have "\<dots> = den_set ss" by (simp add: den_set_def den_list_def)
  finally have "den_list xs = den_set ss" using xs(3) by simp
  moreover have "length xs \<le> length (spans ss)"
    using xs(4) es by (metis length_Cons length_map length_sort)
  moreover have "normalize ss = ret (Ok (SpanSet xs))"
    using False es xs(1) level_class_uniform [OF assms] exec_map_endpoints [OF uniform_wf [OF assms]]
    by (simp add: normalize_def spanset_from_iter_def)
  ultimately show thesis using that xs(2) by blast
qed

lemma normalize_Err:
  assumes "wf_set ss" "\<forall>n. \<not> uniform n ss"
  shows "normalize ss = ret (Err LevelMismatch)"
  using level_class_Err_iff [OF assms(1)] assms(2) by (simp add: normalize_def)

lemma uniform_canonical: "canonical n xs \<Longrightarrow> uniform n (SpanSet xs)"
  by (simp add: canonical_def uniform_def)

text \<open>A canonical sequence is its own normal form.\<close>

lemma normalize_canonical:
  assumes "canonical n xs"
  shows "normalize (SpanSet xs) = ret (Ok (SpanSet xs))"
proof -
  obtain ys where ys: "normalize (SpanSet xs) = ret (Ok (SpanSet ys))" "canonical n ys"
    "den_list ys = den_set (SpanSet xs)"
    using normalize_Ok [OF uniform_canonical [OF assms]] by blast
  then have "ys = xs" using canonical_unique [OF ys(2) assms] by simp
  then show ?thesis using ys(1) by simp
qed

lemma any_contains_eq:
  "\<forall>s \<in> set xs. wf_span s \<Longrightarrow> any_contains xs t = ret (t \<in> den_list xs)"
  by (induction xs) auto

lemma denotes_eq [returns]: "wf_set ss \<Longrightarrow> denotes ss t = ret (t \<in> den_set ss)"
  by (simp add: denotes_def den_set_def wf_set_def any_contains_eq)

lemma equiv_eq [returns]:
  assumes "uniform n a" "uniform m b"
  shows "equiv a b = ret (Ok (den_set a = den_set b))"
proof -
  obtain xs ys where xs: "normalize a = ret (Ok (SpanSet xs))" "canonical n xs" "den_list xs = den_set a"
    and ys: "normalize b = ret (Ok (SpanSet ys))" "canonical m ys" "den_list ys = den_set b"
    using normalize_Ok [OF assms(1)] normalize_Ok [OF assms(2)] by metis
  have "xs = ys \<longleftrightarrow> den_set a = den_set b"
    using canonical_unique [OF xs(2) ys(2)] xs(3) ys(3) by auto
  then show ?thesis using xs(1) ys(1) by (simp add: equiv_def)
qed

section \<open>The intersection sweep\<close>

lemma intersection_ep:
  assumes "at_level n a" "at_level n b"
  shows "intersection (eps a) (eps b) = ret None \<and> den a \<inter> den b = {} \<or>
    (\<exists>x. intersection (eps a) (eps b) = ret (Some x) \<and> at_level n x \<and> den x = den a \<inter> den b \<and>
      reach_of x = min (reach_of a) (reach_of b))"
proof -
  let ?s = "max (start a) (start b)" and ?r = "min (reach_of a) (reach_of b)"
  have len: "tumbler_len ?s = n" "tumbler_len ?r = n"
    using assms by (auto simp: max_def min_def at_level_len)
  have "den a \<inter> den b = {?s..<?r}" by (simp add: den_def Int_atLeastLessThan)
  then show ?thesis
    using intersection_eq [OF assms] mk_span_props [of ?s ?r] len
    by (cases "?s < ?r") (auto simp: Let_def)
qed

lemma start_in_den_list: "canonical n zs \<Longrightarrow> z \<in> set zs \<Longrightarrow> start z \<in> den_list zs"
  by (auto simp: canonical_def intro!: den_listI start_in_den)

lemma disjoint_later:
  "\<forall>y \<in> set ys. reach_of b < start y \<Longrightarrow> reach_of a \<le> reach_of b \<Longrightarrow> den a \<inter> den_list ys = {}"
  using den_list_lower [of _ ys "reach_of b"] by (fastforce simp: den_def)

text \<open>One step of the sweep: an emitted piece precedes everything emitted after it.\<close>

lemma canonical_emit:
  assumes "canonical n zs" "den_list zs \<subseteq> den_list ws" "\<forall>w \<in> set ws. b < start w"
    and "at_level n x" "reach_of x \<le> b"
  shows "canonical n (x # zs)"
proof -
  have "reach_of x < start z" if "z \<in> set zs" for z
    using start_in_den_list [OF assms(1) that] assms(2,3,5) den_list_lower [of "start z" ws b]
    by fastforce
  then show ?thesis using assms(1,4) by (simp add: canonical_Cons)
qed

lemma intersect_sweep_spec:
  assumes "canonical n xs" "canonical n ys"
  shows "\<exists>zs. intersect_sweep (map eps xs) (map eps ys) = ret zs \<and> canonical n zs \<and>
    den_list zs = den_list xs \<inter> den_list ys"
  using assms
proof (induction "length xs + length ys" arbitrary: xs ys rule: less_induct)
  case less
  show ?case
  proof (cases "xs = [] \<or> ys = []")
    case True
    then show ?thesis by (cases xs; cases ys) auto
  next
    case False
    then obtain a as b bs where xs: "xs = a # as" and ys: "ys = b # bs"
      by (metis list.exhaust)
    have a: "at_level n a" "canonical n as" "\<forall>y \<in> set as. reach_of a < start y"
      and b: "at_level n b" "canonical n bs" "\<forall>y \<in> set bs. reach_of b < start y"
      using less.prems xs ys by (auto simp: canonical_Cons)
    define ws where "ws = (if reach_of a \<le> reach_of b then as else bs)"
    obtain zs where zs: "canonical n zs" "den_list zs \<subseteq> den_list ws"
      "(if reach_of a \<le> reach_of b then intersect_sweep (map eps as) (map eps ys)
        else intersect_sweep (map eps xs) (map eps bs)) = ret zs"
      "den_list xs \<inter> den_list ys = (den a \<inter> den b) \<union> den_list zs"
    proof (cases "reach_of a \<le> reach_of b")
      case True
      obtain zs where zs: "intersect_sweep (map eps as) (map eps ys) = ret zs" "canonical n zs"
        "den_list zs = den_list as \<inter> den_list ys"
        using less.hyps [of as ys] a(2) less.prems(2) xs by auto
      have "den_list xs \<inter> den_list ys = (den a \<inter> den b) \<union> den_list zs"
        unfolding zs(3) xs ys den_list_simps using disjoint_later [OF b(3) True] by blast
      then show thesis using that [of zs] zs True by (simp add: ws_def)
    next
      case False
      obtain zs where zs: "intersect_sweep (map eps xs) (map eps bs) = ret zs" "canonical n zs"
        "den_list zs = den_list xs \<inter> den_list bs"
        using less.hyps [of xs bs] b(2) less.prems(1) ys by auto
      have "reach_of b \<le> reach_of a" using False by simp
      then have "den_list xs \<inter> den_list ys = (den a \<inter> den b) \<union> den_list zs"
        unfolding zs(3) xs ys den_list_simps using disjoint_later [OF a(3)] by blast
      then show thesis using that [of zs] zs False by (simp add: ws_def)
    qed
    have ws: "\<forall>w \<in> set ws. min (reach_of a) (reach_of b) < start w"
      using a(3) b(3) by (auto simp: ws_def min_def)
    show ?thesis
      using intersection_ep [OF a(1) b(1)]
    proof
      assume "intersection (eps a) (eps b) = ret None \<and> den a \<inter> den b = {}"
      then show ?thesis using zs xs ys by (auto split: if_splits)
    next
      assume "\<exists>x. intersection (eps a) (eps b) = ret (Some x) \<and> at_level n x \<and>
        den x = den a \<inter> den b \<and> reach_of x = min (reach_of a) (reach_of b)"
      then obtain x where x: "intersection (eps a) (eps b) = ret (Some x)" "at_level n x"
        "den x = den a \<inter> den b" "reach_of x = min (reach_of a) (reach_of b)" by blast
      then have "canonical n (x # zs)" using canonical_emit [OF zs(1,2) ws] by simp
      moreover have "intersect_sweep (map eps xs) (map eps ys) = ret (x # zs)"
        using x zs(3) xs ys by (simp split: if_splits)
      ultimately show ?thesis using x(3) zs(4) by auto
    qed
  qed
qed


section \<open>The difference sweep\<close>

lemma canonical_push:
  assumes "tumbler_len s = n" "tumbler_len r = n"
  shows "canonical n (if s < r then [mk_span s r] else [])"
    "den_list (if s < r then [mk_span s r] else []) = {s..<r}"
    "x \<in> set (if s < r then [mk_span s r] else []) \<Longrightarrow> start x = s \<and> reach_of x = r \<and> s < r"
  using assms mk_span_props [of s r] by (auto simp: canonical_Cons split: if_splits)

text \<open>
  The set identity behind one step of the inner loop: past a b-span only the part before its
  start and the part at or past its reach survive.
\<close>

lemma surviving_step:
  assumes "sb < rb" "\<forall>y \<in> set ys. rb < start y" "c1 = max c rb" "sb < r"
  shows "{c..<r} - ({sb..<rb} \<union> den_list ys) = {c..<sb} \<union> ({c1..<r} - den_list ys)"
proof -
  have later: "rb < t" if "t \<in> den_list ys" for t using den_list_lower [OF that assms(2)] .
  show ?thesis
  proof (intro set_eqI iffI)
    fix t assume "t \<in> {c..<r} - ({sb..<rb} \<union> den_list ys)"
    then show "t \<in> {c..<sb} \<union> ({c1..<r} - den_list ys)" using assms(3) by (auto simp: max_def)
  next
    fix t assume "t \<in> {c..<sb} \<union> ({c1..<r} - den_list ys)"
    then show "t \<in> {c..<r} - ({sb..<rb} \<union> den_list ys)"
      using assms(1,3,4) later [of t] by (auto simp: max_def split: if_splits)
  qed
qed

lemma difference_inner_spec:
  assumes "canonical n bs" "tumbler_len c = n"
  shows "\<exists>gaps c'. difference_inner c r (map eps bs) = ret (gaps, c') \<and> canonical n gaps \<and>
    den_list gaps \<union> {c'..<r} = {c..<r} - den_list bs \<and> tumbler_len c' = n \<and> c \<le> c' \<and>
    (\<forall>x \<in> set gaps. c \<le> start x \<and> reach_of x < c' \<and> reach_of x < r) \<and>
    length gaps \<le> length (filter (\<lambda>b. c < start b \<and> start b < r) bs)"
  using assms
proof (induction bs arbitrary: c)
  case Nil
  then show ?case by simp
next
  case (Cons b bs)
  have b: "at_level n b" "canonical n bs" "\<forall>y \<in> set bs. reach_of b < start y"
    using Cons.prems(1) by (auto simp: canonical_Cons)
  have less: "start b < reach_of b" using b(1) by (auto simp: start_less_reach)
  show ?case
  proof (cases "start b < r")
    case False
    have "\<forall>y \<in> set (b # bs). r \<le> start y" using b(3) less False by fastforce
    then have "{c..<r} - den_list (b # bs) = {c..<r}"
      by (fastforce simp: den_list_def den_def)
    then show ?thesis using False Cons.prems(2) by simp
  next
    case True
    let ?g = "if c < start b then [mk_span c (start b)] else []"
    let ?c1 = "if c < reach_of b then reach_of b else c"
    have len: "tumbler_len (start b) = n" "tumbler_len (reach_of b) = n"
      using b(1) by (simp_all add: at_level_len)
    note g = canonical_push [OF Cons.prems(2) len(1)]
    have c1: "tumbler_len ?c1 = n" "c \<le> ?c1" "reach_of b \<le> ?c1" "?c1 = max c (reach_of b)"
      using len Cons.prems(2) by (auto simp: max_def)
    have step: "{c..<r} - den_list (b # bs) = den_list ?g \<union> ({?c1..<r} - den_list bs)"
      using surviving_step [OF less b(3) c1(4) True] g(2) by (simp add: den_def)
    have fe: "c < start b \<Longrightarrow> from_endpoints c (start b) = ret (Ok (mk_span c (start b)))"
      using len Cons.prems(2) by simp
    have gb: "\<forall>x \<in> set ?g. c \<le> start x \<and> reach_of x < ?c1 \<and> reach_of x < r"
      using g(3) less c1(3) True by fastforce
    have cnt: "length ?g + length (filter (\<lambda>b. ?c1 < start b \<and> start b < r) bs)
        \<le> length (filter (\<lambda>b. c < start b \<and> start b < r) (b # bs))"
    proof -
      have "length (filter (\<lambda>b. ?c1 < start b \<and> start b < r) bs)
          \<le> length (filter (\<lambda>b. c < start b \<and> start b < r) bs)"
        using c1(2) by (induction bs) auto
      then show ?thesis using True by simp
    qed
    show ?thesis
    proof (cases "?c1 \<ge> r")
      case stop: True
      have "difference_inner c r (map eps (b # bs)) = ret (?g, ?c1)"
        using True fe stop by (auto simp: Let_def)
      moreover have "den_list ?g \<union> {?c1..<r} = {c..<r} - den_list (b # bs)"
        using step stop by auto
      moreover have "length ?g \<le> length (filter (\<lambda>b. c < start b \<and> start b < r) (b # bs))"
        using cnt by linarith
      ultimately show ?thesis using g(1) c1 gb by blast
    next
      case go: False
      obtain gaps c' where ih: "difference_inner ?c1 r (map eps bs) = ret (gaps, c')"
        "canonical n gaps" "den_list gaps \<union> {c'..<r} = {?c1..<r} - den_list bs"
        "tumbler_len c' = n" "?c1 \<le> c'"
        "\<forall>x \<in> set gaps. ?c1 \<le> start x \<and> reach_of x < c' \<and> reach_of x < r"
        "length gaps \<le> length (filter (\<lambda>b. ?c1 < start b \<and> start b < r) bs)"
        using Cons.IH [OF b(2) c1(1)] by blast
      have "difference_inner c r (map eps (b # bs)) = ret (?g @ gaps, c')"
        using True fe go ih(1) by (auto simp: Let_def split: if_splits)
      moreover have "canonical n (?g @ gaps)"
        using g(1) ih(2,6) gb by (fastforce simp: canonical_append)
      moreover have "den_list (?g @ gaps) \<union> {c'..<r} = {c..<r} - den_list (b # bs)"
        using step ih(3) by auto
      moreover have "\<forall>x \<in> set (?g @ gaps). c \<le> start x \<and> reach_of x < c' \<and> reach_of x < r"
        using gb ih(5,6) c1(2) by fastforce
      moreover have "length (?g @ gaps) \<le> length (filter (\<lambda>b. c < start b \<and> start b < r) (b # bs))"
        using cnt ih(7) by (simp del: filter.simps)
      moreover have "c \<le> c'" using c1(2) ih(5) by simp
      ultimately show ?thesis using ih(4) by blast
    qed
  qed
qed


text \<open>The b-spans the cursor drops lie before every point still to be considered.\<close>

lemma dropWhile_den:
  assumes "canonical n bs"
  obtains ds where "bs = ds @ dropWhile (\<lambda>b. reach_of b \<le> s) bs"
    "\<forall>d \<in> set ds. reach_of d \<le> s" "canonical n (dropWhile (\<lambda>b. reach_of b \<le> s) bs)"
proof -
  let ?P = "\<lambda>b. reach_of b \<le> s"
  have eq: "bs = takeWhile ?P bs @ dropWhile ?P bs" by simp
  moreover have "\<forall>d \<in> set (takeWhile ?P bs). reach_of d \<le> s" by (auto dest: set_takeWhileD)
  moreover have "canonical n (dropWhile ?P bs)" using assms eq canonical_append by metis
  ultimately show thesis using that by blast
qed

lemma den_list_below:
  "\<forall>d \<in> set ds. reach_of d \<le> s \<Longrightarrow> t \<in> den_list ds \<Longrightarrow> t < s"
  by (fastforce simp: den_list_def den_def)

lemma filter_length_mono:
  "(\<And>x. x \<in> set xs \<Longrightarrow> P x \<Longrightarrow> Q x) \<Longrightarrow> length (filter P xs) \<le> length (filter Q xs)"
  by (induction xs) auto

lemma filter_length_disjoint:
  "(\<And>x. x \<in> set xs \<Longrightarrow> \<not> (P x \<and> Q x)) \<Longrightarrow>
   length (filter P xs) + length (filter Q xs) = length (filter (\<lambda>x. P x \<or> Q x) xs)"
  by (induction xs) auto

lemma difference_sweep_spec:
  assumes "canonical n xs" "canonical n ys"
  shows "\<exists>zs. difference_sweep (map eps xs) (map eps ys) = ret zs \<and> canonical n zs \<and>
    den_list zs = den_list xs - den_list ys \<and>
    length zs \<le> length xs +
      length (filter (\<lambda>b. \<exists>a \<in> set xs. start a < start b \<and> start b < reach_of a) ys)"
  using assms
proof (induction xs arbitrary: ys)
  case Nil
  then show ?case by simp
next
  case (Cons a as)
  let ?inside = "\<lambda>as b. \<exists>a \<in> set as. start a < start b \<and> start b < reach_of a"
  let ?ys = "dropWhile (\<lambda>b. reach_of b \<le> start a) ys"
  have a: "at_level n a" "canonical n as" "\<forall>y \<in> set as. reach_of a < start y"
    and less: "start a < reach_of a" and len: "tumbler_len (start a) = n" "tumbler_len (reach_of a) = n"
    using Cons.prems(1) by (auto simp: canonical_Cons start_less_reach at_level_len)
  obtain ds where ds: "ys = ds @ ?ys" "\<forall>d \<in> set ds. reach_of d \<le> start a" "canonical n ?ys"
    by (rule dropWhile_den [OF Cons.prems(2)])
  have drop: "dropWhile (\<lambda>b. ep_reach b \<le> ep_start (eps a)) (map eps ys) = map eps ?ys"
    by (simp add: dropWhile_map comp_def)
  obtain gaps c where inner: "difference_inner (start a) (reach_of a) (map eps ?ys) = ret (gaps, c)"
    "canonical n gaps" "den_list gaps \<union> {c..<reach_of a} = {start a..<reach_of a} - den_list ?ys"
    "tumbler_len c = n" "start a \<le> c"
    "\<forall>x \<in> set gaps. start a \<le> start x \<and> reach_of x < c \<and> reach_of x < reach_of a"
    "length gaps \<le> length (filter (\<lambda>b. start a < start b \<and> start b < reach_of a) ?ys)"
    using difference_inner_spec [OF ds(3) len(1)] by blast
  let ?tail = "if c < reach_of a then [mk_span c (reach_of a)] else []"
  note tail = canonical_push [OF inner(4) len(2)]
  obtain zs where zs: "difference_sweep (map eps as) (map eps ?ys) = ret zs" "canonical n zs"
    "den_list zs = den_list as - den_list ?ys"
    "length zs \<le> length as + length (filter (?inside as) ?ys)"
    using Cons.IH [OF a(2) ds(3)] by blast
  have run: "difference_sweep (map eps (a # as)) (map eps ys) = ret (gaps @ ?tail @ zs)"
    using drop inner(1,4) len zs(1) by (simp add: Let_def)
  have below: "reach_of x \<le> reach_of a" if "x \<in> set (gaps @ ?tail)" for x
    using that inner(6) tail(3) [of x] unfolding set_append Un_iff by (metis order.refl less_imp_le)
  have above: "reach_of a < start z" if "z \<in> set zs" for z
    using start_in_den_list [OF zs(2) that] zs(3) a(3) den_list_lower [of "start z" as "reach_of a"]
    by auto
  have "reach_of x < start y" if "x \<in> set gaps" "y \<in> set ?tail" for x y
    using that(1) inner(6) tail(3) [OF that(2)] by simp
  then have gt: "canonical n (gaps @ ?tail)"
    unfolding canonical_append using inner(2) tail(1) by blast
  have "reach_of x < start z" if "x \<in> set (gaps @ ?tail)" "z \<in> set zs" for x z
    using below [OF that(1)] above [OF that(2)] by (rule le_less_trans)
  then have can: "canonical n ((gaps @ ?tail) @ zs)"
    using gt zs(2) canonical_append [of n "gaps @ ?tail" zs] by blast
  have early: "t \<notin> den_list ds" if "t \<in> den_list (a # as)" for t
    using canonical_start_least [OF Cons.prems(1) that] den_list_below [OF ds(2)] by fastforce
  have "den_list (gaps @ ?tail @ zs) = (den a - den_list ?ys) \<union> (den_list as - den_list ?ys)"
    using inner(3) tail(2) zs(3) by (simp add: den_def Un_assoc [symmetric])
  also have "\<dots> = den_list (a # as) - den_list ?ys" by auto
  also have "\<dots> = den_list (a # as) - den_list ys"
  proof -
    have "den_list ys = den_list ds \<union> den_list ?ys" using arg_cong [OF ds(1), of den_list] by simp
    then show ?thesis using early by blast
  qed
  finally have den: "den_list (gaps @ ?tail @ zs) = den_list (a # as) - den_list ys" .
  have "length (filter (\<lambda>b. start a < start b \<and> start b < reach_of a) ?ys)
      + length (filter (?inside as) ?ys)
      = length (filter (\<lambda>b. (start a < start b \<and> start b < reach_of a) \<or> ?inside as b) ?ys)"
    using a(3) by (intro filter_length_disjoint) fastforce
  also have "\<dots> \<le> length (filter (?inside (a # as)) ys)"
  proof -
    have "length (filter (?inside (a # as)) ys) =
        length (filter (?inside (a # as)) ds) + length (filter (?inside (a # as)) ?ys)"
      using arg_cong [OF ds(1), of "\<lambda>zs. length (filter (?inside (a # as)) zs)"] by simp
    then show ?thesis by simp
  qed
  finally have cnt: "length (filter (\<lambda>b. start a < start b \<and> start b < reach_of a) ?ys)
      + length (filter (?inside as) ?ys) \<le> length (filter (?inside (a # as)) ys)" .
  have "length ?tail \<le> 1" by simp
  then have "length (gaps @ ?tail @ zs) \<le> length (a # as) + length (filter (?inside (a # as)) ys)"
    unfolding length_append list.size(4) using inner(7) zs(4) cnt by linarith
  moreover have "canonical n (gaps @ ?tail @ zs)" using can by simp
  ultimately show ?case using run den by blast
qed


section \<open>The set-level operations\<close>

lemma exec_map_eps: "canonical n xs \<Longrightarrow> exec_map endpoints_of xs = ret (map eps xs)"
  by (intro exec_map_ret) (auto simp: canonical_def)

lemma level_class_canonical:
  "canonical n xs \<Longrightarrow> level_class (SpanSet xs) = Ok (if xs = [] then None else Some n)"
  using level_class_uniform [OF uniform_canonical] by fastforce

lemma normalized_endpoints_Ok:
  assumes "uniform n a" "uniform n b"
  obtains xs ys where "normalized_endpoints a b = ret (Ok (map eps xs, map eps ys))"
    "canonical n xs" "canonical n ys" "den_list xs = den_set a" "den_list ys = den_set b"
    "length xs \<le> length (spans a)" "length ys \<le> length (spans b)"
proof -
  obtain xs where xs: "normalize a = ret (Ok (SpanSet xs))" "canonical n xs" "den_list xs = den_set a"
    "length xs \<le> length (spans a)"
    using normalize_Ok [OF assms(1)] by metis
  obtain ys where ys: "normalize b = ret (Ok (SpanSet ys))" "canonical n ys" "den_list ys = den_set b"
    "length ys \<le> length (spans b)"
    using normalize_Ok [OF assms(2)] by metis
  have "normalized_endpoints a b = ret (Ok (map eps xs, map eps ys))"
    using xs ys level_class_canonical [OF xs(2)] level_class_canonical [OF ys(2)]
    by (simp add: normalized_endpoints_def exec_map_eps)
  then show thesis using that xs ys by blast
qed

lemma normalize_nonempty:
  assumes "uniform n a" "spans a \<noteq> []" "normalize a = ret (Ok (SpanSet xs))"
  shows "xs \<noteq> []"
proof
  assume "xs = []"
  obtain ys where "normalize a = ret (Ok (SpanSet ys))" "den_list ys = den_set a"
    using normalize_Ok [OF assms(1)] by metis
  then have "den_set a = {}" using assms(3) \<open>xs = []\<close> by simp
  moreover obtain s where "s \<in> set (spans a)" using assms(2) by (cases "spans a") auto
  ultimately show False
    using assms(1) den_not_empty [of s] by (auto simp: den_set_def den_list_def uniform_def)
qed

lemma normalized_endpoints_mismatch:
  assumes "uniform n a" "uniform m b" "n \<noteq> m" "spans a \<noteq> []" "spans b \<noteq> []"
  shows "normalized_endpoints a b = ret (Err LevelMismatch)"
proof -
  obtain xs ys where xs: "normalize a = ret (Ok (SpanSet xs))" "canonical n xs"
    and ys: "normalize b = ret (Ok (SpanSet ys))" "canonical m ys"
    using normalize_Ok [OF assms(1)] normalize_Ok [OF assms(2)] by metis
  have "xs \<noteq> []" "ys \<noteq> []"
    using normalize_nonempty [OF assms(1,4) xs(1)] normalize_nonempty [OF assms(2,5) ys(1)] by auto
  then show ?thesis
    using xs ys assms(3) level_class_canonical [OF xs(2)] level_class_canonical [OF ys(2)]
    by (simp add: normalized_endpoints_def)
qed

lemma intersect_sets_Ok:
  assumes "uniform n a" "uniform n b"
  obtains zs where "intersect_sets a b = ret (Ok (SpanSet zs))" "canonical n zs"
    "den_list zs = den_set a \<inter> den_set b"
proof -
  obtain xs ys where *: "normalized_endpoints a b = ret (Ok (map eps xs, map eps ys))"
    "canonical n xs" "canonical n ys" "den_list xs = den_set a" "den_list ys = den_set b"
    using normalized_endpoints_Ok [OF assms] by metis
  obtain zs where "intersect_sweep (map eps xs) (map eps ys) = ret zs" "canonical n zs"
    "den_list zs = den_list xs \<inter> den_list ys"
    using intersect_sweep_spec [OF *(2,3)] by blast
  then show thesis using that * by (simp add: intersect_sets_def spanset_from_iter_def)
qed

lemma difference_sets_Ok:
  assumes "uniform n a" "uniform n b"
  obtains zs where "difference_sets a b = ret (Ok (SpanSet zs))" "canonical n zs"
    "den_list zs = den_set a - den_set b" "length zs \<le> length (spans a) + length (spans b)"
proof -
  obtain xs ys where *: "normalized_endpoints a b = ret (Ok (map eps xs, map eps ys))"
    "canonical n xs" "canonical n ys" "den_list xs = den_set a" "den_list ys = den_set b"
    "length xs \<le> length (spans a)" "length ys \<le> length (spans b)"
    using normalized_endpoints_Ok [OF assms] by metis
  let ?Q = "\<lambda>b. \<exists>a \<in> set xs. start a < start b \<and> start b < reach_of a"
  obtain zs where zs: "difference_sweep (map eps xs) (map eps ys) = ret zs" "canonical n zs"
    "den_list zs = den_list xs - den_list ys" "length zs \<le> length xs + length (filter ?Q ys)"
    using difference_sweep_spec [OF *(2,3)] by blast
  have "length (filter ?Q ys) \<le> length ys" by simp
  then have "length zs \<le> length (spans a) + length (spans b)" using zs(4) *(6,7) by linarith
  then show thesis using that zs * by (simp add: difference_sets_def spanset_from_iter_def)
qed

section \<open>Point sets\<close>

lemma hull_loop_eq:
  "hull_loop ps (lo, hi) = (Min (insert lo (set ps)), Max (insert hi (set ps)))"
proof (induction ps arbitrary: lo hi)
  case (Cons p ps)
  have "Min (insert lo (insert p (set ps))) = min lo (Min (insert p (set ps)))"
    by simp
  moreover have "Min (insert (min lo p) (set ps)) = Min (insert lo (insert p (set ps)))"
    by (cases "ps = []") (auto simp: min.assoc)
  moreover have "Max (insert (max hi p) (set ps)) = Max (insert hi (insert p (set ps)))"
    by (cases "ps = []") (auto simp: max.assoc)
  ultimately show ?case using Cons.IH [of "min lo p" "max hi p"]
    by (simp add: min_def max_def) (auto simp: not_less less_imp_le)
qed simp

text \<open>Among tumblers of one length, \<open>advance t 1\<close> is the least above \<open>t\<close>.\<close>

lemma advance_least:
  assumes "t < u" "tumbler_len t = tumbler_len u"
  shows "advance t 1 \<le> u"
proof (rule ccontr)
  assume "\<not> advance t 1 \<le> u"
  then have "u \<in> den (mk_span t (advance t 1))"
    using assms mk_span_props(5) [of t "advance t 1"] by auto
  then have "is_prefix t u" by (simp only: den_subtree mem_Collect_eq)
  then have "comps t = comps u" using assms(2) by (simp add: is_prefix_def tumbler_len_def)
  then show False using assms(1) by (simp add: less_tumbler_def)
qed

lemma hull_eq [returns]:
  assumes "ps \<noteq> []"
  shows "hull ps = ret (if tumbler_len (Min (set ps)) = tumbler_len (Max (set ps))
    then Ok (Some (mk_span (Min (set ps)) (advance (Max (set ps)) 1))) else Err LevelMismatch)"
proof -
  obtain p qs where ps: "ps = p # qs" using assms by (cases ps) auto
  have "Min (set ps) \<le> Max (set ps)" using ps by (metis List.finite_set Max_ge Min_in assms set_empty2)
  then have "Min (set ps) < advance (Max (set ps)) 1"
    using le_less_trans less_advance zero_less_one by blast
  then show ?thesis using ps by (auto simp: hull_def hull_loop_eq)
qed

lemma cover_eq [returns]:
  "cover ps = ret (SpanSet (map (\<lambda>p. mk_span p (advance p 1)) ps))"
  using exec_map_ret [of ps subtree_of "\<lambda>p. mk_span p (advance p 1)"]
  by (simp add: cover_def spanset_from_iter_def)

section \<open>Partition by length class\<close>

lemma class_push_props:
  assumes "sorted_wrt (<) (map fst m)"
  shows "sorted_wrt (<) (map fst (class_push k s m))"
    "map_of (class_push k s m) = (map_of m)(k \<mapsto> (case map_of m k of None \<Rightarrow> [] | Some xs \<Rightarrow> xs) @ [s])"
proof -
  have keys: "fst ` set (class_push k s m) = insert k (fst ` set m)" for k s m
    by (induction k s m rule: class_push.induct) auto
  show "sorted_wrt (<) (map fst (class_push k s m))"
    using assms
  proof (induction k s m rule: class_push.induct)
    case (2 k s l xs m)
    have "fst x = k \<or> fst x \<in> fst ` set m" if "x \<in> set (class_push k s m)" for x
      using keys [of k s m] that by (metis imageI insertE)
    then show ?case using 2 by fastforce
  qed simp
  show "map_of (class_push k s m) = (map_of m)(k \<mapsto> (case map_of m k of None \<Rightarrow> [] | Some xs \<Rightarrow> xs) @ [s])"
    using assms
  proof (induction k s m rule: class_push.induct)
    case (2 k s l xs m)
    have "map_of m k = None" if "k < l"
      using that "2.prems" by (fastforce simp: map_of_eq_None_iff)
    then show ?case using 2 by (auto simp: fun_eq_iff)
  qed (simp add: fun_eq_iff)
qed


text \<open>The classes are the stored spans of each length, in stored order.\<close>

lemma foldl_class_push:
  assumes "sorted_wrt (<) (map fst m)"
  shows "sorted_wrt (<) (map fst (foldl (\<lambda>m s. class_push (tumbler_len (start s)) s m) m xs))"
    "(case map_of (foldl (\<lambda>m s. class_push (tumbler_len (start s)) s m) m xs) k of
        None \<Rightarrow> [] | Some ys \<Rightarrow> ys) =
     (case map_of m k of None \<Rightarrow> [] | Some ys \<Rightarrow> ys) @ filter (\<lambda>s. tumbler_len (start s) = k) xs"
  using assms
proof (induction xs arbitrary: m)
  case (Cons x xs)
  {
    case 1
    then show ?case using Cons.IH(1) class_push_props(1) by simp
  next
    case 2
    then show ?case
      using Cons.IH(2) [OF class_push_props(1) [OF 2]] class_push_props(2) [OF 2] by simp
  }
qed simp_all

lemma by_level_class_lookup:
  "sorted_wrt (<) (map fst (by_level_class ss))"
  "(case map_of (by_level_class ss) k of None \<Rightarrow> [] | Some c \<Rightarrow> spans c) =
     filter (\<lambda>s. tumbler_len (start s) = k) (spans ss)"
proof -
  let ?m = "foldl (\<lambda>m s. class_push (tumbler_len (start s)) s m) [] (spans ss)"
  have "map fst (by_level_class ss) = map fst ?m"
    by (simp add: by_level_class_def comp_def case_prod_unfold)
  then show "sorted_wrt (<) (map fst (by_level_class ss))"
    using foldl_class_push(1) [of "[]"] by simp
  have "map_of (by_level_class ss) k = map_option SpanSet (map_of ?m k)"
    by (simp add: by_level_class_def spanset_from_iter_def map_of_map)
  then show "(case map_of (by_level_class ss) k of None \<Rightarrow> [] | Some c \<Rightarrow> spans c) =
     filter (\<lambda>s. tumbler_len (start s) = k) (spans ss)"
    using foldl_class_push(2) [of "[]" "spans ss" k] by (cases "map_of ?m k") auto
qed


section \<open>The span-sets of one length class form a set algebra\<close>

lemma canonical_self: "canonical n xs \<Longrightarrow> uniform n (SpanSet xs) \<and> den_set (SpanSet xs) = den_list xs"
  by (simp add: uniform_canonical)

interpretation spansets: set_algebra "uniform n" den_set normalize union intersect_sets difference_sets
  for n
proof (unfold_locales, goal_cases)
  case (1 a)
  then show ?case by (metis canonical_self normalize_Ok)
next
  case (2 a b)
  then show ?case by (metis canonical_unique normalize_Ok)
next
  case (3 a b)
  then show ?case by (auto simp: uniform_def union_def)
next
  case (4 a b)
  then show ?case by simp
next
  case (5 a b)
  then show ?case by (metis canonical_self intersect_sets_Ok normalize_canonical)
next
  case (6 a b)
  then show ?case by (metis canonical_self difference_sets_Ok normalize_canonical)
qed

section \<open>Properties\<close>

text \<open>
  C5: \<open>normalize\<close> never panics on legal spans. It refuses exactly the sets that mix length classes;
  otherwise it returns a normal form that covers the same tumblers with no more spans, that it
  leaves unchanged when given again, and that is the only normal form covering them.
\<close>

theorem normalize_exact:
  assumes "wf_set ss"
  shows "if \<exists>n. uniform n ss
    then \<exists>c. normalize ss = ret (Ok c) \<and> den_set c = den_set ss \<and> spanset_len c \<le> spanset_len ss \<and>
      normalize c = ret (Ok c) \<and>
      (\<exists>n. canonical n (spans c)) \<and>
      (\<forall>m d. canonical m (spans d) \<and> den_set d = den_set ss \<longrightarrow> d = c)
    else normalize ss = ret (Err LevelMismatch)"
proof (cases "\<exists>n. uniform n ss")
  case True
  then obtain n where "uniform n ss" ..
  then obtain xs where xs: "normalize ss = ret (Ok (SpanSet xs))" "canonical n xs"
    "den_list xs = den_set ss" "length xs \<le> length (spans ss)" by (rule normalize_Ok)
  have "d = SpanSet xs" if "canonical m (spans d)" "den_set d = den_set ss" for m d
    using canonical_unique [OF that(1) xs(2)] xs(3) that(2) by (cases d) (simp add: den_set_def)
  then have "\<forall>m d. canonical m (spans d) \<and> den_set d = den_set ss \<longrightarrow> d = SpanSet xs" by blast
  moreover have "normalize (SpanSet xs) = ret (Ok (SpanSet xs))" "den_set (SpanSet xs) = den_set ss"
    "spanset_len (SpanSet xs) \<le> spanset_len ss" "canonical n (spans (SpanSet xs))"
    using xs normalize_canonical by (auto simp: spanset_len_def)
  ultimately show ?thesis unfolding if_P [OF True] using xs(1) by blast
next
  case False
  then show ?thesis unfolding if_not_P [OF False] using normalize_Err [OF assms] by blast
qed

definition sample_set :: span_set where
  "sample_set = SpanSet [sample_span2, sample_span1]"

lemma uniform_sample [simp]: "uniform 2 sample_set"
  by (simp add: uniform_def sample_set_def)

theorem normalize_exact_witness:
  "\<exists>c. normalize sample_set = ret (Ok c) \<and> den_set c = den_set sample_set \<and> normalize c = ret (Ok c)"
proof -
  have "\<exists>n. uniform n sample_set" by (blast intro: uniform_sample)
  from normalize_exact [OF uniform_wf [OF uniform_sample], unfolded if_P [OF this]]
  show ?thesis by blast
qed

text \<open>
  C7: \<open>equiv\<close> decides equality of denotation: on two sets, each of one length class, it returns
  whether the membership test \<open>denotes\<close> agrees on every tumbler, and so does comparing the two
  canonical keys.
\<close>

theorem equiv_decides:
  assumes "uniform n a" "uniform m b"
  shows "equiv a b = ret (Ok (\<forall>t. denotes a t = denotes b t)) \<and>
    (\<exists>ka kb. canonical_key a = ret (Ok ka) \<and> canonical_key b = ret (Ok kb) \<and>
      (ka = kb \<longleftrightarrow> (\<forall>t. denotes a t = denotes b t)))"
proof -
  have same: "(\<forall>t. denotes a t = denotes b t) \<longleftrightarrow> den_set a = den_set b"
    using assms by (auto simp: denotes_eq uniform_wf)
  obtain xs ys where xs: "normalize a = ret (Ok (SpanSet xs))" "canonical n xs" "den_list xs = den_set a"
    and ys: "normalize b = ret (Ok (SpanSet ys))" "canonical m ys" "den_list ys = den_set b"
    using normalize_Ok [OF assms(1)] normalize_Ok [OF assms(2)] by metis
  have "xs = ys \<longleftrightarrow> den_set a = den_set b"
    using canonical_unique [OF xs(2) ys(2)] xs(3) ys(3) by auto
  then show ?thesis
    using xs(1) ys(1) by (simp add: same equiv_eq [OF assms] canonical_key_def)
qed

theorem equiv_decides_witness:
  "equiv sample_set (singleton sample_span1) =
     ret (Ok (\<forall>t. denotes sample_set t = denotes (singleton sample_span1) t))"
proof -
  have "uniform 2 (singleton sample_span1)" by (simp add: uniform_def singleton_def)
  from equiv_decides [OF uniform_sample this] show ?thesis by blast
qed

text \<open>
  C6: the linear sweeps of \<open>intersect_sets\<close> and \<open>difference_sets\<close> compute intersection and difference
  of what the two sets denote. On sets of one length class neither panics or refuses, both return
  normal forms, and the difference has at most as many spans as its two arguments together.
\<close>

theorem sweeps_exact:
  assumes "uniform n a" "uniform n b"
  shows "\<exists>i d. intersect_sets a b = ret (Ok i) \<and> difference_sets a b = ret (Ok d) \<and>
    is_normalized i = ret True \<and> is_normalized d = ret True \<and>
    spanset_len d \<le> spanset_len a + spanset_len b \<and>
    (\<forall>t. \<exists>x y. denotes a t = ret x \<and> denotes b t = ret y \<and>
       denotes i t = ret (x \<and> y) \<and> denotes d t = ret (x \<and> \<not> y))"
proof -
  obtain us where i: "intersect_sets a b = ret (Ok (SpanSet us))" "canonical n us"
    "den_list us = den_set a \<inter> den_set b" by (rule intersect_sets_Ok [OF assms])
  obtain ds where d: "difference_sets a b = ret (Ok (SpanSet ds))" "canonical n ds"
    "den_list ds = den_set a - den_set b" "length ds \<le> length (spans a) + length (spans b)"
    by (rule difference_sets_Ok [OF assms])
  have "wf_set a" "wf_set b" "wf_set (SpanSet us)" "wf_set (SpanSet ds)"
    using assms i(2) d(2) uniform_wf uniform_canonical by blast+
  moreover have "is_normalized (SpanSet us) = ret True" "is_normalized (SpanSet ds) = ret True"
    using normalize_canonical [OF i(2)] normalize_canonical [OF d(2)] by (simp_all add: is_normalized_def)
  ultimately show ?thesis using i d by (simp add: denotes_eq spanset_len_def)
qed

theorem sweeps_exact_witness:
  "\<exists>i d. intersect_sets sample_set (singleton sample_span1) = ret (Ok i) \<and>
     difference_sets sample_set (singleton sample_span1) = ret (Ok d) \<and>
     is_normalized i = ret True \<and> is_normalized d = ret True"
proof -
  have "uniform 2 (singleton sample_span1)" by (simp add: uniform_def singleton_def)
  from sweeps_exact [OF uniform_sample this] show ?thesis by blast
qed

text \<open>
  C8: the operations on span-sets of one length class obey the laws of set algebra, on the values
  they return: union is commutative and associative up to the normal form, intersection is
  commutative, removing two sets in turn is removing their union, intersection is recovered from
  difference, and a set is the union of its intersection with and its difference from another.
\<close>

theorem span_set_laws:
  assumes "uniform n a" "uniform n b" "uniform n c"
    and "intersect_sets a b = ret (Ok i)" "difference_sets a b = ret (Ok d)"
  shows "normalize (union a b) = normalize (union b a) \<and>
    normalize (union (union a b) c) = normalize (union a (union b c)) \<and>
    intersect_sets b a = ret (Ok i) \<and>
    difference_sets d c = difference_sets a (union b c) \<and>
    difference_sets a d = ret (Ok i) \<and>
    normalize (union i d) = normalize a"
proof (intro conjI)
  show "normalize (union a b) = normalize (union b a)" by (rule spansets.join_commute [OF assms(1,2)])
  show "normalize (union (union a b) c) = normalize (union a (union b c))"
    by (rule spansets.join_assoc [OF assms(1-3)])
  show "intersect_sets b a = ret (Ok i)"
    using spansets.meet_commute [OF assms(2,1)] assms(4) by simp
  show "difference_sets d c = difference_sets a (union b c)"
    by (rule spansets.diff_join [OF assms(1-3,5)])
  show "difference_sets a d = ret (Ok i)"
    using spansets.meet_as_diff [OF assms(1,2,5)] assms(4) by simp
  show "normalize (union i d) = normalize a"
    by (rule spansets.join_meet_diff [OF assms(1,2,4,5)])
qed

theorem span_set_laws_witness:
  "\<exists>i d. intersect_sets sample_set (singleton sample_span1) = ret (Ok i) \<and>
     difference_sets sample_set (singleton sample_span1) = ret (Ok d) \<and>
     normalize (union i d) = normalize sample_set"
proof -
  have u: "uniform 2 (singleton sample_span1)" by (simp add: uniform_def singleton_def)
  obtain i d where "intersect_sets sample_set (singleton sample_span1) = ret (Ok i)"
    "difference_sets sample_set (singleton sample_span1) = ret (Ok d)"
    using spansets.meet_returns [OF uniform_sample u] spansets.diff_returns [OF uniform_sample u] by blast
  then show ?thesis using span_set_laws [OF uniform_sample u uniform_sample] by blast
qed



end
