(* ===== verification/Runs.thy ===== *)
theory Runs
  imports Span_Sets
begin

text \<open>
  Runs (\<^verbatim>\<open>crates/skep-arrangement/src/run.rs\<close>): a run is a number of consecutive element
  addresses, stored as the first and the count. The theory holds the run, its checked
  constructor, its position arithmetic, the lift to a span and the two ways
  \<^verbatim>\<open>offsets_covered_by\<close> finds which of its positions a span covers.

  \<open>run_addrs\<close> is what a run denotes, the list of its addresses. The lemmas show that the
  arithmetic never panics on a legal run, that the addresses are legal, ascending and distinct,
  that the span lift holds exactly them among full element positions, and that both branches of
  the covering question answer the same one: the offsets whose address the span contains.
\<close>

record run =
  i_start :: address
  run_width :: nat

datatype run_error = RunZeroWidth | NotAnElementPosition

definition admits_start :: "address \<Rightarrow> bool exec" where
  "admits_start a = do {
     e \<leftarrow> element_field a;
     ret (case e of None \<Rightarrow> False | Some f \<Rightarrow> length f = 2) }"

definition Run_new :: "address \<Rightarrow> nat \<Rightarrow> (run, run_error) result exec" where
  "Run_new a w =
     (if nat_is_zero w then ret (Err RunZeroWidth)
      else do {
        ok \<leftarrow> admits_start a;
        ret (if \<not> ok then Err NotAnElementPosition else Ok \<lparr>i_start = a, run_width = w\<rparr>) })"

text \<open>Deserialisation re-enters the constructor.\<close>

definition run_try_from :: "address \<times> nat \<Rightarrow> (run, run_error) result exec" where
  "run_try_from s = Run_new (fst s) (snd s)"

text \<open>The debug assertion of \<^verbatim>\<open>tumbler_at\<close> is kept as a panic.\<close>

definition tumbler_at :: "run \<Rightarrow> nat \<Rightarrow> tumbler exec" where
  "tumbler_at r k = (if k \<le> run_width r then shift (tumbler (i_start r)) k else panic)"

definition addr_at :: "run \<Rightarrow> nat \<Rightarrow> address exec" where
  "addr_at r k = do { t \<leftarrow> tumbler_at r k; v \<leftarrow> validate t; expect_ok v }"

definition run_reach :: "run \<Rightarrow> tumbler exec" where
  "run_reach r = tumbler_at r (run_width r)"

text \<open>The walk both address iterators share, from offset \<open>k\<close>.\<close>

function addrs_from :: "run \<Rightarrow> nat \<Rightarrow> address list exec" where
  "addrs_from r k =
     (if k < run_width r
      then do { a \<leftarrow> addr_at r k; as \<leftarrow> addrs_from r (k + 1); ret (a # as) }
      else ret [])"
  by pat_completeness auto
termination by (relation "measure (\<lambda>(r, k). run_width r - k)") auto

declare addrs_from.simps [simp del]

definition addrs_of :: "run \<Rightarrow> address list exec" where
  "addrs_of r = addrs_from r 0"

definition iextent :: "run \<Rightarrow> span exec" where
  "iextent r = do {
     e \<leftarrow> run_reach r;
     s \<leftarrow> from_endpoints (tumbler (i_start r)) e;
     expect_ok s }"

record offset_range =
  lo :: nat
  hi :: nat

definition offset_width :: "offset_range \<Rightarrow> nat exec" where
  "offset_width g = nat_sub (hi g) (lo g)"

text \<open>The binary search of \<^verbatim>\<open>lower_bound\<close>; its loop carries \<open>lo\<close> and \<open>hi\<close>.\<close>

function lower_bound_loop :: "run \<Rightarrow> tumbler \<Rightarrow> nat \<Rightarrow> nat \<Rightarrow> nat exec" where
  "lower_bound_loop r bound l h =
     (if l < h then do {
        let mid = (l + h) div 2;
        t \<leftarrow> tumbler_at r mid;
        (if t \<ge> bound then lower_bound_loop r bound l mid
         else lower_bound_loop r bound (mid + 1) h) }
      else ret l)"
  by pat_completeness auto
termination by (relation "measure (\<lambda>(r, b, l, h). h - l)") auto

declare lower_bound_loop.simps [simp del]

definition lower_bound :: "run \<Rightarrow> tumbler \<Rightarrow> nat exec" where
  "lower_bound r bound = lower_bound_loop r bound 0 (run_width r)"

definition offsets_covered_by :: "run \<Rightarrow> span \<Rightarrow> offset_range option exec" where
  "offsets_covered_by r s =
     (if is_level_uniform s \<and> tumbler_len (start s) = tumbler_len (tumbler (i_start r)) then do {
        e \<leftarrow> iextent r;
        x \<leftarrow> intersect e s;
        i \<leftarrow> expect_ok x;
        (case i of
           None \<Rightarrow> ret None
         | Some y \<Rightarrow> do {
             let start_ordinal = ordinal (tumbler (i_start r));
             q \<leftarrow> reach y;
             l \<leftarrow> nat_sub (ordinal (start y)) start_ordinal;
             h \<leftarrow> nat_sub (ordinal q) start_ordinal;
             ret (Some \<lparr>lo = l, hi = h\<rparr>) }) }
      else do {
        k_lo \<leftarrow> lower_bound r (start s);
        q \<leftarrow> reach s;
        k_hi \<leftarrow> lower_bound r q;
        ret (if k_lo < k_hi then Some \<lparr>lo = k_lo, hi = k_hi\<rparr> else None) })"

section \<open>Full element positions\<close>

definition full_pos :: "address \<Rightarrow> bool" where
  "full_pos a \<longleftrightarrow> wf_address a \<and> level a = Element \<and> length (addr_fields a ! 3) = 2"

lemma admits_start_eq [returns]:
  assumes "wf_address a"
  shows "admits_start a = ret (full_pos a)"
proof -
  have "level a = Element \<longleftrightarrow> 3 < length (addr_fields a)"
    using wf_address_level(4) [OF assms] assms by (auto simp: wf_address_iff_fields)
  then show ?thesis using assms
    by (auto simp: admits_start_def element_field_def field_eq full_pos_def)
qed

lemma full_posE:
  assumes "full_pos a"
  obtains fs s n where "addr_fields a = fs @ [[s, n]]" "length fs = 3" "0 < s" "0 < n"
    "comps (tumbler a) = join_zeros fs @ [0, s, n]"
proof -
  have wf: "wf_address a" and four: "length (addr_fields a) = 4" and two: "length (addr_fields a ! 3) = 2"
    using assms wf_address_level(4) by (auto simp: full_pos_def)
  obtain s n where sn: "addr_fields a ! 3 = [s, n]"
    using two by (auto simp: numeral_2_eq_2 length_Suc_conv)
  have "addr_fields a = take 3 (addr_fields a) @ [addr_fields a ! 3]"
    using four take_Suc_conv_app_nth [of 3 "addr_fields a"] by simp
  then obtain fs where fs: "addr_fields a = fs @ [[s, n]]" "length fs = 3"
    using sn four that [of "take 3 (addr_fields a)"] by simp
  then have "0 \<notin> set [s, n]" using fields_zero_free [of "[s, n]" a] by simp
  moreover have "fs \<noteq> []" using fs(2) by auto
  then have "comps (tumbler a) = join_zeros fs @ [0, s, n]"
    using comps_join_fields [of a] fs(1) join_zeros_append [of fs "[[s, n]]"] by simp
  ultimately show thesis using that fs by simp
qed

definition addr_plus :: "address \<Rightarrow> nat \<Rightarrow> address" where
  "addr_plus a k = \<lparr>tumbler = advance (tumbler a) k, level = Element\<rparr>"

lemma tumbler_addr_plus [simp]: "tumbler (addr_plus a k) = advance (tumbler a) k"
  by (simp add: addr_plus_def)

lemma addr_fields_advance:
  assumes "addr_fields a = fs @ [[s, n]]" "0 < n" "fs \<noteq> []"
    "tumbler b = advance (tumbler a) k"
  shows "addr_fields b = fs @ [[s, n + k]]"
proof -
  have "comps (tumbler a) = join_zeros fs @ 0 # [s, n]"
    using comps_join_fields [of a] assms join_zeros_append [of fs "[[s, n]]"] by simp
  then have "comps (tumbler b) = join_zeros (fs @ [[s, n + k]])"
    using assms join_zeros_append [of fs "[[s, n + k]]"] by (simp add: butlast_append)
  moreover have "\<forall>f \<in> set (fs @ [[s, n + k]]). 0 \<notin> set f"
  proof
    fix f assume "f \<in> set (fs @ [[s, n + k]])"
    then consider "f \<in> set (addr_fields a)" | "f = [s, n + k]" using assms(1) by auto
    then show "0 \<notin> set f"
    proof cases
      case 2
      have "0 \<notin> set [s, n]" using fields_zero_free [of "[s, n]" a] assms(1) by simp
      then show ?thesis using 2 by simp
    qed (rule fields_zero_free)
  qed
  ultimately show ?thesis by (simp add: addr_fields_def split_join_zeros)
qed

lemma full_pos_addr_plus:
  assumes "full_pos a"
  shows "full_pos (addr_plus a k)" "wf_address (addr_plus a k)"
proof -
  obtain fs s n where *: "addr_fields a = fs @ [[s, n]]" "length fs = 3" "0 < s" "0 < n"
    by (rule full_posE [OF assms])
  have "fs \<noteq> []" using *(2) by auto
  then have f: "addr_fields (addr_plus a k) = fs @ [[s, n + k]]"
    using addr_fields_advance [of a fs s n "addr_plus a k" k] * by simp
  have "wf_address a" using assms by (simp add: full_pos_def)
  then have "[] \<notin> set fs" using *(1) by (simp add: wf_address_iff_fields)
  then show "wf_address (addr_plus a k)"
    using f *(2) by (simp add: wf_address_iff_fields addr_plus_def numeral_3_eq_3)
  then show "full_pos (addr_plus a k)" using f *(2) by (simp add: full_pos_def addr_plus_def nth_append)
qed

lemma validate_advance:
  "full_pos a \<Longrightarrow> validate (advance (tumbler a) k) = ret (Ok (addr_plus a k))"
  using full_pos_addr_plus(2) [of a k] by (simp add: validate_Ok_iff)

lemma addr_plus_0 [simp]: "full_pos a \<Longrightarrow> addr_plus a 0 = a"
  by (cases a) (simp add: addr_plus_def full_pos_def)

lemma addr_plus_plus [simp]: "addr_plus (addr_plus a j) k = addr_plus a (j + k)"
  by (simp add: addr_plus_def)

lemma addr_plus_inject [simp]: "addr_plus a j = addr_plus a k \<longleftrightarrow> j = k"
  by (auto simp: addr_plus_def)

section \<open>What a run denotes\<close>

definition wf_run :: "run \<Rightarrow> bool" where
  "wf_run r \<longleftrightarrow> full_pos (i_start r) \<and> 0 < run_width r"

definition run_addrs :: "run \<Rightarrow> address list" where
  "run_addrs r = map (addr_plus (i_start r)) [0..<run_width r]"

lemma wf_runD: "wf_run r \<Longrightarrow> full_pos (i_start r)" "wf_run r \<Longrightarrow> 0 < run_width r"
  "wf_run r \<Longrightarrow> wf_address (i_start r)"
  by (simp_all add: wf_run_def full_pos_def)

lemma tumbler_at_eq [simp, returns]:
  "k \<le> run_width r \<Longrightarrow> tumbler_at r k = ret (advance (tumbler (i_start r)) k)"
  by (simp add: tumbler_at_def)

lemma addr_at_eq [simp, returns]:
  "full_pos (i_start r) \<Longrightarrow> k \<le> run_width r \<Longrightarrow> addr_at r k = ret (addr_plus (i_start r) k)"
  by (simp add: addr_at_def validate_advance)

lemma run_reach_eq [simp, returns]: "run_reach r = ret (advance (tumbler (i_start r)) (run_width r))"
  by (simp add: run_reach_def)

lemma addrs_from_eq:
  "full_pos (i_start r) \<Longrightarrow> addrs_from r k = ret (map (addr_plus (i_start r)) [k..<run_width r])"
proof (induction r k rule: addrs_from.induct)
  case (1 r k)
  then show ?case
    by (cases "k < run_width r") (simp_all add: addrs_from.simps [of r k] upt_conv_Cons)
qed

lemma addrs_of_eq [simp, returns]: "wf_run r \<Longrightarrow> addrs_of r = ret (run_addrs r)"
  by (simp add: addrs_of_def addrs_from_eq wf_runD run_addrs_def)

lemma length_run_addrs [simp]: "length (run_addrs r) = run_width r"
  by (simp add: run_addrs_def)

lemma nth_run_addrs: "k < run_width r \<Longrightarrow> run_addrs r ! k = addr_plus (i_start r) k"
  by (simp add: run_addrs_def)

lemma set_run_addrs: "set (run_addrs r) = addr_plus (i_start r) ` {..<run_width r}"
  by (auto simp: run_addrs_def)

lemma run_addrs_not_Nil [simp]: "wf_run r \<Longrightarrow> run_addrs r \<noteq> []"
  by (simp add: run_addrs_def wf_runD)

lemma take_run_addrs:
  "take k (run_addrs r) = run_addrs \<lparr>i_start = i_start r, run_width = min k (run_width r)\<rparr>"
  by (simp add: run_addrs_def take_map take_upt min_def)

lemma drop_run_addrs:
  "drop k (run_addrs r) =
     run_addrs \<lparr>i_start = addr_plus (i_start r) k, run_width = run_width r - k\<rparr>"
  by (rule nth_equalityI) (simp_all add: run_addrs_def)

lemma run_addrs_full: "wf_run r \<Longrightarrow> a \<in> set (run_addrs r) \<Longrightarrow> full_pos a"
  by (auto simp: set_run_addrs full_pos_addr_plus wf_runD)

lemma distinct_run_addrs: "distinct (run_addrs r)"
  by (simp add: run_addrs_def distinct_map inj_on_def)

lemma iextent_eq [simp, returns]:
  assumes "wf_run r"
  shows "iextent r = ret (mk_span (tumbler (i_start r)) (advance (tumbler (i_start r)) (run_width r)))"
  using wf_runD(2) [OF assms] by (simp add: iextent_def)

definition iextent_of :: "run \<Rightarrow> span" where
  "iextent_of r = mk_span (tumbler (i_start r)) (advance (tumbler (i_start r)) (run_width r))"

lemma iextent_of_props:
  assumes "wf_run r"
  shows "iextent r = ret (iextent_of r)" "wf_span (iextent_of r)"
    "at_level (tumbler_len (tumbler (i_start r))) (iextent_of r)"
    "den (iextent_of r) = {tumbler (i_start r)..<advance (tumbler (i_start r)) (run_width r)}"
    "start (iextent_of r) = tumbler (i_start r)"
    "reach_of (iextent_of r) = advance (tumbler (i_start r)) (run_width r)"
  using wf_runD(2) [OF assms] by (simp_all add: assms iextent_of_def mk_span_props)

text \<open>
  A tumbler lies between two advances of one tumbler exactly when it extends an advance
  between them.
\<close>

lemma between_advances_iff:
  "advance t j \<le> u \<and> u < advance t k \<longleftrightarrow> (\<exists>i. j \<le> i \<and> i < k \<and> is_prefix (advance t i) u)"
proof -
  have iff: "p @ [x] \<le> ys \<and> ys < p @ [y] \<longleftrightarrow> (\<exists>i. x \<le> i \<and> i < y \<and> prefix (p @ [i]) ys)"
    for p x y and ys :: "nat list"
  proof (induction p arbitrary: ys)
    case Nil
    show ?case by (cases ys) auto
  next
    case (Cons a p)
    show ?case
    proof (cases ys)
      case (Cons b zs)
      then show ?thesis using Cons.IH [of zs] by auto
    qed simp
  qed
  let ?p = "butlast (comps t)" and ?x = "last (comps t)"
  have "advance t j \<le> u \<and> u < advance t k \<longleftrightarrow>
    (\<exists>i. ?x + j \<le> i \<and> i < ?x + k \<and> prefix (?p @ [i]) (comps u))"
    using iff [of ?p "?x + j" "comps u" "?x + k"] by (simp add: less_eq_tumbler_def less_tumbler_def)
  also have "\<dots> \<longleftrightarrow> (\<exists>i. j \<le> i \<and> i < k \<and> is_prefix (advance t i) u)"
  proof
    assume "\<exists>i. ?x + j \<le> i \<and> i < ?x + k \<and> prefix (?p @ [i]) (comps u)"
    then obtain i where "?x + j \<le> i" "i < ?x + k" "prefix (?p @ [i]) (comps u)" by blast
    then show "\<exists>i. j \<le> i \<and> i < k \<and> is_prefix (advance t i) u"
      by (intro exI [of _ "i - ?x"]) (simp add: is_prefix_iff, arith)
  next
    assume "\<exists>i. j \<le> i \<and> i < k \<and> is_prefix (advance t i) u"
    then obtain i where "j \<le> i" "i < k" "prefix (?p @ [?x + i]) (comps u)"
      by (auto simp: is_prefix_iff)
    then show "\<exists>i. ?x + j \<le> i \<and> i < ?x + k \<and> prefix (?p @ [i]) (comps u)"
      by (intro exI [of _ "?x + i"]) simp
  qed
  finally show ?thesis .
qed

lemma is_prefix_same_length: "is_prefix s t \<Longrightarrow> tumbler_len s = tumbler_len t \<Longrightarrow> s = t"
  by (simp add: is_prefix_def tumbler_len_def flip: comps_inject)

lemma same_length_advance:
  assumes "t \<le> u" "u \<le> advance t w" "tumbler_len u = tumbler_len t"
  obtains k where "k \<le> w" "u = advance t k"
proof (cases "u = advance t w")
  case False
  then have "advance t 0 \<le> u \<and> u < advance t w" using assms by (simp add: less_le)
  then obtain i where "i < w" "is_prefix (advance t i) u" using between_advances_iff by blast
  then show thesis using that [of i] is_prefix_same_length assms(3) by (metis advance_len less_imp_le)
qed (use that in simp)

text \<open>
  A run's span contains exactly the extensions of its addresses; among full element positions,
  exactly its addresses.
\<close>

lemma den_iextent: "wf_run r \<Longrightarrow> u \<in> den (iextent_of r) \<longleftrightarrow> (\<exists>a \<in> set (run_addrs r). is_prefix (tumbler a) u)"
  using between_advances_iff [of "tumbler (i_start r)" 0 u "run_width r"]
  by (auto simp: iextent_of_props set_run_addrs)

lemma join_zeros_prefix_fields:
  assumes "full_pos a" "full_pos b" "is_prefix (tumbler a) (tumbler b)"
  shows "a = b"
proof -
  obtain fs s n where a: "addr_fields a = fs @ [[s, n]]" "length fs = 3"
    "comps (tumbler a) = join_zeros fs @ [0, s, n]" by (rule full_posE [OF assms(1)])
  obtain gs t m where b: "addr_fields b = gs @ [[t, m]]" "length gs = 3"
    "comps (tumbler b) = join_zeros gs @ [0, t, m]" by (rule full_posE [OF assms(2)])
  obtain zs where zs: "comps (tumbler b) = comps (tumbler a) @ zs"
    using assms(3) by (auto simp: is_prefix_iff prefix_def)
  have wf: "wf_address a" "wf_address b" using assms by (simp_all add: full_pos_def)
  have "count_list (comps (tumbler a)) 0 = 3" "count_list (comps (tumbler b)) 0 = 3"
    using length_split_zeros [of "comps (tumbler a)"] length_split_zeros [of "comps (tumbler b)"]
      a(1,2) b(1,2) by (simp_all add: addr_fields_def)
  then have "count_list zs 0 = 0" using zs by simp
  then have free: "0 \<notin> set zs" by (simp add: count_list_0_iff)
  have "addr_fields b = fs @ [[s, n] @ zs]"
  proof -
    have ne: "fs \<noteq> []" using a(2) by auto
    have "comps (tumbler b) = join_zeros (fs @ [[s, n] @ zs])"
      using zs a(3) ne join_zeros_append [of fs "[[s, n] @ zs]"] by simp
    moreover have "\<forall>f \<in> set (fs @ [[s, n] @ zs]). 0 \<notin> set f"
      using free fields_zero_free [of _ a] a(1) by fastforce
    ultimately show ?thesis by (simp add: addr_fields_def split_join_zeros)
  qed
  then have "zs = []" using b(1) by simp
  then show ?thesis using zs wf wf_address_eqI by (simp flip: comps_inject)
qed

lemma iextent_full_pos:
  assumes "wf_run r" "full_pos a"
  shows "tumbler a \<in> den (iextent_of r) \<longleftrightarrow> a \<in> set (run_addrs r)"
  using den_iextent [OF assms(1)] join_zeros_prefix_fields [OF _ assms(2)] run_addrs_full [OF assms(1)]
  by (metis is_prefix_iff prefix_order.order_refl)

section \<open>Which offsets a span covers\<close>

lemma lower_bound_loop_spec:
  assumes "l \<le> h" "h \<le> run_width r"
    and "\<forall>j < l. advance (tumbler (i_start r)) j < b"
    and "\<forall>j. h \<le> j \<and> j < run_width r \<longrightarrow> b \<le> advance (tumbler (i_start r)) j"
  shows "\<exists>k \<le> run_width r. lower_bound_loop r b l h = ret k \<and>
    (\<forall>j < run_width r. b \<le> advance (tumbler (i_start r)) j \<longleftrightarrow> k \<le> j)"
  using assms
proof (induction r b l h rule: lower_bound_loop.induct)
  case (1 r b l h)
  let ?t = "\<lambda>k. advance (tumbler (i_start r)) k"
  let ?m = "(l + h) div 2"
  show ?case
  proof (cases "l < h")
    case False
    then have "l = h" using "1.prems"(1) by simp
    then have "\<forall>j < run_width r. b \<le> ?t j \<longleftrightarrow> l \<le> j"
      using "1.prems"(3,4) by (meson not_le)
    moreover have "lower_bound_loop r b l h = ret l" using False by (simp add: lower_bound_loop.simps)
    ultimately show ?thesis using "1.prems" by (intro exI [of _ l]) simp
  next
    case True
    then have m: "l \<le> ?m" "?m < h" by simp_all
    then have at: "tumbler_at r ?m = ret (?t ?m)" using "1.prems"(2) by simp
    show ?thesis
    proof (cases "b \<le> ?t ?m")
      case le: True
      have "\<forall>j. ?m \<le> j \<and> j < run_width r \<longrightarrow> b \<le> ?t j"
        using le by (meson advance_le_iff order_trans)
      then have "\<exists>k \<le> run_width r. lower_bound_loop r b l ?m = ret k \<and>
          (\<forall>j < run_width r. b \<le> ?t j \<longleftrightarrow> k \<le> j)"
        using "1.IH"(1) [OF True refl at le] m "1.prems" by simp
      then show ?thesis using True at le by (simp add: lower_bound_loop.simps [of r b l h])
    next
      case nle: False
      have "\<forall>j < ?m + 1. ?t j < b"
      proof (intro allI impI)
        fix j assume "j < ?m + 1"
        then have "?t j \<le> ?t ?m" by simp
        also have "?t ?m < b" using nle by simp
        finally show "?t j < b" .
      qed
      then have "\<exists>k \<le> run_width r. lower_bound_loop r b (?m + 1) h = ret k \<and>
          (\<forall>j < run_width r. b \<le> ?t j \<longleftrightarrow> k \<le> j)"
        using "1.IH"(2) [OF True refl at nle] m "1.prems" by simp
      then show ?thesis using True at nle by (simp add: lower_bound_loop.simps [of r b l h])
    qed
  qed
qed

lemma lower_bound_spec:
  obtains k where "lower_bound r b = ret k" "k \<le> run_width r"
    "\<forall>j < run_width r. b \<le> advance (tumbler (i_start r)) j \<longleftrightarrow> k \<le> j"
proof -
  have "\<forall>j. run_width r \<le> j \<and> j < run_width r \<longrightarrow> b \<le> advance (tumbler (i_start r)) j" by auto
  from lower_bound_loop_spec [of 0 "run_width r" r b, OF _ _ _ this] show thesis
    using that by (auto simp: lower_bound_def)
qed

text \<open>What the answer says: the covered offsets are the range, and none when there is no range.\<close>

definition covers_offsets :: "run \<Rightarrow> span \<Rightarrow> offset_range option \<Rightarrow> bool" where
  "covers_offsets r s g \<longleftrightarrow>
     (case g of
        None \<Rightarrow> \<forall>k < run_width r. advance (tumbler (i_start r)) k \<notin> den s
      | Some g \<Rightarrow> lo g < hi g \<and> hi g \<le> run_width r \<and>
          (\<forall>k < run_width r. advance (tumbler (i_start r)) k \<in> den s \<longleftrightarrow> lo g \<le> k \<and> k < hi g))"

lemma offsets_search:
  assumes "wf_span s" "\<not> (is_level_uniform s \<and> tumbler_len (start s) = tumbler_len (tumbler (i_start r)))"
  shows "\<exists>g. offsets_covered_by r s = ret g \<and> covers_offsets r s g"
proof -
  let ?t = "\<lambda>k. advance (tumbler (i_start r)) k"
  obtain a where a: "lower_bound r (start s) = ret a" "a \<le> run_width r"
    "\<forall>j < run_width r. start s \<le> ?t j \<longleftrightarrow> a \<le> j" by (rule lower_bound_spec)
  obtain b where b: "lower_bound r (reach_of s) = ret b" "b \<le> run_width r"
    "\<forall>j < run_width r. reach_of s \<le> ?t j \<longleftrightarrow> b \<le> j" by (rule lower_bound_spec)
  have mem: "\<forall>k < run_width r. ?t k \<in> den s \<longleftrightarrow> a \<le> k \<and> k < b"
    using a(3) b(3) by (auto simp: den_def not_le [symmetric])
  have "offsets_covered_by r s = ret (if a < b then Some \<lparr>lo = a, hi = b\<rparr> else None)"
    using a(1) b(1) assms unfolding offsets_covered_by_def if_not_P [OF assms(2)] by simp
  then show ?thesis using mem a(2) b(2) by (auto simp: covers_offsets_def)
qed

lemma offsets_intersect:
  assumes "wf_run r" "at_level (tumbler_len (tumbler (i_start r))) s"
  shows "\<exists>g. offsets_covered_by r s = ret g \<and> covers_offsets r s g"
proof -
  let ?t = "tumbler (i_start r)" and ?w = "run_width r"
  let ?n = "tumbler_len ?t"
  note e = iextent_of_props [OF assms(1)]
  have u: "is_level_uniform s \<and> tumbler_len (start s) = ?n" using assms(2) by (simp add: at_level_iff)
  obtain i where i: "intersect (iextent_of r) s = ret (Ok i)"
    "case i of None \<Rightarrow> den (iextent_of r) \<inter> den s = {}
     | Some x \<Rightarrow> at_level ?n x \<and> den x = den (iextent_of r) \<inter> den s"
    using intersect_den [OF e(3) assms(2)] by blast
  have in_ext: "k < ?w \<Longrightarrow> advance ?t k \<in> den (iextent_of r)" for k by (simp add: e(4))
  show ?thesis
  proof (cases i)
    case None
    then have "offsets_covered_by r s = ret None"
      unfolding offsets_covered_by_def if_P [OF u] using e(1) i(1) by simp
    moreover have "covers_offsets r s None" using i(2) None in_ext by (auto simp: covers_offsets_def)
    ultimately show ?thesis by blast
  next
    case (Some y)
    then have y: "at_level ?n y" "den y = den (iextent_of r) \<inter> den s" using i(2) by simp_all
    have less: "start y < reach_of y" using y(1) by (simp add: start_less_reach)
    have "den y \<subseteq> {?t..<advance ?t ?w}" using y(2) e(4) by blast
    then have "{start y..<reach_of y} \<subseteq> {?t..<advance ?t ?w}" by (simp only: den_def)
    then have "?t \<le> start y" "reach_of y \<le> advance ?t ?w"
      unfolding ivl_subset_iff [OF less] by simp_all
    then obtain k l where k: "k \<le> ?w" "start y = advance ?t k" and l: "l \<le> ?w" "reach_of y = advance ?t l"
      using same_length_advance [of ?t "start y" ?w] same_length_advance [of ?t "reach_of y" ?w]
        at_level_len [OF y(1)] less by (metis order.strict_iff_order order_trans)
    have "k < l" using less k(2) l(2) by simp
    have "offsets_covered_by r s = ret (Some \<lparr>lo = k, hi = l\<rparr>)"
      unfolding offsets_covered_by_def if_P [OF u] using e(1) i(1) Some k l y(1) by simp
    moreover have "advance ?t j \<in> den s \<longleftrightarrow> k \<le> j \<and> j < l" if "j < ?w" for j
    proof -
      have "advance ?t j \<in> den s \<longleftrightarrow> advance ?t j \<in> den y" using in_ext [OF that] y(2) by simp
      then show ?thesis by (simp add: den_def k(2) l(2))
    qed
    then have "covers_offsets r s (Some \<lparr>lo = k, hi = l\<rparr>)"
      using \<open>k < l\<close> l(1) by (simp add: covers_offsets_def)
    ultimately show ?thesis by blast
  qed
qed

section \<open>Properties\<close>

text \<open>
  C14: the checked constructor of a run names the broken clause, zero width first, and otherwise
  returns a legal run; and on a legal run none of the position arithmetic panics. Its addresses
  are as many as its width, distinct and well-formed, the one at offset \<open>k\<close> being the start
  shifted by \<open>k\<close>, and its span contains the tumbler of a full element position exactly when the
  address is one of them.
\<close>

theorem run_denotes:
  assumes "wf_address a"
  shows "\<exists>v. Run_new a w = ret v \<and>
    (case v of
       Err RunZeroWidth \<Rightarrow> w = 0
     | Err NotAnElementPosition \<Rightarrow> 0 < w \<and> admits_start a = ret False
     | Ok r \<Rightarrow> i_start r = a \<and> run_width r = w \<and>
         (\<exists>as e. addrs_of r = ret as \<and> iextent r = ret e \<and> length as = w \<and> distinct as \<and>
            (\<forall>k < w. addr_at r k = ret (as ! k) \<and> wf_address (as ! k) \<and>
               shift (tumbler a) k = ret (tumbler (as ! k))) \<and>
            (\<forall>b. wf_address b \<and> admits_start b = ret True \<longrightarrow>
               contains e (tumbler b) = ret (b \<in> set as))))"
proof (cases "0 < w \<and> full_pos a")
  case False
  then show ?thesis using assms by (auto simp: Run_new_def nat_is_zero_def admits_start_eq)
next
  case True
  define r where "r = \<lparr>i_start = a, run_width = w\<rparr>"
  have wf: "wf_run r" using True by (simp add: wf_run_def r_def)
  have new: "Run_new a w = ret (Ok r)"
    using True assms by (simp add: Run_new_def nat_is_zero_def admits_start_eq r_def)
  have "\<forall>k < w. addr_at r k = ret (run_addrs r ! k) \<and> wf_address (run_addrs r ! k) \<and>
      shift (tumbler a) k = ret (tumbler (run_addrs r ! k))"
    using True by (simp add: nth_run_addrs r_def full_pos_addr_plus)
  moreover have "\<forall>b. wf_address b \<and> admits_start b = ret True \<longrightarrow>
      contains (iextent_of r) (tumbler b) = ret (b \<in> set (run_addrs r))"
    using iextent_full_pos [OF wf] iextent_of_props(2) [OF wf] by (auto simp: admits_start_eq)
  moreover have "i_start r = a" "run_width r = w" "length (run_addrs r) = w" "distinct (run_addrs r)"
    by (simp_all add: r_def distinct_run_addrs)
  ultimately show ?thesis
    using new addrs_of_eq [OF wf] iextent_of_props(1) [OF wf] by (intro exI [of _ "Ok r"]) auto
qed

lemma full_pos_sample [simp]: "full_pos sample_elem"
  by (simp add: full_pos_def sample_elem_def addr_fields_def)
     (use wf_samples(3) in \<open>simp add: sample_elem_def\<close>)

theorem run_denotes_witness:
  "\<exists>r as. Run_new sample_elem 4 = ret (Ok r) \<and> addrs_of r = ret as \<and> length as = 4 \<and> distinct as"
proof -
  from run_denotes [OF wf_samples(3), of 4] obtain v where v: "Run_new sample_elem 4 = ret v"
    "case v of Err e \<Rightarrow> False
     | Ok r \<Rightarrow> \<exists>as. addrs_of r = ret as \<and> length as = 4 \<and> distinct as"
    by (elim exE conjE) (fastforce simp: admits_start_eq split: sum.splits run_error.splits)
  then show ?thesis by (cases v) auto
qed

text \<open>
  \<open>offsets_covered_by\<close> never panics on a legal run and a legal span of any level, and whichever
  of its two branches runs, the interval intersection or the binary search, its answer is the
  same: none when the span contains none of the run's addresses, otherwise the one range of
  offsets, nonempty and within the run, whose addresses the span contains.
\<close>

theorem offsets_covered_by_exact:
  assumes "wf_run r" "wf_span s"
  shows "\<exists>g. offsets_covered_by r s = ret g \<and>
    (case g of
       None \<Rightarrow> \<forall>a \<in> set (run_addrs r). contains s (tumbler a) = ret False
     | Some g \<Rightarrow> lo g < hi g \<and> hi g \<le> run_width r \<and> offset_width g = ret (hi g - lo g) \<and>
         (\<forall>k < run_width r. contains s (tumbler (run_addrs r ! k)) = ret (lo g \<le> k \<and> k < hi g)))"
proof -
  obtain g where g: "offsets_covered_by r s = ret g" "covers_offsets r s g"
    using offsets_search [of s r] offsets_intersect [of r s] assms by (metis at_level_iff)
  then show ?thesis
    using assms(2) by (cases g) (auto simp: covers_offsets_def set_run_addrs nth_run_addrs offset_width_def)
qed

lemma wf_run_sample [simp]: "wf_run \<lparr>i_start = sample_elem, run_width = 4\<rparr>"
  by (simp add: wf_run_def)

theorem offsets_covered_by_exact_witness:
  "\<exists>g. offsets_covered_by \<lparr>i_start = sample_elem, run_width = 4\<rparr> sample_span1 = ret g \<and>
    (case g of
       None \<Rightarrow> \<forall>a \<in> set (run_addrs \<lparr>i_start = sample_elem, run_width = 4\<rparr>).
         contains sample_span1 (tumbler a) = ret False
     | Some g \<Rightarrow> lo g < hi g)"
  using offsets_covered_by_exact [OF wf_run_sample at_level_wf [OF at_level_samples(1)]]
  by (elim exE conjE) (auto split: option.splits)

end
