(* ===== verification/Sequence_Store.thy ===== *)
theory Sequence_Store
  imports Skep_Prelude
begin

text \<open>
  The contract of an arrangement as its editing operations see it: a stored form that stands for
  a sequence, 1-based positions, and three operations that splice pieces in, remove a range and
  read a range back as pieces. Two stored forms of one sequence are the same form, so a law
  about sequences becomes an equation between stored forms.
\<close>

locale sequence_store =
  fixes inv :: "'l \<Rightarrow> bool"
    and elems :: "'l \<Rightarrow> 'a list"
    and legal :: "'r list \<Rightarrow> bool"
    and denote :: "'r list \<Rightarrow> 'a list"
    and splice :: "'l \<Rightarrow> nat \<Rightarrow> 'r list \<Rightarrow> 'l exec"
    and remove :: "'l \<Rightarrow> nat \<Rightarrow> nat \<Rightarrow> 'l exec"
    and resolve :: "'l \<Rightarrow> nat \<Rightarrow> nat \<Rightarrow> 'r list exec"
  assumes canonical: "inv l \<Longrightarrow> inv m \<Longrightarrow> elems l = elems m \<Longrightarrow> l = m"
    and splice_returns: "inv l \<Longrightarrow> legal rs \<Longrightarrow>
      \<exists>m. splice l p rs = ret m \<and> inv m \<and>
        elems m = take (p - 1) (elems l) @ denote rs @ drop (p - 1) (elems l)"
    and remove_returns: "inv l \<Longrightarrow>
      \<exists>m. remove l p w = ret m \<and> inv m \<and>
        elems m = take (p - 1) (elems l) @ drop (p - 1 + w) (elems l)"
    and resolve_returns: "inv l \<Longrightarrow> 0 < p \<Longrightarrow>
      \<exists>rs. resolve l p w = ret rs \<and> legal rs \<and> denote rs = take w (drop (p - 1) (elems l))"
begin

text \<open>Removing what was spliced in restores the stored form.\<close>

lemma splice_remove:
  assumes "inv l" "legal rs" "0 < p" "p \<le> length (elems l) + 1" "splice l p rs = ret m"
  shows "remove m p (length (denote rs)) = ret l"
proof -
  have m: "inv m" "elems m = take (p - 1) (elems l) @ denote rs @ drop (p - 1) (elems l)"
    using splice_returns [OF assms(1,2), of p] assms(5) by auto
  obtain n where n: "remove m p (length (denote rs)) = ret n" "inv n"
    "elems n = take (p - 1) (elems m) @ drop (p - 1 + length (denote rs)) (elems m)"
    using remove_returns [OF m(1)] by blast
  have "elems n = elems l" using n(3) m(2) assms(3,4) by simp
  then show ?thesis using canonical [OF n(2) assms(1)] n(1) by simp
qed

text \<open>Putting back what was cut restores the stored form.\<close>

lemma cut_paste:
  assumes "inv l" "0 < p" "p \<le> length (elems l) + 1"
    and "resolve l p w = ret rs" "remove l p w = ret m"
  shows "splice m p rs = ret l"
proof -
  have rs: "legal rs" "denote rs = take w (drop (p - 1) (elems l))"
    using resolve_returns [OF assms(1,2), of w] assms(4) by auto
  have m: "inv m" "elems m = take (p - 1) (elems l) @ drop (p - 1 + w) (elems l)"
    using remove_returns [OF assms(1), of p w] assms(5) by auto
  obtain n where n: "splice m p rs = ret n" "inv n"
    "elems n = take (p - 1) (elems m) @ denote rs @ drop (p - 1) (elems m)"
    using splice_returns [OF m(1) rs(1)] by blast
  have len: "length (take (p - 1) (elems l)) = p - 1" using assms(3) by simp
  have "elems n = take (p - 1) (elems l) @ take w (drop (p - 1) (elems l)) @ drop (p - 1 + w) (elems l)"
    using n(3) m(2) rs(2) len by simp
  also have "\<dots> = elems l"
    by (metis add.commute append_take_drop_id drop_drop)
  finally show ?thesis using canonical [OF n(2) assms(1)] n(1) by simp
qed

text \<open>Two removals at one place are one removal, and the order of distant splices does not matter.\<close>

lemma remove_remove:
  assumes "inv l" "p \<le> length (elems l) + 1" "remove l p v = ret m"
  shows "remove m p w = remove l p (v + w)"
proof -
  have m: "inv m" "elems m = take (p - 1) (elems l) @ drop (p - 1 + v) (elems l)"
    using remove_returns [OF assms(1), of p v] assms(3) by auto
  obtain n k where n: "remove m p w = ret n" "inv n" "elems n = take (p - 1) (elems m) @ drop (p - 1 + w) (elems m)"
    and k: "remove l p (v + w) = ret k" "inv k"
      "elems k = take (p - 1) (elems l) @ drop (p - 1 + (v + w)) (elems l)"
    using remove_returns [OF m(1)] remove_returns [OF assms(1)] by blast
  have "length (take (p - 1) (elems l)) = p - 1" using assms(2) by simp
  then have "elems n = elems k" using n(3) k(3) m(2) by (simp add: ac_simps)
  then show ?thesis using canonical [OF n(2) k(2)] n(1) k(1) by simp
qed

lemma splice_splice:
  assumes "inv l" "legal rs" "legal ss" "0 < p" "p \<le> q" "q \<le> length (elems l) + 1"
    and "splice l q ss = ret m" "splice l p rs = ret n"
  shows "splice m p rs = splice n (q + length (denote rs)) ss"
proof -
  have m: "inv m" "elems m = take (q - 1) (elems l) @ denote ss @ drop (q - 1) (elems l)"
    using splice_returns [OF assms(1,3), of q] assms(7) by auto
  have n: "inv n" "elems n = take (p - 1) (elems l) @ denote rs @ drop (p - 1) (elems l)"
    using splice_returns [OF assms(1,2), of p] assms(8) by auto
  obtain x where x: "splice m p rs = ret x" "inv x"
    "elems x = take (p - 1) (elems m) @ denote rs @ drop (p - 1) (elems m)"
    using splice_returns [OF m(1) assms(2)] by blast
  obtain y where y: "splice n (q + length (denote rs)) ss = ret y" "inv y"
    "elems y = take (q + length (denote rs) - 1) (elems n) @ denote ss @
       drop (q + length (denote rs) - 1) (elems n)"
    using splice_returns [OF n(1) assms(3)] by blast
  obtain i j where i: "p = Suc i" and j: "q = Suc (i + j)" using assms(4,5)
    by (metis Suc_pred add_Suc le_Suc_ex)
  define us vs ws where "us = take i (elems l)" and "vs = take j (drop i (elems l))"
    and "ws = drop (i + j) (elems l)"
  have l: "elems l = us @ vs @ ws" unfolding us_def vs_def ws_def
    by (metis add.commute append_take_drop_id drop_drop)
  have len: "length us = i" "length vs = j" using assms(6) j by (simp_all add: us_def vs_def)
  have "elems x = us @ denote rs @ vs @ denote ss @ ws"
    using x(3) m(2) by (simp add: l i j len [symmetric])
  moreover have "elems y = us @ denote rs @ vs @ denote ss @ ws"
    using y(3) n(2) by (simp add: l i j len [symmetric])
  ultimately show ?thesis using canonical [OF x(2) y(2)] x(1) y(1) by simp
qed

end

end
