(* ===== verification/Run_Lists.thy ===== *)
theory Run_Lists
  imports Runs Sequence_Store "HOL-Library.Multiset"
begin

text \<open>
  Run lists (\<^verbatim>\<open>crates/skep-arrangement/src/run_list.rs\<close>): the arrangement of one subspace of a
  document, an ordered list of runs whose positions are implicit. The theory holds the
  coalescing accumulator, the splitter, the four editing operations, the point and range reads
  and the two doors through which a list is made.

  \<open>flat\<close> is what a list of runs stands for, the sequence of I-addresses in V-order. Every
  operation refines an operation on that sequence, never panics, and keeps the list maximally
  merged; a maximally merged list is determined by its sequence, so the interface
  \<open>sequence_store\<close> holds of the stored form itself.
\<close>

datatype run_list = RunList (rl_runs: "run list")

definition i_adjacent :: "run \<Rightarrow> address \<Rightarrow> bool exec" where
  "i_adjacent left right_start = do { e \<leftarrow> run_reach left; ret (e = tumbler right_start) }"

definition extend_or_push_run :: "run list \<Rightarrow> run \<Rightarrow> run list exec" where
  "extend_or_push_run runs r =
     (if runs = [] then ret (runs @ [r])
      else do {
        adj \<leftarrow> i_adjacent (last runs) (i_start r);
        ret (if adj
             then butlast runs @ [(last runs)\<lparr>run_width := run_width (last runs) + run_width r\<rparr>]
             else runs @ [r]) })"

fun coalesce_loop :: "run list \<Rightarrow> run list \<Rightarrow> run list exec" where
  "coalesce_loop out [] = ret out"
| "coalesce_loop out (r # rs) = do { out' \<leftarrow> extend_or_push_run out r; coalesce_loop out' rs }"

definition coalesced :: "run list \<Rightarrow> run list exec" where
  "coalesced runs = coalesce_loop [] runs"

record block =
  v_start :: nat
  block_run :: run

definition v_reach :: "block \<Rightarrow> nat" where
  "v_reach b = v_start b + run_width (block_run b)"

fun blocks_from :: "nat \<Rightarrow> run list \<Rightarrow> block list" where
  "blocks_from v [] = []"
| "blocks_from v (r # rs) = \<lparr>v_start = v, block_run = r\<rparr> # blocks_from (v + run_width r) rs"

definition blocks_of :: "run list \<Rightarrow> block list" where
  "blocks_of runs = blocks_from 1 runs"

text \<open>The loop of \<^verbatim>\<open>split_runs\<close> carries the runs kept on the left.\<close>

fun split_loop :: "nat \<Rightarrow> run list \<Rightarrow> block list \<Rightarrow> (run list \<times> run list) exec" where
  "split_loop ord left [] = ret (left, [])"
| "split_loop ord left (b # blocks) =
     (if ord = v_start b then ret (left, block_run b # map block_run blocks)
      else if ord < v_reach b then do {
        kept \<leftarrow> nat_sub ord (v_start b);
        a \<leftarrow> addr_at (block_run b) kept;
        w \<leftarrow> nat_sub (run_width (block_run b)) kept;
        ret (left @ [\<lparr>i_start = i_start (block_run b), run_width = kept\<rparr>],
             \<lparr>i_start = a, run_width = w\<rparr> # map block_run blocks) }
      else split_loop ord (left @ [block_run b]) blocks)"

definition split_runs :: "run list \<Rightarrow> nat \<Rightarrow> (run list \<times> run list) exec" where
  "split_runs runs ord =
     (if ord \<le> 1 then ret ([], runs) else split_loop ord [] (blocks_of runs))"

text \<open>Deserialisation re-establishes maximal merge.\<close>

definition run_list_from :: "run list \<Rightarrow> run_list exec" where
  "run_list_from runs = do { out \<leftarrow> coalesced runs; ret (RunList out) }"

definition total_width :: "run_list \<Rightarrow> nat" where
  "total_width l = sum_list (map run_width (rl_runs l))"

definition run_count :: "run_list \<Rightarrow> nat" where
  "run_count l = length (rl_runs l)"

definition rl_is_empty :: "run_list \<Rightarrow> bool" where
  "rl_is_empty l \<longleftrightarrow> rl_runs l = []"

definition iter_blocks :: "run_list \<Rightarrow> block list" where
  "iter_blocks l = blocks_of (rl_runs l)"

definition locate :: "run_list \<Rightarrow> nat \<Rightarrow> (run \<times> nat) option exec" where
  "locate l ord =
     (if nat_is_zero ord then ret None
      else case find (\<lambda>b. ord < v_reach b) (iter_blocks l) of
             None \<Rightarrow> ret None
           | Some b \<Rightarrow> do { k \<leftarrow> nat_sub ord (v_start b); ret (Some (block_run b, k)) })"

definition point :: "run_list \<Rightarrow> nat \<Rightarrow> address option exec" where
  "point l ord = do {
     x \<leftarrow> locate l ord;
     (case x of
        None \<Rightarrow> ret None
      | Some (r, k) \<Rightarrow> do { a \<leftarrow> addr_at r k; ret (Some a) }) }"

fun any_holds :: "run list \<Rightarrow> address \<Rightarrow> bool exec" where
  "any_holds [] a = ret False"
| "any_holds (r # rs) a = do {
     e \<leftarrow> iextent r;
     c \<leftarrow> contains e (tumbler a);
     (if c then ret True else any_holds rs a) }"

definition holds :: "run_list \<Rightarrow> address \<Rightarrow> bool exec" where
  "holds l a = any_holds (rl_runs l) a"

definition split_at :: "run_list \<Rightarrow> nat \<Rightarrow> (run list \<times> run list) exec" where
  "split_at l ord = split_runs (rl_runs l) ord"

definition splice_in :: "run_list \<Rightarrow> nat \<Rightarrow> run list \<Rightarrow> run_list exec" where
  "splice_in l ord new_runs = do {
     (acc, right) \<leftarrow> split_at l ord;
     out \<leftarrow> coalesced (acc @ new_runs @ right);
     ret (RunList out) }"

definition rl_append :: "run_list \<Rightarrow> run \<Rightarrow> run_list exec" where
  "rl_append l r = splice_in l (total_width l + 1) [r]"

definition remove_range :: "run_list \<Rightarrow> nat \<Rightarrow> nat \<Rightarrow> run_list exec" where
  "remove_range l from w = do {
     (left, rest) \<leftarrow> split_at l from;
     (dropped, right) \<leftarrow> split_runs rest (w + 1);
     out \<leftarrow> coalesced (left @ right);
     ret (RunList out) }"

text \<open>
  The loop of \<^verbatim>\<open>reorder\<close> over the cuts in descending order: it carries what is left of the
  cuts so far and the regions peeled off, in the order they were peeled.
\<close>

fun peel_regions :: "run list \<Rightarrow> run list list \<Rightarrow> nat list \<Rightarrow> (run list \<times> run list list) exec" where
  "peel_regions pre regions [] = ret (pre, regions)"
| "peel_regions pre regions (c # cuts) = do {
     (left, region) \<leftarrow> split_runs pre c;
     peel_regions left (regions @ [region]) cuts }"

definition reorder :: "run_list \<Rightarrow> nat list \<Rightarrow> run_list exec" where
  "reorder l cuts =
     (if cuts = [] then ret l
      else do {
        (pre, exterior_right) \<leftarrow> split_at l (last cuts);
        (out, regions) \<leftarrow> peel_regions pre [] (rev (butlast cuts));
        runs \<leftarrow> coalesced (out @ concat regions @ exterior_right);
        ret (RunList runs) })"

definition clip_block :: "nat \<Rightarrow> nat option \<Rightarrow> block \<Rightarrow> run option exec" where
  "clip_block l hi_excl b =
     (if v_reach b \<le> l then ret None
      else let first = max (v_start b) l;
               past = (case hi_excl of None \<Rightarrow> v_reach b | Some h \<Rightarrow> min (v_reach b) h) in
        if first = v_start b \<and> past = v_reach b then ret (Some (block_run b))
        else do {
          k \<leftarrow> nat_sub first (v_start b);
          a \<leftarrow> addr_at (block_run b) k;
          w \<leftarrow> nat_sub past first;
          ret (Some \<lparr>i_start = a, run_width = w\<rparr>) })"

definition clipped_runs :: "run_list \<Rightarrow> nat \<Rightarrow> nat option \<Rightarrow> run list exec" where
  "clipped_runs rl l hi_excl = do {
     rs \<leftarrow> exec_map (clip_block l hi_excl)
       (takeWhile (\<lambda>b. case hi_excl of None \<Rightarrow> True | Some h \<Rightarrow> v_start b < h) (iter_blocks rl));
     ret (List.map_filter id rs) }"

definition iter_resolve_range :: "run_list \<Rightarrow> nat \<Rightarrow> nat \<Rightarrow> run list exec" where
  "iter_resolve_range rl ord n =
     (let l = max ord 1; hi_excl = ord + n in
      if l < hi_excl then clipped_runs rl l (Some hi_excl) else ret [])"

definition iter_resolve_from :: "run_list \<Rightarrow> nat \<Rightarrow> run list exec" where
  "iter_resolve_from rl ord = clipped_runs rl (max ord 1) None"

definition rl_image :: "run_list \<Rightarrow> span_set exec" where
  "rl_image l = do { xs \<leftarrow> exec_map iextent (rl_runs l); ret (spanset_from_iter xs) }"

section \<open>What a list of runs stands for\<close>

definition flat :: "run list \<Rightarrow> address list" where
  "flat rs = concat (map run_addrs rs)"

definition wf_runs :: "run list \<Rightarrow> bool" where
  "wf_runs rs \<longleftrightarrow> (\<forall>r \<in> set rs. wf_run r)"

definition adjacent :: "run \<Rightarrow> run \<Rightarrow> bool" where
  "adjacent r s \<longleftrightarrow> advance (tumbler (i_start r)) (run_width r) = tumbler (i_start s)"

definition merged :: "run list \<Rightarrow> bool" where
  "merged rs \<longleftrightarrow> successively (\<lambda>r s. \<not> adjacent r s) rs"

lemma flat_simps [simp]: "flat [] = []" "flat (r # rs) = run_addrs r @ flat rs"
  "flat (rs @ ss) = flat rs @ flat ss" "flat (concat rss) = concat (map flat rss)"
  by (simp_all add: flat_def map_concat comp_def)
     (induction rss, simp_all add: flat_def)

lemma wf_runs_simps [simp]: "wf_runs []" "wf_runs (r # rs) \<longleftrightarrow> wf_run r \<and> wf_runs rs"
  "wf_runs (rs @ ss) \<longleftrightarrow> wf_runs rs \<and> wf_runs ss"
  by (auto simp: wf_runs_def)

lemma length_flat: "length (flat rs) = sum_list (map run_width rs)"
  by (induction rs) auto

lemma total_width_eq: "total_width l = length (flat (rl_runs l))"
  by (simp add: total_width_def length_flat)

lemma i_adjacent_eq [simp, returns]: "i_adjacent r (i_start s) = ret (adjacent r s)"
  by (simp add: i_adjacent_def adjacent_def)

text \<open>Joining two adjacent runs is joining what they stand for.\<close>

lemma adjacent_start:
  assumes "wf_run r" "wf_run s" "adjacent r s"
  shows "i_start s = addr_plus (i_start r) (run_width r)"
  using assms full_pos_addr_plus(2) [of "i_start r" "run_width r"]
  by (intro wf_address_eqI) (simp_all add: wf_runD adjacent_def)

lemma run_addrs_join:
  assumes "wf_run r" "wf_run s" "adjacent r s"
  shows "run_addrs (r\<lparr>run_width := run_width r + run_width s\<rparr>) = run_addrs r @ run_addrs s"
proof -
  have "map (addr_plus (i_start r)) [run_width r..<run_width r + run_width s] =
      map (addr_plus (i_start s)) [0..<run_width s]"
    unfolding adjacent_start [OF assms] by (rule nth_equalityI) simp_all
  moreover have "[0..<run_width r + run_width s] = [0..<run_width r] @ [run_width r..<run_width r + run_width s]"
    by (rule upt_add_eq_append) simp
  ultimately show ?thesis by (simp add: run_addrs_def)
qed

lemma merged_snoc: "merged (rs @ [r]) \<longleftrightarrow> merged rs \<and> (rs = [] \<or> \<not> adjacent (last rs) r)"
  by (auto simp: merged_def successively_append_iff)

lemma extend_or_push_run_spec:
  assumes "wf_runs out" "wf_run r" "merged out"
  obtains out' where "extend_or_push_run out r = ret out'" "wf_runs out'" "merged out'"
    "flat out' = flat out @ run_addrs r"
proof (cases "out \<noteq> [] \<and> adjacent (last out) r")
  case False
  then have "extend_or_push_run out r = ret (out @ [r])" by (auto simp: extend_or_push_run_def)
  then show thesis using that False assms by (auto simp: merged_snoc)
next
  case True
  then obtain us l where out: "out = us @ [l]" by (metis rev_exhaust)
  let ?l = "l\<lparr>run_width := run_width l + run_width r\<rparr>"
  have adj: "adjacent l r" and wf: "wf_run l" "wf_runs us" using True out assms by auto
  have "extend_or_push_run out r = ret (us @ [?l])" using True out by (simp add: extend_or_push_run_def)
  moreover have "merged (us @ [?l])"
    using assms(3) out by (simp add: merged_snoc adjacent_def)
  moreover have "wf_run ?l" using wf(1) by (simp add: wf_run_def)
  ultimately show thesis
    using that wf out run_addrs_join [OF wf(1) assms(2) adj] by simp
qed

lemma coalesce_loop_spec:
  assumes "wf_runs out" "wf_runs rs" "merged out"
  shows "\<exists>out'. coalesce_loop out rs = ret out' \<and> wf_runs out' \<and> merged out' \<and> flat out' = flat out @ flat rs"
  using assms
proof (induction rs arbitrary: out)
  case (Cons r rs)
  obtain o1 where o1: "extend_or_push_run out r = ret o1" "wf_runs o1" "merged o1"
    "flat o1 = flat out @ run_addrs r"
    using extend_or_push_run_spec [of out r] Cons.prems by auto
  then show ?case using Cons.IH [of o1] Cons.prems by auto
qed simp

lemma coalesced_spec:
  assumes "wf_runs rs"
  obtains out where "coalesced rs = ret out" "wf_runs out" "merged out" "flat out = flat rs"
  using coalesce_loop_spec [of "[]" rs] assms by (auto simp: coalesced_def merged_def)

text \<open>A maximally merged list is determined by the sequence it stands for.\<close>

lemma flat_hd:
  assumes "wf_run r"
  shows "flat (r # rs) ! 0 = i_start r"
  using assms by (simp add: nth_append nth_run_addrs wf_runD)

lemma first_run_longer:
  assumes "wf_runs (x # xs)" "wf_run y" "merged (x # xs)" "i_start x = i_start y"
    and "flat (x # xs) = flat (y # ys)" "run_width x < run_width y"
  shows False
proof -
  let ?k = "run_width x"
  have at: "flat (x # xs) ! ?k = addr_plus (i_start y) ?k"
    unfolding assms(5) using assms(6) by (simp add: nth_append nth_run_addrs)
  have "length (flat (x # xs)) > ?k" unfolding assms(5) using assms(6) by simp
  then obtain z zs where xs: "xs = z # zs" by (cases xs) auto
  then have "flat (x # xs) ! ?k = i_start z"
    using assms(1) flat_hd [of z zs] by (simp add: nth_append)
  then have "adjacent x z" using at assms(4) by (simp add: adjacent_def)
  then show False using assms(3) xs by (simp add: merged_def)
qed

lemma merged_unique:
  assumes "wf_runs xs" "wf_runs ys" "merged xs" "merged ys" "flat xs = flat ys"
  shows "xs = ys"
  using assms
proof (induction xs arbitrary: ys)
  case Nil
  then show ?case by (cases ys) auto
next
  case (Cons x xs)
  then obtain y zs where ys: "ys = y # zs" by (cases ys) auto
  note prems = Cons.prems [unfolded ys]
  have start: "i_start x = i_start y"
    using prems(1,2,5) flat_hd [of x xs] flat_hd [of y zs] by simp
  have "\<not> run_width x < run_width y" "\<not> run_width y < run_width x"
    using first_run_longer [of x xs y zs] first_run_longer [of y zs x xs] prems start by auto
  then have "run_width x = run_width y" by simp
  then have xy: "x = y" using start by (cases x; cases y) simp
  then have "flat xs = flat zs" using prems(5) by simp
  moreover have "merged xs" "merged zs"
    using prems(3,4) by (auto simp: merged_def successively_Cons)
  ultimately show ?case using Cons.IH [of zs] prems(1,2) ys xy by simp
qed

section \<open>Splitting\<close>

lemma split_loop_spec:
  assumes "wf_runs rs" "v \<le> ord"
  shows "\<exists>ls ss. split_loop ord left (blocks_from v rs) = ret (left @ ls, ss) \<and> wf_runs ls \<and> wf_runs ss \<and>
    flat ls = take (ord - v) (flat rs) \<and> flat ss = drop (ord - v) (flat rs)"
  using assms
proof (induction rs arbitrary: v left)
  case Nil
  then show ?case by simp
next
  case (Cons r rs)
  have blocks: "map block_run (blocks_from u qs) = qs" for u qs
    by (induction qs arbitrary: u) auto
  consider (here) "ord = v" | (inside) "v < ord" "ord < v + run_width r" | (past) "v + run_width r \<le> ord"
    using Cons.prems(2) by linarith
  then show ?case
  proof cases
    case here
    then show ?thesis using Cons.prems(1) by (auto simp: blocks)
  next
    case inside
    let ?k = "ord - v"
    let ?l = "\<lparr>i_start = i_start r, run_width = ?k\<rparr>"
    let ?s = "\<lparr>i_start = addr_plus (i_start r) ?k, run_width = run_width r - ?k\<rparr>"
    have wf: "full_pos (i_start r)" using Cons.prems(1) by (simp add: wf_runD)
    have "split_loop ord left (blocks_from v (r # rs)) = ret (left @ [?l], ?s # rs)"
      using inside wf by (simp add: v_reach_def blocks)
    moreover have "wf_run ?l" "wf_run ?s" using inside wf by (auto simp: wf_run_def full_pos_addr_plus)
    moreover have "min ?k (run_width r) = ?k" using inside by simp
    then have "run_addrs ?l = take ?k (run_addrs r)" "run_addrs ?s = drop ?k (run_addrs r)"
      by (simp_all add: take_run_addrs drop_run_addrs)
    ultimately show ?thesis using inside Cons.prems(1)
      by (intro exI [of _ "[?l]"] exI [of _ "?s # rs"]) simp
  next
    case past
    have pos: "0 < run_width r" using Cons.prems(1) by (simp add: wf_runD)
    obtain ls ss where *: "split_loop ord (left @ [r]) (blocks_from (v + run_width r) rs) =
        ret ((left @ [r]) @ ls, ss)" "wf_runs ls" "wf_runs ss"
      "flat ls = take (ord - (v + run_width r)) (flat rs)" "flat ss = drop (ord - (v + run_width r)) (flat rs)"
      using Cons.IH [of "v + run_width r" "left @ [r]"] Cons.prems(1) past by auto
    moreover have "split_loop ord left (blocks_from v (r # rs)) =
        split_loop ord (left @ [r]) (blocks_from (v + run_width r) rs)"
      using past pos by (simp add: v_reach_def)
    ultimately show ?thesis using past Cons.prems(1)
      by (intro exI [of _ "r # ls"] exI [of _ ss]) simp
  qed
qed

lemma split_runs_spec:
  assumes "wf_runs rs"
  obtains ls ss where "split_runs rs ord = ret (ls, ss)" "wf_runs ls" "wf_runs ss"
    "flat ls = take (ord - 1) (flat rs)" "flat ss = drop (ord - 1) (flat rs)"
proof (cases "ord \<le> 1")
  case True
  then show thesis using that [of "[]" rs] assms by (simp add: split_runs_def)
next
  case False
  then have "1 \<le> ord" by simp
  from split_loop_spec [OF assms this, of "[]"] obtain ls ss where
    "split_loop ord [] (blocks_from 1 rs) = ret ([] @ ls, ss)" "wf_runs ls" "wf_runs ss"
    "flat ls = take (ord - 1) (flat rs)" "flat ss = drop (ord - 1) (flat rs)" by blast
  then show thesis using that [of ls ss] False by (simp add: split_runs_def blocks_of_def)
qed

section \<open>The editing operations\<close>

definition rl_inv :: "run_list \<Rightarrow> bool" where
  "rl_inv l \<longleftrightarrow> wf_runs (rl_runs l) \<and> merged (rl_runs l)"

definition rl_elems :: "run_list \<Rightarrow> address list" where
  "rl_elems l = flat (rl_runs l)"

lemma rl_inv_wf: "rl_inv l \<Longrightarrow> wf_runs (rl_runs l)"
  by (simp add: rl_inv_def)

lemma rl_canonical: "rl_inv l \<Longrightarrow> rl_inv m \<Longrightarrow> rl_elems l = rl_elems m \<Longrightarrow> l = m"
  using merged_unique by (cases l; cases m) (simp add: rl_inv_def rl_elems_def)

lemma run_list_from_spec:
  assumes "wf_runs rs"
  obtains m where "run_list_from rs = ret m" "rl_inv m" "rl_elems m = flat rs"
proof -
  obtain out where "coalesced rs = ret out" "wf_runs out" "merged out" "flat out = flat rs"
    by (rule coalesced_spec [OF assms])
  then show thesis using that [of "RunList out"] by (simp add: run_list_from_def rl_inv_def rl_elems_def)
qed

lemma splice_in_spec:
  assumes "rl_inv l" "wf_runs rs"
  obtains m where "splice_in l ord rs = ret m" "rl_inv m"
    "rl_elems m = take (ord - 1) (rl_elems l) @ flat rs @ drop (ord - 1) (rl_elems l)"
proof -
  obtain ls ss where s: "split_runs (rl_runs l) ord = ret (ls, ss)" "wf_runs ls" "wf_runs ss"
    "flat ls = take (ord - 1) (flat (rl_runs l))" "flat ss = drop (ord - 1) (flat (rl_runs l))"
    by (rule split_runs_spec [OF rl_inv_wf [OF assms(1)]])
  have "wf_runs (ls @ rs @ ss)" using s assms(2) by simp
  then obtain out where "coalesced (ls @ rs @ ss) = ret out" "wf_runs out" "merged out"
    "flat out = flat (ls @ rs @ ss)" by (rule coalesced_spec)
  then show thesis using that [of "RunList out"] s
    by (simp add: splice_in_def split_at_def rl_inv_def rl_elems_def)
qed

lemma append_spec:
  assumes "rl_inv l" "wf_run r"
  obtains m where "rl_append l r = ret m" "rl_inv m" "rl_elems m = rl_elems l @ run_addrs r"
proof -
  have "wf_runs [r]" using assms(2) by simp
  then obtain m where "splice_in l (total_width l + 1) [r] = ret m" "rl_inv m"
    "rl_elems m = take (total_width l + 1 - 1) (rl_elems l) @ flat [r] @
       drop (total_width l + 1 - 1) (rl_elems l)"
    by (rule splice_in_spec [OF assms(1)])
  then show thesis using that by (simp add: rl_append_def total_width_eq rl_elems_def)
qed

lemma remove_range_spec:
  assumes "rl_inv l"
  obtains m where "remove_range l from w = ret m" "rl_inv m"
    "rl_elems m = take (from - 1) (rl_elems l) @ drop (from - 1 + w) (rl_elems l)"
proof -
  obtain ls ss where s: "split_runs (rl_runs l) from = ret (ls, ss)" "wf_runs ls" "wf_runs ss"
    "flat ls = take (from - 1) (flat (rl_runs l))" "flat ss = drop (from - 1) (flat (rl_runs l))"
    by (rule split_runs_spec [OF rl_inv_wf [OF assms(1)]])
  obtain ds rs where d: "split_runs ss (w + 1) = ret (ds, rs)" "wf_runs rs"
    "flat rs = drop (w + 1 - 1) (flat ss)"
    using split_runs_spec [OF s(3), of "w + 1"] by metis
  have "wf_runs (ls @ rs)" using s d by simp
  then obtain out where "coalesced (ls @ rs) = ret out" "wf_runs out" "merged out"
    "flat out = flat (ls @ rs)" by (rule coalesced_spec)
  then show thesis using that [of "RunList out"] s d
    by (simp add: remove_range_def split_at_def rl_inv_def rl_elems_def add.commute)
qed

text \<open>Reordering, on the sequence: the regions between the cuts, peeled off from the right.\<close>

fun peel_seq :: "'a list \<Rightarrow> 'a list list \<Rightarrow> nat list \<Rightarrow> 'a list \<times> 'a list list" where
  "peel_seq xs regions [] = (xs, regions)"
| "peel_seq xs regions (c # cs) = peel_seq (take (c - 1) xs) (regions @ [drop (c - 1) xs]) cs"

definition seq_reorder :: "'a list \<Rightarrow> nat list \<Rightarrow> 'a list" where
  "seq_reorder xs cuts =
     (if cuts = [] then xs
      else let (out, regions) = peel_seq (take (last cuts - 1) xs) [] (rev (butlast cuts))
           in out @ concat regions @ drop (last cuts - 1) xs)"

lemma peel_regions_spec:
  assumes "wf_runs rs" "\<forall>g \<in> set regions. wf_runs g"
  shows "\<exists>out gs. peel_regions rs regions cuts = ret (out, gs) \<and> wf_runs out \<and> (\<forall>g \<in> set gs. wf_runs g) \<and>
    peel_seq (flat rs) (map flat regions) cuts = (flat out, map flat gs)"
  using assms
proof (induction cuts arbitrary: rs regions)
  case (Cons c cuts)
  obtain ls ss where s: "split_runs rs c = ret (ls, ss)" "wf_runs ls" "wf_runs ss"
    "flat ls = take (c - 1) (flat rs)" "flat ss = drop (c - 1) (flat rs)"
    by (rule split_runs_spec [OF Cons.prems(1)])
  have "\<forall>g \<in> set (regions @ [ss]). wf_runs g" using Cons.prems(2) s(3) by auto
  from Cons.IH [OF s(2) this] show ?case using s by simp
qed simp

lemma wf_runs_concat: "\<forall>g \<in> set gs. wf_runs g \<Longrightarrow> wf_runs (concat gs)"
  by (auto simp: wf_runs_def)

lemma reorder_spec:
  assumes "rl_inv l"
  obtains m where "reorder l cuts = ret m" "rl_inv m" "rl_elems m = seq_reorder (rl_elems l) cuts"
proof (cases "cuts = []")
  case True
  then show thesis using that [of l] assms by (simp add: reorder_def seq_reorder_def)
next
  case False
  obtain ls ss where s: "split_runs (rl_runs l) (last cuts) = ret (ls, ss)" "wf_runs ls" "wf_runs ss"
    "flat ls = take (last cuts - 1) (flat (rl_runs l))" "flat ss = drop (last cuts - 1) (flat (rl_runs l))"
    by (rule split_runs_spec [OF rl_inv_wf [OF assms(1)]])
  obtain pre gs where g: "peel_regions ls [] (rev (butlast cuts)) = ret (pre, gs)" "wf_runs pre"
    "\<forall>g \<in> set gs. wf_runs g" "peel_seq (flat ls) [] (rev (butlast cuts)) = (flat pre, map flat gs)"
    using peel_regions_spec [OF s(2), of "[]" "rev (butlast cuts)"] by auto
  have "wf_runs (pre @ concat gs @ ss)" using g(2,3) s(3) by (simp add: wf_runs_concat)
  then obtain out where "coalesced (pre @ concat gs @ ss) = ret out" "wf_runs out" "merged out"
    "flat out = flat (pre @ concat gs @ ss)" by (rule coalesced_spec)
  then show thesis using that [of "RunList out"] False s g
    by (simp add: reorder_def split_at_def seq_reorder_def rl_inv_def rl_elems_def)
qed

lemma mset_take_drop: "mset (take n xs) + mset (drop n xs) = mset xs"
  by (metis append_take_drop_id mset_append)

lemma mset_peel_seq:
  "peel_seq xs gs cs = (out, hs) \<Longrightarrow> mset out + mset (concat hs) = mset xs + mset (concat gs)"
proof (induction xs gs cs arbitrary: out hs rule: peel_seq.induct)
  case (2 xs gs c cs)
  have "mset out + mset (concat hs) = mset (take (c - 1) xs) + mset (concat (gs @ [drop (c - 1) xs]))"
    using 2 by simp
  also have "\<dots> = (mset (take (c - 1) xs) + mset (drop (c - 1) xs)) + mset (concat gs)"
    by (simp del: mset_append add: mset_append)
  finally show ?case by (simp only: mset_take_drop)
qed simp

lemma mset_seq_reorder: "mset (seq_reorder xs cuts) = mset xs"
proof (cases "cuts = []")
  case False
  obtain out hs where p: "peel_seq (take (last cuts - 1) xs) [] (rev (butlast cuts)) = (out, hs)"
    by (cases "peel_seq (take (last cuts - 1) xs) [] (rev (butlast cuts))")
  have "mset (seq_reorder xs cuts) = mset out + mset (concat hs) + mset (drop (last cuts - 1) xs)"
    using False p by (simp add: seq_reorder_def)
  also have "\<dots> = mset (take (last cuts - 1) xs) + mset (drop (last cuts - 1) xs)"
    using mset_peel_seq [OF p] by simp
  finally show ?thesis by (simp only: mset_take_drop)
qed (simp add: seq_reorder_def)

lemma seq_reorder_pivot:
  assumes "length us + 1 = c0" "c0 + length as = c1" "c1 + length bs = c2"
  shows "seq_reorder (us @ as @ bs @ vs) [c0, c1, c2] = us @ bs @ as @ vs"
proof -
  have "c2 - 1 = length us + (length as + length bs)" "c1 - 1 = length us + length as" "c0 - 1 = length us"
    using assms by simp_all
  then show ?thesis by (simp add: seq_reorder_def)
qed

lemma seq_reorder_swap:
  assumes "length us + 1 = c0" "c0 + length as = c1" "c1 + length ms = c2" "c2 + length bs = c3"
  shows "seq_reorder (us @ as @ ms @ bs @ vs) [c0, c1, c2, c3] = us @ bs @ ms @ as @ vs"
proof -
  have "c3 - 1 = length us + (length as + (length ms + length bs))" "c2 - 1 = length us + (length as + length ms)"
    "c1 - 1 = length us + length as" "c0 - 1 = length us"
    using assms by simp_all
  then show ?thesis by (simp add: seq_reorder_def)
qed

section \<open>The reads\<close>

lemma find_block:
  assumes "wf_runs rs" "v \<le> ord"
  shows "case find (\<lambda>b. ord < v_reach b) (blocks_from v rs) of
      None \<Rightarrow> length (flat rs) \<le> ord - v
    | Some b \<Rightarrow> ord - v < length (flat rs) \<and> wf_run (block_run b) \<and> v_start b \<le> ord \<and> ord < v_reach b \<and>
        flat rs ! (ord - v) = addr_plus (i_start (block_run b)) (ord - v_start b)"
  using assms
proof (induction rs arbitrary: v)
  case (Cons r rs)
  show ?case
  proof (cases "ord < v + run_width r")
    case True
    then show ?thesis using Cons.prems
      by (simp add: v_reach_def nth_append nth_run_addrs less_diff_conv2 add.commute)
  next
    case False
    then have "v + run_width r \<le> ord" by simp
    with Cons.IH [of "v + run_width r"] Cons.prems(1) False show ?thesis
      by (auto simp: v_reach_def nth_append split: option.splits)
  qed
qed simp

lemma point_spec:
  assumes "rl_inv l"
  shows "point l ord = ret (if 0 < ord \<and> ord \<le> total_width l then Some (rl_elems l ! (ord - 1)) else None)"
proof (cases "ord = 0")
  case True
  then show ?thesis by (simp add: point_def locate_def nat_is_zero_def)
next
  case False
  then have "1 \<le> ord" by simp
  note fb = find_block [OF rl_inv_wf [OF assms] this]
  show ?thesis
  proof (cases "find (\<lambda>b. ord < v_reach b) (blocks_from 1 (rl_runs l))")
    case None
    then show ?thesis using fb False
      by (simp add: point_def locate_def nat_is_zero_def iter_blocks_def blocks_of_def total_width_eq)
  next
    case (Some b)
    then have b: "ord - 1 < length (flat (rl_runs l))" "wf_run (block_run b)" "v_start b \<le> ord"
      "ord < v_reach b" "flat (rl_runs l) ! (ord - 1) = addr_plus (i_start (block_run b)) (ord - v_start b)"
      using fb by simp_all
    have "ord - v_start b \<le> run_width (block_run b)" using b(3,4) by (simp add: v_reach_def)
    then have "addr_at (block_run b) (ord - v_start b) = ret (flat (rl_runs l) ! (ord - 1))"
      using b(2,5) by (simp add: wf_runD)
    moreover have "ord \<le> total_width l" using b(1) False by (simp add: total_width_eq)
    ultimately show ?thesis using False b(3) Some
      by (simp add: point_def locate_def nat_is_zero_def iter_blocks_def blocks_of_def rl_elems_def)
  qed
qed

lemma any_holds_eq:
  "wf_runs rs \<Longrightarrow> full_pos a \<Longrightarrow> any_holds rs a = ret (a \<in> set (flat rs))"
proof (induction rs)
  case (Cons r rs)
  then show ?case
    using iextent_of_props(1,2) [of r] iextent_full_pos [of r a] by simp
qed simp

lemma holds_spec: "rl_inv l \<Longrightarrow> full_pos a \<Longrightarrow> holds l a = ret (a \<in> set (rl_elems l))"
  by (simp add: holds_def any_holds_eq rl_inv_wf rl_elems_def)

text \<open>The clip of one block, and of a list of blocks.\<close>

definition cap :: "nat \<Rightarrow> nat option \<Rightarrow> nat \<Rightarrow> 'a list \<Rightarrow> 'a list" where
  "cap l h v xs = (case h of None \<Rightarrow> drop (l - v) xs | Some h \<Rightarrow> take (h - max l v) (drop (l - v) xs))"

lemma clip_block_unfold:
  assumes "first = max v l"
    and "past = (case h of None \<Rightarrow> v + run_width r | Some k \<Rightarrow> min (v + run_width r) k)"
  shows "clip_block l h \<lparr>v_start = v, block_run = r\<rparr> =
    (if v + run_width r \<le> l then ret None
     else if first = v \<and> past = v + run_width r then ret (Some r)
     else do { k \<leftarrow> nat_sub first v; a \<leftarrow> addr_at r k; w \<leftarrow> nat_sub past first;
               ret (Some \<lparr>i_start = a, run_width = w\<rparr>) })"
  unfolding assms by (cases h) (simp_all add: clip_block_def v_reach_def Let_def)

lemma clip_block_spec:
  assumes "wf_run r" "\<And>k. h = Some k \<Longrightarrow> l < k \<and> v < k"
  shows "\<exists>x. clip_block l h \<lparr>v_start = v, block_run = r\<rparr> = ret x \<and>
    wf_runs (List.map_filter id [x]) \<and> flat (List.map_filter id [x]) = cap l h v (run_addrs r)"
proof -
  let ?b = "\<lparr>v_start = v, block_run = r\<rparr>"
  define first where "first = max v l"
  define past where "past = (case h of None \<Rightarrow> v + run_width r | Some k \<Rightarrow> min (v + run_width r) k)"
  note unfold = clip_block_unfold [OF first_def past_def]
  have pos: "0 < run_width r" and full: "full_pos (i_start r)" using assms(1) by (simp_all add: wf_runD)
  consider (before) "v + run_width r \<le> l" | (whole) "l < v + run_width r" "first = v" "past = v + run_width r"
    | (part) "l < v + run_width r" "\<not> (first = v \<and> past = v + run_width r)" by fastforce
  then show ?thesis
  proof cases
    case before
    then have "clip_block l h ?b = ret None" by (simp add: unfold)
    moreover have "cap l h v (run_addrs r) = []" using before by (simp add: cap_def split: option.splits)
    ultimately show ?thesis by (simp add: List.map_filter_def)
  next
    case whole
    then have "clip_block l h ?b = ret (Some r)" by (simp add: unfold)
    moreover have "cap l h v (run_addrs r) = run_addrs r"
      using whole by (auto simp: cap_def first_def past_def split: option.splits)
    ultimately show ?thesis using assms(1) by (simp add: List.map_filter_def)
  next
    case part
    have order: "v \<le> first" "first < past" "past \<le> v + run_width r" "first \<le> v + run_width r"
      using assms(2) pos part(1) by (auto simp: first_def past_def split: option.splits)
    let ?y = "\<lparr>i_start = addr_plus (i_start r) (first - v), run_width = past - first\<rparr>"
    have "first - v \<le> run_width r" using order by simp
    then have "clip_block l h ?b = ret (Some ?y)"
      unfolding unfold if_not_P [OF part(2)] using part(1) order full by simp
    moreover have "wf_run ?y" using order full by (simp add: wf_run_def full_pos_addr_plus)
    moreover have "run_addrs ?y = take (past - first) (drop (first - v) (run_addrs r))"
      using order by (simp add: drop_run_addrs take_run_addrs min_def)
    moreover have "\<dots> = cap l h v (run_addrs r)"
    proof (cases h)
      case None
      then show ?thesis using part(1) by (simp add: cap_def first_def past_def max_def)
    next
      case (Some k)
      have "first - v = l - v" by (simp add: first_def)
      moreover have "past - first = min (k - max l v) (length (drop (l - v) (run_addrs r)))"
        using Some part(1) by (simp add: past_def first_def max_def min_def) arith
      then have "take (past - first) (drop (l - v) (run_addrs r)) =
          take (k - max l v) (drop (l - v) (run_addrs r))"
        by (simp add: min_def)
      ultimately show ?thesis using Some by (simp add: cap_def)
    qed
    ultimately show ?thesis by (simp add: List.map_filter_def)
  qed
qed

lemma cap_append:
  assumes "length xs = w" "\<And>k. h = Some k \<Longrightarrow> l < k \<and> v < k"
  shows "cap l h v (xs @ ys) = cap l h v xs @ cap l h (v + w) ys"
proof (cases h)
  case None
  then show ?thesis using assms(1) by (simp add: cap_def)
next
  case (Some k)
  have "k - max l v - (w - (l - v)) = k - max l (v + w)" using assms(2) [OF Some] by (simp add: max_def)
  then show ?thesis using Some assms(1) by (simp add: cap_def)
qed

lemma map_filter_id_Cons: "List.map_filter id (x # xs) = List.map_filter id [x] @ List.map_filter id xs"
  by (simp add: List.map_filter_def)

lemma clip_list_spec:
  assumes "wf_runs rs" "\<And>k. h = Some k \<Longrightarrow> l < k"
  shows "\<exists>xs. exec_map (clip_block l h)
      (takeWhile (\<lambda>b. case h of None \<Rightarrow> True | Some k \<Rightarrow> v_start b < k) (blocks_from v rs)) = ret xs \<and>
    wf_runs (List.map_filter id xs) \<and> flat (List.map_filter id xs) = cap l h v (flat rs)"
  using assms(1)
proof (induction rs arbitrary: v)
  case Nil
  then show ?case by (simp add: cap_def List.map_filter_def split: option.splits)
next
  case (Cons r rs)
  show ?case
  proof (cases "\<exists>k. h = Some k \<and> k \<le> v")
    case True
    then show ?thesis by (auto simp: cap_def List.map_filter_def)
  next
    case False
    then have bound: "\<And>k. h = Some k \<Longrightarrow> l < k \<and> v < k" using assms(2) by (simp add: not_le)
    then have stop: "case h of None \<Rightarrow> True | Some k \<Rightarrow> v < k" by (simp split: option.split)
    have wf: "wf_run r" "wf_runs rs" using Cons.prems by simp_all
    obtain x where x: "clip_block l h \<lparr>v_start = v, block_run = r\<rparr> = ret x"
      "wf_runs (List.map_filter id [x])" "flat (List.map_filter id [x]) = cap l h v (run_addrs r)"
      using clip_block_spec [OF wf(1) bound] by blast
    obtain xs where xs: "exec_map (clip_block l h)
        (takeWhile (\<lambda>b. case h of None \<Rightarrow> True | Some k \<Rightarrow> v_start b < k) (blocks_from (v + run_width r) rs)) = ret xs"
      "wf_runs (List.map_filter id xs)" "flat (List.map_filter id xs) = cap l h (v + run_width r) (flat rs)"
      using Cons.IH [OF wf(2)] by blast
    have "flat (List.map_filter id (x # xs)) = cap l h v (flat (r # rs))"
      using map_filter_id_Cons [of x xs] x(3) xs(3) cap_append [OF _ bound, of "run_addrs r"] by simp
    moreover have "wf_runs (List.map_filter id (x # xs))"
      using map_filter_id_Cons [of x xs] x(2) xs(2) by simp
    moreover have "exec_map (clip_block l h)
        (takeWhile (\<lambda>b. case h of None \<Rightarrow> True | Some k \<Rightarrow> v_start b < k) (blocks_from v (r # rs))) = ret (x # xs)"
      using x(1) xs(1) stop by (cases h) simp_all
    ultimately show ?thesis by blast
  qed
qed

lemma iter_resolve_range_spec:
  assumes "rl_inv l" "0 < ord"
  obtains rs where "iter_resolve_range l ord n = ret rs" "wf_runs rs"
    "flat rs = take n (drop (ord - 1) (rl_elems l))"
proof (cases "n = 0")
  case True
  then show thesis using that [of "[]"] assms(2) by (simp add: iter_resolve_range_def Let_def)
next
  case False
  obtain xs where "exec_map (clip_block ord (Some (ord + n)))
      (takeWhile (\<lambda>b. case Some (ord + n) of None \<Rightarrow> True | Some k \<Rightarrow> v_start b < k)
        (blocks_from 1 (rl_runs l))) = ret xs"
    "wf_runs (List.map_filter id xs)"
    "flat (List.map_filter id xs) = cap ord (Some (ord + n)) 1 (flat (rl_runs l))"
    using clip_list_spec [OF rl_inv_wf [OF assms(1)], of "Some (ord + n)" ord 1] False by auto
  moreover have "max ord 1 = ord" using assms(2) by simp
  ultimately show thesis using that [of "List.map_filter id xs"] False
    by (simp add: iter_resolve_range_def clipped_runs_def iter_blocks_def blocks_of_def Let_def
        cap_def rl_elems_def)
qed

lemma iter_resolve_from_spec:
  assumes "rl_inv l"
  obtains rs where "iter_resolve_from l ord = ret rs" "wf_runs rs"
    "flat rs = drop (ord - 1) (rl_elems l)"
proof -
  obtain xs where "exec_map (clip_block (max ord 1) None)
      (takeWhile (\<lambda>b. case None of None \<Rightarrow> True | Some k \<Rightarrow> v_start b < k)
        (blocks_from 1 (rl_runs l))) = ret xs"
    "wf_runs (List.map_filter id xs)"
    "flat (List.map_filter id xs) = cap (max ord 1) None 1 (flat (rl_runs l))"
    using clip_list_spec [OF rl_inv_wf [OF assms(1)], of None "max ord 1" 1] by auto
  then show thesis using that [of "List.map_filter id xs"]
    by (simp add: iter_resolve_from_def clipped_runs_def iter_blocks_def blocks_of_def
        cap_def rl_elems_def max_def)
qed

lemma image_spec:
  assumes "rl_inv l"
  shows "rl_image l = ret (SpanSet (map iextent_of (rl_runs l)))"
    "wf_set (SpanSet (map iextent_of (rl_runs l)))"
proof -
  have wf: "\<forall>r \<in> set (rl_runs l). wf_run r" using rl_inv_wf [OF assms] by (simp add: wf_runs_def)
  then have "exec_map iextent (rl_runs l) = ret (map iextent_of (rl_runs l))"
    by (intro exec_map_ret) (simp add: iextent_of_def)
  then show "rl_image l = ret (SpanSet (map iextent_of (rl_runs l)))"
    by (simp add: rl_image_def spanset_from_iter_def)
  show "wf_set (SpanSet (map iextent_of (rl_runs l)))"
    using wf by (auto simp: wf_set_def iextent_of_props(2))
qed

section \<open>The run list is a sequence store\<close>

interpretation runs: sequence_store rl_inv rl_elems wf_runs flat splice_in remove_range iter_resolve_range
proof (unfold_locales, goal_cases)
  case (1 l m)
  then show ?case by (rule rl_canonical)
next
  case (2 l rs p)
  then show ?case by (metis splice_in_spec)
next
  case (3 l p w)
  then show ?case by (metis remove_range_spec)
next
  case (4 l p w)
  then show ?case by (metis iter_resolve_range_spec)
qed

section \<open>Properties\<close>

text \<open>
  C15: the editing operations of a run list refine editing the sequence it stands for. On a
  legal list and legal runs none panics, whatever the ordinal or width; each keeps the list
  legal and maximally merged; splicing inserts the new addresses before the ordinal, appending
  adds them at the end, and removal closes the gap.
\<close>

theorem run_list_edits:
  assumes "rl_inv l" "wf_runs rs" "wf_run r"
  shows "\<exists>s a d. splice_in l ord rs = ret s \<and> rl_append l r = ret a \<and> remove_range l ord w = ret d \<and>
    rl_inv s \<and> rl_inv a \<and> rl_inv d \<and>
    rl_elems s = take (ord - 1) (rl_elems l) @ flat rs @ drop (ord - 1) (rl_elems l) \<and>
    rl_elems a = rl_elems l @ run_addrs r \<and>
    rl_elems d = take (ord - 1) (rl_elems l) @ drop (ord - 1 + w) (rl_elems l)"
proof -
  obtain s where s: "splice_in l ord rs = ret s" "rl_inv s"
    "rl_elems s = take (ord - 1) (rl_elems l) @ flat rs @ drop (ord - 1) (rl_elems l)"
    by (rule splice_in_spec [OF assms(1,2)])
  obtain a where a: "rl_append l r = ret a" "rl_inv a" "rl_elems a = rl_elems l @ run_addrs r"
    by (rule append_spec [OF assms(1,3)])
  obtain d where d: "remove_range l ord w = ret d" "rl_inv d"
    "rl_elems d = take (ord - 1) (rl_elems l) @ drop (ord - 1 + w) (rl_elems l)"
    by (rule remove_range_spec [OF assms(1)])
  show ?thesis using s a d by blast
qed

text \<open>Sample list: two runs of one document that do not abut.\<close>

definition sample_runs :: "run list" where
  "sample_runs = [\<lparr>i_start = sample_elem, run_width = 4\<rparr>, \<lparr>i_start = sample_elem, run_width = 4\<rparr>]"

lemma rl_inv_sample [simp]: "rl_inv (RunList sample_runs)" "wf_runs sample_runs"
  by (simp_all add: rl_inv_def sample_runs_def merged_def adjacent_def)
     (metis advance_0 advance_inject zero_neq_numeral)

theorem run_list_edits_witness:
  "\<exists>s d. splice_in (RunList sample_runs) 3 sample_runs = ret s \<and>
     remove_range (RunList sample_runs) 3 4 = ret d \<and> rl_inv s \<and> rl_inv d"
  using run_list_edits [OF rl_inv_sample wf_run_sample, of 3 4] by blast

text \<open>
  C16: the reads of a run list answer from the sequence it stands for, without panicking: \<open>point\<close>
  is the address at a 1-based position and none outside; \<open>holds\<close>, asked of a full element
  position, is membership; the range and suffix resolutions return legal runs that stand for
  exactly the positions asked for that are arranged.
\<close>

theorem run_list_reads:
  assumes "rl_inv l"
  shows "total_width l = length (rl_elems l) \<and>
    point l ord = ret (if 0 < ord \<and> ord \<le> total_width l then Some (rl_elems l ! (ord - 1)) else None) \<and>
    (\<forall>a. full_pos a \<longrightarrow> holds l a = ret (a \<in> set (rl_elems l))) \<and>
    (\<exists>rs. iter_resolve_range l (Suc p) n = ret rs \<and> wf_runs rs \<and> flat rs = take n (drop p (rl_elems l))) \<and>
    (\<exists>rs. iter_resolve_from l ord = ret rs \<and> wf_runs rs \<and> flat rs = drop (ord - 1) (rl_elems l))"
proof (intro conjI allI impI)
  show "total_width l = length (rl_elems l)" by (simp add: total_width_eq rl_elems_def)
  show "point l ord = ret (if 0 < ord \<and> ord \<le> total_width l then Some (rl_elems l ! (ord - 1)) else None)"
    by (rule point_spec [OF assms])
  show "holds l a = ret (a \<in> set (rl_elems l))" if "full_pos a" for a
    by (rule holds_spec [OF assms that])
  show "\<exists>rs. iter_resolve_range l (Suc p) n = ret rs \<and> wf_runs rs \<and> flat rs = take n (drop p (rl_elems l))"
    using iter_resolve_range_spec [OF assms, of "Suc p" n] by (metis diff_Suc_1 zero_less_Suc)
  show "\<exists>rs. iter_resolve_from l ord = ret rs \<and> wf_runs rs \<and> flat rs = drop (ord - 1) (rl_elems l)"
    by (metis iter_resolve_from_spec [OF assms])
qed

theorem run_list_reads_witness:
  "total_width (RunList sample_runs) = length (rl_elems (RunList sample_runs)) \<and>
   holds (RunList sample_runs) sample_elem = ret (sample_elem \<in> set (rl_elems (RunList sample_runs)))"
  using run_list_reads [OF rl_inv_sample(1)] full_pos_sample by blast

text \<open>
  C17: the resident form is canonical. The decode door turns any legal runs into a legal,
  maximally merged list standing for the same sequence; two such lists that stand for one
  sequence are equal; and a list that is one already is left as it is.
\<close>

theorem run_list_canonical:
  assumes "wf_runs rs"
  shows "\<exists>m. run_list_from rs = ret m \<and> rl_inv m \<and> rl_elems m = flat rs \<and>
    run_list_from (rl_runs m) = ret m \<and>
    (\<forall>k. rl_inv k \<and> rl_elems k = flat rs \<longrightarrow> k = m)"
proof -
  obtain m where m: "run_list_from rs = ret m" "rl_inv m" "rl_elems m = flat rs"
    by (rule run_list_from_spec [OF assms])
  obtain k where k: "run_list_from (rl_runs m) = ret k" "rl_inv k" "rl_elems k = flat (rl_runs m)"
    by (rule run_list_from_spec [OF rl_inv_wf [OF m(2)]])
  have uniq: "\<forall>k. rl_inv k \<and> rl_elems k = flat rs \<longrightarrow> k = m" using rl_canonical m(2,3) by auto
  have "rl_elems k = flat rs" using k(3) m(3) by (simp add: rl_elems_def)
  then have "k = m" using uniq k(2) by blast
  then show ?thesis using m k(1) uniq by blast
qed

theorem run_list_canonical_witness:
  "\<exists>m. run_list_from sample_runs = ret m \<and> rl_inv m \<and> run_list_from (rl_runs m) = ret m"
  using run_list_canonical [OF rl_inv_sample(2)] by blast

text \<open>
  the edits undo each other on the stored form, not only on the sequence: removing what a
  splice put in gives back the very list, so does splicing back what was resolved before a
  removal, consecutive removals at one place combine, and splices at two places commute.
\<close>

theorem run_list_round_trips:
  assumes "rl_inv l" "wf_runs rs" "wf_runs ss" "0 < p" "p \<le> q" "q \<le> total_width l + 1"
    and "splice_in l p rs = ret s" "splice_in l q ss = ret t"
    and "remove_range l p w = ret d" "iter_resolve_range l p w = ret cs"
  shows "remove_range s p (length (flat rs)) = ret l \<and> splice_in d p cs = ret l \<and>
    remove_range d p v = remove_range l p (w + v) \<and>
    splice_in t p rs = splice_in s (q + length (flat rs)) ss"
proof (intro conjI)
  have q: "q \<le> length (rl_elems l) + 1" using assms(6) by (simp add: total_width_eq rl_elems_def)
  then have p: "p \<le> length (rl_elems l) + 1" using assms(5) by simp
  show "remove_range s p (length (flat rs)) = ret l"
    by (rule runs.splice_remove [OF assms(1,2,4) p assms(7)])
  show "splice_in d p cs = ret l" by (rule runs.cut_paste [OF assms(1,4) p assms(10,9)])
  show "remove_range d p v = remove_range l p (w + v)"
    by (rule runs.remove_remove [OF assms(1) p assms(9)])
  show "splice_in t p rs = splice_in s (q + length (flat rs)) ss"
    by (rule runs.splice_splice [OF assms(1,2,3,4,5) q assms(8,7)])
qed

theorem run_list_round_trips_witness:
  "\<exists>s. splice_in (RunList sample_runs) 2 sample_runs = ret s \<and>
     remove_range s 2 (length (flat sample_runs)) = ret (RunList sample_runs)"
proof -
  let ?l = "RunList sample_runs"
  have tw: "(3::nat) \<le> total_width ?l + 1" by (simp add: total_width_def sample_runs_def)
  obtain s t d cs where "splice_in ?l 2 sample_runs = ret s" "splice_in ?l 3 sample_runs = ret t"
    "remove_range ?l 2 1 = ret d" "iter_resolve_range ?l 2 1 = ret cs"
    by (metis rl_inv_sample splice_in_spec remove_range_spec iter_resolve_range_spec zero_less_numeral)
  then show ?thesis
    using run_list_round_trips [OF rl_inv_sample(1,2,2) _ _ tw, of 2 s t 1 d cs] by auto
qed

text \<open>
  C18: \<open>reorder\<close> never panics on any cut vector, keeps the list legal and permutes the sequence;
  on three ascending cuts it exchanges the two regions between them, and on four it exchanges
  the outer two and leaves the middle one in place.
\<close>

theorem reorder_exact:
  assumes "rl_inv l" "rl_elems l = us @ as @ ms @ bs @ vs" "Suc (length us) = c"
  shows "(\<forall>cuts. \<exists>m. reorder l cuts = ret m \<and> rl_inv m \<and> mset (rl_elems m) = mset (rl_elems l)) \<and>
    (\<exists>m. reorder l [c, c + length as, c + length as + length ms + length bs] = ret m \<and>
       rl_elems m = us @ ms @ bs @ as @ vs) \<and>
    (\<exists>m. reorder l [c, c + length as, c + length as + length ms,
         c + length as + length ms + length bs] = ret m \<and>
       rl_elems m = us @ bs @ ms @ as @ vs)"
proof (intro conjI allI)
  show "\<exists>m. reorder l cuts = ret m \<and> rl_inv m \<and> mset (rl_elems m) = mset (rl_elems l)" for cuts
    by (metis reorder_spec [OF assms(1)] mset_seq_reorder)
  have "seq_reorder (rl_elems l) [c, c + length as, c + length as + length ms + length bs] = us @ ms @ bs @ as @ vs"
    using seq_reorder_pivot [of us c as "c + length as" "ms @ bs" "c + length as + length ms + length bs" vs]
      assms(2,3) by simp
  then show "\<exists>m. reorder l [c, c + length as, c + length as + length ms + length bs] = ret m \<and>
       rl_elems m = us @ ms @ bs @ as @ vs"
    by (metis reorder_spec [OF assms(1)])
  have "seq_reorder (rl_elems l) [c, c + length as, c + length as + length ms,
      c + length as + length ms + length bs] = us @ bs @ ms @ as @ vs"
    using seq_reorder_swap [of us c as _ ms _ bs _ vs] assms(2,3) by simp
  then show "\<exists>m. reorder l [c, c + length as, c + length as + length ms,
         c + length as + length ms + length bs] = ret m \<and>
       rl_elems m = us @ bs @ ms @ as @ vs"
    by (metis reorder_spec [OF assms(1)])
qed

theorem reorder_exact_witness:
  "\<exists>m xs. rl_elems (RunList sample_runs) = run_addrs (hd sample_runs) @ xs \<and>
     reorder (RunList sample_runs) [1, 5, 5 + length xs] = ret m \<and>
     rl_elems m = xs @ run_addrs (hd sample_runs)"
proof -
  let ?a = "run_addrs \<lparr>i_start = sample_elem, run_width = 4\<rparr>"
  have e: "rl_elems (RunList sample_runs) = [] @ ?a @ ?a @ [] @ []"
    by (simp add: rl_elems_def sample_runs_def)
  show ?thesis
    using reorder_exact [OF rl_inv_sample(1) e, of 1] e by (auto simp: sample_runs_def)
qed

end
