(* ===== verification/Write_Once.thy ===== *)
theory Write_Once
  imports Skep_Prelude
begin

text \<open>
  The contract of a write-once store folded from a journal: a record either writes a block of
  fresh keys, or leaves the store as it was. The laws that follow are those of an append-only
  log: what a store holds it holds after any journal, and folding a journal again changes
  nothing.
\<close>

locale write_once =
  fixes inv :: "'s \<Rightarrow> bool"
    and lookup :: "'s \<Rightarrow> 'k \<Rightarrow> 'v option"
    and legal :: "'r \<Rightarrow> bool"
    and writes :: "'r \<Rightarrow> 'k \<rightharpoonup> 'v"
    and accepts :: "'s \<Rightarrow> 'r \<Rightarrow> bool"
    and fold :: "'s \<Rightarrow> 'r \<Rightarrow> 's exec"
  assumes fold_accepts: "inv s \<Longrightarrow> legal r \<Longrightarrow> accepts s r \<Longrightarrow>
      \<exists>s'. fold s r = ret s' \<and> inv s' \<and> lookup s' = lookup s ++ writes r \<and>
        dom (lookup s) \<inter> dom (writes r) = {}"
    and fold_refuses: "inv s \<Longrightarrow> legal r \<Longrightarrow> \<not> accepts s r \<Longrightarrow> fold s r = ret s"
    and refuses_again: "inv s \<Longrightarrow> legal r \<Longrightarrow> accepts s r \<Longrightarrow> fold s r = ret s' \<Longrightarrow> \<not> accepts s' r"
    and refuses_later: "inv s \<Longrightarrow> legal r \<Longrightarrow> legal q \<Longrightarrow> \<not> accepts s q \<Longrightarrow> fold s r = ret s' \<Longrightarrow>
      \<not> accepts s' q"
begin

lemma fold_returns:
  assumes "inv s" "legal r"
  obtains s' where "fold s r = ret s'" "inv s'" "lookup s \<subseteq>\<^sub>m lookup s'"
proof (cases "accepts s r")
  case True
  then show thesis using that fold_accepts [OF assms]
    by (metis Int_commute map_add_comm map_le_map_add)
next
  case False
  then show thesis using that fold_refuses [OF assms] assms(1) by simp
qed

text \<open>A journal never changes or removes what the store holds.\<close>

lemma replay_keeps:
  assumes "inv s" "\<forall>r \<in> set rs. legal r"
  shows "\<exists>s'. exec_fold fold s rs = ret s' \<and> inv s' \<and> lookup s \<subseteq>\<^sub>m lookup s'"
  using assms
proof (induction rs arbitrary: s)
  case (Cons r rs)
  then obtain t where t: "fold s r = ret t" "inv t" "lookup s \<subseteq>\<^sub>m lookup t"
    using fold_returns [OF Cons.prems(1), of r] by (metis list.set_intros(1))
  obtain u where "exec_fold fold t rs = ret u" "inv u" "lookup t \<subseteq>\<^sub>m lookup u"
    using Cons.IH [OF t(2)] Cons.prems(2) by auto
  then show ?case using t map_le_trans by auto
qed (simp add: map_le_def)

lemma replay_refuses:
  assumes "inv s" "\<forall>r \<in> set rs. legal r \<and> \<not> accepts s r"
  shows "exec_fold fold s rs = ret s"
  using assms by (induction rs) (auto simp: fold_refuses)

lemma refused_stays:
  assumes "inv s" "\<forall>r \<in> set rs. legal r" "legal q" "\<not> accepts s q" "exec_fold fold s rs = ret s'"
  shows "\<not> accepts s' q"
  using assms
proof (induction rs arbitrary: s)
  case (Cons r rs)
  then obtain t where t: "fold s r = ret t" "inv t"
    using fold_returns [OF Cons.prems(1), of r] by (metis list.set_intros(1))
  then have "\<not> accepts t q" using Cons.prems refuses_later [of s r q t] by auto
  then show ?case using Cons.IH [of t] Cons.prems t by auto
qed simp

lemma replayed_refused:
  assumes "inv s" "\<forall>r \<in> set rs. legal r" "exec_fold fold s rs = ret s'" "q \<in> set rs"
  shows "\<not> accepts s' q"
  using assms
proof (induction rs arbitrary: s)
  case (Cons r rs)
  then obtain t where t: "fold s r = ret t" "inv t"
    using fold_returns [OF Cons.prems(1), of r] by (metis list.set_intros(1))
  then have rest: "exec_fold fold t rs = ret s'" using Cons.prems(3) by simp
  show ?case
  proof (cases "q = r")
    case True
    have "\<not> accepts t r"
      using refuses_again [OF Cons.prems(1), of r t] fold_refuses [OF Cons.prems(1), of r] t(1)
        Cons.prems(2) by (cases "accepts s r") auto
    then show ?thesis using refused_stays [OF t(2) _ _ _ rest, of r] Cons.prems(2) True by auto
  next
    case False
    then show ?thesis using Cons.IH [OF t(2) _ rest] Cons.prems(2,4) by auto
  qed
qed simp

text \<open>Folding a journal a second time leaves the store as it is.\<close>

lemma replay_idem:
  assumes "inv s" "\<forall>r \<in> set rs. legal r" "exec_fold fold s rs = ret s'"
  shows "exec_fold fold s' rs = ret s'"
proof -
  have "inv s'" using replay_keeps [OF assms(1,2)] assms(3) by auto
  then show ?thesis using replay_refuses [of s' rs] replayed_refused [OF assms] assms(2) by blast
qed

end

end
