(* ===== verification/Content_Store.thy ===== *)
theory Content_Store
  imports Run_Lists Write_Once "HOL-Library.Word"
begin

text \<open>
  The permascroll (\<^verbatim>\<open>crates/skep-content\<close>): an append-only map from element addresses to
  content, whose entries hold one value or one stretch of consecutive single-byte values. The
  theory holds the slice, its two records, the two folds, the two staging doors, the point
  queries, the range walk and the decoder of the serialised slice.

  The ordered map behind the slice is the list of its entries in key order. \<open>cells\<close> spells the
  slice out address by address; \<open>content\<close> is the finite map it denotes. The lemmas show that the
  reads answer from that map, that neither fold ever changes an address that holds a value (by
  the interface \<open>write_once\<close>), that a door admits exactly the records a fold stores, that the
  range walk delivers the values in order, and that the decoder admits exactly legal slices.

  Debug assertions are kept: the operations that contain one take the build's
  \<^verbatim>\<open>debug_assertions\<close> flag as their first argument.
\<close>

type_synonym byte = "8 word"

datatype val = Val (as_bytes: "byte list")

definition val_len :: "val \<Rightarrow> nat" where
  "val_len v = length (as_bytes v)"

datatype content_error =
    AlreadyStored tumbler
  | EmptyStretch
  | Overlap tumbler tumbler

definition debug_assert_content_address_routing :: "bool \<Rightarrow> address \<Rightarrow> unit exec" where
  "debug_assert_content_address_routing dbg a =
     (if \<not> dbg then ret ()
      else do {
        s \<leftarrow> (if level a = Element then subspace a else ret None);
        (if level a = Element \<and> s = Some content_subspace then ret () else panic) })"

datatype stored = Value val | Stretch "byte list"

fun stored_width :: "stored \<Rightarrow> nat" where
  "stored_width (Value v) = 1"
| "stored_width (Stretch bs) = length bs"

definition stored_reach :: "stored \<Rightarrow> tumbler \<Rightarrow> tumbler exec" where
  "stored_reach st key = shift key (stored_width st)"

definition stored_covers :: "stored \<Rightarrow> tumbler \<Rightarrow> tumbler \<Rightarrow> bool exec" where
  "stored_covers st key t =
     (if key = t then ret True
      else case st of
             Value v \<Rightarrow> ret False
           | Stretch bs \<Rightarrow>
               if key < t then do { r \<leftarrow> stored_reach st key; ret (t < r) } else ret False)"

datatype piece = Bytes "byte list" | PieceValue val

fun stored_piece :: "stored \<Rightarrow> piece" where
  "stored_piece (Value v) = PieceValue v"
| "stored_piece (Stretch bs) = Bytes bs"

fun piece_as_bytes :: "piece \<Rightarrow> byte list" where
  "piece_as_bytes (Bytes bs) = bs"
| "piece_as_bytes (PieceValue v) = as_bytes v"

fun to_val :: "piece \<Rightarrow> val" where
  "to_val (Bytes bs) = Val bs"
| "to_val (PieceValue v) = v"

definition same_chain :: "tumbler \<Rightarrow> tumbler \<Rightarrow> bool" where
  "same_chain key t \<longleftrightarrow> tumbler_len key = tumbler_len t \<and>
     list_all (\<lambda>(a, b). a = b) (take (tumbler_len key - 1) (zip (comps key) (comps t)))"

text \<open>\<^verbatim>\<open>usize::try_from\<close> of an unbounded natural, on a 64-bit target.\<close>

definition usize_try_from :: "nat \<Rightarrow> nat option" where
  "usize_try_from n = (if n < 2 ^ 64 then Some n else None)"

definition offset_in :: "tumbler \<Rightarrow> nat \<Rightarrow> tumbler \<Rightarrow> nat option exec" where
  "offset_in key len t =
     (if \<not> same_chain key t \<or> ordinal t < ordinal key then ret None
      else do {
        d \<leftarrow> nat_sub (ordinal t) (ordinal key);
        ret (case usize_try_from d of None \<Rightarrow> None | Some k \<Rightarrow> if k < len then Some k else None) })"

type_synonym entry = "address \<times> stored"

datatype content_store = ContentStore (entries: "entry list")

definition store_empty :: content_store where
  "store_empty = ContentStore []"

text \<open>The ordered map's \<^verbatim>\<open>update\<close>: insert in key order, replacing an equal key.\<close>

fun omap_update :: "address \<Rightarrow> stored \<Rightarrow> entry list \<Rightarrow> entry list" where
  "omap_update k st [] = [(k, st)]"
| "omap_update k st ((k', st') # es) =
     (if tumbler k < tumbler k' then (k, st) # (k', st') # es
      else if tumbler k = tumbler k' then (k, st) # es
      else (k', st') # omap_update k st es)"

text \<open>\<^verbatim>\<open>range(..=t).next_back()\<close> and \<^verbatim>\<open>range(from..).next()\<close>.\<close>

definition at_or_below :: "content_store \<Rightarrow> tumbler \<Rightarrow> entry option" where
  "at_or_below c t =
     (case filter (\<lambda>(k, st). tumbler k \<le> t) (entries c) of [] \<Rightarrow> None | es \<Rightarrow> Some (last es))"

definition holds_a_key_in :: "content_store \<Rightarrow> tumbler \<Rightarrow> tumbler \<Rightarrow> bool" where
  "holds_a_key_in c from r =
     (case filter (\<lambda>(k, st). from \<le> tumbler k) (entries c) of
        [] \<Rightarrow> False | (k, st) # es \<Rightarrow> tumbler k < r)"

definition store_contains :: "content_store \<Rightarrow> tumbler \<Rightarrow> bool exec" where
  "store_contains c a =
     (case at_or_below c a of None \<Rightarrow> ret False | Some (k, st) \<Rightarrow> stored_covers st (tumbler k) a)"

definition value_at :: "content_store \<Rightarrow> tumbler \<Rightarrow> piece option exec" where
  "value_at c a =
     (case at_or_below c a of
        None \<Rightarrow> ret None
      | Some (k, Value v) \<Rightarrow> ret (if tumbler k = a then Some (PieceValue v) else None)
      | Some (k, Stretch bs) \<Rightarrow> do {
          off \<leftarrow> offset_in (tumbler k) (length bs) a;
          (case off of
             None \<Rightarrow> ret None
           | Some i \<Rightarrow> do { s \<leftarrow> subslice bs i (i + 1); ret (Some (Bytes s)) }) })"

definition store_len :: "content_store \<Rightarrow> nat" where
  "store_len c = length (entries c)"

definition store_is_empty :: "content_store \<Rightarrow> bool" where
  "store_is_empty c \<longleftrightarrow> entries c = []"

definition store_iter :: "content_store \<Rightarrow> (address \<times> piece) list" where
  "store_iter c = map (\<lambda>(k, st). (k, stored_piece st)) (entries c)"

record content_write =
  cw_addr :: address
  cw_val :: val

record content_stretch =
  cs_first :: address
  cs_bytes :: "byte list"

text \<open>Deserialisation of a stretch refuses zero bytes.\<close>

definition stretch_try_from :: "address \<times> byte list \<Rightarrow> (content_stretch, content_error) result" where
  "stretch_try_from s =
     (if snd s = [] then Err EmptyStretch else Ok \<lparr>cs_first = fst s, cs_bytes = snd s\<rparr>)"

definition stretch_reach :: "content_stretch \<Rightarrow> tumbler exec" where
  "stretch_reach r = shift (tumbler (cs_first r)) (length (cs_bytes r))"

definition apply_write :: "bool \<Rightarrow> content_store \<Rightarrow> content_write \<Rightarrow> content_store exec" where
  "apply_write dbg c r = do {
     already_stored \<leftarrow> store_contains c (tumbler (cw_addr r));
     (if dbg \<and> already_stored then panic
      else if already_stored then ret c
      else ret (ContentStore (omap_update (cw_addr r) (Value (cw_val r)) (entries c)))) }"

definition apply_stretch :: "bool \<Rightarrow> content_store \<Rightarrow> content_stretch \<Rightarrow> content_store exec" where
  "apply_stretch dbg c r = do {
     covered \<leftarrow> store_contains c (tumbler (cs_first r));
     stored_or_overlapping \<leftarrow>
       (if covered then ret True
        else do { q \<leftarrow> stretch_reach r; ret (holds_a_key_in c (tumbler (cs_first r)) q) });
     (if dbg \<and> stored_or_overlapping then panic
      else if stored_or_overlapping then ret c
      else ret (ContentStore (omap_update (cs_first r) (Stretch (cs_bytes r)) (entries c)))) }"

definition stage_write ::
  "bool \<Rightarrow> content_store \<Rightarrow> address \<Rightarrow> val \<Rightarrow> (content_write, content_error) result exec" where
  "stage_write dbg c a v = do {
     _ \<leftarrow> debug_assert_content_address_routing dbg a;
     s \<leftarrow> store_contains c (tumbler a);
     ret (if s then Err (AlreadyStored (tumbler a)) else Ok \<lparr>cw_addr = a, cw_val = v\<rparr>) }"

definition stage_stretch ::
  "bool \<Rightarrow> content_store \<Rightarrow> address \<Rightarrow> byte list \<Rightarrow> (content_stretch, content_error) result exec" where
  "stage_stretch dbg c a bs =
     (if bs = [] then ret (Err EmptyStretch)
      else do {
        _ \<leftarrow> debug_assert_content_address_routing dbg a;
        s \<leftarrow> store_contains c (tumbler a);
        (if s then ret (Err (AlreadyStored (tumbler a)))
         else do {
           q \<leftarrow> shift (tumbler a) (length bs);
           ret (if holds_a_key_in c (tumbler a) q then Err (Overlap (tumbler a) q)
                else Ok \<lparr>cs_first = a, cs_bytes = bs\<rparr>) }) })"

subsection \<open>The range walk\<close>

record pieces =
  walk :: "entry list option"
  cursor :: tumbler
  remaining :: nat

definition store_pieces :: "content_store \<Rightarrow> tumbler \<Rightarrow> nat \<Rightarrow> pieces" where
  "store_pieces c s w =
     \<lparr>walk = (case at_or_below c s of
                None \<Rightarrow> None
              | Some (k, st) \<Rightarrow> Some (filter (\<lambda>(k', st'). tumbler k \<le> tumbler k') (entries c))),
      cursor = s, remaining = w\<rparr>"

definition covering :: "entry \<Rightarrow> tumbler \<Rightarrow> nat \<Rightarrow> (piece \<times> nat) option exec" where
  "covering e cur n =
     (case e of
        (k, Value v) \<Rightarrow> ret (if tumbler k = cur then Some (PieceValue v, 1) else None)
      | (k, Stretch bs) \<Rightarrow> do {
          off \<leftarrow> offset_in (tumbler k) (length bs) cur;
          (case off of
             None \<Rightarrow> ret None
           | Some i \<Rightarrow> do {
               available \<leftarrow> nat_sub (length bs) i;
               let m = (case usize_try_from n of None \<Rightarrow> available | Some n \<Rightarrow> min n available);
               s \<leftarrow> subslice bs i (i + m);
               ret (Some (Bytes s, m)) }) })"

text \<open>The loop of \<^verbatim>\<open>Pieces::next\<close>: what it lends, how much, and the walk after it.\<close>

fun pieces_scan :: "entry list \<Rightarrow> tumbler \<Rightarrow> nat \<Rightarrow> (piece \<times> nat \<times> entry list) option exec" where
  "pieces_scan [] cur n = ret None"
| "pieces_scan (e # es) cur n = do {
     x \<leftarrow> covering e cur n;
     (case x of
        Some (p, m) \<Rightarrow> ret (Some (p, m, es))
      | None \<Rightarrow> if tumbler (fst e) < cur then pieces_scan es cur n else ret None) }"

definition pieces_next :: "pieces \<Rightarrow> (piece option \<times> pieces) exec" where
  "pieces_next w =
     (if remaining w = 0 then ret (None, w)
      else do {
        x \<leftarrow> (case walk w of None \<Rightarrow> ret None | Some es \<Rightarrow> pieces_scan es (cursor w) (remaining w));
        (case x of
           None \<Rightarrow> ret (None, w\<lparr>walk := None\<rparr>)
         | Some (p, m, es) \<Rightarrow> do {
             cur \<leftarrow> shift (cursor w) m;
             n \<leftarrow> nat_sub (remaining w) m;
             ret (Some p, \<lparr>walk = Some es, cursor = cur, remaining = n\<rparr>) }) })"

lemma pieces_scan_shorter: "pieces_scan es cur n = ret (Some (p, m, fs)) \<Longrightarrow> length fs < length es"
  by (induction es cur n rule: pieces_scan.induct)
     (auto split: bind_splits option.splits if_splits)

text \<open>Draining the walk: the pieces it lends and the state it ends in.\<close>

function pieces_drain :: "pieces \<Rightarrow> (piece list \<times> pieces) exec" where
  "pieces_drain w = do {
     x \<leftarrow> pieces_next w;
     (case x of
        (None, w') \<Rightarrow> ret ([], w')
      | (Some p, w') \<Rightarrow> do { y \<leftarrow> pieces_drain w'; ret (p # fst y, snd y) }) }"
  by pat_completeness auto
termination
  by (relation "measure (\<lambda>w. case walk w of None \<Rightarrow> 0 | Some es \<Rightarrow> length es)")
     (auto simp: pieces_next_def split: bind_splits option.splits if_splits, erule pieces_scan_shorter)

declare pieces_drain.simps [simp del]

definition pieces_covered :: "pieces \<Rightarrow> bool exec" where
  "pieces_covered w = do { x \<leftarrow> pieces_drain w; ret (remaining (snd x) = 0) }"

subsection \<open>The serialised slice\<close>

datatype decode_error =
    BadAddress t4_error
  | NamedTwice
  | ZeroStretch
  | OverlapsNeighbour

definition in_tumbler_order :: "content_store \<Rightarrow> (tumbler \<times> stored) list" where
  "in_tumbler_order c = map (\<lambda>(k, st). (tumbler k, st)) (entries c)"

text \<open>The reading loop of the visitor, then its ordered pass.\<close>

fun read_entries :: "entry list \<Rightarrow> (tumbler \<times> stored) list \<Rightarrow> (entry list, decode_error) result exec" where
  "read_entries m [] = ret (Ok m)"
| "read_entries m ((t, st) # es) = do {
     v \<leftarrow> validate t;
     (case v of
        Err e \<Rightarrow> ret (Err (BadAddress e))
      | Ok a \<Rightarrow>
          if t \<in> (tumbler \<circ> fst) ` set m then ret (Err NamedTwice)
          else read_entries (omap_update a st m) es) }"

fun ordered_pass :: "entry list \<Rightarrow> decode_error option exec" where
  "ordered_pass [] = ret None"
| "ordered_pass ((k, Value v) # es) = ordered_pass es"
| "ordered_pass ((k, Stretch bs) # es) =
     (if bs = [] then ret (Some ZeroStretch)
      else case es of
             [] \<Rightarrow> ordered_pass es
           | (k', st') # es' \<Rightarrow> do {
               q \<leftarrow> stored_reach (Stretch bs) (tumbler k);
               (if tumbler k' < q then ret (Some OverlapsNeighbour) else ordered_pass es) })"

definition entry_by_entry :: "(tumbler \<times> stored) list \<Rightarrow> (content_store, decode_error) result exec" where
  "entry_by_entry body = do {
     r \<leftarrow> read_entries [] body;
     (case r of
        Err e \<Rightarrow> ret (Err e)
      | Ok m \<Rightarrow> do {
          f \<leftarrow> ordered_pass m;
          ret (case f of None \<Rightarrow> Ok (ContentStore m) | Some e \<Rightarrow> Err e) }) }"

section \<open>What a slice denotes\<close>

fun cells_of :: "entry \<Rightarrow> (tumbler \<times> piece) list" where
  "cells_of (k, Value v) = [(tumbler k, PieceValue v)]"
| "cells_of (k, Stretch bs) = map (\<lambda>i. (advance (tumbler k) i, Bytes [bs ! i])) [0..<length bs]"

definition cells :: "content_store \<Rightarrow> (tumbler \<times> piece) list" where
  "cells c = concat (map cells_of (entries c))"

definition content :: "content_store \<Rightarrow> tumbler \<Rightarrow> piece option" where
  "content c = map_of (cells c)"

fun extent :: "entry \<Rightarrow> tumbler set" where
  "extent (k, Value v) = {tumbler k}"
| "extent (k, Stretch bs) = {tumbler k..<advance (tumbler k) (length bs)}"

fun wf_entry :: "entry \<Rightarrow> bool" where
  "wf_entry (k, Value v) \<longleftrightarrow> wf_address k"
| "wf_entry (k, Stretch bs) \<longleftrightarrow> wf_address k \<and> bs \<noteq> [] \<and> length bs < 2 ^ 64"

fun precedes :: "entry \<Rightarrow> entry \<Rightarrow> bool" where
  "precedes (k, Value v) e \<longleftrightarrow> tumbler k < tumbler (fst e)"
| "precedes (k, Stretch bs) e \<longleftrightarrow> advance (tumbler k) (length bs) \<le> tumbler (fst e)"

definition wf_store :: "content_store \<Rightarrow> bool" where
  "wf_store c \<longleftrightarrow> (\<forall>e \<in> set (entries c). wf_entry e) \<and> sorted_wrt precedes (entries c)"

abbreviation key :: "entry \<Rightarrow> tumbler" where
  "key e \<equiv> tumbler (fst e)"

lemma wf_entry_key: "wf_entry e \<Longrightarrow> wf_address (fst e)"
  by (cases e rule: wf_entry.cases) auto

lemma wf_storeD: "wf_store c \<Longrightarrow> e \<in> set (entries c) \<Longrightarrow> wf_entry e"
  "wf_store c \<Longrightarrow> sorted_wrt precedes (entries c)"
  by (simp_all add: wf_store_def)

lemma key_in_extent: "wf_entry e \<Longrightarrow> key e \<in> extent e"
  by (cases e rule: wf_entry.cases) simp_all

lemma key_le_extent: "t \<in> extent e \<Longrightarrow> key e \<le> t"
  by (cases e rule: wf_entry.cases) simp_all

lemma precedes_extent: "precedes e f \<Longrightarrow> t \<in> extent e \<Longrightarrow> t < key f"
  by (cases e rule: wf_entry.cases) auto

lemma precedes_key: "wf_entry e \<Longrightarrow> precedes e f \<Longrightarrow> key e < key f"
  using precedes_extent key_in_extent by blast

lemma precedes_iff: "wf_entry e \<Longrightarrow> precedes e f \<longleftrightarrow> (\<forall>t \<in> extent e. t < key f)"
proof
  assume wf: "wf_entry e" and all: "\<forall>t \<in> extent e. t < key f"
  show "precedes e f"
  proof (cases e rule: wf_entry.cases)
    case (2 k bs)
    show ?thesis
    proof (rule ccontr)
      assume "\<not> precedes e f"
      then have lt: "key f < advance (tumbler k) (length bs)" using 2 by simp
      have "tumbler k < key f" using all key_in_extent [OF wf] 2 by auto
      then have "key f \<in> extent e" using lt 2 by simp
      then show False using all by blast
    qed
  qed (use all in auto)
qed (use precedes_extent in blast)

lemma cells_in_extent: "(t, p) \<in> set (cells_of e) \<Longrightarrow> t \<in> extent e"
  by (cases e rule: wf_entry.cases) auto

text \<open>The predecessor lookup splits the entries at the probe.\<close>

lemma at_or_below_cases:
  assumes "wf_store c"
  obtains (none) "at_or_below c t = None" "\<forall>e \<in> set (entries c). t < key e"
  | (entry) us e vs where "at_or_below c t = Some e" "entries c = us @ e # vs" "key e \<le> t"
      "\<forall>v \<in> set vs. t < key v"
proof -
  have sorted: "sorted_wrt (\<lambda>e f. key e < key f) (entries c)"
  proof (rule sorted_wrt_mono_rel)
    show "sorted_wrt precedes (entries c)" by (rule wf_storeD(2) [OF assms])
    show "key e < key f" if "e \<in> set (entries c)" "precedes e f" for e f
      by (rule precedes_key [OF wf_storeD(1) [OF assms that(1)] that(2)])
  qed
  have split: "\<exists>us vs. es = us @ vs \<and> filter (\<lambda>e. key e \<le> t) es = us \<and> (\<forall>v \<in> set vs. t < key v) \<and>
      (\<forall>u \<in> set us. key u \<le> t)"
    if "sorted_wrt (\<lambda>e f. key e < key f) es" for es
    using that
  proof (induction es)
    case (Cons e es)
    show ?case
    proof (cases "key e \<le> t")
      case True
      have "sorted_wrt (\<lambda>e f. key e < key f) es" using Cons.prems by simp
      from Cons.IH [OF this] obtain us vs where "es = us @ vs" "filter (\<lambda>e. key e \<le> t) es = us"
        "\<forall>v \<in> set vs. t < key v" "\<forall>u \<in> set us. key u \<le> t" by blast
      then show ?thesis using True by (intro exI [of _ "e # us"] exI [of _ vs]) simp
    next
      case False
      then have "\<forall>v \<in> set (e # es). t < key v" using Cons.prems by auto
      moreover from this have "filter (\<lambda>e. key e \<le> t) (e # es) = []" by (auto simp: filter_empty_conv)
      ultimately show ?thesis by (intro exI [of _ "[]"] exI [of _ "e # es"]) simp
    qed
  qed simp
  obtain us vs where *: "entries c = us @ vs" "filter (\<lambda>e. key e \<le> t) (entries c) = us"
    "\<forall>v \<in> set vs. t < key v" "\<forall>u \<in> set us. key u \<le> t" using split [OF sorted] by blast
  have f: "at_or_below c t = (case us of [] \<Rightarrow> None | es \<Rightarrow> Some (last es))"
    using *(2) by (simp add: at_or_below_def case_prod_unfold)
  show thesis
  proof (cases us rule: rev_cases)
    case Nil
    then show thesis using none f * by simp
  next
    case (snoc ys y)
    then have "us \<noteq> []" by simp
    then have "at_or_below c t = Some (last us)" using f by (cases us) simp_all
    then show thesis using entry [of y ys vs] * snoc by simp
  qed
qed

lemma at_or_below_unique:
  assumes "wf_store c" "e \<in> set (entries c)" "t \<in> extent e"
  shows "at_or_below c t = Some e"
proof (cases rule: at_or_below_cases [OF assms(1), of t, case_names none entry])
  case none
  have "key e \<le> t" by (rule key_le_extent [OF assms(3)])
  moreover have "t < key e" using none(2) assms(2) by blast
  ultimately show ?thesis by simp
next
  case (entry us f vs)
  have "e \<notin> set vs" using entry(4) key_le_extent [OF assms(3)] by auto
  moreover have "e \<notin> set us"
  proof
    assume "e \<in> set us"
    then have "precedes e f"
      using wf_storeD(2) [OF assms(1)] entry(2) by (auto simp: sorted_wrt_append)
    then show False using precedes_extent [OF _ assms(3)] entry(3) by fastforce
  qed
  ultimately show ?thesis using entry(1,2) assms(2) by auto
qed

lemma at_or_below_in:
  assumes "at_or_below c t = Some e"
  shows "e \<in> set (entries c)"
proof -
  let ?f = "filter (\<lambda>(k, st). tumbler k \<le> t) (entries c)"
  have "?f \<noteq> []" "e = last ?f" using assms by (auto simp: at_or_below_def split: list.splits)
  then have "e \<in> set ?f" using last_in_set by blast
  then show ?thesis by simp
qed

lemma stored_covers_eq:
  assumes "wf_entry (k, st)" "tumbler k \<le> t"
  shows "stored_covers st (tumbler k) t = ret (t \<in> extent (k, st))"
  using assms by (cases st) (auto simp: stored_covers_def stored_reach_def)

lemma store_contains_eq [returns]:
  assumes "wf_store c"
  shows "store_contains c t = ret (\<exists>e \<in> set (entries c). t \<in> extent e)"
proof (cases rule: at_or_below_cases [OF assms, of t, case_names none entry])
  case none
  then show ?thesis using key_le_extent by (fastforce simp: store_contains_def)
next
  case (entry us e vs)
  then have wf: "wf_entry e" using wf_storeD(1) [OF assms] by simp
  have "(\<exists>e \<in> set (entries c). t \<in> extent e) \<longleftrightarrow> t \<in> extent e"
    using at_or_below_unique [OF assms] entry(1,2) by fastforce
  then show ?thesis using entry(1,3) stored_covers_eq wf by (cases e) (simp add: store_contains_def)
qed

text \<open>An address is on the chain of a key, at or past it, exactly when it is an advance of it.\<close>

lemma same_chain_iff: "same_chain k t \<longleftrightarrow> tumbler_len k = tumbler_len t \<and> butlast (comps k) = butlast (comps t)"
proof -
  have zip: "length xs = length ys \<Longrightarrow> list_all (\<lambda>(a, b). a = b) (zip xs ys) \<longleftrightarrow> xs = ys" for xs ys :: "nat list"
    by (induction xs ys rule: list_induct2) auto
  show ?thesis
  proof (cases "tumbler_len k = tumbler_len t")
    case True
    then have len: "length (comps k) = length (comps t)" by (simp add: tumbler_len_def)
    then have "length (butlast (comps k)) = length (butlast (comps t))" by simp
    moreover have "take (tumbler_len k - 1) (zip (comps k) (comps t)) =
        zip (butlast (comps k)) (butlast (comps t))"
      using len by (simp add: take_zip butlast_conv_take tumbler_len_def)
    ultimately show ?thesis using True zip by (simp add: same_chain_def)
  qed (simp add: same_chain_def)
qed

lemma chain_advance_iff:
  "same_chain k t \<and> ordinal k \<le> ordinal t \<longleftrightarrow> t = advance k (ordinal t - ordinal k)"
proof
  assume a: "same_chain k t \<and> ordinal k \<le> ordinal t"
  then have "comps (advance k (ordinal t - ordinal k)) = butlast (comps t) @ [last (comps t)]"
    by (simp add: same_chain_iff ordinal_def)
  then show "t = advance k (ordinal t - ordinal k)" by (simp flip: comps_inject)
next
  assume t: "t = advance k (ordinal t - ordinal k)"
  have "same_chain k t" by (subst t) (simp add: same_chain_iff)
  moreover have "ordinal t = ordinal k + (ordinal t - ordinal k)"
    by (subst (1) t) simp
  ultimately show "same_chain k t \<and> ordinal k \<le> ordinal t" by simp
qed

lemma offset_in_eq [returns]:
  assumes "len < 2 ^ 64"
  shows "offset_in k len t = ret (if \<exists>i < len. t = advance k i then Some (ordinal t - ordinal k) else None)"
proof (cases "same_chain k t \<and> ordinal k \<le> ordinal t")
  case True
  let ?i = "ordinal t - ordinal k"
  have t: "t = advance k ?i" using True chain_advance_iff by blast
  have "(\<exists>i < len. t = advance k i) \<longleftrightarrow> ?i < len" by (metis t advance_inject)
  then show ?thesis using True assms by (auto simp: offset_in_def usize_try_from_def not_less)
next
  case False
  have "\<nexists>i. t = advance k i"
  proof
    assume "\<exists>i. t = advance k i"
    then obtain i where "t = advance k i" ..
    then have "t = advance k (ordinal t - ordinal k)" by simp
    then show False using False chain_advance_iff by blast
  qed
  then show ?thesis using False by (auto simp: offset_in_def not_le)
qed

lemma cells_of_distinct: "distinct (map fst (cells_of e))"
  by (cases e rule: wf_entry.cases) (auto simp: distinct_map inj_on_def)

lemma cells_distinct:
  assumes "wf_store c"
  shows "distinct (map fst (cells c))"
proof -
  have "distinct (map fst (concat (map cells_of es)))" if "sorted_wrt precedes es" "\<forall>e \<in> set es. wf_entry e" for es
    using that
  proof (induction es)
    case (Cons e es)
    have "t < u" if "(t, p) \<in> set (cells_of e)" "f \<in> set es" "(u, q) \<in> set (cells_of f)" for t p u q f
      using precedes_extent [of e f t] Cons.prems(1) that cells_in_extent key_le_extent
      by (metis less_le_trans sorted_wrt.simps(2))
    then show ?case using Cons cells_of_distinct [of e] by fastforce
  qed simp
  then show ?thesis using assms by (simp add: cells_def wf_store_def)
qed

lemma content_Some_iff:
  assumes "wf_store c"
  shows "content c t = Some p \<longleftrightarrow> (\<exists>e \<in> set (entries c). (t, p) \<in> set (cells_of e))"
  using cells_distinct [OF assms] by (simp add: content_def) (auto simp: cells_def)

definition cell_at :: "entry \<Rightarrow> tumbler \<Rightarrow> piece option" where
  "cell_at e t = map_of (cells_of e) t"

lemma cell_at_Some_iff: "cell_at e t = Some p \<longleftrightarrow> (t, p) \<in> set (cells_of e)"
  using cells_of_distinct [of e] by (simp add: cell_at_def)

lemma content_at_or_below:
  assumes "wf_store c"
  shows "content c t = (case at_or_below c t of None \<Rightarrow> None | Some e \<Rightarrow> cell_at e t)"
proof -
  show ?thesis
  proof (cases "content c t")
    case (Some p)
    then obtain e where "e \<in> set (entries c)" "(t, p) \<in> set (cells_of e)"
      using content_Some_iff [OF assms] by blast
    then have "at_or_below c t = Some e" "cell_at e t = Some p"
      using at_or_below_unique [OF assms] cells_in_extent by (auto simp: cell_at_Some_iff)
    then show ?thesis using Some by simp
  next
    case None
    have "cell_at e t = None" if "at_or_below c t = Some e" for e
      using None at_or_below_in [OF that] content_Some_iff [OF assms, of t]
      by (metis cell_at_Some_iff not_None_eq)
    then show ?thesis using None by (simp split: option.split)
  qed
qed

lemma cell_at_Stretch:
  "cell_at (k, Stretch bs) t =
     (if \<exists>i < length bs. t = advance (tumbler k) i
      then Some (Bytes [bs ! (ordinal t - ordinal (tumbler k))]) else None)"
proof (cases "\<exists>i < length bs. t = advance (tumbler k) i")
  case True
  then obtain i where i: "i < length bs" "t = advance (tumbler k) i" by blast
  then have "cell_at (k, Stretch bs) t = Some (Bytes [bs ! i])"
    unfolding cell_at_Some_iff by auto
  then show ?thesis using True i by simp
next
  case False
  have "cell_at (k, Stretch bs) t \<noteq> Some p" for p
    unfolding cell_at_Some_iff using False by auto
  then show ?thesis using False by (metis not_None_eq)
qed

lemma value_at_eq [returns]:
  assumes "wf_store c"
  shows "value_at c t = ret (content c t)"
proof (cases "at_or_below c t")
  case None
  then show ?thesis by (simp add: value_at_def content_at_or_below [OF assms])
next
  case (Some e)
  have wf: "wf_entry e" using wf_storeD(1) [OF assms at_or_below_in [OF Some]] .
  show ?thesis
  proof (cases e rule: wf_entry.cases)
    case (1 k v)
    then show ?thesis using Some
      by (simp add: value_at_def content_at_or_below [OF assms] cell_at_def)
  next
    case (2 k bs)
    have len: "length bs < 2 ^ 64" using wf 2 by simp
    have sl: "i < length bs \<Longrightarrow> subslice bs i (i + 1) = ret [bs ! i]" for i
      by (simp add: subslice_def take_Suc_conv_app_nth Cons_nth_drop_Suc [symmetric])
    show ?thesis
    proof (cases "\<exists>i < length bs. t = advance (tumbler k) i")
      case True
      then obtain i where "i < length bs" "t = advance (tumbler k) i" by blast
      then show ?thesis using Some 2 sl [of i] offset_in_eq [OF len, of "tumbler k" t] True
        by (simp add: value_at_def content_at_or_below [OF assms] cell_at_Stretch)
    next
      case False
      then have "offset_in (tumbler k) (length bs) t = ret None"
        using offset_in_eq [OF len, of "tumbler k" t] by (simp only: if_False)
      moreover have "cell_at (k, Stretch bs) t = None" using False by (simp only: cell_at_Stretch if_False)
      ultimately show ?thesis using Some 2
        by (simp add: value_at_def content_at_or_below [OF assms])
    qed
  qed
qed

lemma content_covered:
  assumes "wf_store c" "content c t = Some p"
  shows "\<exists>e \<in> set (entries c). t \<in> extent e"
  using assms content_Some_iff cells_in_extent by blast

section \<open>The folds\<close>

lemma omap_update_insert:
  assumes "sorted_wrt precedes es" "\<forall>e \<in> set es. wf_entry e" "wf_entry (k, st)"
    and "\<forall>e \<in> set es. extent e \<inter> {tumbler k} = {}"
    and "\<forall>e \<in> set es. key e \<notin> extent (k, st)"
  shows "set (omap_update k st es) = insert (k, st) (set es)" "sorted_wrt precedes (omap_update k st es)"
proof -
  have "set (omap_update k st es) = insert (k, st) (set es) \<and> sorted_wrt precedes (omap_update k st es)"
    using assms
  proof (induction es)
    case (Cons f es)
    obtain k' st' where f: "f = (k', st')" by (cases f)
    have wf: "wf_entry f" using Cons.prems(2) by simp
    have ne: "tumbler k \<noteq> tumbler k'"
      using Cons.prems(4) key_in_extent [OF wf] f by auto
    show ?case
    proof (cases "tumbler k < tumbler k'")
      case True
      have "precedes (k, st) g" if g: "g \<in> set (f # es)" for g
        unfolding precedes_iff [OF Cons.prems(3)]
      proof
        fix t assume t: "t \<in> extent (k, st)"
        have "g = f \<or> precedes f g" using g Cons.prems(1) by auto
        then have "key f \<le> key g" using precedes_key [OF wf, of g] by auto
        then have lt: "tumbler k < key g" using True f by simp
        have out: "key g \<notin> extent (k, st)" using Cons.prems(5) g by blast
        show "t < key g" using t lt out by (cases st) auto
      qed
      then show ?thesis using True f Cons.prems(1) by simp
    next
      case False
      then have less: "tumbler k' < tumbler k" using ne by simp
      have ih: "set (omap_update k st es) = insert (k, st) (set es)" "sorted_wrt precedes (omap_update k st es)"
        using Cons by simp_all
      have "tumbler k \<notin> extent f" using Cons.prems(4) by auto
      then have "precedes f (k, st)" using less f by (cases st') auto
      then show ?thesis using False ne ih f Cons.prems(1) by auto
    qed
  qed simp
  then show "set (omap_update k st es) = insert (k, st) (set es)" "sorted_wrt precedes (omap_update k st es)"
    by blast+
qed

lemma omap_update_store:
  assumes "wf_store c" "wf_entry (k, st)"
    and "\<forall>e \<in> set (entries c). tumbler k \<notin> extent e" "\<forall>e \<in> set (entries c). key e \<notin> extent (k, st)"
  shows "wf_store (ContentStore (omap_update k st (entries c)))"
    "set (omap_update k st (entries c)) = insert (k, st) (set (entries c))"
    "content (ContentStore (omap_update k st (entries c))) = content c ++ cell_at (k, st)"
    "dom (content c) \<inter> dom (cell_at (k, st)) = {}"
proof -
  let ?c = "ContentStore (omap_update k st (entries c))"
  have *: "set (omap_update k st (entries c)) = insert (k, st) (set (entries c))"
    "sorted_wrt precedes (omap_update k st (entries c))"
    using omap_update_insert [of "entries c" k st] assms wf_storeD by auto
  show wf: "wf_store ?c" using * assms(1,2) by (auto simp: wf_store_def)
  show "set (omap_update k st (entries c)) = insert (k, st) (set (entries c))" by (rule *(1))
  show disj: "dom (content c) \<inter> dom (cell_at (k, st)) = {}"
  proof (rule ccontr)
    assume "dom (content c) \<inter> dom (cell_at (k, st)) \<noteq> {}"
    then obtain t p q where "content c t = Some p" "cell_at (k, st) t = Some q" by auto
    then have "content ?c t = Some p" "(k, st) \<in> set (entries ?c)" "(t, q) \<in> set (cells_of (k, st))"
      using * by (auto simp: content_Some_iff [OF wf] content_Some_iff [OF assms(1)] cell_at_Some_iff)
    moreover obtain e where e: "e \<in> set (entries c)" "t \<in> extent e"
      using content_covered [OF assms(1) \<open>content c t = Some p\<close>] by blast
    ultimately have "at_or_below ?c t = Some e" "at_or_below ?c t = Some (k, st)"
      using at_or_below_unique [OF wf] cells_in_extent * by auto
    then have "e = (k, st)" by simp
    then show False using e(1) assms(3) key_in_extent [OF assms(2)] by auto
  qed
  have "content ?c t = Some p \<longleftrightarrow> (content c ++ cell_at (k, st)) t = Some p" for t p
  proof -
    have "content ?c t = Some p \<longleftrightarrow> content c t = Some p \<or> cell_at (k, st) t = Some p"
      using * by (auto simp: content_Some_iff [OF wf] content_Some_iff [OF assms(1)] cell_at_Some_iff)
    also have "\<dots> \<longleftrightarrow> (content c ++ cell_at (k, st)) t = Some p"
      using disj by (auto simp: map_add_Some_iff)
    finally show ?thesis .
  qed
  then show "content ?c = content c ++ cell_at (k, st)" by (metis ext not_None_eq)
qed

lemma holds_a_key_in_eq:
  assumes "wf_store c"
  shows "holds_a_key_in c a r \<longleftrightarrow> (\<exists>e \<in> set (entries c). a \<le> key e \<and> key e < r)"
proof (cases "filter (\<lambda>(k, st). a \<le> tumbler k) (entries c)")
  case Nil
  then show ?thesis by (auto simp: holds_a_key_in_def filter_empty_conv)
next
  case (Cons f fs)
  have "sorted_wrt precedes (f # fs)"
    using sorted_wrt_filter [OF wf_storeD(2) [OF assms]] Cons by metis
  moreover have f: "f \<in> set (entries c)" "a \<le> key f" using Cons by (metis (no_types, lifting) case_prod_unfold filter_eq_Cons_iff in_set_conv_decomp)+
  moreover have "wf_entry f" using wf_storeD(1) [OF assms f(1)] .
  ultimately have first: "\<forall>e \<in> set (f # fs). key f \<le> key e"
    using precedes_key [of f] by (auto simp: less_imp_le)
  have mem: "e \<in> set (f # fs) \<longleftrightarrow> e \<in> set (entries c) \<and> a \<le> key e" for e
    unfolding Cons [symmetric] by (simp add: case_prod_unfold)
  have "holds_a_key_in c a r \<longleftrightarrow> key f < r" using Cons by (simp add: holds_a_key_in_def case_prod_unfold)
  also have "\<dots> \<longleftrightarrow> (\<exists>e \<in> set (f # fs). key e < r)" using first by (meson le_less_trans list.set_intros(1))
  also have "\<dots> \<longleftrightarrow> (\<exists>e \<in> set (entries c). a \<le> key e \<and> key e < r)" using mem by blast
  finally show ?thesis .
qed

datatype content_rec = WriteRec content_write | StretchRec content_stretch

fun rec_entry :: "content_rec \<Rightarrow> entry" where
  "rec_entry (WriteRec r) = (cw_addr r, Value (cw_val r))"
| "rec_entry (StretchRec r) = (cs_first r, Stretch (cs_bytes r))"

fun content_fold :: "bool \<Rightarrow> content_store \<Rightarrow> content_rec \<Rightarrow> content_store exec" where
  "content_fold dbg c (WriteRec r) = apply_write dbg c r"
| "content_fold dbg c (StretchRec r) = apply_stretch dbg c r"

definition fresh :: "content_store \<Rightarrow> entry \<Rightarrow> bool" where
  "fresh c e \<longleftrightarrow> (\<forall>f \<in> set (entries c). key e \<notin> extent f) \<and> (\<forall>f \<in> set (entries c). key f \<notin> extent e)"

lemma fresh_Value:
  assumes "wf_store c"
  shows "fresh c (k, Value v) \<longleftrightarrow> (\<forall>f \<in> set (entries c). tumbler k \<notin> extent f)"
  using key_in_extent wf_storeD(1) [OF assms] by (fastforce simp: fresh_def)

lemma content_fold_eq [returns]:
  assumes "wf_store c" "wf_entry (rec_entry r)"
  shows "content_fold dbg c r =
    (if fresh c (rec_entry r)
     then ret (ContentStore (omap_update (fst (rec_entry r)) (snd (rec_entry r)) (entries c)))
     else if dbg then panic else ret c)"
proof (cases r)
  case (WriteRec w)
  then show ?thesis using assms
    by (simp add: apply_write_def store_contains_eq fresh_Value)
next
  case (StretchRec w)
  let ?k = "tumbler (cs_first w)"
  have "fresh c (rec_entry r) \<longleftrightarrow> \<not> (\<exists>e \<in> set (entries c). ?k \<in> extent e) \<and>
      \<not> holds_a_key_in c ?k (advance ?k (length (cs_bytes w)))"
    using StretchRec by (auto simp: fresh_def holds_a_key_in_eq [OF assms(1)])
  then show ?thesis using StretchRec assms
    by (simp add: apply_stretch_def store_contains_eq stretch_reach_def)
qed

lemma content_fold_fresh:
  assumes "wf_store c" "wf_entry (rec_entry r)" "fresh c (rec_entry r)"
  obtains c' where "content_fold dbg c r = ret c'" "wf_store c'"
    "content c' = content c ++ cell_at (rec_entry r)" "dom (content c) \<inter> dom (cell_at (rec_entry r)) = {}"
    "set (entries c') = insert (rec_entry r) (set (entries c))"
proof -
  obtain k st where e: "rec_entry r = (k, st)" by (cases "rec_entry r")
  have "\<forall>f \<in> set (entries c). tumbler k \<notin> extent f" "\<forall>f \<in> set (entries c). key f \<notin> extent (k, st)"
    using assms(3) e by (auto simp: fresh_def)
  note u = omap_update_store [OF assms(1) assms(2) [unfolded e] this]
  show thesis using that [of "ContentStore (omap_update k st (entries c))"] u e
      content_fold_eq [OF assms(1,2), of dbg] assms(3) by simp
qed

interpretation permascroll: write_once wf_store content "\<lambda>r. wf_entry (rec_entry r)"
  "\<lambda>r. cell_at (rec_entry r)" "\<lambda>c r. fresh c (rec_entry r)" "content_fold False"
proof (unfold_locales, goal_cases)
  case (1 c r)
  then show ?case by (metis content_fold_fresh)
next
  case (2 c r)
  then show ?case by (simp add: content_fold_eq)
next
  case (3 c r c')
  then have "rec_entry r \<in> set (entries c')"
    using content_fold_fresh [OF 3(1,2,3), of False] by (metis insertI1 option.inject)
  then show ?case using key_in_extent [OF 3(2)] by (auto simp: fresh_def)
next
  case (4 c r q c')
  have "set (entries c) \<subseteq> set (entries c')"
  proof (cases "fresh c (rec_entry r)")
    case True
    then show ?thesis using content_fold_fresh [OF 4(1,2) True, of False] 4(5)
      by (metis option.inject subset_insertI)
  next
    case False
    then show ?thesis using content_fold_eq [OF 4(1,2), of False] 4(5) by simp
  qed
  then show ?case using 4(4) by (auto simp: fresh_def)
qed

section \<open>The staging doors\<close>

lemma stage_write_eq [returns]:
  assumes "wf_store c" "debug_assert_content_address_routing dbg a = ret ()"
  shows "stage_write dbg c a v =
    ret (if fresh c (a, Value v) then Ok \<lparr>cw_addr = a, cw_val = v\<rparr> else Err (AlreadyStored (tumbler a)))"
  using assms by (simp add: stage_write_def store_contains_eq fresh_Value)

lemma stage_stretch_eq [returns]:
  assumes "wf_store c" "debug_assert_content_address_routing dbg a = ret ()" "bs \<noteq> []"
  shows "stage_stretch dbg c a bs =
    ret (if \<exists>e \<in> set (entries c). tumbler a \<in> extent e then Err (AlreadyStored (tumbler a))
         else if fresh c (a, Stretch bs) then Ok \<lparr>cs_first = a, cs_bytes = bs\<rparr>
         else Err (Overlap (tumbler a) (advance (tumbler a) (length bs))))"
proof -
  have "\<not> (\<exists>e \<in> set (entries c). tumbler a \<in> extent e) \<Longrightarrow>
    holds_a_key_in c (tumbler a) (advance (tumbler a) (length bs)) \<longleftrightarrow> \<not> fresh c (a, Stretch bs)"
    by (auto simp: fresh_def holds_a_key_in_eq [OF assms(1)])
  then show ?thesis using assms by (simp add: stage_stretch_def store_contains_eq)
qed

section \<open>The range walk\<close>

fun piece_cells :: "piece \<Rightarrow> piece list" where
  "piece_cells (Bytes bs) = map (\<lambda>b. Bytes [b]) bs"
| "piece_cells (PieceValue v) = [PieceValue v]"

lemma content_cell_at:
  "wf_store c \<Longrightarrow> content c t = Some p \<longleftrightarrow> (\<exists>e \<in> set (entries c). cell_at e t = Some p)"
  by (simp add: content_Some_iff cell_at_Some_iff)

lemma cell_at_Value: "cell_at (k, Value v) t = (if t = tumbler k then Some (PieceValue v) else None)"
  by (simp add: cell_at_def)

lemma advance_self_iff: "advance t k = t \<longleftrightarrow> k = 0"
  using advance_inject [of t k 0] by simp

text \<open>What one step lends at the cursor: the cells of the entry from there on, up to the width.\<close>

definition lends :: "entry \<Rightarrow> tumbler \<Rightarrow> nat \<Rightarrow> piece \<Rightarrow> nat \<Rightarrow> bool" where
  "lends e cur n p m \<longleftrightarrow> 0 < m \<and> m \<le> n \<and> (\<forall>k < m. cell_at e (advance cur k) \<noteq> None) \<and>
     piece_cells p = map (\<lambda>k. the (cell_at e (advance cur k))) [0..<m] \<and>
     (m < n \<longrightarrow> (\<forall>k. cell_at e (advance cur (m + k)) = None))"

lemma covering_Stretch:
  assumes "wf_entry (k, Stretch bs)" "0 < n" "i < length bs"
  shows "\<exists>p m. covering (k, Stretch bs) (advance (tumbler k) i) n = ret (Some (p, m)) \<and>
    lends (k, Stretch bs) (advance (tumbler k) i) n p m"
proof -
  let ?e = "(k, Stretch bs)" and ?cur = "advance (tumbler k) i"
  let ?m = "min n (length bs - i)"
  have len: "length bs < 2 ^ 64" using assms(1) by simp
  have "(case usize_try_from n of None \<Rightarrow> length bs - i | Some n \<Rightarrow> min n (length bs - i)) = ?m"
    using len assms(3) by (auto simp: usize_try_from_def)
  moreover have "offset_in (tumbler k) (length bs) ?cur = ret (Some i)"
    using assms(3) offset_in_eq [OF len, of "tumbler k" ?cur] by simp
  moreover have "subslice bs i (i + ?m) = ret (take ?m (drop i bs))"
    using assms(3) by (simp add: subslice_def)
  ultimately have "covering ?e ?cur n = ret (Some (Bytes (take ?m (drop i bs)), ?m))"
    using assms(3) by (simp add: covering_def Let_def)
  moreover have at: "cell_at ?e (advance ?cur j) = (if i + j < length bs then Some (Bytes [bs ! (i + j)]) else None)" for j
    by (simp add: cell_at_Stretch)
  have "piece_cells (Bytes (take ?m (drop i bs))) = map (\<lambda>j. the (cell_at ?e (advance ?cur j))) [0..<?m]"
    unfolding at using assms(3) by (intro nth_equalityI) auto
  then have "lends ?e ?cur n (Bytes (take ?m (drop i bs))) ?m"
    unfolding lends_def at using assms(2,3) by auto
  ultimately show ?thesis by blast
qed

lemma covering_spec:
  assumes "wf_entry e" "0 < n"
  shows "\<exists>x. covering e cur n = ret x \<and>
    (case x of None \<Rightarrow> cell_at e cur = None | Some (p, m) \<Rightarrow> lends e cur n p m)"
proof (cases e rule: wf_entry.cases)
  case (1 k v)
  have "lends e cur n (PieceValue v) 1" if "tumbler k = cur"
    using that 1 assms(2) by (auto simp: lends_def cell_at_Value advance_self_iff)
  then show ?thesis using 1 by (auto simp: covering_def cell_at_Value)
next
  case (2 k bs)
  show ?thesis
  proof (cases "\<exists>i < length bs. cur = advance (tumbler k) i")
    case True
    then show ?thesis using covering_Stretch [of k bs n] assms 2 by fastforce
  next
    case False
    have "length bs < 2 ^ 64" using assms(1) 2 by simp
    then have "offset_in (tumbler k) (length bs) cur = ret None"
      using False by (simp only: offset_in_eq if_False)
    moreover have "cell_at e cur = None" using False 2 by (simp only: cell_at_Stretch if_False)
    ultimately show ?thesis using 2 by (simp add: covering_def)
  qed
qed

text \<open>An entry below the cursor that does not hold it holds nothing after it on its chain.\<close>

lemma cell_at_below:
  assumes "cell_at e cur = None" "key e < cur"
  shows "cell_at e (advance cur k) = None"
proof (cases e rule: wf_entry.cases)
  case (1 a v)
  have "cur \<le> advance cur k" by simp
  then have "tumbler a < advance cur k" using assms(2) 1 by (metis fst_conv less_le_trans)
  then show ?thesis using 1 by (auto simp: cell_at_Value)
next
  case (2 a bs)
  have "advance cur k \<noteq> advance (tumbler a) i" if "i < length bs" for i
  proof
    assume eq: "advance cur k = advance (tumbler a) i"
    then have ord: "ordinal cur + k = ordinal (tumbler a) + i" by (metis ordinal_advance)
    have chain: "same_chain (tumbler a) cur"
      using arg_cong [OF eq, of comps] arg_cong [OF eq, of tumbler_len] by (simp add: same_chain_iff)
    have "ordinal (tumbler a) \<le> ordinal cur"
    proof (rule ccontr)
      assume "\<not> ordinal (tumbler a) \<le> ordinal cur"
      then have "butlast (comps cur) @ [last (comps cur)] < butlast (comps (tumbler a)) @ [last (comps (tumbler a))]"
        using chain by (simp only: same_chain_iff ordinal_def append_less_append_iff) simp
      then show False using assms(2) 2 by (simp add: less_tumbler_def)
    qed
    then have cur: "cur = advance (tumbler a) (ordinal cur - ordinal (tumbler a))"
      using chain chain_advance_iff by blast
    have "ordinal cur - ordinal (tumbler a) < length bs" using ord that by simp
    then have "\<exists>j < length bs. cur = advance (tumbler a) j" using cur by blast
    then show False using assms(1) 2 by (simp add: cell_at_Stretch)
  qed
  then show ?thesis using 2 by (auto simp: cell_at_Stretch)
qed

lemma cell_at_after: "cur < key e \<Longrightarrow> cell_at e cur = None"
  by (metis cell_at_Some_iff cells_in_extent key_le_extent not_None_eq not_le)

lemma pieces_scan_spec:
  assumes "\<forall>e \<in> set es. wf_entry e" "sorted_wrt precedes es" "0 < n"
  shows "\<exists>x. pieces_scan es cur n = ret x \<and>
    (case x of
       None \<Rightarrow> \<forall>e \<in> set es. cell_at e cur = None
     | Some (p, m, fs) \<Rightarrow> \<exists>us e. es = us @ e # fs \<and> lends e cur n p m \<and>
         (\<forall>u \<in> set us. \<forall>k. cell_at u (advance cur k) = None))"
  using assms
proof (induction es)
  case (Cons e es)
  obtain x where x: "covering e cur n = ret x"
    "case x of None \<Rightarrow> cell_at e cur = None | Some (p, m) \<Rightarrow> lends e cur n p m"
    using covering_spec [of e n cur] Cons.prems by auto
  show ?case
  proof (cases x)
    case (Some y)
    obtain p m where y: "y = (p, m)" by (cases y)
    then have "e # es = [] @ e # es \<and> lends e cur n p m \<and>
        (\<forall>u \<in> set []. \<forall>k. cell_at u (advance cur k) = None)" using x(2) Some by simp
    then have "case Some (p, m, es) of
         None \<Rightarrow> \<forall>f \<in> set (e # es). cell_at f cur = None
       | Some (p, m, fs) \<Rightarrow> \<exists>us f. e # es = us @ f # fs \<and> lends f cur n p m \<and>
           (\<forall>u \<in> set us. \<forall>k. cell_at u (advance cur k) = None)"
      unfolding option.case prod.case by blast
    moreover have "pieces_scan (e # es) cur n = ret (Some (p, m, es))" using x(1) Some y by simp
    ultimately show ?thesis by blast
  next
    case None
    then have none: "cell_at e cur = None" using x by simp
    show ?thesis
    proof (cases "key e < cur")
      case True
      obtain y where y: "pieces_scan es cur n = ret y"
        "case y of
           None \<Rightarrow> \<forall>e \<in> set es. cell_at e cur = None
         | Some (p, m, fs) \<Rightarrow> \<exists>us e. es = us @ e # fs \<and> lends e cur n p m \<and>
             (\<forall>u \<in> set us. \<forall>k. cell_at u (advance cur k) = None)"
        using Cons.IH Cons.prems by auto
      have "case y of
           None \<Rightarrow> \<forall>f \<in> set (e # es). cell_at f cur = None
         | Some (p, m, fs) \<Rightarrow> \<exists>us f. e # es = us @ f # fs \<and> lends f cur n p m \<and>
             (\<forall>u \<in> set us. \<forall>k. cell_at u (advance cur k) = None)"
      proof (cases y)
        case None
        then show ?thesis using y(2) none by simp
      next
        case (Some z)
        obtain p m fs where z: "z = (p, m, fs)" by (cases z)
        then obtain us f where "es = us @ f # fs" "lends f cur n p m"
          "\<forall>u \<in> set us. \<forall>k. cell_at u (advance cur k) = None" using y(2) Some by auto
        then have "e # es = (e # us) @ f # fs \<and> lends f cur n p m \<and>
            (\<forall>u \<in> set (e # us). \<forall>k. cell_at u (advance cur k) = None)"
          using cell_at_below [OF none True] by simp
        then show ?thesis unfolding Some z option.case prod.case by blast
      qed
      then show ?thesis using x(1) None True y(1) by simp
    next
      case False
      have "cell_at f cur = None" if "f \<in> set es" for f
      proof -
        have "key e < key f" using that Cons.prems(1,2) precedes_key [of e f] by simp
        moreover have "cur \<le> key e" using False by simp
        ultimately show ?thesis using cell_at_after le_less_trans by blast
      qed
      then show ?thesis using x(1) None none False by auto
    qed
  qed
qed simp

text \<open>What a drained walk has delivered: the values from the cursor up to the first gap.\<close>

definition delivers :: "content_store \<Rightarrow> tumbler \<Rightarrow> nat \<Rightarrow> piece list \<Rightarrow> nat \<Rightarrow> bool" where
  "delivers c cur n ps left \<longleftrightarrow> left \<le> n \<and>
     (\<forall>k < n - left. content c (advance cur k) \<noteq> None) \<and>
     concat (map piece_cells ps) = map (\<lambda>k. the (content c (advance cur k))) [0..<n - left] \<and>
     (0 < left \<longrightarrow> content c (advance cur (n - left)) = None)"

lemma delivers_step:
  assumes "wf_store c" "e \<in> set (entries c)" "lends e cur n p m"
    and "delivers c (advance cur m) (n - m) ps left"
  shows "delivers c cur n (p # ps) left"
proof -
  have m: "0 < m" "m \<le> n" "\<forall>k < m. cell_at e (advance cur k) \<noteq> None"
    "piece_cells p = map (\<lambda>k. the (cell_at e (advance cur k))) [0..<m]"
    using assms(3) by (simp_all add: lends_def)
  have cell: "content c (advance cur k) = cell_at e (advance cur k)" if "k < m" for k
    using m(3) that content_cell_at [OF assms(1)] assms(2) by (metis not_None_eq)
  have d: "left \<le> n - m" "\<forall>k < n - m - left. content c (advance cur (m + k)) \<noteq> None"
    "concat (map piece_cells ps) = map (\<lambda>k. the (content c (advance cur (m + k)))) [0..<n - m - left]"
    "0 < left \<longrightarrow> content c (advance cur (m + (n - m - left))) = None"
    using assms(4) by (simp_all add: delivers_def)
  have some: "content c (advance cur k) \<noteq> None" if "k < n - left" for k
  proof (cases "k < m")
    case True
    then show ?thesis using cell m(3) by simp
  next
    case False
    then show ?thesis using d(2) [rule_format, of "k - m"] that by simp
  qed
  have split: "[0..<n - left] = [0..<m] @ map (\<lambda>k. m + k) [0..<n - m - left]"
  proof -
    have "[0..<n - left] = [0..<m] @ [m..<n - left]"
      using m(2) d(1) by (metis le_add_diff_inverse le_diff_conv2 upt_add_eq_append zero_le
          diff_le_mono2 le_diff_iff' add.commute diff_diff_cancel le_trans diff_le_self)
    also have "[m..<n - left] = map (\<lambda>k. m + k) [0..<n - m - left]"
      using m(2) d(1) by (intro nth_equalityI) auto
    finally show ?thesis .
  qed
  have "concat (map piece_cells (p # ps)) = map (\<lambda>k. the (content c (advance cur k))) [0..<n - left]"
    unfolding split using m(4) d(3) cell by (simp add: comp_def)
  moreover have "m + (n - m - left) = n - left" using m(2) d(1) by simp
  ultimately show ?thesis using some d(1,4) m(2) by (simp add: delivers_def)
qed

lemma pieces_drain_spec:
  assumes "wf_store c" "entries c = us @ es"
    and "0 < n \<Longrightarrow> \<forall>u \<in> set us. \<forall>k. cell_at u (advance cur k) = None"
  shows "\<exists>ps w. pieces_drain \<lparr>walk = Some es, cursor = cur, remaining = n\<rparr> = ret (ps, w) \<and>
    delivers c cur n ps (remaining w)"
  using assms(2,3)
proof (induction "length es" arbitrary: es us cur n rule: less_induct)
  case less
  let ?w = "\<lparr>walk = Some es, cursor = cur, remaining = n\<rparr>"
  show ?case
  proof (cases "n = 0")
    case True
    then have "pieces_drain ?w = ret ([], ?w)" by (simp add: pieces_drain.simps pieces_next_def)
    then show ?thesis using True by (simp add: delivers_def)
  next
    case False
    have wf: "\<forall>e \<in> set es. wf_entry e" "sorted_wrt precedes es"
      using assms(1) less.prems(1) by (auto simp: wf_store_def sorted_wrt_append)
    obtain x where x: "pieces_scan es cur n = ret x" "case x of
         None \<Rightarrow> \<forall>e \<in> set es. cell_at e cur = None
       | Some (p, m, fs) \<Rightarrow> \<exists>us e. es = us @ e # fs \<and> lends e cur n p m \<and>
           (\<forall>u \<in> set us. \<forall>k. cell_at u (advance cur k) = None)"
      using pieces_scan_spec [OF wf, of n cur] False by auto
    have before: "\<forall>u \<in> set us. \<forall>k. cell_at u (advance cur k) = None" using less.prems(2) False by simp
    show ?thesis
    proof (cases x)
      case None
      have "cell_at u cur = None" if "u \<in> set us" for u
        using before that advance_0 [of cur] by metis
      then have "\<forall>e \<in> set (entries c). cell_at e cur = None"
        using x(2) None less.prems(1) by auto
      then have "content c cur = None" using content_cell_at [OF assms(1), of cur] by (metis not_None_eq)
      then show ?thesis using x(1) None False
        by (simp add: pieces_drain.simps [of ?w] pieces_next_def delivers_def)
    next
      case (Some z)
      obtain p m fs where z: "z = (p, m, fs)" by (cases z)
      obtain vs e where e: "es = vs @ e # fs" "lends e cur n p m"
        "\<forall>u \<in> set vs. \<forall>k. cell_at u (advance cur k) = None" using x(2) Some z by auto
      have m: "m \<le> n" using e(2) by (simp add: lends_def)
      let ?v = "\<lparr>walk = Some fs, cursor = advance cur m, remaining = n - m\<rparr>"
      have "\<forall>u \<in> set (us @ vs @ [e]). \<forall>k. cell_at u (advance (advance cur m) k) = None" if "0 < n - m"
        using before e that by (auto simp: lends_def)
      then obtain ps w where "pieces_drain ?v = ret (ps, w)" "delivers c (advance cur m) (n - m) ps (remaining w)"
        using less.hyps [of fs "us @ vs @ [e]" "n - m" "advance cur m"] e(1) less.prems(1) by auto
      moreover have "pieces_next ?w = ret (Some p, ?v)"
        using x(1) Some z False m by (simp add: pieces_next_def)
      moreover have "e \<in> set (entries c)" using e(1) less.prems(1) by simp
      ultimately show ?thesis using delivers_step [OF assms(1) _ e(2)]
        by (simp add: pieces_drain.simps [of ?w])
    qed
  qed
qed

lemma store_pieces_spec:
  assumes "wf_store c"
  shows "\<exists>ps w. pieces_drain (store_pieces c s n) = ret (ps, w) \<and> delivers c s n ps (remaining w)"
proof (cases rule: at_or_below_cases [OF assms, of s, case_names none entry])
  case none
  have "content c s = None" using content_at_or_below [OF assms, of s] none(1) by simp
  then show ?thesis using none(1)
    by (cases "n = 0") (simp_all add: store_pieces_def pieces_drain.simps pieces_next_def delivers_def)
next
  case (entry us e vs)
  have wf: "wf_entry e" and sorted: "sorted_wrt precedes (us @ e # vs)"
    using assms entry(2) by (auto simp: wf_store_def)
  have lt: "u \<in> set us \<Longrightarrow> key u < key e" for u
    using assms entry(2) precedes_key [of u e] by (auto simp: wf_store_def sorted_wrt_append)
  have "filter (\<lambda>(k', st'). key e \<le> tumbler k') (entries c) = e # vs"
  proof -
    have "filter (\<lambda>x. key e \<le> key x) us = []" using lt by (auto simp: filter_empty_conv not_le)
    moreover have "filter (\<lambda>x. key e \<le> key x) vs = vs" using entry(3,4) by (auto simp: filter_id_conv)
    ultimately show ?thesis using entry(2) by (simp add: case_prod_unfold)
  qed
  then have pieces: "store_pieces c s n = \<lparr>walk = Some (e # vs), cursor = s, remaining = n\<rparr>"
    using entry(1) by (cases e) (simp add: store_pieces_def)
  have "cell_at u (advance s k) = None" if "u \<in> set us" for u k
  proof -
    have "precedes u e" using that sorted by (simp add: sorted_wrt_append)
    then have "t < key e" if "t \<in> extent u" for t using precedes_extent that by blast
    moreover have "key e \<le> advance s k" using entry(3) le_advance order_trans by blast
    ultimately have "advance s k \<notin> extent u" by (meson not_le)
    then show ?thesis by (metis cell_at_Some_iff cells_in_extent not_None_eq)
  qed
  then show ?thesis using pieces_drain_spec [OF assms entry(2), of n s] pieces by simp
qed

section \<open>The decoder\<close>

lemma omap_update_keys:
  assumes "sorted_wrt (<) (map key m)" "tumbler a \<notin> key ` set m"
  shows "set (omap_update a st m) = insert (a, st) (set m)" "sorted_wrt (<) (map key (omap_update a st m))"
proof -
  have "set (omap_update a st m) = insert (a, st) (set m) \<and> sorted_wrt (<) (map key (omap_update a st m))"
    using assms
  proof (induction m)
    case (Cons f m)
    obtain k' st' where f: "f = (k', st')" by (cases f)
    have ne: "tumbler a \<noteq> tumbler k'" using Cons.prems(2) f by auto
    have ih: "set (omap_update a st m) = insert (a, st) (set m)" "sorted_wrt (<) (map key (omap_update a st m))"
      using Cons by simp_all
    show ?case
    proof (cases "tumbler a < tumbler k'")
      case True
      then have "\<forall>e \<in> set m. tumbler a < key e" using Cons.prems(1) f less_trans by fastforce
      then show ?thesis using True f Cons.prems(1) by simp
    next
      case False
      then show ?thesis using ne f ih Cons.prems(1) by auto
    qed
  qed simp
  then show "set (omap_update a st m) = insert (a, st) (set m)"
    "sorted_wrt (<) (map key (omap_update a st m))" by blast+
qed

lemma omap_update_last:
  "\<forall>e \<in> set m. key e < tumbler a \<Longrightarrow> omap_update a st m = m @ [(a, st)]"
  by (induction m) auto

lemma read_entries_Ok:
  assumes "sorted_wrt (<) (map key m)" "\<forall>e \<in> set m. wf_address (fst e)"
    and "read_entries m body = ret (Ok out)"
  shows "sorted_wrt (<) (map key out) \<and> (\<forall>e \<in> set out. wf_address (fst e)) \<and>
    (\<lambda>(k, st). (tumbler k, st)) ` set out = (\<lambda>(k, st). (tumbler k, st)) ` set m \<union> set body"
  using assms
proof (induction body arbitrary: m)
  case (Cons b body)
  obtain t st where b: "b = (t, st)" by (cases b)
  obtain a where a: "validate t = ret (Ok a)" using Cons.prems(3) b
    by (auto simp: validate_eq split: if_splits)
  then have at: "tumbler a = t" "wf_address a" by (simp_all add: validate_Ok_iff)
  have fresh: "tumbler a \<notin> key ` set m" and rest: "read_entries (omap_update a st m) body = ret (Ok out)"
    using Cons.prems(3) b a at by (auto simp: comp_def split: if_splits)
  note u = omap_update_keys [OF Cons.prems(1) fresh, of st]
  have "sorted_wrt (<) (map key out) \<and> (\<forall>e \<in> set out. wf_address (fst e)) \<and>
    (\<lambda>(k, st). (tumbler k, st)) ` set out = (\<lambda>(k, st). (tumbler k, st)) ` set (omap_update a st m) \<union> set body"
    using Cons.IH [OF u(2) _ rest] u(1) Cons.prems(2) at(2) by simp
  then show ?case using u(1) b at(1) by auto
qed simp

lemma read_entries_in_order:
  assumes "sorted_wrt (<) (map key (m @ es))" "\<forall>e \<in> set es. wf_address (fst e)"
  shows "read_entries m (map (\<lambda>(k, st). (tumbler k, st)) es) = ret (Ok (m @ es))"
  using assms
proof (induction es arbitrary: m)
  case (Cons e es)
  obtain k st where e: "e = (k, st)" by (cases e)
  have "omap_update k st m = m @ [(k, st)]"
    using Cons.prems(1) e by (intro omap_update_last) (auto simp: sorted_wrt_append)
  moreover have "tumbler k \<notin> (tumbler \<circ> fst) ` set m"
    using Cons.prems(1) e by (auto simp: sorted_wrt_append image_iff)
  moreover have "validate (tumbler k) = ret (Ok k)" using Cons.prems(2) e by (simp add: validate_wf)
  ultimately show ?case using Cons.IH [of "m @ [e]"] Cons.prems e by simp
qed simp

text \<open>A body as it comes off the wire: every stretch is shorter than the address space.\<close>

definition addressable :: "(tumbler \<times> stored) list \<Rightarrow> bool" where
  "addressable body \<longleftrightarrow> (\<forall>(t, st) \<in> set body. stored_width st < 2 ^ 64)"

lemma ordered_pass_None_iff:
  assumes "sorted_wrt (<) (map key es)" "\<forall>e \<in> set es. wf_address (fst e)"
    and "\<forall>e \<in> set es. stored_width (snd e) < 2 ^ 64"
  shows "\<exists>f. ordered_pass es = ret f \<and>
    (f = None \<longleftrightarrow> (\<forall>e \<in> set es. wf_entry e) \<and> sorted_wrt precedes es)"
  using assms
proof (induction es rule: ordered_pass.induct)
  case (2 k v es)
  then show ?case by (auto simp: image_iff)
next
  case (3 k bs es)
  show ?case
  proof (cases "bs = []")
    case True
    then show ?thesis by simp
  next
    case False
    have wf: "wf_entry (k, Stretch bs)" using False "3.prems" by simp
    show ?thesis
    proof (cases es)
      case Nil
      then show ?thesis using False wf by simp
    next
      case (Cons f fs)
      obtain k' st' where f: "f = (k', st')" by (cases f)
      show ?thesis
      proof (cases "tumbler k' < advance (tumbler k) (length bs)")
        case True
        then have "ordered_pass ((k, Stretch bs) # es) = ret (Some OverlapsNeighbour)"
          using False Cons f by (simp add: stored_reach_def)
        then show ?thesis using True Cons f by (auto simp: not_le)
      next
        case reach: False
        have all: "\<forall>g \<in> set es. precedes (k, Stretch bs) g"
        proof
          fix g assume "g \<in> set es"
          then have "tumbler k' \<le> key g" using "3.prems"(1) Cons f by (auto simp: less_imp_le)
          then show "precedes (k, Stretch bs) g" using reach by (simp add: not_less)
        qed
        obtain r where r: "ordered_pass es = ret r"
          "r = None \<longleftrightarrow> (\<forall>e \<in> set es. wf_entry e) \<and> sorted_wrt precedes es"
          using "3.IH"(2) [OF False Cons f [symmetric]] "3.prems" reach by (auto simp: stored_reach_def)
        have "ordered_pass ((k, Stretch bs) # es) = ordered_pass es"
          using False Cons f reach by (simp add: stored_reach_def)
        then show ?thesis using r all wf by simp
      qed
    qed
  qed
qed simp

lemma entry_by_entry_Ok:
  assumes "addressable body" "entry_by_entry body = ret (Ok c)"
  shows "wf_store c" "set (in_tumbler_order c) = set body"
proof -
  obtain m where m: "read_entries [] body = ret (Ok m)" and pass: "ordered_pass m = ret None"
    and c: "c = ContentStore m"
    using assms(2) by (auto simp: entry_by_entry_def split: bind_splits sum.splits option.splits)
  have r: "sorted_wrt (<) (map key m)" "\<forall>e \<in> set m. wf_address (fst e)"
    "(\<lambda>(k, st). (tumbler k, st)) ` set m = set body"
    using read_entries_Ok [of "[]" body m] m by simp_all
  have "\<forall>e \<in> set m. stored_width (snd e) < 2 ^ 64"
  proof
    fix e assume "e \<in> set m"
    then have "(key e, snd e) \<in> set body" using r(3) by (force simp: case_prod_unfold)
    then show "stored_width (snd e) < 2 ^ 64" using assms(1) by (auto simp: addressable_def)
  qed
  then show "wf_store c" using ordered_pass_None_iff [OF r(1,2)] pass c by (auto simp: wf_store_def)
  show "set (in_tumbler_order c) = set body" using r(3) c by (simp add: in_tumbler_order_def)
qed

lemma wf_store_keys: "wf_store c \<Longrightarrow> sorted_wrt (<) (map key (entries c))"
  unfolding sorted_wrt_map
  by (rule sorted_wrt_mono_rel [of _ precedes]) (auto simp: wf_store_def intro: precedes_key)

lemma entry_by_entry_in_tumbler_order:
  assumes "wf_store c"
  shows "entry_by_entry (in_tumbler_order c) = ret (Ok c)"
proof -
  have wf: "\<forall>e \<in> set (entries c). wf_entry e" "sorted_wrt precedes (entries c)"
    using assms by (simp_all add: wf_store_def)
  have addr: "\<forall>e \<in> set (entries c). wf_address (fst e)" using wf(1) wf_entry_key by blast
  have "read_entries [] (in_tumbler_order c) = ret (Ok (entries c))"
    using read_entries_in_order [of "[]" "entries c"] wf_store_keys [OF assms] addr
    by (simp add: in_tumbler_order_def)
  moreover have "\<forall>e \<in> set (entries c). stored_width (snd e) < 2 ^ 64"
  proof
    fix e assume "e \<in> set (entries c)"
    then show "stored_width (snd e) < 2 ^ 64" using wf(1) by (cases e rule: wf_entry.cases) auto
  qed
  then have "ordered_pass (entries c) = ret None"
    using ordered_pass_None_iff [OF wf_store_keys [OF assms] addr] wf by auto
  ultimately show ?thesis by (simp add: entry_by_entry_def)
qed

section \<open>Properties\<close>

text \<open>
  C19: content is write-once under any journal. Folding any sequence of value and stretch records
  into a legal slice never panics in a release build and leaves a legal slice; every address that
  held a value holds that value afterwards; and folding the same journal again changes nothing.
\<close>

theorem content_write_once:
  assumes "wf_store c" "\<forall>r \<in> set rs. wf_entry (rec_entry r)"
  shows "\<exists>c'. exec_fold (content_fold False) c rs = ret c' \<and> wf_store c' \<and>
    (\<forall>t p. value_at c t = ret (Some p) \<longrightarrow> value_at c' t = ret (Some p)) \<and>
    exec_fold (content_fold False) c' rs = ret c'"
proof -
  obtain c' where c': "exec_fold (content_fold False) c rs = ret c'" "wf_store c'"
    "content c \<subseteq>\<^sub>m content c'" using permascroll.replay_keeps [OF assms] by blast
  moreover have "exec_fold (content_fold False) c' rs = ret c'"
    by (rule permascroll.replay_idem [OF assms c'(1)])
  moreover have "\<forall>t p. value_at c t = ret (Some p) \<longrightarrow> value_at c' t = ret (Some p)"
    using c'(3) by (auto simp: value_at_eq [OF assms(1)] value_at_eq [OF c'(2)] map_le_def dom_def)
  ultimately show ?thesis by blast
qed

text \<open>Sample slice: one stretch of three bytes.\<close>

definition sample_store :: content_store where
  "sample_store = ContentStore [(sample_elem, Stretch [7, 8, 9])]"

lemma wf_sample_store [simp]: "wf_store sample_store"
  by (simp add: sample_store_def wf_store_def)

theorem content_write_once_witness:
  "\<exists>c'. exec_fold (content_fold False) sample_store
       [WriteRec \<lparr>cw_addr = sample_elem, cw_val = Val [1, 2]\<rparr>] = ret c' \<and>
     (\<forall>t p. value_at sample_store t = ret (Some p) \<longrightarrow> value_at c' t = ret (Some p))"
  using content_write_once [OF wf_sample_store,
      of "[WriteRec \<lparr>cw_addr = sample_elem, cw_val = Val [1, 2]\<rparr>]"]
  by (auto simp: wf_samples)



text \<open>
  C21: the one range read. Draining \<open>pieces\<close> of a window never panics and lends, in order, exactly
  the values the point query gives at the window's addresses, up to the first address that holds
  none; \<open>covered\<close> answers whether every address of the window holds a value.
\<close>

theorem pieces_exact:
  assumes "wf_store c"
  shows "\<exists>ps w m. pieces_drain (store_pieces c s n) = ret (ps, w) \<and> m \<le> n \<and>
    map (ret \<circ> Some) (concat (map piece_cells ps)) = map (\<lambda>k. value_at c (advance s k)) [0..<m] \<and>
    (m < n \<longrightarrow> value_at c (advance s m) = ret None) \<and>
    pieces_covered (store_pieces c s n) = ret (\<forall>k < n. value_at c (advance s k) \<noteq> ret None)"
proof -
  obtain ps w where d: "pieces_drain (store_pieces c s n) = ret (ps, w)" "delivers c s n ps (remaining w)"
    using store_pieces_spec [OF assms] by blast
  let ?m = "n - remaining w"
  have dl: "remaining w \<le> n" "\<forall>k < ?m. content c (advance s k) \<noteq> None"
    "concat (map piece_cells ps) = map (\<lambda>k. the (content c (advance s k))) [0..<?m]"
    "0 < remaining w \<longrightarrow> content c (advance s ?m) = None"
    using d(2) by (simp_all add: delivers_def)
  have "map (ret \<circ> Some) (concat (map piece_cells ps)) = map (\<lambda>k. value_at c (advance s k)) [0..<?m]"
    unfolding dl(3) using dl(2) by (simp add: value_at_eq [OF assms])
  moreover have "remaining w = 0 \<longleftrightarrow> (\<forall>k < n. value_at c (advance s k) \<noteq> ret None)"
  proof
    assume all: "\<forall>k < n. value_at c (advance s k) \<noteq> ret None"
    show "remaining w = 0"
    proof (rule ccontr)
      assume "remaining w \<noteq> 0"
      then have "?m < n" "content c (advance s ?m) = None" using dl(1,4) by auto
      then have "value_at c (advance s ?m) = ret None" by (simp add: value_at_eq [OF assms])
      then show False using all \<open>?m < n\<close> by blast
    qed
  qed (use dl(2) in \<open>simp add: value_at_eq [OF assms]\<close>)
  ultimately show ?thesis using d(1) dl(4)
    by (intro exI [of _ ps] exI [of _ w] exI [of _ ?m])
       (auto simp: pieces_covered_def value_at_eq [OF assms])
qed

theorem pieces_exact_witness:
  "\<exists>ps w. pieces_drain (store_pieces sample_store (tumbler sample_elem) 2) = ret (ps, w) \<and>
     pieces_covered (store_pieces sample_store (tumbler sample_elem) 2) =
       ret (\<forall>k < 2. value_at sample_store (advance (tumbler sample_elem) k) \<noteq> ret None)"
  using pieces_exact [OF wf_sample_store, of "tumbler sample_elem" 2] by blast

text \<open>
  C22: the serialised slice round-trips and the decoder is a gate. A legal slice decodes back to
  itself; and any body the decoder admits, in whatever order its entries come, is a legal slice
  holding exactly those entries, so every later read and fold may rely on it.
\<close>

theorem decode_exact:
  "(wf_store c \<longrightarrow> entry_by_entry (in_tumbler_order c) = ret (Ok c)) \<and>
   (addressable body \<and> entry_by_entry body = ret (Ok d) \<longrightarrow>
      wf_store d \<and> set (in_tumbler_order d) = set body)"
  using entry_by_entry_in_tumbler_order entry_by_entry_Ok by blast

theorem decode_exact_witness:
  "entry_by_entry (in_tumbler_order sample_store) = ret (Ok sample_store)"
  using decode_exact [of sample_store] wf_sample_store by blast

text \<open>
  coverage and presence. An address that holds a value is covered; and in a slice whose keys
  are full element positions, as the mint issues them, a full element position is covered
  exactly when it holds a value, so the referential-integrity oracle answers for the reads.
\<close>

theorem contains_is_presence:
  assumes "wf_store c"
  shows "(\<forall>t p. value_at c t = ret (Some p) \<longrightarrow> store_contains c t = ret True) \<and>
    ((\<forall>e \<in> set (entries c). full_pos (fst e)) \<and> full_pos a \<longrightarrow>
       store_contains c (tumbler a) = ret (value_at c (tumbler a) \<noteq> ret None))"
proof (intro conjI impI allI)
  show "store_contains c t = ret True" if "value_at c t = ret (Some p)" for t p
    using that content_covered [OF assms, of t p]
    by (simp add: value_at_eq [OF assms] store_contains_eq [OF assms])
  assume a: "(\<forall>e \<in> set (entries c). full_pos (fst e)) \<and> full_pos a"
  have "content c (tumbler a) \<noteq> None" if "e \<in> set (entries c)" "tumbler a \<in> extent e" for e
  proof -
    have "cell_at e (tumbler a) \<noteq> None"
    proof (cases e rule: wf_entry.cases)
      case (1 k v)
      then show ?thesis using that(2) by (simp add: cell_at_Value)
    next
      case (2 k bs)
      have k: "full_pos k" using a that(1) 2 by force
      have "advance (tumbler k) 0 \<le> tumbler a \<and> tumbler a < advance (tumbler k) (length bs)"
        using that(2) 2 by simp
      then obtain i where i: "i < length bs" "is_prefix (advance (tumbler k) i) (tumbler a)"
        using between_advances_iff by blast
      then have "addr_plus k i = a"
        using join_zeros_prefix_fields [of "addr_plus k i" a] full_pos_addr_plus(1) [OF k] a by simp
      then have "tumbler a = advance (tumbler k) i" by auto
      then show ?thesis using i(1) 2 by (auto simp: cell_at_Stretch)
    qed
    then show ?thesis using that(1) content_cell_at [OF assms] by (metis not_None_eq)
  qed
  then show "store_contains c (tumbler a) = ret (value_at c (tumbler a) \<noteq> ret None)"
    using content_covered [OF assms, of "tumbler a"]
    by (auto simp: value_at_eq [OF assms] store_contains_eq [OF assms])
qed

theorem contains_is_presence_witness:
  "store_contains sample_store (tumbler sample_elem) =
     ret (value_at sample_store (tumbler sample_elem) \<noteq> ret None)"
proof -
  have "\<forall>e \<in> set (entries sample_store). full_pos (fst e)" by (simp add: sample_store_def)
  then show ?thesis using contains_is_presence [OF wf_sample_store, of sample_elem] full_pos_sample by blast
qed

end
