(* ===== verification/Endsets.thy ===== *)
theory Endsets
  imports Span_Sets
begin

text \<open>
  Endsets, link values and their type identity: \<^verbatim>\<open>crates/skep-links/src/endset.rs\<close> and
  \<^verbatim>\<open>class.rs\<close>.

  An endset is a span sequence held verbatim. It is read in two regimes: \<open>endset_covers\<close> by
  coverage (some span contains the tumbler) and \<open>endset_addrs\<close> by denotation (the starts of its
  unit-depth spans). \<open>coverage_class\<close> is the identity every type question compares: an
  address-denoting endset is classified by its prefix-minimal denoted addresses, any other by
  the canonical form of each of its length classes. The \<^verbatim>\<open>OrdSet\<close> and \<^verbatim>\<open>OrdMap\<close> inside a class
  are the ascending lists of their elements.
\<close>

section \<open>Endsets\<close>

datatype endset = Endset (endset_spans: "span list")

definition endset_empty :: endset where
  "endset_empty = Endset []"

definition from_spans :: "span list \<Rightarrow> endset" where
  "from_spans ss = Endset ss"

definition endset_len :: "endset \<Rightarrow> nat" where
  "endset_len e = length (endset_spans e)"

definition endset_is_empty :: "endset \<Rightarrow> bool" where
  "endset_is_empty e \<longleftrightarrow> endset_spans e = []"

definition endset_covers :: "endset \<Rightarrow> tumbler \<Rightarrow> bool exec" where
  "endset_covers e t = exec_any (\<lambda>s. contains s t) (endset_spans e)"

definition is_unit_depth :: "span \<Rightarrow> bool exec" where
  "is_unit_depth s = do { u \<leftarrow> subtree_of (start s); ret (s = u) }"

definition endset_addrs :: "endset \<Rightarrow> tumbler list exec" where
  "endset_addrs e = do { us \<leftarrow> exec_filter is_unit_depth (endset_spans e); ret (map start us) }"

definition is_address_denoting :: "endset \<Rightarrow> bool exec" where
  "is_address_denoting e = exec_all is_unit_depth (endset_spans e)"

definition endset_level_uniform :: "endset \<Rightarrow> bool" where
  "endset_level_uniform e \<longleftrightarrow> list_all is_level_uniform (endset_spans e)"

definition single_denoted :: "endset \<Rightarrow> tumbler option exec" where
  "single_denoted e = do {
     d \<leftarrow> is_address_denoting e;
     if \<not> d then ret None
     else do {
       denoted \<leftarrow> endset_addrs e;
       ret (case denoted of
              [] \<Rightarrow> None
            | first # rest \<Rightarrow> if list_ex (\<lambda>t. t \<noteq> first) rest then None else Some first) } }"

definition to_spanset :: "endset \<Rightarrow> span_set" where
  "to_spanset e = spanset_from_iter (endset_spans e)"

definition enc :: "address list \<Rightarrow> endset exec" where
  "enc as = do { ss \<leftarrow> exec_map (\<lambda>a. subtree_of (tumbler a)) as; ret (from_spans ss) }"

section \<open>Link values\<close>

record link =
  link_slots :: "endset list"

definition triple :: "endset \<Rightarrow> endset \<Rightarrow> endset \<Rightarrow> link" where
  "triple f g ty = \<lparr>link_slots = [f, g, ty]\<rparr>"

definition Link_new :: "endset list \<Rightarrow> link option" where
  "Link_new es = (if length es < 3 then None else Some \<lparr>link_slots = es\<rparr>)"

text \<open>The deserialization path routes the decoded slots through \<open>Link_new\<close>.\<close>

datatype link_arity_error = LinkArity

definition link_try_from :: "endset list \<Rightarrow> (link, link_arity_error) result" where
  "link_try_from es = (case Link_new es of None \<Rightarrow> Err LinkArity | Some l \<Rightarrow> Ok l)"

definition link_arity :: "link \<Rightarrow> nat" where
  "link_arity l = length (link_slots l)"

definition link_slot :: "link \<Rightarrow> nat \<Rightarrow> endset option" where
  "link_slot l i =
     (if 1 \<le> i \<and> i \<le> length (link_slots l)
      then (if i - 1 < length (link_slots l) then Some (link_slots l ! (i - 1)) else None)
      else None)"

definition from_slot :: "link \<Rightarrow> endset exec" where
  "from_slot l = index (link_slots l) 0"

definition to_slot :: "link \<Rightarrow> endset exec" where
  "to_slot l = index (link_slots l) 1"

definition type_slot :: "link \<Rightarrow> endset exec" where
  "type_slot l = index (link_slots l) 2"

section \<open>Type identity\<close>

datatype coverage_class =
    Addrs "tumbler list"
  | Extents "(nat \<times> canonical_form) list"

definition class_denoted :: "coverage_class \<Rightarrow> tumbler list option" where
  "class_denoted c = (case c of Addrs ts \<Rightarrow> Some ts | Extents _ \<Rightarrow> None)"

text \<open>The ascending pass: \<open>kept\<close> is the address retained last.\<close>

fun minimal_pass :: "tumbler option \<Rightarrow> tumbler list \<Rightarrow> tumbler list" where
  "minimal_pass kept [] = []"
| "minimal_pass kept (t # ts) =
     (if (case kept of None \<Rightarrow> False | Some y \<Rightarrow> is_prefix y t) then minimal_pass kept ts
      else t # minimal_pass (Some t) ts)"

definition coverage_class :: "endset \<Rightarrow> coverage_class exec" where
  "coverage_class e = do {
     d \<leftarrow> is_address_denoting e;
     if d then ret (Addrs (minimal_pass None (sort (remdups (map start (endset_spans e))))))
     else do {
       extents \<leftarrow> exec_map
         (\<lambda>(start_len, part). do {
            k \<leftarrow> canonical_key part;
            canonical \<leftarrow> expect_ok k;
            ret (start_len, canonical) })
         (by_level_class (to_spanset e));
       ret (Extents extents) } }"

section \<open>The two readings of an endset\<close>

definition unit_span :: "tumbler \<Rightarrow> span" where
  "unit_span p = mk_span p (advance p 1)"

definition wf_endset :: "endset \<Rightarrow> bool" where
  "wf_endset e \<longleftrightarrow> (\<forall>s \<in> set (endset_spans e). wf_span s)"

definition denoting :: "endset \<Rightarrow> bool" where
  "denoting e \<longleftrightarrow> (\<forall>s \<in> set (endset_spans e). s = unit_span (start s))"

definition addrs_of_endset :: "endset \<Rightarrow> tumbler list" where
  "addrs_of_endset e = map start (filter (\<lambda>s. s = unit_span (start s)) (endset_spans e))"

definition coverage :: "endset \<Rightarrow> tumbler set" where
  "coverage e = den_list (endset_spans e)"

declare subtree_of_eq [simp del]

lemma subtree_of_unit [simp]: "subtree_of p = ret (unit_span p)"
  unfolding unit_span_def by (rule subtree_of_eq)

lemma start_unit_span [simp]: "start (unit_span p) = p"
  by (simp add: unit_span_def mk_span_def)

lemma unit_span_level: "at_level (tumbler_len p) (unit_span p)"
  unfolding unit_span_def by (rule mk_span_props) simp_all

lemma wf_unit_span [simp]: "wf_span (unit_span p)"
  using unit_span_level by (rule at_level_wf)

lemma den_unit_span [simp]: "den (unit_span p) = {t. is_prefix p t}"
  unfolding unit_span_def by (rule den_subtree)

lemma is_unit_depth_eq [simp, returns]: "is_unit_depth s = ret (s = unit_span (start s))"
  by (simp add: is_unit_depth_def)

lemma endset_addrs_eq [simp, returns]: "endset_addrs e = ret (addrs_of_endset e)"
  by (simp add: endset_addrs_def addrs_of_endset_def exec_filter_ret [OF is_unit_depth_eq])

lemma is_address_denoting_eq [simp, returns]: "is_address_denoting e = ret (denoting e)"
  by (simp add: is_address_denoting_def denoting_def exec_all_ret [OF is_unit_depth_eq])

lemma endset_covers_eq [simp, returns]:
  "wf_endset e \<Longrightarrow> endset_covers e t = ret (t \<in> coverage e)"
  unfolding endset_covers_def coverage_def den_list_def
  by (subst exec_any_ret [where q = "\<lambda>s. t \<in> den s"]) (auto simp: wf_endset_def)

lemma enc_eq [simp, returns]:
  "enc as = ret (Endset (map (\<lambda>a. unit_span (tumbler a)) as))"
  by (simp add: enc_def from_spans_def exec_map_ret [where g = "\<lambda>a. unit_span (tumbler a)"])

lemma denoting_wf: "denoting e \<Longrightarrow> wf_endset e"
  unfolding denoting_def wf_endset_def by (metis wf_unit_span)

lemma addrs_denoting: "denoting e \<Longrightarrow> addrs_of_endset e = map start (endset_spans e)"
  by (simp add: denoting_def addrs_of_endset_def)

lemma coverage_denoting:
  "denoting e \<Longrightarrow> coverage e = {t. \<exists>a \<in> set (addrs_of_endset e). is_prefix a t}"
  unfolding coverage_def den_list_def
  by (auto simp: addrs_denoting) (metis denoting_def den_unit_span mem_Collect_eq)+

lemma denoted_covered: "a \<in> set (addrs_of_endset e) \<Longrightarrow> a \<in> coverage e"
  unfolding addrs_of_endset_def coverage_def den_list_def
  by (auto intro!: bexI simp: is_prefix_def) (metis den_unit_span is_prefix_iff mem_Collect_eq prefix_order.refl)

lemma single_denoted_eq [returns]:
  "single_denoted e =
     ret (if denoting e \<and> (\<exists>a. set (addrs_of_endset e) = {a}) then Some (hd (addrs_of_endset e))
          else None)"
  by (cases "addrs_of_endset e") (auto simp: single_denoted_def list_ex_iff)

section \<open>The class of an endset\<close>

text \<open>
  The pass keeps the prefix-minimal addresses: extensions of a kept address are contiguous in
  the order, so comparing with the last kept one is enough.
\<close>

lemma prefix_between:
  assumes "is_prefix y t" "y \<le> z" "z \<le> t"
  shows "is_prefix y z"
proof -
  have "t \<in> den (unit_span y)" using assms(1) by simp
  then have "z \<in> den (unit_span y)"
    using assms unfolding den_def by auto
  then show ?thesis by simp
qed

definition prefix_minimal :: "tumbler set \<Rightarrow> tumbler set" where
  "prefix_minimal A = {a \<in> A. \<forall>b \<in> A. is_prefix b a \<longrightarrow> b = a}"

lemma is_prefix_refl [simp]: "is_prefix p p"
  by (simp add: is_prefix_iff)

lemma is_prefix_trans: "is_prefix p q \<Longrightarrow> is_prefix q r \<Longrightarrow> is_prefix p r"
  unfolding is_prefix_iff by (rule prefix_order.trans)

lemma is_prefix_antisym: "is_prefix p q \<Longrightarrow> is_prefix q p \<Longrightarrow> p = q"
  unfolding is_prefix_iff by (metis comps_inject prefix_order.antisym)

lemma minimal_pass_kept:
  assumes "sorted_wrt (<) (y # ts)"
  shows "minimal_pass (Some y) ts = minimal_pass None (filter (\<lambda>t. \<not> is_prefix y t) ts)"
  using assms
proof (induction ts)
  case (Cons t ts)
  show ?case
  proof (cases "is_prefix y t")
    case True
    then show ?thesis using Cons by simp
  next
    case False
    have "\<not> is_prefix y u" if "u \<in> set ts" for u
      using prefix_between [of y u t] False Cons.prems that by force
    then have "filter (\<lambda>t. \<not> is_prefix y t) ts = ts" by (auto simp: filter_id_conv)
    then show ?thesis using False by simp
  qed
qed simp

lemma minimal_pass_spec:
  assumes "sorted_wrt (<) ts"
  shows "set (minimal_pass None ts) = prefix_minimal (set ts)
         \<and> sorted_wrt (<) (minimal_pass None ts)"
  using assms
proof (induction ts rule: length_induct)
  case (1 ts)
  show ?case
  proof (cases ts)
    case (Cons y us)
    let ?vs = "filter (\<lambda>t. \<not> is_prefix y t) us"
    have step: "minimal_pass None ts = y # minimal_pass None ?vs"
      using minimal_pass_kept [of y us] "1.prems" Cons by simp
    have "sorted_wrt (<) ?vs" using "1.prems" Cons by (simp add: sorted_wrt_filter)
    then have ih: "set (minimal_pass None ?vs) = prefix_minimal (set ?vs)"
      "sorted_wrt (<) (minimal_pass None ?vs)"
      using "1.IH" Cons by (simp_all add: less_Suc_eq_le)
    have above: "y < u" if "u \<in> set us" for u using "1.prems" Cons that by simp
    have "prefix_minimal (set ts) = insert y (prefix_minimal (set ?vs))"
      using above Cons unfolding prefix_minimal_def
      by (auto dest: is_prefix_trans) (metis is_prefix_le leD)+
    then show ?thesis using step ih above Cons
      by (auto simp: prefix_minimal_def)
  qed (simp add: prefix_minimal_def)
qed

lemma prefix_minimal_below:
  assumes "finite A" "a \<in> A"
  shows "\<exists>b \<in> prefix_minimal A. is_prefix b a"
proof -
  let ?B = "{b \<in> A. is_prefix b a}"
  have "finite (tumbler_len ` ?B)" "tumbler_len ` ?B \<noteq> {}" using assms by auto
  then obtain b where b: "b \<in> ?B" "\<forall>c \<in> ?B. tumbler_len b \<le> tumbler_len c"
    by (metis (mono_tags, lifting) Min_in Min_le finite_imageI image_iff imageI)
  have "c = b" if "c \<in> A" "is_prefix c b" for c
  proof -
    have "tumbler_len b \<le> tumbler_len c" using b that by (auto intro: is_prefix_trans)
    then show ?thesis using that(2)
      by (simp add: is_prefix_def tumbler_len_def)
  qed
  then show ?thesis using b unfolding prefix_minimal_def by blast
qed

lemma prefix_minimal_upward:
  assumes "finite A"
  shows "{t. \<exists>a \<in> prefix_minimal A. is_prefix a t} = {t. \<exists>a \<in> A. is_prefix a t}"
  using prefix_minimal_below [OF assms] unfolding prefix_minimal_def
  by (auto intro: is_prefix_trans) (metis is_prefix_trans mem_Collect_eq)

text \<open>The minimal addresses are determined by the upward closure.\<close>

lemma prefix_minimal_cong:
  assumes "finite A" "finite B"
    and "{t. \<exists>a \<in> A. is_prefix a t} = {t. \<exists>a \<in> B. is_prefix a t}"
  shows "prefix_minimal A = prefix_minimal B"
proof -
  have sub: "prefix_minimal A \<subseteq> prefix_minimal B"
    if fin: "finite B" and eq: "{t. \<exists>a \<in> A. is_prefix a t} = {t. \<exists>a \<in> B. is_prefix a t}"
    for A B :: "tumbler set"
  proof
    fix a assume a: "a \<in> prefix_minimal A"
    then have "a \<in> {t. \<exists>a \<in> B. is_prefix a t}" using eq unfolding prefix_minimal_def by force
    then obtain b where b: "b \<in> prefix_minimal B" "is_prefix b a"
      using prefix_minimal_upward [OF fin] by blast
    then have "b \<in> {t. \<exists>a \<in> A. is_prefix a t}"
      using eq unfolding prefix_minimal_def by force
    then obtain c where "c \<in> A" "is_prefix c b" by blast
    then have "c = a" using a b is_prefix_trans unfolding prefix_minimal_def by blast
    then have "a = b" using \<open>is_prefix c b\<close> b(2) by (simp add: is_prefix_antisym)
    then show "a \<in> prefix_minimal B" using b by simp
  qed
  show ?thesis using sub [OF assms(2,3)] sub [OF assms(1) assms(3) [symmetric]] by blast
qed

lemma coverage_class_denoting:
  assumes "denoting e"
  obtains ts where "coverage_class e = ret (Addrs ts)" "sorted_wrt (<) ts"
    "set ts = prefix_minimal (set (addrs_of_endset e))"
proof -
  let ?ds = "sort (remdups (map start (endset_spans e)))"
  have "sorted_wrt (<) ?ds" by (simp add: strict_sorted_iff)
  from minimal_pass_spec [OF this] show thesis
    using that assms by (simp add: coverage_class_def addrs_denoting)
qed

text \<open>A content extent is classified one length class at a time.\<close>

definition extent_key :: "nat \<times> span_set \<Rightarrow> (nat \<times> canonical_form) exec" where
  "extent_key p = do {
     k \<leftarrow> canonical_key (snd p);
     canonical \<leftarrow> expect_ok k;
     ret (fst p, canonical) }"

lemma coverage_class_extents:
  "\<not> denoting e \<Longrightarrow>
   coverage_class e = do {
     extents \<leftarrow> exec_map extent_key (by_level_class (to_spanset e));
     ret (Extents extents) }"
proof -
  have "(\<lambda>(start_len, part). do {
            k \<leftarrow> canonical_key part;
            canonical \<leftarrow> expect_ok k;
            ret (start_len, canonical) }) = extent_key"
    by (auto simp: extent_key_def)
  then show "\<not> denoting e \<Longrightarrow> ?thesis" by (simp add: coverage_class_def)
qed

lemma level_class_part:
  assumes "(k, part) \<in> set (by_level_class (to_spanset e))"
  shows "spans part = filter (\<lambda>s. tumbler_len (start s) = k) (endset_spans e)"
proof -
  have "distinct (map fst (by_level_class (to_spanset e)))"
    using by_level_class_lookup(1) strict_sorted_iff by blast
  then have "map_of (by_level_class (to_spanset e)) k = Some part"
    using assms by simp
  then show ?thesis using by_level_class_lookup(2) [of "to_spanset e" k]
    by (simp add: to_spanset_def spanset_from_iter_def)
qed

lemma level_class_part_of:
  assumes "s \<in> set (endset_spans e)"
  obtains part where "(tumbler_len (start s), part) \<in> set (by_level_class (to_spanset e))"
    "s \<in> set (spans part)"
proof (cases "map_of (by_level_class (to_spanset e)) (tumbler_len (start s))")
  case None
  then have "filter (\<lambda>u. tumbler_len (start u) = tumbler_len (start s)) (endset_spans e) = []"
    using by_level_class_lookup(2) [of "to_spanset e" "tumbler_len (start s)"]
    by (simp add: to_spanset_def spanset_from_iter_def)
  then show thesis using assms by (auto simp: filter_empty_conv)
next
  case (Some part)
  then have in_classes: "(tumbler_len (start s), part) \<in> set (by_level_class (to_spanset e))"
    by (rule map_of_SomeD)
  then show thesis using that level_class_part [OF in_classes] assms by auto
qed

lemma exec_map_Some_iff:
  "(\<exists>ys. exec_map f xs = ret ys) \<longleftrightarrow> (\<forall>x \<in> set xs. \<exists>y. f x = ret y)"
proof (induction xs)
  case (Cons x xs)
  then show ?case by (cases "f x"; cases "exec_map f xs") auto
qed simp

lemma exec_map_SomeD: "exec_map f xs = ret ys \<Longrightarrow> list_all2 (\<lambda>x y. f x = ret y) xs ys"
proof (induction xs arbitrary: ys)
  case (Cons x xs)
  then show ?case by (cases "f x"; cases "exec_map f xs") auto
qed simp

lemma part_uniform_iff:
  assumes "wf_endset e" "(k, part) \<in> set (by_level_class (to_spanset e))"
  shows "(\<exists>n. uniform n part) \<longleftrightarrow> list_all is_level_uniform (spans part)"
proof
  assume "\<exists>n. uniform n part"
  then show "list_all is_level_uniform (spans part)"
    by (auto simp: uniform_def list_all_iff is_level_uniform_def at_level_iff)
next
  assume "list_all is_level_uniform (spans part)"
  then have "uniform k part"
    using level_class_part [OF assms(2)] assms(1)
    by (auto simp: uniform_def list_all_iff at_level_iff wf_endset_def)
  then show "\<exists>n. uniform n part" ..
qed

lemma extent_key_returns_iff:
  assumes "wf_endset e" "(k, part) \<in> set (by_level_class (to_spanset e))"
  shows "(\<exists>y. extent_key (k, part) = ret y) \<longleftrightarrow> list_all is_level_uniform (spans part)"
proof (cases "\<exists>n. uniform n part")
  case True
  then obtain n where "uniform n part" ..
  then obtain xs where "normalize part = ret (Ok (SpanSet xs))" by (rule normalize_Ok)
  then show ?thesis using True part_uniform_iff [OF assms]
    by (simp add: extent_key_def canonical_key_def)
next
  case False
  have "wf_set part"
    using assms(1) level_class_part [OF assms(2)] by (auto simp: wf_set_def wf_endset_def)
  then have "normalize part = ret (Err LevelMismatch)" using False normalize_Err by blast
  then show ?thesis using False part_uniform_iff [OF assms]
    by (simp add: extent_key_def canonical_key_def)
qed

lemma coverage_class_extents_returns:
  assumes "wf_endset e" "\<not> denoting e"
  shows "(\<exists>c. coverage_class e = ret c) \<longleftrightarrow> endset_level_uniform e"
proof -
  let ?parts = "by_level_class (to_spanset e)"
  have "(\<exists>c. coverage_class e = ret c) \<longleftrightarrow> (\<exists>ys. exec_map extent_key ?parts = ret ys)"
    using coverage_class_extents [OF assms(2)] by (cases "exec_map extent_key ?parts") auto
  also have "\<dots> \<longleftrightarrow> (\<forall>p \<in> set ?parts. list_all is_level_uniform (spans (snd p)))"
    unfolding exec_map_Some_iff
    using extent_key_returns_iff [OF assms(1)] by (metis prod.collapse)
  also have "\<dots> \<longleftrightarrow> endset_level_uniform e"
  proof
    assume "endset_level_uniform e"
    then show "\<forall>p \<in> set ?parts. list_all is_level_uniform (spans (snd p))"
      using level_class_part by (fastforce simp: endset_level_uniform_def list_all_iff)
  next
    assume *: "\<forall>p \<in> set ?parts. list_all is_level_uniform (spans (snd p))"
    have "is_level_uniform s" if "s \<in> set (endset_spans e)" for s
      using level_class_part_of [OF that] * by (metis list_all_iff snd_conv)
    then show "endset_level_uniform e" by (simp add: endset_level_uniform_def list_all_iff)
  qed
  finally show ?thesis .
qed

text \<open>The union of the canonical forms of a class is what the endset covers.\<close>

definition class_den :: "coverage_class \<Rightarrow> tumbler set" where
  "class_den c = (case c of
       Addrs ts \<Rightarrow> {t. \<exists>a \<in> set ts. is_prefix a t}
     | Extents xs \<Rightarrow> (\<Union>p \<in> set xs. den_set (as_set (snd p))))"

lemma extent_key_den:
  assumes "wf_endset e" "(k, part) \<in> set (by_level_class (to_spanset e))"
    "extent_key (k, part) = ret y"
  shows "den_set (as_set (snd y)) = den_set part"
proof -
  have "\<exists>n. uniform n part"
    using extent_key_returns_iff [OF assms(1,2)] part_uniform_iff [OF assms(1,2)] assms(3) by blast
  then obtain n where "uniform n part" ..
  then obtain xs where xs: "normalize part = ret (Ok (SpanSet xs))" "den_list xs = den_set part"
    by (rule normalize_Ok)
  from xs(1) have "y = (k, CanonicalForm (SpanSet xs))"
    using assms(3) by (simp add: extent_key_def canonical_key_def)
  then show ?thesis by (simp add: xs(2))
qed

lemma coverage_class_den:
  assumes "wf_endset e" "coverage_class e = ret c"
  shows "class_den c = coverage e"
proof (cases "denoting e")
  case True
  then obtain ts where ts: "coverage_class e = ret (Addrs ts)"
    "set ts = prefix_minimal (set (addrs_of_endset e))" by (rule coverage_class_denoting)
  then have "c = Addrs ts" using assms(2) by simp
  then have "class_den c = {t. \<exists>a \<in> set ts. is_prefix a t}" by (simp add: class_den_def)
  then show ?thesis
    unfolding ts(2) prefix_minimal_upward [OF finite_set] coverage_denoting [OF True] .
next
  case False
  let ?parts = "by_level_class (to_spanset e)"
  obtain ys where ys: "exec_map extent_key ?parts = ret ys" "c = Extents ys"
    using coverage_class_extents [OF False] assms(2) by (cases "exec_map extent_key ?parts") auto
  have l2: "list_all2 (\<lambda>x y. extent_key x = ret y) ?parts ys"
    by (rule exec_map_SomeD [OF ys(1)])
  have "list_all2 (\<lambda>x y. den_set (as_set (snd y)) = den_set (snd x)) ?parts ys"
    by (rule list.rel_mono_strong [OF l2]) (metis assms(1) extent_key_den prod.collapse)
  then have "(\<Union>p \<in> set ys. den_set (as_set (snd p))) = (\<Union>p \<in> set ?parts. den_set (snd p))"
    by (induction rule: list_all2_induct) auto
  also have "\<dots> = coverage e"
  proof
    show "(\<Union>p \<in> set ?parts. den_set (snd p)) \<subseteq> coverage e"
      using level_class_part by (fastforce simp: den_set_def coverage_def den_list_def)
    show "coverage e \<subseteq> (\<Union>p \<in> set ?parts. den_set (snd p))"
    proof
      fix t assume "t \<in> coverage e"
      then obtain s where s: "s \<in> set (endset_spans e)" "t \<in> den s"
        by (auto simp: coverage_def den_list_def)
      from s(1) obtain part where "(tumbler_len (start s), part) \<in> set ?parts" "s \<in> set (spans part)"
        by (rule level_class_part_of)
      then show "t \<in> (\<Union>p \<in> set ?parts. den_set (snd p))"
        using s(2) by (force simp: den_set_def den_list_def)
    qed
  qed
  finally show ?thesis using ys(2) by (simp add: class_den_def)
qed

lemma denoting_level_uniform: "denoting e \<Longrightarrow> endset_level_uniform e"
  unfolding denoting_def endset_level_uniform_def list_all_iff
  by (metis at_level_iff is_level_uniform_def unit_span_level)

lemma coverage_class_returns_iff:
  assumes "wf_endset e"
  shows "(\<exists>c. coverage_class e = ret c) \<longleftrightarrow> endset_level_uniform e"
proof (cases "denoting e")
  case True
  then obtain ts where "coverage_class e = ret (Addrs ts)" by (rule coverage_class_denoting)
  then show ?thesis using denoting_level_uniform [OF True] by simp
qed (rule coverage_class_extents_returns [OF assms])

lemma coverage_class_exact:
  assumes "denoting e" "denoting f" "coverage e = coverage f"
  shows "coverage_class e = coverage_class f"
proof -
  obtain ts where ts: "coverage_class e = ret (Addrs ts)" "sorted_wrt (<) ts"
    "set ts = prefix_minimal (set (addrs_of_endset e))" by (rule coverage_class_denoting [OF assms(1)])
  obtain us where us: "coverage_class f = ret (Addrs us)" "sorted_wrt (<) us"
    "set us = prefix_minimal (set (addrs_of_endset f))" by (rule coverage_class_denoting [OF assms(2)])
  have "set ts = set us" unfolding ts(3) us(3)
    using assms(3) coverage_denoting [OF assms(1)] coverage_denoting [OF assms(2)]
    by (intro prefix_minimal_cong) auto
  then have "ts = us" by (rule strict_sorted_equal [OF us(2) ts(2)])
  then show ?thesis using ts(1) us(1) by simp
qed

section \<open>Properties\<close>

text \<open>
  the coverage class is a sound identity of types. It is defined exactly on endsets of
  level-uniform spans and panics on any other; two endsets with the same class cover the same
  tumblers; and on address-denoting endsets the class is exact: equal coverage gives the same
  class, whatever the order, the repetitions and the nesting of the spans.
\<close>

theorem coverage_class_identity:
  assumes "wf_endset e" "wf_endset f"
  shows "((\<exists>c. coverage_class e = ret c) \<longleftrightarrow> endset_level_uniform e) \<and>
    (endset_level_uniform e \<and> coverage_class e = coverage_class f \<longrightarrow>
       (\<forall>t. endset_covers e t = endset_covers f t)) \<and>
    (denoting e \<and> denoting f \<longrightarrow>
       (coverage_class e = coverage_class f \<longleftrightarrow> (\<forall>t. endset_covers e t = endset_covers f t)))"
proof -
  have same: "(\<forall>t. endset_covers e t = endset_covers f t) \<longleftrightarrow> coverage e = coverage f"
    using assms by auto
  have "coverage e = coverage f"
    if "endset_level_uniform e" "coverage_class e = coverage_class f"
    using that coverage_class_returns_iff [OF assms(1)] coverage_class_den [OF assms(1)]
      coverage_class_den [OF assms(2)] by metis
  moreover have "coverage_class e = coverage_class f"
    if "denoting e" "denoting f" "coverage e = coverage f"
    by (rule coverage_class_exact [OF that])
  ultimately show ?thesis
    using coverage_class_returns_iff [OF assms(1)] denoting_level_uniform
    unfolding same by blast
qed

definition sample_endset :: endset where
  "sample_endset = Endset [unit_span (Tumbler 1 []), unit_span (Tumbler 1 [2])]"

lemma denoting_samples [simp]:
  "denoting sample_endset" "denoting (Endset [unit_span p])"
  by (simp_all add: denoting_def sample_endset_def)

theorem coverage_class_identity_witness:
  "coverage_class sample_endset = coverage_class (Endset [unit_span (Tumbler 1 [])]) \<longleftrightarrow>
     (\<forall>t. endset_covers sample_endset t = endset_covers (Endset [unit_span (Tumbler 1 [])]) t)"
  using coverage_class_identity [of sample_endset "Endset [unit_span (Tumbler 1 [])]"]
  by (simp add: denoting_wf)

end
