(* ===== verification/PL_Terms.thy ===== *)
theory PL_Terms
  imports Endsets
begin

text \<open>
  The predicate language of the coordination module: \<^verbatim>\<open>crates/skep-coordination/src/ast.rs\<close>,
  the sorts of \<^verbatim>\<open>value.rs\<close>, the resource budget of \<^verbatim>\<open>budget.rs\<close> and the rewriting walk of
  \<^verbatim>\<open>walk.rs\<close>.

  The four mutually recursive families of formers are one mutual datatype. An \<^verbatim>\<open>Arc\<close> is its
  referent, since every pass reads a shared subterm as a tree. \<^verbatim>\<open>u32\<close> levels and \<^verbatim>\<open>usize\<close> counts are
  naturals, with every saturating addition written out at its width.
\<close>

section \<open>Names and type positions\<close>

definition EXPANSION_NAME_BASE :: nat where
  "EXPANSION_NAME_BASE = 2 ^ 31"

datatype var_id = VarId (var_index: nat)

definition VarId_new :: "nat \<Rightarrow> var_id option" where
  "VarId_new v = (if v \<ge> EXPANSION_NAME_BASE then None else Some (VarId v))"

text \<open>\<^verbatim>\<open>checked_add\<close> at 32 bits; exhaustion panics.\<close>

definition expansion :: "nat \<Rightarrow> var_id exec" where
  "expansion n = (if EXPANSION_NAME_BASE + n < 2 ^ 32 then ret (VarId (EXPANSION_NAME_BASE + n))
     else panic)"

datatype type_key = TypeKey endset

datatype type_ref = Concrete type_key | ClassVar var_id

text \<open>\<^verbatim>\<open>TypeRef::key\<close> is unreachable on a class variable.\<close>

definition type_ref_key :: "type_ref \<Rightarrow> type_key exec" where
  "type_ref_key tr = (case tr of Concrete k \<Rightarrow> ret k | ClassVar v \<Rightarrow> panic)"

section \<open>Terms, atoms, primitives and domains\<close>

datatype pl_lit = LTrue | LFalse | LNat nat | LAddr address | LBotAddr | LBotNat

datatype pl_term =
    Var var_id
  | Lit pl_lit
  | Atom pl_atom
  | Prim pl_prim
  | And pl_term pl_term
  | Or pl_term pl_term
  | Not_t pl_term
  | Implies pl_term pl_term
  | Iff pl_term pl_term
  | Forall var_id pl_dom pl_term
  | Exists var_id pl_dom pl_term
  | Let_t var_id pl_term pl_term
  | IfSome pl_term var_id pl_term pl_term
  | Count pl_dom
  | MaxT1 pl_dom
  | MinT1 pl_dom
  | BigUnion pl_dom var_id pl_term
  | Reflect pl_dom
  | Ref address "pl_term list"
and pl_atom =
    IsK type_ref pl_term
  | Members type_ref
  | TargetsOf type_ref pl_term
  | IsFiltered type_ref pl_term
  | Succs type_ref pl_term
  | Chain type_ref pl_term
  | Tip type_ref pl_term
  | IsInChain type_ref pl_term pl_term
  | SourcesTo type_ref pl_term
  | TargetOf type_ref pl_term
  | TargetsKeyed pl_term
  | Age type_ref pl_term
  | Stale type_ref pl_term
  | IsDoc pl_term
  | TupAddr var_id
  | TupAddrsF var_id
  | TupAddrsG var_id
  | InCoverageF pl_term var_id
  | InCoverageG pl_term var_id
and pl_prim =
    AddrEq pl_term pl_term
  | Prefix pl_term pl_term
  | T1Lt pl_term pl_term
  | SetMem pl_term pl_term
  | SetEq pl_term pl_term
  | IsEmpty pl_term
  | Elems pl_term
  | NatEq pl_term pl_term
  | NatLe pl_term pl_term
  | NatAdd pl_term pl_term
  | MapGet pl_term type_ref
  | Def pl_term
and pl_dom =
    MembersDom type_ref
  | ActiveSlice type_ref
  | AuditSlice type_ref
  | LinkDom
  | Reg
  | Filter pl_dom var_id pl_term
  | SetTerm pl_term

section \<open>Sorts and signed terms\<close>

datatype sort = SBool | SAddr | SAddrSet | SOptAddr | SAddrSeq | SMap | SNat | SOptNat | STup

record signed_term =
  st_params :: "(var_id \<times> sort) list"
  st_body :: pl_term

record signature =
  sig_params :: "(var_id \<times> sort) list"
  sig_result :: sort

section \<open>The children of a node\<close>

text \<open>
  The child structure \<^verbatim>\<open>visit_term\<close> and \<^verbatim>\<open>visit_dom\<close> state: the terms and the domains directly
  below a node, an atom's and a primitive's operands being their term's children.
\<close>

fun atom_kids :: "pl_atom \<Rightarrow> pl_term list" where
  "atom_kids (IsK tr e) = [e]"
| "atom_kids (Members tr) = []"
| "atom_kids (TargetsOf tr e) = [e]"
| "atom_kids (IsFiltered tr e) = [e]"
| "atom_kids (Succs tr e) = [e]"
| "atom_kids (Chain tr e) = [e]"
| "atom_kids (Tip tr e) = [e]"
| "atom_kids (IsInChain tr x y) = [x, y]"
| "atom_kids (SourcesTo tr e) = [e]"
| "atom_kids (TargetOf tr e) = [e]"
| "atom_kids (TargetsKeyed e) = [e]"
| "atom_kids (Age tr e) = [e]"
| "atom_kids (Stale tr e) = [e]"
| "atom_kids (IsDoc e) = [e]"
| "atom_kids (TupAddr v) = []"
| "atom_kids (TupAddrsF v) = []"
| "atom_kids (TupAddrsG v) = []"
| "atom_kids (InCoverageF e v) = [e]"
| "atom_kids (InCoverageG e v) = [e]"

fun prim_kids :: "pl_prim \<Rightarrow> pl_term list" where
  "prim_kids (AddrEq x y) = [x, y]"
| "prim_kids (Prefix x y) = [x, y]"
| "prim_kids (T1Lt x y) = [x, y]"
| "prim_kids (SetMem x y) = [x, y]"
| "prim_kids (SetEq x y) = [x, y]"
| "prim_kids (IsEmpty x) = [x]"
| "prim_kids (Elems x) = [x]"
| "prim_kids (NatEq x y) = [x, y]"
| "prim_kids (NatLe x y) = [x, y]"
| "prim_kids (NatAdd x y) = [x, y]"
| "prim_kids (MapGet x tr) = [x]"
| "prim_kids (Def x) = [x]"

fun term_kids :: "pl_term \<Rightarrow> pl_term list" where
  "term_kids (Var v) = []"
| "term_kids (Lit l) = []"
| "term_kids (Atom a) = atom_kids a"
| "term_kids (Prim p) = prim_kids p"
| "term_kids (And x y) = [x, y]"
| "term_kids (Or x y) = [x, y]"
| "term_kids (Not_t x) = [x]"
| "term_kids (Implies x y) = [x, y]"
| "term_kids (Iff x y) = [x, y]"
| "term_kids (Forall v d b) = [b]"
| "term_kids (Exists v d b) = [b]"
| "term_kids (Let_t v x b) = [x, b]"
| "term_kids (IfSome x v t e) = [x, t, e]"
| "term_kids (Count d) = []"
| "term_kids (MaxT1 d) = []"
| "term_kids (MinT1 d) = []"
| "term_kids (BigUnion d v b) = [b]"
| "term_kids (Reflect d) = []"
| "term_kids (Ref a ts) = ts"

fun term_doms :: "pl_term \<Rightarrow> pl_dom list" where
  "term_doms (Forall v d b) = [d]"
| "term_doms (Exists v d b) = [d]"
| "term_doms (Count d) = [d]"
| "term_doms (MaxT1 d) = [d]"
| "term_doms (MinT1 d) = [d]"
| "term_doms (BigUnion d v b) = [d]"
| "term_doms (Reflect d) = [d]"
| "term_doms _ = []"

fun dom_kids :: "pl_dom \<Rightarrow> pl_term list" where
  "dom_kids (Filter d v t) = [t]"
| "dom_kids (SetTerm t) = [t]"
| "dom_kids _ = []"

fun dom_doms :: "pl_dom \<Rightarrow> pl_dom list" where
  "dom_doms (Filter d v t) = [d]"
| "dom_doms _ = []"

lemma atom_kids_size: "u \<in> set (atom_kids a) \<Longrightarrow> size u < size a"
  by (cases a) auto

lemma prim_kids_size: "u \<in> set (prim_kids p) \<Longrightarrow> size u < size p"
  by (cases p) auto

lemma term_kids_size [termination_simp]: "u \<in> set (term_kids t) \<Longrightarrow> size u < size t"
  by (cases t)
    (auto dest: atom_kids_size prim_kids_size size_list_estimation' [where f = size, OF _ order.refl])

lemma term_doms_size [termination_simp]: "d \<in> set (term_doms t) \<Longrightarrow> size d < size t"
  by (cases t) auto

lemma dom_kids_size [termination_simp]: "u \<in> set (dom_kids d) \<Longrightarrow> size u < size d"
  by (cases d) auto

lemma dom_doms_size [termination_simp]: "e \<in> set (dom_doms d) \<Longrightarrow> size e < size d"
  by (cases d) auto

section \<open>The resource budget\<close>

definition saturating_add :: "nat \<Rightarrow> nat \<Rightarrow> nat \<Rightarrow> nat" where
  "saturating_add w a b = min (a + b) (2 ^ w - 1)"

text \<open>\<^verbatim>\<open>try_from(..).unwrap_or(MAX)\<close> to an unsigned width.\<close>

definition clamp :: "nat \<Rightarrow> nat \<Rightarrow> nat" where
  "clamp w n = (if n < 2 ^ w then n else 2 ^ w - 1)"

definition MAX_DEPTH :: nat where
  "MAX_DEPTH = 128"

definition DERIVATION_COST :: nat where
  "DERIVATION_COST = 2"

definition referent_depth :: "nat \<Rightarrow> nat" where
  "referent_depth depth = saturating_add 32 depth DERIVATION_COST"

definition argument_depth :: "nat \<Rightarrow> nat \<Rightarrow> nat" where
  "argument_depth depth i = saturating_add 32 (saturating_add 32 depth 1) (clamp 32 i)"

definition reference_reach :: "nat \<Rightarrow> nat \<Rightarrow> nat \<Rightarrow> nat" where
  "reference_reach depth arity referent_reach =
     saturating_add 32 (saturating_add 32 (referent_depth depth) (clamp 32 arity)) referent_reach"

definition MAX_TERM_NODES :: nat where
  "MAX_TERM_NODES = 2 ^ 16"

text \<open>\<^verbatim>\<open>BigUint::bits\<close>: the least number of bits that holds the value.\<close>

fun nat_bits :: "nat \<Rightarrow> nat" where
  "nat_bits n = (if n = 0 then 0 else Suc (nat_bits (n div 2)))"

declare nat_bits.simps [simp del]

definition div_ceil :: "nat \<Rightarrow> nat \<Rightarrow> nat" where
  "div_ceil a b = (a + b - 1) div b"

definition weight :: "pl_term \<Rightarrow> nat" where
  "weight t = saturating_add 64 1
     (case t of
        Lit (LAddr a) \<Rightarrow> tumbler_len (tumbler a)
      | Lit (LNat n) \<Rightarrow> clamp 64 (div_ceil (nat_bits n) 64)
      | Ref a args \<Rightarrow> tumbler_len (tumbler a)
      | _ \<Rightarrow> 0)"

text \<open>A \<^verbatim>\<open>Budget\<close> is the units charged so far.\<close>

definition budget_charge :: "nat \<Rightarrow> nat \<Rightarrow> bool \<times> nat" where
  "budget_charge nodes w =
     (let n = saturating_add 64 nodes w in (n \<le> MAX_TERM_NODES, n))"

definition budget_spent :: "nat \<Rightarrow> bool" where
  "budget_spent nodes \<longleftrightarrow> nodes > MAX_TERM_NODES"

section \<open>The rewriting walk\<close>

text \<open>
  \<^verbatim>\<open>rewrite_term\<close> rebuilds a node from its children, each passed through the rewriter: \<open>ft\<close> and
  \<open>fd\<close> are its \<^verbatim>\<open>term\<close> and \<^verbatim>\<open>dom\<close>, \<open>tr\<close> its \<^verbatim>\<open>typeref\<close>, \<open>vu\<close> its \<^verbatim>\<open>var_use\<close>. The rewriter's own
  state is threaded left to right.
\<close>

type_synonym ('a, 's) rw = "'a \<Rightarrow> 's \<Rightarrow> ('a \<times> 's) exec"

definition rw1 :: "('a, 's) rw \<Rightarrow> ('a \<Rightarrow> 'b) \<Rightarrow> 'a \<Rightarrow> 's \<Rightarrow> ('b \<times> 's) exec" where
  "rw1 f C x s = do { (x', s1) \<leftarrow> f x s; ret (C x', s1) }"

definition rw2 :: "('a, 's) rw \<Rightarrow> ('b, 's) rw \<Rightarrow> ('a \<Rightarrow> 'b \<Rightarrow> 'c) \<Rightarrow> 'a \<Rightarrow> 'b \<Rightarrow> 's \<Rightarrow> ('c \<times> 's) exec" where
  "rw2 f g C x y s = do { (x', s1) \<leftarrow> f x s; (y', s2) \<leftarrow> g y s1; ret (C x' y', s2) }"

fun rw_list :: "('a, 's) rw \<Rightarrow> 'a list \<Rightarrow> 's \<Rightarrow> ('a list \<times> 's) exec" where
  "rw_list f [] s = ret ([], s)"
| "rw_list f (x # xs) s = do { (x', s1) \<leftarrow> f x s; (xs', s2) \<leftarrow> rw_list f xs s1; ret (x' # xs', s2) }"

fun rewrite_atom ::
  "(pl_term, 's) rw \<Rightarrow> (type_ref \<Rightarrow> type_ref) \<Rightarrow> (var_id \<Rightarrow> var_id) \<Rightarrow> pl_atom \<Rightarrow> 's \<Rightarrow> (pl_atom \<times> 's) exec"
where
  "rewrite_atom ft tr vu (IsK k e) s = rw1 ft (IsK (tr k)) e s"
| "rewrite_atom ft tr vu (Members k) s = ret (Members (tr k), s)"
| "rewrite_atom ft tr vu (TargetsOf k e) s = rw1 ft (TargetsOf (tr k)) e s"
| "rewrite_atom ft tr vu (IsFiltered k e) s = rw1 ft (IsFiltered (tr k)) e s"
| "rewrite_atom ft tr vu (Succs k e) s = rw1 ft (Succs (tr k)) e s"
| "rewrite_atom ft tr vu (Chain k e) s = rw1 ft (Chain (tr k)) e s"
| "rewrite_atom ft tr vu (Tip k e) s = rw1 ft (Tip (tr k)) e s"
| "rewrite_atom ft tr vu (IsInChain k x y) s = rw2 ft ft (IsInChain (tr k)) x y s"
| "rewrite_atom ft tr vu (SourcesTo k e) s = rw1 ft (SourcesTo (tr k)) e s"
| "rewrite_atom ft tr vu (TargetOf k e) s = rw1 ft (TargetOf (tr k)) e s"
| "rewrite_atom ft tr vu (TargetsKeyed e) s = rw1 ft TargetsKeyed e s"
| "rewrite_atom ft tr vu (Age k e) s = rw1 ft (Age (tr k)) e s"
| "rewrite_atom ft tr vu (Stale k e) s = rw1 ft (Stale (tr k)) e s"
| "rewrite_atom ft tr vu (IsDoc e) s = rw1 ft IsDoc e s"
| "rewrite_atom ft tr vu (TupAddr v) s = ret (TupAddr (vu v), s)"
| "rewrite_atom ft tr vu (TupAddrsF v) s = ret (TupAddrsF (vu v), s)"
| "rewrite_atom ft tr vu (TupAddrsG v) s = ret (TupAddrsG (vu v), s)"
| "rewrite_atom ft tr vu (InCoverageF e v) s = rw1 ft (\<lambda>e'. InCoverageF e' (vu v)) e s"
| "rewrite_atom ft tr vu (InCoverageG e v) s = rw1 ft (\<lambda>e'. InCoverageG e' (vu v)) e s"

fun rewrite_prim ::
  "(pl_term, 's) rw \<Rightarrow> (type_ref \<Rightarrow> type_ref) \<Rightarrow> pl_prim \<Rightarrow> 's \<Rightarrow> (pl_prim \<times> 's) exec"
where
  "rewrite_prim ft tr (AddrEq x y) s = rw2 ft ft AddrEq x y s"
| "rewrite_prim ft tr (Prefix x y) s = rw2 ft ft Prefix x y s"
| "rewrite_prim ft tr (T1Lt x y) s = rw2 ft ft T1Lt x y s"
| "rewrite_prim ft tr (SetMem x y) s = rw2 ft ft SetMem x y s"
| "rewrite_prim ft tr (SetEq x y) s = rw2 ft ft SetEq x y s"
| "rewrite_prim ft tr (IsEmpty x) s = rw1 ft IsEmpty x s"
| "rewrite_prim ft tr (Elems x) s = rw1 ft Elems x s"
| "rewrite_prim ft tr (NatEq x y) s = rw2 ft ft NatEq x y s"
| "rewrite_prim ft tr (NatLe x y) s = rw2 ft ft NatLe x y s"
| "rewrite_prim ft tr (NatAdd x y) s = rw2 ft ft NatAdd x y s"
| "rewrite_prim ft tr (MapGet x k) s = rw1 ft (\<lambda>x'. MapGet x' (tr k)) x s"
| "rewrite_prim ft tr (Def x) s = rw1 ft Def x s"

fun rewrite_term ::
  "(pl_term, 's) rw \<Rightarrow> (pl_dom, 's) rw \<Rightarrow> (type_ref \<Rightarrow> type_ref) \<Rightarrow> (var_id \<Rightarrow> var_id) \<Rightarrow>
   pl_term \<Rightarrow> 's \<Rightarrow> (pl_term \<times> 's) exec"
where
  "rewrite_term ft fd tr vu (Var v) s = ret (Var (vu v), s)"
| "rewrite_term ft fd tr vu (Lit l) s = ret (Lit l, s)"
| "rewrite_term ft fd tr vu (Atom a) s = rw1 (rewrite_atom ft tr vu) Atom a s"
| "rewrite_term ft fd tr vu (Prim p) s = rw1 (rewrite_prim ft tr) Prim p s"
| "rewrite_term ft fd tr vu (And x y) s = rw2 ft ft And x y s"
| "rewrite_term ft fd tr vu (Or x y) s = rw2 ft ft Or x y s"
| "rewrite_term ft fd tr vu (Not_t x) s = rw1 ft Not_t x s"
| "rewrite_term ft fd tr vu (Implies x y) s = rw2 ft ft Implies x y s"
| "rewrite_term ft fd tr vu (Iff x y) s = rw2 ft ft Iff x y s"
| "rewrite_term ft fd tr vu (Forall v d b) s = rw2 fd ft (Forall v) d b s"
| "rewrite_term ft fd tr vu (Exists v d b) s = rw2 fd ft (Exists v) d b s"
| "rewrite_term ft fd tr vu (Let_t v x b) s = rw2 ft ft (Let_t v) x b s"
| "rewrite_term ft fd tr vu (IfSome x v t e) s = do {
     (x', s1) \<leftarrow> ft x s;
     (t', s2) \<leftarrow> ft t s1;
     (e', s3) \<leftarrow> ft e s2;
     ret (IfSome x' v t' e', s3) }"
| "rewrite_term ft fd tr vu (Count d) s = rw1 fd Count d s"
| "rewrite_term ft fd tr vu (MaxT1 d) s = rw1 fd MaxT1 d s"
| "rewrite_term ft fd tr vu (MinT1 d) s = rw1 fd MinT1 d s"
| "rewrite_term ft fd tr vu (BigUnion d v b) s = rw2 fd ft (\<lambda>d'. BigUnion d' v) d b s"
| "rewrite_term ft fd tr vu (Reflect d) s = rw1 fd Reflect d s"
| "rewrite_term ft fd tr vu (Ref a ts) s = rw1 (rw_list ft) (Ref a) ts s"

fun rewrite_dom ::
  "(pl_term, 's) rw \<Rightarrow> (pl_dom, 's) rw \<Rightarrow> (type_ref \<Rightarrow> type_ref) \<Rightarrow>
   pl_dom \<Rightarrow> 's \<Rightarrow> (pl_dom \<times> 's) exec"
where
  "rewrite_dom ft fd tr (MembersDom k) s = ret (MembersDom (tr k), s)"
| "rewrite_dom ft fd tr (ActiveSlice k) s = ret (ActiveSlice (tr k), s)"
| "rewrite_dom ft fd tr (AuditSlice k) s = ret (AuditSlice (tr k), s)"
| "rewrite_dom ft fd tr LinkDom s = ret (LinkDom, s)"
| "rewrite_dom ft fd tr Reg s = ret (Reg, s)"
| "rewrite_dom ft fd tr (Filter d v t) s = rw2 fd ft (\<lambda>d'. Filter d' v) d t s"
| "rewrite_dom ft fd tr (SetTerm t) s = rw1 ft SetTerm t s"

text \<open>The walk asks the rewriter of a node's children and of nothing else.\<close>

lemma rw1_cong: "(\<And>s. f x s = g x s) \<Longrightarrow> rw1 f C x s = rw1 g C x s"
  by (simp add: rw1_def)

lemma rw2_cong:
  "(\<And>s. f x s = f' x s) \<Longrightarrow> (\<And>s. g y s = g' y s) \<Longrightarrow> rw2 f g C x y s = rw2 f' g' C x y s"
  by (simp add: rw2_def)

lemma rw_list_cong [fundef_cong]:
  assumes "xs = ys" "s = s'" and "\<And>x s. x \<in> set ys \<Longrightarrow> f x s = g x s"
  shows "rw_list f xs s = rw_list g ys s'"
proof -
  have "rw_list f ys r = rw_list g ys r" if "\<forall>x \<in> set ys. \<forall>s. f x s = g x s" for r
    using that by (induction ys arbitrary: r) simp_all
  then show ?thesis using assms by simp
qed

lemma rewrite_atom_cong:
  "(\<And>u s. u \<in> set (atom_kids a) \<Longrightarrow> f u s = g u s) \<Longrightarrow> rewrite_atom f tr vu a s = rewrite_atom g tr vu a s"
  by (cases a) (auto intro!: rw1_cong rw2_cong)

lemma rewrite_prim_cong:
  "(\<And>u s. u \<in> set (prim_kids a) \<Longrightarrow> f u s = g u s) \<Longrightarrow> rewrite_prim f tr a s = rewrite_prim g tr a s"
  by (cases a) (auto intro!: rw1_cong rw2_cong)

lemma rewrite_term_cong [fundef_cong]:
  assumes "t = t'" "s = s'"
    and "\<And>u s. u \<in> set (term_kids t') \<Longrightarrow> ft u s = gt u s"
    and "\<And>d s. d \<in> set (term_doms t') \<Longrightarrow> fd d s = gd d s"
  shows "rewrite_term ft fd tr vu t s = rewrite_term gt gd tr vu t' s'"
  using assms(3,4) unfolding assms(1,2)
  by (cases t') (auto intro!: rw1_cong rw2_cong rewrite_atom_cong rewrite_prim_cong rw_list_cong)

lemma rewrite_dom_cong [fundef_cong]:
  assumes "d = d'" "s = s'"
    and "\<And>u s. u \<in> set (dom_kids d') \<Longrightarrow> ft u s = gt u s"
    and "\<And>e s. e \<in> set (dom_doms d') \<Longrightarrow> fd e s = gd e s"
  shows "rewrite_dom ft fd tr d s = rewrite_dom gt gd tr d' s'"
  using assms(3,4) unfolding assms(1,2) by (cases d') (auto intro!: rw1_cong rw2_cong)

end
