(* ===== verification/Type_Registry.thy ===== *)
theory Type_Registry
  imports PL_Terms
begin

text \<open>
  The shipped link types: the ghost region's addresses
  (\<^verbatim>\<open>crates/skep-namespace/src/ghost.rs\<close>), the registry built from them
  (\<^verbatim>\<open>crates/skep-links/src/registry.rs\<close>) and the coordination module's frozen projection of it
  (\<^verbatim>\<open>crates/skep-coordination/src/catalog.rs\<close>).

  A \<^verbatim>\<open>BTreeSet\<close> of behaviors is the list of its elements; the \<^verbatim>\<open>HashMap\<close> of registrations is an
  association list, whose order only the order of \<open>reg_reverse_lookup_classes\<close> shows.
\<close>

section \<open>The ghost region\<close>

definition GHOST_POSITIONS :: nat where
  "GHOST_POSITIONS = 5"

definition ghost_home_document :: "address exec" where
  "ghost_home_document = do {
     t \<leftarrow> expect_ok (Tumbler_new [1, 1, 0, 1, 0, 1]);
     r \<leftarrow> validate t;
     expect_ok r }"

definition ghost_position :: "nat \<Rightarrow> address exec" where
  "ghost_position n =
     (if 1 \<le> n \<and> n \<le> GHOST_POSITIONS then do {
        d \<leftarrow> ghost_home_document;
        r \<leftarrow> elem_addr \<lparr>doc = d, pos_subspace = content_subspace, pos_ordinal = n\<rparr>;
        expect_ok r }
      else panic)"

section \<open>The registry\<close>

datatype shape = Unary | Binary | Multi

definition holds_one_span :: "endset \<Rightarrow> bool" where
  "holds_one_span e =
     (case endset_spans e of [] \<Rightarrow> False | first # rest \<Rightarrow> list_all (\<lambda>s. s = first) rest)"

definition sh_conf :: "shape \<Rightarrow> link \<Rightarrow> bool exec" where
  "sh_conf sh v = do {
     f \<leftarrow> from_slot v;
     if \<not> holds_one_span f then ret False
     else (case sh of
             Unary \<Rightarrow> do { g \<leftarrow> to_slot v; ret (endset_is_empty g) }
           | Binary \<Rightarrow> do { g \<leftarrow> to_slot v; ret (holds_one_span g) }
           | Multi \<Rightarrow> ret True) }"

datatype behavior = ReadFilter | Walk | ReverseLookup | AgeStaleness

record registration =
  reg_shape :: shape
  reg_idem :: bool
  reg_behaviors :: "behavior list"

record reserved_addrs =
  ra_pred_def :: address
  ra_pred_stable :: address
  ra_retired :: address
  ra_supersedes :: address
  ra_retraction :: address

definition reserved_format :: "reserved_addrs exec" where
  "reserved_format = do {
     pd \<leftarrow> ghost_position 1;
     ps \<leftarrow> ghost_position 2;
     rt \<leftarrow> ghost_position 3;
     su \<leftarrow> ghost_position 4;
     rr \<leftarrow> ghost_position 5;
     ret \<lparr>ra_pred_def = pd, ra_pred_stable = ps, ra_retired = rt, ra_supersedes = su,
          ra_retraction = rr\<rparr> }"

datatype shipped_type = Retired | Supersedes | Retraction | PredDef | PredStable

definition shipped_all :: "shipped_type list" where
  "shipped_all = [Retired, Supersedes, Retraction, PredDef, PredStable]"

record shipped =
  sh_endset :: endset
  sh_class :: coverage_class

definition shipped_of :: "address \<Rightarrow> shipped exec" where
  "shipped_of a =
     (if level a \<noteq> Element then panic
      else do {
        sub \<leftarrow> subspace a;
        if sub \<noteq> Some content_subspace then panic
        else do {
          e \<leftarrow> enc [a];
          c \<leftarrow> coverage_class e;
          ret \<lparr>sh_endset = e, sh_class = c\<rparr> } })"

record type_registry =
  registrations :: "(coverage_class \<times> registration) list"
  tr_retired :: shipped
  tr_supersedes :: shipped
  tr_retraction :: shipped
  tr_pred_def :: shipped
  tr_pred_stable :: shipped

fun register_all ::
  "(shipped \<times> registration) list \<Rightarrow> (coverage_class \<times> registration) list \<Rightarrow>
   (coverage_class \<times> registration) list exec"
where
  "register_all [] m = ret m"
| "register_all ((sh, r) # rest) m =
     (if map_of m (sh_class sh) \<noteq> None then panic
      else register_all rest ((sh_class sh, r) # m))"

definition registry_build :: "type_registry exec" where
  "registry_build = do {
     reserved \<leftarrow> reserved_format;
     rt \<leftarrow> shipped_of (ra_retired reserved);
     su \<leftarrow> shipped_of (ra_supersedes reserved);
     rr \<leftarrow> shipped_of (ra_retraction reserved);
     pd \<leftarrow> shipped_of (ra_pred_def reserved);
     ps \<leftarrow> shipped_of (ra_pred_stable reserved);
     let unary_top = (\<lambda>bs. \<lparr>reg_shape = Unary, reg_idem = True, reg_behaviors = bs\<rparr>);
     regs \<leftarrow> register_all
       [(rt, unary_top [ReadFilter]),
        (su, \<lparr>reg_shape = Binary, reg_idem = True, reg_behaviors = [Walk]\<rparr>),
        (rr, \<lparr>reg_shape = Binary, reg_idem = True, reg_behaviors = []\<rparr>),
        (pd, unary_top []),
        (ps, unary_top [])] [];
     ret \<lparr>registrations = regs, tr_retired = rt, tr_supersedes = su, tr_retraction = rr,
          tr_pred_def = pd, tr_pred_stable = ps\<rparr> }"

definition reg_registration :: "type_registry \<Rightarrow> coverage_class \<Rightarrow> registration option" where
  "reg_registration R c = map_of (registrations R) c"

definition reg_declares :: "type_registry \<Rightarrow> coverage_class \<Rightarrow> behavior \<Rightarrow> bool" where
  "reg_declares R c b =
     (case reg_registration R c of None \<Rightarrow> False | Some r \<Rightarrow> b \<in> set (reg_behaviors r))"

definition reg_is_idempotent :: "type_registry \<Rightarrow> coverage_class \<Rightarrow> bool" where
  "reg_is_idempotent R c = (case reg_registration R c of None \<Rightarrow> False | Some r \<Rightarrow> reg_idem r)"

definition reg_reverse_lookup_classes :: "type_registry \<Rightarrow> coverage_class list" where
  "reg_reverse_lookup_classes R =
     map fst (filter (\<lambda>(c, r). reg_shape r = Binary \<and> ReverseLookup \<in> set (reg_behaviors r))
       (registrations R))"

definition reg_shipped :: "type_registry \<Rightarrow> shipped_type \<Rightarrow> shipped" where
  "reg_shipped R ty = (case ty of
       Retired \<Rightarrow> tr_retired R
     | Supersedes \<Rightarrow> tr_supersedes R
     | Retraction \<Rightarrow> tr_retraction R
     | PredDef \<Rightarrow> tr_pred_def R
     | PredStable \<Rightarrow> tr_pred_stable R)"

definition reg_reserved_type :: "type_registry \<Rightarrow> shipped_type \<Rightarrow> endset" where
  "reg_reserved_type R ty = sh_endset (reg_shipped R ty)"

definition reg_shipped_class :: "type_registry \<Rightarrow> shipped_type \<Rightarrow> coverage_class" where
  "reg_shipped_class R ty = sh_class (reg_shipped R ty)"

section \<open>The catalog\<close>

record catalog_entry =
  ce_class :: coverage_class
  ce_registration :: registration

definition entry_declares :: "catalog_entry \<Rightarrow> behavior \<Rightarrow> bool" where
  "entry_declares e b \<longleftrightarrow> b \<in> set (reg_behaviors (ce_registration e))"

definition entry_is_unary :: "catalog_entry \<Rightarrow> bool" where
  "entry_is_unary e \<longleftrightarrow> reg_shape (ce_registration e) = Unary"

definition entry_is_idem :: "catalog_entry \<Rightarrow> bool" where
  "entry_is_idem e \<longleftrightarrow> reg_idem (ce_registration e)"

record type_catalog =
  cat_entries :: "(type_key \<times> catalog_entry) list"
  cat_classes :: "type_key list"
  cat_shipped :: "endset list"
  cat_read_filter_classes :: "(coverage_class \<times> endset) list"
  cat_reverse_lookup_classes :: "(coverage_class \<times> endset) list"
  cat_retraction_class :: coverage_class
  cat_supersedes_key :: type_key
  cat_pred_def_class :: coverage_class
  cat_pred_stable_class :: coverage_class

definition shipped_index :: "shipped_type \<Rightarrow> nat" where
  "shipped_index ty = (case ty of
       Retired \<Rightarrow> 0 | Supersedes \<Rightarrow> 1 | Retraction \<Rightarrow> 2 | PredDef \<Rightarrow> 3 | PredStable \<Rightarrow> 4)"

text \<open>
  The projecting loop carries the entries (later insertions first), the classes in order and the
  shipped array; an array store panics out of range.
\<close>

fun project_loop ::
  "type_registry \<Rightarrow> shipped_type list \<Rightarrow>
   (type_key \<times> catalog_entry) list \<times> type_key list \<times> endset list \<Rightarrow>
   ((type_key \<times> catalog_entry) list \<times> type_key list \<times> endset list) exec"
where
  "project_loop R [] acc = ret acc"
| "project_loop R (ty # rest) (es, ks, sh) =
     (let e = reg_reserved_type R ty; c = reg_shipped_class R ty; k = TypeKey e in do {
        r \<leftarrow> reg_registration R c;
        if shipped_index ty < length sh
        then project_loop R rest
               ((k, \<lparr>ce_class = c, ce_registration = r\<rparr>) # es, ks @ [k], sh[shipped_index ty := e])
        else panic })"

definition key_endset :: "type_key \<Rightarrow> endset" where
  "key_endset k = (case k of TypeKey e \<Rightarrow> e)"

definition catalog_project :: "type_registry \<Rightarrow> type_catalog exec" where
  "catalog_project R = do {
     (es, ks, sh) \<leftarrow> project_loop R shipped_all ([], [], replicate (length shipped_all) endset_empty);
     rf \<leftarrow> exec_map (\<lambda>k. do {
        e \<leftarrow> map_of es k;
        ret (if reg_declares R (ce_class e) ReadFilter then [(ce_class e, key_endset k)] else []) }) ks;
     rl \<leftarrow> exec_map (\<lambda>k. do {
        e \<leftarrow> map_of es k;
        ret (if list_ex (\<lambda>c. c = ce_class e) (reg_reverse_lookup_classes R)
             then [(ce_class e, key_endset k)] else []) }) ks;
     su \<leftarrow> index sh (shipped_index Supersedes);
     ret \<lparr>cat_entries = es, cat_classes = ks, cat_shipped = sh,
          cat_read_filter_classes = concat rf, cat_reverse_lookup_classes = concat rl,
          cat_retraction_class = reg_shipped_class R Retraction,
          cat_supersedes_key = TypeKey su,
          cat_pred_def_class = reg_shipped_class R PredDef,
          cat_pred_stable_class = reg_shipped_class R PredStable\<rparr> }"

definition catalog_get :: "type_catalog \<Rightarrow> type_key \<Rightarrow> catalog_entry option" where
  "catalog_get C k = map_of (cat_entries C) k"

definition class_of :: "type_catalog \<Rightarrow> type_key \<Rightarrow> coverage_class exec" where
  "class_of C k = do { e \<leftarrow> catalog_get C k; ret (ce_class e) }"

definition catalog_reserved_type :: "type_catalog \<Rightarrow> shipped_type \<Rightarrow> endset exec" where
  "catalog_reserved_type C ty = index (cat_shipped C) (shipped_index ty)"

definition has_reverse_lookup_class :: "type_catalog \<Rightarrow> bool" where
  "has_reverse_lookup_class C \<longleftrightarrow> cat_reverse_lookup_classes C \<noteq> []"

definition is_pred_layer :: "type_catalog \<Rightarrow> coverage_class \<Rightarrow> bool" where
  "is_pred_layer C c \<longleftrightarrow> c = cat_pred_def_class C \<or> c = cat_pred_stable_class C"

section \<open>The format's values\<close>

definition ghost_tumbler :: "nat \<Rightarrow> tumbler" where
  "ghost_tumbler n = Tumbler 1 [1, 0, 1, 0, 1, 0, 1, n]"

definition ghost_endset :: "nat \<Rightarrow> endset" where
  "ghost_endset n = Endset [unit_span (ghost_tumbler n)]"

lemma ghost_position_eq:
  assumes "1 \<le> n" "n \<le> 5"
  shows "ghost_position n = ret \<lparr>tumbler = ghost_tumbler n, level = Element\<rparr>"
  using assms
  by (simp add: ghost_position_def ghost_home_document_def GHOST_POSITIONS_def validate_eq
      elem_addr_def content_subspace_def nat_is_zero_def T4_unfold level_of_def ghost_tumbler_def
      tumbler_of_def numeral_2_eq_2 numeral_3_eq_3)

lemma shipped_of_ghost:
  "shipped_of \<lparr>tumbler = ghost_tumbler n, level = Element\<rparr> =
     ret \<lparr>sh_endset = ghost_endset n, sh_class = Addrs [ghost_tumbler n]\<rparr>"
proof -
  have "subspace \<lparr>tumbler = ghost_tumbler n, level = Element\<rparr> = ret (Some content_subspace)"
    by (simp add: subspace_def element_field_def field_eq addr_fields_def ghost_tumbler_def
        content_subspace_def numeral_3_eq_3)
  moreover have "coverage_class (ghost_endset n) = ret (Addrs [ghost_tumbler n])"
    by (simp add: coverage_class_def ghost_endset_def denoting_def)
  ultimately show ?thesis by (simp add: shipped_of_def ghost_endset_def)
qed

definition ghost_shipped :: "nat \<Rightarrow> shipped" where
  "ghost_shipped n = \<lparr>sh_endset = ghost_endset n, sh_class = Addrs [ghost_tumbler n]\<rparr>"

definition format_registry :: type_registry where
  "format_registry =
     \<lparr>registrations =
        [(Addrs [ghost_tumbler 2], \<lparr>reg_shape = Unary, reg_idem = True, reg_behaviors = []\<rparr>),
         (Addrs [ghost_tumbler 1], \<lparr>reg_shape = Unary, reg_idem = True, reg_behaviors = []\<rparr>),
         (Addrs [ghost_tumbler 5], \<lparr>reg_shape = Binary, reg_idem = True, reg_behaviors = []\<rparr>),
         (Addrs [ghost_tumbler 4], \<lparr>reg_shape = Binary, reg_idem = True, reg_behaviors = [Walk]\<rparr>),
         (Addrs [ghost_tumbler 3], \<lparr>reg_shape = Unary, reg_idem = True, reg_behaviors = [ReadFilter]\<rparr>)],
      tr_retired = ghost_shipped 3, tr_supersedes = ghost_shipped 4,
      tr_retraction = ghost_shipped 5, tr_pred_def = ghost_shipped 1, tr_pred_stable = ghost_shipped 2\<rparr>"

lemma ghost_tumbler_inject [simp]: "ghost_tumbler m = ghost_tumbler n \<longleftrightarrow> m = n"
  by (simp add: ghost_tumbler_def)

lemma ghost_endset_inject [simp]: "ghost_endset m = ghost_endset n \<longleftrightarrow> m = n"
  by (metis endset.inject ghost_endset_def ghost_tumbler_inject list.inject start_unit_span)

lemma registry_build_eq [returns]: "registry_build = ret format_registry"
  by (simp add: registry_build_def reserved_format_def ghost_position_eq shipped_of_ghost
      format_registry_def ghost_shipped_def)

text \<open>The registered behaviors of each shipped type, in one table.\<close>

definition format_entry :: "nat \<Rightarrow> registration \<Rightarrow> type_key \<times> catalog_entry" where
  "format_entry n r =
     (TypeKey (ghost_endset n), \<lparr>ce_class = Addrs [ghost_tumbler n], ce_registration = r\<rparr>)"

definition format_catalog :: type_catalog where
  "format_catalog =
     \<lparr>cat_entries =
        [format_entry 2 \<lparr>reg_shape = Unary, reg_idem = True, reg_behaviors = []\<rparr>,
         format_entry 1 \<lparr>reg_shape = Unary, reg_idem = True, reg_behaviors = []\<rparr>,
         format_entry 5 \<lparr>reg_shape = Binary, reg_idem = True, reg_behaviors = []\<rparr>,
         format_entry 4 \<lparr>reg_shape = Binary, reg_idem = True, reg_behaviors = [Walk]\<rparr>,
         format_entry 3 \<lparr>reg_shape = Unary, reg_idem = True, reg_behaviors = [ReadFilter]\<rparr>],
      cat_classes = map (\<lambda>n. TypeKey (ghost_endset n)) [3, 4, 5, 1, 2],
      cat_shipped = map ghost_endset [3, 4, 5, 1, 2],
      cat_read_filter_classes = [(Addrs [ghost_tumbler 3], ghost_endset 3)],
      cat_reverse_lookup_classes = [],
      cat_retraction_class = Addrs [ghost_tumbler 5],
      cat_supersedes_key = TypeKey (ghost_endset 4),
      cat_pred_def_class = Addrs [ghost_tumbler 1],
      cat_pred_stable_class = Addrs [ghost_tumbler 2]\<rparr>"

lemmas registry_defs = reg_reserved_type_def reg_shipped_class_def reg_shipped_def reg_registration_def
  reg_declares_def reg_is_idempotent_def reg_reverse_lookup_classes_def

lemma catalog_project_eq [returns]: "catalog_project format_registry = ret format_catalog"
  by (simp add: catalog_project_def format_registry_def format_catalog_def format_entry_def
      shipped_all_def shipped_index_def registry_defs ghost_shipped_def Let_def numeral_2_eq_2
      numeral_3_eq_3 numeral_eq_Suc key_endset_def)

end
