(* ===== verification/PL_Checker.thy ===== *)
theory PL_Checker
  imports Type_Registry
begin

text \<open>
  The type checker of \<^verbatim>\<open>crates/skep-coordination/src/check.rs\<close>: one synthesis pass over a raw term
  under its parameter context, with class-variable expansion, the catalog and behavior guards,
  the nesting and size doors, and references typed by a resolver.

  The pass's two cells, the spent budget and the deepest level reached, are the threaded
  \<open>chk_state\<close>. The resolver of stored definitions is an argument, as it is a closure in the crate.
  Methods of \<^verbatim>\<open>Checker\<close> that call back into the recursion take it as their argument \<open>chk\<close> (terms)
  or \<open>chkd\<close> (domains); \<open>check_term\<close> and \<open>check_dom\<close> tie the knot.
\<close>

section \<open>Errors and checked forms\<close>

datatype type_error =
    UnboundVariable var_id
  | UnboundClassVar var_id
  | TupParameter var_id
  | DuplicateParameter var_id
  | SortMismatch sort sort
  | ArgArityMismatch address nat nat
  | MisplacedReg
  | BehaviorMissing type_key behavior
  | UnservedWalkClass type_key
  | UncatalogedTypeKey type_key
  | NoReverseLookupClass
  | UndefinedReference address
  | RegInstanceIllTyped type_error
  | TooDeep
  | TooLarge

record typed_term =
  tt_signed :: signed_term
  tt_result :: sort
  tt_evaluable :: pl_term
  tt_ref_free :: bool
  tt_reach :: nat

definition tt_params :: "typed_term \<Rightarrow> (var_id \<times> sort) list" where
  "tt_params tt = st_params (tt_signed tt)"

definition tt_signature :: "typed_term \<Rightarrow> signature" where
  "tt_signature tt = \<lparr>sig_params = st_params (tt_signed tt), sig_result = tt_result tt\<rparr>"

record checked =
  ck_term :: pl_term
  ck_sort :: sort
  ck_ref_free :: bool

record checked_dom =
  cd_dom :: pl_dom
  cd_elem_sort :: sort
  cd_ref_free :: bool

definition want :: "sort \<Rightarrow> sort \<Rightarrow> (unit, type_error) result exec" where
  "want expected found =
     (if expected = found then ok () else err (SortMismatch expected found))"

datatype unresolved = Undefined | UnresolvedTooDeep

datatype guard = Cataloged | Needs behavior | GuardWalk

record prim_rule =
  pr_operand :: sort
  pr_result :: sort

definition ADDR_PRED :: prim_rule where "ADDR_PRED = \<lparr>pr_operand = SAddr, pr_result = SBool\<rparr>"
definition SET_PRED :: prim_rule where "SET_PRED = \<lparr>pr_operand = SAddrSet, pr_result = SBool\<rparr>"
definition NAT_PRED :: prim_rule where "NAT_PRED = \<lparr>pr_operand = SNat, pr_result = SBool\<rparr>"
definition NAT_OP :: prim_rule where "NAT_OP = \<lparr>pr_operand = SNat, pr_result = SNat\<rparr>"
definition SEQ_ELEMS :: prim_rule where "SEQ_ELEMS = \<lparr>pr_operand = SAddrSeq, pr_result = SAddrSet\<rparr>"

lemmas prim_rules = ADDR_PRED_def SET_PRED_def NAT_PRED_def NAT_OP_def SEQ_ELEMS_def

section \<open>Class-variable substitution\<close>

definition subst_typeref :: "var_id \<Rightarrow> type_key \<Rightarrow> type_ref \<Rightarrow> type_ref" where
  "subst_typeref cv k tr =
     (case tr of ClassVar v \<Rightarrow> if v = cv then Concrete k else tr | Concrete _ \<Rightarrow> tr)"

text \<open>An inner \<^verbatim>\<open>Reg\<close> binder of the same name shadows the outer one.\<close>

definition shadows :: "var_id \<Rightarrow> pl_term \<Rightarrow> bool" where
  "shadows cv t =
     (case t of Forall v d b \<Rightarrow> d = Reg \<and> v = cv | Exists v d b \<Rightarrow> d = Reg \<and> v = cv | _ \<Rightarrow> False)"

function subst_term :: "var_id \<Rightarrow> type_key \<Rightarrow> pl_term \<Rightarrow> nat \<Rightarrow> (pl_term \<times> nat) exec"
  and subst_dom :: "var_id \<Rightarrow> type_key \<Rightarrow> pl_dom \<Rightarrow> nat \<Rightarrow> (pl_dom \<times> nat) exec"
where
  "subst_term cv k t nodes =
     (case budget_charge nodes (weight t) of (within, n) \<Rightarrow>
        if \<not> within then ret (Lit LTrue, n)
        else if shadows cv t then ret (t, n)
        else rewrite_term (subst_term cv k) (subst_dom cv k) (subst_typeref cv k) (\<lambda>v. v) t n)"
| "subst_dom cv k d nodes =
     rewrite_dom (subst_term cv k) (subst_dom cv k) (subst_typeref cv k) d nodes"
  by pat_completeness auto
termination
  by (relation "measure (case_sum (\<lambda>(_, _, t, _). size t) (\<lambda>(_, _, d, _). size d))")
    (auto simp: termination_simp)

declare subst_term.simps [simp del] subst_dom.simps [simp del]

lemma rw_list_size:
  assumes "\<And>x s x' s'. x \<in> set xs \<Longrightarrow> f x s = ret (x', s') \<Longrightarrow> size x' \<le> size x"
  shows "rw_list f xs s = ret (xs', s') \<Longrightarrow> size_list size xs' \<le> size_list size xs"
  using assms
proof (induction xs arbitrary: s xs' s')
  case (Cons x xs)
  then obtain x' s1 ys where *: "f x s = ret (x', s1)" "rw_list f xs s1 = ret (ys, s')" "xs' = x' # ys"
    by (auto split: bind_splits)
  have "size x' \<le> size x" using Cons.prems(2) *(1) by simp
  moreover have "size_list size ys \<le> size_list size xs"
    by (rule Cons.IH [OF *(2)]) (use Cons.prems(2) in auto)
  ultimately show ?case using *(3) by simp
qed simp

lemma rewrite_atom_size:
  assumes "\<And>u s u' s'. u \<in> set (atom_kids a) \<Longrightarrow> ft u s = ret (u', s') \<Longrightarrow> size u' \<le> size u"
    and "rewrite_atom ft tr vu a s = ret (a', s')"
  shows "size a' \<le> size a"
  using assms(2) by (cases a) (auto simp: rw1_def rw2_def split: bind_splits dest!: assms(1) [rotated])

lemma rewrite_prim_size:
  assumes "\<And>u s u' s'. u \<in> set (prim_kids a) \<Longrightarrow> ft u s = ret (u', s') \<Longrightarrow> size u' \<le> size u"
    and "rewrite_prim ft tr a s = ret (a', s')"
  shows "size a' \<le> size a"
  using assms(2) by (cases a) (auto simp: rw1_def rw2_def split: bind_splits dest!: assms(1) [rotated])

lemma rewrite_term_size:
  assumes "\<And>u s u' s'. u \<in> set (term_kids t) \<Longrightarrow> ft u s = ret (u', s') \<Longrightarrow> size u' \<le> size u"
    and "\<And>d s d' s'. d \<in> set (term_doms t) \<Longrightarrow> fd d s = ret (d', s') \<Longrightarrow> size d' \<le> size d"
    and "rewrite_term ft fd tr vu t s = ret (t', s')"
  shows "size t' \<le> size t"
proof (cases "(\<exists>a. t = Atom a) \<or> (\<exists>p. t = Prim p) \<or> (\<exists>a ts. t = Ref a ts)")
  case True
  then show ?thesis using assms(1,3)
    by (auto simp: rw1_def split: bind_splits
        dest!: rewrite_atom_size [rotated] rewrite_prim_size [rotated] rw_list_size [rotated])
next
  case False
  then show ?thesis using assms(3)
    by (cases t) (auto simp: rw1_def rw2_def split: bind_splits
        dest!: assms(1) [rotated] assms(2) [rotated])
qed

lemma rewrite_dom_size:
  assumes "\<And>u s u' s'. u \<in> set (dom_kids t) \<Longrightarrow> ft u s = ret (u', s') \<Longrightarrow> size u' \<le> size u"
    and "\<And>d s d' s'. d \<in> set (dom_doms t) \<Longrightarrow> fd d s = ret (d', s') \<Longrightarrow> size d' \<le> size d"
    and "rewrite_dom ft fd tr t s = ret (t', s')"
  shows "size t' \<le> size t"
  using assms(3) by (cases t) (auto simp: rw1_def rw2_def split: bind_splits
      dest!: assms(1) [rotated] assms(2) [rotated])

lemma size_term_pos: "size (Lit l) \<le> size (t :: pl_term)"
  by (cases t) auto

lemma subst_size:
  "subst_term cv k t n = ret (t', n') \<Longrightarrow> size t' \<le> size t"
  "subst_dom cv k d n = ret (d', n') \<Longrightarrow> size d' \<le> size d"
proof (induction cv k t n and cv k d n arbitrary: t' n' and d' n' rule: subst_term_subst_dom.induct)
  case (1 cv k t n)
  obtain within m where b: "budget_charge n (weight t) = (within, m)" by fastforce
  consider "\<not> within" | "within" "shadows cv t" | "within" "\<not> shadows cv t" by blast
  then show ?case
  proof cases
    case 1
    then have "t' = Lit LTrue" using "1.prems" b by (auto simp: subst_term.simps [of cv k t])
    then show ?thesis using size_term_pos by simp
  next
    case 2
    then show ?thesis using "1.prems" b by (simp add: subst_term.simps [of cv k t])
  next
    case 3
    then have "rewrite_term (subst_term cv k) (subst_dom cv k) (subst_typeref cv k) (\<lambda>v. v) t m
      = ret (t', n')" using "1.prems" b by (simp add: subst_term.simps [of cv k t])
    then show ?thesis
      by (rule rewrite_term_size [rotated 2]) (use 3 "1.IH" [OF b [symmetric]] in auto)
  qed
next
  case (2 cv k d n)
  then show ?case
    by (intro rewrite_dom_size [of d "subst_term cv k" "subst_dom cv k"]) (auto simp: subst_dom.simps [of cv k d])
qed

section \<open>The pass\<close>

type_synonym ctx = "var_id \<Rightarrow> sort option"

record chk_state =
  ck_nodes :: nat
  ck_deepest :: nat

type_synonym 'a chk = "chk_state \<Rightarrow> ('a \<times> chk_state, type_error) result exec"

record checker =
  ckr_catalog :: type_catalog
  ckr_resolve :: "address \<Rightarrow> nat \<Rightarrow> (typed_term, unresolved) result"

definition reach_to :: "nat \<Rightarrow> unit chk" where
  "reach_to lvl st =
     (if lvl > MAX_DEPTH then err TooDeep
      else ok ((), st\<lparr>ck_deepest := max (ck_deepest st) lvl\<rparr>))"

definition enter :: "nat \<Rightarrow> nat \<Rightarrow> unit chk" where
  "enter w depth st =
     and_then (reach_to depth st) (\<lambda>(_, st1).
       case budget_charge (ck_nodes st1) w of (within, n) \<Rightarrow>
         if within then ok ((), st1\<lparr>ck_nodes := n\<rparr>) else err TooLarge)"

definition guarded :: "type_catalog \<Rightarrow> type_ref \<Rightarrow> guard \<Rightarrow> (type_key, type_error) result exec" where
  "guarded C tr g =
     (case tr of
        ClassVar v \<Rightarrow> err (UnboundClassVar v)
      | Concrete k \<Rightarrow>
          (case catalog_get C k of
             None \<Rightarrow> err (UncatalogedTypeKey k)
           | Some entry \<Rightarrow>
               let require = (\<lambda>b. if entry_declares entry b then ok () else err (BehaviorMissing k b)) in
               and_then
                 (case g of
                    Cataloged \<Rightarrow> ok ()
                  | Needs b \<Rightarrow> require b
                  | GuardWalk \<Rightarrow> and_then (require Walk) (\<lambda>_.
                      if k \<noteq> cat_supersedes_key C then err (UnservedWalkClass k) else ok ()))
                 (\<lambda>_. ok k)))"

type_synonym check_fn = "ctx \<Rightarrow> pl_term \<Rightarrow> nat \<Rightarrow> checked chk"
type_synonym check_dom_fn = "ctx \<Rightarrow> pl_dom \<Rightarrow> nat \<Rightarrow> checked_dom chk"

definition sub_check :: "check_fn \<Rightarrow> ctx \<Rightarrow> pl_term \<Rightarrow> sort \<Rightarrow> nat \<Rightarrow> checked chk" where
  "sub_check chk ctx t expected depth st =
     and_then (chk ctx t depth st) (\<lambda>(c, st1).
       and_then (want expected (ck_sort c)) (\<lambda>_. ok (c, st1)))"

definition bool2 ::
  "check_fn \<Rightarrow> ctx \<Rightarrow> pl_term \<Rightarrow> pl_term \<Rightarrow> nat \<Rightarrow> (pl_term \<Rightarrow> pl_term \<Rightarrow> pl_term) \<Rightarrow> checked chk" where
  "bool2 chk ctx a b depth mk st =
     and_then (sub_check chk ctx a SBool depth st) (\<lambda>(ca, st1).
     and_then (sub_check chk ctx b SBool depth st1) (\<lambda>(cb, st2).
       ok (\<lparr>ck_term = mk (ck_term ca) (ck_term cb), ck_sort = SBool,
            ck_ref_free = ck_ref_free ca \<and> ck_ref_free cb\<rparr>, st2)))"

definition quantified ::
  "check_fn \<Rightarrow> check_dom_fn \<Rightarrow> ctx \<Rightarrow> var_id \<Rightarrow> pl_dom \<Rightarrow> pl_term \<Rightarrow> nat \<Rightarrow> (checked_dom \<times> checked) chk"
where
  "quantified chk chkd ctx v d body depth st =
     and_then (chkd ctx d depth st) (\<lambda>(cd, st1).
     and_then (sub_check chk (ctx(v \<mapsto> cd_elem_sort cd)) body SBool depth st1) (\<lambda>(c, st2).
       ok ((cd, c), st2)))"

definition extremum ::
  "check_dom_fn \<Rightarrow> ctx \<Rightarrow> pl_dom \<Rightarrow> nat \<Rightarrow> (pl_dom \<Rightarrow> pl_term) \<Rightarrow> checked chk" where
  "extremum chkd ctx d depth mk st =
     and_then (chkd ctx d depth st) (\<lambda>(cd, st1).
     and_then (want SAddr (cd_elem_sort cd)) (\<lambda>_.
       ok (\<lparr>ck_term = mk (cd_dom cd), ck_sort = SOptAddr, ck_ref_free = cd_ref_free cd\<rparr>, st1)))"

definition leaf :: "pl_term \<Rightarrow> sort \<Rightarrow> checked chk" where
  "leaf t s st = ok (\<lparr>ck_term = t, ck_sort = s, ck_ref_free = True\<rparr>, st)"

fun reference_args_loop ::
  "check_fn \<Rightarrow> ctx \<Rightarrow> address \<Rightarrow> (var_id \<times> sort) list \<Rightarrow> nat \<Rightarrow> nat \<Rightarrow> nat \<Rightarrow> pl_term list \<Rightarrow> pl_term list chk"
where
  "reference_args_loop chk ctx a params found depth i [] st = ok ([], st)"
| "reference_args_loop chk ctx a params found depth i (arg # args) st =
     and_then (chk ctx arg (argument_depth depth i) st) (\<lambda>(c, st1).
     and_then (if i < length params then want (snd (params ! i)) (ck_sort c)
               else err (ArgArityMismatch a (length params) found)) (\<lambda>_.
     and_then (reference_args_loop chk ctx a params found depth (Suc i) args st1) (\<lambda>(cs, st2).
       ok (ck_term c # cs, st2))))"

definition reference_args ::
  "check_fn \<Rightarrow> ctx \<Rightarrow> address \<Rightarrow> typed_term \<Rightarrow> pl_term list \<Rightarrow> nat \<Rightarrow> pl_term list chk" where
  "reference_args chk ctx a referent args depth st =
     (let params = tt_params referent in
      and_then (reference_args_loop chk ctx a params (length args) depth 0 args st) (\<lambda>(cs, st1).
        if length args < length params
        then err (ArgArityMismatch a (length params) (length args))
        else ok (cs, st1)))"

definition reg_instance_error :: "type_error \<Rightarrow> type_error" where
  "reg_instance_error e =
     (case e of TooDeep \<Rightarrow> e | TooLarge \<Rightarrow> e | _ \<Rightarrow> RegInstanceIllTyped e)"

fun expand_reg_loop ::
  "check_fn \<Rightarrow> ctx \<Rightarrow> var_id \<Rightarrow> pl_term \<Rightarrow> nat \<Rightarrow> (pl_term \<Rightarrow> pl_term \<Rightarrow> pl_term) \<Rightarrow>
   type_key list \<Rightarrow> checked option \<Rightarrow> checked chk"
where
  "expand_reg_loop chk ctx cvar body inst_depth join [] acc st =
     (case acc of None \<Rightarrow> panic | Some c \<Rightarrow> ok (c, st))"
| "expand_reg_loop chk ctx cvar body inst_depth join (k # ks) acc st =
     (case subst_term cvar k body (ck_nodes st) of
        None \<Rightarrow> panic
      | Some (inst, n) \<Rightarrow>
          if budget_spent n then err TooLarge
          else (case sub_check chk ctx inst SBool inst_depth (st\<lparr>ck_nodes := n\<rparr>) of
                  None \<Rightarrow> panic
                | Some (Inl e) \<Rightarrow> err (reg_instance_error e)
                | Some (Inr (c, st1)) \<Rightarrow>
                    expand_reg_loop chk ctx cvar body inst_depth join ks
                      (Some (case acc of
                               None \<Rightarrow> c
                             | Some prev \<Rightarrow>
                                 \<lparr>ck_term = join (ck_term prev) (ck_term c), ck_sort = SBool,
                                  ck_ref_free = ck_ref_free prev \<and> ck_ref_free c\<rparr>)) st1))"

definition expand_reg ::
  "type_catalog \<Rightarrow> check_fn \<Rightarrow> ctx \<Rightarrow> var_id \<Rightarrow> pl_term \<Rightarrow> nat \<Rightarrow> (pl_term \<Rightarrow> pl_term \<Rightarrow> pl_term) \<Rightarrow>
   checked chk" where
  "expand_reg C chk ctx cvar body depth join st =
     (let classes = cat_classes C;
          inst_depth = saturating_add 32 depth (clamp 32 (length classes - 1)) in
      expand_reg_loop chk ctx cvar body inst_depth join classes None st)"

text \<open>An atom with a guarded type position and operands, each one level below it.\<close>

definition tup_var :: "ctx \<Rightarrow> var_id \<Rightarrow> (var_id, type_error) result exec" where
  "tup_var ctx v =
     (case ctx v of
        None \<Rightarrow> err (UnboundVariable v)
      | Some s \<Rightarrow> if s = STup then ok v else err (SortMismatch STup s))"

definition atom0 ::
  "type_catalog \<Rightarrow> type_ref \<Rightarrow> guard \<Rightarrow> (type_ref \<Rightarrow> pl_atom) \<Rightarrow> sort \<Rightarrow> checked chk" where
  "atom0 C tr g mk s st =
     and_then (guarded C tr g) (\<lambda>k.
       ok (\<lparr>ck_term = Atom (mk (Concrete k)), ck_sort = s, ck_ref_free = True\<rparr>, st))"

definition atom1 ::
  "type_catalog \<Rightarrow> check_fn \<Rightarrow> ctx \<Rightarrow> nat \<Rightarrow> type_ref \<Rightarrow> guard \<Rightarrow> (type_ref \<Rightarrow> pl_term \<Rightarrow> pl_atom) \<Rightarrow>
   pl_term \<Rightarrow> sort \<Rightarrow> sort \<Rightarrow> checked chk" where
  "atom1 C chk ctx d tr g mk e operand s st =
     and_then (guarded C tr g) (\<lambda>k.
     and_then (sub_check chk ctx e operand d st) (\<lambda>(c, st1).
       ok (\<lparr>ck_term = Atom (mk (Concrete k) (ck_term c)), ck_sort = s, ck_ref_free = ck_ref_free c\<rparr>, st1)))"

definition tup_atom :: "ctx \<Rightarrow> (var_id \<Rightarrow> pl_atom) \<Rightarrow> var_id \<Rightarrow> sort \<Rightarrow> checked chk" where
  "tup_atom ctx mk v s st =
     and_then (tup_var ctx v) (\<lambda>w.
       ok (\<lparr>ck_term = Atom (mk w), ck_sort = s, ck_ref_free = True\<rparr>, st))"

definition coverage_atom ::
  "check_fn \<Rightarrow> ctx \<Rightarrow> nat \<Rightarrow> (pl_term \<Rightarrow> var_id \<Rightarrow> pl_atom) \<Rightarrow> pl_term \<Rightarrow> var_id \<Rightarrow> checked chk" where
  "coverage_atom chk ctx d mk e v st =
     and_then (sub_check chk ctx e SAddr d st) (\<lambda>(c, st1).
     and_then (tup_var ctx v) (\<lambda>w.
       ok (\<lparr>ck_term = Atom (mk (ck_term c) w), ck_sort = SBool, ck_ref_free = ck_ref_free c\<rparr>, st1)))"

definition check_atom :: "type_catalog \<Rightarrow> check_fn \<Rightarrow> ctx \<Rightarrow> pl_atom \<Rightarrow> nat \<Rightarrow> checked chk" where
  "check_atom C chk ctx a depth st =
     (let d = depth + 1 in
      case a of
        IsK tr e \<Rightarrow> atom1 C chk ctx d tr Cataloged IsK e SAddr SBool st
      | Members tr \<Rightarrow> atom0 C tr Cataloged Members SAddrSet st
      | TargetsOf tr e \<Rightarrow> atom1 C chk ctx d tr Cataloged TargetsOf e SAddr SAddrSet st
      | IsFiltered tr e \<Rightarrow> atom1 C chk ctx d tr (Needs ReadFilter) IsFiltered e SAddr SBool st
      | Succs tr e \<Rightarrow> atom1 C chk ctx d tr GuardWalk Succs e SAddr SAddrSet st
      | Chain tr e \<Rightarrow> atom1 C chk ctx d tr GuardWalk Chain e SAddr SAddrSeq st
      | Tip tr e \<Rightarrow> atom1 C chk ctx d tr GuardWalk Tip e SAddr SOptAddr st
      | IsInChain tr e1 e2 \<Rightarrow>
          and_then (guarded C tr GuardWalk) (\<lambda>k.
          and_then (sub_check chk ctx e1 SAddr d st) (\<lambda>(c1, st1).
          and_then (sub_check chk ctx e2 SAddr d st1) (\<lambda>(c2, st2).
            ok (\<lparr>ck_term = Atom (IsInChain (Concrete k) (ck_term c1) (ck_term c2)), ck_sort = SBool,
                 ck_ref_free = ck_ref_free c1 \<and> ck_ref_free c2\<rparr>, st2))))
      | SourcesTo tr e \<Rightarrow> atom1 C chk ctx d tr (Needs ReverseLookup) SourcesTo e SAddr SAddrSet st
      | TargetOf tr e \<Rightarrow> atom1 C chk ctx d tr (Needs ReverseLookup) TargetOf e SAddr SOptAddr st
      | TargetsKeyed e \<Rightarrow>
          if \<not> has_reverse_lookup_class C then err NoReverseLookupClass
          else and_then (sub_check chk ctx e SAddr d st) (\<lambda>(c, st1).
            ok (\<lparr>ck_term = Atom (TargetsKeyed (ck_term c)), ck_sort = SMap,
                 ck_ref_free = ck_ref_free c\<rparr>, st1))
      | Age tr e \<Rightarrow> atom1 C chk ctx d tr (Needs AgeStaleness) Age e SAddr SOptNat st
      | Stale tr e \<Rightarrow> atom1 C chk ctx d tr (Needs AgeStaleness) Stale e SNat SAddrSet st
      | IsDoc e \<Rightarrow>
          and_then (sub_check chk ctx e SAddr d st) (\<lambda>(c, st1).
            ok (\<lparr>ck_term = Atom (IsDoc (ck_term c)), ck_sort = SBool, ck_ref_free = ck_ref_free c\<rparr>, st1))
      | TupAddr v \<Rightarrow> tup_atom ctx TupAddr v SAddr st
      | TupAddrsF v \<Rightarrow> tup_atom ctx TupAddrsF v SAddrSet st
      | TupAddrsG v \<Rightarrow> tup_atom ctx TupAddrsG v SAddrSet st
      | InCoverageF e v \<Rightarrow> coverage_atom chk ctx d InCoverageF e v st
      | InCoverageG e v \<Rightarrow> coverage_atom chk ctx d InCoverageG e v st)"

definition prim2 ::
  "check_fn \<Rightarrow> ctx \<Rightarrow> pl_term \<Rightarrow> pl_term \<Rightarrow> nat \<Rightarrow> prim_rule \<Rightarrow> (pl_term \<Rightarrow> pl_term \<Rightarrow> pl_prim) \<Rightarrow> checked chk"
where
  "prim2 chk ctx x y depth rule mk st =
     and_then (sub_check chk ctx x (pr_operand rule) depth st) (\<lambda>(cx, st1).
     and_then (sub_check chk ctx y (pr_operand rule) depth st1) (\<lambda>(cy, st2).
       ok (\<lparr>ck_term = Prim (mk (ck_term cx) (ck_term cy)), ck_sort = pr_result rule,
            ck_ref_free = ck_ref_free cx \<and> ck_ref_free cy\<rparr>, st2)))"

definition prim1 ::
  "check_fn \<Rightarrow> ctx \<Rightarrow> pl_term \<Rightarrow> nat \<Rightarrow> prim_rule \<Rightarrow> (pl_term \<Rightarrow> pl_prim) \<Rightarrow> checked chk" where
  "prim1 chk ctx x depth rule mk st =
     and_then (sub_check chk ctx x (pr_operand rule) depth st) (\<lambda>(cx, st1).
       ok (\<lparr>ck_term = Prim (mk (ck_term cx)), ck_sort = pr_result rule,
            ck_ref_free = ck_ref_free cx\<rparr>, st1))"

definition check_prim :: "type_catalog \<Rightarrow> check_fn \<Rightarrow> ctx \<Rightarrow> pl_prim \<Rightarrow> nat \<Rightarrow> checked chk" where
  "check_prim C chk ctx p depth st =
     (let d = depth + 1 in
      case p of
        AddrEq a b \<Rightarrow> prim2 chk ctx a b d ADDR_PRED AddrEq st
      | Prefix a b \<Rightarrow> prim2 chk ctx a b d ADDR_PRED Prefix st
      | T1Lt a b \<Rightarrow> prim2 chk ctx a b d ADDR_PRED T1Lt st
      | SetEq a b \<Rightarrow> prim2 chk ctx a b d SET_PRED SetEq st
      | NatEq a b \<Rightarrow> prim2 chk ctx a b d NAT_PRED NatEq st
      | NatLe a b \<Rightarrow> prim2 chk ctx a b d NAT_PRED NatLe st
      | NatAdd a b \<Rightarrow> prim2 chk ctx a b d NAT_OP NatAdd st
      | IsEmpty s \<Rightarrow> prim1 chk ctx s d SET_PRED IsEmpty st
      | Elems q \<Rightarrow> prim1 chk ctx q d SEQ_ELEMS Elems st
      | SetMem x s \<Rightarrow>
          and_then (sub_check chk ctx x SAddr d st) (\<lambda>(cx, st1).
          and_then (sub_check chk ctx s SAddrSet d st1) (\<lambda>(cs, st2).
            ok (\<lparr>ck_term = Prim (SetMem (ck_term cx) (ck_term cs)), ck_sort = SBool,
                 ck_ref_free = ck_ref_free cx \<and> ck_ref_free cs\<rparr>, st2)))
      | MapGet m tr \<Rightarrow>
          and_then (guarded C tr Cataloged) (\<lambda>k.
          and_then (sub_check chk ctx m SMap d st) (\<lambda>(cm, st1).
            ok (\<lparr>ck_term = Prim (MapGet (ck_term cm) (Concrete k)), ck_sort = SOptAddr,
                 ck_ref_free = ck_ref_free cm\<rparr>, st1)))
      | Def x \<Rightarrow>
          and_then (chk ctx x d st) (\<lambda>(c, st1).
            if ck_sort c = SOptAddr \<or> ck_sort c = SOptNat
            then ok (\<lparr>ck_term = Prim (Def (ck_term c)), ck_sort = SBool, ck_ref_free = ck_ref_free c\<rparr>, st1)
            else err (SortMismatch SOptAddr (ck_sort c))))"

subsection \<open>What the helpers ask of the recursion\<close>

lemma sub_check_cong [fundef_cong]:
  "(\<And>st. chk ctx t depth st = chk' ctx t depth st) \<Longrightarrow>
   sub_check chk ctx t e depth st = sub_check chk' ctx t e depth st"
  by (simp add: sub_check_def)

lemma bool2_cong [fundef_cong]:
  "(\<And>u st. u = a \<or> u = b \<Longrightarrow> chk ctx u depth st = chk' ctx u depth st) \<Longrightarrow>
   bool2 chk ctx a b depth mk st = bool2 chk' ctx a b depth mk st"
  by (simp add: bool2_def sub_check_def)

lemma quantified_cong [fundef_cong]:
  "(\<And>c st. chk c body depth st = chk' c body depth st) \<Longrightarrow>
   (\<And>st. chkd ctx d depth st = chkd' ctx d depth st) \<Longrightarrow>
   quantified chk chkd ctx v d body depth st = quantified chk' chkd' ctx v d body depth st"
  by (simp add: quantified_def sub_check_def)

lemma extremum_cong [fundef_cong]:
  "(\<And>st. chkd ctx d depth st = chkd' ctx d depth st) \<Longrightarrow>
   extremum chkd ctx d depth mk st = extremum chkd' ctx d depth mk st"
  by (simp add: extremum_def)

lemma reference_args_cong [fundef_cong]:
  assumes "\<And>u d st. u \<in> set args \<Longrightarrow> chk ctx u d st = chk' ctx u d st"
  shows "reference_args chk ctx a tt args depth st = reference_args chk' ctx a tt args depth st"
proof -
  have "reference_args_loop chk ctx a ps f depth i as st = reference_args_loop chk' ctx a ps f depth i as st"
    if "\<And>u d st. u \<in> set as \<Longrightarrow> chk ctx u d st = chk' ctx u d st" for ps f i as st
    using that by (induction as arbitrary: i st) (auto intro!: and_then_cong)
  then show ?thesis using assms by (simp add: reference_args_def)
qed

lemma expand_reg_cong [fundef_cong]:
  assumes "\<And>u d st. size u \<le> size body \<Longrightarrow> chk ctx u d st = chk' ctx u d st"
  shows "expand_reg C chk ctx cv body depth join st = expand_reg C chk' ctx cv body depth join st"
proof -
  have "expand_reg_loop chk ctx cv body d join ks acc st = expand_reg_loop chk' ctx cv body d join ks acc st"
    for d ks acc st
  proof (induction ks arbitrary: acc st)
    case (Cons k ks)
    show ?case
    proof (cases "subst_term cv k body (ck_nodes st)")
      case (Some p)
      then obtain inst n where p: "subst_term cv k body (ck_nodes st) = ret (inst, n)"
        by (cases p) auto
      then have "sub_check chk ctx inst SBool d st1 = sub_check chk' ctx inst SBool d st1" for st1
        using assms subst_size(1) [OF p] by (simp add: sub_check_def)
      then show ?thesis using p Cons.IH by (auto split: option.split sum.split)
    qed simp
  qed simp
  then show ?thesis by (simp add: expand_reg_def Let_def)
qed

lemma check_atom_cong [fundef_cong]:
  assumes "\<And>u d st. u \<in> set (atom_kids a) \<Longrightarrow> chk ctx u d st = chk' ctx u d st"
  shows "check_atom C chk ctx a depth st = check_atom C chk' ctx a depth st"
  using assms
  by (cases a) (simp_all add: check_atom_def atom1_def coverage_atom_def sub_check_def)

lemma check_prim_cong [fundef_cong]:
  assumes "\<And>u d st. u \<in> set (prim_kids p) \<Longrightarrow> chk ctx u d st = chk' ctx u d st"
  shows "check_prim C chk ctx p depth st = check_prim C chk' ctx p depth st"
  using assms
  by (cases p) (simp_all add: check_prim_def prim1_def prim2_def sub_check_def)

subsection \<open>The two judgments\<close>

function check_term :: "checker \<Rightarrow> ctx \<Rightarrow> pl_term \<Rightarrow> nat \<Rightarrow> checked chk"
  and check_dom :: "checker \<Rightarrow> ctx \<Rightarrow> pl_dom \<Rightarrow> nat \<Rightarrow> checked_dom chk"
where
  "check_term ck ctx t depth st =
     and_then (enter (weight t) depth st) (\<lambda>(_, st).
     let d = depth + 1 in
     case t of
       Var v \<Rightarrow> (case ctx v of Some s \<Rightarrow> leaf (Var v) s st | None \<Rightarrow> err (UnboundVariable v))
     | Lit l \<Rightarrow>
         leaf (Lit l) (case l of
             LTrue \<Rightarrow> SBool | LFalse \<Rightarrow> SBool | LNat _ \<Rightarrow> SNat | LAddr _ \<Rightarrow> SAddr
           | LBotAddr \<Rightarrow> SOptAddr | LBotNat \<Rightarrow> SOptNat) st
     | Atom a \<Rightarrow> check_atom (ckr_catalog ck) (check_term ck) ctx a depth st
     | Prim p \<Rightarrow> check_prim (ckr_catalog ck) (check_term ck) ctx p depth st
     | And a b \<Rightarrow> bool2 (check_term ck) ctx a b d And st
     | Or a b \<Rightarrow> bool2 (check_term ck) ctx a b d Or st
     | Implies a b \<Rightarrow> bool2 (check_term ck) ctx a b d Implies st
     | Iff a b \<Rightarrow> bool2 (check_term ck) ctx a b d Iff st
     | Not_t a \<Rightarrow>
         and_then (sub_check (check_term ck) ctx a SBool d st) (\<lambda>(ca, st1).
           ok (\<lparr>ck_term = Not_t (ck_term ca), ck_sort = SBool, ck_ref_free = ck_ref_free ca\<rparr>, st1))
     | Forall v dm body \<Rightarrow>
         if dm = Reg then expand_reg (ckr_catalog ck) (check_term ck) ctx v body depth And st
         else and_then (quantified (check_term ck) (check_dom ck) ctx v dm body d st) (\<lambda>((cd, cb), st1).
           ok (\<lparr>ck_term = Forall v (cd_dom cd) (ck_term cb), ck_sort = SBool,
                ck_ref_free = cd_ref_free cd \<and> ck_ref_free cb\<rparr>, st1))
     | Exists v dm body \<Rightarrow>
         if dm = Reg then expand_reg (ckr_catalog ck) (check_term ck) ctx v body depth Or st
         else and_then (quantified (check_term ck) (check_dom ck) ctx v dm body d st) (\<lambda>((cd, cb), st1).
           ok (\<lparr>ck_term = Exists v (cd_dom cd) (ck_term cb), ck_sort = SBool,
                ck_ref_free = cd_ref_free cd \<and> ck_ref_free cb\<rparr>, st1))
     | Let_t v bound body \<Rightarrow>
         and_then (check_term ck ctx bound d st) (\<lambda>(cbound, st1).
         and_then (check_term ck (ctx(v \<mapsto> ck_sort cbound)) body d st1) (\<lambda>(cbody, st2).
           ok (\<lparr>ck_term = Let_t v (ck_term cbound) (ck_term cbody), ck_sort = ck_sort cbody,
                ck_ref_free = ck_ref_free cbound \<and> ck_ref_free cbody\<rparr>, st2)))
     | IfSome opt v then_t else_t \<Rightarrow>
         and_then (check_term ck ctx opt d st) (\<lambda>(co, st1).
         and_then (case ck_sort co of
             SOptAddr \<Rightarrow> ok SAddr
           | SOptNat \<Rightarrow> ok SNat
           | other \<Rightarrow> err (SortMismatch SOptAddr other)) (\<lambda>narrowed.
         and_then (check_term ck (ctx(v \<mapsto> narrowed)) then_t d st1) (\<lambda>(ct, st2).
         and_then (check_term ck ctx else_t d st2) (\<lambda>(ce, st3).
         and_then (want (ck_sort ct) (ck_sort ce)) (\<lambda>_.
           ok (\<lparr>ck_term = IfSome (ck_term co) v (ck_term ct) (ck_term ce), ck_sort = ck_sort ct,
                ck_ref_free = ck_ref_free co \<and> ck_ref_free ct \<and> ck_ref_free ce\<rparr>, st3))))))
     | Count dm \<Rightarrow>
         if dm = Reg then leaf (Lit (LNat (length (cat_classes (ckr_catalog ck))))) SNat st
         else and_then (check_dom ck ctx dm d st) (\<lambda>(cd, st1).
           ok (\<lparr>ck_term = Count (cd_dom cd), ck_sort = SNat, ck_ref_free = cd_ref_free cd\<rparr>, st1))
     | MaxT1 dm \<Rightarrow> extremum (check_dom ck) ctx dm d MaxT1 st
     | MinT1 dm \<Rightarrow> extremum (check_dom ck) ctx dm d MinT1 st
     | BigUnion dm v body \<Rightarrow>
         and_then (check_dom ck ctx dm d st) (\<lambda>(cd, st1).
         and_then (sub_check (check_term ck) (ctx(v \<mapsto> cd_elem_sort cd)) body SAddrSet d st1) (\<lambda>(cb, st2).
           ok (\<lparr>ck_term = BigUnion (cd_dom cd) v (ck_term cb), ck_sort = SAddrSet,
                ck_ref_free = cd_ref_free cd \<and> ck_ref_free cb\<rparr>, st2)))
     | Reflect dm \<Rightarrow>
         and_then (check_dom ck ctx dm d st) (\<lambda>(cd, st1).
         and_then (want SAddr (cd_elem_sort cd)) (\<lambda>_.
           ok (\<lparr>ck_term = Reflect (cd_dom cd), ck_sort = SAddrSet, ck_ref_free = cd_ref_free cd\<rparr>, st1)))
     | Ref a args \<Rightarrow>
         (case ckr_resolve ck a (referent_depth depth) of
            Inl Undefined \<Rightarrow> err (UndefinedReference a)
          | Inl UnresolvedTooDeep \<Rightarrow> err TooDeep
          | Inr referent \<Rightarrow>
              and_then (reach_to (reference_reach depth (length args) (tt_reach referent)) st) (\<lambda>(_, st1).
              and_then (reference_args (check_term ck) ctx a referent args depth st1) (\<lambda>(cs, st2).
                ok (\<lparr>ck_term = Ref a cs, ck_sort = tt_result referent, ck_ref_free = False\<rparr>, st2)))))"
| "check_dom ck ctx dm depth st =
     and_then (enter 1 depth st) (\<lambda>(_, st).
     let d = depth + 1;
         dleaf = (\<lambda>dm s. ok (\<lparr>cd_dom = dm, cd_elem_sort = s, cd_ref_free = True\<rparr>, st)) in
     case dm of
       MembersDom tr \<Rightarrow>
         and_then (guarded (ckr_catalog ck) tr Cataloged) (\<lambda>k. dleaf (MembersDom (Concrete k)) SAddr)
     | ActiveSlice tr \<Rightarrow>
         and_then (guarded (ckr_catalog ck) tr Cataloged) (\<lambda>k. dleaf (ActiveSlice (Concrete k)) STup)
     | AuditSlice tr \<Rightarrow>
         and_then (guarded (ckr_catalog ck) tr Cataloged) (\<lambda>k. dleaf (AuditSlice (Concrete k)) STup)
     | LinkDom \<Rightarrow> dleaf LinkDom SAddr
     | Reg \<Rightarrow> err MisplacedReg
     | Filter base v pred \<Rightarrow>
         and_then (check_dom ck ctx base d st) (\<lambda>(cb, st1).
         and_then (sub_check (check_term ck) (ctx(v \<mapsto> cd_elem_sort cb)) pred SBool d st1) (\<lambda>(c, st2).
           ok (\<lparr>cd_dom = Filter (cd_dom cb) v (ck_term c), cd_elem_sort = cd_elem_sort cb,
                cd_ref_free = cd_ref_free cb \<and> ck_ref_free c\<rparr>, st2)))
     | SetTerm t \<Rightarrow>
         and_then (sub_check (check_term ck) ctx t SAddrSet d st) (\<lambda>(c, st1).
           ok (\<lparr>cd_dom = SetTerm (ck_term c), cd_elem_sort = SAddr, cd_ref_free = ck_ref_free c\<rparr>, st1)))"
  by pat_completeness auto
termination
  by (relation "measure (case_sum (\<lambda>(_, _, t, _, _). size t) (\<lambda>(_, _, d, _, _). size d))")
    (auto dest: atom_kids_size prim_kids_size size_list_estimation' [where f = size, OF _ order.refl])

declare check_term.simps [simp del] check_dom.simps [simp del]

fun first_duplicate :: "var_id list \<Rightarrow> (var_id \<times> sort) list \<Rightarrow> var_id option" where
  "first_duplicate seen [] = None"
| "first_duplicate seen ((v, _) # ps) =
     (if v \<in> set seen then Some v else first_duplicate (v # seen) ps)"

text \<open>Collecting a map from pairs keeps the last binding of a name.\<close>

definition collect_map :: "('k \<times> 'v) list \<Rightarrow> ('k \<rightharpoonup> 'v)" where
  "collect_map ps = map_of (rev ps)"

definition check_signed :: "checker \<Rightarrow> signed_term \<Rightarrow> nat \<Rightarrow> (typed_term, type_error) result exec" where
  "check_signed ck signed depth =
     (case budget_charge 0 (length (st_params signed)) of (within, n) \<Rightarrow>
        if \<not> within then err TooLarge
        else (case first_duplicate [] (st_params signed) of
                Some v \<Rightarrow> err (DuplicateParameter v)
              | None \<Rightarrow>
                  and_then (check_term ck (collect_map (st_params signed)) (st_body signed) depth
                              \<lparr>ck_nodes = n, ck_deepest = 0\<rparr>) (\<lambda>(c, st).
                    ok \<lparr>tt_signed = signed, tt_result = ck_sort c, tt_evaluable = ck_term c,
                        tt_ref_free = ck_ref_free c, tt_reach = ck_deepest st - depth\<rparr>)))"

definition check_closed_dom :: "checker \<Rightarrow> pl_dom \<Rightarrow> (checked_dom, type_error) result exec" where
  "check_closed_dom ck d =
     and_then (check_dom ck (\<lambda>_. None) d 0 \<lparr>ck_nodes = 0, ck_deepest = 0\<rparr>) (\<lambda>(cd, st). ok cd)"

end
