(* ===== verification/Link_Store.thy ===== *)
theory Link_Store
  imports Type_Registry "HOL-Library.Product_Lexorder" "HOL-Library.Multiset"
begin

text \<open>
  The link store: \<^verbatim>\<open>crates/skep-links/src/state.rs\<close> (the map, its one journal record and its hint
  fold), \<^verbatim>\<open>dedup.rs\<close> (the idempotence identity) and the typed observers of
  \<^verbatim>\<open>state/reads.rs\<close>.

  The authoritative \<^verbatim>\<open>OrdMap\<close> is its association list in key order. Each hash map of the hints is
  a HOL map and each \<^verbatim>\<open>OrdSet\<close> the ascending list of its elements, so two hint values are equal
  exactly when the crate's maps hold the same entries. A supersession edge is the pair of the
  claimed successor and its claim, ordered as the derived \<^verbatim>\<open>Ord\<close> orders it. The coverage index of
  \<^verbatim>\<open>spanfilade.rs\<close> is left out: no read modelled here consults it.
\<close>

section \<open>The store and its hint fold\<close>

record dedup_key =
  dk_ty :: coverage_class
  dk_from :: coverage_class
  dk_to :: coverage_class

definition dedup_key_of :: "link \<Rightarrow> dedup_key exec" where
  "dedup_key_of v = do {
     ty_slot \<leftarrow> type_slot v;
     ty \<leftarrow> coverage_class ty_slot;
     f_slot \<leftarrow> from_slot v;
     f \<leftarrow> coverage_class f_slot;
     g_slot \<leftarrow> to_slot v;
     g \<leftarrow> coverage_class g_slot;
     ret \<lparr>dk_ty = ty, dk_from = f, dk_to = g\<rparr> }"

type_synonym sup_edge = "tumbler \<times> tumbler"

datatype link_rec = Deposit tumbler link

datatype sup_schema_fault = NotSingleDenoted | NotResident | Reflexive

record hints =
  h_type_slices :: "coverage_class \<rightharpoonup> tumbler list"
  h_nullified :: "tumbler list"
  h_retractions :: "tumbler \<rightharpoonup> tumbler list"
  h_dedup :: "dedup_key \<rightharpoonup> tumbler list"
  h_sup_fwd :: "tumbler \<rightharpoonup> sup_edge list"
  h_home_frontier :: "tumbler \<rightharpoonup> nat"

record link_state =
  ls_links :: "(tumbler \<times> link) list"
  ls_hints :: hints

definition hints_default :: hints where
  "hints_default =
     \<lparr>h_type_slices = (\<lambda>_. None), h_nullified = [], h_retractions = (\<lambda>_. None),
      h_dedup = (\<lambda>_. None), h_sup_fwd = (\<lambda>_. None), h_home_frontier = (\<lambda>_. None)\<rparr>"

definition links_genesis :: link_state where
  "links_genesis = \<lparr>ls_links = [], ls_hints = hints_default\<rparr>"

text \<open>\<^verbatim>\<open>entry(..).or_default().insert(..)\<close>, one element or several.\<close>

definition entry_or_default :: "('k \<rightharpoonup> 'a list) \<Rightarrow> 'k \<Rightarrow> 'a list" where
  "entry_or_default m k = (case m k of None \<Rightarrow> [] | Some xs \<Rightarrow> xs)"

definition entry_insert :: "'a :: linorder \<Rightarrow> 'k \<Rightarrow> ('k \<rightharpoonup> 'a list) \<Rightarrow> ('k \<rightharpoonup> 'a list)" where
  "entry_insert x k m = m(k \<mapsto> insort_insert x (entry_or_default m k))"

definition entry_insert_all :: "'a :: linorder list \<Rightarrow> 'k \<Rightarrow> ('k \<rightharpoonup> 'a list) \<Rightarrow> ('k \<rightharpoonup> 'a list)" where
  "entry_insert_all xs k m = m(k \<mapsto> fold insort_insert xs (entry_or_default m k))"

definition lift :: "tumbler \<Rightarrow> address exec" where
  "lift t = do { r \<leftarrow> validate t; expect_ok r }"

definition fold_hints :: "hints \<Rightarrow> tumbler \<Rightarrow> link \<Rightarrow> hints exec" where
  "fold_hints h addr v = do {
     R \<leftarrow> registry_build;
     ty \<leftarrow> type_slot v;
     cls \<leftarrow> coverage_class ty;
     let h = h\<lparr>h_type_slices := entry_insert addr cls (h_type_slices h)\<rparr>;
     h \<leftarrow> (if cls = reg_shipped_class R Retraction then do {
             g \<leftarrow> to_slot v;
             roots \<leftarrow> endset_addrs g;
             ret (h\<lparr>h_nullified := fold insort_insert roots (h_nullified h),
                    h_retractions := fold (entry_insert addr) roots (h_retractions h)\<rparr>) }
           else ret h);
     h \<leftarrow> (if reg_is_idempotent R cls then do {
             k \<leftarrow> dedup_key_of v;
             ret (h\<lparr>h_dedup := entry_insert addr k (h_dedup h)\<rparr>) }
           else ret h);
     h \<leftarrow> (if cls = reg_shipped_class R Supersedes then do {
             f \<leftarrow> from_slot v;
             olds \<leftarrow> endset_addrs f;
             g \<leftarrow> to_slot v;
             news \<leftarrow> endset_addrs g;
             let edges = map (\<lambda>n. (n, addr)) (sort (remdups news));
             ret (h\<lparr>h_sup_fwd := fold (entry_insert_all edges) (sort (remdups olds)) (h_sup_fwd h)\<rparr>) }
           else ret h);
     a \<leftarrow> lift addr;
     d \<leftarrow> document_of a;
     home \<leftarrow> d;
     let f = h_home_frontier h;
     ret (h\<lparr>h_home_frontier :=
            f(tumbler home \<mapsto> (case f (tumbler home) of None \<Rightarrow> 0 | Some n \<Rightarrow> n) + 1)\<rparr>) }"

text \<open>\<^verbatim>\<open>OrdMap::insert\<close> with the displaced value.\<close>

fun ordmap_insert :: "'k :: linorder \<Rightarrow> 'v \<Rightarrow> ('k \<times> 'v) list \<Rightarrow> 'v option \<times> ('k \<times> 'v) list" where
  "ordmap_insert k v [] = (None, [(k, v)])"
| "ordmap_insert k v ((l, w) # m) =
     (if k < l then (None, (k, v) # (l, w) # m)
      else if k = l then (Some w, (k, v) # m)
      else (case ordmap_insert k v m of (old, m') \<Rightarrow> (old, (l, w) # m')))"

fun apply_link :: "link_state \<Rightarrow> link_rec \<Rightarrow> link_state exec" where
  "apply_link st (Deposit addr v) =
     (case ordmap_insert addr v (ls_links st) of
        (Some _, _) \<Rightarrow> panic
      | (None, m) \<Rightarrow> do { h \<leftarrow> fold_hints (ls_hints st) addr v; ret \<lparr>ls_links = m, ls_hints = h\<rparr> })"

definition links_rebuild_derived :: "link_state \<Rightarrow> link_state exec" where
  "links_rebuild_derived st = do {
     h \<leftarrow> exec_fold (\<lambda>h (addr, v). fold_hints h addr v) hints_default (ls_links st);
     ret \<lparr>ls_links = ls_links st, ls_hints = h\<rparr> }"

section \<open>Questions of the write surface\<close>

definition ls_resident :: "link_state \<Rightarrow> tumbler \<Rightarrow> bool" where
  "ls_resident st t \<longleftrightarrow> map_of (ls_links st) t \<noteq> None"

definition ls_nullified :: "link_state \<Rightarrow> tumbler \<Rightarrow> bool" where
  "ls_nullified st t \<longleftrightarrow> t \<in> set (h_nullified (ls_hints st))"

definition check_sup_schema :: "link_state \<Rightarrow> link \<Rightarrow> (unit, sup_schema_fault) result exec" where
  "check_sup_schema st v = do {
     fs \<leftarrow> from_slot v;
     f \<leftarrow> single_denoted fs;
     gs \<leftarrow> to_slot v;
     g \<leftarrow> single_denoted gs;
     ret (case (f, g) of
            (Some f, Some g) \<Rightarrow>
              if \<not> ls_resident st f \<or> \<not> ls_resident st g then Err NotResident
              else if f = g then Err Reflexive
              else Ok ()
          | _ \<Rightarrow> Err NotSingleDenoted) }"

definition home_frontier :: "link_state \<Rightarrow> address \<Rightarrow> nat" where
  "home_frontier st home =
     (case h_home_frontier (ls_hints st) (tumbler home) of None \<Rightarrow> 0 | Some n \<Rightarrow> n)"

definition link_at :: "link_state \<Rightarrow> tumbler \<Rightarrow> link exec" where
  "link_at st t = map_of (ls_links st) t"

definition next_link_address :: "link_state \<Rightarrow> address \<Rightarrow> address exec" where
  "next_link_address st home = do {
     r \<leftarrow> elem_addr \<lparr>doc = home, pos_subspace = link_subspace, pos_ordinal = 1 + home_frontier st home\<rparr>;
     expect_ok r }"

fun find_readable :: "(address \<Rightarrow> bool) \<Rightarrow> tumbler list \<Rightarrow> address option exec" where
  "find_readable readable [] = ret None"
| "find_readable readable (t # ts) = do {
     a \<leftarrow> lift t;
     d \<leftarrow> document_of a;
     home \<leftarrow> d;
     if readable home then ret (Some a) else find_readable readable ts }"

definition active_incumbent ::
  "link_state \<Rightarrow> dedup_key \<Rightarrow> (address \<Rightarrow> bool) \<Rightarrow> address option exec" where
  "active_incumbent st k readable =
     (case h_dedup (ls_hints st) k of
        None \<Rightarrow> ret None
      | Some ts \<Rightarrow> find_readable readable (filter (\<lambda>t. \<not> ls_nullified st t) ts))"

section \<open>The typed observers\<close>

datatype view = Audit | Active | Default

record tuple =
  tup_addr :: address
  tup_from :: endset
  tup_to :: endset

record pattern =
  pat_from :: "tumbler list"
  pat_to :: "tumbler list"

definition pattern_default :: pattern where
  "pattern_default = \<lparr>pat_from = [], pat_to = []\<rparr>"

datatype tip = Sink address | Indeterminate

definition default_to_active :: "view \<Rightarrow> view" where
  "default_to_active v = (case v of Default \<Rightarrow> Active | _ \<Rightarrow> v)"

definition type_slice_class :: "link_state \<Rightarrow> coverage_class \<Rightarrow> view \<Rightarrow> tumbler list" where
  "type_slice_class st c v =
     filter (\<lambda>t. \<not> (default_to_active v = Active \<and> ls_nullified st t))
       (entry_or_default (h_type_slices (ls_hints st)) c)"

definition typed_links :: "link_state \<Rightarrow> coverage_class \<Rightarrow> view \<Rightarrow> (tumbler \<times> link) list exec" where
  "typed_links st c v =
     exec_map (\<lambda>t. do { l \<leftarrow> link_at st t; ret (t, l) }) (type_slice_class st c v)"

definition readlink :: "link_state \<Rightarrow> address \<Rightarrow> link option" where
  "readlink st a = map_of (ls_links st) (tumbler a)"

datatype invalid = Invalid

definition followlink :: "link_state \<Rightarrow> address \<Rightarrow> nat \<Rightarrow> (span_set, invalid) result" where
  "followlink st a i =
     (case map_of (ls_links st) (tumbler a) of
        None \<Rightarrow> Err Invalid
      | Some l \<Rightarrow> (case link_slot l i of None \<Rightarrow> Err Invalid | Some e \<Rightarrow> Ok (to_spanset e)))"

fun observe_loop :: "pattern \<Rightarrow> (tumbler \<times> link) list \<Rightarrow> tuple list exec" where
  "observe_loop pat [] = ret []"
| "observe_loop pat ((t, l) # rest) = do {
     f \<leftarrow> from_slot l;
     g \<leftarrow> to_slot l;
     f_ok \<leftarrow> exec_all (endset_covers f) (pat_from pat);
     g_ok \<leftarrow> exec_all (endset_covers g) (pat_to pat);
     out \<leftarrow> (if f_ok \<and> g_ok then do {
               a \<leftarrow> lift t;
               ret [\<lparr>tup_addr = a, tup_from = f, tup_to = g\<rparr>] }
             else ret []);
     tail \<leftarrow> observe_loop pat rest;
     ret (out @ tail) }"

definition observe :: "link_state \<Rightarrow> endset \<Rightarrow> pattern \<Rightarrow> view \<Rightarrow> tuple list exec" where
  "observe st ty pat v = do {
     c \<leftarrow> coverage_class ty;
     ls \<leftarrow> typed_links st c v;
     observe_loop pat ls }"

definition is_active :: "link_state \<Rightarrow> address \<Rightarrow> bool" where
  "is_active st a \<longleftrightarrow> ls_resident st (tumbler a) \<and> \<not> ls_nullified st (tumbler a)"

definition is_nullified :: "link_state \<Rightarrow> address \<Rightarrow> bool" where
  "is_nullified st a \<longleftrightarrow> ls_nullified st (tumbler a)"

definition retractions_of :: "link_state \<Rightarrow> address \<Rightarrow> address list exec" where
  "retractions_of st a =
     exec_map lift (entry_or_default (h_retractions (ls_hints st)) (tumbler a))"

definition ls_age :: "link_state \<Rightarrow> address \<Rightarrow> nat option exec" where
  "ls_age st a =
     (if \<not> ls_resident st (tumbler a) then ret None
      else do {
        d \<leftarrow> document_of a;
        home \<leftarrow> d;
        let ord = ordinal (tumbler a);
        if ord < 2 ^ 64 then do { n \<leftarrow> nat_sub (home_frontier st home) ord; ret (Some n) }
        else panic })"

datatype not_bh4 = NotBh4

definition ls_stale :: "link_state \<Rightarrow> endset \<Rightarrow> nat \<Rightarrow> (address list, not_bh4) result exec" where
  "ls_stale st ty horizon = do {
     R \<leftarrow> registry_build;
     c \<leftarrow> coverage_class ty;
     if \<not> reg_declares R c AgeStaleness then ret (Err NotBh4)
     else do {
       as \<leftarrow> exec_map (\<lambda>t. do {
           a \<leftarrow> lift t;
           r \<leftarrow> ls_age st a;
           age \<leftarrow> r;
           ret (if age > horizon then [a] else []) }) (type_slice_class st c Active);
       ret (Ok (concat as)) } }"

section \<open>The supersession walk\<close>

definition succs_operative :: "link_state \<Rightarrow> tumbler \<Rightarrow> tumbler list" where
  "succs_operative st x =
     (case h_sup_fwd (ls_hints st) x of
        None \<Rightarrow> []
      | Some edges \<Rightarrow> sort (remdups (map fst (filter (\<lambda>e. \<not> ls_nullified st (snd e)) edges))))"

definition is_sink :: "link_state \<Rightarrow> tumbler \<Rightarrow> bool" where
  "is_sink st x =
     (case h_sup_fwd (ls_hints st) x of
        None \<Rightarrow> True
      | Some edges \<Rightarrow> list_all (\<lambda>e. ls_nullified st (snd e)) edges)"

text \<open>
  The loop of \<^verbatim>\<open>walk_sup\<close>: \<open>None\<close> is a loop that does not end. It carries the path and the visited
  set, whose elements are the same.
\<close>

partial_function (option) walk_loop ::
  "('a \<Rightarrow> 'a list) \<Rightarrow> 'a list \<Rightarrow> 'a set \<Rightarrow> 'a \<Rightarrow> ('a list \<times> 'a option) option" where
  "walk_loop succs path visited node =
     (case succs node of
        [] \<Rightarrow> Some (path, Some node)
      | [next] \<Rightarrow>
          if next \<in> visited then Some (path, None)
          else walk_loop succs (path @ [next]) (insert next visited) next
      | _ \<Rightarrow> Some (path, None))"

definition walk_sup :: "link_state \<Rightarrow> tumbler \<Rightarrow> (tumbler list \<times> tumbler option) option" where
  "walk_sup st x = walk_loop (succs_operative st) [x] {x} x"

definition serves_walk :: "link_state \<Rightarrow> endset \<Rightarrow> bool exec" where
  "serves_walk st ty = do {
     R \<leftarrow> registry_build;
     c \<leftarrow> coverage_class ty;
     ret (c = reg_shipped_class R Supersedes) }"

definition ls_succs :: "link_state \<Rightarrow> endset \<Rightarrow> address \<Rightarrow> address list exec" where
  "ls_succs st ty x = do {
     served \<leftarrow> serves_walk st ty;
     if \<not> served then ret [] else exec_map lift (succs_operative st (tumbler x)) }"

definition ls_chain :: "link_state \<Rightarrow> endset \<Rightarrow> address \<Rightarrow> address list exec" where
  "ls_chain st ty x = do {
     served \<leftarrow> serves_walk st ty;
     if \<not> served then ret []
     else do { (path, _) \<leftarrow> walk_sup st (tumbler x); exec_map lift path } }"

definition ls_is_in_chain :: "link_state \<Rightarrow> endset \<Rightarrow> address \<Rightarrow> address \<Rightarrow> bool exec" where
  "ls_is_in_chain st ty x target = do { path \<leftarrow> ls_chain st ty x; ret (target \<in> set path) }"

definition ls_tip :: "link_state \<Rightarrow> endset \<Rightarrow> address \<Rightarrow> tip exec" where
  "ls_tip st ty x = do {
     served \<leftarrow> serves_walk st ty;
     if \<not> served then ret Indeterminate
     else do {
       (_, sink) \<leftarrow> walk_sup st (tumbler x);
       (case sink of None \<Rightarrow> ret Indeterminate | Some t \<Rightarrow> do { a \<leftarrow> lift t; ret (Sink a) }) } }"

section \<open>The hints are a function of the map\<close>

text \<open>What the fold reads of one deposit, before it touches the hints.\<close>

record link_facts =
  lf_class :: coverage_class
  lf_roots :: "tumbler list"
  lf_key :: "dedup_key option"
  lf_olds :: "tumbler list"
  lf_edges :: "sup_edge list"
  lf_home :: tumbler

definition read_facts :: "tumbler \<Rightarrow> link \<Rightarrow> link_facts exec" where
  "read_facts addr v = do {
     ty \<leftarrow> type_slot v;
     cls \<leftarrow> coverage_class ty;
     roots \<leftarrow> (if cls = reg_shipped_class format_registry Retraction
               then do { g \<leftarrow> to_slot v; endset_addrs g } else ret []);
     k \<leftarrow> (if reg_is_idempotent format_registry cls
           then do { k \<leftarrow> dedup_key_of v; ret (Some k) } else ret None);
     (olds, edges) \<leftarrow> (if cls = reg_shipped_class format_registry Supersedes
       then do {
         f \<leftarrow> from_slot v; olds \<leftarrow> endset_addrs f;
         g \<leftarrow> to_slot v; news \<leftarrow> endset_addrs g;
         ret (sort (remdups olds), map (\<lambda>n. (n, addr)) (sort (remdups news))) }
       else ret ([], []));
     a \<leftarrow> lift addr;
     d \<leftarrow> document_of a;
     home \<leftarrow> d;
     ret \<lparr>lf_class = cls, lf_roots = roots, lf_key = k, lf_olds = olds, lf_edges = edges,
          lf_home = tumbler home\<rparr> }"

definition frontier_step :: "tumbler \<Rightarrow> (tumbler \<rightharpoonup> nat) \<Rightarrow> (tumbler \<rightharpoonup> nat)" where
  "frontier_step home f = f(home \<mapsto> (case f home of None \<Rightarrow> 0 | Some n \<Rightarrow> n) + 1)"

definition apply_facts :: "tumbler \<Rightarrow> link_facts \<Rightarrow> hints \<Rightarrow> hints" where
  "apply_facts addr x h =
     \<lparr>h_type_slices = entry_insert addr (lf_class x) (h_type_slices h),
      h_nullified = fold insort_insert (lf_roots x) (h_nullified h),
      h_retractions = fold (entry_insert addr) (lf_roots x) (h_retractions h),
      h_dedup = (case lf_key x of None \<Rightarrow> h_dedup h | Some k \<Rightarrow> entry_insert addr k (h_dedup h)),
      h_sup_fwd = fold (entry_insert_all (lf_edges x)) (lf_olds x) (h_sup_fwd h),
      h_home_frontier = frontier_step (lf_home x) (h_home_frontier h)\<rparr>"

lemma type_slot_slots:
  assumes "type_slot v = ret ty"
  shows "from_slot v = ret (link_slots v ! 0)" "to_slot v = ret (link_slots v ! 1)"
  using assms by (auto simp: type_slot_def from_slot_def to_slot_def index_def split: if_splits)

lemma fold_hints_facts:
  "fold_hints h addr v = map_option (\<lambda>x. apply_facts addr x h) (read_facts addr v)"
proof (cases "type_slot v \<bind> coverage_class")
  case None
  then show ?thesis by (cases "type_slot v") (simp_all add: fold_hints_def read_facts_def registry_build_eq)
next
  case (Some cls)
  then obtain ty where ty: "type_slot v = ret ty" "coverage_class ty = ret cls"
    by (cases "type_slot v") auto
  note [simp] = ty type_slot_slots [OF ty(1)] registry_build_eq fold_hints_def read_facts_def
  show ?thesis
  proof (cases "lift addr \<bind> document_of")
    case None
    then show ?thesis by (cases "lift addr") (auto split: bind_splits)
  next
    case (Some d)
    then obtain a where a: "lift addr = ret a" "document_of a = ret d" by (cases "lift addr") auto
    show ?thesis
      using a by (cases d; cases "dedup_key_of v") (auto simp: apply_facts_def frontier_step_def Let_def)
  qed
qed

subsection \<open>Insertions commute\<close>

lemma insort_insert_commute:
  "insort_insert x (insort_insert y xs) = insort_insert y (insort_insert (x :: 'a :: linorder) xs)"
  by (auto simp: insort_insert_key_def insort_left_comm set_insort_key)

lemma fold_fold_commute:
  assumes "\<And>x y s. f x (g y s) = g y (f x s)"
  shows "fold f xs (fold g ys s) = fold g ys (fold f xs s)"
proof -
  have "f x (fold g ys s) = fold g ys (f x s)" for x s
    using assms by (induction ys arbitrary: s) auto
  then show ?thesis by (induction xs arbitrary: s) auto
qed

lemma entry_insert_commute:
  "entry_insert x k (entry_insert y l m) = entry_insert y l (entry_insert x k m)"
  by (cases "k = l")
    (auto simp: entry_insert_def entry_or_default_def insort_insert_commute fun_upd_twist)

lemma entry_insert_all_commute:
  "entry_insert_all xs k (entry_insert_all ys l m) = entry_insert_all ys l (entry_insert_all xs k m)"
  using fold_fold_commute [of insort_insert insort_insert xs ys, OF insort_insert_commute]
  by (cases "k = l") (auto simp: entry_insert_all_def entry_or_default_def fun_upd_twist)

lemma frontier_step_commute:
  "frontier_step h (frontier_step k f) = frontier_step k (frontier_step h f)"
  by (cases "h = k") (auto simp: frontier_step_def fun_upd_twist split: option.split)

lemma apply_facts_commute:
  "apply_facts a x (apply_facts b y h) = apply_facts b y (apply_facts a x h)"
  unfolding apply_facts_def
  by (auto simp: entry_insert_commute frontier_step_commute
      fold_fold_commute [of insort_insert insort_insert, OF insort_insert_commute]
      fold_fold_commute [of "entry_insert a" "entry_insert b", OF entry_insert_commute]
      fold_fold_commute [of "entry_insert_all (lf_edges x)" "entry_insert_all (lf_edges y)",
        OF entry_insert_all_commute]
      split: option.split)

lemma fold_hints_commute:
  "fold_hints h a v \<bind> (\<lambda>h. fold_hints h b w) = fold_hints h b w \<bind> (\<lambda>h. fold_hints h a v)"
  unfolding fold_hints_facts
  by (cases "read_facts a v"; cases "read_facts b w") (auto simp: apply_facts_commute)

lemma exec_fold_move:
  assumes "\<And>s x y. f s x \<bind> (\<lambda>s. f s y) = f s y \<bind> (\<lambda>s. f s x)"
  shows "exec_fold f s (us @ x # vs) = f s x \<bind> (\<lambda>s. exec_fold f s (us @ vs))"
proof (induction us arbitrary: s)
  case (Cons u us)
  have "exec_fold f s ((u # us) @ x # vs) = (f s u \<bind> (\<lambda>s. f s x)) \<bind> (\<lambda>s. exec_fold f s (us @ vs))"
    using Cons by simp
  also have "\<dots> = f s x \<bind> (\<lambda>s. exec_fold f s ((u # us) @ vs))"
    by (simp add: assms [of s u x])
  finally show ?case .
qed simp

lemma exec_fold_perm:
  assumes "\<And>s x y. f s x \<bind> (\<lambda>s. f s y) = f s y \<bind> (\<lambda>s. f s x)"
    and "mset xs = mset ys"
  shows "exec_fold f s xs = exec_fold f s ys"
  using assms(2)
proof (induction xs arbitrary: s ys)
  case (Cons x xs)
  then have "x \<in> set ys" by (metis list.set_intros(1) set_mset_mset)
  then obtain us vs where ys: "ys = us @ x # vs" by (meson split_list)
  then have "mset xs = mset (us @ vs)" using Cons.prems by simp
  from Cons.IH [OF this] show ?case
    unfolding ys exec_fold_move [of f, OF assms(1)] by simp
qed simp

subsection \<open>The states a journal reaches\<close>

fun rec_pair :: "link_rec \<Rightarrow> tumbler \<times> link" where
  "rec_pair (Deposit a v) = (a, v)"

lemma rec_pair_iff: "(a, v) = rec_pair r \<longleftrightarrow> r = Deposit a v"
  by (cases r) auto

lemma ordmap_insert_None:
  assumes "ordmap_insert k v m = (None, m')" "sorted_wrt (<) (map fst m)"
  shows "sorted_wrt (<) (map fst m') \<and> mset m' = add_mset (k, v) (mset m) \<and> map_of m k = None
         \<and> map_of m' = (map_of m)(k \<mapsto> v)"
  using assms
proof (induction k v m arbitrary: m' rule: ordmap_insert.induct)
  case (2 k v l w m)
  consider "k < l" | "k = l" | "l < k" by fastforce
  then show ?case
  proof cases
    case 1
    then show ?thesis using 2(2,3)
      by (auto simp: fun_upd_twist intro!: map_of_eq_None_iff [THEN iffD2] dest!: order.strict_trans [OF 1])
  next
    case 2
    then show ?thesis using "2.prems" by simp
  next
    case 3
    then obtain n where n: "ordmap_insert k v m = (None, n)" "m' = (l, w) # n"
      using 2(2) 3 by (cases "ordmap_insert k v m") (auto split: if_splits)
    have ih: "sorted_wrt (<) (map fst n)" "mset n = add_mset (k, v) (mset m)" "map_of m k = None"
      "map_of n = (map_of m)(k \<mapsto> v)"
      using 2(1) [OF _ _ n(1)] 3 2(3) by auto
    have "set (map fst n) = insert k (set (map fst m))"
      using ih(2) by (metis (no_types, opaque_lifting) fst_conv image_insert list.set_map set_mset_add_mset_insert set_mset_mset)
    then have "\<forall>x \<in> set (map fst n). l < x" using 3 2(3) by auto
    then show ?thesis using ih n 3 by (auto simp: fun_upd_twist)
  qed
qed simp

lemma apply_link_ret:
  assumes "apply_link st (Deposit a v) = ret st'" "sorted_wrt (<) (map fst (ls_links st))"
  shows "sorted_wrt (<) (map fst (ls_links st'))"
    "mset (ls_links st') = add_mset (a, v) (mset (ls_links st))"
    "map_of (ls_links st) a = None" "map_of (ls_links st') = (map_of (ls_links st))(a \<mapsto> v)"
    "fold_hints (ls_hints st) a v = ret (ls_hints st')"
proof -
  obtain old m where m: "ordmap_insert a v (ls_links st) = (old, m)" by fastforce
  then have "old = None" using assms(1) by (cases old) auto
  then obtain h where "fold_hints (ls_hints st) a v = ret h" "st' = \<lparr>ls_links = m, ls_hints = h\<rparr>"
    using assms(1) m by (auto split: bind_splits)
  then show "sorted_wrt (<) (map fst (ls_links st'))"
    "mset (ls_links st') = add_mset (a, v) (mset (ls_links st))"
    "map_of (ls_links st) a = None" "map_of (ls_links st') = (map_of (ls_links st))(a \<mapsto> v)"
    "fold_hints (ls_hints st) a v = ret (ls_hints st')"
    using ordmap_insert_None [of a v "ls_links st" m] m \<open>old = None\<close> assms(2) by simp_all
qed

definition hint_fold :: "hints \<Rightarrow> (tumbler \<times> link) list \<Rightarrow> hints exec" where
  "hint_fold h ps = exec_fold (\<lambda>h (a, v). fold_hints h a v) h ps"

lemma hint_fold_perm: "mset ps = mset qs \<Longrightarrow> hint_fold h ps = hint_fold h qs"
  unfolding hint_fold_def
  by (rule exec_fold_perm) (auto simp: fold_hints_commute split: prod.split)

lemma journal_ret:
  assumes "exec_fold apply_link st rs = ret st'" "sorted_wrt (<) (map fst (ls_links st))"
  shows "sorted_wrt (<) (map fst (ls_links st'))
    \<and> mset (ls_links st') = mset (ls_links st) + mset (map rec_pair rs)
    \<and> hint_fold (ls_hints st) (map rec_pair rs) = ret (ls_hints st')
    \<and> map_of (ls_links st) \<subseteq>\<^sub>m map_of (ls_links st')"
  using assms
proof (induction rs arbitrary: st)
  case (Cons r rs)
  obtain a v where r: "r = Deposit a v" by (cases r)
  obtain st1 where st1: "apply_link st (Deposit a v) = ret st1" "exec_fold apply_link st1 rs = ret st'"
    using Cons.prems(1) r by (auto split: bind_splits simp del: apply_link.simps)
  note one = apply_link_ret [OF st1(1) Cons.prems(2)]
  note rest = Cons.IH [OF st1(2) one(1)]
  have "map_of (ls_links st) \<subseteq>\<^sub>m map_of (ls_links st1)"
    using one(3,4) by (auto simp: map_le_def)
  then show ?case using rest one(2,5) r
    by (auto simp: hint_fold_def intro: map_le_trans)
qed (simp add: hint_fold_def)

lemma genesis_sorted [simp]: "sorted_wrt (<) (map fst (ls_links links_genesis))"
  by (simp add: links_genesis_def)

definition reachable_links :: "link_rec list \<Rightarrow> link_state \<Rightarrow> bool" where
  "reachable_links rs st \<longleftrightarrow> exec_fold apply_link links_genesis rs = ret st"

lemma reachable_links_hints:
  assumes "reachable_links rs st"
  shows "sorted_wrt (<) (map fst (ls_links st))" "mset (ls_links st) = mset (map rec_pair rs)"
    "hint_fold hints_default (ls_links st) = ret (ls_hints st)"
proof -
  note * = journal_ret [OF assms [unfolded reachable_links_def] genesis_sorted]
  show "sorted_wrt (<) (map fst (ls_links st))" using * by blast
  show ms: "mset (ls_links st) = mset (map rec_pair rs)" using * by (simp add: links_genesis_def)
  show "hint_fold hints_default (ls_links st) = ret (ls_hints st)"
    using * hint_fold_perm [OF ms] by (simp add: links_genesis_def)
qed

subsection \<open>What each hint holds\<close>

definition facts_of :: "tumbler \<times> link \<Rightarrow> link_facts" where
  "facts_of p = the (read_facts (fst p) (snd p))"

definition fold_facts :: "(tumbler \<times> link) list \<Rightarrow> hints \<Rightarrow> hints" where
  "fold_facts ps h = fold (\<lambda>p. apply_facts (fst p) (facts_of p)) ps h"

lemma hint_fold_eq:
  assumes "hint_fold h ps = ret h'"
  shows "h' = fold_facts ps h" "\<forall>p \<in> set ps. read_facts (fst p) (snd p) = ret (facts_of p)"
proof -
  have "h' = fold_facts ps h \<and> (\<forall>p \<in> set ps. read_facts (fst p) (snd p) = ret (facts_of p))"
    using assms unfolding hint_fold_def fold_facts_def
  proof (induction ps arbitrary: h)
    case (Cons p ps)
    obtain a v where p: "p = (a, v)" by (cases p)
    obtain x where x: "read_facts a v = ret x"
      using Cons.prems p by (cases "read_facts a v") (auto simp: fold_hints_facts)
    then show ?case using Cons.IH [of "apply_facts a x h"] Cons.prems p
      by (simp add: fold_hints_facts facts_of_def)
  qed simp
  then show "h' = fold_facts ps h" "\<forall>p \<in> set ps. read_facts (fst p) (snd p) = ret (facts_of p)"
    by simp_all
qed

lemma set_fold_insort_insert: "set (fold insort_insert xs ys) = set xs \<union> set ys"
  by (induction xs arbitrary: ys) (auto simp: set_insort_insert)

lemma entry_insert_set:
  "set (entry_or_default (entry_insert x k m) l) =
     (if l = k then insert x (set (entry_or_default m l)) else set (entry_or_default m l))"
  unfolding entry_insert_def entry_or_default_def
  by (cases "l = k") (simp_all only: fun_upd_same fun_upd_other option.case set_insort_insert if_True if_False simp_thms)

lemma entry_insert_all_set:
  "set (entry_or_default (entry_insert_all xs k m) l) =
     (if l = k then set xs \<union> set (entry_or_default m l) else set (entry_or_default m l))"
  unfolding entry_insert_all_def entry_or_default_def
  by (cases "l = k") (simp_all only: fun_upd_same fun_upd_other option.case set_fold_insort_insert if_True if_False simp_thms)

lemma fold_entry_insert_set:
  "set (entry_or_default (fold (entry_insert x) ks m) l) =
     (if l \<in> set ks then insert x (set (entry_or_default m l)) else set (entry_or_default m l))"
  by (induction ks arbitrary: m) (auto simp: entry_insert_set)

lemma fold_entry_insert_all_set:
  "set (entry_or_default (fold (entry_insert_all xs) ks m) l) =
     (if l \<in> set ks then set xs \<union> set (entry_or_default m l) else set (entry_or_default m l))"
  by (induction ks arbitrary: m) (auto simp: entry_insert_all_set)

lemma fold_facts_simps [simp]:
  "fold_facts [] h = h" "fold_facts (p # ps) h = fold_facts ps (apply_facts (fst p) (facts_of p) h)"
  by (simp_all add: fold_facts_def)

lemma fold_facts_slices:
  "set (entry_or_default (h_type_slices (fold_facts ps h)) c) =
     set (entry_or_default (h_type_slices h) c) \<union> fst ` {p \<in> set ps. lf_class (facts_of p) = c}"
  by (induction ps arbitrary: h) (auto simp: apply_facts_def entry_insert_set)

lemma fold_facts_nullified:
  "set (h_nullified (fold_facts ps h)) =
     set (h_nullified h) \<union> (\<Union>p \<in> set ps. set (lf_roots (facts_of p)))"
  by (induction ps arbitrary: h) (auto simp: apply_facts_def set_fold_insort_insert)

lemma fold_facts_retractions:
  "set (entry_or_default (h_retractions (fold_facts ps h)) r) =
     set (entry_or_default (h_retractions h) r) \<union> fst ` {p \<in> set ps. r \<in> set (lf_roots (facts_of p))}"
  by (induction ps arbitrary: h) (auto simp: apply_facts_def fold_entry_insert_set)

lemma fold_facts_sup:
  "set (entry_or_default (h_sup_fwd (fold_facts ps h)) x) =
     set (entry_or_default (h_sup_fwd h) x) \<union>
     (\<Union>p \<in> {p \<in> set ps. x \<in> set (lf_olds (facts_of p))}. set (lf_edges (facts_of p)))"
  by (induction ps arbitrary: h) (auto simp: apply_facts_def fold_entry_insert_all_set)

lemma sorted_insort_insert: "sorted_wrt (<) xs \<Longrightarrow> sorted_wrt (<) (insort_insert (x :: 'a :: linorder) xs)"
  by (auto simp: insort_insert_key_def strict_sorted_iff sorted_insort distinct_insort)

lemma fold_facts_slices_sorted:
  "(\<And>c. sorted_wrt (<) (entry_or_default (h_type_slices h) c)) \<Longrightarrow>
   sorted_wrt (<) (entry_or_default (h_type_slices (fold_facts ps h)) c)"
proof (induction ps arbitrary: h)
  case (Cons p ps)
  have "sorted_wrt (<) (entry_or_default (h_type_slices (apply_facts a x h)) c)" for a x c
    using Cons.prems [of "lf_class x"] Cons.prems [of c]
    by (auto simp: apply_facts_def entry_insert_def entry_or_default_def sorted_insort_insert)
  then show ?case using Cons.IH by simp
qed simp

lemma default_entries [simp]:
  "entry_or_default (h_type_slices hints_default) c = []" "h_nullified hints_default = []"
  "entry_or_default (h_sup_fwd hints_default) t = []"
  "entry_or_default (h_retractions hints_default) t = []"
  by (simp_all add: hints_default_def entry_or_default_def)

text \<open>The reading of one deposit, slot by slot.\<close>

lemma read_facts_ret:
  assumes "read_facts a v = ret x"
  obtains f g ty addr d where "from_slot v = ret f" "to_slot v = ret g" "type_slot v = ret ty"
    "coverage_class ty = ret (lf_class x)"
    "lf_roots x = (if lf_class x = reg_shipped_class format_registry Retraction
                   then addrs_of_endset g else [])"
    "lf_olds x = (if lf_class x = reg_shipped_class format_registry Supersedes
                  then sort (remdups (addrs_of_endset f)) else [])"
    "lf_edges x = (if lf_class x = reg_shipped_class format_registry Supersedes
                   then map (\<lambda>n. (n, a)) (sort (remdups (addrs_of_endset g))) else [])"
    "lift a = ret addr" "document_of addr = ret (Some d)" "lf_home x = tumbler d"
proof -
  obtain ty where ty: "type_slot v = ret ty"
    using assms by (cases "type_slot v") (auto simp: read_facts_def)
  note fg = type_slot_slots [OF ty]
  obtain cls where cls: "coverage_class ty = ret cls"
    using assms ty by (cases "coverage_class ty") (auto simp: read_facts_def)
  obtain addr where addr: "lift a = ret addr"
    using assms by (cases "lift a") (auto simp: read_facts_def split: bind_splits)
  then obtain d where d: "document_of addr = ret (Some d)"
    using assms by (auto simp: read_facts_def split: bind_splits)
  from assms ty cls fg addr d have
    "lf_class x = cls \<and>
     lf_roots x = (if cls = reg_shipped_class format_registry Retraction
                   then addrs_of_endset (link_slots v ! 1) else []) \<and>
     lf_olds x = (if cls = reg_shipped_class format_registry Supersedes
                  then sort (remdups (addrs_of_endset (link_slots v ! 0))) else []) \<and>
     lf_edges x = (if cls = reg_shipped_class format_registry Supersedes
                   then map (\<lambda>n. (n, a)) (sort (remdups (addrs_of_endset (link_slots v ! 1)))) else []) \<and>
     lf_home x = tumbler d"
    by (auto simp: read_facts_def split: bind_splits if_splits)
  then show thesis using that fg ty cls addr d by simp
qed

section \<open>The walk ends\<close>

definition succ_path :: "('a \<Rightarrow> 'a list) \<Rightarrow> 'a list \<Rightarrow> bool" where
  "succ_path succs path \<longleftrightarrow> (\<forall>i. Suc i < length path \<longrightarrow> succs (path ! i) = [path ! Suc i])"

lemma succ_path_snoc:
  "path \<noteq> [] \<Longrightarrow> succ_path succs (path @ [n]) \<longleftrightarrow> succ_path succs path \<and> succs (last path) = [n]"
  by (auto simp: succ_path_def nth_append last_conv_nth less_Suc_eq)
    (metis diff_Suc_Suc diff_zero)

text \<open>How a walk ends: at a sink, at a branch, or at a successor it has visited.\<close>

definition walk_end :: "('a \<Rightarrow> 'a list) \<Rightarrow> 'a list \<Rightarrow> 'a option \<Rightarrow> bool" where
  "walk_end succs path sink \<longleftrightarrow>
     (case sink of
        Some y \<Rightarrow> y = last path \<and> succs y = []
      | None \<Rightarrow> length (succs (last path)) > 1 \<or> (\<exists>n \<in> set path. succs (last path) = [n]))"

lemma walk_loop_ends:
  assumes "finite S" "\<And>n. n \<in> S \<Longrightarrow> set (succs n) \<subseteq> S"
  shows "set path \<subseteq> S \<Longrightarrow> path \<noteq> [] \<Longrightarrow> distinct path \<Longrightarrow> succ_path succs path \<Longrightarrow>
    \<exists>path' sink. walk_loop succs path (set path) (last path) = Some (path', sink) \<and>
      prefix path path' \<and> distinct path' \<and> succ_path succs path' \<and> walk_end succs path' sink"
proof (induction "card (S - set path)" arbitrary: path rule: less_induct)
  case less
  let ?n = "last path"
  note step = walk_loop.simps [of succs path "set path" ?n]
  consider "succs ?n = []" | m where "succs ?n = [m]" "m \<in> set path"
    | m where "succs ?n = [m]" "m \<notin> set path" | x y zs where "succs ?n = x # y # zs"
    by (cases "succs ?n" rule: remdups_adj.cases) auto
  then show ?case
  proof cases
    case 1
    then have "walk_loop succs path (set path) ?n = Some (path, Some ?n)" by (simp add: step)
    then show ?thesis using less.prems 1 by (auto simp: walk_end_def)
  next
    case (2 m)
    then have "walk_loop succs path (set path) ?n = Some (path, None)" by (simp add: step)
    then show ?thesis using less.prems 2 by (auto simp: walk_end_def)
  next
    case (4 x y zs)
    then have "walk_loop succs path (set path) ?n = Some (path, None)" by (simp add: step)
    then show ?thesis using less.prems 4 by (auto simp: walk_end_def)
  next
    case (3 m)
    let ?path = "path @ [m]"
    have "m \<in> S" using assms(2) [of ?n] 3(1) subsetD [OF less.prems(1) last_in_set [OF less.prems(2)]] by simp
    have fewer: "card (S - set ?path) < card (S - set path)"
      using assms(1) 3(2) \<open>m \<in> S\<close> by (intro psubset_card_mono) auto
    have one: "walk_loop succs path (set path) ?n = walk_loop succs ?path (set ?path) (last ?path)"
      using 3 by (simp add: step)
    have "\<exists>path' sink. walk_loop succs ?path (set ?path) (last ?path) = Some (path', sink) \<and>
      prefix ?path path' \<and> distinct path' \<and> succ_path succs path' \<and> walk_end succs path' sink"
      by (rule less.hyps [OF fewer])
        (use less.prems \<open>m \<in> S\<close> 3 in \<open>simp_all add: succ_path_snoc\<close>)
    then show ?thesis unfolding one by (meson append_prefixD)
  qed
qed

lemma succs_operative_set:
  "set (succs_operative st x) =
     {n. \<exists>c. (n, c) \<in> set (entry_or_default (h_sup_fwd (ls_hints st)) x) \<and> \<not> ls_nullified st c}"
  by (cases "h_sup_fwd (ls_hints st) x") (force simp: succs_operative_def entry_or_default_def)+

lemma reachable_links_facts:
  assumes "reachable_links rs st"
  shows "ls_hints st = fold_facts (ls_links st) hints_default"
    "p \<in> set (ls_links st) \<Longrightarrow> read_facts (fst p) (snd p) = ret (facts_of p)"
  using hint_fold_eq [OF reachable_links_hints(3) [OF assms]] by auto

lemma links_map_of:
  assumes "reachable_links rs st"
  shows "map_of (ls_links st) t = Some l \<longleftrightarrow> (t, l) \<in> set (ls_links st)"
  using reachable_links_hints(1) [OF assms] strict_sorted_iff map_of_eq_Some_iff by metis

section \<open>What the observers see\<close>

text \<open>Every stored slot is built of admitted spans.\<close>

definition wf_links :: "link_state \<Rightarrow> bool" where
  "wf_links st \<longleftrightarrow> (\<forall>p \<in> set (ls_links st). \<forall>e \<in> set (link_slots (snd p)). wf_endset e)"

lemma lift_ret_iff: "lift t = ret a \<longleftrightarrow> wf_address a \<and> tumbler a = t"
proof
  assume "lift t = ret a"
  then show "wf_address a \<and> tumbler a = t"
    by (auto simp: lift_def validate_Ok_iff split: bind_splits)
qed (auto simp: lift_def validate_wf)

definition link_tuple :: "tumbler \<times> link \<Rightarrow> tuple" where
  "link_tuple p =
     \<lparr>tup_addr = the (lift (fst p)), tup_from = link_slots (snd p) ! 0, tup_to = link_slots (snd p) ! 1\<rparr>"

definition pat_matches :: "pattern \<Rightarrow> tumbler \<times> link \<Rightarrow> bool" where
  "pat_matches pat p \<longleftrightarrow>
     (\<forall>t \<in> set (pat_from pat). t \<in> coverage (link_slots (snd p) ! 0)) \<and>
     (\<forall>t \<in> set (pat_to pat). t \<in> coverage (link_slots (snd p) ! 1))"

lemma reachable_link:
  assumes "reachable_links rs st" "wf_links st" "p \<in> set (ls_links st)"
  obtains ty where "from_slot (snd p) = ret (link_slots (snd p) ! 0)"
    "to_slot (snd p) = ret (link_slots (snd p) ! 1)" "type_slot (snd p) = ret ty"
    "coverage_class ty = ret (lf_class (facts_of p))" "lift (fst p) = ret (tup_addr (link_tuple p))"
    "wf_endset (link_slots (snd p) ! 0)" "wf_endset (link_slots (snd p) ! 1)" "wf_endset ty"
proof -
  obtain ty a where ty: "type_slot (snd p) = ret ty" "coverage_class ty = ret (lf_class (facts_of p))"
    "lift (fst p) = ret a"
    by (rule read_facts_ret [OF reachable_links_facts(2) [OF assms(1,3)]])
  have "length (link_slots (snd p)) > 2" "ty = link_slots (snd p) ! 2"
    using ty(1) by (auto simp: type_slot_def index_def split: if_splits)
  moreover from this have "wf_endset (link_slots (snd p) ! i)" if "i < 3" for i
    using assms(2,3) that unfolding wf_links_def by simp
  from this [of 0] this [of 1] this [of 2] have
    "wf_endset (link_slots (snd p) ! 0)" "wf_endset (link_slots (snd p) ! 1)"
    "wf_endset (link_slots (snd p) ! 2)" by simp_all
  ultimately show thesis
    using that ty type_slot_slots [OF ty(1)] by (simp add: link_tuple_def)
qed

lemma observe_loop_eq:
  assumes "reachable_links rs st" "wf_links st"
  shows "set ls \<subseteq> set (ls_links st) \<Longrightarrow>
    observe_loop pat ls = ret (map link_tuple (filter (pat_matches pat) ls))"
proof (induction ls)
  case (Cons p ls)
  obtain t l where p: "p = (t, l)" by (cases p)
  have in_links: "p \<in> set (ls_links st)" using Cons.prems by simp
  then obtain ty where slots: "from_slot l = ret (link_slots l ! 0)" "to_slot l = ret (link_slots l ! 1)"
    "lift t = ret (tup_addr (link_tuple p))" "wf_endset (link_slots l ! 0)" "wf_endset (link_slots l ! 1)"
    using p by (auto elim!: reachable_link [OF assms])
  have "exec_all (endset_covers (link_slots l ! 0)) ts = ret (\<forall>t \<in> set ts. t \<in> coverage (link_slots l ! 0))"
    "exec_all (endset_covers (link_slots l ! 1)) ts = ret (\<forall>t \<in> set ts. t \<in> coverage (link_slots l ! 1))"
    for ts using slots(4,5) by (auto intro!: exec_all_ret)
  moreover have "link_tuple p = \<lparr>tup_addr = tup_addr (link_tuple p), tup_from = link_slots l ! 0,
      tup_to = link_slots l ! 1\<rparr>" using p by (simp add: link_tuple_def)
  moreover have "pat_matches pat p \<longleftrightarrow> (\<forall>t \<in> set (pat_from pat). t \<in> coverage (link_slots l ! 0)) \<and>
      (\<forall>t \<in> set (pat_to pat). t \<in> coverage (link_slots l ! 1))" using p by (simp add: pat_matches_def)
  ultimately show ?case using Cons slots(1-3) unfolding p by simp
qed simp

definition slice_links :: "link_state \<Rightarrow> coverage_class \<Rightarrow> view \<Rightarrow> (tumbler \<times> link) list" where
  "slice_links st c v = map (\<lambda>t. (t, the (map_of (ls_links st) t))) (type_slice_class st c v)"

lemma slice_links_mem:
  assumes "reachable_links rs st"
  shows "p \<in> set (slice_links st c v) \<longleftrightarrow>
    p \<in> set (ls_links st) \<and> lf_class (facts_of p) = c \<and> (v = Audit \<or> \<not> ls_nullified st (fst p))"
proof -
  have slice: "t \<in> set (type_slice_class st c v) \<longleftrightarrow>
      (\<exists>l. (t, l) \<in> set (ls_links st) \<and> lf_class (facts_of (t, l)) = c) \<and> (v = Audit \<or> \<not> ls_nullified st t)" for t
    unfolding type_slice_class_def reachable_links_facts(1) [OF assms]
    by (cases v) (force simp: fold_facts_slices default_to_active_def)+
  have "map_of (ls_links st) t = Some l" if "(t, l) \<in> set (ls_links st)" for t l
    using that links_map_of [OF assms] by simp
  then show ?thesis
    unfolding slice_links_def by (cases p) (auto simp: slice image_iff)
qed

lemma slice_links_sorted:
  assumes "reachable_links rs st"
  shows "sorted_wrt (<) (map fst (slice_links st c v))"
proof -
  have "sorted_wrt (<) (type_slice_class st c v)"
    unfolding type_slice_class_def reachable_links_facts(1) [OF assms]
    by (intro sorted_wrt_filter fold_facts_slices_sorted) simp
  then show ?thesis by (simp add: slice_links_def comp_def)
qed

lemma typed_links_eq:
  assumes "reachable_links rs st"
  shows "typed_links st c v = ret (slice_links st c v)"
proof -
  have "link_at st t \<bind> (\<lambda>l. ret (t, l)) = ret (t, the (map_of (ls_links st) t))"
    if "t \<in> set (type_slice_class st c v)" for t
  proof -
    have "(t, the (map_of (ls_links st) t)) \<in> set (ls_links st)"
      using slice_links_mem [OF assms, of "(t, the (map_of (ls_links st) t))" c v] that
      by (auto simp: slice_links_def)
    then have "\<exists>l. map_of (ls_links st) t = Some l" using links_map_of [OF assms] by blast
    then show ?thesis by (auto simp: link_at_def)
  qed
  then show ?thesis unfolding typed_links_def slice_links_def by (rule exec_map_ret)
qed

lemma observe_eq:
  assumes "reachable_links rs st" "wf_links st" "coverage_class ty = ret c"
  shows "observe st ty pat v = ret (map link_tuple (filter (pat_matches pat) (slice_links st c v)))"
  using assms(3) typed_links_eq [OF assms(1)] observe_loop_eq [OF assms(1,2)]
    slice_links_mem [OF assms(1)] by (simp add: observe_def subset_iff)

lemma nullified_iff:
  assumes "reachable_links rs st"
  shows "ls_nullified st t \<longleftrightarrow> (\<exists>p \<in> set (ls_links st). t \<in> set (lf_roots (facts_of p)))"
  unfolding ls_nullified_def reachable_links_facts(1) [OF assms] fold_facts_nullified by simp

text \<open>A link is retracted when a resident link of the retraction class denotes it in its second slot.\<close>

definition retracted :: "link_state \<Rightarrow> tumbler \<Rightarrow> bool" where
  "retracted st t \<longleftrightarrow> (\<exists>(s, l) \<in> set (ls_links st). \<exists>ty g.
     type_slot l = ret ty \<and> coverage_class ty = ret (reg_shipped_class format_registry Retraction) \<and>
     to_slot l = ret g \<and> t \<in> set (addrs_of_endset g))"

lemma nullified_retracted:
  assumes "reachable_links rs st"
  shows "ls_nullified st t \<longleftrightarrow> retracted st t"
proof -
  have "t \<in> set (lf_roots (facts_of (s, l))) \<longleftrightarrow> (\<exists>ty g.
     type_slot l = ret ty \<and> coverage_class ty = ret (reg_shipped_class format_registry Retraction) \<and>
     to_slot l = ret g \<and> t \<in> set (addrs_of_endset g))" if "(s, l) \<in> set (ls_links st)" for s l
    by (rule read_facts_ret [OF reachable_links_facts(2) [OF assms that, unfolded fst_conv snd_conv]])
      (auto split: if_splits)
  then show ?thesis unfolding nullified_iff [OF assms] retracted_def by fastforce
qed

section \<open>Properties\<close>

definition sample_link_addr :: tumbler where
  "sample_link_addr = Tumbler 1 [0, 2, 0, 3, 0, 2, 1]"

definition sample_link :: link where
  "sample_link = triple (ghost_endset 1) endset_empty (ghost_endset 3)"

definition sample_links :: link_state where
  "sample_links = \<lparr>ls_links = [(sample_link_addr, sample_link)],
     ls_hints = fold_facts [(sample_link_addr, sample_link)] hints_default\<rparr>"

lemma lift_sample: "lift sample_link_addr = ret \<lparr>tumbler = sample_link_addr, level = Element\<rparr>"
  by (simp add: lift_def sample_link_addr_def validate_eq T4_unfold level_of_def numeral_2_eq_2 numeral_3_eq_3)

lemma coverage_class_ghost: "coverage_class (ghost_endset n) = ret (Addrs [ghost_tumbler n])"
  by (simp add: coverage_class_def ghost_endset_def denoting_def)

lemma coverage_class_empty: "coverage_class endset_empty = ret (Addrs [])"
  by (simp add: coverage_class_def endset_empty_def denoting_def)

lemma triple_slots [simp]:
  "from_slot (triple f g ty) = ret f" "to_slot (triple f g ty) = ret g" "type_slot (triple f g ty) = ret ty"
  by (simp_all add: triple_def from_slot_def to_slot_def type_slot_def index_def)

lemma reachable_sample [simp]: "reachable_links [Deposit sample_link_addr sample_link] sample_links"
proof -
  have wf: "wf_address \<lparr>tumbler = sample_link_addr, level = Element\<rparr>"
    by (simp add: wf_address_def sample_link_addr_def T4_unfold level_of_def numeral_2_eq_2 numeral_3_eq_3)
  moreover have "3 \<le> length (addr_fields \<lparr>tumbler = sample_link_addr, level = Element\<rparr>)"
    by (simp add: addr_fields_def sample_link_addr_def)
  ultimately obtain d where
    doc: "document_of \<lparr>tumbler = sample_link_addr, level = Element\<rparr> = ret (Some d)"
    by (rule document_of_Some)
  have "\<exists>x. read_facts sample_link_addr sample_link = ret x"
    using doc by (simp add: read_facts_def lift_sample sample_link_def dedup_key_of_def
        coverage_class_ghost coverage_class_empty)
  then obtain x where x: "read_facts sample_link_addr sample_link = ret x" ..
  then have "fold_hints hints_default sample_link_addr sample_link
    = ret (fold_facts [(sample_link_addr, sample_link)] hints_default)"
    by (simp add: fold_hints_facts facts_of_def)
  then show ?thesis
    by (simp add: reachable_links_def links_genesis_def sample_links_def)
qed



text \<open>
  C24: the supersession walk ends. On every state a journal reaches, \<open>walk_sup\<close> returns from any
  start; its path begins there, repeats no link and follows sole operative successors; and it
  reports a sink exactly when the last link of the path has no operative successor, otherwise it
  stopped at a branch or at a link already on the path.
\<close>

theorem walk_sup_ends:
  assumes "reachable_links rs st"
  shows "\<exists>path sink. walk_sup st x = Some (path, sink) \<and> path \<noteq> [] \<and> hd path = x \<and> distinct path \<and>
    (\<forall>i. Suc i < length path \<longrightarrow> succs_operative st (path ! i) = [path ! Suc i]) \<and>
    walk_end (succs_operative st) path sink"
proof -
  let ?E = "\<Union>p \<in> set (ls_links st). fst ` set (lf_edges (facts_of p))"
  have "set (succs_operative st n) \<subseteq> ?E" for n
    unfolding succs_operative_set reachable_links_facts(1) [OF assms] fold_facts_sup by force
  then have "\<exists>path sink. walk_loop (succs_operative st) [x] (set [x]) (last [x]) = Some (path, sink) \<and>
      prefix [x] path \<and> distinct path \<and> succ_path (succs_operative st) path \<and>
      walk_end (succs_operative st) path sink"
    by (intro walk_loop_ends [of "insert x ?E"]) (auto simp: succ_path_def)
  then show ?thesis
    by (auto simp: walk_sup_def succ_path_def prefix_def)
qed

theorem walk_sup_ends_witness:
  "\<exists>path sink. walk_sup sample_links (Tumbler 1 []) = Some (path, sink) \<and> hd path = Tumbler 1 []"
  using walk_sup_ends [OF reachable_sample] by blast

lemma wf_sample_links [simp]: "wf_links sample_links"
  by (simp add: wf_links_def sample_links_def sample_link_def triple_def ghost_endset_def endset_empty_def
      wf_endset_def)

text \<open>
  C25: \<open>observe\<close> is the typed slice. On every state a journal reaches, for a type it can classify, it
  never panics and returns, in address order, exactly the tuples of the resident links whose type
  slot has the class of the given type and whose first two slots cover the pattern; at any view but
  the audit one, exactly those that no resident retraction denotes.
\<close>

theorem observe_exact:
  assumes "reachable_links rs st" "wf_links st" "wf_endset ty" "endset_level_uniform ty"
  shows "\<exists>us. observe st ty pat v = ret us \<and>
    sorted_wrt (<) (map (\<lambda>u. tumbler (tup_addr u)) us) \<and>
    (\<forall>u. u \<in> set us \<longleftrightarrow> (\<exists>l e. readlink st (tup_addr u) = Some l \<and> wf_address (tup_addr u) \<and>
       from_slot l = ret (tup_from u) \<and> to_slot l = ret (tup_to u) \<and>
       type_slot l = ret e \<and> coverage_class e = coverage_class ty \<and>
       (v = Audit \<or> \<not> retracted st (tumbler (tup_addr u))) \<and>
       (\<forall>t \<in> set (pat_from pat). endset_covers (tup_from u) t = ret True) \<and>
       (\<forall>t \<in> set (pat_to pat). endset_covers (tup_to u) t = ret True)))"
proof -
  obtain c where c: "coverage_class ty = ret c"
    using coverage_class_returns_iff [OF assms(3)] assms(4) by blast
  let ?ls = "filter (pat_matches pat) (slice_links st c v)"
  have mem: "p \<in> set ?ls \<longleftrightarrow> p \<in> set (ls_links st) \<and> lf_class (facts_of p) = c \<and>
      (v = Audit \<or> \<not> retracted st (fst p)) \<and> pat_matches pat p" for p
    using slice_links_mem [OF assms(1)] nullified_retracted [OF assms(1)] by auto
  have addr: "tumbler (tup_addr (link_tuple p)) = fst p \<and> wf_address (tup_addr (link_tuple p))"
    if "p \<in> set (ls_links st)" for p
    by (rule reachable_link [OF assms(1,2) that]) (simp add: lift_ret_iff)
  have same: "map (\<lambda>u. tumbler (tup_addr u)) (map link_tuple ?ls) = map fst ?ls"
    using addr mem by simp
  have "sorted_wrt (<) (map fst ?ls)"
    using slice_links_sorted [OF assms(1), of c v] by (simp add: sorted_wrt_map sorted_wrt_filter)
  then have "sorted_wrt (<) (map (\<lambda>u. tumbler (tup_addr u)) (map link_tuple ?ls))"
    unfolding same .
  moreover have "u \<in> set (map link_tuple ?ls) \<longleftrightarrow> (\<exists>l e. readlink st (tup_addr u) = Some l \<and>
       wf_address (tup_addr u) \<and>
       from_slot l = ret (tup_from u) \<and> to_slot l = ret (tup_to u) \<and>
       type_slot l = ret e \<and> coverage_class e = coverage_class ty \<and>
       (v = Audit \<or> \<not> retracted st (tumbler (tup_addr u))) \<and>
       (\<forall>t \<in> set (pat_from pat). endset_covers (tup_from u) t = ret True) \<and>
       (\<forall>t \<in> set (pat_to pat). endset_covers (tup_to u) t = ret True))" (is "?L \<longleftrightarrow> ?R") for u
  proof
    assume ?L
    then obtain p where p: "p \<in> set ?ls" "u = link_tuple p" by auto
    then have q: "p \<in> set (ls_links st)" "lf_class (facts_of p) = c"
      "v = Audit \<or> \<not> retracted st (fst p)" "pat_matches pat p" using mem by blast+
    have u: "tup_from u = link_slots (snd p) ! 0" "tup_to u = link_slots (snd p) ! 1"
      using p(2) by (simp_all add: link_tuple_def)
    obtain e where e: "from_slot (snd p) = ret (link_slots (snd p) ! 0)"
      "to_slot (snd p) = ret (link_slots (snd p) ! 1)" "type_slot (snd p) = ret e"
      "coverage_class e = ret (lf_class (facts_of p))"
      "wf_endset (link_slots (snd p) ! 0)" "wf_endset (link_slots (snd p) ! 1)"
      by (rule reachable_link [OF assms(1,2) q(1)])
    note e = e [unfolded u [symmetric] q(2)]
    have "readlink st (tup_addr u) = Some (snd p)"
      using links_map_of [OF assms(1), of "fst p" "snd p"] addr [OF q(1)] p(2) q(1)
      by (simp add: readlink_def)
    moreover have "\<forall>t \<in> set (pat_from pat). endset_covers (tup_from u) t = ret True"
      "\<forall>t \<in> set (pat_to pat). endset_covers (tup_to u) t = ret True"
      using q(4) e(5,6) by (simp_all add: pat_matches_def u)
    moreover have "wf_address (tup_addr u)" "tumbler (tup_addr u) = fst p"
      using addr [OF q(1)] p(2) by simp_all
    ultimately show ?R using e(1-4) q(3) c by (intro exI [of _ "snd p"] exI [of _ e]) simp
  next
    assume ?R
    then obtain l e where r: "(tumbler (tup_addr u), l) \<in> set (ls_links st)" "wf_address (tup_addr u)"
       "from_slot l = ret (tup_from u)" "to_slot l = ret (tup_to u)" "type_slot l = ret e"
       "coverage_class e = ret c" "v = Audit \<or> \<not> retracted st (tumbler (tup_addr u))"
       "\<forall>t \<in> set (pat_from pat). endset_covers (tup_from u) t = ret True"
       "\<forall>t \<in> set (pat_to pat). endset_covers (tup_to u) t = ret True"
      unfolding readlink_def links_map_of [OF assms(1)] c by blast
    let ?p = "(tumbler (tup_addr u), l)"
    obtain e' where p: "from_slot l = ret (link_slots l ! 0)" "to_slot l = ret (link_slots l ! 1)"
      "type_slot l = ret e'" "coverage_class e' = ret (lf_class (facts_of ?p))"
      "lift (tumbler (tup_addr u)) = ret (tup_addr (link_tuple ?p))"
      "wf_endset (link_slots l ! 0)" "wf_endset (link_slots l ! 1)"
      by (rule reachable_link [OF assms(1,2) r(1), unfolded fst_conv snd_conv]) 
    have "tup_addr (link_tuple ?p) = tup_addr u"
      using p(5) r(2) by (auto simp: lift_ret_iff intro: wf_address_eqI)
    then have "u = link_tuple ?p" using p(1,2) r(3,4) by (cases u) (simp add: link_tuple_def)
    moreover have "?p \<in> set ?ls" unfolding mem using r p by (auto simp: pat_matches_def)
    ultimately show ?L by auto
  qed
  ultimately show ?thesis using observe_eq [OF assms(1,2) c] by blast
qed

theorem observe_exact_witness:
  "\<exists>us. observe sample_links (ghost_endset 3) pattern_default Active = ret us \<and>
     (\<forall>u \<in> set us. \<not> retracted sample_links (tumbler (tup_addr u)))"
proof -
  have "denoting (ghost_endset 3)" by (simp add: ghost_endset_def)
  then show ?thesis
    using observe_exact [OF reachable_sample wf_sample_links, of "ghost_endset 3" pattern_default Active]
    by (auto simp: denoting_wf denoting_level_uniform)
qed

end
