(* ===== verification/PL_Eval.thy ===== *)
theory PL_Eval
  imports PL_Checker Link_Store
begin

text \<open>
  Values and evaluation: \<^verbatim>\<open>value.rs\<close>, the guest-class read surface of \<^verbatim>\<open>guest.rs\<close> and the evaluator
  of \<^verbatim>\<open>eval.rs\<close>, all under \<^verbatim>\<open>crates/skep-coordination/src/\<close>.

  An \<^verbatim>\<open>OrdSet<Address>\<close> is the list of its elements in tumbler order. The guest predicate and M3's
  test for a registered document are arguments of the context, as they are borrowed there. Each
  call of \<open>eval_term\<close> or \<open>enum_dom\<close> spends one of the levels it is given and \<open>panic\<close> covers running
  out of them, as it covers every \<^verbatim>\<open>unreachable!\<close> of the source.
\<close>

section \<open>Values\<close>

datatype pl_value =
    VBool bool
  | VAddr address
  | VAddrSet "address list"
  | VOptAddr "address option"
  | VAddrSeq "address list"
  | VMap "coverage_class \<rightharpoonup> address"
  | VNat nat
  | VOptNat "nat option"
  | VTuple tuple

fun value_sort :: "pl_value \<Rightarrow> sort" where
  "value_sort (VBool _) = SBool"
| "value_sort (VAddr _) = SAddr"
| "value_sort (VAddrSet _) = SAddrSet"
| "value_sort (VOptAddr _) = SOptAddr"
| "value_sort (VAddrSeq _) = SAddrSeq"
| "value_sort (VMap _) = SMap"
| "value_sort (VNat _) = SNat"
| "value_sort (VOptNat _) = SOptNat"
| "value_sort (VTuple _) = STup"

datatype arg = ArgAddr address | ArgTuple tuple

definition key_addr :: "arg \<Rightarrow> address" where
  "key_addr e = (case e of ArgAddr a \<Rightarrow> a | ArgTuple t \<Rightarrow> tup_addr t)"

definition same_element :: "arg \<Rightarrow> arg \<Rightarrow> bool" where
  "same_element x y =
     (case (x, y) of
        (ArgAddr a, ArgAddr b) \<Rightarrow> a = b
      | (ArgTuple t, ArgTuple u) \<Rightarrow> tup_addr t = tup_addr u
      | _ \<Rightarrow> False)"

definition arg_value :: "arg \<Rightarrow> pl_value" where
  "arg_value e = (case e of ArgAddr a \<Rightarrow> VAddr a | ArgTuple t \<Rightarrow> VTuple t)"

datatype slice = SliceActive | SliceAudit

definition slice_of :: "view \<Rightarrow> slice" where
  "slice_of v = (case v of Audit \<Rightarrow> SliceAudit | Active \<Rightarrow> SliceActive | Default \<Rightarrow> SliceActive)"

type_synonym env = "var_id \<rightharpoonup> pl_value"

text \<open>Collecting addresses into an ordered set.\<close>

definition addr_set :: "address list \<Rightarrow> address list" where
  "addr_set as = fold (insort_insert_key tumbler) as []"

section \<open>The look at guest class\<close>

record guest_links =
  gl_unfiltered :: link_state
  gl_guest :: "address \<Rightarrow> bool"

definition slice_view :: "slice \<Rightarrow> view" where
  "slice_view s = (case s of SliceActive \<Rightarrow> Active | SliceAudit \<Rightarrow> Audit)"

definition home_readable :: "guest_links \<Rightarrow> address \<Rightarrow> bool exec" where
  "home_readable G a = do {
     d \<leftarrow> document_of a;
     ret (case d of None \<Rightarrow> False | Some home \<Rightarrow> gl_guest G home) }"

definition admits :: "guest_links \<Rightarrow> tuple \<Rightarrow> bool exec" where
  "admits G t = home_readable G (tup_addr t)"

definition candidates :: "guest_links \<Rightarrow> endset \<Rightarrow> pattern \<Rightarrow> slice \<Rightarrow> tuple list exec" where
  "candidates G ty pat s = observe (gl_unfiltered G) ty pat (slice_view s)"

definition g_observe :: "guest_links \<Rightarrow> endset \<Rightarrow> pattern \<Rightarrow> slice \<Rightarrow> tuple list exec" where
  "g_observe G ty pat s = do { ts \<leftarrow> candidates G ty pat s; exec_filter (admits G) ts }"

definition g_is_k :: "guest_links \<Rightarrow> endset \<Rightarrow> tumbler \<Rightarrow> slice \<Rightarrow> bool exec" where
  "g_is_k G ty probe s = do {
     ts \<leftarrow> candidates G ty \<lparr>pat_from = [probe], pat_to = []\<rparr> s;
     exec_any (admits G) ts }"

definition denote_slot :: "tuple list \<Rightarrow> (tuple \<Rightarrow> endset) \<Rightarrow> address list exec" where
  "denote_slot ts slot = do {
     ass \<leftarrow> exec_map (\<lambda>t. do { as \<leftarrow> endset_addrs (slot t); exec_map lift as }) ts;
     ret (addr_set (concat ass)) }"

definition denoted :: "guest_links \<Rightarrow> endset \<Rightarrow> pattern \<Rightarrow> slice \<Rightarrow> (tuple \<Rightarrow> endset) \<Rightarrow> address list exec" where
  "denoted G ty pat s slot = do { ts \<leftarrow> g_observe G ty pat s; denote_slot ts slot }"

definition tuples_denoting :: "guest_links \<Rightarrow> endset \<Rightarrow> address \<Rightarrow> slice \<Rightarrow> tuple list exec" where
  "tuples_denoting G ty x s = do {
     ts \<leftarrow> g_observe G ty \<lparr>pat_from = [tumbler x], pat_to = []\<rparr> s;
     exec_filter (\<lambda>t. do { as \<leftarrow> endset_addrs (tup_from t); ret (tumbler x \<in> set as) }) ts }"

definition g_members :: "guest_links \<Rightarrow> endset \<Rightarrow> slice \<Rightarrow> address list exec" where
  "g_members G ty s = denoted G ty pattern_default s tup_from"

definition g_targets_of :: "guest_links \<Rightarrow> endset \<Rightarrow> address \<Rightarrow> slice \<Rightarrow> address list exec" where
  "g_targets_of G ty x s = denoted G ty \<lparr>pat_from = [tumbler x], pat_to = []\<rparr> s tup_to"

definition targets_of_denoting :: "guest_links \<Rightarrow> endset \<Rightarrow> address \<Rightarrow> address list exec" where
  "targets_of_denoting G ty x = do { ts \<leftarrow> tuples_denoting G ty x SliceAudit; denote_slot ts tup_to }"

type_synonym forward_claims = "address \<rightharpoonup> address list"

fun claim_edges :: "tuple \<Rightarrow> tumbler list \<Rightarrow> forward_claims \<Rightarrow> forward_claims exec" where
  "claim_edges t [] fwd = ret fwd"
| "claim_edges t (old # olds) fwd = do {
     a \<leftarrow> lift old;
     ns \<leftarrow> endset_addrs (tup_to t);
     news \<leftarrow> exec_map lift ns;
     claim_edges t olds (fwd(a \<mapsto> fold (insort_insert_key tumbler) news (entry_or_default fwd a))) }"

definition forward_claims :: "guest_links \<Rightarrow> endset \<Rightarrow> forward_claims exec" where
  "forward_claims G ty = do {
     ts \<leftarrow> g_observe G ty pattern_default SliceActive;
     exec_fold (\<lambda>fwd t. do { olds \<leftarrow> endset_addrs (tup_from t); claim_edges t olds fwd }) (\<lambda>_. None) ts }"

definition g_succs_operative :: "forward_claims \<Rightarrow> address \<Rightarrow> address list" where
  "g_succs_operative fwd x = entry_or_default fwd x"

definition walk_claims :: "forward_claims \<Rightarrow> address \<Rightarrow> (address list \<times> address option) option" where
  "walk_claims fwd x = walk_loop (g_succs_operative fwd) [x] {x} x"

definition g_succs :: "guest_links \<Rightarrow> endset \<Rightarrow> address \<Rightarrow> address list exec" where
  "g_succs G ty x = do { fwd \<leftarrow> forward_claims G ty; ret (g_succs_operative fwd x) }"

definition g_chain :: "guest_links \<Rightarrow> endset \<Rightarrow> address \<Rightarrow> address list exec" where
  "g_chain G ty x = do { fwd \<leftarrow> forward_claims G ty; (path, _) \<leftarrow> walk_claims fwd x; ret path }"

definition g_tip :: "guest_links \<Rightarrow> endset \<Rightarrow> address \<Rightarrow> tip exec" where
  "g_tip G ty x = do {
     fwd \<leftarrow> forward_claims G ty;
     (_, sink) \<leftarrow> walk_claims fwd x;
     ret (case sink of Some a \<Rightarrow> Sink a | None \<Rightarrow> Indeterminate) }"

definition g_is_in_chain :: "guest_links \<Rightarrow> endset \<Rightarrow> address \<Rightarrow> address \<Rightarrow> bool exec" where
  "g_is_in_chain G ty a target = do {
     fwd \<leftarrow> forward_claims G ty;
     (path, _) \<leftarrow> walk_claims fwd a;
     ret (target \<in> set path) }"

definition g_sources_to :: "guest_links \<Rightarrow> endset \<Rightarrow> address \<Rightarrow> address list exec" where
  "g_sources_to G ty target =
     denoted G ty \<lparr>pat_from = [], pat_to = [tumbler target]\<rparr> SliceActive tup_from"

definition g_target_of :: "guest_links \<Rightarrow> endset \<Rightarrow> address \<Rightarrow> address option exec" where
  "g_target_of G ty source = do {
     ts \<leftarrow> tuples_denoting G ty source SliceActive;
     (case ts of
        [t] \<Rightarrow> do {
          d \<leftarrow> single_denoted (tup_to t);
          (case d of None \<Rightarrow> ret None | Some x \<Rightarrow> do { a \<leftarrow> lift x; ret (Some a) }) }
      | _ \<Rightarrow> ret None) }"

definition is_active_tuple :: "guest_links \<Rightarrow> endset \<Rightarrow> address \<Rightarrow> bool exec" where
  "is_active_tuple G ty a = do {
     ts \<leftarrow> candidates G ty pattern_default SliceActive;
     exec_any (\<lambda>t. if tup_addr t = a then admits G t else ret False) ts }"

definition g_age :: "guest_links \<Rightarrow> address \<Rightarrow> nat option exec" where
  "g_age G a = do {
     r \<leftarrow> home_readable G a;
     if \<not> r then ret None else ls_age (gl_unfiltered G) a }"

definition g_stale :: "guest_links \<Rightarrow> endset \<Rightarrow> nat \<Rightarrow> (address list, not_bh4) result exec" where
  "g_stale G ty horizon =
     and_then (ls_stale (gl_unfiltered G) ty horizon) (\<lambda>as.
       map_option (\<lambda>bs. Inr (addr_set bs)) (exec_filter (home_readable G) as))"

section \<open>The evaluation context\<close>

record eval_ctx =
  ec_catalog :: type_catalog
  ec_links :: guest_links
  ec_is_doc :: "address \<Rightarrow> bool"
  ec_view :: view
  ec_defs :: "(address \<Rightarrow> typed_term option) option"

fun as_bool :: "pl_value \<Rightarrow> bool exec" where
  "as_bool (VBool b) = ret b"
| "as_bool _ = panic"

fun as_addr :: "pl_value \<Rightarrow> address exec" where
  "as_addr (VAddr a) = ret a"
| "as_addr _ = panic"

fun as_set_value :: "pl_value \<Rightarrow> address list exec" where
  "as_set_value (VAddrSet s) = ret s"
| "as_set_value _ = panic"

fun as_nat :: "pl_value \<Rightarrow> nat exec" where
  "as_nat (VNat n) = ret n"
| "as_nat _ = panic"

definition addr_elem :: "arg \<Rightarrow> address exec" where
  "addr_elem e = (case e of ArgAddr a \<Rightarrow> ret a | ArgTuple t \<Rightarrow> panic)"

definition tuple_var :: "env \<Rightarrow> var_id \<Rightarrow> tuple exec" where
  "tuple_var env v = (case env v of Some (VTuple t) \<Rightarrow> ret t | _ \<Rightarrow> panic)"

definition filtered_by :: "eval_ctx \<Rightarrow> endset \<Rightarrow> address \<Rightarrow> bool exec" where
  "filtered_by cx j x = g_is_k (ec_links cx) j (tumbler x) SliceActive"

definition filtered_other :: "eval_ctx \<Rightarrow> type_key \<Rightarrow> address \<Rightarrow> bool exec" where
  "filtered_other cx k x = do {
     k_class \<leftarrow> class_of (ec_catalog cx) k;
     exec_any (\<lambda>(j_class, j_endset). if j_class \<noteq> k_class then filtered_by cx j_endset x else ret False)
       (cat_read_filter_classes (ec_catalog cx)) }"

definition uv_keeps :: "eval_ctx \<Rightarrow> type_key \<Rightarrow> address \<Rightarrow> bool exec" where
  "uv_keeps cx k e =
     (if ec_view cx \<noteq> Default then ret True
      else do { f \<leftarrow> filtered_other cx k e; ret (\<not> f) })"

definition uv_rewrite :: "eval_ctx \<Rightarrow> type_key \<Rightarrow> address list \<Rightarrow> address list exec" where
  "uv_rewrite cx k answer = exec_filter (uv_keeps cx k) answer"

definition members_at :: "eval_ctx \<Rightarrow> type_key \<Rightarrow> address list exec" where
  "members_at cx k = do {
     m \<leftarrow> g_members (ec_links cx) (key_endset k) (slice_of (ec_view cx));
     uv_rewrite cx k m }"

definition targets_of_at :: "eval_ctx \<Rightarrow> type_key \<Rightarrow> address \<Rightarrow> address list exec" where
  "targets_of_at cx k x = do {
     answer \<leftarrow> (if ec_view cx = Audit then targets_of_denoting (ec_links cx) (key_endset k) x
               else g_targets_of (ec_links cx) (key_endset k) x SliceActive);
     uv_rewrite cx k answer }"

definition is_k_at :: "eval_ctx \<Rightarrow> type_key \<Rightarrow> address \<Rightarrow> bool exec" where
  "is_k_at cx k x = g_is_k (ec_links cx) (key_endset k) (tumbler x) (slice_of (ec_view cx))"

fun targets_keyed_loop ::
  "guest_links \<Rightarrow> address \<Rightarrow> (coverage_class \<times> endset) list \<Rightarrow> (coverage_class \<rightharpoonup> address) \<Rightarrow>
   (coverage_class \<rightharpoonup> address) exec"
where
  "targets_keyed_loop G source [] out = ret out"
| "targets_keyed_loop G source ((c, e) # cs) out = do {
     r \<leftarrow> g_target_of G e source;
     targets_keyed_loop G source cs (case r of None \<Rightarrow> out | Some t \<Rightarrow> out(c \<mapsto> t)) }"

definition targets_keyed :: "eval_ctx \<Rightarrow> address \<Rightarrow> (coverage_class \<rightharpoonup> address) exec" where
  "targets_keyed cx source =
     targets_keyed_loop (ec_links cx) source (cat_reverse_lookup_classes (ec_catalog cx)) (\<lambda>_. None)"

section \<open>The evaluator\<close>

text \<open>\<open>ev\<close> evaluates an operand in the current environment.\<close>

type_synonym eval_fn = "pl_term \<Rightarrow> pl_value exec"

definition ev_addr :: "eval_fn \<Rightarrow> pl_term \<Rightarrow> address exec" where
  "ev_addr ev e = do { x \<leftarrow> ev e; as_addr x }"

definition ev_set :: "eval_fn \<Rightarrow> pl_term \<Rightarrow> address list exec" where
  "ev_set ev e = do { x \<leftarrow> ev e; as_set_value x }"

definition ev_nat :: "eval_fn \<Rightarrow> pl_term \<Rightarrow> nat exec" where
  "ev_nat ev e = do { x \<leftarrow> ev e; as_nat x }"

definition ev_bool :: "eval_fn \<Rightarrow> pl_term \<Rightarrow> bool exec" where
  "ev_bool ev e = do { x \<leftarrow> ev e; as_bool x }"

definition eval_atom :: "eval_ctx \<Rightarrow> eval_fn \<Rightarrow> env \<Rightarrow> pl_atom \<Rightarrow> pl_value exec" where
  "eval_atom cx ev env a =
     (case a of
        IsK tr e \<Rightarrow> do {
          k \<leftarrow> type_ref_key tr; x \<leftarrow> ev_addr ev e; b \<leftarrow> is_k_at cx k x; ret (VBool b) }
      | Members tr \<Rightarrow> do { k \<leftarrow> type_ref_key tr; m \<leftarrow> members_at cx k; ret (VAddrSet m) }
      | TargetsOf tr e \<Rightarrow> do {
          x \<leftarrow> ev_addr ev e; k \<leftarrow> type_ref_key tr; m \<leftarrow> targets_of_at cx k x; ret (VAddrSet m) }
      | IsFiltered tr e \<Rightarrow> do {
          x \<leftarrow> ev_addr ev e; k \<leftarrow> type_ref_key tr; b \<leftarrow> filtered_by cx (key_endset k) x; ret (VBool b) }
      | Succs tr e \<Rightarrow> do {
          k \<leftarrow> type_ref_key tr; x \<leftarrow> ev_addr ev e;
          m \<leftarrow> g_succs (ec_links cx) (key_endset k) x; r \<leftarrow> uv_rewrite cx k m; ret (VAddrSet r) }
      | Chain tr e \<Rightarrow> do {
          k \<leftarrow> type_ref_key tr; x \<leftarrow> ev_addr ev e;
          p \<leftarrow> g_chain (ec_links cx) (key_endset k) x;
          q \<leftarrow> exec_filter (uv_keeps cx k) p; ret (VAddrSeq q) }
      | Tip tr e \<Rightarrow> do {
          k \<leftarrow> type_ref_key tr; x \<leftarrow> ev_addr ev e;
          t \<leftarrow> g_tip (ec_links cx) (key_endset k) x;
          ret (VOptAddr (case t of Sink y \<Rightarrow> Some y | Indeterminate \<Rightarrow> None)) }
      | IsInChain tr e1 e2 \<Rightarrow> do {
          k \<leftarrow> type_ref_key tr; x \<leftarrow> ev_addr ev e1; y \<leftarrow> ev_addr ev e2;
          b \<leftarrow> g_is_in_chain (ec_links cx) (key_endset k) x y; ret (VBool b) }
      | SourcesTo tr e \<Rightarrow> do {
          k \<leftarrow> type_ref_key tr; x \<leftarrow> ev_addr ev e;
          m \<leftarrow> g_sources_to (ec_links cx) (key_endset k) x; r \<leftarrow> uv_rewrite cx k m; ret (VAddrSet r) }
      | TargetOf tr e \<Rightarrow> do {
          k \<leftarrow> type_ref_key tr; x \<leftarrow> ev_addr ev e;
          t \<leftarrow> g_target_of (ec_links cx) (key_endset k) x; ret (VOptAddr t) }
      | TargetsKeyed e \<Rightarrow> do { x \<leftarrow> ev_addr ev e; m \<leftarrow> targets_keyed cx x; ret (VMap m) }
      | Age tr e \<Rightarrow> do {
          k \<leftarrow> type_ref_key tr; x \<leftarrow> ev_addr ev e;
          act \<leftarrow> is_active_tuple (ec_links cx) (key_endset k) x;
          r \<leftarrow> (if act then g_age (ec_links cx) x else ret None);
          ret (VOptNat r) }
      | Stale tr e \<Rightarrow> do {
          k \<leftarrow> type_ref_key tr; h \<leftarrow> ev_nat ev e;
          r \<leftarrow> g_stale (ec_links cx) (key_endset k) (clamp 64 h);
          s \<leftarrow> expect_ok r; m \<leftarrow> uv_rewrite cx k s; ret (VAddrSet m) }
      | IsDoc e \<Rightarrow> do { x \<leftarrow> ev_addr ev e; ret (VBool (ec_is_doc cx x)) }
      | TupAddr v \<Rightarrow> do { t \<leftarrow> tuple_var env v; ret (VAddr (tup_addr t)) }
      | TupAddrsF v \<Rightarrow> do {
          t \<leftarrow> tuple_var env v; as \<leftarrow> endset_addrs (tup_from t); bs \<leftarrow> exec_map lift as;
          ret (VAddrSet (addr_set bs)) }
      | TupAddrsG v \<Rightarrow> do {
          t \<leftarrow> tuple_var env v; as \<leftarrow> endset_addrs (tup_to t); bs \<leftarrow> exec_map lift as;
          ret (VAddrSet (addr_set bs)) }
      | InCoverageF e v \<Rightarrow> do {
          x \<leftarrow> ev_addr ev e; t \<leftarrow> tuple_var env v; b \<leftarrow> endset_covers (tup_from t) (tumbler x);
          ret (VBool b) }
      | InCoverageG e v \<Rightarrow> do {
          x \<leftarrow> ev_addr ev e; t \<leftarrow> tuple_var env v; b \<leftarrow> endset_covers (tup_to t) (tumbler x);
          ret (VBool b) })"

definition eval_prim :: "eval_ctx \<Rightarrow> eval_fn \<Rightarrow> pl_prim \<Rightarrow> pl_value exec" where
  "eval_prim cx ev p =
     (case p of
        AddrEq a b \<Rightarrow> do { x \<leftarrow> ev_addr ev a; y \<leftarrow> ev_addr ev b; ret (VBool (x = y)) }
      | Prefix a b \<Rightarrow> do {
          x \<leftarrow> ev_addr ev a; y \<leftarrow> ev_addr ev b; ret (VBool (is_prefix (tumbler x) (tumbler y))) }
      | T1Lt a b \<Rightarrow> do { x \<leftarrow> ev_addr ev a; y \<leftarrow> ev_addr ev b; ret (VBool (tumbler x < tumbler y)) }
      | SetMem x s \<Rightarrow> do { m \<leftarrow> ev_set ev s; y \<leftarrow> ev_addr ev x; ret (VBool (y \<in> set m)) }
      | SetEq a b \<Rightarrow> do { x \<leftarrow> ev_set ev a; y \<leftarrow> ev_set ev b; ret (VBool (x = y)) }
      | IsEmpty s \<Rightarrow> do { m \<leftarrow> ev_set ev s; ret (VBool (m = [])) }
      | Elems q \<Rightarrow> do {
          x \<leftarrow> ev q;
          (case x of VAddrSeq s \<Rightarrow> ret (VAddrSet (addr_set s)) | _ \<Rightarrow> panic) }
      | NatEq a b \<Rightarrow> do { x \<leftarrow> ev_nat ev a; y \<leftarrow> ev_nat ev b; ret (VBool (x = y)) }
      | NatLe a b \<Rightarrow> do { x \<leftarrow> ev_nat ev a; y \<leftarrow> ev_nat ev b; ret (VBool (x \<le> y)) }
      | NatAdd a b \<Rightarrow> do { x \<leftarrow> ev_nat ev a; y \<leftarrow> ev_nat ev b; ret (VNat (x + y)) }
      | MapGet m tr \<Rightarrow> do {
          k \<leftarrow> type_ref_key tr; c \<leftarrow> class_of (ec_catalog cx) k; x \<leftarrow> ev m;
          (case x of VMap mp \<Rightarrow> ret (VOptAddr (mp c)) | _ \<Rightarrow> panic) }
      | Def x \<Rightarrow> do {
          y \<leftarrow> ev x;
          (case y of
             VOptAddr r \<Rightarrow> ret (VBool (r \<noteq> None))
           | VOptNat r \<Rightarrow> ret (VBool (r \<noteq> None))
           | _ \<Rightarrow> panic) })"

definition lit_value :: "pl_lit \<Rightarrow> pl_value" where
  "lit_value l = (case l of
       LTrue \<Rightarrow> VBool True | LFalse \<Rightarrow> VBool False | LNat n \<Rightarrow> VNat n | LAddr a \<Rightarrow> VAddr a
     | LBotAddr \<Rightarrow> VOptAddr None | LBotNat \<Rightarrow> VOptNat None)"

text \<open>\<^verbatim>\<open>Iterator::max_by\<close> keeps the last of equal maxima, \<^verbatim>\<open>min_by\<close> the first of equal minima.\<close>

fun max_t1 :: "address list \<Rightarrow> address option" where
  "max_t1 [] = None"
| "max_t1 (a # as) =
     (case max_t1 as of None \<Rightarrow> Some a | Some b \<Rightarrow> if tumbler a > tumbler b then Some a else Some b)"

fun min_t1 :: "address list \<Rightarrow> address option" where
  "min_t1 [] = None"
| "min_t1 (a # as) =
     (case min_t1 as of None \<Rightarrow> Some a | Some b \<Rightarrow> if tumbler a \<le> tumbler b then Some a else Some b)"

fun eval_term :: "eval_ctx \<Rightarrow> nat \<Rightarrow> env \<Rightarrow> pl_term \<Rightarrow> pl_value exec"
  and enum_dom :: "eval_ctx \<Rightarrow> nat \<Rightarrow> env \<Rightarrow> pl_dom \<Rightarrow> arg list exec"
where
  "eval_term cx 0 env t = panic"
| "eval_term cx (Suc n) env t =
     (case t of
        Var v \<Rightarrow> env v
      | Lit l \<Rightarrow> ret (lit_value l)
      | Atom a \<Rightarrow> eval_atom cx (eval_term cx n env) env a
      | Prim p \<Rightarrow> eval_prim cx (eval_term cx n env) p
      | And a b \<Rightarrow> do {
          x \<leftarrow> ev_bool (eval_term cx n env) a;
          if x then do { y \<leftarrow> ev_bool (eval_term cx n env) b; ret (VBool y) } else ret (VBool False) }
      | Or a b \<Rightarrow> do {
          x \<leftarrow> ev_bool (eval_term cx n env) a;
          if x then ret (VBool True) else do { y \<leftarrow> ev_bool (eval_term cx n env) b; ret (VBool y) } }
      | Not_t a \<Rightarrow> do { x \<leftarrow> ev_bool (eval_term cx n env) a; ret (VBool (\<not> x)) }
      | Implies a b \<Rightarrow> do {
          x \<leftarrow> ev_bool (eval_term cx n env) a;
          if \<not> x then ret (VBool True) else do { y \<leftarrow> ev_bool (eval_term cx n env) b; ret (VBool y) } }
      | Iff a b \<Rightarrow> do {
          x \<leftarrow> ev_bool (eval_term cx n env) a;
          y \<leftarrow> ev_bool (eval_term cx n env) b;
          ret (VBool (x = y)) }
      | Forall v d b \<Rightarrow> do {
          es \<leftarrow> enum_dom cx n env d;
          r \<leftarrow> exec_all (\<lambda>e. ev_bool (eval_term cx n (env(v \<mapsto> arg_value e))) b) es;
          ret (VBool r) }
      | Exists v d b \<Rightarrow> do {
          es \<leftarrow> enum_dom cx n env d;
          r \<leftarrow> exec_any (\<lambda>e. ev_bool (eval_term cx n (env(v \<mapsto> arg_value e))) b) es;
          ret (VBool r) }
      | Let_t v x b \<Rightarrow> do {
          y \<leftarrow> eval_term cx n env x;
          eval_term cx n (env(v \<mapsto> y)) b }
      | IfSome opt v th el \<Rightarrow> do {
          x \<leftarrow> eval_term cx n env opt;
          (case x of
             VOptAddr (Some a) \<Rightarrow> eval_term cx n (env(v \<mapsto> VAddr a)) th
           | VOptNat (Some k) \<Rightarrow> eval_term cx n (env(v \<mapsto> VNat k)) th
           | VOptAddr None \<Rightarrow> eval_term cx n env el
           | VOptNat None \<Rightarrow> eval_term cx n env el
           | _ \<Rightarrow> panic) }
      | Count d \<Rightarrow> do { es \<leftarrow> enum_dom cx n env d; ret (VNat (length es)) }
      | MaxT1 d \<Rightarrow> do {
          es \<leftarrow> enum_dom cx n env d; as \<leftarrow> exec_map addr_elem es; ret (VOptAddr (max_t1 as)) }
      | MinT1 d \<Rightarrow> do {
          es \<leftarrow> enum_dom cx n env d; as \<leftarrow> exec_map addr_elem es; ret (VOptAddr (min_t1 as)) }
      | BigUnion d v b \<Rightarrow> do {
          es \<leftarrow> enum_dom cx n env d;
          ss \<leftarrow> exec_map (\<lambda>e. ev_set (eval_term cx n (env(v \<mapsto> arg_value e))) b) es;
          ret (VAddrSet (addr_set (concat ss))) }
      | Reflect d \<Rightarrow> do {
          es \<leftarrow> enum_dom cx n env d; as \<leftarrow> exec_map addr_elem es; ret (VAddrSet (addr_set as)) }
      | Ref a args \<Rightarrow> do {
          defs \<leftarrow> ec_defs cx;
          referent \<leftarrow> defs a;
          let names = map fst (tt_params referent);
          vs \<leftarrow> exec_map (eval_term cx n env) (take (length names) args);
          eval_term cx n (collect_map (zip names vs)) (tt_evaluable referent) })"
| "enum_dom cx 0 env d = panic"
| "enum_dom cx (Suc n) env d =
     (case d of
        MembersDom tr \<Rightarrow> do { k \<leftarrow> type_ref_key tr; m \<leftarrow> members_at cx k; ret (map ArgAddr m) }
      | ActiveSlice tr \<Rightarrow> do {
          k \<leftarrow> type_ref_key tr;
          ts \<leftarrow> g_observe (ec_links cx) (key_endset k) pattern_default SliceActive;
          ret (map ArgTuple ts) }
      | AuditSlice tr \<Rightarrow> do {
          k \<leftarrow> type_ref_key tr;
          ts \<leftarrow> g_observe (ec_links cx) (key_endset k) pattern_default SliceAudit;
          ret (map ArgTuple ts) }
      | LinkDom \<Rightarrow> do {
          tss \<leftarrow> exec_map (\<lambda>k. g_observe (ec_links cx) (key_endset k) pattern_default SliceAudit)
                  (cat_classes (ec_catalog cx));
          ret (map ArgAddr (addr_set (map tup_addr (concat tss)))) }
      | Reg \<Rightarrow> panic
      | Filter base v p \<Rightarrow> do {
          es \<leftarrow> enum_dom cx n env base;
          exec_filter (\<lambda>e. ev_bool (eval_term cx n (env(v \<mapsto> arg_value e))) p) es }
      | SetTerm t \<Rightarrow> do { s \<leftarrow> ev_set (eval_term cx n env) t; ret (map ArgAddr s) })"

declare eval_term.simps(2) [simp del] enum_dom.simps(2) [simp del]

end
