(* ===== verification/PL_Typing.thy ===== *)
theory PL_Typing
  imports PL_Eval
begin

text \<open>
  What the checker of \<^verbatim>\<open>crates/skep-coordination/src/check.rs\<close> promises of the term it hands to the
  evaluator: a declarative typing judgement over evaluable terms, indexed by the levels a walk of
  the term needs, and the proof that every term the checker admits is in it.
\<close>

section \<open>The signatures of the formers\<close>

fun lit_sort :: "pl_lit \<Rightarrow> sort" where
  "lit_sort LTrue = SBool"
| "lit_sort LFalse = SBool"
| "lit_sort (LNat _) = SNat"
| "lit_sort (LAddr _) = SAddr"
| "lit_sort LBotAddr = SOptAddr"
| "lit_sort LBotNat = SOptNat"

fun atom_guard :: "pl_atom \<Rightarrow> (type_ref \<times> guard) option" where
  "atom_guard (IsK tr _) = Some (tr, Cataloged)"
| "atom_guard (Members tr) = Some (tr, Cataloged)"
| "atom_guard (TargetsOf tr _) = Some (tr, Cataloged)"
| "atom_guard (IsFiltered tr _) = Some (tr, Needs ReadFilter)"
| "atom_guard (Succs tr _) = Some (tr, GuardWalk)"
| "atom_guard (Chain tr _) = Some (tr, GuardWalk)"
| "atom_guard (Tip tr _) = Some (tr, GuardWalk)"
| "atom_guard (IsInChain tr _ _) = Some (tr, GuardWalk)"
| "atom_guard (SourcesTo tr _) = Some (tr, Needs ReverseLookup)"
| "atom_guard (TargetOf tr _) = Some (tr, Needs ReverseLookup)"
| "atom_guard (Age tr _) = Some (tr, Needs AgeStaleness)"
| "atom_guard (Stale tr _) = Some (tr, Needs AgeStaleness)"
| "atom_guard _ = None"

fun atom_operands :: "pl_atom \<Rightarrow> sort list" where
  "atom_operands (IsInChain _ _ _) = [SAddr, SAddr]"
| "atom_operands (Stale _ _) = [SNat]"
| "atom_operands (Members _) = []"
| "atom_operands (TupAddr _) = []"
| "atom_operands (TupAddrsF _) = []"
| "atom_operands (TupAddrsG _) = []"
| "atom_operands _ = [SAddr]"

fun atom_result :: "pl_atom \<Rightarrow> sort" where
  "atom_result (IsK _ _) = SBool"
| "atom_result (Members _) = SAddrSet"
| "atom_result (TargetsOf _ _) = SAddrSet"
| "atom_result (IsFiltered _ _) = SBool"
| "atom_result (Succs _ _) = SAddrSet"
| "atom_result (Chain _ _) = SAddrSeq"
| "atom_result (Tip _ _) = SOptAddr"
| "atom_result (IsInChain _ _ _) = SBool"
| "atom_result (SourcesTo _ _) = SAddrSet"
| "atom_result (TargetOf _ _) = SOptAddr"
| "atom_result (TargetsKeyed _) = SMap"
| "atom_result (Age _ _) = SOptNat"
| "atom_result (Stale _ _) = SAddrSet"
| "atom_result (IsDoc _) = SBool"
| "atom_result (TupAddr _) = SAddr"
| "atom_result (TupAddrsF _) = SAddrSet"
| "atom_result (TupAddrsG _) = SAddrSet"
| "atom_result (InCoverageF _ _) = SBool"
| "atom_result (InCoverageG _ _) = SBool"

fun atom_tup :: "pl_atom \<Rightarrow> var_id option" where
  "atom_tup (TupAddr v) = Some v"
| "atom_tup (TupAddrsF v) = Some v"
| "atom_tup (TupAddrsG v) = Some v"
| "atom_tup (InCoverageF _ v) = Some v"
| "atom_tup (InCoverageG _ v) = Some v"
| "atom_tup _ = None"

text \<open>The type position is concrete and passes its guard; the tuple variable is bound to a tuple.\<close>

definition guard_ok :: "type_catalog \<Rightarrow> type_ref \<Rightarrow> guard \<Rightarrow> bool" where
  "guard_ok C tr g \<longleftrightarrow> (\<exists>k. tr = Concrete k \<and> guarded C tr g = ok k)"

definition atom_ok :: "type_catalog \<Rightarrow> ctx \<Rightarrow> pl_atom \<Rightarrow> bool" where
  "atom_ok C ctx a \<longleftrightarrow>
     (\<forall>tr g. atom_guard a = Some (tr, g) \<longrightarrow> guard_ok C tr g) \<and>
     (\<forall>v. atom_tup a = Some v \<longrightarrow> ctx v = Some STup)"

fun prim_operands :: "pl_prim \<Rightarrow> sort list" where
  "prim_operands (AddrEq _ _) = [SAddr, SAddr]"
| "prim_operands (Prefix _ _) = [SAddr, SAddr]"
| "prim_operands (T1Lt _ _) = [SAddr, SAddr]"
| "prim_operands (SetMem _ _) = [SAddr, SAddrSet]"
| "prim_operands (SetEq _ _) = [SAddrSet, SAddrSet]"
| "prim_operands (IsEmpty _) = [SAddrSet]"
| "prim_operands (Elems _) = [SAddrSeq]"
| "prim_operands (NatEq _ _) = [SNat, SNat]"
| "prim_operands (NatLe _ _) = [SNat, SNat]"
| "prim_operands (NatAdd _ _) = [SNat, SNat]"
| "prim_operands (MapGet _ _) = [SMap]"
| "prim_operands (Def _) = []"

fun prim_result :: "pl_prim \<Rightarrow> sort" where
  "prim_result (Elems _) = SAddrSet"
| "prim_result (NatAdd _ _) = SNat"
| "prim_result (MapGet _ _) = SOptAddr"
| "prim_result _ = SBool"

fun prim_ok :: "type_catalog \<Rightarrow> pl_prim \<Rightarrow> bool" where
  "prim_ok C (MapGet _ tr) = guard_ok C tr Cataloged"
| "prim_ok C (Def _) = False"
| "prim_ok C _ = True"

section \<open>The judgement\<close>

text \<open>
  \<open>typed C defs n ctx t s\<close>: within \<open>n\<close> levels, following references into \<open>defs\<close>, the term \<open>t\<close> is
  evaluable and of sort \<open>s\<close>. A reference carries its referent's own derivation, so no derivation
  follows a cycle of definitions.
\<close>

inductive typed :: "type_catalog \<Rightarrow> (address \<rightharpoonup> typed_term) \<Rightarrow> nat \<Rightarrow> ctx \<Rightarrow> pl_term \<Rightarrow> sort \<Rightarrow> bool"
  and typed_dom :: "type_catalog \<Rightarrow> (address \<rightharpoonup> typed_term) \<Rightarrow> nat \<Rightarrow> ctx \<Rightarrow> pl_dom \<Rightarrow> sort \<Rightarrow> bool"
  for C :: type_catalog and defs :: "address \<rightharpoonup> typed_term"
where
  T_Var: "ctx v = Some s \<Longrightarrow> typed C defs (Suc n) ctx (Var v) s"
| T_Lit: "typed C defs (Suc n) ctx (Lit l) (lit_sort l)"
| T_Atom: "atom_ok C ctx a \<Longrightarrow> list_all2 (\<lambda>t s. typed C defs n ctx t s) (atom_kids a) (atom_operands a) \<Longrightarrow>
    typed C defs (Suc n) ctx (Atom a) (atom_result a)"
| T_Prim: "prim_ok C p \<Longrightarrow> list_all2 (\<lambda>t s. typed C defs n ctx t s) (prim_kids p) (prim_operands p) \<Longrightarrow>
    typed C defs (Suc n) ctx (Prim p) (prim_result p)"
| T_Def: "typed C defs n ctx x s \<Longrightarrow> s = SOptAddr \<or> s = SOptNat \<Longrightarrow> typed C defs (Suc n) ctx (Prim (Def x)) SBool"
| T_And: "typed C defs n ctx a SBool \<Longrightarrow> typed C defs n ctx b SBool \<Longrightarrow> typed C defs (Suc n) ctx (And a b) SBool"
| T_Or: "typed C defs n ctx a SBool \<Longrightarrow> typed C defs n ctx b SBool \<Longrightarrow> typed C defs (Suc n) ctx (Or a b) SBool"
| T_Implies: "typed C defs n ctx a SBool \<Longrightarrow> typed C defs n ctx b SBool \<Longrightarrow>
    typed C defs (Suc n) ctx (Implies a b) SBool"
| T_Iff: "typed C defs n ctx a SBool \<Longrightarrow> typed C defs n ctx b SBool \<Longrightarrow> typed C defs (Suc n) ctx (Iff a b) SBool"
| T_Not: "typed C defs n ctx a SBool \<Longrightarrow> typed C defs (Suc n) ctx (Not_t a) SBool"
| T_Forall: "typed_dom C defs n ctx d s \<Longrightarrow> typed C defs n (ctx(v \<mapsto> s)) b SBool \<Longrightarrow>
    typed C defs (Suc n) ctx (Forall v d b) SBool"
| T_Exists: "typed_dom C defs n ctx d s \<Longrightarrow> typed C defs n (ctx(v \<mapsto> s)) b SBool \<Longrightarrow>
    typed C defs (Suc n) ctx (Exists v d b) SBool"
| T_Let: "typed C defs n ctx x s \<Longrightarrow> typed C defs n (ctx(v \<mapsto> s)) b u \<Longrightarrow>
    typed C defs (Suc n) ctx (Let_t v x b) u"
| T_IfSome: "typed C defs n ctx x s \<Longrightarrow> s = SOptAddr \<and> w = SAddr \<or> s = SOptNat \<and> w = SNat \<Longrightarrow>
    typed C defs n (ctx(v \<mapsto> w)) a u \<Longrightarrow> typed C defs n ctx b u \<Longrightarrow>
    typed C defs (Suc n) ctx (IfSome x v a b) u"
| T_Count: "typed_dom C defs n ctx d s \<Longrightarrow> typed C defs (Suc n) ctx (Count d) SNat"
| T_Max: "typed_dom C defs n ctx d SAddr \<Longrightarrow> typed C defs (Suc n) ctx (MaxT1 d) SOptAddr"
| T_Min: "typed_dom C defs n ctx d SAddr \<Longrightarrow> typed C defs (Suc n) ctx (MinT1 d) SOptAddr"
| T_Union: "typed_dom C defs n ctx d s \<Longrightarrow> typed C defs n (ctx(v \<mapsto> s)) b SAddrSet \<Longrightarrow>
    typed C defs (Suc n) ctx (BigUnion d v b) SAddrSet"
| T_Reflect: "typed_dom C defs n ctx d SAddr \<Longrightarrow> typed C defs (Suc n) ctx (Reflect d) SAddrSet"
| T_Ref: "defs a = Some tt \<Longrightarrow> list_all2 (\<lambda>t s. typed C defs n ctx t s) args (map snd (tt_params tt)) \<Longrightarrow>
    typed C defs n (collect_map (tt_params tt)) (tt_evaluable tt) (tt_result tt) \<Longrightarrow>
    typed C defs (Suc n) ctx (Ref a args) (tt_result tt)"
| D_Members: "guard_ok C tr Cataloged \<Longrightarrow> typed_dom C defs (Suc n) ctx (MembersDom tr) SAddr"
| D_Active: "guard_ok C tr Cataloged \<Longrightarrow> typed_dom C defs (Suc n) ctx (ActiveSlice tr) STup"
| D_Audit: "guard_ok C tr Cataloged \<Longrightarrow> typed_dom C defs (Suc n) ctx (AuditSlice tr) STup"
| D_Link: "typed_dom C defs (Suc n) ctx LinkDom SAddr"
| D_Filter: "typed_dom C defs n ctx d s \<Longrightarrow> typed C defs n (ctx(v \<mapsto> s)) p SBool \<Longrightarrow>
    typed_dom C defs (Suc n) ctx (Filter d v p) s"
| D_Set: "typed C defs n ctx t SAddrSet \<Longrightarrow> typed_dom C defs (Suc n) ctx (SetTerm t) SAddr"
monos list.rel_mono

lemmas typed_intros = typed_typed_dom.intros

lemma Suc_le_ex: "Suc n \<le> m \<longleftrightarrow> (\<exists>k. m = Suc k \<and> n \<le> k)"
  by (cases m) auto

lemma typed_weaken:
  "typed C defs n ctx t s \<Longrightarrow> n \<le> m \<Longrightarrow> defs \<subseteq>\<^sub>m defs' \<Longrightarrow> typed C defs' m ctx t s"
  "typed_dom C defs n ctx d s \<Longrightarrow> n \<le> m \<Longrightarrow> defs \<subseteq>\<^sub>m defs' \<Longrightarrow> typed_dom C defs' m ctx d s"
proof (induction arbitrary: m and m rule: typed_typed_dom.inducts)
  case (T_Ref a tt n ctx args)
  have "defs' a = Some tt" using T_Ref by (metis domI map_le_def)
  then show ?case
    using T_Ref by (auto simp: Suc_le_ex intro!: typed_intros elim!: list_all2_mono)
qed (auto 4 3 simp: Suc_le_ex intro: typed_intros elim!: list_all2_mono)

lemmas typed_mono = typed_weaken [OF _ _ map_le_refl]

section \<open>Size and references of a term\<close>

text \<open>The nodes a visit reaches, terms and domains alike, and whether it meets a reference.\<close>

function tnodes :: "pl_term \<Rightarrow> nat" and dnodes :: "pl_dom \<Rightarrow> nat" where
  "tnodes t = Suc (sum_list (map tnodes (term_kids t)) + sum_list (map dnodes (term_doms t)))"
| "dnodes d = Suc (sum_list (map tnodes (dom_kids d)) + sum_list (map dnodes (dom_doms d)))"
  by pat_completeness auto
termination
  by (relation "measure (case_sum size size)") (auto simp: termination_simp)

function ref_free :: "pl_term \<Rightarrow> bool" and dom_ref_free :: "pl_dom \<Rightarrow> bool" where
  "ref_free t \<longleftrightarrow> (\<forall>a args. t \<noteq> Ref a args) \<and> (\<forall>u \<in> set (term_kids t). ref_free u) \<and>
     (\<forall>d \<in> set (term_doms t). dom_ref_free d)"
| "dom_ref_free d \<longleftrightarrow> (\<forall>u \<in> set (dom_kids d). ref_free u) \<and> (\<forall>e \<in> set (dom_doms d). dom_ref_free e)"
  by pat_completeness auto
termination
  by (relation "measure (case_sum size size)") (auto simp: termination_simp)

declare tnodes.simps [simp del] dnodes.simps [simp del] ref_free.simps [simp del] dom_ref_free.simps [simp del]

section \<open>The budgets\<close>

lemma saturating_le: "m < 2 ^ w - 1 \<Longrightarrow> saturating_add w a b \<le> m \<longleftrightarrow> a + b \<le> m"
  by (auto simp: saturating_add_def)

lemma saturating_eq: "saturating_add w a b \<le> m \<Longrightarrow> m < 2 ^ w - 1 \<Longrightarrow> saturating_add w a b = a + b"
  by (auto simp: saturating_add_def)

lemma reach_to_ok_iff:
  "reach_to lvl st = ok (u, st') \<longleftrightarrow>
     lvl \<le> MAX_DEPTH \<and> st' = st\<lparr>ck_deepest := max (ck_deepest st) lvl\<rparr>"
  by (auto simp: reach_to_def)

lemma budget_charge_within:
  "budget_charge n w = (True, m) \<longleftrightarrow> n + w \<le> MAX_TERM_NODES \<and> m = n + w"
  by (auto simp: budget_charge_def saturating_add_def Let_def MAX_TERM_NODES_def)

lemma enter_ok_iff:
  "enter w d st = ok (u, st') \<longleftrightarrow>
     d \<le> MAX_DEPTH \<and> ck_nodes st + w \<le> MAX_TERM_NODES \<and>
     st' = \<lparr>ck_nodes = ck_nodes st + w, ck_deepest = max (ck_deepest st) d\<rparr>"
proof -
  obtain b m where bm: "budget_charge (ck_nodes st) w = (b, m)" by fastforce
  then show ?thesis
    using budget_charge_within [of "ck_nodes st" w m]
    by (cases b) (auto simp: enter_def and_then_ok_iff reach_to_ok_iff budget_charge_def Let_def
        saturating_add_def MAX_TERM_NODES_def)
qed

lemma weight_pos: "1 \<le> weight t"
  by (auto simp: weight_def saturating_add_def)

lemma sub_check_ok_iff [simp]:
  "sub_check chk ctx t s d st = ok (c, st') \<longleftrightarrow> chk ctx t d st = ok (c, st') \<and> ck_sort c = s"
  by (auto simp: sub_check_def and_then_ok_iff want_def)

lemma want_ok_iff [simp]: "want s s' = ok u \<longleftrightarrow> s = s'"
  by (auto simp: want_def)

lemma guarded_ok:
  assumes "guarded C tr g = ok k"
  shows "tr = Concrete k \<and> guard_ok C (Concrete k) g"
proof -
  have "tr = Concrete k"
    using assms by (auto simp: guarded_def and_then_ok_iff Let_def split: type_ref.splits option.splits)
  then show ?thesis using assms by (simp add: guard_ok_def)
qed

section \<open>What one call of the checker establishes\<close>

text \<open>The pass charges at least \<open>k\<close> nodes, stays within the caps and never lowers the deepest level.\<close>

definition moves :: "nat \<Rightarrow> chk_state \<Rightarrow> chk_state \<Rightarrow> bool" where
  "moves k st st' \<longleftrightarrow>
     ck_nodes st + k \<le> ck_nodes st' \<and> (ck_nodes st \<le> MAX_TERM_NODES \<longrightarrow> ck_nodes st' \<le> MAX_TERM_NODES) \<and>
     ck_deepest st \<le> ck_deepest st' \<and> ck_deepest st' \<le> max (ck_deepest st) MAX_DEPTH"

text \<open>
  \<open>judged\<close> is what an admitted node promises, \<open>D\<close> being any level the whole pass stays above;
  \<open>expanded\<close> is the part that remains once the node itself has been charged.
\<close>

definition expanded ::
  "type_catalog \<Rightarrow> (address \<rightharpoonup> typed_term) \<Rightarrow> nat \<Rightarrow> ctx \<Rightarrow> nat \<Rightarrow> chk_state \<Rightarrow> checked \<Rightarrow> chk_state \<Rightarrow> bool"
where
  "expanded C defs D ctx d st c st' \<longleftrightarrow>
     moves (tnodes (ck_term c) - 1) st st' \<and> (ck_ref_free c \<longleftrightarrow> ref_free (ck_term c)) \<and>
     (ck_deepest st' \<le> D \<longrightarrow> typed C defs (Suc (D - d)) ctx (ck_term c) (ck_sort c))"

definition judged ::
  "type_catalog \<Rightarrow> (address \<rightharpoonup> typed_term) \<Rightarrow> nat \<Rightarrow> ctx \<Rightarrow> nat \<Rightarrow> chk_state \<Rightarrow> checked \<Rightarrow> chk_state \<Rightarrow> bool"
where
  "judged C defs D ctx d st c st' \<longleftrightarrow>
     moves (tnodes (ck_term c)) st st' \<and> ck_nodes st' \<le> MAX_TERM_NODES \<and> d \<le> ck_deepest st' \<and>
     d \<le> MAX_DEPTH \<and>
     (ck_ref_free c \<longleftrightarrow> ref_free (ck_term c)) \<and>
     (ck_deepest st' \<le> D \<longrightarrow> typed C defs (Suc (D - d)) ctx (ck_term c) (ck_sort c))"

definition judged_dom ::
  "type_catalog \<Rightarrow> (address \<rightharpoonup> typed_term) \<Rightarrow> nat \<Rightarrow> ctx \<Rightarrow> nat \<Rightarrow> chk_state \<Rightarrow> checked_dom \<Rightarrow> chk_state \<Rightarrow> bool"
where
  "judged_dom C defs D ctx d st c st' \<longleftrightarrow>
     moves (dnodes (cd_dom c)) st st' \<and> ck_nodes st' \<le> MAX_TERM_NODES \<and> d \<le> ck_deepest st' \<and>
     (cd_ref_free c \<longleftrightarrow> dom_ref_free (cd_dom c)) \<and>
     (ck_deepest st' \<le> D \<longrightarrow> typed_dom C defs (Suc (D - d)) ctx (cd_dom c) (cd_elem_sort c))"

definition judges ::
  "type_catalog \<Rightarrow> (address \<rightharpoonup> typed_term) \<Rightarrow> nat \<Rightarrow> check_fn \<Rightarrow> ctx \<Rightarrow> pl_term set \<Rightarrow> bool"
where
  "judges C defs D chk ctx U \<longleftrightarrow>
     (\<forall>u \<in> U. \<forall>d st c st'. chk ctx u d st = ok (c, st') \<longrightarrow> judged C defs D ctx d st c st')"

definition judges_dom ::
  "type_catalog \<Rightarrow> (address \<rightharpoonup> typed_term) \<Rightarrow> nat \<Rightarrow> check_dom_fn \<Rightarrow> ctx \<Rightarrow> pl_dom set \<Rightarrow> bool"
where
  "judges_dom C defs D chk ctx U \<longleftrightarrow>
     (\<forall>u \<in> U. \<forall>d st c st'. chk ctx u d st = ok (c, st') \<longrightarrow> judged_dom C defs D ctx d st c st')"

lemma judgesD: "judges C defs D chk ctx U \<Longrightarrow> chk ctx u d st = ok (c, st') \<Longrightarrow> u \<in> U \<Longrightarrow> judged C defs D ctx d st c st'"
  by (simp add: judges_def)

lemma judges_domD:
  "judges_dom C defs D chk ctx U \<Longrightarrow> chk ctx u d st = ok (c, st') \<Longrightarrow> u \<in> U \<Longrightarrow> judged_dom C defs D ctx d st c st'"
  by (simp add: judges_dom_def)

lemma judges_subset: "judges C defs D chk ctx U \<Longrightarrow> V \<subseteq> U \<Longrightarrow> judges C defs D chk ctx V"
  by (auto simp: judges_def)

lemma judges_dom_subset: "judges_dom C defs D chk ctx U \<Longrightarrow> V \<subseteq> U \<Longrightarrow> judges_dom C defs D chk ctx V"
  by (auto simp: judges_dom_def)

lemma tnodes_pos: "1 \<le> tnodes t"
  by (simp add: tnodes.simps)

lemmas tnodes_simps [simp] =
  tnodes.simps [of "Var v" for v] tnodes.simps [of "Lit l" for l]
  tnodes.simps [of "Atom a" for a] tnodes.simps [of "Prim p" for p]
  tnodes.simps [of "And a b" for a b] tnodes.simps [of "Or a b" for a b]
  tnodes.simps [of "Implies a b" for a b] tnodes.simps [of "Iff a b" for a b]
  tnodes.simps [of "Not_t a" for a] tnodes.simps [of "Forall v d b" for v d b]
  tnodes.simps [of "Exists v d b" for v d b] tnodes.simps [of "Let_t v a b" for v a b]
  tnodes.simps [of "IfSome x v a b" for x v a b] tnodes.simps [of "Count d" for d]
  tnodes.simps [of "MaxT1 d" for d] tnodes.simps [of "MinT1 d" for d]
  tnodes.simps [of "BigUnion d v b" for d v b] tnodes.simps [of "Reflect d" for d]
  tnodes.simps [of "Ref a args" for a args]
  dnodes.simps [of "MembersDom tr" for tr] dnodes.simps [of "ActiveSlice tr" for tr]
  dnodes.simps [of "AuditSlice tr" for tr] dnodes.simps [of LinkDom] dnodes.simps [of Reg]
  dnodes.simps [of "Filter d v p" for d v p] dnodes.simps [of "SetTerm t" for t]

lemmas ref_free_simps [simp] =
  ref_free.simps [of "Var v" for v] ref_free.simps [of "Lit l" for l]
  ref_free.simps [of "Atom a" for a] ref_free.simps [of "Prim p" for p]
  ref_free.simps [of "And a b" for a b] ref_free.simps [of "Or a b" for a b]
  ref_free.simps [of "Implies a b" for a b] ref_free.simps [of "Iff a b" for a b]
  ref_free.simps [of "Not_t a" for a] ref_free.simps [of "Forall v d b" for v d b]
  ref_free.simps [of "Exists v d b" for v d b] ref_free.simps [of "Let_t v a b" for v a b]
  ref_free.simps [of "IfSome x v a b" for x v a b] ref_free.simps [of "Count d" for d]
  ref_free.simps [of "MaxT1 d" for d] ref_free.simps [of "MinT1 d" for d]
  ref_free.simps [of "BigUnion d v b" for d v b] ref_free.simps [of "Reflect d" for d]
  ref_free.simps [of "Ref a args" for a args]
  dom_ref_free.simps [of "MembersDom tr" for tr] dom_ref_free.simps [of "ActiveSlice tr" for tr]
  dom_ref_free.simps [of "AuditSlice tr" for tr] dom_ref_free.simps [of LinkDom] dom_ref_free.simps [of Reg]
  dom_ref_free.simps [of "Filter d v p" for d v p] dom_ref_free.simps [of "SetTerm t" for t]

text \<open>Operands are checked one after another, in one context and at one level.\<close>

fun chain :: "check_fn \<Rightarrow> ctx \<Rightarrow> nat \<Rightarrow> chk_state \<Rightarrow> pl_term list \<Rightarrow> checked list \<Rightarrow> chk_state \<Rightarrow> bool" where
  "chain chk ctx d st [] cs st' \<longleftrightarrow> cs = [] \<and> st' = st"
| "chain chk ctx d st (u # us) cs st' \<longleftrightarrow>
     (\<exists>c cs1 st1. cs = c # cs1 \<and> chk ctx u d st = ok (c, st1) \<and> chain chk ctx d st1 us cs1 st')"

lemma moves_refl [simp]: "moves 0 st st"
  by (simp add: moves_def)

lemma moves_trans: "moves k st st1 \<Longrightarrow> moves k' st1 st2 \<Longrightarrow> moves (k + k') st st2"
  by (auto simp: moves_def)

lemma moves_le: "moves k st st' \<Longrightarrow> k' \<le> k \<Longrightarrow> moves k' st st'"
  by (auto simp: moves_def)

lemma chain_judged:
  assumes "judges C defs D chk ctx (set us)"
    and "chain chk ctx (Suc d) st us cs st'"
  shows "moves (sum_list (map tnodes (map ck_term cs))) st st' \<and>
    (\<forall>c \<in> set cs. ck_ref_free c \<longleftrightarrow> ref_free (ck_term c)) \<and>
    (ck_deepest st' \<le> D \<longrightarrow>
       list_all2 (\<lambda>t s. typed C defs (D - d) ctx t s) (map ck_term cs) (map ck_sort cs))"
  using assms
proof (induction us arbitrary: st cs)
  case (Cons u us)
  then obtain c cs1 st1 where c: "cs = c # cs1" "chk ctx u (Suc d) st = ok (c, st1)"
    "chain chk ctx (Suc d) st1 us cs1 st'" by auto
  have j: "judged C defs D ctx (Suc d) st c st1" by (rule judgesD [OF Cons.prems(1) c(2)]) simp
  note ih = Cons.IH [OF judges_subset [OF Cons.prems(1)] c(3), OF set_subset_Cons]
  have "typed C defs (D - d) ctx (ck_term c) (ck_sort c)" if "ck_deepest st' \<le> D"
  proof -
    have deep: "ck_deepest st1 \<le> ck_deepest st'" using ih by (auto simp: moves_def)
    then have "typed C defs (Suc (D - Suc d)) ctx (ck_term c) (ck_sort c)" "Suc d \<le> D"
      using j that by (auto simp: judged_def)
    then show ?thesis by (metis Suc_diff_Suc Suc_le_lessD)
  qed
  then show ?case using ih j moves_trans [of "tnodes (ck_term c)" st st1 _ st'] c(1)
    by (auto simp: judged_def)
qed simp

lemma check_atom_chain:
  assumes "check_atom C chk ctx a d st = ok (c, st')"
  shows "\<exists>a' cs. chain chk ctx (Suc d) st (atom_kids a) cs st' \<and> ck_term c = Atom a' \<and> ck_sort c = atom_result a' \<and>
    atom_kids a' = map ck_term cs \<and> atom_operands a' = map ck_sort cs \<and> atom_ok C ctx a' \<and>
    (ck_ref_free c \<longleftrightarrow> (\<forall>k \<in> set cs. ck_ref_free k))"
  using assms
  by (cases a)
    (fastforce simp: check_atom_def atom1_def atom0_def and_then_ok_iff tup_atom_def coverage_atom_def
      tup_var_def Let_def atom_ok_def dest!: guarded_ok split: option.splits if_splits)+

text \<open>\<^verbatim>\<open>Def\<close> takes either optional sort; every other primitive has one operand list.\<close>

definition prim_takes :: "type_catalog \<Rightarrow> pl_prim \<Rightarrow> sort list \<Rightarrow> bool" where
  "prim_takes C p ss \<longleftrightarrow>
     prim_operands p = ss \<and> prim_ok C p \<or> (\<exists>x. p = Def x \<and> (ss = [SOptAddr] \<or> ss = [SOptNat]))"

lemma check_prim_chain:
  assumes "check_prim C chk ctx p d st = ok (c, st')"
  shows "\<exists>p' cs. chain chk ctx (Suc d) st (prim_kids p) cs st' \<and> ck_term c = Prim p' \<and> ck_sort c = prim_result p' \<and>
    prim_kids p' = map ck_term cs \<and> (ck_ref_free c \<longleftrightarrow> (\<forall>k \<in> set cs. ck_ref_free k)) \<and>
    prim_takes C p' (map ck_sort cs)"
  using assms
  by (cases p)
    (fastforce simp: check_prim_def prim1_def prim2_def and_then_ok_iff prim_rules Let_def prim_takes_def
      dest!: guarded_ok split: if_splits)+

section \<open>Substitution charges what it copies\<close>

lemma rw_list_le:
  assumes "\<And>u u' n n'. u \<in> set us \<Longrightarrow> f u n = ret (u', n') \<Longrightarrow> \<mu> n \<le> (\<mu> n' :: nat)"
  shows "rw_list f us n = ret (us', n') \<Longrightarrow> \<mu> n \<le> \<mu> n'"
  using assms
proof (induction us arbitrary: n us')
  case (Cons u us)
  then obtain u' m ys where *: "f u n = ret (u', m)" "rw_list f us m = ret (ys, n')"
    by (auto split: bind_splits)
  have "\<mu> n \<le> \<mu> m" by (rule Cons.prems(2) [OF _ *(1)]) simp
  moreover have "\<mu> m \<le> \<mu> n'" by (rule Cons.IH [OF *(2)]) (use Cons.prems(2) in auto)
  ultimately show ?case by simp
qed simp

lemma rewrite_atom_le:
  assumes "\<And>u u' n n'. u \<in> set (atom_kids a) \<Longrightarrow> f u n = ret (u', n') \<Longrightarrow> \<mu> n \<le> (\<mu> n' :: nat)"
    and "rewrite_atom f tr vu a n = ret (a', n')"
  shows "\<mu> n \<le> \<mu> n'"
  using assms(2)
  by (cases a) (auto simp: rw1_def rw2_def split: bind_splits dest!: assms(1) [rotated])

lemma rewrite_prim_le:
  assumes "\<And>u u' n n'. u \<in> set (prim_kids a) \<Longrightarrow> f u n = ret (u', n') \<Longrightarrow> \<mu> n \<le> (\<mu> n' :: nat)"
    and "rewrite_prim f tr a n = ret (a', n')"
  shows "\<mu> n \<le> \<mu> n'"
  using assms(2)
  by (cases a) (auto simp: rw1_def rw2_def split: bind_splits dest!: assms(1) [rotated])

lemma rewrite_term_le:
  assumes "\<And>u u' n n'. u \<in> set (term_kids t) \<Longrightarrow> ft u n = ret (u', n') \<Longrightarrow> \<mu> n \<le> (\<mu> n' :: nat)"
    and "\<And>d d' n n'. d \<in> set (term_doms t) \<Longrightarrow> fd d n = ret (d', n') \<Longrightarrow> \<mu> n \<le> \<mu> n'"
    and "rewrite_term ft fd tr vu t n = ret (t', n')"
  shows "\<mu> n \<le> \<mu> n'"
proof (cases "(\<exists>a. t = Atom a) \<or> (\<exists>p. t = Prim p) \<or> (\<exists>a ts. t = Ref a ts)")
  case True
  then show ?thesis using assms(1,3)
    by (auto simp: rw1_def split: bind_splits
        dest!: rewrite_atom_le [rotated] rewrite_prim_le [rotated] rw_list_le [rotated])
next
  case False
  then show ?thesis using assms(3)
    by (cases t) (auto simp: rw1_def rw2_def split: bind_splits
        dest!: assms(1) [rotated] assms(2) [rotated])
qed

lemma rewrite_dom_le:
  assumes "\<And>u u' n n'. u \<in> set (dom_kids d) \<Longrightarrow> ft u n = ret (u', n') \<Longrightarrow> \<mu> n \<le> (\<mu> n' :: nat)"
    and "\<And>e e' n n'. e \<in> set (dom_doms d) \<Longrightarrow> fd e n = ret (e', n') \<Longrightarrow> \<mu> n \<le> \<mu> n'"
    and "rewrite_dom ft fd tr d n = ret (d', n')"
  shows "\<mu> n \<le> \<mu> n'"
  using assms(3) by (cases d) (auto simp: rw1_def rw2_def split: bind_splits
      dest!: assms(1) [rotated] assms(2) [rotated])

text \<open>Saturation keeps the counter below \<open>2 ^ 64\<close>; up to it, charging never lowers the counter.\<close>

definition capped :: "nat \<Rightarrow> nat" where
  "capped n = min n (2 ^ 64 - 1)"

lemma budget_charge_le: "capped n \<le> capped (snd (budget_charge n w))"
  by (auto simp: capped_def budget_charge_def saturating_add_def Let_def)

lemma subst_le:
  "subst_term cv k t n = ret (t', n') \<Longrightarrow> capped (snd (budget_charge n (weight t))) \<le> capped n'"
  "subst_dom cv k d n = ret (d', n') \<Longrightarrow> capped n \<le> capped n'"
proof (induction cv k t n and cv k d n arbitrary: t' n' and d' n' rule: subst_term_subst_dom.induct)
  case (1 cv k t n)
  obtain within m where b: "budget_charge n (weight t) = (within, m)" by fastforce
  show ?case
  proof (cases "within \<and> \<not> shadows cv t")
    case True
    then have "rewrite_term (subst_term cv k) (subst_dom cv k) (subst_typeref cv k) (\<lambda>v. v) t m
      = ret (t', n')" using "1.prems" b by (simp add: subst_term.simps [of cv k t])
    then show ?thesis unfolding b snd_conv
      by (rule rewrite_term_le [where \<mu> = capped, rotated 2])
        (use True "1.IH" [OF b [symmetric]] order_trans [OF budget_charge_le] in blast)+
  next
    case False
    then show ?thesis using "1.prems" b by (auto simp: subst_term.simps [of cv k t] split: if_splits)
  qed
next
  case (2 cv k d n)
  have r: "rewrite_dom (subst_term cv k) (subst_dom cv k) (subst_typeref cv k) d n = ret (d', n')"
    using "2.prems" by (simp add: subst_dom.simps [of cv k d])
  show ?case
    by (rule rewrite_dom_le [where \<mu> = capped, rotated 2, OF r])
      (use "2.IH" order_trans [OF budget_charge_le] in blast)+
qed

lemma subst_charges:
  assumes "subst_term cv k t n = ret (t', n')" "\<not> budget_spent n'" "n \<le> MAX_TERM_NODES"
  shows "Suc n \<le> n'" "n' \<le> MAX_TERM_NODES"
proof -
  show le: "n' \<le> MAX_TERM_NODES" using assms(2) by (simp add: budget_spent_def)
  have "capped (saturating_add 64 n (weight t)) \<le> capped n'"
    using subst_le(1) [OF assms(1)] by (simp add: budget_charge_def Let_def)
  then show "Suc n \<le> n'"
    using weight_pos [of t] le assms(3) by (auto simp: saturating_add_def MAX_TERM_NODES_def capped_def)
qed

section \<open>Every admitted term is typed\<close>

lemma judged_below:
  assumes "judged C defs D ctx (Suc d) st c st1" "moves k st1 st'" "ck_deepest st' \<le> D"
  shows "typed C defs (D - d) ctx (ck_term c) (ck_sort c)"
proof -
  have "ck_deepest st1 \<le> D" using assms(2,3) by (auto simp: moves_def)
  then have "typed C defs (Suc (D - Suc d)) ctx (ck_term c) (ck_sort c)" "Suc d \<le> D"
    using assms(1) by (auto simp: judged_def)
  then show ?thesis by (metis Suc_diff_Suc Suc_le_lessD)
qed

lemma judged_dom_below:
  assumes "judged_dom C defs D ctx (Suc d) st c st1" "moves k st1 st'" "ck_deepest st' \<le> D"
  shows "typed_dom C defs (D - d) ctx (cd_dom c) (cd_elem_sort c)"
proof -
  have "ck_deepest st1 \<le> D" using assms(2,3) by (auto simp: moves_def)
  then have "typed_dom C defs (Suc (D - Suc d)) ctx (cd_dom c) (cd_elem_sort c)" "Suc d \<le> D"
    using assms(1) by (auto simp: judged_dom_def)
  then show ?thesis by (metis Suc_diff_Suc Suc_le_lessD)
qed

text \<open>The join of the \<^verbatim>\<open>Reg\<close> instances: each instance after the first adds one connective.\<close>

lemma expand_reg_loop_typed:
  assumes chk: "judges C defs D chk ctx {u. size u \<le> size body}"
    and join: "join = And \<or> join = Or"
  shows "expand_reg_loop chk ctx cv body I join ks (Some p) st = ok (c, st') \<Longrightarrow> ck_nodes st \<le> MAX_TERM_NODES \<Longrightarrow>
    ck_sort p = SBool \<Longrightarrow> (ck_ref_free p \<longleftrightarrow> ref_free (ck_term p)) \<Longrightarrow>
    (ck_deepest st \<le> D \<Longrightarrow> typed C defs (Suc (D - I) + m) ctx (ck_term p) SBool) \<Longrightarrow>
    moves (tnodes (ck_term c) - tnodes (ck_term p)) st st' \<and> ck_sort c = SBool \<and>
    (ck_ref_free c \<longleftrightarrow> ref_free (ck_term c)) \<and>
    (ck_deepest st' \<le> D \<longrightarrow> typed C defs (Suc (D - I) + m + length ks) ctx (ck_term c) SBool)"
proof (induction ks arbitrary: p st m)
  case (Cons k ks)
  obtain inst n where inst: "subst_term cv k body (ck_nodes st) = ret (inst, n)"
    using Cons.prems(1) by (auto split: option.splits)
  then have spent: "\<not> budget_spent n" using Cons.prems(1) by (auto split: if_splits)
  obtain ci st1 where sc: "sub_check chk ctx inst SBool I (st\<lparr>ck_nodes := n\<rparr>) = ok (ci, st1)"
    using Cons.prems(1) inst spent by (auto split: option.splits sum.splits)
  then have ci: "chk ctx inst I (st\<lparr>ck_nodes := n\<rparr>) = ok (ci, st1)" "ck_sort ci = SBool" by simp_all
  let ?p = "\<lparr>ck_term = join (ck_term p) (ck_term ci), ck_sort = SBool,
    ck_ref_free = ck_ref_free p \<and> ck_ref_free ci\<rparr>"
  have rest: "expand_reg_loop chk ctx cv body I join ks (Some ?p) st1 = ok (c, st')"
    using Cons.prems(1) inst spent sc by (simp del: sub_check_ok_iff)
  have j: "judged C defs D ctx I (st\<lparr>ck_nodes := n\<rparr>) ci st1"
    by (rule judgesD [OF chk ci(1)]) (use subst_size(1) [OF inst] in simp)
  note n = subst_charges [OF inst spent Cons.prems(2)]
  have mv: "moves (Suc (tnodes (ck_term ci))) st st1" using j n by (auto simp: judged_def moves_def)
  have "moves (tnodes (ck_term c) - tnodes (ck_term ?p)) st1 st' \<and> ck_sort c = SBool \<and>
    (ck_ref_free c \<longleftrightarrow> ref_free (ck_term c)) \<and>
    (ck_deepest st' \<le> D \<longrightarrow> typed C defs (Suc (D - I) + Suc m + length ks) ctx (ck_term c) SBool)"
  proof (rule Cons.IH [OF rest])
    show "typed C defs (Suc (D - I) + Suc m) ctx (ck_term ?p) SBool" if "ck_deepest st1 \<le> D"
    proof -
      have deep: "ck_deepest st \<le> D" using that mv by (auto simp: moves_def)
      have "typed C defs (Suc (D - I) + m) ctx (ck_term ci) SBool"
        using j ci(2) that by (auto simp: judged_def intro: typed_mono(1))
      then show ?thesis using join Cons.prems(5) [OF deep] by (auto intro: typed_intros)
    qed
  qed (use Cons.prems(4) join j ci(2) in \<open>auto simp: judged_def\<close>)
  note ih = this
  have "tnodes (ck_term ?p) = Suc (tnodes (ck_term p) + tnodes (ck_term ci))" using join by auto
  then have "moves (tnodes (ck_term c) - tnodes (ck_term p)) st st'"
    using ih by (intro moves_le [OF moves_trans [OF mv]]) auto
  then show ?case using ih by simp
qed auto

lemma clamp_le: "clamp w n \<le> m \<Longrightarrow> m < 2 ^ w - 1 \<Longrightarrow> clamp w n = n"
  by (auto simp: clamp_def split: if_splits)

lemma saturating_clamp:
  assumes "saturating_add 32 a (clamp 32 n) \<le> MAX_DEPTH"
  shows "saturating_add 32 a (clamp 32 n) = a + n"
proof -
  have "a + clamp 32 n \<le> MAX_DEPTH" using assms by (simp add: saturating_le MAX_DEPTH_def)
  moreover from this have "clamp 32 n = n" by (intro clamp_le [of _ _ MAX_DEPTH]) (simp_all add: MAX_DEPTH_def)
  ultimately show ?thesis by (simp add: saturating_add_def MAX_DEPTH_def)
qed

lemma argument_depth_eq:
  assumes "argument_depth d i \<le> MAX_DEPTH"
  shows "argument_depth d i = Suc d + i"
proof -
  have "argument_depth d i = saturating_add 32 d 1 + i"
    using saturating_clamp assms by (simp add: argument_depth_def)
  moreover from this have "saturating_add 32 d 1 \<le> MAX_DEPTH" using assms by simp
  then have "saturating_add 32 d 1 = d + 1" by (rule saturating_eq) (simp add: MAX_DEPTH_def)
  ultimately show ?thesis by simp
qed

lemma reference_reach_eq:
  assumes "reference_reach d arity r \<le> MAX_DEPTH"
  shows "reference_reach d arity r = d + 2 + arity + r"
proof -
  have 1: "reference_reach d arity r = saturating_add 32 (referent_depth d) (clamp 32 arity) + r"
    using assms unfolding reference_reach_def by (rule saturating_eq) (simp add: MAX_DEPTH_def)
  then have 2: "saturating_add 32 (referent_depth d) (clamp 32 arity) = referent_depth d + arity"
    using assms by (intro saturating_clamp) simp
  then have "referent_depth d \<le> MAX_DEPTH" using assms 1 by simp
  then have "referent_depth d = d + 2"
    unfolding referent_depth_def DERIVATION_COST_def by (rule saturating_eq) (simp add: MAX_DEPTH_def)
  then show ?thesis using 1 2 by simp
qed

lemma expand_reg_expanded:
  assumes chk: "judges C defs D chk ctx {u. size u \<le> size body}"
    and join: "join = And \<or> join = Or"
    and run: "expand_reg C chk ctx cv body d join st = ok (c, st')" "ck_nodes st \<le> MAX_TERM_NODES"
  shows "expanded C defs D ctx d st c st'"
proof -
  let ?I = "saturating_add 32 d (clamp 32 (length (cat_classes C) - 1))"
  have loop: "expand_reg_loop chk ctx cv body ?I join (cat_classes C) None st = ok (c, st')"
    using run(1) by (simp add: expand_reg_def Let_def)
  then obtain k ks where ks: "cat_classes C = k # ks" by (cases "cat_classes C") auto
  obtain inst n where inst: "subst_term cv k body (ck_nodes st) = ret (inst, n)"
    using loop ks by (auto split: option.splits)
  then have spent: "\<not> budget_spent n" using loop ks by (auto split: if_splits)
  obtain ci st1 where sc: "sub_check chk ctx inst SBool ?I (st\<lparr>ck_nodes := n\<rparr>) = ok (ci, st1)"
    using loop ks inst spent by (auto split: option.splits sum.splits)
  have rest: "expand_reg_loop chk ctx cv body ?I join ks (Some ci) st1 = ok (c, st')"
    using loop ks inst spent sc by (simp del: sub_check_ok_iff)
  have j: "judged C defs D ctx ?I (st\<lparr>ck_nodes := n\<rparr>) ci st1"
    by (rule judgesD [OF chk]) (use subst_size(1) [OF inst] sc in auto)
  note n = subst_charges [OF inst spent run(2)]
  have "moves (tnodes (ck_term c) - tnodes (ck_term ci)) st1 st' \<and> ck_sort c = SBool \<and>
    (ck_ref_free c \<longleftrightarrow> ref_free (ck_term c)) \<and>
    (ck_deepest st' \<le> D \<longrightarrow> typed C defs (Suc (D - ?I) + 0 + length ks) ctx (ck_term c) SBool)"
    by (rule expand_reg_loop_typed [OF chk join rest]) (use j sc in \<open>auto simp: judged_def\<close>)
  note r = this
  have I: "?I = d + length ks" using saturating_clamp [of d "length ks"] j ks by (simp add: judged_def)
  have "moves (tnodes (ck_term ci)) st st1" using j n by (auto simp: judged_def moves_def)
  from moves_trans [OF this conjunct1 [OF r]] have "moves (tnodes (ck_term c) - 1) st st'"
    by (rule moves_le) simp
  moreover have "Suc (D - ?I) + length ks = Suc (D - d)" if "ck_deepest st' \<le> D"
    using that j r I by (auto simp: judged_def moves_def)
  ultimately show ?thesis using r by (simp add: expanded_def)
qed

lemma reference_args_loop_typed:
  assumes "judges C defs D chk ctx (set args)"
    and "reference_args_loop chk ctx a params found d i args st = ok (cs, st')" "i \<le> length params"
  shows "moves (sum_list (map tnodes cs)) st st' \<and> i + length args \<le> length params \<and>
    (ck_deepest st' \<le> D \<longrightarrow>
      list_all2 (\<lambda>t s. typed C defs (D - d) ctx t s) cs (map snd (take (length args) (drop i params))))"
  using assms
proof (induction args arbitrary: i st cs)
  case (Cons arg args)
  obtain c st1 cs1 where c: "chk ctx arg (argument_depth d i) st = ok (c, st1)" "i < length params"
    "ck_sort c = snd (params ! i)"
    "reference_args_loop chk ctx a params found d (Suc i) args st1 = ok (cs1, st')" "cs = ck_term c # cs1"
    using Cons.prems(2) by (auto simp: and_then_ok_iff split: if_splits)
  have j: "judged C defs D ctx (argument_depth d i) st c st1" by (rule judgesD [OF Cons.prems(1) c(1)]) simp
  have ih: "moves (sum_list (map tnodes cs1)) st1 st' \<and> Suc i + length args \<le> length params \<and>
    (ck_deepest st' \<le> D \<longrightarrow>
      list_all2 (\<lambda>t s. typed C defs (D - d) ctx t s) cs1 (map snd (take (length args) (drop (Suc i) params))))"
    by (rule Cons.IH [OF judges_subset [OF Cons.prems(1)] c(4)]) (use c(2) in auto)
  have "typed C defs (D - d) ctx (ck_term c) (snd (params ! i))" if "ck_deepest st' \<le> D"
  proof -
    have "ck_deepest st1 \<le> D" using that ih by (auto simp: moves_def)
    then have "typed C defs (Suc (D - argument_depth d i)) ctx (ck_term c) (snd (params ! i))"
      "argument_depth d i \<le> D" "argument_depth d i \<le> MAX_DEPTH"
      using j c(3) by (auto simp: judged_def)
    then show ?thesis using argument_depth_eq [of d i] by (auto intro: typed_mono(1))
  qed
  moreover have "drop i params = params ! i # drop (Suc i) params" using c(2) by (rule Cons_nth_drop_Suc [symmetric])
  moreover have "moves (tnodes (ck_term c) + sum_list (map tnodes cs1)) st st'"
    by (rule moves_trans) (use j ih in \<open>auto simp: judged_def\<close>)
  ultimately show ?case using ih c(5) by simp
qed (use assms(3) in simp)

text \<open>
  A definition's checked body is typed within its recorded reach, and a resolver answers only from
  the table of definitions.
\<close>

definition def_typed :: "type_catalog \<Rightarrow> (address \<rightharpoonup> typed_term) \<Rightarrow> typed_term \<Rightarrow> bool" where
  "def_typed C defs tt \<longleftrightarrow>
     typed C defs (Suc (tt_reach tt)) (collect_map (tt_params tt)) (tt_evaluable tt) (tt_result tt)"

definition answers_from :: "(address \<Rightarrow> nat \<Rightarrow> (typed_term, unresolved) result) \<Rightarrow> (address \<rightharpoonup> typed_term) \<Rightarrow> bool" where
  "answers_from R defs \<longleftrightarrow> (\<forall>a k tt. R a k = Inr tt \<longrightarrow> defs a = Some tt)"

lemma expandedI:
  assumes "moves k st st'" "tnodes (ck_term c) \<le> Suc k" "ck_ref_free c \<longleftrightarrow> ref_free (ck_term c)"
    and "ck_deepest st' \<le> D \<Longrightarrow> typed C defs (Suc (D - d)) ctx (ck_term c) (ck_sort c)"
  shows "expanded C defs D ctx d st c st'"
  using assms by (auto simp: expanded_def intro: moves_le)

lemma judged_pair:
  assumes "judged C defs D ctx1 (Suc d) st c1 st1" "judged C defs D ctx2 (Suc d) st1 c2 st2"
  shows "moves (tnodes (ck_term c1) + tnodes (ck_term c2)) st st2"
    "ck_deepest st2 \<le> D \<Longrightarrow> typed C defs (D - d) ctx1 (ck_term c1) (ck_sort c1)"
    "ck_deepest st2 \<le> D \<Longrightarrow> typed C defs (D - d) ctx2 (ck_term c2) (ck_sort c2)"
    "ck_ref_free c1 \<longleftrightarrow> ref_free (ck_term c1)" "ck_ref_free c2 \<longleftrightarrow> ref_free (ck_term c2)"
proof -
  have m: "moves (tnodes (ck_term c1)) st st1" "moves (tnodes (ck_term c2)) st1 st2"
    using assms by (simp_all add: judged_def)
  show "moves (tnodes (ck_term c1) + tnodes (ck_term c2)) st st2" by (rule moves_trans [OF m])
  show "typed C defs (D - d) ctx1 (ck_term c1) (ck_sort c1)" if "ck_deepest st2 \<le> D"
    by (rule judged_below [OF assms(1) m(2) that])
  show "typed C defs (D - d) ctx2 (ck_term c2) (ck_sort c2)" if "ck_deepest st2 \<le> D"
    by (rule judged_below [OF assms(2) moves_refl that])
  show "ck_ref_free c1 \<longleftrightarrow> ref_free (ck_term c1)" "ck_ref_free c2 \<longleftrightarrow> ref_free (ck_term c2)"
    using assms by (simp_all add: judged_def)
qed

lemma judged_dom_pair:
  assumes "judged_dom C defs D ctx1 (Suc d) st c1 st1" "judged C defs D ctx2 (Suc d) st1 c2 st2"
  shows "moves (dnodes (cd_dom c1) + tnodes (ck_term c2)) st st2"
    "ck_deepest st2 \<le> D \<Longrightarrow> typed_dom C defs (D - d) ctx1 (cd_dom c1) (cd_elem_sort c1)"
    "ck_deepest st2 \<le> D \<Longrightarrow> typed C defs (D - d) ctx2 (ck_term c2) (ck_sort c2)"
    "cd_ref_free c1 \<longleftrightarrow> dom_ref_free (cd_dom c1)" "ck_ref_free c2 \<longleftrightarrow> ref_free (ck_term c2)"
proof -
  have m: "moves (dnodes (cd_dom c1)) st st1" "moves (tnodes (ck_term c2)) st1 st2"
    using assms by (simp_all add: judged_dom_def judged_def)
  show "moves (dnodes (cd_dom c1) + tnodes (ck_term c2)) st st2" by (rule moves_trans [OF m])
  show "typed_dom C defs (D - d) ctx1 (cd_dom c1) (cd_elem_sort c1)" if "ck_deepest st2 \<le> D"
    by (rule judged_dom_below [OF assms(1) m(2) that])
  show "typed C defs (D - d) ctx2 (ck_term c2) (ck_sort c2)" if "ck_deepest st2 \<le> D"
    by (rule judged_below [OF assms(2) moves_refl that])
  show "cd_ref_free c1 \<longleftrightarrow> dom_ref_free (cd_dom c1)" "ck_ref_free c2 \<longleftrightarrow> ref_free (ck_term c2)"
    using assms by (simp_all add: judged_dom_def judged_def)
qed

lemma bool2_expanded:
  assumes "judges C defs D chk ctx {a, b}"
    and "bool2 chk ctx a b (Suc d) mk st = ok (c, st')" "mk \<in> {And, Or, Implies, Iff}"
  shows "expanded C defs D ctx d st c st'"
proof -
  obtain ca st1 cb where c: "chk ctx a (Suc d) st = ok (ca, st1)" "ck_sort ca = SBool"
    "chk ctx b (Suc d) st1 = ok (cb, st')" "ck_sort cb = SBool"
    "c = \<lparr>ck_term = mk (ck_term ca) (ck_term cb), ck_sort = SBool, ck_ref_free = ck_ref_free ca \<and> ck_ref_free cb\<rparr>"
    using assms(2) by (auto simp: bool2_def and_then_ok_iff)
  note p = judged_pair [OF judgesD [OF assms(1) c(1)] judgesD [OF assms(1) c(3)], simplified]
  show ?thesis
    by (rule expandedI [OF p(1)]) (use p c assms(3) in \<open>auto intro: typed_intros\<close>)
qed

lemma quantified_expanded:
  assumes "\<And>ctx. judges C defs D chk ctx {b}"
    and "judges_dom C defs D chkd ctx {dm}"
    and "quantified chk chkd ctx v dm b (Suc d) st = ok ((cd, cb), st')" "mk \<in> {Forall, Exists}"
  shows "expanded C defs D ctx d st
    \<lparr>ck_term = mk v (cd_dom cd) (ck_term cb), ck_sort = SBool, ck_ref_free = cd_ref_free cd \<and> ck_ref_free cb\<rparr> st'"
proof -
  obtain st1 where c: "chkd ctx dm (Suc d) st = ok (cd, st1)"
    "chk (ctx(v \<mapsto> cd_elem_sort cd)) b (Suc d) st1 = ok (cb, st')" "ck_sort cb = SBool"
    using assms(3) by (auto simp: quantified_def and_then_ok_iff)
  have "judged C defs D (ctx(v \<mapsto> cd_elem_sort cd)) (Suc d) st1 cb st'"
    by (rule judgesD [OF assms(1) c(2)]) simp
  note p = judged_dom_pair [OF judges_domD [OF assms(2) c(1) singletonI] this]
  show ?thesis
    by (rule expandedI [OF p(1)]) (use p c(3) assms(4) in \<open>auto intro: typed_intros\<close>)
qed

lemma extremum_expanded:
  assumes "judges_dom C defs D chkd ctx {dm}"
    and "extremum chkd ctx dm (Suc d) mk st = ok (c, st')" "mk \<in> {MaxT1, MinT1}"
  shows "expanded C defs D ctx d st c st'"
proof -
  obtain cd where c: "chkd ctx dm (Suc d) st = ok (cd, st')" "cd_elem_sort cd = SAddr"
    "c = \<lparr>ck_term = mk (cd_dom cd), ck_sort = SOptAddr, ck_ref_free = cd_ref_free cd\<rparr>"
    using assms(2) by (auto simp: extremum_def and_then_ok_iff)
  note j = judges_domD [OF assms(1) c(1) singletonI]
  show ?thesis
    by (rule expandedI [of "dnodes (cd_dom cd)"])
      (use j judged_dom_below [OF j moves_refl] c assms(3) in \<open>auto simp: judged_dom_def intro: typed_intros\<close>)
qed

lemma ref_expanded:
  assumes "judges C defs D chk ctx (set args)"
    and "reach_to (reference_reach d (length args) (tt_reach tt)) st = ok (u, st1)"
    and "reference_args chk ctx a tt args d st1 = ok (cs, st')"
    and "defs a = Some tt" "def_typed C defs tt"
  shows "expanded C defs D ctx d st \<lparr>ck_term = Ref a cs, ck_sort = tt_result tt, ck_ref_free = False\<rparr> st'"
proof -
  have r: "reference_reach d (length args) (tt_reach tt) = d + 2 + length args + tt_reach tt"
    "st1 = st\<lparr>ck_deepest := max (ck_deepest st) (d + 2 + length args + tt_reach tt)\<rparr>"
    "d + 2 + length args + tt_reach tt \<le> MAX_DEPTH"
    using assms(2) reference_reach_eq by (auto simp: reach_to_ok_iff)
  have l: "reference_args_loop chk ctx a (tt_params tt) (length args) d 0 args st1 = ok (cs, st')"
    "length (tt_params tt) \<le> length args"
    using assms(3) by (auto simp: reference_args_def and_then_ok_iff Let_def split: if_splits)
  have t: "moves (sum_list (map tnodes cs)) st1 st' \<and> 0 + length args \<le> length (tt_params tt) \<and>
    (ck_deepest st' \<le> D \<longrightarrow>
      list_all2 (\<lambda>t s. typed C defs (D - d) ctx t s) cs (map snd (take (length args) (drop 0 (tt_params tt)))))"
    by (rule reference_args_loop_typed [OF assms(1) l(1)]) simp
  show ?thesis
  proof (rule expandedI)
    show "moves (sum_list (map tnodes cs)) st st'" using t r(2,3) by (auto simp: moves_def)
    assume D: "ck_deepest st' \<le> D"
    then have "d + 2 + length args + tt_reach tt \<le> D" using t r(2) by (auto simp: moves_def)
    then have "typed C defs (D - d) (collect_map (tt_params tt)) (tt_evaluable tt) (tt_result tt)"
      using assms(5) unfolding def_typed_def by (elim typed_mono) simp
    then show "typed C defs (Suc (D - d)) ctx (ck_term \<lparr>ck_term = Ref a cs, ck_sort = tt_result tt, ck_ref_free = False\<rparr>)
        (ck_sort \<lparr>ck_term = Ref a cs, ck_sort = tt_result tt, ck_ref_free = False\<rparr>)"
      using t l(2) D assms(4) by (auto intro: typed_intros)
  qed simp_all
qed

lemma narrow_ok_iff:
  "(case s of SOptAddr \<Rightarrow> ok SAddr | SOptNat \<Rightarrow> ok SNat | other \<Rightarrow> err (SortMismatch SOptAddr other)) = ok w \<longleftrightarrow>
     s = SOptAddr \<and> w = SAddr \<or> s = SOptNat \<and> w = SNat"
  by (cases s) auto

lemma atom_expanded:
  assumes "judges C defs D chk ctx (set (atom_kids a))"
    and "check_atom C chk ctx a d st = ok (c, st')"
  shows "expanded C defs D ctx d st c st'"
proof -
  from check_atom_chain [OF assms(2)] obtain a' cs where
    ch: "chain chk ctx (Suc d) st (atom_kids a) cs st'"
    and c: "ck_term c = Atom a'" "ck_sort c = atom_result a'" "atom_kids a' = map ck_term cs"
    "atom_operands a' = map ck_sort cs" "atom_ok C ctx a'" "ck_ref_free c \<longleftrightarrow> (\<forall>k \<in> set cs. ck_ref_free k)"
    by blast
  note k = chain_judged [OF assms(1) ch]
  have "typed C defs (Suc (D - d)) ctx (Atom a') (atom_result a')" if "ck_deepest st' \<le> D"
    using k that by (intro T_Atom) (simp_all only: c)
  then show ?thesis using k c by (intro expandedI [OF conjunct1 [OF k]]) auto
qed

lemma prim_expanded:
  assumes "judges C defs D chk ctx (set (prim_kids p))"
    and "check_prim C chk ctx p d st = ok (c, st')"
  shows "expanded C defs D ctx d st c st'"
proof -
  from check_prim_chain [OF assms(2)] obtain p' cs where
    ch: "chain chk ctx (Suc d) st (prim_kids p) cs st'"
    and c: "ck_term c = Prim p'" "ck_sort c = prim_result p'" "prim_kids p' = map ck_term cs"
    "ck_ref_free c \<longleftrightarrow> (\<forall>k \<in> set cs. ck_ref_free k)" "prim_takes C p' (map ck_sort cs)"
    by blast
  note k = chain_judged [OF assms(1) ch]
  have "typed C defs (Suc (D - d)) ctx (Prim p') (prim_result p')" if "ck_deepest st' \<le> D"
    using k that c(3,5) by (auto simp: prim_takes_def intro: T_Prim T_Def)
  then show ?thesis using k c by (intro expandedI [OF conjunct1 [OF k]]) auto
qed

text \<open>One operand, one domain, a domain and a body, two terms, three terms.\<close>

lemma not_expanded:
  assumes "judged C defs D ctx (Suc d) st ca st'" "ck_sort ca = SBool"
  shows "expanded C defs D ctx d st
    \<lparr>ck_term = Not_t (ck_term ca), ck_sort = SBool, ck_ref_free = ck_ref_free ca\<rparr> st'"
  by (rule expandedI [of "tnodes (ck_term ca)"])
    (use assms judged_below [OF assms(1) moves_refl] in \<open>auto simp: judged_def intro: typed_intros\<close>)

lemma dom_former_expanded:
  assumes "judged_dom C defs D ctx (Suc d) st cd st'"
    and "mk = Count \<and> s = SNat \<or> mk = Reflect \<and> s = SAddrSet \<and> cd_elem_sort cd = SAddr"
  shows "expanded C defs D ctx d st \<lparr>ck_term = mk (cd_dom cd), ck_sort = s, ck_ref_free = cd_ref_free cd\<rparr> st'"
  by (rule expandedI [of "dnodes (cd_dom cd)"])
    (use assms judged_dom_below [OF assms(1) moves_refl] in \<open>auto simp: judged_dom_def intro: typed_intros\<close>)

lemma union_expanded:
  assumes "judged_dom C defs D ctx (Suc d) st cd st1"
    and "judged C defs D (ctx(v \<mapsto> cd_elem_sort cd)) (Suc d) st1 cb st'" "ck_sort cb = SAddrSet"
  shows "expanded C defs D ctx d st
    \<lparr>ck_term = BigUnion (cd_dom cd) v (ck_term cb), ck_sort = SAddrSet, ck_ref_free = cd_ref_free cd \<and> ck_ref_free cb\<rparr> st'"
  by (rule expandedI [OF judged_dom_pair(1) [OF assms(1,2)]])
    (use judged_dom_pair [OF assms(1,2)] assms(3) in \<open>auto intro: typed_intros\<close>)

lemma let_expanded:
  assumes "judged C defs D ctx (Suc d) st cx st1"
    and "judged C defs D (ctx(v \<mapsto> ck_sort cx)) (Suc d) st1 cb st'"
  shows "expanded C defs D ctx d st
    \<lparr>ck_term = Let_t v (ck_term cx) (ck_term cb), ck_sort = ck_sort cb, ck_ref_free = ck_ref_free cx \<and> ck_ref_free cb\<rparr> st'"
  by (rule expandedI [OF judged_pair(1) [OF assms]])
    (use judged_pair [OF assms] in \<open>auto intro: typed_intros\<close>)

lemma ifsome_expanded:
  assumes x: "judged C defs D ctx (Suc d) st cx st1"
    and w: "ck_sort cx = SOptAddr \<and> w = SAddr \<or> ck_sort cx = SOptNat \<and> w = SNat"
    and ab: "judged C defs D (ctx(v \<mapsto> w)) (Suc d) st1 ca st2" "judged C defs D ctx (Suc d) st2 cb st'"
      "ck_sort ca = ck_sort cb"
  shows "expanded C defs D ctx d st
    \<lparr>ck_term = IfSome (ck_term cx) v (ck_term ca) (ck_term cb), ck_sort = ck_sort ca,
     ck_ref_free = ck_ref_free cx \<and> ck_ref_free ca \<and> ck_ref_free cb\<rparr> st'"
proof -
  note p = judged_pair [OF ab(1,2)]
  have m: "moves (tnodes (ck_term cx)) st st1" using x by (simp add: judged_def)
  show ?thesis
    by (rule expandedI [OF moves_trans [OF m p(1)]])
      (use p x judged_below [OF x p(1)] w ab(3) in \<open>auto simp: judged_def intro: typed_intros\<close>)
qed

text \<open>A quantifier is expanded over the classes when its domain is \<^verbatim>\<open>Reg\<close> and rebuilt otherwise.\<close>

lemma quantifier_expanded:
  assumes chk: "\<And>ctx. judges C defs D chk ctx {u. size u \<le> size b}"
    and chkd: "judges_dom C defs D chkd ctx {dm}"
    and run: "(if dm = Reg then expand_reg C chk ctx v b d join st
         else and_then (quantified chk chkd ctx v dm b (Suc d) st) (\<lambda>((cd, cb), st1).
           ok (\<lparr>ck_term = mk v (cd_dom cd) (ck_term cb), ck_sort = SBool,
                ck_ref_free = cd_ref_free cd \<and> ck_ref_free cb\<rparr>, st1))) = ok (c, st')"
    and "ck_nodes st \<le> MAX_TERM_NODES" "join = And \<or> join = Or" "mk \<in> {Forall, Exists}"
  shows "expanded C defs D ctx d st c st'"
proof (cases "dm = Reg")
  case True
  then show ?thesis using expand_reg_expanded [OF chk assms(5) _ assms(4)] run by simp
next
  case False
  then obtain cd cb where c: "quantified chk chkd ctx v dm b (Suc d) st = ok ((cd, cb), st')"
    "c = \<lparr>ck_term = mk v (cd_dom cd) (ck_term cb), ck_sort = SBool,
      ck_ref_free = cd_ref_free cd \<and> ck_ref_free cb\<rparr>"
    using run by (auto simp: and_then_ok_iff)
  show ?thesis unfolding c(2)
    by (rule quantified_expanded [OF judges_subset [OF chk] chkd c(1) assms(6)]) simp
qed

lemma check_term_step:
  assumes IH: "\<And>ctx. judges C defs D (check_term ck) ctx {u. size u < size t}"
    and IHd: "\<And>ctx. judges_dom C defs D (check_dom ck) ctx {u. size u < size t}"
    and C: "ckr_catalog ck = C" and R: "answers_from (ckr_resolve ck) defs" "\<And>a tt. defs a = Some tt \<Longrightarrow> def_typed C defs tt"
    and run: "check_term ck ctx t d st = ok (c, st')"
  shows "judged C defs D ctx d st c st'"
proof -
  obtain st1 where st1: "enter (weight t) d st = ok ((), st1)"
    using run by (auto simp: check_term.simps [of ck ctx t] and_then_ok_iff)
  note body = run [unfolded check_term.simps [of ck ctx t] st1, simplified, unfolded Let_def C]
  have e: "d \<le> MAX_DEPTH" "ck_nodes st1 \<le> MAX_TERM_NODES"
    "ck_nodes st1 = ck_nodes st + weight t" "ck_deepest st1 = max (ck_deepest st) d"
    using st1 by (auto simp: enter_ok_iff)
  have kids: "judges C defs D (check_term ck) ctx U" if "U \<subseteq> set (term_kids t)" for U ctx
    by (rule judges_subset [OF IH]) (use that term_kids_size in auto)
  have doms: "judges_dom C defs D (check_dom ck) ctx U" if "U \<subseteq> set (term_doms t)" for U ctx
    by (rule judges_dom_subset [OF IHd]) (use that term_doms_size in auto)
  have kid: "judged C defs D ctx k s cu s'" if "check_term ck ctx u k s = ok (cu, s')" "u \<in> set (term_kids t)" for ctx u k s cu s'
    by (rule judgesD [OF kids [OF subset_refl] that])
  have dkid: "judged_dom C defs D ctx k s cu s'" if "check_dom ck ctx u k s = ok (cu, s')" "u \<in> set (term_doms t)" for ctx u k s cu s'
    by (rule judges_domD [OF doms [OF subset_refl] that])
  have le: "judges C defs D (check_term ck) ctx {v. size v \<le> size u}" if "u \<in> set (term_kids t)" for u ctx
    by (rule judges_subset [OF IH]) (use term_kids_size [OF that] in auto)
  have "expanded C defs D ctx d st1 c st'"
  proof (cases t)
    case (Var v)
    then show ?thesis using body
      by (auto simp: leaf_def expanded_def split: option.splits intro: typed_intros)
  next
    case (Lit l)
    then show ?thesis using body T_Lit [of C defs "D - d" ctx l] by (cases l) (auto simp: leaf_def expanded_def)
  next
    case (Atom a)
    then show ?thesis using body kids by (intro atom_expanded [of C defs D "check_term ck" ctx a]) simp_all
  next
    case (Prim p)
    then show ?thesis using body kids by (intro prim_expanded [of C defs D "check_term ck" ctx p]) simp_all
  next
    case (And a b)
    then show ?thesis using body kids by (intro bool2_expanded [of C defs D "check_term ck" ctx a b d And]) simp_all
  next
    case (Or a b)
    then show ?thesis using body kids by (intro bool2_expanded [of C defs D "check_term ck" ctx a b d Or]) simp_all
  next
    case (Implies a b)
    then show ?thesis using body kids by (intro bool2_expanded [of C defs D "check_term ck" ctx a b d Implies]) simp_all
  next
    case (Iff a b)
    then show ?thesis using body kids by (intro bool2_expanded [of C defs D "check_term ck" ctx a b d Iff]) simp_all
  next
    case (Not_t a)
    then show ?thesis using body by (auto simp: and_then_ok_iff intro!: not_expanded kid)
  next
    case (Forall v dm b)
    then show ?thesis using body le [of b] doms e(2)
      by (intro quantifier_expanded [of C defs D "check_term ck" b "check_dom ck" ctx dm v d And st1 Forall]) simp_all
  next
    case (Exists v dm b)
    then show ?thesis using body le [of b] doms e(2)
      by (intro quantifier_expanded [of C defs D "check_term ck" b "check_dom ck" ctx dm v d Or st1 Exists]) simp_all
  next
    case (Let_t v x b)
    then show ?thesis using body by (auto simp: and_then_ok_iff intro!: let_expanded kid)
  next
    case (Count dm)
    show ?thesis
    proof (cases "dm = Reg")
      case True
      then show ?thesis using body Count T_Lit [of C defs "D - d" ctx "LNat (length (cat_classes C))"]
        by (auto simp: leaf_def expanded_def)
    next
      case False
      then show ?thesis using body Count by (auto simp: and_then_ok_iff intro!: dom_former_expanded dkid)
    qed
  next
    case (MaxT1 dm)
    then show ?thesis using body doms by (intro extremum_expanded [of C defs D "check_dom ck" ctx dm d MaxT1]) simp_all
  next
    case (MinT1 dm)
    then show ?thesis using body doms by (intro extremum_expanded [of C defs D "check_dom ck" ctx dm d MinT1]) simp_all
  next
    case (BigUnion dm v b)
    then show ?thesis using body
      by (auto simp: and_then_ok_iff intro!: union_expanded kid dkid)
  next
    case (Reflect dm)
    then show ?thesis using body
      by (auto simp: and_then_ok_iff intro!: dom_former_expanded dkid)
  next
    case (IfSome x v a b)
    then show ?thesis using body
      by (auto simp: and_then_ok_iff narrow_ok_iff intro!: ifsome_expanded kid)
  next
    case (Ref a args)
    then obtain tt st2 cs where c: "ckr_resolve ck a (referent_depth d) = Inr tt"
      "reach_to (reference_reach d (length args) (tt_reach tt)) st1 = ok ((), st2)"
      "reference_args (check_term ck) ctx a tt args d st2 = ok (cs, st')"
      "c = \<lparr>ck_term = Ref a cs, ck_sort = tt_result tt, ck_ref_free = False\<rparr>"
      using body by (auto simp: and_then_ok_iff split: sum.splits unresolved.splits)
    have tt: "defs a = Some tt" using R(1) c(1) by (auto simp: answers_from_def)
    show ?thesis unfolding c(4)
      by (rule ref_expanded [OF kids c(2,3) tt R(2) [OF tt]]) (simp add: Ref)
  qed
  then show ?thesis
    using e weight_pos [of t] tnodes_pos [of "ck_term c"] by (auto simp: expanded_def judged_def moves_def)
qed

lemma check_dom_step:
  assumes IH: "\<And>ctx. judges C defs D (check_term ck) ctx {u. size u < size dm}"
    and IHd: "\<And>ctx. judges_dom C defs D (check_dom ck) ctx {u. size u < size dm}"
    and C: "ckr_catalog ck = C"
    and run: "check_dom ck ctx dm d st = ok (c, st')"
  shows "judged_dom C defs D ctx d st c st'"
proof -
  obtain st1 where st1: "enter 1 d st = ok ((), st1)"
    using run by (auto simp: check_dom.simps [of ck ctx dm] and_then_ok_iff)
  note body = run [unfolded check_dom.simps [of ck ctx dm] st1, simplified, unfolded Let_def C]
  have e: "d \<le> MAX_DEPTH" "ck_nodes st1 \<le> MAX_TERM_NODES"
    "ck_nodes st1 = ck_nodes st + 1" "ck_deepest st1 = max (ck_deepest st) d"
    using st1 by (auto simp: enter_ok_iff)
  have kid: "judged C defs D ctx k s cu s'"
    if "check_term ck ctx u k s = ok (cu, s')" "u \<in> set (dom_kids dm)" for ctx u k s cu s'
    by (rule judgesD [OF IH that(1)]) (use dom_kids_size [OF that(2)] in simp)
  have dkid: "judged_dom C defs D ctx k s cu s'"
    if "check_dom ck ctx u k s = ok (cu, s')" "u \<in> set (dom_doms dm)" for ctx u k s cu s'
    by (rule judges_domD [OF IHd that(1)]) (use dom_doms_size [OF that(2)] in simp)
  have "moves (dnodes (cd_dom c) - 1) st1 st' \<and> (cd_ref_free c \<longleftrightarrow> dom_ref_free (cd_dom c)) \<and>
    (ck_deepest st' \<le> D \<longrightarrow> typed_dom C defs (Suc (D - d)) ctx (cd_dom c) (cd_elem_sort c))"
  proof (cases dm)
    case (Filter base v p)
    then obtain cb st2 cp where c: "check_dom ck ctx base (Suc d) st1 = ok (cb, st2)"
      "check_term ck (ctx(v \<mapsto> cd_elem_sort cb)) p (Suc d) st2 = ok (cp, st')" "ck_sort cp = SBool"
      "c = \<lparr>cd_dom = Filter (cd_dom cb) v (ck_term cp), cd_elem_sort = cd_elem_sort cb,
        cd_ref_free = cd_ref_free cb \<and> ck_ref_free cp\<rparr>"
      using body by (auto simp: and_then_ok_iff)
    have j: "judged_dom C defs D ctx (Suc d) st1 cb st2"
      "judged C defs D (ctx(v \<mapsto> cd_elem_sort cb)) (Suc d) st2 cp st'"
      by (rule dkid [OF c(1)], simp add: Filter) (rule kid [OF c(2)], simp add: Filter)
    note p = judged_dom_pair [OF j]
    show ?thesis using p c(3,4) by (auto simp: add.commute intro: typed_intros)
  next
    case (SetTerm t)
    then obtain ct where c: "check_term ck ctx t (Suc d) st1 = ok (ct, st')" "ck_sort ct = SAddrSet"
      "c = \<lparr>cd_dom = SetTerm (ck_term ct), cd_elem_sort = SAddr, cd_ref_free = ck_ref_free ct\<rparr>"
      using body by (auto simp: and_then_ok_iff)
    have j: "judged C defs D ctx (Suc d) st1 ct st'" by (rule kid [OF c(1)]) (simp add: SetTerm)
    show ?thesis using j judged_below [OF j moves_refl] c(2,3) by (auto simp: judged_def intro: typed_intros)
  qed (use body in \<open>auto simp: and_then_ok_iff dest!: guarded_ok intro: typed_intros\<close>)
  then show ?thesis
    using e by (auto simp: judged_dom_def moves_def)
qed

lemma check_judged:
  assumes "ckr_catalog ck = C" "answers_from (ckr_resolve ck) defs" "\<And>a tt. defs a = Some tt \<Longrightarrow> def_typed C defs tt"
  shows "judges C defs D (check_term ck) ctx UNIV" "judges_dom C defs D (check_dom ck) ctx UNIV"
proof -
  have "judges C defs D (check_term ck) ctx {u. size u < n} \<and> judges_dom C defs D (check_dom ck) ctx {u. size u < n}" for n ctx
  proof (induction n arbitrary: ctx)
    case (Suc n)
    have below: "judges C defs D (check_term ck) ctx {v. size v < m}"
      "judges_dom C defs D (check_dom ck) ctx {v. size v < m}" if "m < Suc n" for ctx m
      by (rule judges_subset [OF conjunct1 [OF Suc]], use that in auto)
        (rule judges_dom_subset [OF conjunct2 [OF Suc]], use that in auto)
    have "judged C defs D ctx d st c st'" if "size u < Suc n" "check_term ck ctx u d st = ok (c, st')" for u d st c st'
      by (rule check_term_step [OF below [OF that(1)] assms that(2)])
    moreover have "judged_dom C defs D ctx d st c st'"
      if "size u < Suc n" "check_dom ck ctx u d st = ok (c, st')" for u d st c st'
      by (rule check_dom_step [OF below [OF that(1)] assms(1) that(2)])
    ultimately show ?case by (auto simp: judges_def judges_dom_def)
  qed (simp add: judges_def judges_dom_def)
  then show "judges C defs D (check_term ck) ctx UNIV" "judges_dom C defs D (check_dom ck) ctx UNIV"
    unfolding judges_def judges_dom_def by (blast intro: lessI)+
qed

section \<open>The table of definitions\<close>

text \<open>
  The defined entries of the coordinator's memo, as they are filled: each is the outcome of
  \<open>check_signed\<close> over a resolver that answers from the entries already there, and a filled entry is
  never replaced (\<^verbatim>\<open>coordinator/memo.rs\<close>, \<^verbatim>\<open>coordinator/defs.rs\<close>).
\<close>

inductive def_table :: "type_catalog \<Rightarrow> (address \<rightharpoonup> typed_term) \<Rightarrow> bool" for C :: type_catalog where
  table_new: "def_table C (\<lambda>_. None)"
| table_fill: "def_table C defs \<Longrightarrow> answers_from R defs \<Longrightarrow> defs a = None \<Longrightarrow>
    check_signed \<lparr>ckr_catalog = C, ckr_resolve = R\<rparr> signed depth = ok tt \<Longrightarrow> def_table C (defs(a \<mapsto> tt))"

lemma check_signed_ok:
  assumes "check_signed ck signed depth = ok tt"
  obtains c st where
    "check_term ck (collect_map (st_params signed)) (st_body signed) depth
       \<lparr>ck_nodes = length (st_params signed), ck_deepest = 0\<rparr> = ok (c, st)"
    "length (st_params signed) \<le> MAX_TERM_NODES" "first_duplicate [] (st_params signed) = None"
    "tt = \<lparr>tt_signed = signed, tt_result = ck_sort c, tt_evaluable = ck_term c,
           tt_ref_free = ck_ref_free c, tt_reach = ck_deepest st - depth\<rparr>"
proof -
  obtain b n where bn: "budget_charge 0 (length (st_params signed)) = (b, n)" by fastforce
  have b using assms bn by (cases b) (auto simp: check_signed_def)
  then have n: "length (st_params signed) \<le> MAX_TERM_NODES" "n = length (st_params signed)"
    using budget_charge_within [of 0] bn by auto
  have dup: "first_duplicate [] (st_params signed) = None"
    using assms bn \<open>b\<close> by (auto simp: check_signed_def split: option.splits)
  show thesis
    using assms bn \<open>b\<close> n dup that by (auto simp: check_signed_def and_then_ok_iff)
qed

lemma check_signed_typed:
  assumes "ckr_catalog ck = C" "answers_from (ckr_resolve ck) defs" "\<And>a tt. defs a = Some tt \<Longrightarrow> def_typed C defs tt"
    and "check_signed ck signed depth = ok tt"
  shows "def_typed C defs tt" "depth + tt_reach tt \<le> MAX_DEPTH"
    "length (tt_params tt) + tnodes (tt_evaluable tt) \<le> MAX_TERM_NODES"
    "tt_ref_free tt \<longleftrightarrow> ref_free (tt_evaluable tt)" "tt_signed tt = signed"
proof -
  from assms(4) obtain c st where c: "check_term ck (collect_map (st_params signed)) (st_body signed) depth
       \<lparr>ck_nodes = length (st_params signed), ck_deepest = 0\<rparr> = ok (c, st)"
    "tt = \<lparr>tt_signed = signed, tt_result = ck_sort c, tt_evaluable = ck_term c,
           tt_ref_free = ck_ref_free c, tt_reach = ck_deepest st - depth\<rparr>"
    by (rule check_signed_ok)
  have j: "judged C defs (ck_deepest st) (collect_map (st_params signed)) depth
    \<lparr>ck_nodes = length (st_params signed), ck_deepest = 0\<rparr> c st"
  proof (rule judgesD)
    show "judges C defs (ck_deepest st) (check_term ck) (collect_map (st_params signed)) UNIV"
      by (rule check_judged(1) [OF assms(1,2)]) (rule assms(3))
  qed (use c(1) in simp_all)
  then show "def_typed C defs tt" "depth + tt_reach tt \<le> MAX_DEPTH"
    "length (tt_params tt) + tnodes (tt_evaluable tt) \<le> MAX_TERM_NODES"
    "tt_ref_free tt \<longleftrightarrow> ref_free (tt_evaluable tt)" "tt_signed tt = signed"
    using c(2) by (auto simp: def_typed_def judged_def tt_params_def moves_def)
qed

lemma def_table_typed: "def_table C defs \<Longrightarrow> defs a = Some tt \<Longrightarrow> def_typed C defs tt"
proof (induction arbitrary: a tt rule: def_table.induct)
  case (table_fill defs R b signed depth uu)
  have grow: "defs \<subseteq>\<^sub>m defs(b \<mapsto> uu)" using table_fill.hyps(3) by (auto simp: map_le_def)
  have "def_typed C defs uu"
    by (rule check_signed_typed(1) [OF _ _ _ table_fill.hyps(4)]) (use table_fill.hyps(2) table_fill.IH in simp_all)
  then have "def_typed C defs tt" using table_fill.prems table_fill.IH by (auto split: if_splits)
  then show ?case unfolding def_typed_def by (rule typed_weaken(1) [OF _ order.refl grow])
qed simp

section \<open>The shape of an evaluable term\<close>

definition list_max :: "nat list \<Rightarrow> nat" where
  "list_max ns = foldr max ns 0"

lemma list_max_le [simp]: "list_max ns \<le> m \<longleftrightarrow> (\<forall>n \<in> set ns. n \<le> m)"
  by (induction ns) (auto simp: list_max_def)

lemma list_max_cong [fundef_cong]:
  "xs = ys \<Longrightarrow> (\<And>x. x \<in> set ys \<Longrightarrow> f x = g x) \<Longrightarrow> list_max (map f xs) = list_max (map g ys)"
  by (simp cong: map_cong)

text \<open>The levels a walk of the term alone descends, and that its type positions are all cataloged keys.\<close>

function tlevels :: "pl_term \<Rightarrow> nat" and dlevels :: "pl_dom \<Rightarrow> nat" where
  "tlevels t = Suc (max (list_max (map tlevels (term_kids t))) (list_max (map dlevels (term_doms t))))"
| "dlevels d = Suc (max (list_max (map tlevels (dom_kids d))) (list_max (map dlevels (dom_doms d))))"
  by pat_completeness auto
termination
  by (relation "measure (case_sum size size)") (auto simp: termination_simp)

fun term_typerefs :: "pl_term \<Rightarrow> type_ref list" where
  "term_typerefs (Atom a) = (case atom_guard a of None \<Rightarrow> [] | Some (tr, _) \<Rightarrow> [tr])"
| "term_typerefs (Prim (MapGet _ tr)) = [tr]"
| "term_typerefs _ = []"

fun dom_typerefs :: "pl_dom \<Rightarrow> type_ref list" where
  "dom_typerefs (MembersDom tr) = [tr]"
| "dom_typerefs (ActiveSlice tr) = [tr]"
| "dom_typerefs (AuditSlice tr) = [tr]"
| "dom_typerefs _ = []"

definition cataloged :: "type_catalog \<Rightarrow> type_ref \<Rightarrow> bool" where
  "cataloged C tr \<longleftrightarrow> (\<exists>k e. tr = Concrete k \<and> catalog_get C k = Some e)"

function grounded :: "type_catalog \<Rightarrow> pl_term \<Rightarrow> bool" and dom_grounded :: "type_catalog \<Rightarrow> pl_dom \<Rightarrow> bool" where
  "grounded C t \<longleftrightarrow> (\<forall>tr \<in> set (term_typerefs t). cataloged C tr) \<and>
     (\<forall>u \<in> set (term_kids t). grounded C u) \<and> (\<forall>d \<in> set (term_doms t). dom_grounded C d)"
| "dom_grounded C d \<longleftrightarrow> d \<noteq> Reg \<and> (\<forall>tr \<in> set (dom_typerefs d). cataloged C tr) \<and>
     (\<forall>u \<in> set (dom_kids d). grounded C u) \<and> (\<forall>e \<in> set (dom_doms d). dom_grounded C e)"
  by pat_completeness auto
termination
  by (relation "measure (case_sum (size \<circ> snd) (size \<circ> snd))") (auto simp: termination_simp)

declare tlevels.simps [simp del] dlevels.simps [simp del] grounded.simps [simp del] dom_grounded.simps [simp del]

lemma guard_ok_cataloged: "guard_ok C tr g \<Longrightarrow> cataloged C tr"
  by (auto simp: guard_ok_def guarded_def cataloged_def and_then_ok_iff split: option.splits)

lemma list_all2_kids: "list_all2 (\<lambda>t s. Q t s \<and> P t) ts ss \<Longrightarrow> t \<in> set ts \<Longrightarrow> P t"
  by (auto simp: list_all2_conv_all_nth in_set_conv_nth)

lemmas shape_simps =
  tlevels.simps [of "Var v" for v] grounded.simps [of C "Var v" for C v]
  tlevels.simps [of "Lit l" for l] grounded.simps [of C "Lit l" for C l]
  tlevels.simps [of "And a b" for a b] grounded.simps [of C "And a b" for C a b]
  tlevels.simps [of "Or a b" for a b] grounded.simps [of C "Or a b" for C a b]
  tlevels.simps [of "Implies a b" for a b] grounded.simps [of C "Implies a b" for C a b]
  tlevels.simps [of "Iff a b" for a b] grounded.simps [of C "Iff a b" for C a b]
  tlevels.simps [of "Not_t a" for a] grounded.simps [of C "Not_t a" for C a]
  tlevels.simps [of "Forall v d b" for v d b] grounded.simps [of C "Forall v d b" for C v d b]
  tlevels.simps [of "Exists v d b" for v d b] grounded.simps [of C "Exists v d b" for C v d b]
  tlevels.simps [of "Let_t v a b" for v a b] grounded.simps [of C "Let_t v a b" for C v a b]
  tlevels.simps [of "IfSome x v a b" for x v a b] grounded.simps [of C "IfSome x v a b" for C x v a b]
  tlevels.simps [of "Count d" for d] grounded.simps [of C "Count d" for C d]
  tlevels.simps [of "MaxT1 d" for d] grounded.simps [of C "MaxT1 d" for C d]
  tlevels.simps [of "MinT1 d" for d] grounded.simps [of C "MinT1 d" for C d]
  tlevels.simps [of "BigUnion d v b" for d v b] grounded.simps [of C "BigUnion d v b" for C d v b]
  tlevels.simps [of "Reflect d" for d] grounded.simps [of C "Reflect d" for C d]
  tlevels.simps [of "Prim (Def x)" for x] grounded.simps [of C "Prim (Def x)" for C x]
  dlevels.simps [of "MembersDom tr" for tr] dom_grounded.simps [of C "MembersDom tr" for C tr]
  dlevels.simps [of "ActiveSlice tr" for tr] dom_grounded.simps [of C "ActiveSlice tr" for C tr]
  dlevels.simps [of "AuditSlice tr" for tr] dom_grounded.simps [of C "AuditSlice tr" for C tr]
  dlevels.simps [of "LinkDom"] dom_grounded.simps [of C "LinkDom" for C ]
  dlevels.simps [of "Filter d v p" for d v p] dom_grounded.simps [of C "Filter d v p" for C d v p]
  dlevels.simps [of "SetTerm t" for t] dom_grounded.simps [of C "SetTerm t" for C t]

lemma typed_shape:
  "typed C defs n ctx t s \<Longrightarrow> tlevels t \<le> n \<and> grounded C t"
  "typed_dom C defs n ctx d s \<Longrightarrow> dlevels d \<le> n \<and> dom_grounded C d"
proof (induction rule: typed_typed_dom.inducts)
  case (T_Atom ctx a n)
  have "tlevels u \<le> n \<and> grounded C u" if "u \<in> set (atom_kids a)" for u
    using list_all2_kids [OF T_Atom(2) that] .
  then show ?case using T_Atom(1)
    by (cases "atom_guard a")
      (auto simp: tlevels.simps [of "Atom a"] grounded.simps [of C "Atom a"] atom_ok_def
        intro: guard_ok_cataloged)
next
  case (T_Prim p n ctx)
  have "tlevels u \<le> n \<and> grounded C u" if "u \<in> set (prim_kids p)" for u
    using list_all2_kids [OF T_Prim(2) that] .
  moreover have "\<forall>tr \<in> set (term_typerefs (Prim p)). cataloged C tr"
    using T_Prim(1) by (cases p) (auto intro: guard_ok_cataloged)
  ultimately show ?case by (simp add: tlevels.simps [of "Prim p"] grounded.simps [of C "Prim p"])
next
  case (T_Ref a tt n ctx args)
  have "tlevels u \<le> n \<and> grounded C u" if "u \<in> set args" for u
    using list_all2_kids [OF T_Ref(2) that] .
  then show ?case
    by (auto simp: tlevels.simps [of "Ref a args"] grounded.simps [of C "Ref a args"])
qed (simp_all add: shape_simps guard_ok_cataloged)

section \<open>The checker always answers\<close>

text \<open>\<open>answers f x\<close>: the call of \<open>f\<close> at \<open>x\<close> never panics.\<close>

definition answers :: "('a \<Rightarrow> 's \<Rightarrow> 'b exec) \<Rightarrow> 'a \<Rightarrow> bool" where
  "answers f x \<longleftrightarrow> (\<forall>s. f x s \<noteq> panic)"

lemma answersD [simp]: "answers f x \<Longrightarrow> (f x s = panic) = False"
  by (simp add: answers_def)

lemma rw1_answers [simp]: "answers f x \<Longrightarrow> (rw1 f K x s = panic) = False"
  by (cases "f x s") (auto simp: rw1_def answers_def split: bind_splits)

lemma rw2_answers [simp]: "answers f x \<Longrightarrow> answers g y \<Longrightarrow> (rw2 f g H x y s = panic) = False"
  by (cases "f x s") (auto simp: rw2_def answers_def split: bind_splits)

lemma rw_list_answers:
  "(\<And>u. u \<in> set us \<Longrightarrow> answers f u) \<Longrightarrow> answers (rw_list f) us"
proof (induction us)
  case (Cons u us)
  have "answers f u" "answers (rw_list f) us" using Cons by auto
  then show ?case by (auto simp: answers_def split: bind_splits)
qed (simp add: answers_def)

lemma rewrite_atom_answers: "(\<And>u. u \<in> set (atom_kids a) \<Longrightarrow> answers ft u) \<Longrightarrow> answers (rewrite_atom ft tr vu) a"
  unfolding answers_def [of "rewrite_atom ft tr vu"] by (cases a) (simp_all del: not_None_eq)

lemma rewrite_prim_answers: "(\<And>u. u \<in> set (prim_kids p) \<Longrightarrow> answers ft u) \<Longrightarrow> answers (rewrite_prim ft tr) p"
  unfolding answers_def [of "rewrite_prim ft tr"] by (cases p) (simp_all del: not_None_eq)

lemma rewrite_term_answers:
  assumes "\<And>u. u \<in> set (term_kids t) \<Longrightarrow> answers ft u" "\<And>d. d \<in> set (term_doms t) \<Longrightarrow> answers fd d"
  shows "answers (rewrite_term ft fd tr vu) t"
proof (cases t)
  case (IfSome x v a b)
  then have "answers ft x" "answers ft a" "answers ft b" using assms(1) by simp_all
  then show ?thesis unfolding IfSome answers_def [of "rewrite_term ft fd tr vu"]
    by (auto simp del: not_None_eq split: bind_splits)
next
  case (Atom a)
  then have "answers (rewrite_atom ft tr vu) a" using assms(1) by (intro rewrite_atom_answers) simp
  then show ?thesis unfolding Atom answers_def [of "rewrite_term ft fd tr vu"] by (simp del: not_None_eq)
next
  case (Prim p)
  then have "answers (rewrite_prim ft tr) p" using assms(1) by (intro rewrite_prim_answers) simp
  then show ?thesis unfolding Prim answers_def [of "rewrite_term ft fd tr vu"] by (simp del: not_None_eq)
next
  case (Ref a ts)
  then have "answers (rw_list ft) ts" using assms(1) by (intro rw_list_answers) simp
  then show ?thesis unfolding Ref answers_def [of "rewrite_term ft fd tr vu"] by (simp del: not_None_eq)
qed (use assms in \<open>simp_all add: answers_def [of "rewrite_term ft fd tr vu"] del: not_None_eq\<close>)

lemma rewrite_dom_answers:
  assumes "\<And>u. u \<in> set (dom_kids d) \<Longrightarrow> answers ft u" "\<And>e. e \<in> set (dom_doms d) \<Longrightarrow> answers fd e"
  shows "answers (rewrite_dom ft fd tr) d"
  unfolding answers_def [of "rewrite_dom ft fd tr"] using assms by (cases d) (simp_all del: not_None_eq)

lemma subst_returns: "subst_term cv k t n \<noteq> panic" "subst_dom cv k d n \<noteq> panic"
proof (induction cv k t n and cv k d n rule: subst_term_subst_dom.induct)
  case (1 cv k t n)
  obtain within m where b: "budget_charge n (weight t) = (within, m)" by fastforce
  show ?case
  proof (cases "within \<and> \<not> shadows cv t")
    case True
    then have "answers (rewrite_term (subst_term cv k) (subst_dom cv k) (subst_typeref cv k) (\<lambda>v. v)) t"
      using 1 [OF b [symmetric]] by (intro rewrite_term_answers) (simp_all add: answers_def)
    then show ?thesis using True b by (simp add: subst_term.simps [of cv k t] del: not_None_eq)
  next
    case False
    then show ?thesis using b by (auto simp: subst_term.simps [of cv k t])
  qed
next
  case (2 cv k d n)
  then have "answers (rewrite_dom (subst_term cv k) (subst_dom cv k) (subst_typeref cv k)) d"
    by (intro rewrite_dom_answers) (simp_all add: answers_def)
  then show ?case by (simp add: subst_dom.simps [of cv k d] del: not_None_eq)
qed

lemma check_leaves_answer [simp]:
  "(guarded C tr g = panic) = False" "(want s s' = panic) = False" "(tup_var ctx v = panic) = False"
  "(reach_to l st = panic) = False" "(enter w d st = panic) = False" "(leaf t s st = panic) = False"
  by (auto simp: guarded_def want_def tup_var_def reach_to_def enter_def leaf_def and_then_panic_iff Let_def
      split: type_ref.split option.split guard.split prod.split)

lemma sub_check_answers [simp]: "sub_check chk ctx u s d st = panic \<longleftrightarrow> chk ctx u d st = panic"
  by (auto simp: sub_check_def and_then_panic_iff)

lemma check_atom_answers:
  "(\<And>u d st. u \<in> set (atom_kids a) \<Longrightarrow> chk ctx u d st \<noteq> panic) \<Longrightarrow> check_atom C chk ctx a d st \<noteq> panic"
  by (cases a) (simp_all add: check_atom_def atom0_def atom1_def tup_atom_def coverage_atom_def and_then_panic_iff
      Let_def split_def del: not_None_eq)

lemma check_prim_answers:
  "(\<And>u d st. u \<in> set (prim_kids p) \<Longrightarrow> chk ctx u d st \<noteq> panic) \<Longrightarrow> check_prim C chk ctx p d st \<noteq> panic"
  by (cases p) (simp_all add: check_prim_def prim1_def prim2_def and_then_panic_iff Let_def split_def
      del: not_None_eq)

lemma reference_args_answers:
  assumes "\<And>u d st. u \<in> set args \<Longrightarrow> chk ctx u d st \<noteq> panic"
  shows "reference_args chk ctx a tt args d st \<noteq> panic"
proof -
  have "reference_args_loop chk ctx a ps f d i us st \<noteq> panic"
    if "\<And>u d st. u \<in> set us \<Longrightarrow> chk ctx u d st \<noteq> panic" for ps f i us st
    using that by (induction us arbitrary: i st) (auto simp: and_then_panic_iff simp del: not_None_eq)
  then show ?thesis using assms by (auto simp: reference_args_def and_then_panic_iff Let_def simp del: not_None_eq)
qed

lemma expand_reg_answers:
  assumes chk: "\<And>u d st. size u \<le> size body \<Longrightarrow> chk ctx u d st \<noteq> panic" and "cat_classes C \<noteq> []"
  shows "expand_reg C chk ctx cv body d join st \<noteq> panic"
proof -
  have loop: "expand_reg_loop chk ctx cv body i join ks acc st \<noteq> panic" if "acc \<noteq> None \<or> ks \<noteq> []" for i ks acc st
    using that
  proof (induction ks arbitrary: acc st)
    case (Cons k ks)
    obtain inst n where inst: "subst_term cv k body (ck_nodes st) = ret (inst, n)"
      using subst_returns(1) [of cv k body "ck_nodes st"] by fastforce
    have "sub_check chk ctx inst SBool i (st\<lparr>ck_nodes := n\<rparr>) \<noteq> panic"
      using chk [OF subst_size(1) [OF inst]] by simp
    then show ?case using Cons.IH inst by (auto simp del: not_None_eq sub_check_answers split: option.splits sum.splits)
  qed auto
  then show ?thesis using assms(2) by (simp add: expand_reg_def Let_def del: not_None_eq)
qed

lemma narrow_answers [simp]:
  "((case s of SOptAddr \<Rightarrow> ok SAddr | SOptNat \<Rightarrow> ok SNat | other \<Rightarrow> err (SortMismatch SOptAddr other)) = panic) = False"
  by (cases s) auto

lemma check_term_answers_step:
  assumes t: "\<And>u ctx d st. size u < size t \<Longrightarrow> check_term ck ctx u d st \<noteq> panic"
    and dm: "\<And>u ctx d st. size u < size t \<Longrightarrow> check_dom ck ctx u d st \<noteq> panic"
    and C: "cat_classes (ckr_catalog ck) \<noteq> []"
  shows "check_term ck ctx t d st \<noteq> panic"
proof (cases t)
  case (Atom a)
  have "check_atom (ckr_catalog ck) (check_term ck) ctx a d st1 \<noteq> panic" for st1
    by (rule check_atom_answers, rule t, drule atom_kids_size) (simp add: Atom)
  then show ?thesis unfolding check_term.simps [of ck ctx t]
    by (simp add: and_then_panic_iff Atom split_def del: not_None_eq)
next
  case (Prim p)
  have "check_prim (ckr_catalog ck) (check_term ck) ctx p d st1 \<noteq> panic" for st1
    by (rule check_prim_answers, rule t, drule prim_kids_size) (simp add: Prim)
  then show ?thesis unfolding check_term.simps [of ck ctx t]
    by (simp add: and_then_panic_iff Prim split_def del: not_None_eq)
next
  case (Ref a args)
  have "reference_args (check_term ck) ctx a tt args d st1 \<noteq> panic" for tt st1
    by (rule reference_args_answers, rule t) (use Ref term_kids_size [of _ t] in simp)
  then show ?thesis unfolding check_term.simps [of ck ctx t]
    by (auto simp: and_then_panic_iff Ref simp del: not_None_eq
        split: sum.split unresolved.split)
next
  case (Forall v dom b)
  have "expand_reg (ckr_catalog ck) (check_term ck) ctx v b d And st1 \<noteq> panic" for st1
    by (rule expand_reg_answers [OF _ C], rule t) (simp add: Forall)
  then show ?thesis unfolding check_term.simps [of ck ctx t] using t dm Forall
    by (simp add: quantified_def and_then_panic_iff split_def del: not_None_eq)
next
  case (Exists v dom b)
  have "expand_reg (ckr_catalog ck) (check_term ck) ctx v b d Or st1 \<noteq> panic" for st1
    by (rule expand_reg_answers [OF _ C], rule t) (simp add: Exists)
  then show ?thesis unfolding check_term.simps [of ck ctx t] using t dm Exists
    by (simp add: quantified_def and_then_panic_iff split_def del: not_None_eq)
qed (unfold check_term.simps [of ck ctx t], use t dm in \<open>auto simp: and_then_panic_iff Let_def bool2_def extremum_def
    simp del: not_None_eq split: option.split\<close>)

lemma check_answers:
  assumes C: "cat_classes (ckr_catalog ck) \<noteq> []"
  shows "check_term ck ctx t d st \<noteq> panic" "check_dom ck ctx dm d st \<noteq> panic"
proof -
  have "(\<forall>t ctx d st. size t < n \<longrightarrow> check_term ck ctx t d st \<noteq> panic) \<and>
    (\<forall>dm ctx d st. size dm < n \<longrightarrow> check_dom ck ctx dm d st \<noteq> panic)" for n
  proof (induction n)
    case (Suc n)
    have t: "check_term ck ctx t d st \<noteq> panic" if "size t < n" for t ctx d st using Suc that by blast
    have dm: "check_dom ck ctx dm d st \<noteq> panic" if "size dm < n" for dm ctx d st using Suc that by blast
    have "check_term ck ctx t d st \<noteq> panic" if "size t < Suc n" for t ctx d st
      by (rule check_term_answers_step [OF t dm C]) (use that in simp_all)
    moreover have "check_dom ck ctx dm d st \<noteq> panic" if "size dm < Suc n" for dm ctx d st
      unfolding check_dom.simps [of ck ctx dm] using that t dm
      by (cases dm) (auto simp: and_then_panic_iff Let_def simp del: not_None_eq)
    ultimately show ?case by blast
  qed simp
  then show "check_term ck ctx t d st \<noteq> panic" "check_dom ck ctx dm d st \<noteq> panic" by blast+
qed

lemma first_duplicate_None_iff:
  "first_duplicate seen ps = None \<longleftrightarrow> distinct (map fst ps) \<and> set seen \<inter> fst ` set ps = {}"
  by (induction seen ps rule: first_duplicate.induct) auto

section \<open>Properties\<close>

text \<open>The catalog a coordinator holds, projected at start-up from the format's registry.\<close>

definition startup_catalog :: "type_catalog exec" where
  "startup_catalog = do { r \<leftarrow> registry_build; catalog_project r }"

lemma startup_catalog_eq [simp]: "startup_catalog = ret format_catalog"
  by (simp add: startup_catalog_def registry_build_eq catalog_project_eq)

text \<open>
  C26: the checker always answers, and what it admits is bounded. Over the start-up catalog and a
  resolver that answers from definitions checked before, \<open>check_signed\<close> never panics; a term it
  admits reaches no level past \<^verbatim>\<open>MAX_DEPTH\<close> counted from where it was checked, its own walk and
  those of its referents included; parameters and evaluable nodes together stay within
  \<^verbatim>\<open>MAX_TERM_NODES\<close>, whatever the \<^verbatim>\<open>Reg\<close> quantifiers expanded to; no \<^verbatim>\<open>Reg\<close> domain and no class
  variable survives; the recorded reference flag is exact; and no parameter is named twice.
\<close>

theorem check_signed_bounded:
  assumes "startup_catalog = ret C" "ckr_catalog ck = C" "def_table C defs" "answers_from (ckr_resolve ck) defs"
  shows "check_signed ck signed depth \<noteq> panic \<and>
    (\<forall>tt. check_signed ck signed depth = ok tt \<longrightarrow>
       depth + tt_reach tt \<le> MAX_DEPTH \<and> tlevels (tt_evaluable tt) \<le> Suc (tt_reach tt) \<and>
       length (tt_params tt) + tnodes (tt_evaluable tt) \<le> MAX_TERM_NODES \<and>
       grounded C (tt_evaluable tt) \<and> (tt_ref_free tt \<longleftrightarrow> ref_free (tt_evaluable tt)) \<and>
       distinct (map fst (tt_params tt)))"
proof -
  have "cat_classes (ckr_catalog ck) \<noteq> []" using assms(1,2) by (auto simp: format_catalog_def)
  note total = check_answers(1) [OF this]
  have "check_signed ck signed depth \<noteq> panic"
    using total by (auto simp: check_signed_def and_then_panic_iff simp del: not_None_eq split: prod.split option.split)
  moreover have "depth + tt_reach tt \<le> MAX_DEPTH \<and> tlevels (tt_evaluable tt) \<le> Suc (tt_reach tt) \<and>
       length (tt_params tt) + tnodes (tt_evaluable tt) \<le> MAX_TERM_NODES \<and>
       grounded C (tt_evaluable tt) \<and> (tt_ref_free tt \<longleftrightarrow> ref_free (tt_evaluable tt)) \<and>
       distinct (map fst (tt_params tt))" if run: "check_signed ck signed depth = ok tt" for tt
  proof -
    note r = check_signed_typed [OF assms(2,4) def_table_typed [OF assms(3)] run]
    have "distinct (map fst (tt_params tt))"
      by (rule check_signed_ok [OF run]) (auto simp: first_duplicate_None_iff tt_params_def)
    then show ?thesis using r typed_shape(1) [OF r(1) [unfolded def_typed_def]] by simp
  qed
  ultimately show ?thesis by blast
qed

text \<open>The equations that run the checker on a given term.\<close>

lemmas checker_eval =
  check_term.simps check_dom.simps enter_def reach_to_def budget_charge_def saturating_add_def weight_def
  MAX_TERM_NODES_def MAX_DEPTH_def quantified_def sub_check_def want_def check_prim_def prim2_def prim_rules
  leaf_def collect_map_def

definition sample_checker :: checker where
  "sample_checker = \<lparr>ckr_catalog = format_catalog, ckr_resolve = \<lambda>_ _. Inl Undefined\<rparr>"

definition sample_signed :: signed_term where
  "sample_signed = \<lparr>st_params = [(VarId 0, SAddr)],
     st_body = Exists (VarId 1) LinkDom (Prim (AddrEq (Var (VarId 0)) (Var (VarId 1))))\<rparr>"

lemma sample_checked:
  "check_signed sample_checker sample_signed 0 =
     ok \<lparr>tt_signed = sample_signed, tt_result = SBool, tt_evaluable = st_body sample_signed,
         tt_ref_free = True, tt_reach = 2\<rparr>"
  by (simp add: check_signed_def sample_signed_def sample_checker_def checker_eval)

theorem check_signed_bounded_witness:
  "\<exists>tt. check_signed sample_checker sample_signed 0 = ok tt \<and> tt_reach tt \<le> MAX_DEPTH \<and>
     grounded format_catalog (tt_evaluable tt)"
proof -
  have "answers_from (ckr_resolve sample_checker) (\<lambda>_. None)" by (simp add: answers_from_def sample_checker_def)
  moreover have "ckr_catalog sample_checker = format_catalog" by (simp add: sample_checker_def)
  ultimately show ?thesis
    using check_signed_bounded [OF startup_catalog_eq _ table_new, of sample_checker sample_signed 0] sample_checked
    by simp
qed

end
