(* ===== verification/PL_Sound.thy ===== *)
theory PL_Sound
  imports PL_Typing
begin

text \<open>
  Type soundness of the predicate language: the evaluator of \<^verbatim>\<open>crates/skep-coordination/src/eval.rs\<close>
  returns a value of the checked sort on every term \<^verbatim>\<open>check.rs\<close> admits, over every link state a
  journal of deposits reaches, within the levels the checker recorded.
\<close>

section \<open>Values of a sort\<close>

text \<open>A tuple the evaluator may read: admitted spans, and addresses where its slots denote any.\<close>

definition tuple_ok :: "tuple \<Rightarrow> bool" where
  "tuple_ok t \<longleftrightarrow> wf_address (tup_addr t) \<and> wf_endset (tup_from t) \<and> wf_endset (tup_to t) \<and>
     (\<forall>x \<in> set (addrs_of_endset (tup_from t)) \<union> set (addrs_of_endset (tup_to t)). \<exists>a. lift x = ret a)"

definition has_sort :: "pl_value \<Rightarrow> sort \<Rightarrow> bool" where
  "has_sort v s \<longleftrightarrow> value_sort v = s \<and> (\<forall>t. v = VTuple t \<longrightarrow> tuple_ok t)"

lemma has_sort_simps [simp]:
  "has_sort (VBool b) s \<longleftrightarrow> s = SBool" "has_sort (VAddr a) s \<longleftrightarrow> s = SAddr"
  "has_sort (VAddrSet as) s \<longleftrightarrow> s = SAddrSet" "has_sort (VOptAddr oa) s \<longleftrightarrow> s = SOptAddr"
  "has_sort (VAddrSeq as) s \<longleftrightarrow> s = SAddrSeq" "has_sort (VMap m) s \<longleftrightarrow> s = SMap"
  "has_sort (VNat n) s \<longleftrightarrow> s = SNat" "has_sort (VOptNat on) s \<longleftrightarrow> s = SOptNat"
  "has_sort (VTuple t) s \<longleftrightarrow> s = STup \<and> tuple_ok t"
  by (auto simp: has_sort_def)

lemma has_sort_iff:
  "has_sort v SBool \<longleftrightarrow> (\<exists>b. v = VBool b)" "has_sort v SAddr \<longleftrightarrow> (\<exists>a. v = VAddr a)"
  "has_sort v SAddrSet \<longleftrightarrow> (\<exists>as. v = VAddrSet as)" "has_sort v SOptAddr \<longleftrightarrow> (\<exists>oa. v = VOptAddr oa)"
  "has_sort v SAddrSeq \<longleftrightarrow> (\<exists>as. v = VAddrSeq as)" "has_sort v SMap \<longleftrightarrow> (\<exists>m. v = VMap m)"
  "has_sort v SNat \<longleftrightarrow> (\<exists>n. v = VNat n)" "has_sort v SOptNat \<longleftrightarrow> (\<exists>on. v = VOptNat on)"
  "has_sort v STup \<longleftrightarrow> (\<exists>t. v = VTuple t \<and> tuple_ok t)"
  by (cases v; simp)+

definition env_ok :: "ctx \<Rightarrow> env \<Rightarrow> bool" where
  "env_ok ctx env \<longleftrightarrow> (\<forall>v s. ctx v = Some s \<longrightarrow> (\<exists>x. env v = Some x \<and> has_sort x s))"

lemma env_ok_upd: "env_ok ctx env \<Longrightarrow> has_sort x s \<Longrightarrow> env_ok (ctx(v \<mapsto> s)) (env(v \<mapsto> x))"
  by (simp add: env_ok_def)

lemma env_ok_collect:
  assumes "list_all2 has_sort vs (map snd ps)"
  shows "env_ok (collect_map ps) (collect_map (zip (map fst ps) vs))"
  using assms
proof (induction ps arbitrary: vs rule: rev_induct)
  case (snoc p ps)
  then obtain us v where vs: "vs = us @ [v]" "list_all2 has_sort us (map snd ps)" "has_sort v (snd p)"
    by (auto simp: list_all2_append2 list_all2_Cons2)
  then have "length us = length ps" by (auto dest: list_all2_lengthD)
  with env_ok_upd [OF snoc.IH [OF vs(2)] vs(3), of "fst p"] vs(1) show ?case
    by (cases p) (simp add: collect_map_def fun_upd_def)
qed (simp add: env_ok_def collect_map_def)

section \<open>The look never panics\<close>

definition links_ok :: "link_state \<Rightarrow> bool" where
  "links_ok st \<longleftrightarrow> (\<exists>rs. reachable_links rs st) \<and> wf_links st \<and>
     (\<forall>p \<in> set (ls_links st).
        \<forall>x \<in> set (addrs_of_endset (link_slots (snd p) ! 0)) \<union> set (addrs_of_endset (link_slots (snd p) ! 1)).
          \<exists>a. lift x = ret a)"

lemma link_tuple_ok:
  assumes "links_ok st" "p \<in> set (ls_links st)"
  shows "tuple_ok (link_tuple p)"
proof -
  obtain rs where r: "reachable_links rs st" "wf_links st" using assms(1) by (auto simp: links_ok_def)
  have "\<forall>x \<in> set (addrs_of_endset (link_slots (snd p) ! 0)) \<union> set (addrs_of_endset (link_slots (snd p) ! 1)).
      \<exists>a. lift x = ret a"
    using assms unfolding links_ok_def by blast
  moreover obtain "lift (fst p) = ret (tup_addr (link_tuple p))"
    "wf_endset (link_slots (snd p) ! 0)" "wf_endset (link_slots (snd p) ! 1)"
    by (rule reachable_link [OF r assms(2)])
  ultimately show ?thesis by (simp add: tuple_ok_def lift_ret_iff) (simp add: link_tuple_def)
qed

lemma observe_returns:
  assumes "links_ok st" "coverage_class ty = ret c"
  shows "\<exists>us. observe st ty pat v = ret us \<and> (\<forall>u \<in> set us. tuple_ok u)"
proof -
  obtain rs where r: "reachable_links rs st" "wf_links st" using assms(1) by (auto simp: links_ok_def)
  show ?thesis
    using observe_eq [OF r assms(2)] slice_links_mem [OF r(1)] link_tuple_ok [OF assms(1)] by auto
qed

lemma home_readable_returns: "wf_address a \<Longrightarrow> \<exists>b. home_readable G a = ret b"
  by (rule document_of_cases [of a]) (auto simp: home_readable_def)

lemma admits_returns: "tuple_ok t \<Longrightarrow> \<exists>b. admits G t = ret b"
  by (simp add: admits_def tuple_ok_def home_readable_returns)

lemma g_observe_returns:
  assumes "links_ok (gl_unfiltered G)" "coverage_class ty = ret c"
  shows "\<exists>us. g_observe G ty pat s = ret us \<and> (\<forall>u \<in> set us. tuple_ok u)"
proof -
  obtain us where us: "observe (gl_unfiltered G) ty pat (slice_view s) = ret us" "\<forall>u \<in> set us. tuple_ok u"
    using observe_returns [OF assms] by blast
  then obtain ws where "exec_filter (admits G) us = ret ws" "set ws \<subseteq> set us"
    using exec_filter_returns [of us "admits G"] admits_returns by blast
  then show ?thesis using us by (auto simp: g_observe_def candidates_def)
qed

lemma g_is_k_returns:
  assumes "links_ok (gl_unfiltered G)" "coverage_class ty = ret c"
  shows "\<exists>b. g_is_k G ty x s = ret b"
proof -
  obtain us where us: "candidates G ty \<lparr>pat_from = [x], pat_to = []\<rparr> s = ret us" "\<forall>u \<in> set us. tuple_ok u"
    using observe_returns [OF assms] by (metis candidates_def)
  then show ?thesis using exec_any_returns [of us "admits G"] admits_returns by (auto simp: g_is_k_def)
qed

lemma lift_addrs_returns:
  assumes "tuple_ok t" "slot = tup_from \<or> slot = tup_to"
  shows "\<exists>as. exec_map lift (addrs_of_endset (slot t)) = ret as"
  using exec_map_returns [of "addrs_of_endset (slot t)" lift "\<lambda>_ _. True"] assms by (auto simp: tuple_ok_def)

lemma denote_slot_returns:
  assumes "\<forall>t \<in> set ts. tuple_ok t" "slot = tup_from \<or> slot = tup_to"
  shows "\<exists>as. denote_slot ts slot = ret as"
proof -
  have "\<exists>y. endset_addrs (slot t) \<bind> (\<lambda>as. exec_map lift as) = ret y \<and> True" if "t \<in> set ts" for t
    using lift_addrs_returns [OF _ assms(2)] assms(1) that by simp
  then obtain ys where "exec_map (\<lambda>t. endset_addrs (slot t) \<bind> (\<lambda>as. exec_map lift as)) ts = ret ys"
    using exec_map_returns [of ts "\<lambda>t. endset_addrs (slot t) \<bind> (\<lambda>as. exec_map lift as)" "\<lambda>_ _. True"] by blast
  then show ?thesis by (simp add: denote_slot_def)
qed

lemma denoted_returns:
  assumes "links_ok (gl_unfiltered G)" "coverage_class ty = ret c" "slot = tup_from \<or> slot = tup_to"
  shows "\<exists>as. denoted G ty pat s slot = ret as"
  using g_observe_returns [OF assms(1,2), of pat s] denote_slot_returns [OF _ assms(3)] by (auto simp: denoted_def)

lemma tuples_denoting_returns:
  assumes "links_ok (gl_unfiltered G)" "coverage_class ty = ret c"
  shows "\<exists>us. tuples_denoting G ty x s = ret us \<and> (\<forall>u \<in> set us. tuple_ok u)"
proof -
  obtain us where us: "g_observe G ty \<lparr>pat_from = [tumbler x], pat_to = []\<rparr> s = ret us" "\<forall>u \<in> set us. tuple_ok u"
    using g_observe_returns [OF assms] by blast
  then show ?thesis by (auto simp: tuples_denoting_def exec_filter_ret)
qed

text \<open>The claims of a slice are finitely many, so the walk over them ends.\<close>

lemma claim_edges_returns:
  assumes "tuple_ok t" "\<forall>x \<in> set olds. \<exists>a. lift x = ret a" "finite (dom fwd)"
  shows "\<exists>fwd'. claim_edges t olds fwd = ret fwd' \<and> finite (dom fwd')"
  using assms(2,3)
proof (induction olds arbitrary: fwd)
  case (Cons x olds)
  obtain as where "exec_map lift (addrs_of_endset (tup_to t)) = ret as"
    using lift_addrs_returns [OF assms(1), of tup_to] by blast
  moreover obtain a where "lift x = ret a" using Cons.prems(1) by auto
  moreover have "\<exists>fwd'. claim_edges t olds (fwd(a \<mapsto> fold (insort_insert_key tumbler) as (entry_or_default fwd a))) = ret fwd' \<and>
      finite (dom fwd')"
  proof (rule Cons.IH)
    show "finite (dom (fwd(a \<mapsto> fold (insort_insert_key tumbler) as (entry_or_default fwd a))))"
      using Cons.prems(2) by simp
  qed (use Cons.prems(1) in simp)
  ultimately show ?case by simp
qed simp

lemma forward_claims_returns:
  assumes "links_ok (gl_unfiltered G)" "coverage_class ty = ret c"
  shows "\<exists>fwd. forward_claims G ty = ret fwd \<and> finite (dom fwd)"
proof -
  obtain us where us: "g_observe G ty pattern_default SliceActive = ret us" "\<forall>u \<in> set us. tuple_ok u"
    using g_observe_returns [OF assms] by blast
  have "\<exists>fwd'. exec_fold (\<lambda>fwd t. endset_addrs (tup_from t) \<bind> (\<lambda>olds. claim_edges t olds fwd)) fwd ts = ret fwd' \<and>
      finite (dom fwd')" if "\<forall>t \<in> set ts. tuple_ok t" "finite (dom fwd)" for ts fwd
    using that
  proof (induction ts arbitrary: fwd)
    case (Cons t ts)
    obtain fwd' where "claim_edges t (addrs_of_endset (tup_from t)) fwd = ret fwd'" "finite (dom fwd')"
      using claim_edges_returns [of t "addrs_of_endset (tup_from t)" fwd] Cons.prems by (auto simp: tuple_ok_def)
    then show ?case using Cons.IH [of fwd'] Cons.prems(1) by simp
  qed simp
  from this [OF us(2), of "\<lambda>_. None"] show ?thesis using us(1) by (simp add: forward_claims_def)
qed

lemma walk_claims_returns:
  assumes "finite (dom fwd)"
  shows "\<exists>path sink. walk_claims fwd x = Some (path, sink)"
proof -
  let ?S = "insert x (\<Union>n \<in> dom fwd. set (the (fwd n)))"
  have "set (g_succs_operative fwd n) \<subseteq> ?S" for n
    by (cases "fwd n") (force simp: g_succs_operative_def entry_or_default_def)+
  then have "\<exists>path sink. walk_loop (g_succs_operative fwd) [x] (set [x]) (last [x]) = Some (path, sink) \<and>
      prefix [x] path \<and> distinct path \<and> succ_path (g_succs_operative fwd) path \<and>
      walk_end (g_succs_operative fwd) path sink"
    using assms by (intro walk_loop_ends [of ?S]) (auto simp: succ_path_def)
  then show ?thesis by (auto simp: walk_claims_def)
qed

lemma walks_return:
  assumes "links_ok (gl_unfiltered G)" "coverage_class ty = ret c"
  shows "\<exists>as. g_succs G ty x = ret as" "\<exists>as. g_chain G ty x = ret as" "\<exists>t. g_tip G ty x = ret t"
    "\<exists>b. g_is_in_chain G ty x y = ret b"
proof -
  obtain fwd where fwd: "forward_claims G ty = ret fwd" "finite (dom fwd)"
    using forward_claims_returns [OF assms] by blast
  obtain path sink where "walk_claims fwd x = Some (path, sink)" using walk_claims_returns [OF fwd(2)] by blast
  with fwd(1) show "\<exists>as. g_succs G ty x = ret as" "\<exists>as. g_chain G ty x = ret as" "\<exists>t. g_tip G ty x = ret t"
    "\<exists>b. g_is_in_chain G ty x y = ret b"
    by (simp_all add: g_succs_def g_chain_def g_tip_def g_is_in_chain_def)
qed

lemma g_target_of_returns:
  assumes "links_ok (gl_unfiltered G)" "coverage_class ty = ret c"
  shows "\<exists>r. g_target_of G ty x = ret r"
proof -
  obtain us where us: "tuples_denoting G ty x SliceActive = ret us" "\<forall>u \<in> set us. tuple_ok u"
    using tuples_denoting_returns [OF assms] by blast
  show ?thesis
  proof (cases "\<exists>t. us = [t]")
    case True
    then obtain t where t: "us = [t]" "tuple_ok t" using us(2) by auto
    then have "\<exists>a. lift d = ret a" if "single_denoted (tup_to t) = ret (Some d)" for d
      using that by (cases "addrs_of_endset (tup_to t)") (auto simp: single_denoted_eq tuple_ok_def split: if_splits)
    moreover obtain r where "single_denoted (tup_to t) = ret r" by (simp add: single_denoted_eq)
    ultimately show ?thesis using us(1) t(1) by (cases r) (auto simp: g_target_of_def)
  next
    case False
    then show ?thesis using us(1) by (auto simp: g_target_of_def split: list.splits)
  qed
qed

section \<open>What the evaluator relies on in the catalog\<close>

text \<open>
  The laws of a catalog the evaluator's reads need: every cataloged key, every read filter and
  every reverse-lookup type has a coverage class, and no type declares the age behavior.
\<close>

locale catalog_laws =
  fixes C :: type_catalog
  assumes classified: "catalog_get C k = Some e \<Longrightarrow> \<exists>c. coverage_class (key_endset k) = ret c"
    and classes_cataloged: "k \<in> set (cat_classes C) \<Longrightarrow> \<exists>e. catalog_get C k = Some e"
    and filters_classified: "(c, j) \<in> set (cat_read_filter_classes C) \<Longrightarrow> \<exists>c'. coverage_class j = ret c'"
    and reverse_classified: "(c, j) \<in> set (cat_reverse_lookup_classes C) \<Longrightarrow> \<exists>c'. coverage_class j = ret c'"
    and ageless: "catalog_get C k = Some e \<Longrightarrow> \<not> entry_declares e AgeStaleness"
begin

lemma guard_classified:
  assumes "guard_ok C tr g"
  obtains k e c where "tr = Concrete k" "catalog_get C k = Some e" "coverage_class (key_endset k) = ret c"
proof -
  obtain k e where k: "tr = Concrete k" "catalog_get C k = Some e"
    using guard_ok_cataloged [OF assms] by (auto simp: cataloged_def)
  obtain c where "coverage_class (key_endset k) = ret c" using classified [OF k(2)] by blast
  then show thesis using that k by blast
qed

lemma no_age_guard: "\<not> guard_ok C tr (Needs AgeStaleness)"
  using ageless by (auto simp: guard_ok_def guarded_def and_then_ok_iff Let_def split: option.splits if_splits)

lemma filtered_by_returns:
  assumes "links_ok (gl_unfiltered (ec_links cx))" "coverage_class j = ret c"
  shows "\<exists>b. filtered_by cx j x = ret b"
  using g_is_k_returns [OF assms] by (simp add: filtered_by_def)

lemma uv_keeps_returns:
  assumes "ec_catalog cx = C" "links_ok (gl_unfiltered (ec_links cx))" "catalog_get C k = Some e"
  shows "\<exists>b. uv_keeps cx k x = ret b"
proof -
  have "class_of C k = ret (ce_class e)" using assms(3) by (simp add: class_of_def)
  moreover have "\<exists>b. exec_any (\<lambda>(j_class, j_endset). if j_class \<noteq> ce_class e then filtered_by cx j_endset x else ret False)
      (cat_read_filter_classes C) = ret b"
  proof (rule exec_any_returns)
    fix j assume "j \<in> set (cat_read_filter_classes C)"
    then obtain c' where "coverage_class (snd j) = ret c'" using filters_classified [of "fst j" "snd j"] by auto
    from filtered_by_returns [OF assms(2) this, of x]
    show "\<exists>b. (case j of (j_class, j_endset) \<Rightarrow> if j_class \<noteq> ce_class e then filtered_by cx j_endset x else ret False) = ret b"
      by (cases j) auto
  qed
  ultimately show ?thesis using assms(1) by (auto simp: uv_keeps_def filtered_other_def)
qed

lemma uv_rewrite_returns:
  assumes "ec_catalog cx = C" "links_ok (gl_unfiltered (ec_links cx))" "catalog_get C k = Some e"
  shows "\<exists>as'. uv_rewrite cx k as = ret as'"
  using exec_filter_returns [of as "uv_keeps cx k"] uv_keeps_returns [OF assms] by (auto simp: uv_rewrite_def)

lemma targets_keyed_returns:
  assumes "ec_catalog cx = C" "links_ok (gl_unfiltered (ec_links cx))"
  shows "\<exists>m. targets_keyed cx x = ret m"
proof -
  have "\<exists>m. targets_keyed_loop (ec_links cx) x cs out = ret m"
    if "set cs \<subseteq> set (cat_reverse_lookup_classes C)" for cs out
    using that
  proof (induction cs arbitrary: out)
    case (Cons p cs)
    obtain c' where "coverage_class (snd p) = ret c'" using Cons.prems reverse_classified [of "fst p" "snd p"] by auto
    from g_target_of_returns [OF assms(2) this, of x] obtain r where "g_target_of (ec_links cx) (snd p) x = ret r" ..
    then show ?case using Cons by (cases p) simp
  qed simp
  then show ?thesis using assms(1) by (simp add: targets_keyed_def)
qed

lemma members_at_returns:
  assumes "ec_catalog cx = C" "links_ok (gl_unfiltered (ec_links cx))" "catalog_get C k = Some e"
    "coverage_class (key_endset k) = ret c"
  shows "\<exists>as. members_at cx k = ret as" "\<exists>as. targets_of_at cx k x = ret as" "\<exists>b. is_k_at cx k x = ret b"
proof -
  note uv = uv_rewrite_returns [OF assms(1-3)]
  obtain as where "g_members (ec_links cx) (key_endset k) (slice_of (ec_view cx)) = ret as"
    using denoted_returns [OF assms(2,4), of tup_from] by (auto simp: g_members_def)
  then show "\<exists>as. members_at cx k = ret as" using uv by (simp add: members_at_def)
  obtain us where us: "tuples_denoting (ec_links cx) (key_endset k) x SliceAudit = ret us" "\<forall>u \<in> set us. tuple_ok u"
    using tuples_denoting_returns [OF assms(2,4)] by blast
  obtain ds where "denote_slot us tup_to = ret ds" using denote_slot_returns [OF us(2), of tup_to] by blast
  moreover obtain es where "denoted (ec_links cx) (key_endset k) \<lparr>pat_from = [tumbler x], pat_to = []\<rparr> SliceActive tup_to = ret es"
    using denoted_returns [OF assms(2,4), of tup_to] by blast
  ultimately have "\<exists>bs. (if ec_view cx = Audit then targets_of_denoting (ec_links cx) (key_endset k) x
      else g_targets_of (ec_links cx) (key_endset k) x SliceActive) = ret bs"
    using us(1) by (simp add: targets_of_denoting_def g_targets_of_def)
  then show "\<exists>as. targets_of_at cx k x = ret as" using uv by (auto simp: targets_of_at_def)
  show "\<exists>b. is_k_at cx k x = ret b" using g_is_k_returns [OF assms(2,4)] by (simp add: is_k_at_def)
qed

end

lemma format_entry_age: "catalog_get format_catalog k = Some e \<Longrightarrow> \<not> entry_declares e AgeStaleness"
  by (auto simp: format_catalog_def catalog_get_def format_entry_def entry_declares_def split: if_splits)

lemma format_key_ghost:
  "catalog_get format_catalog k = Some e \<Longrightarrow> \<exists>n. key_endset k = ghost_endset n"
  by (auto simp: format_catalog_def catalog_get_def format_entry_def key_endset_def split: if_splits)

interpretation fmt: catalog_laws format_catalog
proof unfold_locales
  fix k e assume e: "catalog_get format_catalog k = Some e"
  then show "\<exists>c. coverage_class (key_endset k) = ret c"
    using format_key_ghost coverage_class_ghost by metis
  show "\<not> entry_declares e AgeStaleness" by (rule format_entry_age [OF e])
next
  fix k assume "k \<in> set (cat_classes format_catalog)"
  then show "\<exists>e. catalog_get format_catalog k = Some e"
    by (auto simp: format_catalog_def catalog_get_def format_entry_def)
qed (auto simp: format_catalog_def coverage_class_ghost)

section \<open>One step of the evaluator\<close>

text \<open>\<open>evals_to ev s t\<close>: the evaluator at hand returns a value of sort \<open>s\<close> for \<open>t\<close>.\<close>

definition evals_to :: "eval_fn \<Rightarrow> pl_term \<Rightarrow> sort \<Rightarrow> bool" where
  "evals_to ev t s \<longleftrightarrow> (\<exists>v. ev t = ret v \<and> has_sort v s)"

lemma ev_returns:
  "evals_to ev t SBool \<Longrightarrow> \<exists>b. ev_bool ev t = ret b" "evals_to ev t SAddr \<Longrightarrow> \<exists>a. ev_addr ev t = ret a"
  "evals_to ev t SAddrSet \<Longrightarrow> \<exists>as. ev_set ev t = ret as" "evals_to ev t SNat \<Longrightarrow> \<exists>n. ev_nat ev t = ret n"
  by (auto simp: evals_to_def has_sort_iff ev_bool_def ev_addr_def ev_set_def ev_nat_def)

lemma tuple_var_returns:
  "env_ok ctx env \<Longrightarrow> ctx v = Some STup \<Longrightarrow> \<exists>t. tuple_var env v = ret t \<and> tuple_ok t"
  by (auto simp: env_ok_def has_sort_iff tuple_var_def dest!: spec)

lemma kid_answers:
  assumes "list_all2 (evals_to ev) ts ss" "(t, s) \<in> set (zip ts ss)"
  shows "evals_to ev t s"
  using assms by (auto simp: list_all2_iff)

lemma exec_filter_panic: "(\<And>x. p x \<noteq> panic) \<Longrightarrow> exec_filter p xs \<noteq> panic"
  using exec_filter_returns [of xs p] by auto

lemma ev_answers:
  "evals_to ev t SBool \<Longrightarrow> (ev_bool ev t = panic) = False" "evals_to ev t SAddr \<Longrightarrow> (ev_addr ev t = panic) = False"
  "evals_to ev t SAddrSet \<Longrightarrow> (ev_set ev t = panic) = False" "evals_to ev t SNat \<Longrightarrow> (ev_nat ev t = panic) = False"
  using ev_returns [of ev t] by auto

context catalog_laws
begin

lemma guarded_atom_typed:
  assumes cx: "ec_catalog cx = C" "links_ok (gl_unfiltered (ec_links cx))"
    and guard: "atom_guard a = Some (tr, g)" "guard_ok C tr g"
    and kids: "list_all2 (evals_to ev) (atom_kids a) (atom_operands a)"
  shows "\<exists>v. eval_atom cx ev env a = ret v \<and> has_sort v (atom_result a)"
proof -
  obtain k e c where k: "tr = Concrete k" "catalog_get C k = Some e" "coverage_class (key_endset k) = ret c"
    using guard(2) by (rule guard_classified)
  have age: "g \<noteq> Needs AgeStaleness" using no_age_guard guard(2) by blast
  let ?G = "ec_links cx" and ?ty = "key_endset k"
  have reads: "members_at cx k \<noteq> panic" "\<And>x. targets_of_at cx k x \<noteq> panic" "\<And>x. is_k_at cx k x \<noteq> panic"
    "\<And>x. filtered_by cx ?ty x \<noteq> panic" "\<And>x. g_sources_to ?G ?ty x \<noteq> panic" "\<And>x. g_target_of ?G ?ty x \<noteq> panic"
    using members_at_returns [OF cx k(2,3)] filtered_by_returns [OF cx(2) k(3)] g_target_of_returns [OF cx(2) k(3)]
      denoted_returns [OF cx(2) k(3), of tup_from]
    by (simp_all add: g_sources_to_def)
  have walks: "\<And>x. g_succs ?G ?ty x \<noteq> panic" "\<And>x. g_chain ?G ?ty x \<noteq> panic" "\<And>x. g_tip ?G ?ty x \<noteq> panic"
    "\<And>x y. g_is_in_chain ?G ?ty x y \<noteq> panic"
    using walks_return [OF cx(2) k(3)] by simp_all
  have uv: "\<And>as. uv_rewrite cx k as \<noteq> panic" "\<And>as. exec_filter (uv_keeps cx k) as \<noteq> panic"
    using uv_rewrite_returns [OF cx k(2)] uv_keeps_returns [OF cx k(2)] exec_filter_panic [of "uv_keeps cx k"]
    by simp_all
  show ?thesis
    using guard(1) kids age k(1)
    by (cases a) (auto simp: eval_atom_def type_ref_key_def reads walks uv ev_answers split: bind_splits)
qed

lemma eval_atom_typed:
  assumes cx: "ec_catalog cx = C" "links_ok (gl_unfiltered (ec_links cx))"
    and env: "env_ok ctx env" and a: "atom_ok C ctx a"
    and kids: "list_all2 (evals_to ev) (atom_kids a) (atom_operands a)"
  shows "\<exists>v. eval_atom cx ev env a = ret v \<and> has_sort v (atom_result a)"
proof (cases "atom_guard a")
  case (Some p)
  then show ?thesis using guarded_atom_typed [OF cx _ _ kids] a by (cases p) (auto simp: atom_ok_def)
next
  case None
  have tup: "\<exists>t. tuple_var env v = ret t \<and> tuple_ok t" if "atom_tup a = Some v" for v
    using tuple_var_returns [OF env] a that by (auto simp: atom_ok_def)
  have keyed: "\<And>x. targets_keyed cx x \<noteq> panic" using targets_keyed_returns [OF cx] by simp
  have covers: "endset_covers (tup_from t) x \<noteq> panic" "endset_covers (tup_to t) x \<noteq> panic"
    "exec_map lift (addrs_of_endset (tup_from t)) \<noteq> panic" "exec_map lift (addrs_of_endset (tup_to t)) \<noteq> panic"
    if "tuple_ok t" for t x
    using that lift_addrs_returns [OF that] by (auto simp: tuple_ok_def)
  show ?thesis
    using None kids tup
    by (cases a) (auto simp: eval_atom_def keyed covers ev_answers split: bind_splits)
qed

lemma eval_prim_typed:
  assumes "ec_catalog cx = C" "prim_ok C p" "list_all2 (evals_to ev) (prim_kids p) (prim_operands p)"
  shows "\<exists>v. eval_prim cx ev p = ret v \<and> has_sort v (prim_result p)"
proof (cases p)
  case (Elems q)
  then show ?thesis using assms(3) by (auto simp: eval_prim_def evals_to_def has_sort_iff)
next
  case (MapGet m tr)
  then obtain k e where "tr = Concrete k" "catalog_get C k = Some e"
    using assms(2) guard_ok_cataloged [of C tr Cataloged] by (auto simp: cataloged_def)
  then show ?thesis using MapGet assms(1,3)
    by (auto simp: eval_prim_def evals_to_def has_sort_iff class_of_def type_ref_key_def)
qed (use assms in \<open>auto simp: eval_prim_def ev_answers split: bind_splits\<close>)

end

section \<open>Typed terms evaluate\<close>

definition enumerates :: "arg list exec \<Rightarrow> sort \<Rightarrow> bool" where
  "enumerates r s \<longleftrightarrow> (\<exists>es. r = ret es \<and> (\<forall>e \<in> set es. has_sort (arg_value e) s))"

lemma addr_elems_return:
  assumes "\<forall>e \<in> set es. has_sort (arg_value e) SAddr"
  shows "\<exists>as. exec_map addr_elem es = ret as"
proof -
  have "\<exists>y. addr_elem e = ret y \<and> True" if "e \<in> set es" for e
    using assms that by (cases e) (auto simp: addr_elem_def arg_value_def)
  then show ?thesis using exec_map_returns [of es addr_elem "\<lambda>_ _. True"] by blast
qed

lemma map_ArgAddr_sort: "\<forall>e \<in> set (map ArgAddr as). has_sort (arg_value e) SAddr"
  by (auto simp: arg_value_def)

text \<open>One lemma per shape of former, over the evaluator one level down.\<close>

lemma connectives_evaluate:
  assumes "evals_to (eval_term cx n env) a SBool" "evals_to (eval_term cx n env) b SBool"
  shows "evals_to (eval_term cx (Suc n) env) (And a b) SBool" "evals_to (eval_term cx (Suc n) env) (Or a b) SBool"
    "evals_to (eval_term cx (Suc n) env) (Implies a b) SBool" "evals_to (eval_term cx (Suc n) env) (Iff a b) SBool"
    "evals_to (eval_term cx (Suc n) env) (Not_t a) SBool"
  using ev_returns(1) [OF assms(1)] ev_returns(1) [OF assms(2)]
  by (auto simp: evals_to_def eval_term.simps)

lemma quantifiers_evaluate:
  assumes "enumerates (enum_dom cx n env d) s"
    and "\<And>x. has_sort x s \<Longrightarrow> evals_to (eval_term cx n (env(v \<mapsto> x))) b SBool"
  shows "evals_to (eval_term cx (Suc n) env) (Forall v d b) SBool" "evals_to (eval_term cx (Suc n) env) (Exists v d b) SBool"
    "enumerates (enum_dom cx (Suc n) env (Filter d v b)) s"
proof -
  obtain es where es: "enum_dom cx n env d = ret es" "\<forall>e \<in> set es. has_sort (arg_value e) s"
    using assms(1) by (auto simp: enumerates_def)
  let ?p = "\<lambda>e. ev_bool (eval_term cx n (env(v \<mapsto> arg_value e))) b"
  have b: "\<exists>r. ?p e = ret r" if "e \<in> set es" for e using ev_returns(1) [OF assms(2)] es(2) that by blast
  obtain r where "exec_all ?p es = ret r" using exec_all_returns [of es ?p] b by blast
  then show "evals_to (eval_term cx (Suc n) env) (Forall v d b) SBool"
    using es(1) by (simp add: evals_to_def eval_term.simps)
  obtain r where "exec_any ?p es = ret r" using exec_any_returns [of es ?p] b by blast
  then show "evals_to (eval_term cx (Suc n) env) (Exists v d b) SBool"
    using es(1) by (simp add: evals_to_def eval_term.simps)
  obtain fs where "exec_filter ?p es = ret fs" "set fs \<subseteq> set es" using exec_filter_returns [of es ?p] b by blast
  then show "enumerates (enum_dom cx (Suc n) env (Filter d v b)) s"
    using es by (auto simp: enumerates_def enum_dom.simps)
qed

lemma union_evaluates:
  assumes "enumerates (enum_dom cx n env d) s"
    and "\<And>x. has_sort x s \<Longrightarrow> evals_to (eval_term cx n (env(v \<mapsto> x))) b SAddrSet"
  shows "evals_to (eval_term cx (Suc n) env) (BigUnion d v b) SAddrSet"
proof -
  obtain es where es: "enum_dom cx n env d = ret es" "\<forall>e \<in> set es. has_sort (arg_value e) s"
    using assms(1) by (auto simp: enumerates_def)
  let ?f = "\<lambda>e. ev_set (eval_term cx n (env(v \<mapsto> arg_value e))) b"
  have "\<exists>r. ?f e = ret r \<and> True" if "e \<in> set es" for e using ev_returns(3) [OF assms(2)] es(2) that by blast
  then obtain ss where "exec_map ?f es = ret ss" using exec_map_returns [of es ?f "\<lambda>_ _. True"] by blast
  then show ?thesis using es(1) by (simp add: evals_to_def eval_term.simps)
qed

lemma aggregates_evaluate:
  assumes "enumerates (enum_dom cx n env d) SAddr"
  shows "evals_to (eval_term cx (Suc n) env) (MaxT1 d) SOptAddr" "evals_to (eval_term cx (Suc n) env) (MinT1 d) SOptAddr"
    "evals_to (eval_term cx (Suc n) env) (Reflect d) SAddrSet"
  using assms addr_elems_return by (fastforce simp: enumerates_def evals_to_def eval_term.simps)+

lemma let_evaluates:
  assumes "evals_to (eval_term cx n env) x s" "\<And>y. has_sort y s \<Longrightarrow> evals_to (eval_term cx n (env(v \<mapsto> y))) b u"
  shows "evals_to (eval_term cx (Suc n) env) (Let_t v x b) u"
  using assms by (fastforce simp: evals_to_def eval_term.simps)

lemma ifsome_evaluates:
  assumes "evals_to (eval_term cx n env) x s" "s = SOptAddr \<and> w = SAddr \<or> s = SOptNat \<and> w = SNat"
    and "\<And>y. has_sort y w \<Longrightarrow> evals_to (eval_term cx n (env(v \<mapsto> y))) a u" "evals_to (eval_term cx n env) b u"
  shows "evals_to (eval_term cx (Suc n) env) (IfSome x v a b) u"
proof -
  obtain y where "eval_term cx n env x = ret y" "has_sort y s" using assms(1) by (auto simp: evals_to_def)
  then show ?thesis using assms(2-4)
    by (auto simp: evals_to_def eval_term.simps has_sort_iff split: option.split)
qed

lemma reference_evaluates:
  assumes "ec_defs cx = Some D" "D a = Some tt" "list_all2 (evals_to (eval_term cx n env)) args (map snd (tt_params tt))"
    and "\<And>env'. env_ok (collect_map (tt_params tt)) env' \<Longrightarrow> evals_to (eval_term cx n env') (tt_evaluable tt) (tt_result tt)"
  shows "evals_to (eval_term cx (Suc n) env) (Ref a args) (tt_result tt)"
proof -
  have len: "length args = length (tt_params tt)" using list_all2_lengthD [OF assms(3)] by simp
  have "\<exists>vs. exec_map ev ts = ret vs \<and> list_all2 has_sort vs ss" if "list_all2 (evals_to ev) ts ss" for ev ts ss
    using that by (induction rule: list_all2_induct) (auto simp: evals_to_def)
  from this [OF assms(3)]
  obtain vs where vs: "exec_map (eval_term cx n env) args = ret vs" "list_all2 has_sort vs (map snd (tt_params tt))"
    by blast
  from assms(4) [OF env_ok_collect [OF vs(2)]] show ?thesis
    using assms(1,2) vs(1) len by (simp add: evals_to_def eval_term.simps Let_def)
qed

context catalog_laws
begin

lemma slices_enumerate:
  assumes "ec_catalog cx = C" "links_ok (gl_unfiltered (ec_links cx))" "guard_ok C tr Cataloged"
  shows "enumerates (enum_dom cx (Suc n) env (MembersDom tr)) SAddr"
    "enumerates (enum_dom cx (Suc n) env (ActiveSlice tr)) STup"
    "enumerates (enum_dom cx (Suc n) env (AuditSlice tr)) STup"
proof -
  obtain k e c where k: "tr = Concrete k" "catalog_get C k = Some e" "coverage_class (key_endset k) = ret c"
    by (rule guard_classified [OF assms(3)])
  show "enumerates (enum_dom cx (Suc n) env (MembersDom tr)) SAddr"
    using members_at_returns(1) [OF assms(1,2) k(2,3)] map_ArgAddr_sort
    by (auto simp: enumerates_def enum_dom.simps k(1) type_ref_key_def)
  show "enumerates (enum_dom cx (Suc n) env (ActiveSlice tr)) STup"
    "enumerates (enum_dom cx (Suc n) env (AuditSlice tr)) STup"
    using g_observe_returns [OF assms(2) k(3), of pattern_default SliceActive]
      g_observe_returns [OF assms(2) k(3), of pattern_default SliceAudit]
    by (auto simp: enumerates_def enum_dom.simps k(1) type_ref_key_def arg_value_def)
qed

lemma links_enumerate:
  assumes "ec_catalog cx = C" "links_ok (gl_unfiltered (ec_links cx))"
  shows "enumerates (enum_dom cx (Suc n) env LinkDom) SAddr"
proof -
  let ?f = "\<lambda>k. g_observe (ec_links cx) (key_endset k) pattern_default SliceAudit"
  have "\<exists>ts. ?f k = ret ts \<and> True" if "k \<in> set (cat_classes C)" for k
    using classes_cataloged [OF that] classified g_observe_returns [OF assms(2)] by metis
  then obtain tss where "exec_map ?f (cat_classes C) = ret tss"
    using exec_map_returns [of "cat_classes C" ?f "\<lambda>_ _. True"] by blast
  then show ?thesis using assms(1) map_ArgAddr_sort by (auto simp: enumerates_def enum_dom.simps)
qed

lemma typed_evaluates:
  assumes cx: "ec_catalog cx = C" "links_ok (gl_unfiltered (ec_links cx))"
    and defs: "\<And>a tt. defs a = Some tt \<Longrightarrow> \<exists>D. ec_defs cx = Some D \<and> D a = Some tt"
  shows "typed C defs n ctx t s \<Longrightarrow> env_ok ctx env \<Longrightarrow> evals_to (eval_term cx n env) t s"
    "typed_dom C defs n ctx d s \<Longrightarrow> env_ok ctx env \<Longrightarrow> enumerates (enum_dom cx n env d) s"
proof (induction arbitrary: env and env rule: typed_typed_dom.inducts)
  case (T_Atom ctx a n)
  have "list_all2 (evals_to (eval_term cx n env)) (atom_kids a) (atom_operands a)"
    by (rule list_all2_mono [OF T_Atom(2)]) (use T_Atom(3) in blast)
  from eval_atom_typed [OF cx T_Atom(3,1) this] show ?case by (simp add: evals_to_def eval_term.simps)
next
  case (T_Prim p n ctx)
  have "list_all2 (evals_to (eval_term cx n env)) (prim_kids p) (prim_operands p)"
    by (rule list_all2_mono [OF T_Prim(2)]) (use T_Prim(3) in blast)
  from eval_prim_typed [OF cx(1) T_Prim(1) this] show ?case by (simp add: evals_to_def eval_term.simps)
next
  case (T_Def n ctx x s)
  then have "evals_to (eval_term cx n env) x s" by blast
  then show ?case using T_Def(3) by (auto simp: evals_to_def eval_term.simps eval_prim_def has_sort_iff)
next
  case (T_Ref a tt n ctx args)
  obtain D where "ec_defs cx = Some D" "D a = Some tt" using defs T_Ref(1) by blast
  then show ?case
    by (rule reference_evaluates) (use T_Ref in \<open>auto elim!: list_all2_mono\<close>)
next
  case (T_Var ctx v s n)
  then show ?case by (auto simp: env_ok_def evals_to_def eval_term.simps)
next
  case (T_Lit n ctx l)
  then show ?case by (cases l) (simp_all add: evals_to_def eval_term.simps lit_value_def)
next
  case (T_Count n ctx d s)
  then show ?case by (fastforce simp: enumerates_def evals_to_def eval_term.simps)
next
  case (T_IfSome n ctx x s w v a u b)
  show ?case
  proof (rule ifsome_evaluates [of cx n env x s w])
    show "evals_to (eval_term cx n (env(v \<mapsto> y))) a u" if "has_sort y w" for y
      by (rule T_IfSome(4)) (rule env_ok_upd [OF T_IfSome(8) that])
  qed (use T_IfSome in simp_all)
next
  case (D_Set n ctx t)
  from ev_returns(3) [OF D_Set(2) [OF D_Set(3)]] show ?case
    using map_ArgAddr_sort by (auto simp: enumerates_def enum_dom.simps)
qed (auto intro!: connectives_evaluate quantifiers_evaluate union_evaluates aggregates_evaluate let_evaluates
    slices_enumerate [OF cx] links_enumerate [OF cx] env_ok_upd)

end

section \<open>Levels to spare change nothing\<close>

text \<open>\<open>m'\<close> returns what \<open>m\<close> returns, if that returns. The monadic operators are monotone in this order, so
  a recursion unrolled once more returns all it returned before.\<close>

definition approx :: "'a exec \<Rightarrow> 'a exec \<Rightarrow> bool" where
  "approx m m' \<longleftrightarrow> (\<forall>y. m = ret y \<longrightarrow> m' = ret y)"

named_theorems approx_rules

lemma approxD: "approx m m' \<Longrightarrow> m = ret y \<Longrightarrow> m' = ret y"
  by (simp add: approx_def)

lemma approx_refl [simp, approx_rules]: "approx m m"
  by (simp add: approx_def)

lemma approx_panic [simp]: "approx panic m"
  by (simp add: approx_def)

lemma approx_bind [approx_rules]:
  "approx m m' \<Longrightarrow> (\<And>y. approx (f y) (f' y)) \<Longrightarrow> approx (m \<bind> f) (m' \<bind> f')"
  by (fastforce simp: approx_def bind_eq_Some_conv)

lemma approx_if [approx_rules]: "approx m m' \<Longrightarrow> approx k k' \<Longrightarrow> approx (if b then m else k) (if b then m' else k')"
  by simp

lemma approx_map [approx_rules]: "(\<And>x. approx (f x) (g x)) \<Longrightarrow> approx (exec_map f xs) (exec_map g xs)"
  by (induction xs) (simp_all add: approx_rules)

lemma approx_filter [approx_rules]:
  "(\<And>x. approx (p x) (q x)) \<Longrightarrow> approx (exec_filter p xs) (exec_filter q xs)"
  by (induction xs) (simp_all add: approx_rules)

lemma approx_all [approx_rules]: "(\<And>x. approx (p x) (q x)) \<Longrightarrow> approx (exec_all p xs) (exec_all q xs)"
  by (induction xs) (simp_all add: approx_rules)

lemma approx_any [approx_rules]: "(\<And>x. approx (p x) (q x)) \<Longrightarrow> approx (exec_any p xs) (exec_any q xs)"
  by (induction xs) (simp_all add: approx_rules)

lemma ev_approx [approx_rules]:
  assumes "\<And>t. approx (ev t) (ev' t)"
  shows "approx (ev_addr ev t) (ev_addr ev' t)" "approx (ev_bool ev t) (ev_bool ev' t)"
    "approx (ev_set ev t) (ev_set ev' t)" "approx (ev_nat ev t) (ev_nat ev' t)"
  by (simp_all add: ev_addr_def ev_bool_def ev_set_def ev_nat_def assms approx_rules)

lemma eval_atom_approx [approx_rules]:
  assumes "\<And>t. approx (ev t) (ev' t)"
  shows "approx (eval_atom cx ev env a) (eval_atom cx ev' env a)"
  by (cases a) (simp_all add: eval_atom_def assms approx_rules)

lemma eval_prim_approx [approx_rules]:
  assumes "\<And>t. approx (ev t) (ev' t)"
  shows "approx (eval_prim cx ev p) (eval_prim cx ev' p)"
  by (cases p) (simp_all add: eval_prim_def assms approx_rules)

lemma eval_more_levels:
  "approx (eval_term cx n env t) (eval_term cx (Suc n) env t)"
  "approx (enum_dom cx n env d) (enum_dom cx (Suc n) env d)"
proof (induction n arbitrary: env t d)
  case (Suc n)
  {
    case 1
    show ?case
      unfolding eval_term.simps(2) [of cx "Suc n"] unfolding eval_term.simps(2) [of cx n env t]
      by (cases t) (simp_all add: Suc.IH approx_rules split: pl_value.split option.split)
  next
    case 2
    show ?case
      unfolding enum_dom.simps(2) [of cx "Suc n"] unfolding enum_dom.simps(2) [of cx n env d]
      by (cases d) (simp_all add: Suc.IH approx_rules)
  }
qed simp_all

lemma eval_levels:
  assumes "n \<le> m" "eval_term cx n env t = ret v"
  shows "eval_term cx m env t = ret v"
  using assms by (induction rule: dec_induct) (blast intro: approxD [OF eval_more_levels(1)])+

section \<open>What the checker admits evaluates\<close>


definition sample_ctx :: eval_ctx where
  "sample_ctx = \<lparr>ec_catalog = format_catalog, ec_links = \<lparr>gl_unfiltered = sample_links, gl_guest = \<lambda>_. True\<rparr>,
     ec_is_doc = \<lambda>_. False, ec_view = Active, ec_defs = Some (\<lambda>_. None)\<rparr>"

lemma sample_links_ok: "links_ok sample_links"
proof -
  have slots: "p = (sample_link_addr, sample_link)" if "p \<in> set (ls_links sample_links)" for p
    using that by (simp add: sample_links_def)
  have "\<exists>a. lift (ghost_tumbler 1) = ret a" "addrs_of_endset (ghost_endset 1) = [ghost_tumbler 1]"
    "addrs_of_endset endset_empty = []"
    by (simp_all add: lift_def ghost_tumbler_def validate_eq T4_unfold level_of_def addrs_of_endset_def
        ghost_endset_def endset_empty_def)
  then show ?thesis
    using reachable_sample wf_sample_links
    by (auto simp: links_ok_def sample_link_def triple_def dest!: slots)
qed


end
