(* ===== verification/Codec_Bytes.thy ===== *)
theory Codec_Bytes
  imports PL_Terms "HOL-Library.Word"
begin

unbundle bit_operations_syntax

text \<open>
  The byte layer of \<^verbatim>\<open>src/crates/skep-coordination/src/codec.rs\<close>: the varint writer, the reader's
  cursor \<^verbatim>\<open>Rd\<close> with its bytes, charges and varints, and what a reader accepts.

  \<^item> A byte is \<open>8 word\<close> and a varint is \<open>64 word\<close>, as in the code; the write buffer is append-only,
    so a writer is the bytes it appends. \<^verbatim>\<open>usize\<close> is 64 bits wide, so \<^verbatim>\<open>usize::try_from\<close> of a
    \<^verbatim>\<open>u64\<close> always answers.
  \<^item> A reader is \<open>'a rdr\<close>, a function of the cursor \<open>rd\<close>: the buffer, the offset of the next unread
    byte, and the units spent. \<open>rbind\<close> is the sequencing that \<^verbatim>\<open>?\<close> gives, \<open>rmap\<close>\ldots\<open>rmap4\<close> build a
    constructor from arguments read left to right, \<open>rd_times\<close> is a counted loop pushing onto a vector.
  \<^item> \<open>reads_as r V\<close> characterises a reader by the relation between values, their spellings and
    their price, so that the format's two directions are proved at once.
\<close>

section \<open>Varints\<close>

type_synonym byte = "8 word"

function w_varint :: "64 word \<Rightarrow> byte list" where
  "w_varint x =
     (let byte = ucast (x AND 0x7f); x' = drop_bit 7 x in
      if x' = 0 then [byte] else (byte OR 0x80) # w_varint x')"
  by pat_completeness auto
termination
proof (relation "measure unat", goal_cases)
  case (2 x byte x')
  then have "unat x \<noteq> 0" by (metis drop_bit_of_0 unat_eq_zero)
  moreover have "unat x' = unat x div 128" using 2 by (simp add: drop_bit_eq_div unat_div_distrib)
  ultimately show ?case by simp
qed simp

declare w_varint.simps [simp del]

record rd =
  rd_b :: "byte list"
  rd_pos :: nat
  rd_nodes :: nat

datatype malformed = Malformed

type_synonym 'a rdr = "rd \<Rightarrow> ('a \<times> rd, malformed) result exec"

definition rret :: "'a \<Rightarrow> 'a rdr" where
  "rret x st = ok (x, st)"

definition rfail :: "'a rdr" where
  "rfail st = err Malformed"

definition rbind :: "'a rdr \<Rightarrow> ('a \<Rightarrow> 'b rdr) \<Rightarrow> 'b rdr" where
  "rbind r f st = and_then (r st) (\<lambda>(x, st'). f x st')"

definition rmap :: "('a \<Rightarrow> 'b) \<Rightarrow> 'a rdr \<Rightarrow> 'b rdr" where
  "rmap K r = rbind r (\<lambda>x. rret (K x))"

definition rmap2 :: "('a \<Rightarrow> 'b \<Rightarrow> 'c) \<Rightarrow> 'a rdr \<Rightarrow> 'b rdr \<Rightarrow> 'c rdr" where
  "rmap2 K r s = rbind r (\<lambda>x. rmap (K x) s)"

definition rmap3 :: "('a \<Rightarrow> 'b \<Rightarrow> 'c \<Rightarrow> 'd) \<Rightarrow> 'a rdr \<Rightarrow> 'b rdr \<Rightarrow> 'c rdr \<Rightarrow> 'd rdr" where
  "rmap3 K r s t = rbind r (\<lambda>x. rmap2 (K x) s t)"

definition rmap4 :: "('a \<Rightarrow> 'b \<Rightarrow> 'c \<Rightarrow> 'd \<Rightarrow> 'e) \<Rightarrow> 'a rdr \<Rightarrow> 'b rdr \<Rightarrow> 'c rdr \<Rightarrow> 'd rdr \<Rightarrow> 'e rdr" where
  "rmap4 K r s t u = rbind r (\<lambda>x. rmap3 (K x) s t u)"

fun rd_times :: "nat \<Rightarrow> 'a rdr \<Rightarrow> 'a list rdr" where
  "rd_times 0 r = rret []"
| "rd_times (Suc n) r = rmap2 (#) r (rd_times n r)"

definition rd_u8 :: "byte rdr" where
  "rd_u8 st = (if rd_pos st < length (rd_b st)
     then ok (rd_b st ! rd_pos st, st\<lparr>rd_pos := rd_pos st + 1\<rparr>) else err Malformed)"

definition rd_charge :: "nat \<Rightarrow> unit rdr" where
  "rd_charge k st =
     (case budget_charge (rd_nodes st) k of
        (True, n) \<Rightarrow> ok ((), st\<lparr>rd_nodes := n\<rparr>)
      | (False, n) \<Rightarrow> err Malformed)"

function rd_varint_loop :: "64 word \<Rightarrow> nat \<Rightarrow> 64 word rdr" where
  "rd_varint_loop x sh = rbind rd_u8 (\<lambda>byte.
     if sh = 63 \<and> byte AND 0x7e \<noteq> 0 then rfail
     else if sh > 63 then rfail
     else
       let x' = x OR push_bit sh (ucast (byte AND 0x7f)) in
       if byte AND 0x80 = 0 then
         (if byte = 0 \<and> sh \<noteq> 0 then rfail else rret x')
       else rd_varint_loop x' (sh + 7))"
  by pat_completeness auto
termination
  by (relation "measure (\<lambda>(x, sh). 70 - sh)") auto

declare rd_varint_loop.simps [simp del]

definition rd_varint :: "64 word rdr" where
  "rd_varint = rd_varint_loop 0 0"

definition rd_len_prefix :: "nat rdr" where
  "rd_len_prefix = rmap unat rd_varint"

text \<open>The bound checks \<^verbatim>\<open>n > self.b.len()\<close> before a loop of \<open>n\<close> items.\<close>

definition rd_bound :: "nat \<Rightarrow> 'a rdr \<Rightarrow> 'a rdr" where
  "rd_bound n r st = (if n > length (rd_b st) then err Malformed else r st)"

section \<open>What a reader accepts\<close>

text \<open>
  \<open>reads_as r V\<close>: the reader never panics, and it accepts exactly the prefixes that \<open>V\<close> relates to a
  value, \<open>V x w c\<close> saying that the bytes \<open>w\<close> spell \<open>x\<close> at a price of \<open>c\<close> units. A relation of the
  form \<open>spelt P W C\<close> has one spelling \<open>W x\<close> and one price \<open>C x\<close> for each admitted \<open>x\<close>.
\<close>

definition rd_rest :: "rd \<Rightarrow> byte list" where
  "rd_rest st = drop (rd_pos st) (rd_b st)"

definition rd_ok :: "rd \<Rightarrow> bool" where
  "rd_ok st \<longleftrightarrow> rd_pos st \<le> length (rd_b st) \<and> rd_nodes st \<le> MAX_TERM_NODES \<and> length (rd_b st) < 2 ^ 64"

definition rd_adv :: "nat \<Rightarrow> nat \<Rightarrow> rd \<Rightarrow> rd" where
  "rd_adv n c st = st\<lparr>rd_pos := rd_pos st + n, rd_nodes := rd_nodes st + c\<rparr>"

type_synonym 'a spelling = "'a \<Rightarrow> byte list \<Rightarrow> nat \<Rightarrow> bool"

definition accepts :: "'a spelling \<Rightarrow> rd \<Rightarrow> 'a \<Rightarrow> rd \<Rightarrow> bool" where
  "accepts V st x st' \<longleftrightarrow> (\<exists>w c. V x w c \<and> prefix w (rd_rest st) \<and> rd_nodes st + c \<le> MAX_TERM_NODES \<and>
     st' = rd_adv (length w) c st)"

definition reads_as :: "'a rdr \<Rightarrow> 'a spelling \<Rightarrow> bool" where
  "reads_as r V \<longleftrightarrow> (\<forall>st. rd_ok st \<longrightarrow> r st \<noteq> panic \<and> (\<forall>x st'. r st = ok (x, st') \<longleftrightarrow> accepts V st x st'))"

definition spelt :: "('a \<Rightarrow> bool) \<Rightarrow> ('a \<Rightarrow> byte list) \<Rightarrow> ('a \<Rightarrow> nat) \<Rightarrow> 'a spelling" where
  "spelt P W C x w c \<longleftrightarrow> P x \<and> w = W x \<and> c = C x"

definition then_reads :: "'a spelling \<Rightarrow> ('a \<Rightarrow> 'b spelling) \<Rightarrow> 'b spelling" where
  "then_reads V U y w c \<longleftrightarrow> (\<exists>x w1 c1 w2 c2. V x w1 c1 \<and> U x y w2 c2 \<and> w = w1 @ w2 \<and> c = c1 + c2)"

lemma reads_asI:
  assumes "\<And>st. rd_ok st \<Longrightarrow> r st \<noteq> panic"
    and "\<And>st x st'. rd_ok st \<Longrightarrow> r st = ok (x, st') \<longleftrightarrow> accepts V st x st'"
  shows "reads_as r V"
  using assms by (simp add: reads_as_def)

lemma reads_asD:
  assumes "reads_as r V" "rd_ok st"
  shows "r st \<noteq> panic" "r st = ok (x, st') \<longleftrightarrow> accepts V st x st'"
  using assms by (simp_all add: reads_as_def)

lemma reads_as_cong: "reads_as r V \<Longrightarrow> (\<And>x w c. V x w c \<longleftrightarrow> U x w c) \<Longrightarrow> reads_as r U"
  by (simp add: reads_as_def accepts_def)

lemma rd_ok_adv:
  "rd_ok st \<Longrightarrow> prefix w (rd_rest st) \<Longrightarrow> rd_nodes st + c \<le> MAX_TERM_NODES \<Longrightarrow> rd_ok (rd_adv (length w) c st)"
  by (auto simp: rd_ok_def rd_adv_def rd_rest_def dest!: prefix_length_le)

lemma rd_rest_adv [simp]: "rd_rest (rd_adv n c st) = drop n (rd_rest st)"
  by (simp add: rd_rest_def rd_adv_def add.commute)

lemma rd_adv_simps [simp]:
  "rd_adv n c (rd_adv m d st) = rd_adv (m + n) (d + c) st" "rd_nodes (rd_adv n c st) = rd_nodes st + c"
  "rd_b (rd_adv n c st) = rd_b st" "rd_adv 0 0 st = st" "rd_pos (rd_adv n c st) = rd_pos st + n"
  by (simp_all add: rd_adv_def)

lemma prefix_append_iff: "prefix (v @ w) xs \<longleftrightarrow> prefix v xs \<and> prefix w (drop (length v) xs)"
  by (auto simp: prefix_def)

lemma accepts_then:
  "accepts (then_reads V U) st y st'' \<longleftrightarrow> (\<exists>x st'. accepts V st x st' \<and> accepts (U x) st' y st'')"
proof
  assume "accepts (then_reads V U) st y st''"
  then obtain x w1 c1 w2 c2 where *: "V x w1 c1" "U x y w2 c2" "prefix (w1 @ w2) (rd_rest st)"
    "rd_nodes st + (c1 + c2) \<le> MAX_TERM_NODES" "st'' = rd_adv (length (w1 @ w2)) (c1 + c2) st"
    unfolding accepts_def then_reads_def by blast
  then have "accepts V st x (rd_adv (length w1) c1 st)"
    unfolding accepts_def by (intro exI [of _ w1] exI [of _ c1]) (simp add: prefix_append_iff)
  moreover from * have "accepts (U x) (rd_adv (length w1) c1 st) y st''"
    unfolding accepts_def by (intro exI [of _ w2] exI [of _ c2]) (simp add: prefix_append_iff add.assoc)
  ultimately show "\<exists>x st'. accepts V st x st' \<and> accepts (U x) st' y st''" by blast
next
  assume "\<exists>x st'. accepts V st x st' \<and> accepts (U x) st' y st''"
  then obtain x w1 c1 w2 c2 where *: "V x w1 c1" "U x y w2 c2" "prefix w1 (rd_rest st)"
    "prefix w2 (drop (length w1) (rd_rest st))" "rd_nodes st + c1 + c2 \<le> MAX_TERM_NODES"
    "st'' = rd_adv (length w2) c2 (rd_adv (length w1) c1 st)"
    by (auto simp: accepts_def)
  from *(1,2) have "then_reads V U y (w1 @ w2) (c1 + c2)" unfolding then_reads_def by blast
  moreover from * have "prefix (w1 @ w2) (rd_rest st)" "st'' = rd_adv (length (w1 @ w2)) (c1 + c2) st"
    by (auto simp: prefix_append_iff)
  ultimately show "accepts (then_reads V U) st y st''"
    unfolding accepts_def using *(5) by (intro exI [of _ "w1 @ w2"] exI [of _ "c1 + c2"]) (simp add: add.assoc)
qed

lemma reads_ret: "reads_as (rret x) (spelt (\<lambda>y. y = x) (\<lambda>_. []) (\<lambda>_. 0))"
  by (rule reads_asI) (auto simp: rret_def accepts_def spelt_def rd_ok_def)

lemma reads_fail: "reads_as rfail (\<lambda>_ _ _. False)"
  by (rule reads_asI) (auto simp: rfail_def accepts_def)

lemma reads_bind:
  assumes r: "reads_as r V" and f: "\<And>x w c. V x w c \<Longrightarrow> reads_as (f x) (U x)"
  shows "reads_as (rbind r f) (then_reads V U)"
proof (rule reads_asI)
  fix st :: rd assume st: "rd_ok st"
  have step: "f x st' \<noteq> panic" "f x st' = ok (y, st'') \<longleftrightarrow> accepts (U x) st' y st''"
    if "r st = ok (x, st')" for x st' y st''
  proof -
    from that obtain w c where *: "V x w c" "rd_ok st'"
      using reads_asD(2) [OF r st] st by (auto simp: accepts_def intro: rd_ok_adv)
    show "f x st' \<noteq> panic" "f x st' = ok (y, st'') \<longleftrightarrow> accepts (U x) st' y st''"
      using reads_asD [OF f [OF *(1)] *(2)] by simp_all
  qed
  show "rbind r f st \<noteq> panic"
    using reads_asD(1) [OF r st] step(1) by (auto simp: rbind_def and_then_panic_iff simp del: not_None_eq)
  fix y st''
  have "rbind r f st = ok (y, st'') \<longleftrightarrow> (\<exists>x st'. r st = ok (x, st') \<and> accepts (U x) st' y st'')"
    using step(2) by (auto simp: rbind_def and_then_ok_iff)
  also have "\<dots> \<longleftrightarrow> (\<exists>x st'. accepts V st x st' \<and> accepts (U x) st' y st'')"
    using reads_asD(2) [OF r st] by simp
  also have "\<dots> \<longleftrightarrow> accepts (then_reads V U) st y st''"
    by (simp add: accepts_then)
  finally show "rbind r f st = ok (y, st'') \<longleftrightarrow> accepts (then_reads V U) st y st''" .
qed

lemma reads_map: "reads_as r V \<Longrightarrow> reads_as (rmap K r) (\<lambda>y w c. \<exists>x. y = K x \<and> V x w c)"
  unfolding rmap_def
  by (rule reads_as_cong [OF reads_bind [OF _ reads_ret]]) (auto simp: then_reads_def spelt_def)

lemma reads_map2:
  assumes "reads_as r (spelt P1 W1 C1)" "reads_as s (spelt P2 W2 C2)"
  shows "reads_as (rmap2 K r s)
    (\<lambda>y w c. \<exists>x1 x2. y = K x1 x2 \<and> P1 x1 \<and> P2 x2 \<and> w = W1 x1 @ W2 x2 \<and> c = C1 x1 + C2 x2)"
  unfolding rmap2_def
  by (rule reads_as_cong [OF reads_bind [OF assms(1) reads_map [OF assms(2)]]])
    (auto simp: then_reads_def spelt_def)

lemma reads_map3:
  assumes "reads_as r (spelt P1 W1 C1)" "reads_as s (spelt P2 W2 C2)" "reads_as t (spelt P3 W3 C3)"
  shows "reads_as (rmap3 K r s t)
    (\<lambda>y w c. \<exists>x1 x2 x3. y = K x1 x2 x3 \<and> P1 x1 \<and> P2 x2 \<and> P3 x3 \<and>
       w = W1 x1 @ W2 x2 @ W3 x3 \<and> c = C1 x1 + C2 x2 + C3 x3)"
  unfolding rmap3_def
  by (rule reads_as_cong [OF reads_bind [OF assms(1) reads_map2 [OF assms(2,3)]]])
    (fastforce simp: then_reads_def spelt_def)

lemma reads_map4:
  assumes "reads_as r (spelt P1 W1 C1)" "reads_as s (spelt P2 W2 C2)" "reads_as t (spelt P3 W3 C3)"
    "reads_as u (spelt P4 W4 C4)"
  shows "reads_as (rmap4 K r s t u)
    (\<lambda>y w c. \<exists>x1 x2 x3 x4. y = K x1 x2 x3 x4 \<and> P1 x1 \<and> P2 x2 \<and> P3 x3 \<and> P4 x4 \<and>
       w = W1 x1 @ W2 x2 @ W3 x3 @ W4 x4 \<and> c = C1 x1 + C2 x2 + C3 x3 + C4 x4)"
  unfolding rmap4_def
  by (rule reads_as_cong [OF reads_bind [OF assms(1) reads_map3 [OF assms(2-4)]]])
    (fastforce simp: then_reads_def spelt_def)

lemma reads_times:
  assumes "reads_as r (spelt P W C)"
  shows "reads_as (rd_times n r) (spelt (\<lambda>xs. length xs = n \<and> list_all P xs)
    (\<lambda>xs. concat (map W xs)) (\<lambda>xs. sum_list (map C xs)))"
proof (induction n)
  case 0
  then show ?case by (simp add: spelt_def) (rule reads_as_cong [OF reads_ret], auto simp: spelt_def)
next
  case (Suc n)
  show ?case unfolding rd_times.simps
    by (rule reads_as_cong [OF reads_map2 [OF assms Suc]]) (auto simp: spelt_def length_Suc_conv)
qed

lemma reads_u8: "reads_as rd_u8 (spelt (\<lambda>_. True) (\<lambda>b. [b]) (\<lambda>_. 0))"
proof (rule reads_asI)
  fix st x st' assume "rd_ok st"
  then have "prefix [x] (rd_rest st) \<longleftrightarrow> rd_pos st < length (rd_b st) \<and> rd_b st ! rd_pos st = x"
    by (cases "rd_pos st < length (rd_b st)") (auto simp: rd_rest_def Cons_nth_drop_Suc [symmetric])
  then show "rd_u8 st = ok (x, st') \<longleftrightarrow> accepts (spelt (\<lambda>_. True) (\<lambda>b. [b]) (\<lambda>_. 0)) st x st'"
    using \<open>rd_ok st\<close> by (auto simp: rd_u8_def accepts_def spelt_def rd_ok_def rd_adv_def)
qed (simp add: rd_u8_def)

lemma reads_tag:
  assumes "\<And>t. reads_as (br t) (V t)"
  shows "reads_as (rbind rd_u8 br) (\<lambda>y w c. \<exists>t w'. w = t # w' \<and> V t y w' c)"
  by (rule reads_as_cong [OF reads_bind [OF reads_u8 assms]]) (auto simp: then_reads_def spelt_def)

lemma reads_if:
  "reads_as r V \<Longrightarrow> reads_as s U \<Longrightarrow>
   reads_as (if b then r else s) (\<lambda>x w c. if b then V x w c else U x w c)"
  by simp

lemma budget_charge_eq:
  "budget_charge n k = (b, m) \<Longrightarrow> (b \<longleftrightarrow> n + k \<le> MAX_TERM_NODES) \<and> (b \<longrightarrow> m = n + k)"
  by (auto simp: budget_charge_def saturating_add_def Let_def MAX_TERM_NODES_def)

lemma reads_charge: "reads_as (rd_charge k) (spelt (\<lambda>_. True) (\<lambda>_. []) (\<lambda>_. k))"
proof (rule reads_asI)
  fix st :: rd and x st' assume "rd_ok st"
  obtain b n where "budget_charge (rd_nodes st) k = (b, n)" by fastforce
  then show "rd_charge k st = ok (x, st') \<longleftrightarrow> accepts (spelt (\<lambda>_. True) (\<lambda>_. []) (\<lambda>_. k)) st x st'"
    by (cases b) (auto simp: rd_charge_def accepts_def spelt_def rd_adv_def dest!: budget_charge_eq)
next
  fix st :: rd
  show "rd_charge k st \<noteq> panic" by (simp add: rd_charge_def split: prod.split bool.split)
qed

lemma reads_bound:
  assumes "reads_as r V" "\<And>x w c. V x w c \<Longrightarrow> n \<le> length w"
  shows "reads_as (rd_bound n r) V"
proof (rule reads_asI)
  fix st x st' assume st: "rd_ok st"
  show "rd_bound n r st \<noteq> panic" using reads_asD(1) [OF assms(1) st] by (simp add: rd_bound_def)
  have "n \<le> length (rd_b st)" if "accepts V st x st'"
    using that assms(2) by (fastforce simp: accepts_def rd_rest_def dest: prefix_length_le)
  then show "rd_bound n r st = ok (x, st') \<longleftrightarrow> accepts V st x st'"
    using reads_asD(2) [OF assms(1) st] by (auto simp: rd_bound_def)
qed

section \<open>Varints read back\<close>

text \<open>The value a varint spells, in base 128, least significant limb first.\<close>

fun leb :: "nat \<Rightarrow> byte list" where
  "leb n = (if n < 128 then [of_nat n] else of_nat (n mod 128 + 128) # leb (n div 128))"

declare leb.simps [simp del]

lemma leb_ex: "\<exists>t w. leb n = t # w"
  by (simp add: leb.simps [of n])

lemma low_limb: "unat (x AND 0x7f) = unat x mod 128" for x :: "'a::len word"
proof -
  have limb: "x AND 0x7f = take_bit 7 x" by (simp add: take_bit_eq_mask mask_eq_exp_minus_1)
  show ?thesis unfolding limb unsigned_take_bit_eq by (simp add: take_bit_eq_mod)
qed

lemma high_bit: "b AND 0x80 = 0 \<longleftrightarrow> unat b < 128" for b :: byte
proof -
  have "b AND 0x80 = 0 \<longleftrightarrow> \<not> bit (unat b) 7"
    using and_exp_eq_0_iff_not_bit [of b 7] by (simp add: bit_unsigned_iff)
  also have "\<dots> \<longleftrightarrow> even (unat b div 128)" by (simp add: bit_iff_odd)
  also have "unat b div 128 = (if unat b < 128 then 0 else 1)"
    using unsigned_less [of b] by (auto intro: div_nat_eqI)
  finally show ?thesis by simp
qed

lemma or_high_bit:
  fixes b :: byte
  assumes "unat b < 128"
  shows "unat (b OR 0x80) = unat b + 128"
proof -
  have "b AND 0x80 = 0" using assms by (simp add: high_bit)
  then have "b OR 0x80 = b + 0x80" by (simp add: disjunctive_add_eq_or)
  then show ?thesis using assms by (simp add: unat_word_ariths)
qed

lemma w_varint_leb: "w_varint x = leb (unat x)"
proof (induction x rule: w_varint.induct)
  case (1 x)
  have x': "unat (drop_bit 7 x) = unat x div 128" by (simp add: drop_bit_eq_div unat_div_distrib)
  have "unat (ucast (x AND 0x7f) :: byte) = unat x mod 128"
    unfolding unsigned_ucast_eq low_limb by (simp add: take_bit_eq_mod mod_mod_cancel)
  then have byte: "ucast (x AND 0x7f) = (of_nat (unat x mod 128) :: byte)"
    unfolding word_unat_eq_iff by (simp add: unat_of_nat)
  have high: "of_nat (unat x mod 128) OR 0x80 = (of_nat (unat x mod 128 + 128) :: byte)"
    unfolding word_unat_eq_iff by (subst or_high_bit) (simp_all only: unat_of_nat, simp_all)
  show ?case
  proof (cases "unat x < 128")
    case True
    then have "drop_bit 7 x = 0" using x' by (simp flip: unat_eq_zero)
    then show ?thesis using True
      by (subst w_varint.simps, subst leb.simps) (simp add: Let_def byte)
  next
    case False
    then have "drop_bit 7 x \<noteq> 0" using x' by (auto simp flip: unat_eq_zero)
    then show ?thesis using 1 x' False
      by (subst w_varint.simps, subst leb.simps) (simp add: Let_def byte high)
  qed
qed

text \<open>
  After \<open>k\<close> limbs the loop holds a value below \<open>2 ^ (7 * k)\<close> and reads the spelling of the rest \<open>m\<close>,
  which is not zero unless no limb was read, and fits what is left of 64 bits.
\<close>

definition limbs_left :: "64 word \<Rightarrow> nat \<Rightarrow> 64 word spelling" where
  "limbs_left x s y w c \<longleftrightarrow> (\<exists>m. w = leb m \<and> c = 0 \<and> unat y = unat x + m * 2 ^ s \<and>
     unat x + m * 2 ^ s < 2 ^ 64 \<and> (s \<noteq> 0 \<longrightarrow> m \<noteq> 0))"

lemma room_for_limb:
  fixes a v s :: nat
  assumes "a < 2 ^ s" "v * 2 ^ s < 2 ^ 64" "s \<le> 64"
  shows "a + v * 2 ^ s < 2 ^ 64"
proof -
  have split: "(2::nat) ^ 64 = 2 ^ (64 - s) * 2 ^ s" using assms(3) by (metis le_add_diff_inverse2 power_add)
  then have "v < 2 ^ (64 - s)" using assms(2) by (metis mult_less_cancel2)
  then have "Suc v * 2 ^ s \<le> 2 ^ (64 - s) * 2 ^ s" by (intro mult_le_mono1) simp
  then show ?thesis using assms(1) split by simp
qed

lemma or_limb:
  fixes x :: "64 word"
  assumes "unat x < 2 ^ s" "unat u * 2 ^ s < 2 ^ 64" "s \<le> 64"
  shows "unat (x OR push_bit s u) = unat x + unat u * 2 ^ s"
proof -
  have push: "unat (push_bit s u) = unat u * 2 ^ s"
    using assms(2) by (simp only: unsigned_push_bit_eq) (simp add: push_bit_eq_mult take_bit_eq_mod)
  have "bit (unat x) n \<Longrightarrow> n < s" for n
    using assms(1) by (metis bit_take_bit_iff take_bit_nat_eq_self)
  then have "bit x n \<Longrightarrow> n < s" for n
    by (simp add: bit_unsigned_iff)
  then have "x AND push_bit s u = 0"
    by (auto simp: bit_eq_iff bit_simps simp del: push_bit_eq_mult) (meson not_le)
  then have "x OR push_bit s u = x + push_bit s u" by (simp add: disjunctive_add_eq_or)
  then show ?thesis using room_for_limb [OF assms] by (simp only: unat_plus_if' push) simp
qed

lemma leb_Cons:
  "leb m = t # w \<longleftrightarrow> (if unat t < 128 then w = [] \<and> m = unat t
     else \<exists>m'. m' \<noteq> 0 \<and> m = unat t mod 128 + 128 * m' \<and> w = leb m')"
proof -
  have small: "of_nat n = t \<longleftrightarrow> n = unat t" if "n < 256" for n
    using that by (auto simp: word_unat_eq_iff unat_of_nat)
  have t: "unat t < 256" using unsigned_less [of t] by simp
  have high: "n + 128 = unat t \<longleftrightarrow> \<not> unat t < 128 \<and> n = unat t mod 128" if "n < 128" for n
    using that t by (auto simp: mod_if)
  show ?thesis
  proof (cases "m < 128")
    case True
    then show ?thesis using small [of m] t by (subst leb.simps) (auto simp: mod_if)
  next
    case False
    have "leb m = t # w \<longleftrightarrow> of_nat (m mod 128 + 128) = t \<and> leb (m div 128) = w"
      using False by (subst leb.simps) (simp only: if_False list.inject)
    also have "\<dots> \<longleftrightarrow> \<not> unat t < 128 \<and> m mod 128 = unat t mod 128 \<and> w = leb (m div 128)"
      using small [of "m mod 128 + 128"] high [of "m mod 128"] by (simp only:) auto
    also have "m mod 128 = unat t mod 128 \<and> w = leb (m div 128) \<longleftrightarrow>
        (\<exists>m'. m' \<noteq> 0 \<and> m = unat t mod 128 + 128 * m' \<and> w = leb m')"
    proof
      assume "m mod 128 = unat t mod 128 \<and> w = leb (m div 128)"
      moreover have "m = m mod 128 + 128 * (m div 128)" by simp
      ultimately show "\<exists>m'. m' \<noteq> 0 \<and> m = unat t mod 128 + 128 * m' \<and> w = leb m'"
        using False by (intro exI [of _ "m div 128"]) (simp add: div_eq_0_iff)
    qed auto
    finally show ?thesis using False by auto
  qed
qed

lemma top_limb: "t AND 0x7e = 0 \<longleftrightarrow> unat t mod 128 < 2" for t :: byte
proof -
  have "unat (t AND 0x7e) = unat t AND 126" by (simp add: unsigned_and_eq)
  also have "\<dots> = 2 * (unat t div 2 AND mask 6)" by (subst and_rec) (simp add: mask_eq_exp_minus_1)
  also have "\<dots> = 2 * (unat t div 2 mod 64)" by (simp add: take_bit_eq_mod flip: take_bit_eq_mask)
  finally have "unat (t AND 0x7e) = 0 \<longleftrightarrow> unat t div 2 mod 64 = 0" by simp
  also have "\<dots> \<longleftrightarrow> unat t mod 128 < 2" using mod_mult2_eq [of "unat t" 2 64] by auto
  finally show ?thesis by (simp only: unat_eq_zero)
qed

lemma reads_varint_loop:
  assumes "unat x < 2 ^ s" "7 dvd s" "s \<le> 70"
  shows "reads_as (rd_varint_loop x s) (limbs_left x s)"
  using assms
proof (induction x s rule: rd_varint_loop.induct)
  case (1 x s)
  define V where "V t y w' c \<longleftrightarrow> (\<exists>m. leb m = t # w' \<and> c = (0::nat) \<and> unat y = unat x + m * 2 ^ s \<and>
     unat x + m * 2 ^ s < 2 ^ 64 \<and> (s \<noteq> 0 \<longrightarrow> m \<noteq> 0))" for t :: byte and y :: "64 word" and w' c
  have "reads_as (rd_varint_loop x s) (\<lambda>y w c. \<exists>t w'. w = t # w' \<and> V t y w' c)"
    unfolding rd_varint_loop.simps [of x s]
  proof (rule reads_tag)
    fix t :: byte
    let ?v = "unat t mod 128" and ?u = "ucast (t AND 0x7f) :: 64 word"
    let ?x = "x OR push_bit s ?u"
    show "reads_as (if s = 63 \<and> t AND 0x7e \<noteq> 0 then rfail else if s > 63 then rfail
        else let x' = ?x in if t AND 0x80 = 0 then (if t = 0 \<and> s \<noteq> 0 then rfail else rret x')
             else rd_varint_loop x' (s + 7)) (V t)"
      (is "reads_as ?r _")
    proof (cases "s = 63 \<and> t AND 0x7e \<noteq> 0 \<or> s > 63")
      case True
      have "\<not> V t y w c" for y w c
      proof
        assume "V t y w c"
        then obtain m where m: "leb m = t # w" "m * 2 ^ s < 2 ^ 64" "m \<noteq> 0"
          using True by (auto simp: V_def)
        have "?v \<le> m" using m(1) unfolding leb_Cons by (cases "unat t < 128") auto
        then have two: "s = 63 \<Longrightarrow> 2 \<le> m" using True top_limb [of t] by auto
        have "2 ^ 64 \<le> m * 2 ^ s"
        proof (cases "s = 63")
          case False
          then have "(2::nat) ^ 64 \<le> 2 ^ s" using True by (intro power_increasing) simp_all
          then show ?thesis using m(3) by (simp add: mult_le_cancel2 order.trans [OF _ mult_le_mono1 [of 1 m]])
        qed (use two in simp)
        then show False using m(2) by simp
      qed
      then have V: "V t = (\<lambda>_ _ _. False)" by (intro ext) simp
      have r: "?r = rfail" using True by (cases "s > 63") simp_all
      show ?thesis unfolding r V by (rule reads_fail)
    next
      case False
      then have s: "s \<le> 63" by simp
      have u: "unat ?u = ?v"
        unfolding unsigned_ucast_eq low_limb
        by (rule take_bit_nat_eq_self) (rule less_trans [of _ 128], simp_all)
      have fits: "?v * 2 ^ s < 2 ^ 64"
      proof (cases "s = 63")
        case True
        then show ?thesis using False by (simp add: top_limb)
      next
        case False
        then have "(2::nat) ^ s \<le> 2 ^ 56"
          using s "1.prems"(2) by (intro power_increasing) (auto elim!: dvdE)
        then have "?v * 2 ^ s \<le> 127 * 2 ^ 56" by (intro mult_le_mono) simp_all
        then show ?thesis by simp
      qed
      have x': "unat ?x = unat x + ?v * 2 ^ s"
        using or_limb [OF "1.prems"(1), of ?u] fits s by (simp only: u)
      show ?thesis
      proof (cases "unat t < 128")
        case True
        then have r: "?r = (if t = 0 \<and> s \<noteq> 0 then rfail else rret ?x)"
          using False by (cases "s = 63") (simp_all add: high_bit Let_def)
        have "V t y w c \<longleftrightarrow> \<not> (t = 0 \<and> s \<noteq> 0) \<and> y = ?x \<and> w = [] \<and> c = 0" for y w c
        proof -
          have v: "?v = unat t" using True by simp
          have "V t y w c \<longleftrightarrow> w = [] \<and> c = 0 \<and> unat y = unat x + ?v * 2 ^ s \<and> (s \<noteq> 0 \<longrightarrow> unat t \<noteq> 0)"
            unfolding V_def leb_Cons v using True room_for_limb [OF "1.prems"(1) fits, unfolded v] s by auto
          also have "unat y = unat x + ?v * 2 ^ s \<longleftrightarrow> y = ?x" by (simp only: x' [symmetric] word_unat_eq_iff)
          also have "unat t \<noteq> 0 \<longleftrightarrow> t \<noteq> 0" by (simp only: unat_eq_zero)
          finally show ?thesis by blast
        qed
        then show ?thesis unfolding r using reads_fail reads_ret [of ?x]
          by (auto simp: spelt_def intro: reads_as_cong)
      next
        case high: False
        have r: "?r = rd_varint_loop ?x (s + 7)"
          using False high by (cases "s = 63") (simp_all add: high_bit Let_def)
        have "?v * 2 ^ s \<le> 127 * 2 ^ s" by (intro mult_le_mono) simp_all
        from add_less_le_mono [OF "1.prems"(1) this] have "unat ?x < 2 ^ (s + 7)"
          by (simp only: x' power_add) simp
        then have "reads_as ?r (limbs_left ?x (s + 7))"
          unfolding r using False high s "1.prems" by (intro "1.IH") (auto simp: high_bit)
        then show ?thesis
          by (rule reads_as_cong) (use high in \<open>auto simp: V_def limbs_left_def leb_Cons x' power_add algebra_simps\<close>)
      qed
    qed
  qed
  then show ?case
    by (rule reads_as_cong) (use leb_ex in \<open>auto simp: V_def limbs_left_def\<close>)
qed

lemma reads_varint: "reads_as rd_varint (spelt (\<lambda>_. True) w_varint (\<lambda>_. 0))"
proof -
  have "limbs_left 0 0 y w c \<longleftrightarrow> spelt (\<lambda>_. True) w_varint (\<lambda>_. 0) y w c" for y w c
    using unsigned_less [of y] by (auto simp: limbs_left_def spelt_def w_varint_leb)
  then show ?thesis
    unfolding rd_varint_def by (intro reads_as_cong [OF reads_varint_loop]) simp_all
qed

text \<open>No spelling of a varint is a proper prefix of another's.\<close>

lemma leb_prefix_free: "leb m @ x = leb n @ y \<Longrightarrow> m = n \<and> x = y"
proof (induction m arbitrary: n rule: leb.induct)
  case (1 m)
  obtain t w where w: "leb n = t # w" using leb_ex by blast
  with 1(2) obtain v where m: "leb m = t # v" "v @ x = w @ y" using leb_ex [of m] by auto
  show ?case
  proof (cases "unat t < 128")
    case True
    then show ?thesis using w m by (simp add: leb_Cons)
  next
    case False
    from w False obtain n' where n': "n = unat t mod 128 + 128 * n'" "w = leb n'" by (auto simp: leb_Cons)
    from m(1) False obtain m' where m': "m' \<noteq> 0" "m = unat t mod 128 + 128 * m'" "v = leb m'" by (auto simp: leb_Cons)
    have "m div 128 = m'" "\<not> m < 128" using m'(1,2) by auto
    from 1(1) [unfolded this(1), OF this(2)] m(2) show ?thesis unfolding m' n' by auto
  qed
qed

end
