(* ===== verification/PL_Codec.thy ===== *)
theory PL_Codec
  imports Codec_Bytes PL_Typing
begin

text \<open>
  The def byte format of \<^verbatim>\<open>src/crates/skep-coordination/src/codec.rs\<close>: the writer \<open>w_\<close>\ldots of a
  signed term, the reader \<open>rd_\<close>\ldots that accepts it back through its two doors, depth and budget,
  and \<^verbatim>\<open>stored_run\<close>, which hands out an encoding only if it reads back.

  \<^item> The byte forms of a \<^verbatim>\<open>BigUint\<close> belong to a third-party library, so they are the parameter
    \<open>nat_bytes\<close>; \<open>big_endian\<close> states what its documentation promises.
  \<^item> The tags are the numerals of \<^verbatim>\<open>mod tag\<close>; each reader tries them in the order of its match.
  \<^item> The readers recurse on the depth, which \<^verbatim>\<open>enter\<close> refuses past \<^verbatim>\<open>MAX_DEPTH\<close>: that refusal is the
    whole termination argument.
\<close>

section \<open>Writing\<close>

record nat_bytes =
  to_bytes_be :: "nat \<Rightarrow> byte list"
  from_bytes_be :: "byte list \<Rightarrow> nat"

definition canonical_bytes :: "byte list \<Rightarrow> bool" where
  "canonical_bytes bs \<longleftrightarrow> bs \<noteq> [] \<and> (hd bs = 0 \<longrightarrow> length bs = 1)"

definition big_endian :: "nat_bytes \<Rightarrow> bool" where
  "big_endian N \<longleftrightarrow> (\<forall>n. canonical_bytes (to_bytes_be N n) \<and> from_bytes_be N (to_bytes_be N n) = n) \<and>
     (\<forall>bs. canonical_bytes bs \<longrightarrow> to_bytes_be N (from_bytes_be N bs) = bs)"

definition w_count :: "nat \<Rightarrow> byte list" where
  "w_count n = w_varint (of_nat n)"

definition w_varid :: "var_id \<Rightarrow> byte list" where
  "w_varid v = w_varint (of_nat (var_index v))"

text \<open>A tuple sort has no tag: \<^verbatim>\<open>unreachable!\<close>.\<close>

fun sort_tag :: "sort \<Rightarrow> byte exec" where
  "sort_tag SBool = ret 1"
| "sort_tag SAddr = ret 2"
| "sort_tag SAddrSet = ret 3"
| "sort_tag SOptAddr = ret 4"
| "sort_tag SAddrSeq = ret 5"
| "sort_tag SMap = ret 6"
| "sort_tag SNat = ret 7"
| "sort_tag SOptNat = ret 8"
| "sort_tag STup = panic"

definition w_nat :: "nat_bytes \<Rightarrow> nat \<Rightarrow> byte list" where
  "w_nat N n = (let bytes = to_bytes_be N n in w_count (length bytes) @ bytes)"

definition w_tumbler :: "nat_bytes \<Rightarrow> tumbler \<Rightarrow> byte list" where
  "w_tumbler N t = w_count (tumbler_len t) @ concat (map (w_nat N) (comps t))"

definition w_addr :: "nat_bytes \<Rightarrow> address \<Rightarrow> byte list" where
  "w_addr N a = w_tumbler N (tumbler a)"

definition w_span :: "nat_bytes \<Rightarrow> span \<Rightarrow> byte list" where
  "w_span N s = w_tumbler N (start s) @ w_tumbler N (width s)"

definition w_endset :: "nat_bytes \<Rightarrow> endset \<Rightarrow> byte list" where
  "w_endset N e = w_count (length (endset_spans e)) @ concat (map (w_span N) (endset_spans e))"

fun w_typeref :: "nat_bytes \<Rightarrow> type_ref \<Rightarrow> byte list" where
  "w_typeref N (Concrete (TypeKey e)) = 1 # w_endset N e"
| "w_typeref N (ClassVar v) = 2 # w_varid v"

fun w_lit :: "nat_bytes \<Rightarrow> pl_lit \<Rightarrow> byte list" where
  "w_lit N LTrue = [1]"
| "w_lit N LFalse = [2]"
| "w_lit N (LNat n) = 3 # w_nat N n"
| "w_lit N (LAddr a) = 4 # w_addr N a"
| "w_lit N LBotAddr = [5]"
| "w_lit N LBotNat = [6]"

fun w_term :: "nat_bytes \<Rightarrow> pl_term \<Rightarrow> byte list"
  and w_atom :: "nat_bytes \<Rightarrow> pl_atom \<Rightarrow> byte list"
  and w_dom :: "nat_bytes \<Rightarrow> pl_dom \<Rightarrow> byte list"
  and w_prim :: "nat_bytes \<Rightarrow> pl_prim \<Rightarrow> byte list"
where
  "w_term N (Var v) = 1 # w_varid v"
| "w_term N (Lit l) = 2 # w_lit N l"
| "w_term N (Atom a) = 3 # w_atom N a"
| "w_term N (Prim p) = 4 # w_prim N p"
| "w_term N (And x y) = 5 # w_term N x @ w_term N y"
| "w_term N (Or x y) = 6 # w_term N x @ w_term N y"
| "w_term N (Not_t x) = 7 # w_term N x"
| "w_term N (Implies x y) = 8 # w_term N x @ w_term N y"
| "w_term N (Iff x y) = 9 # w_term N x @ w_term N y"
| "w_term N (Forall v d b) = 10 # w_varid v @ w_dom N d @ w_term N b"
| "w_term N (Exists v d b) = 11 # w_varid v @ w_dom N d @ w_term N b"
| "w_term N (Let_t v x b) = 12 # w_varid v @ w_term N x @ w_term N b"
| "w_term N (IfSome x v t e) = 13 # w_term N x @ w_varid v @ w_term N t @ w_term N e"
| "w_term N (Count d) = 14 # w_dom N d"
| "w_term N (MaxT1 d) = 15 # w_dom N d"
| "w_term N (MinT1 d) = 16 # w_dom N d"
| "w_term N (BigUnion d v b) = 17 # w_dom N d @ w_varid v @ w_term N b"
| "w_term N (Reflect d) = 18 # w_dom N d"
| "w_term N (Ref a args) = 19 # w_addr N a @ w_count (length args) @ concat (map (w_term N) args)"
| "w_atom N (IsK tr e) = 1 # w_typeref N tr @ w_term N e"
| "w_atom N (Members tr) = 2 # w_typeref N tr"
| "w_atom N (TargetsOf tr e) = 3 # w_typeref N tr @ w_term N e"
| "w_atom N (IsFiltered tr e) = 4 # w_typeref N tr @ w_term N e"
| "w_atom N (Succs tr e) = 5 # w_typeref N tr @ w_term N e"
| "w_atom N (Chain tr e) = 6 # w_typeref N tr @ w_term N e"
| "w_atom N (Tip tr e) = 7 # w_typeref N tr @ w_term N e"
| "w_atom N (IsInChain tr x y) = 8 # w_typeref N tr @ w_term N x @ w_term N y"
| "w_atom N (SourcesTo tr e) = 9 # w_typeref N tr @ w_term N e"
| "w_atom N (TargetOf tr e) = 10 # w_typeref N tr @ w_term N e"
| "w_atom N (TargetsKeyed e) = 11 # w_term N e"
| "w_atom N (Age tr e) = 12 # w_typeref N tr @ w_term N e"
| "w_atom N (Stale tr e) = 13 # w_typeref N tr @ w_term N e"
| "w_atom N (IsDoc e) = 14 # w_term N e"
| "w_atom N (TupAddr v) = 15 # w_varid v"
| "w_atom N (TupAddrsF v) = 16 # w_varid v"
| "w_atom N (TupAddrsG v) = 17 # w_varid v"
| "w_atom N (InCoverageF e v) = 18 # w_term N e @ w_varid v"
| "w_atom N (InCoverageG e v) = 19 # w_term N e @ w_varid v"
| "w_dom N (MembersDom tr) = 1 # w_typeref N tr"
| "w_dom N (ActiveSlice tr) = 2 # w_typeref N tr"
| "w_dom N (AuditSlice tr) = 3 # w_typeref N tr"
| "w_dom N LinkDom = [4]"
| "w_dom N Reg = [5]"
| "w_dom N (Filter d v p) = 6 # w_dom N d @ w_varid v @ w_term N p"
| "w_dom N (SetTerm t) = 7 # w_term N t"
| "w_prim N (AddrEq x y) = 1 # w_term N x @ w_term N y"
| "w_prim N (Prefix x y) = 2 # w_term N x @ w_term N y"
| "w_prim N (T1Lt x y) = 3 # w_term N x @ w_term N y"
| "w_prim N (SetMem x y) = 4 # w_term N x @ w_term N y"
| "w_prim N (SetEq x y) = 5 # w_term N x @ w_term N y"
| "w_prim N (IsEmpty x) = 6 # w_term N x"
| "w_prim N (Elems x) = 7 # w_term N x"
| "w_prim N (NatEq x y) = 8 # w_term N x @ w_term N y"
| "w_prim N (NatLe x y) = 9 # w_term N x @ w_term N y"
| "w_prim N (NatAdd x y) = 10 # w_term N x @ w_term N y"
| "w_prim N (MapGet m tr) = 11 # w_term N m @ w_typeref N tr"
| "w_prim N (Def x) = 12 # w_term N x"

definition w_param :: "var_id \<times> sort \<Rightarrow> byte list exec" where
  "w_param p = do { t \<leftarrow> sort_tag (snd p); ret (w_varid (fst p) @ [t]) }"

definition encode :: "nat_bytes \<Rightarrow> signed_term \<Rightarrow> byte list exec" where
  "encode N sg = do {
     ps \<leftarrow> exec_map w_param (st_params sg);
     let payload = w_count (length (st_params sg)) @ concat ps @ w_term N (st_body sg);
     ret (w_count (length payload) @ payload) }"

section \<open>Reading\<close>

definition rd_varid :: "var_id rdr" where
  "rd_varid = rbind rd_varint (\<lambda>x.
     if unat x < 2 ^ 32 then (case VarId_new (unat x) of Some v \<Rightarrow> rret v | None \<Rightarrow> rfail) else rfail)"

definition rd_sort :: "sort rdr" where
  "rd_sort = rbind rd_u8 (\<lambda>t.
     if t = 1 then rret SBool else if t = 2 then rret SAddr else if t = 3 then rret SAddrSet
     else if t = 4 then rret SOptAddr else if t = 5 then rret SAddrSeq else if t = 6 then rret SMap
     else if t = 7 then rret SNat else if t = 8 then rret SOptNat else rfail)"

text \<open>\<^verbatim>\<open>self.b.get(self.pos..).and_then(|rest| rest.get(..len))\<close>, and the cursor past it.\<close>

definition rd_take :: "nat \<Rightarrow> byte list rdr" where
  "rd_take len st =
     (if rd_pos st \<le> length (rd_b st) \<and> len \<le> length (rd_b st) - rd_pos st
      then ok (take len (drop (rd_pos st) (rd_b st)), st\<lparr>rd_pos := rd_pos st + len\<rparr>) else err Malformed)"

definition rd_nat :: "nat_bytes \<Rightarrow> nat rdr" where
  "rd_nat N = rbind rd_len_prefix (\<lambda>len.
     rbind (rd_charge ((len + 7) div 8)) (\<lambda>_.
     rbind (rd_take len) (\<lambda>bytes.
       if bytes = [] \<or> (hd bytes = 0 \<and> tl bytes \<noteq> []) then rfail else rret (from_bytes_be N bytes))))"

definition lift_err :: "('a, 'e) result exec \<Rightarrow> 'a rdr" where
  "lift_err r st = (case r of None \<Rightarrow> panic | Some (Inl e) \<Rightarrow> err Malformed | Some (Inr x) \<Rightarrow> ok (x, st))"

definition rd_tumbler :: "nat_bytes \<Rightarrow> tumbler rdr" where
  "rd_tumbler N = rbind rd_len_prefix (\<lambda>n.
     if n = 0 then rfail
     else rd_bound n (rbind (rd_charge n) (\<lambda>_.
       rbind (rd_times n (rd_nat N)) (\<lambda>cs. lift_err (ret (Tumbler_new cs))))))"

definition rd_addr :: "nat_bytes \<Rightarrow> address rdr" where
  "rd_addr N = rbind (rd_tumbler N) (\<lambda>t. lift_err (validate t))"

definition rd_span :: "nat_bytes \<Rightarrow> span rdr" where
  "rd_span N = rbind (rd_tumbler N) (\<lambda>s. rbind (rd_tumbler N) (\<lambda>w. lift_err (ret (Span_new s w))))"

definition rd_endset :: "nat_bytes \<Rightarrow> endset rdr" where
  "rd_endset N = rbind rd_len_prefix (\<lambda>n. rd_bound n (rbind (rd_charge n) (\<lambda>_.
     rmap from_spans (rd_times n (rd_span N)))))"

definition rd_typeref :: "nat_bytes \<Rightarrow> type_ref rdr" where
  "rd_typeref N = rbind rd_u8 (\<lambda>t.
     if t = 1 then rmap (\<lambda>e. Concrete (TypeKey e)) (rd_endset N)
     else if t = 2 then rmap ClassVar rd_varid else rfail)"

definition rd_lit :: "nat_bytes \<Rightarrow> pl_lit rdr" where
  "rd_lit N = rbind rd_u8 (\<lambda>t.
     if t = 1 then rret LTrue else if t = 2 then rret LFalse else if t = 3 then rmap LNat (rd_nat N)
     else if t = 4 then rmap LAddr (rd_addr N) else if t = 5 then rret LBotAddr
     else if t = 6 then rret LBotNat else rfail)"

text \<open>\<open>rt\<close> reads a child term at the children's depth.\<close>

definition rd_atom :: "nat_bytes \<Rightarrow> pl_term rdr \<Rightarrow> pl_atom rdr" where
  "rd_atom N rt = rbind rd_u8 (\<lambda>t.
     if t = 1 then rmap2 IsK (rd_typeref N) rt
     else if t = 2 then rmap Members (rd_typeref N)
     else if t = 3 then rmap2 TargetsOf (rd_typeref N) rt
     else if t = 4 then rmap2 IsFiltered (rd_typeref N) rt
     else if t = 5 then rmap2 Succs (rd_typeref N) rt
     else if t = 6 then rmap2 Chain (rd_typeref N) rt
     else if t = 7 then rmap2 Tip (rd_typeref N) rt
     else if t = 8 then rmap3 IsInChain (rd_typeref N) rt rt
     else if t = 9 then rmap2 SourcesTo (rd_typeref N) rt
     else if t = 10 then rmap2 TargetOf (rd_typeref N) rt
     else if t = 11 then rmap TargetsKeyed rt
     else if t = 12 then rmap2 Age (rd_typeref N) rt
     else if t = 13 then rmap2 Stale (rd_typeref N) rt
     else if t = 14 then rmap IsDoc rt
     else if t = 15 then rmap TupAddr rd_varid
     else if t = 16 then rmap TupAddrsF rd_varid
     else if t = 17 then rmap TupAddrsG rd_varid
     else if t = 18 then rmap2 InCoverageF rt rd_varid
     else if t = 19 then rmap2 InCoverageG rt rd_varid
     else rfail)"

definition rd_prim :: "nat_bytes \<Rightarrow> pl_term rdr \<Rightarrow> pl_prim rdr" where
  "rd_prim N rt = rbind rd_u8 (\<lambda>t.
     if t = 1 then rmap2 AddrEq rt rt
     else if t = 2 then rmap2 Prefix rt rt
     else if t = 3 then rmap2 T1Lt rt rt
     else if t = 4 then rmap2 SetMem rt rt
     else if t = 5 then rmap2 SetEq rt rt
     else if t = 6 then rmap IsEmpty rt
     else if t = 7 then rmap Elems rt
     else if t = 8 then rmap2 NatEq rt rt
     else if t = 9 then rmap2 NatLe rt rt
     else if t = 10 then rmap2 NatAdd rt rt
     else if t = 11 then rmap2 MapGet rt (rd_typeref N)
     else if t = 12 then rmap Def rt
     else rfail)"

text \<open>The two doors at every former, then the former itself.\<close>

definition rd_enter :: "nat \<Rightarrow> 'a rdr \<Rightarrow> 'a rdr" where
  "rd_enter depth r = (if depth > MAX_DEPTH then rfail else rbind (rd_charge 1) (\<lambda>_. r))"

lemma rd_enter_cong [fundef_cong]:
  "depth = depth' \<Longrightarrow> (depth' \<le> MAX_DEPTH \<Longrightarrow> r = r') \<Longrightarrow> rd_enter depth r = rd_enter depth' r'"
  by (simp add: rd_enter_def)

definition rd_ref :: "nat_bytes \<Rightarrow> pl_term rdr \<Rightarrow> pl_term rdr" where
  "rd_ref N rt = rbind (rd_addr N) (\<lambda>a. rbind rd_len_prefix (\<lambda>n.
     rd_bound n (rbind (rd_charge n) (\<lambda>_. rmap (Ref a) (rd_times n rt)))))"

definition rd_former :: "nat_bytes \<Rightarrow> pl_term rdr \<Rightarrow> pl_dom rdr \<Rightarrow> pl_term rdr" where
  "rd_former N rt rdm = rbind rd_u8 (\<lambda>t.
     if t = 1 then rmap Var rd_varid
     else if t = 2 then rmap Lit (rd_lit N)
     else if t = 3 then rmap Atom (rd_atom N rt)
     else if t = 4 then rmap Prim (rd_prim N rt)
     else if t = 5 then rmap2 And rt rt
     else if t = 6 then rmap2 Or rt rt
     else if t = 7 then rmap Not_t rt
     else if t = 8 then rmap2 Implies rt rt
     else if t = 9 then rmap2 Iff rt rt
     else if t = 10 then rmap3 Forall rd_varid rdm rt
     else if t = 11 then rmap3 Exists rd_varid rdm rt
     else if t = 12 then rmap3 Let_t rd_varid rt rt
     else if t = 13 then rmap4 IfSome rt rd_varid rt rt
     else if t = 14 then rmap Count rdm
     else if t = 15 then rmap MaxT1 rdm
     else if t = 16 then rmap MinT1 rdm
     else if t = 17 then rmap3 BigUnion rdm rd_varid rt
     else if t = 18 then rmap Reflect rdm
     else if t = 19 then rd_ref N rt
     else rfail)"

definition rd_dom_former :: "nat_bytes \<Rightarrow> pl_term rdr \<Rightarrow> pl_dom rdr \<Rightarrow> pl_dom rdr" where
  "rd_dom_former N rt rdm = rbind rd_u8 (\<lambda>t.
     if t = 1 then rmap MembersDom (rd_typeref N)
     else if t = 2 then rmap ActiveSlice (rd_typeref N)
     else if t = 3 then rmap AuditSlice (rd_typeref N)
     else if t = 4 then rret LinkDom
     else if t = 5 then rret Reg
     else if t = 6 then rmap3 Filter rdm rd_varid rt
     else if t = 7 then rmap SetTerm rt
     else rfail)"

function rd_term :: "nat_bytes \<Rightarrow> nat \<Rightarrow> pl_term rdr" and rd_dom :: "nat_bytes \<Rightarrow> nat \<Rightarrow> pl_dom rdr" where
  "rd_term N depth = rd_enter depth (rd_former N (rd_term N (depth + 1)) (rd_dom N (depth + 1)))"
| "rd_dom N depth = rd_enter depth (rd_dom_former N (rd_term N (depth + 1)) (rd_dom N (depth + 1)))"
  by pat_completeness auto
termination
  by (relation "measure (case_sum (\<lambda>(_, depth). Suc MAX_DEPTH - depth) (\<lambda>(_, depth). Suc MAX_DEPTH - depth))")
    auto

declare rd_term.simps [simp del] rd_dom.simps [simp del]

text \<open>\<open>rd_signed\<close> is \<^verbatim>\<open>Rd::signed\<close>: the envelope, then the parameters and the body up to the last byte.\<close>

definition rd_end :: "'a \<Rightarrow> 'a rdr" where
  "rd_end x st = (if rd_pos st \<noteq> length (rd_b st) then err Malformed else ok (x, st))"

definition rd_payload :: "nat_bytes \<Rightarrow> nat \<Rightarrow> signed_term rdr" where
  "rd_payload N len = rbind rd_len_prefix (\<lambda>n_params.
     if n_params > len then rfail
     else rbind (rd_charge n_params) (\<lambda>_.
       rbind (rd_times n_params (rmap2 Pair rd_varid rd_sort)) (\<lambda>params.
         rbind (rd_term N 0) (\<lambda>body. rd_end \<lparr>st_params = params, st_body = body\<rparr>))))"

definition rd_signed :: "nat_bytes \<Rightarrow> signed_term rdr" where
  "rd_signed N = rbind rd_len_prefix (\<lambda>len st.
     if rd_pos st \<le> length (rd_b st) \<and> length (rd_b st) - rd_pos st = len then rd_payload N len st
     else err Malformed)"

definition decode :: "nat_bytes \<Rightarrow> byte list \<Rightarrow> (signed_term, malformed) result exec" where
  "decode N bytes = and_then (rd_signed N \<lparr>rd_b = bytes, rd_pos = 0, rd_nodes = 0\<rparr>) (\<lambda>(x, st). ok x)"

datatype unstorable = Unstorable

definition stored_run :: "nat_bytes \<Rightarrow> typed_term \<Rightarrow> (byte list, unstorable) result exec" where
  "stored_run N term = do {
     bytes \<leftarrow> encode N (tt_signed term);
     r \<leftarrow> decode N bytes;
     ret (case r of Ok _ \<Rightarrow> Ok bytes | Err Malformed \<Rightarrow> Err Unstorable) }"

section \<open>What each reader accepts\<close>

lemma reads_map_spelt:
  "reads_as r (spelt P W C) \<Longrightarrow> reads_as (rmap K r) (\<lambda>y w c. \<exists>x. y = K x \<and> P x \<and> w = W x \<and> c = C x)"
  by (drule reads_map [of _ _ K]) (simp add: spelt_def)

lemma reads_unit: "reads_as (rret x) (\<lambda>y w c. y = x \<and> w = [] \<and> c = 0)"
  by (rule reads_as_cong [OF reads_ret]) (auto simp: spelt_def)

lemmas branch_rules = reads_if reads_fail reads_unit reads_map_spelt reads_map2 reads_map3 reads_map4

lemma w_count_unat: "w_count (unat x) = w_varint x"
  by (simp add: w_count_def)

text \<open>A count that fits 64 bits reads back; the reader's buffer bounds it.\<close>

lemma reads_len_prefix: "reads_as rd_len_prefix (spelt (\<lambda>n. n < 2 ^ 64) w_count (\<lambda>_. 0))"
  unfolding rd_len_prefix_def
proof (rule reads_as_cong [OF reads_map_spelt [OF reads_varint]])
  fix n w c
  have "n = unat x \<longleftrightarrow> n < 2 ^ 64 \<and> x = of_nat n" for x :: "64 word"
    using unsigned_less [of x] by (auto simp: unat_of_nat)
  then show "(\<exists>x. n = unat x \<and> True \<and> w = w_varint x \<and> c = 0) \<longleftrightarrow> spelt (\<lambda>n. n < 2 ^ 64) w_count (\<lambda>_. 0) n w c"
    by (auto simp: spelt_def w_count_def)
qed

definition plain_var :: "var_id \<Rightarrow> bool" where
  "plain_var v \<longleftrightarrow> var_index v < EXPANSION_NAME_BASE"

lemma reads_varid: "reads_as rd_varid (spelt plain_var w_varid (\<lambda>_. 0))"
proof -
  let ?U = "\<lambda>(x :: 64 word) v w c. unat x < EXPANSION_NAME_BASE \<and> v = VarId (unat x) \<and> w = [] \<and> c = (0::nat)"
  have "reads_as rd_varid (then_reads (spelt (\<lambda>_. True) w_varint (\<lambda>_. 0)) ?U)"
    unfolding rd_varid_def
  proof (rule reads_bind [OF reads_varint])
    fix x :: "64 word"
    have r: "(if unat x < 2 ^ 32 then (case VarId_new (unat x) of Some v \<Rightarrow> rret v | None \<Rightarrow> rfail) else rfail)
      = (if unat x < EXPANSION_NAME_BASE then rret (VarId (unat x)) else rfail)"
      by (simp add: VarId_new_def EXPANSION_NAME_BASE_def)
    show "reads_as (if unat x < 2 ^ 32 then (case VarId_new (unat x) of Some v \<Rightarrow> rret v | None \<Rightarrow> rfail) else rfail) (?U x)"
      unfolding r by (rule reads_as_cong [OF reads_if [OF reads_unit reads_fail]]) auto
  qed
  then show ?thesis
  proof (rule reads_as_cong)
    fix v w c
    have v: "v = VarId (unat x) \<longleftrightarrow> var_index v < 2 ^ 64 \<and> x = of_nat (var_index v)" for x :: "64 word"
      using unsigned_less [of x] by (cases v) (auto simp: unat_of_nat)
    show "then_reads (spelt (\<lambda>_. True) w_varint (\<lambda>_. 0)) ?U v w c \<longleftrightarrow> spelt plain_var w_varid (\<lambda>_. 0) v w c"
      by (auto simp: then_reads_def spelt_def v w_varid_def plain_var_def EXPANSION_NAME_BASE_def unat_of_nat)
  qed
qed

lemma reads_sort: "reads_as rd_sort (\<lambda>s w c. \<exists>t. sort_tag s = ret t \<and> w = [t] \<and> c = 0)"
  unfolding rd_sort_def
  apply (rule reads_as_cong)
   apply (rule reads_tag, (rule branch_rules)+)
  subgoal for s w c by (cases s) (auto simp: if_bool_eq_disj split del: if_split)
  done

definition units_nat :: "nat_bytes \<Rightarrow> nat \<Rightarrow> nat" where
  "units_nat N n = (length (to_bytes_be N n) + 7) div 8"

lemma reads_take: "reads_as (rd_take len) (\<lambda>bs w c. length bs = len \<and> w = bs \<and> c = 0)"
proof (rule reads_asI)
  fix st bs st' assume "rd_ok st"
  then have "rd_pos st \<le> length (rd_b st)" "rd_nodes st \<le> MAX_TERM_NODES" by (simp_all add: rd_ok_def)
  moreover have "length bs = len \<and> prefix bs (rd_rest st) \<longleftrightarrow> len \<le> length (rd_rest st) \<and> bs = take len (rd_rest st)"
    by (auto simp: prefix_def) (metis append_take_drop_id)
  ultimately show "rd_take len st = ok (bs, st') \<longleftrightarrow> accepts (\<lambda>bs w c. length bs = len \<and> w = bs \<and> c = 0) st bs st'"
    by (auto simp: rd_take_def accepts_def rd_rest_def rd_adv_def)
qed (simp add: rd_take_def)

text \<open>What is dearer than the whole budget never matters.\<close>

lemma reads_as_within:
  assumes "reads_as r V" "\<And>x w c. c \<le> MAX_TERM_NODES \<Longrightarrow> V x w c \<longleftrightarrow> U x w c"
  shows "reads_as r U"
proof -
  have "accepts V st x st' \<longleftrightarrow> accepts U st x st'" for st x st'
    using assms(2) unfolding accepts_def by (metis add_leD2)
  then show ?thesis using assms(1) by (simp add: reads_as_def)
qed

lemma reads_lift_err:
  "(\<And>x. r \<noteq> panic) \<Longrightarrow> reads_as (lift_err r) (\<lambda>y w c. r = ok y \<and> w = [] \<and> c = 0)"
  by (rule reads_asI) (auto simp: lift_err_def accepts_def rd_ok_def split: sum.splits)

lemma canonical_iff: "bs = [] \<or> hd bs = 0 \<and> tl bs \<noteq> [] \<longleftrightarrow> \<not> canonical_bytes bs"
  by (cases bs) (auto simp: canonical_bytes_def)

lemma reads_count:
  assumes "\<And>n. n < 2 ^ 64 \<Longrightarrow> reads_as (f n) (U n)"
  shows "reads_as (rbind rd_len_prefix f) (\<lambda>y w c. \<exists>n w'. n < 2 ^ 64 \<and> w = w_count n @ w' \<and> U n y w' c)"
  by (rule reads_as_cong [OF reads_bind [OF reads_len_prefix]])
    (use assms in \<open>auto simp: then_reads_def spelt_def\<close>)

lemma reads_charged:
  "reads_as r U \<Longrightarrow> reads_as (rbind (rd_charge k) (\<lambda>_. r)) (\<lambda>y w c. \<exists>c'. c = k + c' \<and> U y w c')"
  by (rule reads_as_cong [OF reads_bind [OF reads_charge]]) (auto simp: then_reads_def spelt_def)

lemma reads_taken:
  assumes "\<And>bs. reads_as (f bs) (U bs)"
  shows "reads_as (rbind (rd_take len) f) (\<lambda>y w c. \<exists>bs w'. length bs = len \<and> w = bs @ w' \<and> U bs y w' c)"
  by (rule reads_as_cong [OF reads_bind [OF reads_take assms]]) (auto simp: then_reads_def)

lemma reads_nat:
  assumes "big_endian N"
  shows "reads_as (rd_nat N) (spelt (\<lambda>_. True) (w_nat N) (units_nat N))"
  unfolding rd_nat_def canonical_iff
proof (rule reads_as_within, (rule reads_count reads_charged reads_taken branch_rules)+, goal_cases)
  case (1 n w c)
  have "length (to_bytes_be N n) < 2 ^ 64" if "c = units_nat N n"
    using that 1 by (simp add: MAX_TERM_NODES_def units_nat_def)
  then show ?case (is "?L \<longleftrightarrow> _")
    unfolding spelt_def
  proof (intro iffI)
    assume ?L
    then obtain bs where "canonical_bytes bs" "n = from_bytes_be N bs" "w = w_count (length bs) @ bs"
      "c = (length bs + 7) div 8"
      by (auto split: if_splits)
    then show "True \<and> w = w_nat N n \<and> c = units_nat N n"
      using assms by (simp add: big_endian_def w_nat_def units_nat_def)
  next
    assume "True \<and> w = w_nat N n \<and> c = units_nat N n"
    then show ?L
      using assms \<open>c = units_nat N n \<Longrightarrow> _\<close>
      by (intro exI [of _ "length (to_bytes_be N n)"] exI [of _ "to_bytes_be N n"] exI [of _ 0]
          exI [of _ "[]"] conjI)
        (simp_all add: big_endian_def w_nat_def units_nat_def Let_def)
  qed
qed

definition units_tumbler :: "nat_bytes \<Rightarrow> tumbler \<Rightarrow> nat" where
  "units_tumbler N t = tumbler_len t + sum_list (map (units_nat N) (comps t))"

lemma w_varint_not_Nil [simp]: "w_varint x \<noteq> []"
  by (metis leb_ex list.distinct(1) w_varint_leb)

lemma w_count_not_Nil [simp]: "w_count n \<noteq> []"
  by (simp add: w_count_def)

lemma items_length: "(\<And>x. x \<in> set xs \<Longrightarrow> W x \<noteq> []) \<Longrightarrow> length xs \<le> length (concat (map W xs))"
proof (induction xs)
  case (Cons x xs)
  then have "length xs \<le> length (concat (map W xs))" "W x \<noteq> []" by simp_all
  then show ?case by (cases "W x") simp_all
qed simp

lemma w_not_Nil [simp]: "w_nat N n \<noteq> []" "w_tumbler N t \<noteq> []" "w_addr N a \<noteq> []" "w_span N s \<noteq> []"
  by (simp_all add: w_nat_def w_tumbler_def w_addr_def w_span_def Let_def)

lemma Tumbler_new_comps: "Tumbler_new cs = Ok t \<longleftrightarrow> cs = comps t"
  by (cases cs; cases t) auto

lemma reads_tumbler:
  assumes N: "big_endian N"
  shows "reads_as (rd_tumbler N) (spelt (\<lambda>_. True) (w_tumbler N) (units_tumbler N))"
proof -
  have read: "reads_as (rbind (rd_times n (rd_nat N)) (\<lambda>cs. lift_err (ret (Tumbler_new cs))))
      (\<lambda>t w c. length (comps t) = n \<and> w = concat (map (w_nat N) (comps t)) \<and> c = sum_list (map (units_nat N) (comps t)))"
    for n
    by (rule reads_as_cong [OF reads_bind [OF reads_times [OF reads_nat [OF N]] reads_lift_err]])
      (auto simp: then_reads_def spelt_def Tumbler_new_comps list_all_iff)
  have "reads_as (rd_bound n (rbind (rd_charge n) (\<lambda>_.
       rbind (rd_times n (rd_nat N)) (\<lambda>cs. lift_err (ret (Tumbler_new cs))))))
      (\<lambda>t w c. length (comps t) = n \<and> w = concat (map (w_nat N) (comps t)) \<and>
         c = n + sum_list (map (units_nat N) (comps t)))" for n
    by (rule reads_bound [OF reads_as_cong [OF reads_charged [OF read]]])
      (auto intro: items_length)
  from reads_count [OF reads_if [OF reads_fail this]] show ?thesis
    unfolding rd_tumbler_def
  proof (rule reads_as_within)
    fix t :: tumbler and w and c :: nat
    assume "c \<le> MAX_TERM_NODES"
    then show "(\<exists>n w'. n < 2 ^ 64 \<and> w = w_count n @ w' \<and> (if n = 0 then False else length (comps t) = n \<and>
        w' = concat (map (w_nat N) (comps t)) \<and> c = n + sum_list (map (units_nat N) (comps t)))) \<longleftrightarrow>
      spelt (\<lambda>_. True) (w_tumbler N) (units_tumbler N) t w c"
      by (auto simp: spelt_def w_tumbler_def units_tumbler_def tumbler_len_def MAX_TERM_NODES_def
          if_bool_eq_disj split del: if_split)
  qed
qed

lemma reads_addr:
  assumes N: "big_endian N"
  shows "reads_as (rd_addr N) (spelt wf_address (w_addr N) (\<lambda>a. units_tumbler N (tumbler a)))"
  unfolding rd_addr_def
proof (rule reads_as_cong [OF reads_bind [OF reads_tumbler [OF N] reads_lift_err]])
  have "validate t = ok a \<longleftrightarrow> wf_address a \<and> t = tumbler a" for t a
    by (cases a) (auto simp: validate_eq wf_address_def)
  then show "then_reads (spelt (\<lambda>_. True) (w_tumbler N) (units_tumbler N))
      (\<lambda>t a w c. validate t = ok a \<and> w = [] \<and> c = 0) a w c \<longleftrightarrow>
    spelt wf_address (w_addr N) (\<lambda>a. units_tumbler N (tumbler a)) a w c" for a w c
    by (auto simp: then_reads_def spelt_def w_addr_def)
qed (simp add: validate_eq)

definition units_span :: "nat_bytes \<Rightarrow> span \<Rightarrow> nat" where
  "units_span N s = units_tumbler N (start s) + units_tumbler N (width s)"

lemma reads_span:
  assumes N: "big_endian N"
  shows "reads_as (rd_span N) (spelt wf_span (w_span N) (units_span N))"
  unfolding rd_span_def
  by (rule reads_as_cong [OF reads_bind [OF reads_tumbler [OF N]
        reads_bind [OF reads_tumbler [OF N] reads_lift_err]]])
    (auto simp: then_reads_def spelt_def w_span_def units_span_def Span_new_Ok_iff)

definition units_endset :: "nat_bytes \<Rightarrow> endset \<Rightarrow> nat" where
  "units_endset N e = length (endset_spans e) + sum_list (map (units_span N) (endset_spans e))"

lemma reads_endset:
  assumes N: "big_endian N"
  shows "reads_as (rd_endset N) (spelt wf_endset (w_endset N) (units_endset N))"
proof -
  have "reads_as (rd_bound n (rbind (rd_charge n) (\<lambda>_. rmap from_spans (rd_times n (rd_span N)))))
      (\<lambda>e w c. wf_endset e \<and> length (endset_spans e) = n \<and> w = concat (map (w_span N) (endset_spans e)) \<and>
         c = units_endset N e)" for n
  proof (rule reads_bound [OF reads_as_cong [OF reads_charged [OF reads_map_spelt [OF reads_times [OF reads_span [OF N]]]]]])
    show "(\<exists>c'. c = n + c' \<and> (\<exists>x. e = from_spans x \<and> (length x = n \<and> list_all wf_span x) \<and>
        w = concat (map (w_span N) x) \<and> c' = sum_list (map (units_span N) x))) \<longleftrightarrow>
      wf_endset e \<and> length (endset_spans e) = n \<and> w = concat (map (w_span N) (endset_spans e)) \<and>
        c = units_endset N e" for e w c
      by (cases e) (auto simp: wf_endset_def units_endset_def from_spans_def list_all_iff)
  qed (auto intro: items_length)
  from reads_count [OF this] show ?thesis
    unfolding rd_endset_def
    by (rule reads_as_within)
      (auto simp: spelt_def w_endset_def units_endset_def MAX_TERM_NODES_def)
qed

fun units_typeref :: "nat_bytes \<Rightarrow> type_ref \<Rightarrow> nat" where
  "units_typeref N (Concrete (TypeKey e)) = units_endset N e"
| "units_typeref N (ClassVar v) = 0"

fun plain_typeref :: "type_ref \<Rightarrow> bool" where
  "plain_typeref (Concrete (TypeKey e)) \<longleftrightarrow> wf_endset e"
| "plain_typeref (ClassVar v) \<longleftrightarrow> plain_var v"

lemma reads_typeref:
  assumes N: "big_endian N"
  shows "reads_as (rd_typeref N) (spelt plain_typeref (w_typeref N) (units_typeref N))"
  unfolding rd_typeref_def
proof (rule reads_as_cong, (rule reads_tag branch_rules reads_endset [OF N] reads_varid)+)
  fix tr w c
  show "(\<exists>t w'. w = t # w' \<and> (if t = 1 then \<exists>x. tr = Concrete (TypeKey x) \<and> wf_endset x \<and> w' = w_endset N x \<and> c = units_endset N x
      else if t = 2 then \<exists>x. tr = ClassVar x \<and> plain_var x \<and> w' = w_varid x \<and> c = 0 else False)) \<longleftrightarrow>
    spelt plain_typeref (w_typeref N) (units_typeref N) tr w c"
    by (cases "(N, tr)" rule: units_typeref.cases)
      (auto simp: spelt_def if_bool_eq_disj split del: if_split)
qed

fun units_lit :: "nat_bytes \<Rightarrow> pl_lit \<Rightarrow> nat" where
  "units_lit N (LNat n) = units_nat N n"
| "units_lit N (LAddr a) = units_tumbler N (tumbler a)"
| "units_lit N _ = 0"

fun plain_lit :: "pl_lit \<Rightarrow> bool" where
  "plain_lit (LAddr a) \<longleftrightarrow> wf_address a"
| "plain_lit _ \<longleftrightarrow> True"

lemma reads_lit:
  assumes N: "big_endian N"
  shows "reads_as (rd_lit N) (spelt plain_lit (w_lit N) (units_lit N))"
  unfolding rd_lit_def
  apply (rule reads_as_cong)
   apply (rule reads_tag, (rule branch_rules reads_nat [OF N] reads_addr [OF N])+)
  subgoal for l w c by (cases l) (auto simp: spelt_def if_bool_eq_disj split del: if_split)
  done

text \<open>The type positions, the variables and the payload prices of a node alone.\<close>

fun atom_vars :: "pl_atom \<Rightarrow> var_id list" where
  "atom_vars (TupAddr v) = [v]"
| "atom_vars (TupAddrsF v) = [v]"
| "atom_vars (TupAddrsG v) = [v]"
| "atom_vars (InCoverageF e v) = [v]"
| "atom_vars (InCoverageG e v) = [v]"
| "atom_vars _ = []"

definition atom_typerefs :: "pl_atom \<Rightarrow> type_ref list" where
  "atom_typerefs a = term_typerefs (Atom a)"

fun prim_typerefs :: "pl_prim \<Rightarrow> type_ref list" where
  "prim_typerefs (MapGet m tr) = [tr]"
| "prim_typerefs _ = []"

lemma reads_atom:
  assumes N: "big_endian N" and rt: "reads_as rt (spelt P (w_term N) C)"
  shows "reads_as (rd_atom N rt) (spelt
    (\<lambda>a. list_all P (atom_kids a) \<and> list_all plain_typeref (atom_typerefs a) \<and> list_all plain_var (atom_vars a))
    (w_atom N) (\<lambda>a. sum_list (map (units_typeref N) (atom_typerefs a)) + sum_list (map C (atom_kids a))))"
  unfolding rd_atom_def
  apply (rule reads_as_cong)
   apply (rule reads_tag, (rule branch_rules rt reads_typeref [OF N] reads_varid)+)
  subgoal for a w c
    by (cases a) (auto simp: spelt_def atom_typerefs_def if_bool_eq_disj split del: if_split)
  done

lemma reads_prim:
  assumes N: "big_endian N" and rt: "reads_as rt (spelt P (w_term N) C)"
  shows "reads_as (rd_prim N rt) (spelt
    (\<lambda>p. list_all P (prim_kids p) \<and> list_all plain_typeref (prim_typerefs p))
    (w_prim N) (\<lambda>p. sum_list (map (units_typeref N) (prim_typerefs p)) + sum_list (map C (prim_kids p))))"
  unfolding rd_prim_def
  apply (rule reads_as_cong)
   apply (rule reads_tag, (rule branch_rules rt reads_typeref [OF N])+)
  subgoal for p w c
    by (cases p) (auto simp: spelt_def if_bool_eq_disj split del: if_split)
  done

fun term_payload :: "nat_bytes \<Rightarrow> pl_term \<Rightarrow> nat" where
  "term_payload N (Lit l) = units_lit N l"
| "term_payload N (Atom a) = sum_list (map (units_typeref N) (atom_typerefs a))"
| "term_payload N (Prim p) = sum_list (map (units_typeref N) (prim_typerefs p))"
| "term_payload N (Ref a args) = units_tumbler N (tumbler a) + length args"
| "term_payload N _ = 0"

fun term_plain :: "pl_term \<Rightarrow> bool" where
  "term_plain (Var v) \<longleftrightarrow> plain_var v"
| "term_plain (Lit l) \<longleftrightarrow> plain_lit l"
| "term_plain (Atom a) \<longleftrightarrow> list_all plain_typeref (atom_typerefs a) \<and> list_all plain_var (atom_vars a)"
| "term_plain (Prim p) \<longleftrightarrow> list_all plain_typeref (prim_typerefs p)"
| "term_plain (Forall v d b) \<longleftrightarrow> plain_var v"
| "term_plain (Exists v d b) \<longleftrightarrow> plain_var v"
| "term_plain (Let_t v x b) \<longleftrightarrow> plain_var v"
| "term_plain (IfSome x v t e) \<longleftrightarrow> plain_var v"
| "term_plain (BigUnion d v b) \<longleftrightarrow> plain_var v"
| "term_plain (Ref a args) \<longleftrightarrow> wf_address a"
| "term_plain _ \<longleftrightarrow> True"

fun dom_plain :: "pl_dom \<Rightarrow> bool" where
  "dom_plain (Filter d v p) \<longleftrightarrow> plain_var v"
| "dom_plain d \<longleftrightarrow> list_all plain_typeref (dom_typerefs d)"

lemma w_term_not_Nil [simp]: "w_term N t \<noteq> []"
  by (cases t) simp_all

lemma reads_ref:
  assumes N: "big_endian N" and rt: "reads_as rt (spelt P (w_term N) C)"
  shows "reads_as (rd_ref N rt) (\<lambda>t w c. \<exists>a args. t = Ref a args \<and> wf_address a \<and> list_all P args \<and>
    w = w_addr N a @ w_count (length args) @ concat (map (w_term N) args) \<and>
    c = units_tumbler N (tumbler a) + length args + sum_list (map C args))"
proof -
  have "reads_as (rd_bound n (rbind (rd_charge n) (\<lambda>_. rmap (Ref a) (rd_times n rt))))
      (\<lambda>t w c. \<exists>args. t = Ref a args \<and> length args = n \<and> list_all P args \<and>
         w = concat (map (w_term N) args) \<and> c = n + sum_list (map C args))" for a n
    by (rule reads_bound [OF reads_as_cong [OF reads_charged [OF reads_map_spelt [OF reads_times [OF rt]]]]])
      (auto intro: items_length)
  from reads_bind [OF reads_addr [OF N] reads_count [OF this]] show ?thesis
    unfolding rd_ref_def
    by (rule reads_as_within) (auto simp: then_reads_def spelt_def MAX_TERM_NODES_def)
qed

lemma reads_former:
  assumes N: "big_endian N" and rt: "reads_as rt (spelt P (w_term N) C)" and rdm: "reads_as rdm (spelt Q (w_dom N) D)"
  shows "reads_as (rd_former N rt rdm) (spelt
    (\<lambda>t. term_plain t \<and> list_all P (term_kids t) \<and> list_all Q (term_doms t)) (w_term N)
    (\<lambda>t. term_payload N t + sum_list (map C (term_kids t)) + sum_list (map D (term_doms t))))"
  unfolding rd_former_def
  apply (rule reads_as_cong)
   apply (rule reads_tag, (rule branch_rules rt rdm reads_varid reads_lit [OF N] reads_ref [OF N rt]
        reads_atom [OF N rt] reads_prim [OF N rt])+)
  subgoal for t w c
    by (cases t) (auto simp: spelt_def if_bool_eq_disj split del: if_split)
  done

lemma reads_dom_former:
  assumes N: "big_endian N" and rt: "reads_as rt (spelt P (w_term N) C)" and rdm: "reads_as rdm (spelt Q (w_dom N) D)"
  shows "reads_as (rd_dom_former N rt rdm) (spelt
    (\<lambda>d. dom_plain d \<and> list_all P (dom_kids d) \<and> list_all Q (dom_doms d)) (w_dom N)
    (\<lambda>d. sum_list (map (units_typeref N) (dom_typerefs d)) +
       sum_list (map C (dom_kids d)) + sum_list (map D (dom_doms d))))"
  unfolding rd_dom_former_def
  apply (rule reads_as_cong)
   apply (rule reads_tag, (rule branch_rules rt rdm reads_varid reads_typeref [OF N])+)
  subgoal for d w c
    by (cases d) (auto simp: spelt_def if_bool_eq_disj split del: if_split)
  done

section \<open>The doors\<close>

text \<open>
  The units a term costs the decoder, and the terms it can spell at all. Both follow the child
  structure of \<open>PL_Terms\<close>; \<open>tlevels\<close> is the depth the decoder's \<^verbatim>\<open>enter\<close> meters.
\<close>

function units :: "nat_bytes \<Rightarrow> pl_term \<Rightarrow> nat" and dom_units :: "nat_bytes \<Rightarrow> pl_dom \<Rightarrow> nat" where
  "units N t = Suc (term_payload N t + sum_list (map (units N) (term_kids t)) + sum_list (map (dom_units N) (term_doms t)))"
| "dom_units N d = Suc (sum_list (map (units_typeref N) (dom_typerefs d)) +
     sum_list (map (units N) (dom_kids d)) + sum_list (map (dom_units N) (dom_doms d)))"
  by pat_completeness auto
termination
  by (relation "measure (case_sum (size \<circ> snd) (size \<circ> snd))") (auto simp: termination_simp)

function plain :: "pl_term \<Rightarrow> bool" and plain_dom :: "pl_dom \<Rightarrow> bool" where
  "plain t \<longleftrightarrow> term_plain t \<and> (\<forall>u \<in> set (term_kids t). plain u) \<and> (\<forall>d \<in> set (term_doms t). plain_dom d)"
| "plain_dom d \<longleftrightarrow> dom_plain d \<and> (\<forall>u \<in> set (dom_kids d). plain u) \<and> (\<forall>e \<in> set (dom_doms d). plain_dom e)"
  by pat_completeness auto
termination
  by (relation "measure (case_sum size size)") (auto simp: termination_simp)

declare units.simps [simp del] dom_units.simps [simp del] plain.simps [simp del] plain_dom.simps [simp del]
  tlevels.simps [simp del] dlevels.simps [simp del]

lemma reads_enter:
  assumes "depth \<le> MAX_DEPTH \<Longrightarrow> reads_as r (spelt P W C)"
  shows "reads_as (rd_enter depth r) (spelt (\<lambda>x. depth \<le> MAX_DEPTH \<and> P x) W (\<lambda>x. Suc (C x)))"
proof (cases "depth \<le> MAX_DEPTH")
  case True
  then show ?thesis
    by (simp add: rd_enter_def) (rule reads_as_cong [OF reads_charged [OF assms]], auto simp: spelt_def)
next
  case False
  then show ?thesis by (simp add: rd_enter_def) (rule reads_as_cong [OF reads_fail], simp add: spelt_def)
qed

lemma levels_step:
  "tlevels t + d \<le> Suc M \<longleftrightarrow> d \<le> M \<and> (\<forall>u \<in> set (term_kids t). tlevels u + Suc d \<le> Suc M) \<and>
     (\<forall>e \<in> set (term_doms t). dlevels e + Suc d \<le> Suc M)"
  "dlevels x + d \<le> Suc M \<longleftrightarrow> d \<le> M \<and> (\<forall>u \<in> set (dom_kids x). tlevels u + Suc d \<le> Suc M) \<and>
     (\<forall>e \<in> set (dom_doms x). dlevels e + Suc d \<le> Suc M)"
proof -
  have "Suc (max a b) + d \<le> Suc M \<longleftrightarrow> d \<le> M \<and> a \<le> M - d \<and> b \<le> M - d" for a b
    by auto
  moreover have "d \<le> M \<Longrightarrow> n \<le> M - d \<longleftrightarrow> n + Suc d \<le> Suc M" for n by auto
  ultimately show
    "tlevels t + d \<le> Suc M \<longleftrightarrow> d \<le> M \<and> (\<forall>u \<in> set (term_kids t). tlevels u + Suc d \<le> Suc M) \<and>
       (\<forall>e \<in> set (term_doms t). dlevels e + Suc d \<le> Suc M)"
    "dlevels x + d \<le> Suc M \<longleftrightarrow> d \<le> M \<and> (\<forall>u \<in> set (dom_kids x). tlevels u + Suc d \<le> Suc M) \<and>
       (\<forall>e \<in> set (dom_doms x). dlevels e + Suc d \<le> Suc M)"
    unfolding tlevels.simps [of t] dlevels.simps [of x] by auto
qed

lemma reads_term:
  assumes N: "big_endian N"
  shows "reads_as (rd_term N depth) (spelt (\<lambda>t. plain t \<and> tlevels t + depth \<le> Suc MAX_DEPTH) (w_term N) (units N))"
    "reads_as (rd_dom N depth) (spelt (\<lambda>d. plain_dom d \<and> dlevels d + depth \<le> Suc MAX_DEPTH) (w_dom N) (dom_units N))"
  using N
proof (induction N depth and N depth rule: rd_term_rd_dom.induct)
  case (1 N depth)
  show ?case unfolding rd_term.simps [of N depth]
  proof (rule reads_as_cong [OF reads_enter], rule reads_former [OF "1.prems" "1.IH"(1) "1.IH"(2)])
    fix t w c
    show "spelt (\<lambda>t. depth \<le> MAX_DEPTH \<and> term_plain t \<and>
          list_all (\<lambda>t. plain t \<and> tlevels t + (depth + 1) \<le> Suc MAX_DEPTH) (term_kids t) \<and>
          list_all (\<lambda>d. plain_dom d \<and> dlevels d + (depth + 1) \<le> Suc MAX_DEPTH) (term_doms t)) (w_term N)
        (\<lambda>t. Suc (term_payload N t + sum_list (map (units N) (term_kids t)) + sum_list (map (dom_units N) (term_doms t))))
        t w c \<longleftrightarrow>
      spelt (\<lambda>t. plain t \<and> tlevels t + depth \<le> Suc MAX_DEPTH) (w_term N) (units N) t w c"
      unfolding spelt_def levels_step(1) [of t depth] plain.simps [of t] units.simps [of N t] by (auto simp: list_all_iff)
  qed (use "1.prems" in auto)
next
  case (2 N depth)
  show ?case unfolding rd_dom.simps [of N depth]
  proof (rule reads_as_cong [OF reads_enter], rule reads_dom_former [OF "2.prems" "2.IH"(1) "2.IH"(2)])
    fix t w c
    show "spelt (\<lambda>t. depth \<le> MAX_DEPTH \<and> dom_plain t \<and>
          list_all (\<lambda>t. plain t \<and> tlevels t + (depth + 1) \<le> Suc MAX_DEPTH) (dom_kids t) \<and>
          list_all (\<lambda>d. plain_dom d \<and> dlevels d + (depth + 1) \<le> Suc MAX_DEPTH) (dom_doms t)) (w_dom N)
        (\<lambda>t. Suc (sum_list (map (units_typeref N) (dom_typerefs t)) +
           sum_list (map (units N) (dom_kids t)) + sum_list (map (dom_units N) (dom_doms t))))
        t w c \<longleftrightarrow>
      spelt (\<lambda>d. plain_dom d \<and> dlevels d + depth \<le> Suc MAX_DEPTH) (w_dom N) (dom_units N) t w c"
      unfolding spelt_def levels_step(2) [of t depth] plain_dom.simps [of t] dom_units.simps [of N t] by (auto simp: list_all_iff)
  qed (use "2.prems" in auto)
qed

text \<open>The parameters and the body, before the check that nothing is left over.\<close>

definition rd_items :: "nat_bytes \<Rightarrow> nat \<Rightarrow> signed_term rdr" where
  "rd_items N len = rbind rd_len_prefix (\<lambda>n_params.
     if n_params > len then rfail
     else rbind (rd_charge n_params) (\<lambda>_.
       rbind (rd_times n_params (rmap2 Pair rd_varid rd_sort)) (\<lambda>params.
         rmap (\<lambda>body. \<lparr>st_params = params, st_body = body\<rparr>) (rd_term N 0))))"

lemma rbind_assoc: "rbind (rbind r f) g = rbind r (\<lambda>x. rbind (f x) g)"
  by (rule ext) (auto simp: rbind_def and_then_def split: option.split sum.split)

lemma rbind_simps: "rbind rfail g = rfail" "rbind (rret x) g = g x"
  "rbind (if b then r else s) g = (if b then rbind r g else rbind s g)"
  by (auto simp: rbind_def rfail_def rret_def)

lemma rd_payload_items: "rd_payload N len = rbind (rd_items N len) rd_end"
  by (simp add: rd_payload_def rd_items_def rbind_assoc rbind_simps rmap_def cong: if_cong)

definition w_payload :: "nat_bytes \<Rightarrow> signed_term \<Rightarrow> byte list exec" where
  "w_payload N sg = do {
     ps \<leftarrow> exec_map w_param (st_params sg);
     ret (w_count (length (st_params sg)) @ concat ps @ w_term N (st_body sg)) }"

lemma encode_payload:
  "encode N sg = do { payload \<leftarrow> w_payload N sg; ret (w_count (length payload) @ payload) }"
  by (simp add: encode_def w_payload_def Let_def)

definition storable :: "signed_term \<Rightarrow> bool" where
  "storable sg \<longleftrightarrow> list_all (plain_var \<circ> fst) (st_params sg) \<and> plain (st_body sg)"

definition signed_units :: "nat_bytes \<Rightarrow> signed_term \<Rightarrow> nat" where
  "signed_units N sg = length (st_params sg) + units N (st_body sg)"

definition within_doors :: "nat_bytes \<Rightarrow> signed_term \<Rightarrow> bool" where
  "within_doors N sg \<longleftrightarrow> signed_units N sg \<le> MAX_TERM_NODES \<and> tlevels (st_body sg) \<le> Suc MAX_DEPTH"

lemma exec_map_iff:
  "exec_map f xs = ret ys \<longleftrightarrow> (\<forall>x \<in> set xs. \<exists>y. f x = ret y) \<and> ys = map (\<lambda>x. the (f x)) xs"
proof (induction xs arbitrary: ys)
  case (Cons x xs)
  then show ?case by (cases "f x") (auto simp: bind_eq_Some_conv)
qed auto

lemma reads_params:
  "reads_as (rd_times n (rmap2 Pair rd_varid rd_sort)) (\<lambda>ps w c. length ps = n \<and> list_all (plain_var \<circ> fst) ps \<and>
     (\<exists>bs. exec_map w_param ps = ret bs \<and> w = concat bs) \<and> c = 0)"
proof -
  let ?P = "\<lambda>p. plain_var (fst p) \<and> snd p \<noteq> STup" and ?W = "\<lambda>p. the (w_param p)"
  have tag: "(\<exists>t. sort_tag s = ret t) \<longleftrightarrow> s \<noteq> STup" for s by (cases s) auto
  have "reads_as (rmap2 Pair rd_varid rd_sort) (spelt ?P ?W (\<lambda>_. 0))"
    unfolding rmap2_def
    by (rule reads_as_cong [OF reads_bind [OF reads_varid reads_map [OF reads_sort]]])
      (auto simp: then_reads_def spelt_def w_param_def simp flip: tag)
  from reads_times [OF this] show ?thesis
  proof (rule reads_as_cong)
    fix ps :: "(var_id \<times> sort) list" and w c
    have "(\<exists>y. w_param p = ret y) \<longleftrightarrow> snd p \<noteq> STup" for p :: "var_id \<times> sort"
      using tag [of "snd p"] by (auto simp: w_param_def bind_eq_Some_conv)
    then have "(\<exists>bs. exec_map w_param ps = ret bs \<and> w = concat bs) \<longleftrightarrow>
        list_all (\<lambda>p. snd p \<noteq> STup) ps \<and> w = concat (map ?W ps)"
      by (simp add: exec_map_iff list_all_iff)
    then show "spelt (\<lambda>xs. length xs = n \<and> list_all ?P xs) (\<lambda>xs. concat (map ?W xs)) (\<lambda>xs. sum_list (map (\<lambda>_. 0) xs)) ps w c
      \<longleftrightarrow> length ps = n \<and> list_all (plain_var \<circ> fst) ps \<and>
        (\<exists>bs. exec_map w_param ps = ret bs \<and> w = concat bs) \<and> c = 0"
      by (auto simp: spelt_def list_all_iff)
  qed
qed

lemma reads_items:
  assumes N: "big_endian N"
  shows "reads_as (rd_items N len) (\<lambda>sg w c. length (st_params sg) \<le> len \<and> storable sg \<and>
    w_payload N sg = ret w \<and> c = signed_units N sg \<and> tlevels (st_body sg) \<le> Suc MAX_DEPTH)"
  unfolding rd_items_def
proof (rule reads_as_within,
    (rule reads_count reads_if reads_fail reads_charged reads_bind [OF reads_params] reads_map_spelt [OF reads_term(1) [OF N]])+)
  fix sg :: signed_term and w and c :: nat assume c: "c \<le> MAX_TERM_NODES"
  obtain ps b where sg: "sg = \<lparr>st_params = ps, st_body = b\<rparr>" by (cases sg) simp
  show "(\<exists>n w'. n < 2 ^ 64 \<and> w = w_count n @ w' \<and> (if len < n then False else \<exists>c'. c = n + c' \<and>
        then_reads (\<lambda>ps w c. length ps = n \<and> list_all (plain_var \<circ> fst) ps \<and>
          (\<exists>bs. exec_map w_param ps = ret bs \<and> w = concat bs) \<and> c = 0)
        (\<lambda>x y w c. \<exists>xa. y = \<lparr>st_params = x, st_body = xa\<rparr> \<and> (plain xa \<and> tlevels xa + 0 \<le> Suc MAX_DEPTH) \<and>
          w = w_term N xa \<and> c = units N xa) sg w' c')) \<longleftrightarrow>
    length (st_params sg) \<le> len \<and> storable sg \<and> w_payload N sg = ret w \<and> c = signed_units N sg \<and>
      tlevels (st_body sg) \<le> Suc MAX_DEPTH"
    using c
    unfolding sg then_reads_def w_payload_def storable_def signed_units_def MAX_TERM_NODES_def
    by (intro iffI; (auto simp: bind_eq_Some_conv if_bool_eq_disj split del: if_split; fail)?; intro exI [of _ "length ps"])
      (fastforce simp: bind_eq_Some_conv if_bool_eq_disj split del: if_split)
qed

section \<open>Decoding is exact\<close>

lemma payload_params:
  assumes "w_payload N sg = ret w"
  shows "length (st_params sg) \<le> length w"
proof -
  from assms obtain ps where ps: "exec_map w_param (st_params sg) = ret ps"
    "w = w_count (length (st_params sg)) @ concat ps @ w_term N (st_body sg)"
    by (auto simp: w_payload_def bind_eq_Some_conv)
  have "p \<in> set (st_params sg) \<Longrightarrow> the (w_param p) \<noteq> []" for p
    using ps(1) by (auto simp: exec_map_iff w_param_def bind_eq_Some_conv dest!: bspec)
  then have "length (st_params sg) \<le> length (concat ps)"
    using items_length [of "st_params sg" "\<lambda>p. the (w_param p)"] ps(1) by (simp add: exec_map_iff)
  then show ?thesis using ps(2) by simp
qed

lemma decode_iff:
  assumes N: "big_endian N" and fits: "length bs < 2 ^ 64"
  shows "decode N bs \<noteq> panic"
    "decode N bs = ok sg \<longleftrightarrow> encode N sg = ret bs \<and> storable sg \<and> within_doors N sg"
proof -
  let ?st = "\<lparr>rd_b = bs, rd_pos = 0, rd_nodes = 0\<rparr>"
  have st: "rd_ok ?st" "rd_rest ?st = bs" using fits by (simp_all add: rd_ok_def rd_rest_def)
  have payload: "rd_payload N len st \<noteq> panic"
    "rd_payload N len st = ok (sg, st') \<longleftrightarrow> length (st_params sg) \<le> len \<and> storable sg \<and>
       w_payload N sg = ret (rd_rest st) \<and> rd_nodes st + signed_units N sg \<le> MAX_TERM_NODES \<and>
       tlevels (st_body sg) \<le> Suc MAX_DEPTH \<and> st' = rd_adv (length (rd_rest st)) (signed_units N sg) st"
    if "rd_ok st" for len st sg st'
  proof -
    note items = reads_asD [OF reads_items [OF N, of len] that]
    have pos: "rd_pos st \<le> length (rd_b st)" using that by (simp add: rd_ok_def)
    show "rd_payload N len st \<noteq> panic"
      using items(1) by (auto simp: rd_payload_items rbind_def rd_end_def and_then_panic_iff simp del: not_None_eq)
    have "length (rd_rest st) = length (rd_b st) - rd_pos st" by (simp add: rd_rest_def)
    then have "prefix w (rd_rest st) \<Longrightarrow> length w + rd_pos st = length (rd_b st) \<longleftrightarrow> w = rd_rest st" for w
      using pos by (auto elim!: prefixE) (metis add_diff_cancel_right' add_left_cancel length_0_conv add_0_right)
    note whole = this
    have "rd_payload N len st = ok (sg, st') \<longleftrightarrow> rd_items N len st = ok (sg, st') \<and> rd_pos st' = length (rd_b st')"
      by (auto simp: rd_payload_items rbind_def rd_end_def and_then_ok_iff split: if_splits)
    also have "\<dots> \<longleftrightarrow> length (st_params sg) \<le> len \<and> storable sg \<and>
       w_payload N sg = ret (rd_rest st) \<and> rd_nodes st + signed_units N sg \<le> MAX_TERM_NODES \<and>
       tlevels (st_body sg) \<le> Suc MAX_DEPTH \<and> st' = rd_adv (length (rd_rest st)) (signed_units N sg) st"
      unfolding items(2) accepts_def using whole by (auto simp: add.commute)
    finally show "rd_payload N len st = ok (sg, st') \<longleftrightarrow> length (st_params sg) \<le> len \<and> storable sg \<and>
       w_payload N sg = ret (rd_rest st) \<and> rd_nodes st + signed_units N sg \<le> MAX_TERM_NODES \<and>
       tlevels (st_body sg) \<le> Suc MAX_DEPTH \<and> st' = rd_adv (length (rd_rest st)) (signed_units N sg) st" .
  qed
  note envelope = reads_asD [OF reads_len_prefix st(1)]
  have ok': "rd_ok st'" if "rd_len_prefix ?st = ok (len, st')" for len st'
    using that st(1) by (auto simp: envelope(2) accepts_def intro: rd_ok_adv)
  show "decode N bs \<noteq> panic"
    using envelope(1) payload(1) [OF ok']
    by (auto simp: decode_def rd_signed_def rbind_def and_then_panic_iff split: if_splits simp del: not_None_eq)
  have "decode N bs = ok sg \<longleftrightarrow> (\<exists>len st' st''. rd_len_prefix ?st = ok (len, st') \<and>
      length (rd_rest st') = len \<and> rd_payload N len st' = ok (sg, st''))"
    using ok' by (auto simp: decode_def rd_signed_def rbind_def and_then_ok_iff rd_rest_def rd_ok_def split: if_splits)
  also have "\<dots> \<longleftrightarrow> (\<exists>w. bs = w_count (length w) @ w \<and> length w < 2 ^ 64 \<and> length (st_params sg) \<le> length w \<and>
      storable sg \<and> w_payload N sg = ret w \<and> within_doors N sg)"
  proof -
    have head: "rd_len_prefix ?st = ok (len, st') \<longleftrightarrow>
        len < 2 ^ 64 \<and> (\<exists>w. bs = w_count len @ w) \<and> st' = rd_adv (length (w_count len)) 0 ?st" for len st'
      using st by (auto simp: envelope(2) accepts_def spelt_def prefix_def)
    have "rd_rest (rd_adv (length (w_count len)) 0 ?st) = w" if "bs = w_count len @ w" for len w
      using that st(2) by simp
    note rest = this
    show ?thesis
    proof (intro iffI; elim exE conjE)
      fix len st' st''
      assume h: "rd_len_prefix ?st = ok (len, st')" "length (rd_rest st') = len" "rd_payload N len st' = ok (sg, st'')"
      from h(1) obtain w where w: "len < 2 ^ 64" "bs = w_count len @ w" "st' = rd_adv (length (w_count len)) 0 ?st"
        unfolding head by blast
      have r: "rd_rest st' = w" "rd_nodes st' = 0" unfolding w(3) by (rule rest [OF w(2)]) simp
      have l: "length w = len" using h(2) unfolding r(1) .
      from w r l h(3) show "\<exists>w. bs = w_count (length w) @ w \<and> length w < 2 ^ 64 \<and>
          length (st_params sg) \<le> length w \<and> storable sg \<and> w_payload N sg = ret w \<and> within_doors N sg"
        unfolding payload(2) [OF ok' [OF h(1)]] within_doors_def by (intro exI [of _ w]) simp
    next
      fix w
      assume w: "bs = w_count (length w) @ w" "length w < 2 ^ 64" "length (st_params sg) \<le> length w"
        "storable sg" "w_payload N sg = ret w" "within_doors N sg"
      let ?st' = "rd_adv (length (w_count (length w))) 0 ?st"
      have h: "rd_len_prefix ?st = ok (length w, ?st')" unfolding head using w(1,2) by blast
      have r: "rd_rest ?st' = w" "rd_nodes ?st' = 0" by (rule rest [OF w(1)]) simp
      have p: "rd_payload N (length w) ?st' = ok (sg, rd_adv (length w) (signed_units N sg) ?st')"
        unfolding payload(2) [OF ok' [OF h]] r using w by (simp add: within_doors_def)
      show "\<exists>len st' st''. rd_len_prefix ?st = ok (len, st') \<and> length (rd_rest st') = len \<and>
          rd_payload N len st' = ok (sg, st'')"
        by (intro exI conjI, rule h, simp only: r(1), rule p)
    qed
  qed
  also have "\<dots> \<longleftrightarrow> encode N sg = ret bs \<and> storable sg \<and> within_doors N sg"
    using fits payload_params [of N sg] by (auto simp: encode_payload bind_eq_Some_conv)
  finally show "decode N bs = ok sg \<longleftrightarrow> encode N sg = ret bs \<and> storable sg \<and> within_doors N sg" .
qed

section \<open>Properties\<close>

lemma encode_prefix_free:
  assumes "encode N sg = ret bs" "encode N sg' = ret cs" "length bs < 2 ^ 64" "length cs < 2 ^ 64" "prefix cs bs"
  shows "cs = bs"
proof -
  obtain v w where v: "cs = w_count (length v) @ v" and w: "bs = w_count (length w) @ w"
    using assms(1,2) by (auto simp: encode_payload bind_eq_Some_conv)
  obtain zs where zs: "bs = cs @ zs" using assms(5) by (auto simp: prefix_def)
  have "length v \<le> length cs" "length w \<le> length bs" using v w by (metis length_append le_add2)+
  then have "w_count (length v) = leb (length v)" "w_count (length w) = leb (length w)"
    using assms(3,4) by (simp_all add: w_count_def w_varint_leb unat_of_nat)
  then have "leb (length v) @ (v @ zs) = leb (length w) @ w" using v w zs by (metis append.assoc)
  from leb_prefix_free [OF this] have "length v = length w" by (rule conjunct1)
  then show ?thesis using v w zs by (metis append_eq_append_conv append_Nil2 append.assoc length_append same_append_eq)
qed

text \<open>A concrete \<^verbatim>\<open>BigUint\<close>: base 256, most significant byte first.\<close>

fun be_digits :: "nat \<Rightarrow> byte list" where
  "be_digits n = (if n < 256 then [of_nat n] else be_digits (n div 256) @ [of_nat (n mod 256)])"

declare be_digits.simps [simp del]

definition be_value :: "byte list \<Rightarrow> nat" where
  "be_value = foldl (\<lambda>a b. a * 256 + unat b) 0"

definition sample_bytes :: nat_bytes where
  "sample_bytes = \<lparr>to_bytes_be = be_digits, from_bytes_be = be_value\<rparr>"

lemma be_digits_hd: "be_digits n \<noteq> [] \<and> (hd (be_digits n) = 0 \<longrightarrow> n = 0)"
proof (induction n rule: be_digits.induct)
  case (1 n)
  have "of_nat n = (0 :: byte) \<Longrightarrow> n < 256 \<Longrightarrow> n = 0" by (simp add: word_unat_eq_iff unat_of_nat)
  then show ?case using 1 by (subst (1 2) be_digits.simps) (auto simp: div_eq_0_iff)
qed

lemma be_digits_0: "be_digits 0 = [0]"
  by (simp add: be_digits.simps [of 0])

lemma be_value_digits: "be_value (be_digits n) = n"
proof (induction n rule: be_digits.induct)
  case (1 n)
  then show ?case by (subst be_digits.simps) (auto simp: be_value_def unat_of_nat)
qed

lemma be_digits_value: "canonical_bytes bs \<Longrightarrow> be_digits (be_value bs) = bs"
proof (induction bs rule: rev_induct)
  case (snoc b bs)
  have b: "unat b < 256" using unsigned_less [of b] by simp
  show ?case
  proof (cases "bs = []")
    case True
    then show ?thesis using b by (subst be_digits.simps) (simp add: be_value_def)
  next
    case False
    then have bs: "canonical_bytes bs" "hd bs \<noteq> 0" using snoc.prems by (auto simp: canonical_bytes_def)
    then have "be_value bs \<noteq> 0"
      using snoc.IH [OF bs(1)] be_digits_0 by (metis list.sel(1))
    then show ?thesis
      using snoc.IH [OF bs(1)] b by (subst be_digits.simps) (simp add: be_value_def)
  qed
qed (simp add: canonical_bytes_def)

lemma big_endian_sample: "big_endian sample_bytes"
proof -
  have "canonical_bytes (be_digits n)" for n
    using be_digits_hd [of n] be_digits_0 by (cases "n = 0") (auto simp: canonical_bytes_def)
  then show ?thesis
    by (simp add: big_endian_def sample_bytes_def be_value_digits be_digits_value)
qed

text \<open>
  C28: the decoder is exact. On every byte string it returns, never panics, and it accepts exactly
  the encodings of the signed terms within its doors: it answers a signed term if and only if the
  string is that term's encoding, every variable name of it lies below the reserved range and every
  address, span and endset in it is well formed, its nesting is within \<^verbatim>\<open>MAX_DEPTH\<close>, and its formers,
  parameters and payload are within \<^verbatim>\<open>MAX_TERM_NODES\<close>. So an encoding within the doors reads back,
  and no term has a second spelling.
\<close>

theorem def_decode_exact:
  assumes "big_endian N" "length bs < 2 ^ 64"
  shows "decode N bs \<noteq> panic \<and>
    (\<forall>sg. decode N bs = ok sg \<longleftrightarrow> encode N sg = ret bs \<and> storable sg \<and> within_doors N sg)"
  using decode_iff [OF assms] by blast

definition sample_stored :: signed_term where
  "sample_stored = \<lparr>st_params = [(VarId 7, SNat)], st_body = Prim (NatLe (Var (VarId 7)) (Lit (LNat 300)))\<rparr>"

lemma leb_small: "n < 128 \<Longrightarrow> leb n = [of_nat n]"
  by (simp add: leb.simps [of n])

lemma be_300: "be_digits 300 = [1, 44]"
  by (simp add: be_digits.simps [of 300] be_digits.simps [of "Suc 0"])

lemmas codec_eval = w_count_def w_varint_leb leb_small w_varid_def w_nat_def be_300
  sample_bytes_def sample_stored_def w_param_def unat_of_nat

lemma sample_encoded: "encode sample_bytes sample_stored = ret [12, 1, 7, 7, 4, 9, 1, 7, 2, 3, 2, 1, 44]"
  by (simp add: encode_def codec_eval)

lemma sample_storable: "storable sample_stored" "within_doors sample_bytes sample_stored"
proof -
  define v l where "v = Var (VarId 7)" and "l = Lit (LNat 300)"
  have body: "st_body sample_stored = Prim (NatLe v l)" by (simp add: sample_stored_def v_def l_def)
  have kids: "plain v" "plain l" "units sample_bytes v = 1" "units sample_bytes l = 2" "tlevels v = 1" "tlevels l = 1"
    unfolding v_def l_def
    by (subst plain.simps units.simps tlevels.simps,
        simp add: plain_var_def EXPANSION_NAME_BASE_def units_nat_def sample_bytes_def be_300 list_max_def)+
  show "storable sample_stored"
    unfolding storable_def body plain.simps [of "Prim (NatLe v l)"]
    by (simp add: kids) (simp add: sample_stored_def plain_var_def EXPANSION_NAME_BASE_def)
  show "within_doors sample_bytes sample_stored"
    unfolding within_doors_def signed_units_def body units.simps [of _ "Prim (NatLe v l)"] tlevels.simps [of "Prim (NatLe v l)"]
    by (simp add: kids list_max_def) (simp add: sample_stored_def MAX_TERM_NODES_def MAX_DEPTH_def)
qed

theorem def_decode_exact_witness:
  "decode sample_bytes [12, 1, 7, 7, 4, 9, 1, 7, 2, 3, 2, 1, 44] = ok sample_stored"
  using def_decode_exact [OF big_endian_sample, of "[12, 1, 7, 7, 4, 9, 1, 7, 2, 3, 2, 1, 44]"]
    sample_encoded sample_storable by simp

text \<open>
  C29: the run is exactly what the parse consumed. \<^verbatim>\<open>Malformed\<close> is the answer to every string that
  spells no storable term within the doors, and to no other; in particular, cutting bytes off the
  end of an accepted run, down to nothing, or adding any bytes to it, is \<^verbatim>\<open>Malformed\<close>.
\<close>

theorem decode_refuses:
  assumes N: "big_endian N" and fits: "length bs < 2 ^ 64" "length cs < 2 ^ 64"
  shows "(decode N cs = err Malformed \<longleftrightarrow> (\<nexists>sg. encode N sg = ret cs \<and> storable sg \<and> within_doors N sg)) \<and>
    (decode N bs = ok sg \<and> cs \<noteq> bs \<and> (prefix cs bs \<or> prefix bs cs) \<longrightarrow> decode N cs = err Malformed)"
proof -
  have refused: "decode N cs = err Malformed" if "\<And>x. decode N cs \<noteq> ok x"
    using that decode_iff(1) [OF N fits(2)] by (metis malformed.exhaust not_None_eq obj_sumE)
  have "cs = bs" if "decode N bs = ok sg" "decode N cs = ok x" "prefix cs bs \<or> prefix bs cs" for x
    using that encode_prefix_free [of N sg bs x cs] encode_prefix_free [of N x cs sg bs] fits
    by (auto simp: decode_iff [OF N])
  then show ?thesis using refused decode_iff(2) [OF N fits(2)] by auto
qed

theorem decode_refuses_witness:
  "decode sample_bytes [12, 1, 7, 7, 4, 9, 1, 7, 2, 3, 2, 1, 44, 0] = err Malformed \<and>
   decode sample_bytes [12, 1, 7, 7, 4, 9, 1] = err Malformed"
  using decode_refuses [OF big_endian_sample, of "[12, 1, 7, 7, 4, 9, 1, 7, 2, 3, 2, 1, 44]"
      "[12, 1, 7, 7, 4, 9, 1, 7, 2, 3, 2, 1, 44, 0]" sample_stored]
    decode_refuses [OF big_endian_sample, of "[12, 1, 7, 7, 4, 9, 1, 7, 2, 3, 2, 1, 44]"
      "[12, 1, 7, 7, 4, 9, 1]" sample_stored]
    decode_iff(2) [OF big_endian_sample, of "[12, 1, 7, 7, 4, 9, 1, 7, 2, 3, 2, 1, 44]" sample_stored]
    sample_encoded sample_storable by simp

text \<open>
  what the crate stores reads back. \<^verbatim>\<open>stored_run\<close> hands out nothing but the term's own encoding,
  and only if the decoder accepts it; a term within the doors is handed out, and decodes to the very
  signed term it came from; it panics only where the encoder does, on a tuple parameter.
\<close>

theorem stored_run_exact:
  assumes "big_endian N" "\<forall>bs. encode N (tt_signed tt) = ret bs \<longrightarrow> length bs < 2 ^ 64" "storable (tt_signed tt)"
  shows "(stored_run N tt = panic \<longleftrightarrow> encode N (tt_signed tt) = panic) \<and>
    (\<forall>bs. stored_run N tt = ok bs \<longrightarrow> encode N (tt_signed tt) = ret bs \<and> (\<exists>sg. decode N bs = ok sg)) \<and>
    (\<forall>bs. encode N (tt_signed tt) = ret bs \<and> within_doors N (tt_signed tt) \<longrightarrow>
       stored_run N tt = ok bs \<and> decode N bs = ok (tt_signed tt)) "
proof (cases "encode N (tt_signed tt)")
  case None
  then show ?thesis by (simp add: stored_run_def)
next
  case (Some bs)
  then have fits: "length bs < 2 ^ 64" using assms(2) by blast
  note d = decode_iff [OF assms(1) fits]
  from d(1) obtain r where r: "decode N bs = Some r" by auto
  then show ?thesis
    using Some d(2) [of "tt_signed tt"] assms(3)
    by (cases r) (auto simp: stored_run_def split: malformed.splits sum.splits)
qed

theorem stored_run_exact_witness:
  "\<exists>tt. tt_signed tt = sample_stored \<and>
     stored_run sample_bytes tt = ok [12, 1, 7, 7, 4, 9, 1, 7, 2, 3, 2, 1, 44] \<and>
     decode sample_bytes [12, 1, 7, 7, 4, 9, 1, 7, 2, 3, 2, 1, 44] = ok sample_stored"
proof -
  define tt where "tt = \<lparr>tt_signed = sample_stored, tt_result = SBool, tt_evaluable = st_body sample_stored,
    tt_ref_free = True, tt_reach = 1\<rparr>"
  have tt: "tt_signed tt = sample_stored" by (simp add: tt_def)
  have fits: "\<forall>bs. encode sample_bytes (tt_signed tt) = ret bs \<longrightarrow> length bs < 2 ^ 64"
    unfolding tt sample_encoded by simp
  have "storable (tt_signed tt)" "within_doors sample_bytes (tt_signed tt)"
    unfolding tt by (rule sample_storable)+
  note all = stored_run_exact [OF big_endian_sample fits this(1), THEN conjunct2, THEN conjunct2, rule_format]
  from all [OF conjI [OF sample_encoded [folded tt] \<open>within_doors _ _\<close>]] tt show ?thesis
    by (intro exI [of _ tt]) simp
qed

end
