(* ===== verification/Namespace.thy ===== *)
theory Namespace
  imports Arithmetic "HOL-Library.Word"
begin

text \<open>
  The namespace (\<^verbatim>\<open>crates/skep-namespace\<close>: \<^verbatim>\<open>ns.rs\<close>, \<^verbatim>\<open>ghost.rs\<close>, \<^verbatim>\<open>record.rs\<close>, \<^verbatim>\<open>state.rs\<close>,
  \<^verbatim>\<open>state/mint.rs\<close>, \<^verbatim>\<open>state/query.rs\<close>): the chains addresses are minted on, the slice that keeps each
  chain's frontier, the registry of nodes, principals and publication bits, its fold, the mints and
  the queries.

  A namespace key is an anchor and a generator; \<open>chain\<close> spells the component list of its \<open>n\<close>-th
  member, and every well-formed address but a one-component node is a member of exactly one chain.
  The frontiers, the node set and the position map are read by key alone and are HOL maps and sets;
  the principals and the publication map are read in address order and are sorted lists.
\<close>

section \<open>Namespaces\<close>

datatype generator = SameField | NextField

record ns_key =
  ns_parent :: tumbler
  ns_gen :: generator

fun inc_k :: "generator \<Rightarrow> nat" where
  "inc_k SameField = 1"
| "inc_k NextField = 2"

text \<open>The numeral form, \<^verbatim>\<open>u8::from\<close> and \<^verbatim>\<open>Generator::try_from\<close>.\<close>

fun generator_numeral :: "generator \<Rightarrow> 8 word" where
  "generator_numeral SameField = 1"
| "generator_numeral NextField = 2"

datatype door_error =
    AnchorNotValid | GeneratorUnknown | NoParent | RangeNotElement | ZeroCount | PrefixNotAccount

definition generator_try_from :: "8 word \<Rightarrow> (generator, door_error) result" where
  "generator_try_from w =
     (if w = 1 then Ok SameField
      else if w = 2 then Ok NextField
      else Err GeneratorUnknown)"

definition t4_anchor :: "tumbler \<Rightarrow> (tumbler, door_error) result exec" where
  "t4_anchor t = do {
     v \<leftarrow> is_t4_valid t;
     ret (if \<not> v then Err AnchorNotValid else Ok t) }"

definition ns_generator :: "level \<Rightarrow> level \<Rightarrow> generator" where
  "ns_generator anchor child = (if anchor = child then SameField else NextField)"

definition namespace_of :: "address \<Rightarrow> ns_key option exec" where
  "namespace_of a = do {
     p \<leftarrow> parent a;
     ret (case p of
            None \<Rightarrow> None
          | Some anchor \<Rightarrow> Some \<lparr>ns_parent = tumbler anchor,
                                ns_gen = ns_generator (level anchor) (level a)\<rparr>) }"

definition content_base :: "address \<Rightarrow> tumbler exec" where
  "content_base home = inc (tumbler home) 2"

definition content_ns :: "address \<Rightarrow> ns_key exec" where
  "content_ns home = do {
     b \<leftarrow> content_base home;
     ret \<lparr>ns_parent = b, ns_gen = SameField\<rparr> }"

definition link_ns :: "address \<Rightarrow> ns_key exec" where
  "link_ns home = do {
     b \<leftarrow> content_base home;
     l \<leftarrow> inc b 0;
     ret \<lparr>ns_parent = l, ns_gen = SameField\<rparr> }"

definition is_content_or_link_slot :: "address \<Rightarrow> bool exec" where
  "is_content_or_link_slot e = do {
     f \<leftarrow> element_field e;
     ret (case f of Some [s, _] \<Rightarrow> s = content_subspace \<or> s = link_subspace | _ \<Rightarrow> False) }"

definition is_link_slot :: "address \<Rightarrow> bool exec" where
  "is_link_slot e = do {
     f \<leftarrow> element_field e;
     ret (case f of Some [s, _] \<Rightarrow> s = link_subspace | _ \<Rightarrow> False) }"

definition version_ns :: "address \<Rightarrow> ns_key" where
  "version_ns source = \<lparr>ns_parent = tumbler source, ns_gen = SameField\<rparr>"

definition document_ns :: "address \<Rightarrow> ns_key" where
  "document_ns account = \<lparr>ns_parent = tumbler account, ns_gen = NextField\<rparr>"

definition account_ns :: "address \<Rightarrow> ns_key" where
  "account_ns p = \<lparr>ns_parent = tumbler p, ns_gen = ns_generator (level p) Account\<rparr>"

definition first_in :: "ns_key \<Rightarrow> (address, gate_violation) result exec" where
  "first_in k = do {
     r \<leftarrow> validate (ns_parent k);
     anchor \<leftarrow> expect_ok r;
     checked_inc anchor (inc_k (ns_gen k)) }"

definition nth_in :: "ns_key \<Rightarrow> nat \<Rightarrow> (address, gate_violation) result exec" where
  "nth_in k n =
     (if n = 0 then panic
      else and_then (first_in k) (\<lambda>c1. do {
        t \<leftarrow> shift (tumbler c1) (n - 1);
        r \<leftarrow> validate t;
        a \<leftarrow> expect_ok r;
        ok a }))"

definition first_document_address :: "address \<Rightarrow> address option exec" where
  "first_document_address account =
     (if level account = Account then do {
        r \<leftarrow> first_in (document_ns account);
        a \<leftarrow> expect_ok r;
        ret (Some a) }
      else ret None)"

definition first_version_address :: "address \<Rightarrow> address option exec" where
  "first_version_address source =
     (if level source = Document then do {
        r \<leftarrow> first_in (version_ns source);
        a \<leftarrow> expect_ok r;
        ret (Some a) }
      else ret None)"

section \<open>Well-known addresses and the ghost region\<close>

definition known_address :: "nat list \<Rightarrow> address exec" where
  "known_address cs = do {
     t \<leftarrow> expect_ok (Tumbler_new cs);
     r \<leftarrow> validate t;
     expect_ok r }"

definition ghost_positions :: nat where
  "ghost_positions = 5"

definition ghost_home_document :: "address exec" where
  "ghost_home_document = known_address [1, 1, 0, 1, 0, 1]"

definition ghost_position :: "nat \<Rightarrow> address exec" where
  "ghost_position n =
     (if 1 \<le> n \<and> n \<le> ghost_positions then do {
        d \<leftarrow> ghost_home_document;
        r \<leftarrow> elem_addr \<lparr>doc = d, pos_subspace = content_subspace, pos_ordinal = n\<rparr>;
        expect_ok r }
      else panic)"

definition is_ghost_ns :: "ns_key \<Rightarrow> bool exec" where
  "is_ghost_ns k = do {
     d \<leftarrow> ghost_home_document;
     g \<leftarrow> content_ns d;
     ret (k = g) }"

definition ghost_floor :: "ns_key \<Rightarrow> nat exec" where
  "ghost_floor k = do {
     g \<leftarrow> is_ghost_ns k;
     ret (if g then ghost_positions else 0) }"

definition bootstrap_root :: "address exec" where
  "bootstrap_root = known_address [1]"

definition system_node :: "address exec" where
  "system_node = known_address [1, 1]"

definition system_account :: "address exec" where
  "system_account = known_address [1, 1, 0, 1]"

definition head_document :: "address exec" where
  "head_document = known_address [1, 1, 0, 1, 0, 2]"

definition time_document :: "address exec" where
  "time_document = known_address [1, 1, 0, 1, 0, 4]"

section \<open>Records\<close>

datatype principal_id = PrincipalId "64 word"

definition bootstrap_principal :: principal_id where
  "bootstrap_principal = PrincipalId 0"

definition system_principal :: principal_id where
  "system_principal = PrincipalId 9000000000000000"

record allocation =
  alloc_addr :: address
  alloc_published :: bool

record range_allocation =
  range_first :: address
  range_count :: nat

record principal =
  seat_prefix :: address
  seat_id :: principal_id

datatype m3_rec =
    Allocate allocation
  | RegisterNode address
  | RegisterPrincipal principal
  | AllocateRange range_allocation

text \<open>The doors a record's fields are decoded through.\<close>

definition parented_address :: "address \<Rightarrow> (address, door_error) result" where
  "parented_address a = (if tumbler_len (tumbler a) < 2 then Err NoParent else Ok a)"

definition content_range_first :: "address \<Rightarrow> (address, door_error) result" where
  "content_range_first a =
     (case parented_address a of
        Inl e \<Rightarrow> Err e
      | Inr b \<Rightarrow> if level b \<noteq> Element then Err RangeNotElement else Ok b)"

definition nonzero_count :: "nat \<Rightarrow> (nat, door_error) result" where
  "nonzero_count n = (if n = 0 then Err ZeroCount else Ok n)"

definition account_tier_prefix :: "address \<Rightarrow> (address, door_error) result" where
  "account_tier_prefix a = (if level a \<noteq> Account then Err PrefixNotAccount else Ok a)"

section \<open>Ordered maps keyed by addresses\<close>

text \<open>\<^verbatim>\<open>im::OrdMap<Address, _>\<close>: \<^verbatim>\<open>Ord\<close> on addresses is the order of their tumblers.\<close>

fun amap_insert :: "address \<Rightarrow> 'v \<Rightarrow> (address \<times> 'v) list \<Rightarrow> (address \<times> 'v) list" where
  "amap_insert k v [] = [(k, v)]"
| "amap_insert k v ((k', v') # es) =
     (if tumbler k < tumbler k' then (k, v) # (k', v') # es
      else if tumbler k = tumbler k' then (k, v) # es
      else (k', v') # amap_insert k v es)"

fun amap_entry :: "(address \<times> 'v) list \<Rightarrow> address \<Rightarrow> (address \<times> 'v) option" where
  "amap_entry [] a = None"
| "amap_entry ((k, v) # es) a = (if tumbler k = tumbler a then Some (k, v) else amap_entry es a)"

definition amap_get :: "(address \<times> 'v) list \<Rightarrow> address \<Rightarrow> 'v option" where
  "amap_get m a = map_option snd (amap_entry m a)"

definition amap_contains :: "(address \<times> 'v) list \<Rightarrow> address \<Rightarrow> bool" where
  "amap_contains m a \<longleftrightarrow> amap_entry m a \<noteq> None"

section \<open>The slice and its fold\<close>

record m3_state =
  m3_frontiers :: "ns_key \<rightharpoonup> nat"
  m3_nodes :: "address set"
  m3_principals :: "(address \<times> principal_id) list"
  m3_publication :: "(address \<times> bool) list"
  m3_minted_at :: "address \<rightharpoonup> nat"

definition no_publication_state :: bool where
  "no_publication_state = False"

definition max_node_components :: nat where
  "max_node_components = 32"

definition max_principal_components :: nat where
  "max_principal_components = 64"

definition stored_frontier :: "m3_state \<Rightarrow> ns_key \<Rightarrow> nat" where
  "stored_frontier s k = (case m3_frontiers s k of Some m \<Rightarrow> m | None \<Rightarrow> 0)"

definition effective_frontier :: "m3_state \<Rightarrow> ns_key \<Rightarrow> nat exec" where
  "effective_frontier s k = do {
     f \<leftarrow> ghost_floor k;
     ret (max (stored_frontier s k) f) }"

definition next_in :: "m3_state \<Rightarrow> ns_key \<Rightarrow> (address, gate_violation) result exec" where
  "next_in s k = do {
     m \<leftarrow> effective_frontier s k;
     and_then (nth_in k (m + 1)) (\<lambda>a. do {
       slot \<leftarrow> is_content_or_link_slot a;
       if level a \<noteq> Element \<or> slot then ok a else panic }) }"

fun apply_m3 :: "nat \<Rightarrow> m3_state \<Rightarrow> m3_rec \<Rightarrow> m3_state exec" where
  "apply_m3 at s (Allocate r) = do {
     k \<leftarrow> namespace_of (alloc_addr r);
     k \<leftarrow> k;
     let n = ordinal (tumbler (alloc_addr r));
     m \<leftarrow> effective_frontier s k;
     if n \<noteq> m + 1 then panic
     else do {
       let s = s\<lparr>m3_frontiers := (m3_frontiers s)(k \<mapsto> n)\<rparr>;
       let s = (if level (alloc_addr r) = Document \<and> \<not> amap_contains (m3_publication s) (alloc_addr r)
                then s\<lparr>m3_publication := amap_insert (alloc_addr r) (alloc_published r) (m3_publication s)\<rparr>
                else s);
       slot \<leftarrow> is_link_slot (alloc_addr r);
       ret (if (level (alloc_addr r) = Document \<or> slot) \<and> m3_minted_at s (alloc_addr r) = None
            then s\<lparr>m3_minted_at := (m3_minted_at s)(alloc_addr r \<mapsto> at)\<rparr>
            else s) } }"
| "apply_m3 at s (RegisterNode a) = ret (s\<lparr>m3_nodes := insert a (m3_nodes s)\<rparr>)"
| "apply_m3 at s (RegisterPrincipal p) =
     ret (if \<not> amap_contains (m3_principals s) (seat_prefix p)
          then s\<lparr>m3_principals := amap_insert (seat_prefix p) (seat_id p) (m3_principals s)\<rparr>
          else s)"
| "apply_m3 at s (AllocateRange r) = do {
     k \<leftarrow> namespace_of (range_first r);
     k \<leftarrow> k;
     let n = ordinal (tumbler (range_first r));
     m \<leftarrow> effective_frontier s k;
     if n \<noteq> m + 1 then panic
     else do {
       e \<leftarrow> nat_sub (n + range_count r) 1;
       ret (s\<lparr>m3_frontiers := (m3_frontiers s)(k \<mapsto> e)\<rparr>) } }"

definition genesis_seed :: "m3_rec list exec" where
  "genesis_seed = do {
     sn \<leftarrow> system_node;
     sa \<leftarrow> system_account;
     gh \<leftarrow> ghost_home_document;
     hdoc \<leftarrow> head_document;
     ret [RegisterNode sn,
          Allocate \<lparr>alloc_addr = sa, alloc_published = no_publication_state\<rparr>,
          RegisterPrincipal \<lparr>seat_prefix = sa, seat_id = system_principal\<rparr>,
          Allocate \<lparr>alloc_addr = gh, alloc_published = True\<rparr>,
          Allocate \<lparr>alloc_addr = hdoc, alloc_published = True\<rparr>] }"

definition genesis :: "m3_state exec" where
  "genesis = do {
     root \<leftarrow> bootstrap_root;
     let roots = \<lparr>m3_frontiers = Map.empty, m3_nodes = {root},
                  m3_principals = [(root, bootstrap_principal)],
                  m3_publication = [], m3_minted_at = Map.empty\<rparr>;
     seed \<leftarrow> genesis_seed;
     exec_fold (apply_m3 0) roots seed }"

section \<open>Queries\<close>

definition prefix_contains :: "address \<Rightarrow> address \<Rightarrow> bool" where
  "prefix_contains p a = is_prefix (tumbler p) (tumbler a)"

definition is_chain_member :: "m3_state \<Rightarrow> address \<Rightarrow> bool exec" where
  "is_chain_member s a = do {
     k \<leftarrow> namespace_of a;
     (case k of
        None \<Rightarrow> ret False
      | Some k \<Rightarrow> do {
          f \<leftarrow> ghost_floor k;
          let n = ordinal (tumbler a);
          ret (n > f \<and> (case m3_frontiers s k of None \<Rightarrow> False | Some m \<Rightarrow> n \<le> m)) }) }"

definition is_allocated :: "m3_state \<Rightarrow> address \<Rightarrow> bool exec" where
  "is_allocated s a =
     (case level a of
        Node \<Rightarrow> ret (a \<in> m3_nodes s)
      | _ \<Rightarrow> is_chain_member s a)"

definition entity_level :: "m3_state \<Rightarrow> address \<Rightarrow> level option exec" where
  "entity_level s a =
     (if level a = Element then ret None
      else do {
        al \<leftarrow> is_allocated s a;
        ret (if al then Some (level a) else None) })"

definition is_registered_document :: "m3_state \<Rightarrow> address \<Rightarrow> bool exec" where
  "is_registered_document s a = do { l \<leftarrow> entity_level s a; ret (l = Some Document) }"

definition is_registered_account :: "m3_state \<Rightarrow> address \<Rightarrow> bool exec" where
  "is_registered_account s a = do { l \<leftarrow> entity_level s a; ret (l = Some Account) }"

definition has_documents :: "m3_state \<Rightarrow> address \<Rightarrow> bool" where
  "has_documents s account \<longleftrightarrow> level account = Account \<and>
     (case m3_frontiers s (document_ns account) of None \<Rightarrow> False | Some m \<Rightarrow> m \<noteq> 0)"

definition latest_version :: "m3_state \<Rightarrow> address \<Rightarrow> address option exec" where
  "latest_version s source =
     (if level source \<noteq> Document then ret None
      else case m3_frontiers s (version_ns source) of
             None \<Rightarrow> ret None
           | Some m \<Rightarrow>
               if m = 0 then ret None
               else do {
                 r \<leftarrow> nth_in (version_ns source) m;
                 a \<leftarrow> expect_ok r;
                 ret (Some a) })"

definition published :: "m3_state \<Rightarrow> address \<Rightarrow> bool" where
  "published s d = (case amap_get (m3_publication s) d of Some b \<Rightarrow> b | None \<Rightarrow> False)"

definition documents :: "m3_state \<Rightarrow> (address \<times> bool) list" where
  "documents s = m3_publication s"

definition minted_at :: "m3_state \<Rightarrow> address \<Rightarrow> nat option" where
  "minted_at s a = m3_minted_at s a"

text \<open>\<^verbatim>\<open>Iterator::max_by_key\<close>: the last of the greatest.\<close>

fun max_by_key :: "('a \<Rightarrow> nat) \<Rightarrow> 'a list \<Rightarrow> 'a option" where
  "max_by_key f [] = None"
| "max_by_key f (x # xs) =
     (case max_by_key f xs of None \<Rightarrow> Some x | Some y \<Rightarrow> if f x \<le> f y then Some y else Some x)"

definition omega :: "m3_state \<Rightarrow> address \<Rightarrow> (address \<times> principal_id) option" where
  "omega s a =
     max_by_key (\<lambda>(p, i). tumbler_len (tumbler p))
       (filter (\<lambda>(p, i). (level p = Node \<or> level p = Account) \<and> prefix_contains p a)
         (m3_principals s))"

definition effective_owner :: "m3_state \<Rightarrow> address \<Rightarrow> principal_id option" where
  "effective_owner s a = map_option snd (omega s a)"

definition effective_owner_prefix :: "m3_state \<Rightarrow> address \<Rightarrow> address option" where
  "effective_owner_prefix s a = map_option fst (omega s a)"

definition effective_owner_pair :: "m3_state \<Rightarrow> address \<Rightarrow> (address \<times> principal_id) option" where
  "effective_owner_pair s a = omega s a"

definition account_seat :: "m3_state \<Rightarrow> address \<Rightarrow> (address \<times> principal_id) option exec" where
  "account_seat s a = do {
     u \<leftarrow> account_field a;
     (case u of
        None \<Rightarrow> ret None
      | Some user \<Rightarrow> do {
          nf \<leftarrow> node_field a;
          let len = length nf + 1 + length user;
          p \<leftarrow> expect_ok (Tumbler_new (take len (comps (tumbler a))));
          r \<leftarrow> validate p;
          account \<leftarrow> expect_ok r;
          ret (amap_entry (m3_principals s) account) }) }"

definition is_effective_owner :: "m3_state \<Rightarrow> principal_id \<Rightarrow> address \<Rightarrow> bool" where
  "is_effective_owner s i a \<longleftrightarrow> effective_owner s a = Some i"

definition principal_prefix :: "m3_state \<Rightarrow> principal_id \<Rightarrow> address option" where
  "principal_prefix s i = map_option fst (find (\<lambda>(p, j). j = i) (m3_principals s))"

definition has_principal_strictly_under :: "m3_state \<Rightarrow> address \<Rightarrow> bool" where
  "has_principal_strictly_under s p =
     (case find (\<lambda>(q, i). tumbler p < tumbler q) (m3_principals s) of
        None \<Rightarrow> False
      | Some (q, i) \<Rightarrow> prefix_contains p q)"

section \<open>Mints\<close>

datatype mint_error =
    HomeNotRegistered | SourceNotRegistered | NotAnAccount | Gate gate_violation

definition mint_on :: "m3_state \<Rightarrow> ns_key \<Rightarrow> bool \<Rightarrow> (address \<times> m3_rec, gate_violation) result exec" where
  "mint_on s k pub =
     and_then (next_in s k) (\<lambda>a. ok (a, Allocate \<lparr>alloc_addr = a, alloc_published = pub\<rparr>))"

definition gate_err :: "('a, gate_violation) result exec \<Rightarrow> ('a, mint_error) result exec" where
  "gate_err m = do { r \<leftarrow> m; ret (case r of Inl e \<Rightarrow> Err (Gate e) | Inr x \<Rightarrow> Ok x) }"

definition mint_content :: "m3_state \<Rightarrow> address \<Rightarrow> (address \<times> m3_rec, mint_error) result exec" where
  "mint_content s home = do {
     reg \<leftarrow> is_registered_document s home;
     if \<not> reg then err HomeNotRegistered
     else do {
       k \<leftarrow> content_ns home;
       gate_err (mint_on s k no_publication_state) } }"

definition mint_content_range ::
    "m3_state \<Rightarrow> address \<Rightarrow> nat \<Rightarrow> (address \<times> m3_rec, mint_error) result exec" where
  "mint_content_range s home n =
     (if n = 0 then panic
      else do {
        reg \<leftarrow> is_registered_document s home;
        if \<not> reg then err HomeNotRegistered
        else do {
          k \<leftarrow> content_ns home;
          and_then (gate_err (next_in s k)) (\<lambda>first.
            ok (first, AllocateRange \<lparr>range_first = first, range_count = n\<rparr>)) } })"

definition mint_link :: "m3_state \<Rightarrow> address \<Rightarrow> (address \<times> m3_rec, mint_error) result exec" where
  "mint_link s home = do {
     reg \<leftarrow> is_registered_document s home;
     if \<not> reg then err HomeNotRegistered
     else do {
       k \<leftarrow> link_ns home;
       gate_err (mint_on s k no_publication_state) } }"

definition mint_version ::
    "m3_state \<Rightarrow> address \<Rightarrow> bool \<Rightarrow> (address \<times> m3_rec, mint_error) result exec" where
  "mint_version s source pub = do {
     reg \<leftarrow> is_registered_document s source;
     if \<not> reg then err SourceNotRegistered
     else gate_err (mint_on s (version_ns source) pub) }"

definition mint_document ::
    "m3_state \<Rightarrow> address \<Rightarrow> bool \<Rightarrow> (address \<times> m3_rec, mint_error) result exec" where
  "mint_document s account pub = do {
     reg \<leftarrow> is_registered_account s account;
     if \<not> reg then err NotAnAccount
     else gate_err (mint_on s (document_ns account) pub) }"

definition mint_account :: "m3_state \<Rightarrow> address \<Rightarrow> (address \<times> m3_rec) option exec" where
  "mint_account s p = do {
     l \<leftarrow> entity_level s p;
     (if l = Some Node \<or> l = Some Account then do {
        r \<leftarrow> mint_on s (account_ns p) no_publication_state;
        x \<leftarrow> expect_ok r;
        ret (Some x) }
      else ret None) }"

definition next_account_prefix :: "m3_state \<Rightarrow> address \<Rightarrow> address option exec" where
  "next_account_prefix s p = do {
     r \<leftarrow> mint_account s p;
     ret (case r of
            None \<Rightarrow> None
          | Some (a, _) \<Rightarrow>
              if tumbler_len (tumbler a) \<le> max_principal_components then Some a else None) }"

definition next_content_address :: "m3_state \<Rightarrow> address \<Rightarrow> address option exec" where
  "next_content_address s home = do {
     r \<leftarrow> mint_content s home;
     (if r = Err HomeNotRegistered then ret None
      else do { x \<leftarrow> expect_ok r; ret (Some (fst x)) }) }"

section \<open>Chains\<close>

text \<open>The member list of a namespace, and the keys a namespace can have.\<close>

definition addr_of :: "nat list \<Rightarrow> address" where
  "addr_of cs = \<lparr>tumbler = tumbler_of cs, level = level_of cs\<rparr>"

definition chain :: "ns_key \<Rightarrow> nat \<Rightarrow> nat list" where
  "chain k n = comps (ns_parent k) @ (if ns_gen k = SameField then [n] else [0, n])"

definition wf_key :: "ns_key \<Rightarrow> bool" where
  "wf_key k \<longleftrightarrow> T4 (comps (ns_parent k)) \<and>
     (ns_gen k = NextField \<longrightarrow> count_list (comps (ns_parent k)) 0 \<le> 2)"

lemma chain_simps [simp]:
  "chain k n \<noteq> []" "last (chain k n) = n" "butlast (chain k n) @ [m] = chain k m"
  "2 \<le> length (chain k n)"
  by (auto simp: chain_def butlast_append Suc_le_eq)

lemma chain_inject [simp]: "chain k m = chain k n \<longleftrightarrow> m = n"
  by (simp add: chain_def)

lemma comps_addr_of [simp]: "cs \<noteq> [] \<Longrightarrow> comps (tumbler (addr_of cs)) = cs"
  by (simp add: addr_of_def)

lemma tumbler_addr_of [simp]: "tumbler (addr_of (comps t)) = t"
  by (simp add: addr_of_def)

lemma wf_addr_of: "T4 cs \<Longrightarrow> cs \<noteq> [] \<Longrightarrow> wf_address (addr_of cs)"
  by (simp add: addr_of_def wf_address_def)

lemma addr_of_comps: "wf_address a \<Longrightarrow> addr_of (comps (tumbler a)) = a"
  by (simp add: addr_of_def wf_address_def)

lemma level_addr_of [simp]: "level (addr_of cs) = level_of cs"
  by (simp add: addr_of_def)

lemma validate_addr_of: "T4 cs \<Longrightarrow> cs \<noteq> [] \<Longrightarrow> validate (tumbler_of cs) = ok (addr_of cs)"
  by (simp add: validate_eq addr_of_def)

lemma ordinal_addr_of [simp]: "cs \<noteq> [] \<Longrightarrow> ordinal (tumbler (addr_of cs)) = last cs"
  by (simp add: ordinal_def)

lemma addr_of_inject: "cs \<noteq> [] \<Longrightarrow> ds \<noteq> [] \<Longrightarrow> addr_of cs = addr_of ds \<longleftrightarrow> cs = ds"
  by (metis comps_addr_of)

lemma T4_chain: "wf_key k \<Longrightarrow> 0 < n \<Longrightarrow> T4 (chain k n)"
  by (cases "ns_gen k") (auto simp: chain_def wf_key_def T4_append_one T4_append_field)

lemma level_chain:
  "0 < n \<Longrightarrow> level_of (chain k n) =
     [Node, Account, Document, Element] !
       (count_list (comps (ns_parent k)) 0 + (if ns_gen k = SameField then 0 else 1))"
  by (simp add: level_of_def chain_def)

lemma wf_chain: "wf_key k \<Longrightarrow> 0 < n \<Longrightarrow> wf_address (addr_of (chain k n))"
  by (simp add: wf_addr_of T4_chain)

lemma first_in_eq [returns]:
  assumes "wf_key k"
  shows "first_in k = ok (addr_of (chain k 1))"
proof -
  let ?p = "addr_of (comps (ns_parent k))"
  have T4: "T4 (comps (ns_parent k))" using assms by (simp add: wf_key_def)
  have "validate (ns_parent k) = ok ?p" using validate_addr_of [OF T4] by simp
  moreover have "inc_comps (tumbler ?p) (inc_k (ns_gen k)) = chain k 1"
    by (cases "ns_gen k") (simp_all add: inc_comps_def chain_def numeral_2_eq_2)
  moreover have "inc_preserves_t4 ?p (inc_k (ns_gen k))"
    using assms T4 by (cases "ns_gen k")
      (auto simp: inc_preserves_t4_def wf_key_def level_of_def nth_Cons' numeral_3_eq_3 T4_unfold
            split: if_splits)
  ultimately show ?thesis
    using checked_inc_eq [OF wf_addr_of [OF T4]] by (simp add: first_in_def addr_of_def)
qed

lemma nth_in_eq [returns]:
  assumes "wf_key k" "0 < n"
  shows "nth_in k n = ok (addr_of (chain k n))"
proof -
  have "advance (tumbler (addr_of (chain k 1))) (n - 1) = tumbler_of (chain k n)"
    using assms(2) by (simp add: tumbler_eq_iff)
  then show ?thesis using assms
    by (simp add: nth_in_def first_in_eq validate_addr_of T4_chain)
qed

text \<open>Every address with a parent lies on exactly one chain, at its ordinal.\<close>

lemma peel_chain: "wf_key k \<Longrightarrow> 0 < n \<Longrightarrow> take (peel (chain k n)) (chain k n) = comps (ns_parent k)"
  using comps_not_Nil(1) [of "ns_parent k"]
  by (cases "ns_gen k"; cases "comps (ns_parent k)" rule: rev_cases)
     (auto simp: chain_def peel_def nth_append wf_key_def T4_unfold)

lemma ns_generator_chain:
  assumes "wf_key k" "0 < n"
  shows "ns_generator (level_of (comps (ns_parent k))) (level_of (chain k n)) = ns_gen k"
proof (cases "ns_gen k")
  case NextField
  then have "count_list (comps (ns_parent k)) 0 \<le> 2" using assms(1) by (simp add: wf_key_def)
  then have "count_list (comps (ns_parent k)) 0 \<in> {0, 1, 2}" by auto
  then show ?thesis using NextField assms(2)
    by (auto simp: ns_generator_def level_of_def chain_def numeral_2_eq_2)
qed (use assms in \<open>simp add: ns_generator_def level_of_def chain_def\<close>)

lemma namespace_of_chain [returns]:
  assumes "wf_key k" "0 < n"
  shows "namespace_of (addr_of (chain k n)) = ret (Some k)"
proof -
  let ?a = "addr_of (chain k n)"
  obtain p where p: "parent ?a = ret (Some p)" "wf_address p"
    "comps (tumbler p) = take (peel (comps (tumbler ?a))) (comps (tumbler ?a))"
    using parent_eq [OF wf_chain [OF assms]] by (auto simp: tumbler_len_def)
  then have "comps (tumbler p) = comps (ns_parent k)" using peel_chain [OF assms] by simp
  then have "tumbler p = ns_parent k" "level p = level_of (comps (ns_parent k))"
    using p(2) by (simp_all add: wf_address_def)
  then show ?thesis using p(1) ns_generator_chain [OF assms] by (simp add: namespace_of_def)
qed

lemma namespace_of_root: "wf_address a \<Longrightarrow> tumbler_len (tumbler a) < 2 \<Longrightarrow> namespace_of a = ret None"
  using tumbler_len_pos(1) [of "tumbler a"]
  by (auto simp: namespace_of_def parent_def tumbler_len_def less_Suc_eq numeral_2_eq_2 Let_def)

lemma on_chain:
  assumes "wf_address a" "2 \<le> tumbler_len (tumbler a)"
  obtains k where "wf_key k" "a = addr_of (chain k (ordinal (tumbler a)))"
    "0 < ordinal (tumbler a)" "namespace_of a = ret (Some k)"
proof -
  let ?cs = "comps (tumbler a)"
  have T4: "T4 ?cs" and len: "2 \<le> length ?cs"
    using assms by (auto simp: wf_address_def tumbler_len_def)
  obtain ps c n where cs: "?cs = ps @ [c, n]"
    using len by (cases ?cs rule: rev_cases; cases "butlast ?cs" rule: rev_cases) auto
  have n: "0 < n" using T4 cs by (auto simp: T4_unfold)
  have ord: "ordinal (tumbler a) = n" using cs by (simp add: ordinal_def)
  define k where "k = (if c = 0 then \<lparr>ns_parent = tumbler_of ps, ns_gen = NextField\<rparr>
                       else \<lparr>ns_parent = tumbler_of (ps @ [c]), ns_gen = SameField\<rparr>)"
  have peel: "T4 (take (peel ?cs) ?cs)" "0 < peel ?cs" using peel_bounds [OF T4 len] by simp_all
  have "wf_key k \<and> ?cs = chain k n"
  proof (cases "c = 0")
    case True
    then have "peel ?cs = length ps" by (simp add: cs peel_def)
    then have "T4 ps" "ps \<noteq> []" using peel by (simp_all add: cs)
    moreover have "count_list ps 0 \<le> 2" using T4 True by (simp add: cs T4_unfold)
    ultimately show ?thesis using True cs by (simp add: k_def wf_key_def chain_def)
  next
    case False
    then have "peel ?cs = Suc (length ps)" by (simp add: cs peel_def)
    then have "T4 (ps @ [c])" using peel by (simp add: cs)
    then show ?thesis using False cs by (simp add: k_def wf_key_def chain_def)
  qed
  then have k: "wf_key k" "a = addr_of (chain k n)" using addr_of_comps [OF assms(1)] by simp_all
  then show thesis using that [of k] ord n namespace_of_chain [OF k(1) n] by simp
qed

section \<open>Closed forms of the keys and the queries\<close>

lemma known_address_eq [returns]: "T4 cs \<Longrightarrow> cs \<noteq> [] \<Longrightarrow> known_address cs = ret (addr_of cs)"
proof -
  assume T4: "T4 cs" and ne: "cs \<noteq> []"
  have "Tumbler_new cs = Ok (tumbler_of cs)" using ne Tumbler_new_Ok comps_tumbler_of by blast
  then show ?thesis using validate_addr_of [OF T4 ne]
    by (simp add: known_address_def del: Tumbler_new_Ok)
qed

lemma known_T4 [simp]:
  "T4 [1]" "T4 [1, 1]" "T4 [1, 1, 0, 1]" "T4 [1, 1, 0, 1, 0, 1]" "T4 [1, 1, 0, 1, 0, 2]"
  "T4 [1, 1, 0, 1, 0, 4]" "T4 [1, 1, 0, 1, 0, 1, 0, 1]"
  by (simp_all add: T4_unfold)

lemmas known_addresses [returns] =
  known_address_eq [OF known_T4(1), folded bootstrap_root_def, simplified]
  known_address_eq [OF known_T4(2), folded system_node_def, simplified]
  known_address_eq [OF known_T4(3), folded system_account_def, simplified]
  known_address_eq [OF known_T4(4), folded ghost_home_document_def, simplified]
  known_address_eq [OF known_T4(5), folded head_document_def, simplified]
  known_address_eq [OF known_T4(6), folded time_document_def, simplified]

text \<open>The keys of the five families, and the chain of the ghost region.\<close>

definition content_key :: "address \<Rightarrow> ns_key" where
  "content_key home = \<lparr>ns_parent = tumbler_of (comps (tumbler home) @ [0, 1]), ns_gen = SameField\<rparr>"

definition link_key :: "address \<Rightarrow> ns_key" where
  "link_key home = \<lparr>ns_parent = tumbler_of (comps (tumbler home) @ [0, 2]), ns_gen = SameField\<rparr>"

lemma content_base_eq: "content_base home = ret (tumbler_of (comps (tumbler home) @ [0, 1]))"
  by (simp add: content_base_def inc_eq inc_comps_def)

lemma content_ns_eq [returns]: "content_ns home = ret (content_key home)"
  by (simp add: content_ns_def content_base_eq content_key_def)

lemma inc_0_snoc: "0 < n \<Longrightarrow> inc (tumbler_of (cs @ [n])) 0 = ret (tumbler_of (cs @ [n + 1]))"
proof -
  assume n: "0 < n"
  have "rposition (\<lambda>c. \<not> nat_is_zero c) (cs @ [n]) = Some (length cs)"
    using n rposition_snoc [of "\<lambda>c. \<not> nat_is_zero c" n cs] by (simp add: nat_is_zero_def)
  then have "sig (tumbler_of (cs @ [n])) = Suc (length cs)" by (simp add: sig_def)
  then show ?thesis by (simp add: inc_eq inc_comps_def list_update_append nth_append)
qed

lemma link_ns_eq [returns]: "link_ns home = ret (link_key home)"
proof -
  have "inc (tumbler_of (comps (tumbler home) @ [0, 1])) 0
      = ret (tumbler_of (comps (tumbler home) @ [0, 2]))"
    using inc_0_snoc [of 1 "comps (tumbler home) @ [0]"] by (simp add: numeral_2_eq_2)
  then show ?thesis by (simp add: link_ns_def content_base_eq link_key_def)
qed

lemma wf_level_zeros:
  "wf_address a \<Longrightarrow> level a = Node \<longleftrightarrow> count_list (comps (tumbler a)) 0 = 0"
  "wf_address a \<Longrightarrow> level a = Account \<longleftrightarrow> count_list (comps (tumbler a)) 0 = 1"
  "wf_address a \<Longrightarrow> level a = Document \<longleftrightarrow> count_list (comps (tumbler a)) 0 = 2"
  "wf_address a \<Longrightarrow> level a = Element \<longleftrightarrow> count_list (comps (tumbler a)) 0 = 3"
  using wf_address_level [of a] by (simp_all add: addr_fields_def length_split_zeros)

lemma wf_doc_keys:
  assumes "wf_address d" "level d = Document"
  shows "wf_key (content_key d)" "wf_key (link_key d)" "wf_key (version_ns d)"
proof -
  have T4: "T4 (comps (tumbler d))" and z: "count_list (comps (tumbler d)) 0 = 2"
    using assms wf_level_zeros(3) [OF assms(1)] by (auto simp: wf_address_def)
  then have "T4 (comps (tumbler d) @ 0 # [n])" if "0 < n" for n
    using that T4_append_field [OF T4, of "[n]"] by simp
  then show "wf_key (content_key d)" "wf_key (link_key d)" "wf_key (version_ns d)"
    using T4 by (simp_all add: wf_key_def content_key_def link_key_def version_ns_def)
qed

lemma wf_account_keys:
  assumes "wf_address a" "level a = Account"
  shows "wf_key (document_ns a)" "wf_key (account_ns a)"
  using assms wf_level_zeros(2) [OF assms(1)]
  by (auto simp: wf_key_def document_ns_def account_ns_def ns_generator_def wf_address_def)

lemma wf_node_key: "wf_address a \<Longrightarrow> level a = Node \<Longrightarrow> wf_key (account_ns a)"
  using wf_level_zeros(1) [of a]
  by (auto simp: wf_key_def account_ns_def ns_generator_def wf_address_def)

definition ghost_key :: ns_key where
  "ghost_key = \<lparr>ns_parent = tumbler_of [1, 1, 0, 1, 0, 1, 0, 1], ns_gen = SameField\<rparr>"

definition floor_of :: "ns_key \<Rightarrow> nat" where
  "floor_of k = (if k = ghost_key then 5 else 0)"

lemma ghost_floor_eq [simp, returns]: "ghost_floor k = ret (floor_of k)"
  by (simp add: ghost_floor_def is_ghost_ns_def known_addresses content_ns_eq content_key_def
      ghost_key_def floor_of_def ghost_positions_def)

definition frontier :: "m3_state \<Rightarrow> ns_key \<Rightarrow> nat" where
  "frontier s k = max (stored_frontier s k) (floor_of k)"

lemma effective_frontier_eq [simp, returns]: "effective_frontier s k = ret (frontier s k)"
  by (simp add: effective_frontier_def frontier_def)

text \<open>Slots: the element fields of two components on the content and link chains.\<close>

definition slot_in :: "nat set \<Rightarrow> address \<Rightarrow> bool" where
  "slot_in S e \<longleftrightarrow> level e = Element \<and> (\<exists>s \<in> S. \<exists>n. addr_fields e ! 3 = [s, n])"

lemma element_field_wf: "wf_address e \<Longrightarrow>
    element_field e = ret (if level e = Element then Some (addr_fields e ! 3) else None)"
  using wf_address_level [of e]
  by (auto simp: element_field_def field_eq wf_address_iff_fields)

lemma slot_eq [returns]:
  assumes "wf_address e"
  shows "is_content_or_link_slot e = ret (slot_in {1, 2} e)" "is_link_slot e = ret (slot_in {2} e)"
  using assms
  by (auto simp: is_content_or_link_slot_def is_link_slot_def slot_in_def element_field_wf
      content_subspace_def link_subspace_def split: list.splits)

lemma slot_on_chain:
  assumes "wf_address d" "level d = Document" "0 < n" "0 < s"
  shows "slot_in S (addr_of (comps (tumbler d) @ [0, s, n])) \<longleftrightarrow> s \<in> S"
proof -
  let ?e = "addr_of (comps (tumbler d) @ [0, s, n])"
  have three: "length (split_zeros (comps (tumbler d))) = 3" "count_list (comps (tumbler d)) 0 = 2"
    using assms wf_level_zeros(3) by (auto simp: length_split_zeros)
  then have "addr_fields ?e ! 3 = [s, n]"
    using assms(3,4) by (simp add: addr_fields_def split_zeros_append_zero nth_append)
  moreover have "level ?e = Element" using three assms(3,4) by (simp add: level_of_def numeral_3_eq_3)
  ultimately show ?thesis by (simp add: slot_in_def)
qed

lemma chain_content: "chain (content_key d) n = comps (tumbler d) @ [0, 1, n]"
  "chain (link_key d) n = comps (tumbler d) @ [0, 2, n]"
  by (simp_all add: chain_def content_key_def link_key_def)

lemma chain_family:
  "chain (version_ns d) n = comps (tumbler d) @ [n]"
  "chain (document_ns d) n = comps (tumbler d) @ [0, n]"
  "chain (account_ns d) n = comps (tumbler d) @ (if level d = Account then [n] else [0, n])"
  by (simp_all add: chain_def version_ns_def document_ns_def account_ns_def ns_generator_def)

lemma next_in_eq:
  assumes "wf_key k"
  shows "next_in s k = (let a = addr_of (chain k (frontier s k + 1)) in
    if level a \<noteq> Element \<or> slot_in {1, 2} a then ok a else panic)"
  using assms wf_chain [OF assms, of "frontier s k + 1"]
  by (simp add: next_in_def nth_in_eq slot_eq Let_def)

text \<open>Allocation as a predicate.\<close>

definition key_of :: "address \<Rightarrow> ns_key" where
  "key_of a = (case namespace_of a of Some (Some k) \<Rightarrow> k | _ \<Rightarrow> undefined)"

lemma key_of_chain [simp]: "wf_key k \<Longrightarrow> 0 < n \<Longrightarrow> key_of (addr_of (chain k n)) = k"
  by (simp add: key_of_def namespace_of_chain)

lemma on_chain_key:
  assumes "wf_address a" "2 \<le> tumbler_len (tumbler a)"
  shows "wf_key (key_of a)" "addr_of (chain (key_of a) (ordinal (tumbler a))) = a"
    "0 < ordinal (tumbler a)" "namespace_of a = ret (Some (key_of a))"
  using on_chain [OF assms] by (metis key_of_chain)+

definition allocated :: "m3_state \<Rightarrow> address \<Rightarrow> bool" where
  "allocated s a \<longleftrightarrow>
     (if level a = Node then a \<in> m3_nodes s
      else floor_of (key_of a) < ordinal (tumbler a) \<and>
           ordinal (tumbler a) \<le> stored_frontier s (key_of a))"

lemma not_node_len: "wf_address a \<Longrightarrow> level a \<noteq> Node \<Longrightarrow> 2 \<le> tumbler_len (tumbler a)"
proof -
  assume wf: "wf_address a" and l: "level a \<noteq> Node"
  have "0 \<in> set (comps (tumbler a))" using wf_level_zeros(1) [OF wf] l
    by (metis count_list_0_iff)
  moreover have "hd (comps (tumbler a)) \<noteq> 0" using wf by (simp add: wf_address_def T4_unfold)
  ultimately show ?thesis
    by (cases "comps (tumbler a)"; cases "tl (comps (tumbler a))")
       (auto simp: tumbler_len_def)
qed

lemma is_allocated_eq [returns]:
  assumes "wf_address a"
  shows "is_allocated s a = ret (allocated s a)"
proof (cases "level a = Node")
  case True
  then show ?thesis by (simp add: is_allocated_def allocated_def)
next
  case False
  note c = on_chain_key [OF assms not_node_len [OF assms False]]
  have "is_chain_member s a = ret (allocated s a)"
    using False c(3) by (auto simp: is_chain_member_def c(4) allocated_def stored_frontier_def
        Let_def split: option.splits)
  then show ?thesis using False by (cases "level a") (simp_all add: is_allocated_def)
qed

lemma entity_level_eq [returns]: "wf_address a \<Longrightarrow>
    entity_level s a = ret (if level a \<noteq> Element \<and> allocated s a then Some (level a) else None)"
  by (simp add: entity_level_def is_allocated_eq)

lemma registered_eq [returns]: "wf_address a \<Longrightarrow>
    is_registered_document s a = ret (level a = Document \<and> allocated s a)"
  "wf_address a \<Longrightarrow> is_registered_account s a = ret (level a = Account \<and> allocated s a)"
  by (auto simp: is_registered_document_def is_registered_account_def entity_level_eq)

end
