(* ===== verification/Kernel_Staging.thy ===== *)
theory Kernel_Staging
  imports Skep_Prelude
begin

text \<open>
  The in-memory half of a kernel transaction (\<^verbatim>\<open>crates/skep-kernel/src/kernel.rs\<close>): the committed root,
  the staging a transaction's closure works on, and the sequencer that hands out journal positions.

  A world is any type with a fold \<open>app at world record\<close>; the fold may panic. A staged record is folded
  at the position it would take; \<open>sealed\<close> folds a composite once more at the position its transaction
  commits under, which is what replay does.
\<close>

record ('w, 'c) committed =
  com_seq :: nat
  com_world :: 'w
  com_chain :: 'c

record ('w, 'c, 'r) staging =
  stg_base_root :: "('w, 'c) committed"
  stg_working :: 'w
  stg_records :: "'r list"
  stg_first :: nat

definition staging_new :: "('w, 'c) committed \<Rightarrow> nat \<Rightarrow> ('w, 'c, 'r) staging" where
  "staging_new base first =
     \<lparr>stg_base_root = base, stg_working = com_world base, stg_records = [], stg_first = first\<rparr>"

definition stg_base :: "('w, 'c, 'r) staging \<Rightarrow> 'w" where
  "stg_base stg = com_world (stg_base_root stg)"

definition stg_push ::
    "(nat \<Rightarrow> 'w \<Rightarrow> 'r \<Rightarrow> 'w exec) \<Rightarrow> ('w, 'c, 'r) staging \<Rightarrow> 'r \<Rightarrow> ('w, 'c, 'r) staging exec" where
  "stg_push app stg r = do {
     let at = stg_first stg + length (stg_records stg);
     w \<leftarrow> app at (stg_working stg) r;
     ret (stg\<lparr>stg_working := w, stg_records := stg_records stg @ [r]\<rparr>) }"

definition sealed ::
    "(nat \<Rightarrow> 'w \<Rightarrow> 'r \<Rightarrow> 'w exec) \<Rightarrow> ('w, 'c, 'r) staging \<Rightarrow> ('w, 'c, 'r) staging exec" where
  "sealed app stg =
     (let n = length (stg_records stg) in
      if n \<le> 1 then ret stg
      else do {
        let at = stg_first stg + n - 1;
        w \<leftarrow> exec_fold (app at) (stg_base stg) (stg_records stg);
        ret (stg\<lparr>stg_working := w\<rparr>) })"

section \<open>The sequencer\<close>

text \<open>Positions are \<^verbatim>\<open>u64\<close>; additions that can leave the width are checked by the code.\<close>

definition u64_max :: nat where
  "u64_max = 2 ^ 64 - 1"

datatype burned_seq_policy = Rollback | TolerateGap

record sequencer =
  high_water :: nat
  seq_floor :: nat
  burned_seq :: burned_seq_policy

definition sequencer_recovered :: "nat \<Rightarrow> burned_seq_policy \<Rightarrow> sequencer" where
  "sequencer_recovered f p = \<lparr>high_water = f, seq_floor = f, burned_seq = p\<rparr>"

definition checked_add :: "nat \<Rightarrow> nat \<Rightarrow> nat option" where
  "checked_add a b = (if a + b \<le> u64_max then Some (a + b) else None)"

definition saturating_add :: "nat \<Rightarrow> nat \<Rightarrow> nat" where
  "saturating_add a b = min (a + b) u64_max"

definition sequencer_mint :: "sequencer \<Rightarrow> nat \<Rightarrow> ((nat \<times> nat) \<times> sequencer) option" where
  "sequencer_mint s n =
     (case checked_add (high_water s) n of
        None \<Rightarrow> None
      | Some final \<Rightarrow>
          if final < u64_max then
            let first = high_water s + 1
            in Some ((first, final), s\<lparr>high_water := final\<rparr>)
          else None)"

definition roll_back_to :: "sequencer \<Rightarrow> nat \<Rightarrow> sequencer" where
  "roll_back_to s base_seq =
     (if burned_seq s = Rollback then s\<lparr>high_water := max base_seq (seq_floor s)\<rparr> else s)"

section \<open>Lemmas\<close>

text \<open>A staging whose records were pushed one at a time onto its base.\<close>

inductive staged :: "(nat \<Rightarrow> 'w \<Rightarrow> 'r \<Rightarrow> 'w exec) \<Rightarrow> ('w, 'c) committed \<Rightarrow> nat \<Rightarrow>
    ('w, 'c, 'r) staging \<Rightarrow> bool"
  for app base first where
  staged_new: "staged app base first (staging_new base first)"
| staged_push: "staged app base first stg \<Longrightarrow> stg_push app stg r = ret stg' \<Longrightarrow>
    staged app base first stg'"

lemma staged_base:
  "staged app base first stg \<Longrightarrow> stg_base_root stg = base \<and> stg_first stg = first"
  by (induction rule: staged.induct)
     (auto simp: staging_new_def stg_push_def Let_def split: Option.bind_splits)

lemma staged_working_0:
  "staged app base first stg \<Longrightarrow> stg_records stg = [] \<Longrightarrow> stg_working stg = com_world base"
  by (induction rule: staged.induct)
     (auto simp: staging_new_def stg_push_def Let_def split: Option.bind_splits)

lemma staged_working_1:
  "staged app base first stg \<Longrightarrow> length (stg_records stg) = 1 \<Longrightarrow>
     exec_fold (app first) (com_world base) (stg_records stg) = ret (stg_working stg)"
proof (induction rule: staged.induct)
  case (staged_push stg r stg')
  then have "stg_records stg = []" "stg_first stg = first"
    using staged_base [OF staged_push(1)]
    by (auto simp: stg_push_def Let_def split: Option.bind_splits)
  moreover from this have "stg_working stg = com_world base"
    using staged_working_0 [OF staged_push(1)] by simp
  ultimately show ?case using staged_push(2)
    by (auto simp: stg_push_def Let_def split: Option.bind_splits)
qed (simp add: staging_new_def)

text \<open>What \<open>sealed\<close> leaves is what replaying the records at the transaction's last position gives.\<close>

lemma sealed_is_replay:
  assumes "staged app base first stg" "sealed app stg = ret stg'"
  shows "exec_fold (app (first + length (stg_records stg) - 1)) (com_world base) (stg_records stg)
           = ret (stg_working stg')"
    and "stg_records stg' = stg_records stg"
proof -
  note b = staged_base [OF assms(1)]
  consider "stg_records stg = []" | "length (stg_records stg) = 1" | "1 < length (stg_records stg)"
    by (metis One_nat_def Suc_lessI length_greater_0_conv)
  then have "exec_fold (app (first + length (stg_records stg) - 1)) (com_world base) (stg_records stg)
      = ret (stg_working stg') \<and> stg_records stg' = stg_records stg"
  proof cases
    case 1
    then show ?thesis using staged_working_0 [OF assms(1)] assms(2) by (simp add: sealed_def)
  next
    case 2
    then show ?thesis using staged_working_1 [OF assms(1)] assms(2) by (auto simp: sealed_def)
  next
    case 3
    then show ?thesis using b assms(2)
      by (auto simp: sealed_def Let_def stg_base_def split: Option.bind_splits)
  qed
  then show "exec_fold (app (first + length (stg_records stg) - 1)) (com_world base) (stg_records stg)
           = ret (stg_working stg')"
    and "stg_records stg' = stg_records stg" by simp_all
qed

lemma sequencer_mint_Some:
  "sequencer_mint s n = Some ((first, final), s') \<longleftrightarrow>
     high_water s + n < u64_max \<and> first = high_water s + 1 \<and> final = high_water s + n \<and>
     s' = s\<lparr>high_water := final\<rparr>"
  by (auto simp: sequencer_mint_def checked_add_def Let_def split: if_splits)

lemma sequencer_mint_None: "sequencer_mint s n = None \<longleftrightarrow> u64_max \<le> high_water s + n"
  by (auto simp: sequencer_mint_def checked_add_def Let_def)

end
