(* ===== verification/Namespace_Ops.thy ===== *)
theory Namespace_Ops
  imports Namespace Kernel_Staging
begin

text \<open>
  The namespace's operations (\<^verbatim>\<open>crates/skep-namespace/src/ops.rs\<close>) as closures over a staging, and
  the state machine they and the mints of the other crates drive.

  \<open>m3_reachable\<close> holds of the slices genesis and committed transactions lead to. Its invariant says
  that every chain hangs off a registered entity, that the publication map lists exactly the
  registered documents, that the position map lists exactly the documents and links, and that the
  principals are a sorted registry of allocated accounts with injective ids.
\<close>

section \<open>The operations\<close>

datatype create_document_error = NotOwner | MintFailed mint_error

datatype delegate_error =
    NotValid | NotAccountTier | TooDeep | DelegatorUnknown | NotAncestor | NotAuthorized
  | NotTopDown | NotFresh | DuplicateId | ParentNotRegistered | NotNextForm

datatype register_node_error =
    NodeNotValid | NodeNotNode | NodeTooDeep | NodeNotFresh | NotDescendantOfBootstrap

type_synonym 'c m3_staging = "(m3_state, 'c, m3_rec) staging"

definition create_new_document ::
    "principal_id \<Rightarrow> address \<Rightarrow> bool option \<Rightarrow> 'c m3_staging \<Rightarrow>
     ('c m3_staging \<times> address, create_document_error) result exec" where
  "create_new_document caller account pub stg =
     (if \<not> is_effective_owner (stg_base stg) caller account then err NotOwner
      else do {
        let m3 = stg_working stg;
        let p = (case pub of Some b \<Rightarrow> b | None \<Rightarrow> \<not> has_documents m3 account);
        m \<leftarrow> mint_document m3 account p;
        (case m of
           Inl e \<Rightarrow> err (MintFailed e)
         | Inr (a, r) \<Rightarrow> do { stg' \<leftarrow> stg_push apply_m3 stg r; ok (stg', a) }) })"

text \<open>The gates that read no state, then the closure.\<close>

definition delegate_body ::
    "principal_id \<Rightarrow> address \<Rightarrow> principal_id \<Rightarrow> 'c m3_staging \<Rightarrow>
     ('c m3_staging \<times> address, delegate_error) result exec" where
  "delegate_body delegator new_prefix new_id stg = do {
     pa \<leftarrow> parent new_prefix;
     par \<leftarrow> pa;
     let base = stg_base stg;
     (case principal_prefix base delegator of
        None \<Rightarrow> err DelegatorUnknown
      | Some dp \<Rightarrow>
          if \<not> prefix_contains dp new_prefix \<or> dp = new_prefix then err NotAncestor
          else if \<not> is_effective_owner base delegator new_prefix then err NotAuthorized
          else if has_principal_strictly_under base new_prefix then err NotTopDown
          else do {
            al \<leftarrow> is_allocated base new_prefix;
            if al then err NotFresh
            else if principal_prefix base new_id \<noteq> None then err DuplicateId
            else do {
              m \<leftarrow> mint_account (stg_working stg) par;
              (case m of
                 None \<Rightarrow> err ParentNotRegistered
               | Some (nxt, r) \<Rightarrow>
                   if nxt \<noteq> new_prefix then err NotNextForm
                   else do {
                     stg1 \<leftarrow> stg_push apply_m3 stg r;
                     stg2 \<leftarrow> stg_push apply_m3 stg1
                               (RegisterPrincipal \<lparr>seat_prefix = nxt, seat_id = new_id\<rparr>);
                     ok (stg2, new_prefix) }) } }) }"

definition delegate ::
    "principal_id \<Rightarrow> tumbler \<Rightarrow> principal_id \<Rightarrow> 'c m3_staging \<Rightarrow>
     ('c m3_staging \<times> address, delegate_error) result exec" where
  "delegate delegator t new_id stg = do {
     v \<leftarrow> validate t;
     (case v of
        Inl _ \<Rightarrow> err NotValid
      | Inr new_prefix \<Rightarrow>
          if level new_prefix \<noteq> Account then err NotAccountTier
          else if tumbler_len (tumbler new_prefix) > max_principal_components then err TooDeep
          else delegate_body delegator new_prefix new_id stg) }"

definition register_node ::
    "tumbler \<Rightarrow> 'c m3_staging \<Rightarrow> ('c m3_staging \<times> address, register_node_error) result exec" where
  "register_node t stg = do {
     v \<leftarrow> validate t;
     (case v of
        Inl _ \<Rightarrow> err NodeNotValid
      | Inr a \<Rightarrow>
          if level a \<noteq> Node then err NodeNotNode
          else if tumbler_len (tumbler a) > max_node_components then err NodeTooDeep
          else do {
            l \<leftarrow> entity_level (stg_base stg) a;
            root \<leftarrow> bootstrap_root;
            if l \<noteq> None then err NodeNotFresh
            else if \<not> prefix_contains root a then err NotDescendantOfBootstrap
            else do { stg' \<leftarrow> stg_push apply_m3 stg (RegisterNode a); ok (stg', a) } }) }"

text \<open>\<open>fork\<close> reads the caller's account from a snapshot taken before the transaction.\<close>

definition fork ::
    "m3_state \<Rightarrow> principal_id \<Rightarrow> bool option \<Rightarrow> 'c m3_staging \<Rightarrow>
     ('c m3_staging \<times> address, create_document_error) result exec" where
  "fork snap caller pub stg =
     (case principal_prefix snap caller of
        None \<Rightarrow> err NotOwner
      | Some pfx \<Rightarrow> create_new_document caller pfx pub stg)"

section \<open>The ordered maps\<close>

abbreviation akey :: "address \<times> 'v \<Rightarrow> tumbler" where
  "akey e \<equiv> tumbler (fst e)"

definition amap_sorted :: "(address \<times> 'v) list \<Rightarrow> bool" where
  "amap_sorted m \<longleftrightarrow> sorted_wrt (<) (map akey m)"

lemma amap_entry_None: "amap_entry m a = None \<longleftrightarrow> tumbler a \<notin> akey ` set m"
  by (induction m a rule: amap_entry.induct) (auto split: if_splits)

lemma amap_entry_SomeD: "amap_entry m a = Some e \<Longrightarrow> e \<in> set m \<and> akey e = tumbler a"
  by (induction m) (auto split: if_splits)

lemma amap_contains_iff: "amap_contains m a \<longleftrightarrow> tumbler a \<in> akey ` set m"
  by (simp add: amap_contains_def amap_entry_None)

lemma amap_insert_set:
  "\<not> amap_contains m k \<Longrightarrow> set (amap_insert k v m) = insert (k, v) (set m)"
  by (induction k v m rule: amap_insert.induct) (auto simp: amap_contains_iff split: if_splits)

lemma amap_insert_sorted:
  assumes "amap_sorted m" "\<not> amap_contains m k"
  shows "amap_sorted (amap_insert k v m)"
  using assms
proof (induction m)
  case (Cons e m)
  obtain k' v' where e: "e = (k', v')" by (cases e)
  have ne: "\<not> amap_contains m k" "tumbler k \<noteq> tumbler k'"
    using Cons.prems(2) e by (auto simp: amap_contains_iff)
  then have ih: "amap_sorted (amap_insert k v m)" using Cons by (simp add: amap_sorted_def)
  show ?case
  proof (cases "tumbler k < tumbler k'")
    case True
    then have "\<forall>f \<in> set m. tumbler k < akey f"
      using Cons.prems(1) e by (auto simp: amap_sorted_def intro: less_trans)
    then show ?thesis using True e Cons.prems(1) by (simp add: amap_sorted_def)
  next
    case False
    then have "\<forall>f \<in> set (amap_insert k v m). tumbler k' < akey f"
      using ne(2) Cons.prems(1) e by (auto simp: amap_insert_set [OF ne(1)] amap_sorted_def)
    then show ?thesis using False ne(2) e ih by (simp add: amap_sorted_def)
  qed
qed (simp add: amap_sorted_def)

lemma amap_sorted_inj:
  assumes "amap_sorted m" "e \<in> set m" "f \<in> set m" "akey e = akey f"
  shows "e = f"
proof -
  have "distinct (map akey m)" using assms(1) strict_sorted_imp_sorted
    by (auto simp: amap_sorted_def strict_sorted_iff)
  then show ?thesis using assms(2-4) by (meson distinct_map inj_onD)
qed

lemma amap_entry_mem:
  assumes "amap_sorted m" "(a, v) \<in> set m"
  shows "amap_entry m a = Some (a, v)"
proof (cases "amap_entry m a")
  case None
  then show ?thesis using assms(2) image_eqI [of "tumbler a" akey "(a, v)"]
    by (simp add: amap_entry_None)
next
  case (Some e)
  then show ?thesis
    using amap_entry_SomeD [OF Some] amap_sorted_inj [OF assms(1), of e "(a, v)"] assms(2) by simp
qed

section \<open>The invariant\<close>

definition anchored :: "m3_state \<Rightarrow> ns_key \<Rightarrow> bool" where
  "anchored s k \<longleftrightarrow> (\<exists>a. wf_address a \<and> allocated s a \<and>
     (level a = Document \<and> k \<in> {content_key a, link_key a, version_ns a} \<or>
      level a = Account \<and> k \<in> {document_ns a, account_ns a} \<or>
      level a = Node \<and> k = account_ns a))"

definition inv_chains :: "m3_state \<Rightarrow> bool" where
  "inv_chains s \<longleftrightarrow>
     (\<forall>n \<in> m3_nodes s. wf_address n \<and> level n = Node \<and> hd (comps (tumbler n)) = 1) \<and>
     addr_of [1] \<in> m3_nodes s \<and>
     (\<forall>k. m3_frontiers s k \<noteq> None \<longrightarrow> anchored s k)"

definition inv_principals :: "m3_state \<Rightarrow> bool" where
  "inv_principals s \<longleftrightarrow> amap_sorted (m3_principals s) \<and>
     (\<forall>e \<in> set (m3_principals s). wf_address (fst e) \<and> allocated s (fst e) \<and>
        (level (fst e) = Account \<or> fst e = addr_of [1])) \<and>
     (addr_of [1], bootstrap_principal) \<in> set (m3_principals s) \<and>
     (\<forall>e \<in> set (m3_principals s). \<forall>f \<in> set (m3_principals s). snd e = snd f \<longrightarrow> e = f)"

definition inv_publication :: "m3_state \<Rightarrow> bool" where
  "inv_publication s \<longleftrightarrow> amap_sorted (m3_publication s) \<and>
     fst ` set (m3_publication s) = {d. wf_address d \<and> level d = Document \<and> allocated s d}"

definition inv_positions :: "m3_state \<Rightarrow> bool" where
  "inv_positions s \<longleftrightarrow> dom (m3_minted_at s) =
     {a. wf_address a \<and> (level a = Document \<or> slot_in {2} a) \<and> allocated s a}"

definition m3_inv :: "m3_state \<Rightarrow> bool" where
  "m3_inv s \<longleftrightarrow> inv_chains s \<and> inv_principals s \<and> inv_publication s \<and> inv_positions s"

lemma allocated_by:
  "m3_nodes s = m3_nodes t \<Longrightarrow> m3_frontiers s = m3_frontiers t \<Longrightarrow> allocated s a = allocated t a"
  by (simp add: allocated_def stored_frontier_def)

text \<open>What reads and writes of the slice do to allocation.\<close>

lemma allocated_cong [simp]:
  "allocated (s\<lparr>m3_principals := x\<rparr>) a = allocated s a"
  "allocated (s\<lparr>m3_publication := y\<rparr>) a = allocated s a"
  "allocated (s\<lparr>m3_minted_at := z\<rparr>) a = allocated s a"
  by (simp_all add: allocated_def stored_frontier_def)

lemma frontier_cong [simp]:
  "frontier (s\<lparr>m3_principals := x\<rparr>) k = frontier s k"
  "frontier (s\<lparr>m3_publication := y\<rparr>) k = frontier s k"
  "frontier (s\<lparr>m3_minted_at := z\<rparr>) k = frontier s k"
  "frontier (s\<lparr>m3_nodes := n\<rparr>) k = frontier s k"
  by (simp_all add: frontier_def stored_frontier_def)

lemma anchored_mono:
  "anchored s k \<Longrightarrow> (\<And>a. wf_address a \<Longrightarrow> allocated s a \<Longrightarrow> allocated s' a) \<Longrightarrow> anchored s' k"
  by (fastforce simp: anchored_def)

text \<open>The level a chain's members have.\<close>

definition key_level :: "ns_key \<Rightarrow> level" where
  "key_level k = level_of (chain k 1)"

lemma level_of_chain [simp]: "0 < n \<Longrightarrow> level_of (chain k n) = key_level k"
  by (simp add: key_level_def level_chain)

lemma anchoredE:
  assumes "anchored s k"
  obtains (content) d where "wf_address d" "allocated s d" "level d = Document" "k = content_key d"
    | (link) d where "wf_address d" "allocated s d" "level d = Document" "k = link_key d"
    | (version) d where "wf_address d" "allocated s d" "level d = Document" "k = version_ns d"
    | (document) a where "wf_address a" "allocated s a" "level a = Account" "k = document_ns a"
    | (account) a where "wf_address a" "allocated s a" "level a = Account \<or> level a = Node"
        "k = account_ns a"
  using assms unfolding anchored_def by blast

lemma key_levels:
  assumes "wf_address d"
  shows "level d = Document \<Longrightarrow> key_level (content_key d) = Element"
    "level d = Document \<Longrightarrow> key_level (link_key d) = Element"
    "level d = Document \<Longrightarrow> key_level (version_ns d) = Document"
    "level d = Account \<Longrightarrow> key_level (document_ns d) = Document"
    "level d = Account \<or> level d = Node \<Longrightarrow> key_level (account_ns d) = Account"
  using wf_level_zeros [OF assms]
  by (auto simp: key_level_def chain_content chain_family level_of_def numeral_2_eq_2 numeral_3_eq_3)

lemma anchored_wf: "anchored s k \<Longrightarrow> wf_key k"
  by (erule anchoredE) (auto simp: wf_doc_keys wf_account_keys wf_node_key)

lemma anchored_level: "anchored s k \<Longrightarrow> key_level k \<noteq> Node"
  by (erule anchoredE) (auto simp: key_levels)

lemma anchored_slot:
  assumes "anchored s k" "0 < n" "key_level k = Element"
  shows "slot_in {1, 2} (addr_of (chain k n))"
  using assms by (auto elim!: anchoredE simp: key_levels chain_content slot_on_chain)


section \<open>The fold on the records a mint or an operation stages\<close>

text \<open>The addresses a record issues, and when it is staged against the state it was minted from.\<close>

fun issues :: "m3_rec \<Rightarrow> address set" where
  "issues (Allocate r) = {alloc_addr r}"
| "issues (RegisterNode a) = {a}"
| "issues (RegisterPrincipal p) = {}"
| "issues (AllocateRange r) =
     (\<lambda>i. addr_of (chain (key_of (range_first r)) (ordinal (tumbler (range_first r)) + i)))
       ` {..<range_count r}"

fun mintable :: "m3_state \<Rightarrow> m3_rec \<Rightarrow> bool" where
  "mintable s (Allocate r) \<longleftrightarrow>
     (\<exists>k. anchored s k \<and> alloc_addr r = addr_of (chain k (frontier s k + 1)))"
| "mintable s (RegisterNode a) \<longleftrightarrow> wf_address a \<and> level a = Node \<and> hd (comps (tumbler a)) = 1"
| "mintable s (RegisterPrincipal p) \<longleftrightarrow>
     wf_address (seat_prefix p) \<and> level (seat_prefix p) = Account \<and> allocated s (seat_prefix p) \<and>
     seat_id p \<notin> snd ` set (m3_principals s)"
| "mintable s (AllocateRange r) \<longleftrightarrow> 0 < range_count r \<and>
     (\<exists>d. wf_address d \<and> level d = Document \<and> allocated s d \<and>
        range_first r = addr_of (chain (content_key d) (frontier s (content_key d) + 1)))"

text \<open>Moving one chain's frontier.\<close>

lemma allocated_advance:
  assumes "anchored s k" "wf_address b"
  shows "allocated (s\<lparr>m3_frontiers := (m3_frontiers s)(k \<mapsto> frontier s k + c)\<rparr>) b \<longleftrightarrow>
    allocated s b \<or> (\<exists>i \<in> {1..c}. b = addr_of (chain k (frontier s k + i)))"
proof (cases "level b = Node")
  case True
  then show ?thesis using anchored_level [OF assms(1)] by (auto simp: allocated_def)
next
  case False
  note c = on_chain_key [OF assms(2) not_node_len [OF assms(2) False]]
  let ?o = "ordinal (tumbler b)"
  have k: "wf_key k" by (rule anchored_wf [OF assms(1)])
  have mem: "b = addr_of (chain k n) \<longleftrightarrow> key_of b = k \<and> ?o = n" if "0 < n" for n
    using c(2) that k by (metis key_of_chain ordinal_addr_of chain_simps(1,2))
  have "(\<exists>i \<in> {1..c}. b = addr_of (chain k (frontier s k + i))) \<longleftrightarrow>
      key_of b = k \<and> frontier s k < ?o \<and> ?o \<le> frontier s k + c"
  proof
    assume "key_of b = k \<and> frontier s k < ?o \<and> ?o \<le> frontier s k + c"
    then have "?o - frontier s k \<in> {1..c}" "b = addr_of (chain k (frontier s k + (?o - frontier s k)))"
      using mem [of ?o] c(3) by auto
    then show "\<exists>i \<in> {1..c}. b = addr_of (chain k (frontier s k + i))" by blast
  qed (auto simp: mem)
  then show ?thesis using False
    by (auto simp: allocated_def stored_frontier_def frontier_def max_def split: if_splits option.splits)
qed

lemma on_own_chain:
  assumes "anchored s k" "0 < n"
  shows "wf_address (addr_of (chain k n))" "namespace_of (addr_of (chain k n)) = ret (Some k)"
    "level (addr_of (chain k n)) = key_level k"
  using assms anchored_wf [OF assms(1)] by (simp_all add: wf_chain namespace_of_chain)

lemma not_allocated_next:
  assumes "anchored s k" "0 < i"
  shows "\<not> allocated s (addr_of (chain k (frontier s k + i)))"
  using assms anchored_wf [OF assms(1)] anchored_level [OF assms(1)]
  by (auto simp: allocated_def frontier_def)

text \<open>The closed form of each arm on its domain.\<close>

definition after_allocate :: "nat \<Rightarrow> m3_state \<Rightarrow> ns_key \<Rightarrow> allocation \<Rightarrow> m3_state" where
  "after_allocate at s k r = s\<lparr>
     m3_frontiers := (m3_frontiers s)(k \<mapsto> frontier s k + 1),
     m3_publication :=
       (if level (alloc_addr r) = Document \<and> \<not> amap_contains (m3_publication s) (alloc_addr r)
        then amap_insert (alloc_addr r) (alloc_published r) (m3_publication s) else m3_publication s),
     m3_minted_at :=
       (if (level (alloc_addr r) = Document \<or> slot_in {2} (alloc_addr r)) \<and>
           m3_minted_at s (alloc_addr r) = None
        then (m3_minted_at s)(alloc_addr r \<mapsto> at) else m3_minted_at s)\<rparr>"

lemma apply_allocate:
  assumes "anchored s k" "alloc_addr r = addr_of (chain k (frontier s k + 1))"
  shows "apply_m3 at s (Allocate r) = ret (after_allocate at s k r)"
  using on_own_chain [OF assms(1), of "frontier s k + 1"] assms(2)
  by (simp add: slot_eq after_allocate_def Let_def)

lemma apply_range:
  assumes "anchored s k" "range_first r = addr_of (chain k (frontier s k + 1))"
  shows "apply_m3 at s (AllocateRange r) =
    ret (s\<lparr>m3_frontiers := (m3_frontiers s)(k \<mapsto> frontier s k + range_count r)\<rparr>)"
  using on_own_chain [OF assms(1), of "frontier s k + 1"] assms(2)
  by (simp add: nat_sub_def)

lemma allocated_after:
  assumes "anchored s k" "wf_address b"
  shows "allocated (after_allocate at s k r) b \<longleftrightarrow>
    allocated s b \<or> b = addr_of (chain k (frontier s k + 1))"
proof -
  have "allocated (after_allocate at s k r) b =
      allocated (s\<lparr>m3_frontiers := (m3_frontiers s)(k \<mapsto> frontier s k + 1)\<rparr>) b"
    by (rule allocated_by) (simp_all add: after_allocate_def)
  then show ?thesis using allocated_advance [OF assms, of 1] by simp
qed


section \<open>Preservation\<close>

text \<open>
  The part of each invariant that speaks of allocation, for a step that issues the addresses \<open>A\<close>.
\<close>

definition grows :: "m3_state \<Rightarrow> address set \<Rightarrow> m3_state \<Rightarrow> bool" where
  "grows s A s' \<longleftrightarrow> (\<forall>b. wf_address b \<longrightarrow> allocated s' b \<longleftrightarrow> allocated s b \<or> b \<in> A)"

lemma grows_anchored: "grows s A s' \<Longrightarrow> anchored s k \<Longrightarrow> anchored s' k"
  by (erule anchored_mono) (simp add: grows_def)

lemma inv_principals_grows:
  "inv_principals s \<Longrightarrow> grows s A s' \<Longrightarrow> m3_principals s' = m3_principals s \<Longrightarrow> inv_principals s'"
  by (auto simp: inv_principals_def grows_def)

lemma inv_publication_grows:
  assumes "inv_publication s" "grows s A s'" "m3_publication s' = m3_publication s"
    "\<forall>a \<in> A. wf_address a \<longrightarrow> level a \<noteq> Document"
  shows "inv_publication s'"
  using assms by (auto simp: inv_publication_def grows_def)

lemma inv_positions_grows:
  assumes "inv_positions s" "grows s A s'" "m3_minted_at s' = m3_minted_at s"
    "\<forall>a \<in> A. wf_address a \<longrightarrow> level a \<noteq> Document \<and> \<not> slot_in {2} a"
  shows "inv_positions s'"
  using assms by (auto simp: inv_positions_def grows_def)

lemma inv_chains_grows:
  assumes "inv_chains s" "grows s A s'" "m3_nodes s' = m3_nodes s"
    "m3_frontiers s' = (m3_frontiers s)(k \<mapsto> n)" "anchored s k"
  shows "inv_chains s'"
  using assms grows_anchored [OF assms(2)] by (auto simp: inv_chains_def)

lemma unpublished_next:
  assumes "inv_publication s" "wf_address a" "\<not> allocated s a"
  shows "\<not> amap_contains (m3_publication s) a"
proof
  assume "amap_contains (m3_publication s) a"
  then obtain e where e: "e \<in> set (m3_publication s)" "tumbler a = akey e"
    by (auto simp: amap_contains_iff)
  then have f: "wf_address (fst e)" "allocated s (fst e)" using assms(1) by (auto simp: inv_publication_def)
  then have "fst e = a" using wf_address_eqI [OF _ assms(2)] e(2) by simp
  then show False using f assms(3) by simp
qed

lemma allocate_inv:
  assumes "m3_inv s" "anchored s k" "alloc_addr r = addr_of (chain k (frontier s k + 1))"
  shows "grows s {alloc_addr r} (after_allocate at s k r)" "m3_inv (after_allocate at s k r)"
proof -
  let ?s = "after_allocate at s k r" and ?a = "alloc_addr r"
  note inv = assms(1) [unfolded m3_inv_def]
  show g: "grows s {?a} ?s" using allocated_after [OF assms(2)] assms(3) by (simp add: grows_def)
  have wf: "wf_address ?a" using on_own_chain(1) [OF assms(2)] assms(3) by simp
  have fresh: "\<not> allocated s ?a" using not_allocated_next [OF assms(2), of 1] assms(3) by simp
  have unpub: "\<not> amap_contains (m3_publication s) ?a" using unpublished_next inv wf fresh by blast
  have unpos: "m3_minted_at s ?a = None" using inv fresh by (auto simp: inv_positions_def)
  have "inv_chains ?s"
    by (rule inv_chains_grows [OF _ g _ _ assms(2)]) (use inv in \<open>simp_all add: after_allocate_def\<close>)
  moreover have "inv_principals ?s"
    by (rule inv_principals_grows [OF _ g]) (use inv in \<open>simp_all add: after_allocate_def\<close>)
  moreover have "inv_publication ?s"
  proof (cases "level ?a = Document")
    case True
    have pub: "m3_publication ?s = amap_insert ?a (alloc_published r) (m3_publication s)"
      using True unpub by (simp add: after_allocate_def)
    show ?thesis unfolding inv_publication_def pub
      using inv g True wf amap_insert_sorted [OF _ unpub] amap_insert_set [OF unpub]
      by (auto simp: inv_publication_def grows_def)
  next
    case False
    then show ?thesis
      by (intro inv_publication_grows [OF _ g]) (use inv in \<open>simp_all add: after_allocate_def\<close>)
  qed
  moreover have "inv_positions ?s"
  proof (cases "level ?a = Document \<or> slot_in {2} ?a")
    case True
    then have pos: "m3_minted_at ?s = (m3_minted_at s)(?a \<mapsto> at)"
      using unpos by (simp add: after_allocate_def)
    show ?thesis unfolding inv_positions_def pos
      using inv g True wf by (auto simp: inv_positions_def grows_def)
  next
    case False
    then show ?thesis
      by (intro inv_positions_grows [OF _ g]) (use inv in \<open>simp_all add: after_allocate_def\<close>)
  qed
  ultimately show "m3_inv ?s" by (simp add: m3_inv_def)
qed


lemma range_inv:
  fixes c :: nat
  assumes "m3_inv s" "wf_address d" "level d = Document" "allocated s d"
  defines "k \<equiv> content_key d"
  defines "s' \<equiv> s\<lparr>m3_frontiers := (m3_frontiers s)(k \<mapsto> frontier s k + c)\<rparr>"
  shows "grows s ((\<lambda>i. addr_of (chain k (frontier s k + i))) ` {1..c}) s'" "m3_inv s'"
proof -
  let ?A = "(\<lambda>i. addr_of (chain k (frontier s k + i))) ` {1..c}"
  have anc: "anchored s k" using assms(2-4) by (auto simp: anchored_def k_def)
  note inv = assms(1) [unfolded m3_inv_def]
  show g: "grows s ?A s'" using allocated_advance [OF anc] by (auto simp: grows_def s'_def)
  have out: "level a = Element \<and> \<not> slot_in {2} a" if "a \<in> ?A" for a
  proof -
    obtain i where i: "1 \<le> i" "a = addr_of (chain k (frontier s k + i))" using \<open>a \<in> ?A\<close> by auto
    define n where "n = frontier s k + i"
    have n: "0 < n" "a = addr_of (chain k n)" using i by (simp_all add: n_def)
    then show ?thesis
      using on_own_chain(3) [OF anc n(1)] key_levels(1) [OF assms(2,3)]
        slot_on_chain [OF assms(2,3) n(1), of 1 "{2}"]
      by (simp add: k_def chain_content)
  qed
  have "inv_chains s'"
    by (rule inv_chains_grows [OF _ g _ _ anc]) (use inv in \<open>simp_all add: s'_def\<close>)
  moreover have "inv_principals s'"
    by (rule inv_principals_grows [OF _ g]) (use inv in \<open>simp_all add: s'_def\<close>)
  moreover have "inv_publication s'"
    by (rule inv_publication_grows [OF _ g]) (use inv out in \<open>auto simp: s'_def\<close>)
  moreover have "inv_positions s'"
    by (rule inv_positions_grows [OF _ g]) (use inv out in \<open>auto simp: s'_def\<close>)
  ultimately show "m3_inv s'" by (simp add: m3_inv_def)
qed

lemma node_inv:
  assumes "m3_inv s" "wf_address a" "level a = Node" "hd (comps (tumbler a)) = 1"
  defines "s' \<equiv> s\<lparr>m3_nodes := insert a (m3_nodes s)\<rparr>"
  shows "grows s {a} s'" "m3_inv s'"
proof -
  note inv = assms(1) [unfolded m3_inv_def]
  show g: "grows s {a} s'"
    using assms(3) by (auto simp: grows_def s'_def allocated_def stored_frontier_def)
  have "inv_chains s'" using inv assms(2-4) grows_anchored [OF g]
    by (auto simp: inv_chains_def s'_def)
  moreover have "inv_principals s'"
    by (rule inv_principals_grows [OF _ g]) (use inv in \<open>simp_all add: s'_def\<close>)
  moreover have "inv_publication s'"
    by (rule inv_publication_grows [OF _ g]) (use inv assms(3) in \<open>simp_all add: s'_def\<close>)
  moreover have "inv_positions s'"
    by (rule inv_positions_grows [OF _ g]) (use inv assms(3) in \<open>simp_all add: s'_def slot_in_def\<close>)
  ultimately show "m3_inv s'" by (simp add: m3_inv_def)
qed

definition after_seat :: "m3_state \<Rightarrow> principal \<Rightarrow> m3_state" where
  "after_seat s p = (if \<not> amap_contains (m3_principals s) (seat_prefix p)
     then s\<lparr>m3_principals := amap_insert (seat_prefix p) (seat_id p) (m3_principals s)\<rparr> else s)"

lemma seat_inv:
  assumes "m3_inv s" "mintable s (RegisterPrincipal p)"
  shows "grows s {} (after_seat s p)" "m3_inv (after_seat s p)"
proof -
  let ?s = "after_seat s p" and ?m = "m3_principals s"
  note inv = assms(1) [unfolded m3_inv_def]
  have al: "allocated ?s = allocated s" by (auto simp: after_seat_def)
  show g: "grows s {} ?s" by (simp add: grows_def al)
  have p: "wf_address (seat_prefix p)" "level (seat_prefix p) = Account" "allocated s (seat_prefix p)"
    "seat_id p \<notin> snd ` set ?m" using assms(2) by simp_all
  have "inv_principals ?s"
  proof (cases "amap_contains ?m (seat_prefix p)")
    case True
    then show ?thesis using inv by (simp add: after_seat_def)
  next
    case False
    have pub: "m3_principals ?s = amap_insert (seat_prefix p) (seat_id p) ?m"
      using False by (simp add: after_seat_def)
    have old: "inv_principals s" using inv by simp
    show ?thesis unfolding inv_principals_def pub al amap_insert_set [OF False]
      using old p amap_insert_sorted [OF _ False] unfolding inv_principals_def
      by (auto simp: image_iff)
  qed
  moreover have "anchored ?s = anchored s" by (auto simp: anchored_def al fun_eq_iff)
  ultimately show "m3_inv ?s" using inv
    by (simp add: m3_inv_def inv_chains_def inv_publication_def inv_positions_def al)
       (simp add: after_seat_def)
qed

text \<open>Every record staged where it was minted folds, keeps the invariant and issues what it names.\<close>

lemma mintable_step:
  assumes "m3_inv s" "mintable s r"
  shows "\<exists>s'. apply_m3 at s r = ret s' \<and> m3_inv s' \<and> grows s (issues r) s' \<and>
    (\<forall>a \<in> issues r. level a \<noteq> Node \<longrightarrow> \<not> allocated s a)"
proof (cases r)
  case (Allocate al)
  then obtain k where k: "anchored s k" "alloc_addr al = addr_of (chain k (frontier s k + 1))"
    using assms(2) by auto
  then show ?thesis
    using apply_allocate [OF k, of at] allocate_inv [OF assms(1) k, of at] Allocate
      not_allocated_next [OF k(1), of 1] by auto
next
  case (RegisterNode a)
  then show ?thesis using node_inv [OF assms(1), of a] assms(2) by auto
next
  case (RegisterPrincipal p)
  then show ?thesis using seat_inv [OF assms(1), of p] assms(2) by (auto simp: after_seat_def)
next
  case (AllocateRange ra)
  then obtain d where d: "wf_address d" "level d = Document" "allocated s d" "0 < range_count ra"
    and f: "range_first ra = addr_of (chain (content_key d) (frontier s (content_key d) + 1))"
    using assms(2) by auto
  let ?k = "content_key d"
  have anc: "anchored s ?k" using d by (auto simp: anchored_def)
  have "issues r = (\<lambda>i. addr_of (chain ?k (frontier s ?k + 1 + i))) ` {..<range_count ra}"
    using AllocateRange f anchored_wf [OF anc] by simp
  also have "\<dots> = (\<lambda>i. addr_of (chain ?k (frontier s ?k + i))) ` {1..range_count ra}"
    unfolding image_Suc_lessThan [symmetric] by (simp add: image_image)
  finally have iss: "issues r = (\<lambda>i. addr_of (chain ?k (frontier s ?k + i))) ` {1..range_count ra}" .
  then have fresh: "\<forall>a \<in> issues r. \<not> allocated s a" using not_allocated_next [OF anc] by auto
  note g = range_inv [OF assms(1) d(1-3), of "range_count ra"]
  have "apply_m3 at s r = ret (s\<lparr>m3_frontiers := (m3_frontiers s)(?k \<mapsto> frontier s ?k + range_count ra)\<rparr>)"
    unfolding AllocateRange by (rule apply_range [OF anc f])
  then show ?thesis using g(1) [folded iss] g(2) fresh by (intro exI conjI) simp_all
qed


section \<open>Mints\<close>

text \<open>The closed form of each mint: it refuses exactly the unregistered, and it never panics.\<close>

definition next_addr :: "m3_state \<Rightarrow> ns_key \<Rightarrow> address" where
  "next_addr s k = addr_of (chain k (frontier s k + 1))"

lemma next_in_anchored:
  assumes "anchored s k"
  shows "next_in s k = ok (next_addr s k)"
  using anchored_slot [OF assms, of "frontier s k + 1"] anchored_wf [OF assms]
  by (auto simp: next_in_eq next_addr_def Let_def)

lemma mint_on_anchored: "anchored s k \<Longrightarrow> mint_on s k p =
    ok (next_addr s k, Allocate \<lparr>alloc_addr = next_addr s k, alloc_published = p\<rparr>)"
  by (simp add: mint_on_def next_in_anchored)

lemma anchored_intros [intro]:
  assumes "wf_address a" "allocated s a"
  shows "level a = Document \<Longrightarrow> anchored s (content_key a)"
    "level a = Document \<Longrightarrow> anchored s (link_key a)"
    "level a = Document \<Longrightarrow> anchored s (version_ns a)"
    "level a = Account \<Longrightarrow> anchored s (document_ns a)"
    "level a = Account \<or> level a = Node \<Longrightarrow> anchored s (account_ns a)"
  using assms by (auto simp: anchored_def)

lemma gate_err_ok [simp]: "gate_err (ok x) = ok x"
  by (simp add: gate_err_def)

lemma mint_content_eq [returns]:
  assumes "wf_address h"
  shows "mint_content s h = (if level h = Document \<and> allocated s h
    then ok (next_addr s (content_key h),
             Allocate \<lparr>alloc_addr = next_addr s (content_key h), alloc_published = False\<rparr>)
    else err HomeNotRegistered)"
  using assms anchored_intros(1)
  by (auto simp: mint_content_def registered_eq content_ns_eq mint_on_anchored no_publication_state_def)

lemma mint_content_range_eq [returns]:
  assumes "wf_address h" "0 < n"
  shows "mint_content_range s h n = (if level h = Document \<and> allocated s h
    then ok (next_addr s (content_key h),
             AllocateRange \<lparr>range_first = next_addr s (content_key h), range_count = n\<rparr>)
    else err HomeNotRegistered)"
  using assms anchored_intros(1)
  by (auto simp: mint_content_range_def registered_eq content_ns_eq next_in_anchored)

lemma mint_link_eq [returns]:
  assumes "wf_address h"
  shows "mint_link s h = (if level h = Document \<and> allocated s h
    then ok (next_addr s (link_key h),
             Allocate \<lparr>alloc_addr = next_addr s (link_key h), alloc_published = False\<rparr>)
    else err HomeNotRegistered)"
  using assms anchored_intros(2)
  by (auto simp: mint_link_def registered_eq link_ns_eq mint_on_anchored no_publication_state_def)

lemma mint_version_eq [returns]:
  assumes "wf_address h"
  shows "mint_version s h p = (if level h = Document \<and> allocated s h
    then ok (next_addr s (version_ns h),
             Allocate \<lparr>alloc_addr = next_addr s (version_ns h), alloc_published = p\<rparr>)
    else err SourceNotRegistered)"
  using assms anchored_intros(3) by (auto simp: mint_version_def registered_eq mint_on_anchored)

lemma mint_document_eq [returns]:
  assumes "wf_address h"
  shows "mint_document s h p = (if level h = Account \<and> allocated s h
    then ok (next_addr s (document_ns h),
             Allocate \<lparr>alloc_addr = next_addr s (document_ns h), alloc_published = p\<rparr>)
    else err NotAnAccount)"
  using assms anchored_intros(4) by (auto simp: mint_document_def registered_eq mint_on_anchored)

lemma mint_account_eq [returns]:
  assumes "wf_address h"
  shows "mint_account s h = ret (if (level h = Node \<or> level h = Account) \<and> allocated s h
    then Some (next_addr s (account_ns h),
               Allocate \<lparr>alloc_addr = next_addr s (account_ns h), alloc_published = False\<rparr>)
    else None)"
  using assms anchored_intros(5) [OF assms]
  by (auto simp: mint_account_def entity_level_eq mint_on_anchored no_publication_state_def)

lemma mintable_next: "anchored s k \<Longrightarrow> mintable s (Allocate \<lparr>alloc_addr = next_addr s k, alloc_published = p\<rparr>)"
  by (auto simp: next_addr_def)

text \<open>The records the mints of the other crates stage.\<close>

definition mints :: "m3_state \<Rightarrow> m3_rec \<Rightarrow> bool" where
  "mints s r \<longleftrightarrow> (\<exists>h a p n. wf_address h \<and>
     (mint_content s h = ok (a, r) \<or> 0 < n \<and> mint_content_range s h n = ok (a, r) \<or>
      mint_link s h = ok (a, r) \<or> mint_version s h p = ok (a, r)))"

lemma mints_mintable:
  assumes "mints s r"
  shows "mintable s r"
proof -
  obtain h a p n where wf: "wf_address h" and m: "mint_content s h = ok (a, r) \<or>
      0 < n \<and> mint_content_range s h n = ok (a, r) \<or>
      mint_link s h = ok (a, r) \<or> mint_version s h p = ok (a, r)"
    using assms unfolding mints_def by blast
  from m show ?thesis using wf mintable_next anchored_intros [OF wf]
    by (auto simp: returns split: if_splits simp del: mintable.simps(1))
       (auto simp: next_addr_def)
qed


section \<open>Ownership\<close>

lemma max_by_key_None: "max_by_key f xs = None \<longleftrightarrow> xs = []"
  by (cases xs) (auto split: option.splits)

lemma max_by_key_SomeD:
  assumes "max_by_key f xs = Some y"
  shows "y \<in> set xs \<and> (\<forall>x \<in> set xs. f x \<le> f y)"
  using assms
proof (induction xs arbitrary: y)
  case (Cons a xs)
  show ?case
  proof (cases "max_by_key f xs")
    case None
    then show ?thesis using Cons.prems by (simp add: max_by_key_None)
  next
    case (Some z)
    then show ?thesis using Cons.IH [OF Some] Cons.prems by (fastforce split: if_splits)
  qed
qed simp

lemma same_length_prefixes:
  assumes "prefix_contains p a" "prefix_contains q a" "tumbler_len (tumbler p) = tumbler_len (tumbler q)"
  shows "tumbler p = tumbler q"
proof -
  have "comps (tumbler r) = take (tumbler_len (tumbler r)) (comps (tumbler a))"
    if "prefix_contains r a" for r
    using that by (auto simp: prefix_contains_def is_prefix_iff tumbler_len_def elim: prefixE)
  then show ?thesis using assms by (metis comps_inject)
qed

text \<open>The owner is the principal with the longest prefix, whichever way the registry is traversed.\<close>

lemma omega_iff:
  assumes "inv_principals s"
  shows "omega s a = Some e \<longleftrightarrow> e \<in> set (m3_principals s) \<and> prefix_contains (fst e) a \<and>
    (\<forall>f \<in> set (m3_principals s). prefix_contains (fst f) a \<longrightarrow>
       tumbler_len (akey f) \<le> tumbler_len (akey e))"
proof -
  let ?m = "m3_principals s" and ?len = "\<lambda>(p, i). tumbler_len (tumbler p)"
  let ?c = "filter (\<lambda>(p, i). (level p = Node \<or> level p = Account) \<and> prefix_contains p a) ?m"
  have "level (addr_of [1]) = Node" by (simp add: level_of_def)
  then have tier: "level (fst e) = Node \<or> level (fst e) = Account" if "e \<in> set ?m" for e
    using assms that by (auto simp: inv_principals_def)
  then have c: "set ?c = {e \<in> set ?m. prefix_contains (fst e) a}" by fastforce
  have om: "omega s a = max_by_key ?len ?c" by (simp add: omega_def)
  show ?thesis
  proof
    assume "omega s a = Some e"
    then have "e \<in> set ?c \<and> (\<forall>f \<in> set ?c. ?len f \<le> ?len e)"
      using max_by_key_SomeD [of ?len ?c e] om by simp
    then show "e \<in> set ?m \<and> prefix_contains (fst e) a \<and>
        (\<forall>f \<in> set ?m. prefix_contains (fst f) a \<longrightarrow> tumbler_len (akey f) \<le> tumbler_len (akey e))"
      unfolding c by (auto simp: case_prod_beta)
  next
    assume e: "e \<in> set ?m \<and> prefix_contains (fst e) a \<and>
        (\<forall>f \<in> set ?m. prefix_contains (fst f) a \<longrightarrow> tumbler_len (akey f) \<le> tumbler_len (akey e))"
    then have "e \<in> set ?c" unfolding c by blast
    then have "?c \<noteq> []" using list.set(1) [where ?'a = "address \<times> principal_id"] by fastforce
    then have "max_by_key ?len ?c \<noteq> None" unfolding max_by_key_None .
    then obtain g where g: "max_by_key ?len ?c = Some g" by blast
    then have gm: "g \<in> set ?c \<and> (\<forall>f \<in> set ?c. ?len f \<le> ?len g)" by (rule max_by_key_SomeD)
    have gc: "g \<in> set ?c" by (rule conjunct1 [OF gm])
    have "?len e \<le> ?len g" by (rule bspec [OF conjunct2 [OF gm] \<open>e \<in> set ?c\<close>])
    with gc have g': "g \<in> set ?m" "prefix_contains (fst g) a"
        "tumbler_len (akey e) \<le> tumbler_len (akey g)"
      unfolding c by (simp_all add: case_prod_beta)
    moreover have "tumbler_len (akey g) \<le> tumbler_len (akey e)" using e g'(1,2) by blast
    ultimately have "akey g = akey e" using e by (intro same_length_prefixes [of _ a]) auto
    then have "g = e" using amap_sorted_inj [of ?m g e] assms e g'(1) by (simp add: inv_principals_def)
    then show "omega s a = Some e" using g om by simp
  qed
qed

lemma root_prefix_iff: "prefix_contains (addr_of [1]) a \<longleftrightarrow> hd (comps (tumbler a)) = 1"
  by (cases "comps (tumbler a)") (auto simp: prefix_contains_def is_prefix_iff)

lemma omega_exists:
  assumes "inv_principals s" "hd (comps (tumbler a)) = 1"
  obtains e where "omega s a = Some e"
proof -
  have "(addr_of [1], bootstrap_principal) \<in> set (m3_principals s)"
    using assms(1) by (simp add: inv_principals_def)
  moreover have "prefix_contains (addr_of [1]) a" "level (addr_of [1]) = Node"
    using assms(2) by (simp_all add: root_prefix_iff level_of_def del: One_nat_def)
  ultimately have "filter (\<lambda>(p, i). (level p = Node \<or> level p = Account) \<and> prefix_contains p a)
      (m3_principals s) \<noteq> []" by (force simp: filter_empty_conv simp del: One_nat_def)
  then have "omega s a \<noteq> None" unfolding omega_def max_by_key_None by simp
  then show thesis using that by blast
qed

lemma hd_chain: "hd (chain k n) = hd (comps (ns_parent k))"
  by (simp add: chain_def)

lemma hd_anchored:
  assumes "anchored s k"
    and "\<And>a. wf_address a \<Longrightarrow> allocated s a \<Longrightarrow> tumbler_len (tumbler a) < l \<Longrightarrow> hd (comps (tumbler a)) = 1"
    and "length (chain k n) \<le> l"
  shows "hd (chain k n) = 1"
  using assms(1)
  by (cases rule: anchoredE)
     (use assms(2,3) in \<open>auto simp: chain_content chain_family tumbler_len_def\<close>)

text \<open>Every allocated address descends from the bootstrap node.\<close>

lemma allocated_on_anchored:
  assumes "inv_chains s" "wf_address a" "allocated s a" "level a \<noteq> Node"
  shows "anchored s (key_of a)" "a = addr_of (chain (key_of a) (ordinal (tumbler a)))"
    "0 < ordinal (tumbler a)"
proof -
  note c = on_chain_key [OF assms(2) not_node_len [OF assms(2,4)]]
  have "m3_frontiers s (key_of a) \<noteq> None"
    using assms(3,4) c(3) by (auto simp: allocated_def stored_frontier_def split: option.splits)
  then show "anchored s (key_of a)" using assms(1) by (simp add: inv_chains_def)
qed (use on_chain_key [OF assms(2) not_node_len [OF assms(2,4)]] in simp_all)

lemma allocated_lineage:
  assumes "inv_chains s" "wf_address a" "allocated s a"
  shows "hd (comps (tumbler a)) = 1"
  using assms(2,3)
proof (induction "tumbler_len (tumbler a)" arbitrary: a rule: less_induct)
  case less
  show ?case
  proof (cases "level a = Node")
    case True
    then show ?thesis using assms(1) less.prems by (auto simp: inv_chains_def allocated_def)
  next
    case False
    note c = allocated_on_anchored [OF assms(1) less.prems False]
    have "comps (tumbler a) = chain (key_of a) (ordinal (tumbler a))"
      using c(2) by (metis comps_addr_of chain_simps(1))
    then show ?thesis
      using hd_anchored [OF c(1), of "tumbler_len (tumbler a)" "ordinal (tumbler a)"] less.hyps
      by (simp add: tumbler_len_def)
  qed
qed

lemma prefix_squeezed:
  fixes ps :: "nat list"
  assumes "ps \<noteq> []" "ps \<le> qs" "qs < rs" "prefix ps rs"
  shows "prefix ps qs"
proof -
  obtain us x where ps: "ps = us @ [x]" using assms(1) by (cases ps rule: rev_cases) auto
  then have "rs < us @ [Suc x]" using assms(4) prefix_interval_iff [of us x rs] by simp
  then show ?thesis using prefix_interval_iff [of us x qs] assms(2,3) ps by auto
qed

text \<open>The search for a principal strictly under a prefix looks at one entry: the next in order.\<close>

lemma strictly_under_iff:
  assumes "amap_sorted (m3_principals s)"
  shows "has_principal_strictly_under s p \<longleftrightarrow>
    (\<exists>e \<in> set (m3_principals s). prefix_contains p (fst e) \<and> akey e \<noteq> tumbler p)"
proof -
  have "(case find (\<lambda>(q, i). tumbler p < tumbler q) m of None \<Rightarrow> False | Some (q, i) \<Rightarrow> prefix_contains p q)
     \<longleftrightarrow> (\<exists>e \<in> set m. prefix_contains p (fst e) \<and> akey e \<noteq> tumbler p)" if "amap_sorted m"
    for m :: "(address \<times> principal_id) list"
    using that
  proof (induction m)
    case (Cons e m)
    obtain q i where e: "e = (q, i)" by (cases e)
    have srt: "amap_sorted m" "\<forall>f \<in> set m. tumbler q < akey f"
      using Cons.prems e by (auto simp: amap_sorted_def)
    have up: "tumbler p < akey f" if "prefix_contains p (fst f)" "akey f \<noteq> tumbler p"
      for f :: "address \<times> principal_id"
      using that is_prefix_le [of "tumbler p" "akey f"] by (simp add: prefix_contains_def)
    show ?case
    proof (cases "tumbler p < tumbler q")
      case True
      have "prefix_contains p q" if f: "f \<in> set m" "prefix_contains p (fst f)" for f
      proof -
        have "tumbler q < akey f" using srt(2) f(1) by blast
        then show ?thesis
          using True f(2) prefix_squeezed [of "comps (tumbler p)" "comps (tumbler q)" "comps (akey f)"]
          by (simp add: prefix_contains_def is_prefix_iff less_tumbler_def)
      qed
      then show ?thesis using True e by auto
    next
      case False
      then show ?thesis using Cons.IH [OF srt(1)] e up [of "(q, i)"] by auto
    qed
  qed simp
  then show ?thesis using assms by (simp add: has_principal_strictly_under_def)
qed


section \<open>Transactions\<close>

text \<open>A namespace operation run as a transaction from a committed slice.\<close>

definition m3_transact ::
    "(unit m3_staging \<Rightarrow> (unit m3_staging \<times> address, 'e) result exec) \<Rightarrow> m3_state \<Rightarrow> nat \<Rightarrow>
     (m3_state \<times> address, 'e) result exec" where
  "m3_transact body s first =
     and_then (body (staging_new \<lparr>com_seq = first - 1, com_world = s, com_chain = ()\<rparr> first))
       (\<lambda>(stg, a). do { stg' \<leftarrow> sealed apply_m3 stg; ok (stg_working stg', a) })"

lemmas staging_defs = staging_new_def stg_base_def stg_push_def sealed_def m3_transact_def

lemma find_SomeD: "find P xs = Some x \<Longrightarrow> x \<in> set xs \<and> P x"
  by (induction xs) (auto split: if_splits)

lemma principal_prefix_iff:
  assumes "inv_principals s"
  shows "principal_prefix s i = Some p \<longleftrightarrow> (p, i) \<in> set (m3_principals s)"
proof
  assume "principal_prefix s i = Some p"
  then show "(p, i) \<in> set (m3_principals s)"
    by (auto simp: principal_prefix_def dest!: find_SomeD)
next
  assume mem: "(p, i) \<in> set (m3_principals s)"
  then obtain e where e: "find (\<lambda>(p, j). j = i) (m3_principals s) = Some e"
    by (cases "find (\<lambda>(p, j). j = i) (m3_principals s)") (auto simp: find_None_iff)
  then have "e \<in> set (m3_principals s)" "snd e = i" by (auto dest!: find_SomeD)
  then have "e = (p, i)" using assms mem unfolding inv_principals_def by (metis snd_conv)
  then show "principal_prefix s i = Some p" using e by (simp add: principal_prefix_def)
qed

lemma principal_prefix_None:
  assumes "inv_principals s"
  shows "principal_prefix s i = None \<longleftrightarrow> i \<notin> snd ` set (m3_principals s)"
proof -
  have "principal_prefix s i \<noteq> None \<longleftrightarrow> (\<exists>p. (p, i) \<in> set (m3_principals s))"
    using principal_prefix_iff [OF assms] by auto
  also have "\<dots> \<longleftrightarrow> i \<in> snd ` set (m3_principals s)" by force
  finally show ?thesis by blast
qed

lemma and_then_if: "and_then (if b then x else y) f = (if b then and_then x f else and_then y f)"
  by simp

lemma and_then_option: "and_then (case z of None \<Rightarrow> x | Some v \<Rightarrow> y v) f =
    (case z of None \<Rightarrow> and_then x f | Some v \<Rightarrow> and_then (y v) f)"
  by (simp split: option.splits)

text \<open>An account address and its parent's account chain.\<close>

lemma account_parent:
  assumes "wf_address a" "level a = Account"
  obtains p where "parent a = ret (Some p)" "wf_address p" "key_of a = account_ns p"
    "level p = Node \<or> level p = Account" "a = addr_of (chain (account_ns p) (ordinal (tumbler a)))"
    "prefix_contains p a" "p \<noteq> a"
proof -
  have len: "2 \<le> tumbler_len (tumbler a)" using not_node_len assms by simp
  note c = on_chain_key [OF assms(1) len]
  obtain p where p: "parent a = ret (Some p)" "wf_address p"
    "comps (tumbler p) = take (peel (comps (tumbler a))) (comps (tumbler a))"
    by (rule parent_eq [OF assms(1) len])
  have key: "key_of a = account_ns p"
    using c(4) p(1) assms(2) by (simp add: namespace_of_def account_ns_def)
  have pre: "prefix_contains p a"
    using p(3) take_is_prefix by (simp add: prefix_contains_def is_prefix_iff)
  have "count_list (comps (tumbler a)) 0 = 1" using wf_level_zeros(2) [OF assms(1)] assms(2) by simp
  then have "count_list (comps (tumbler p)) 0 \<le> 1"
    using count_list_0_prefix [of "comps (tumbler p)" "comps (tumbler a)"] p(3)
    by (simp add: take_is_prefix)
  then have "level p = Node \<or> level p = Account"
    using wf_level_zeros(1,2) [OF p(2)] by linarith
  moreover have "length (comps (tumbler p)) < length (comps (tumbler a))"
    using p(3) peel_bounds(2) [of "comps (tumbler a)"] assms(1) len
    by (simp add: wf_address_def tumbler_len_def)
  then have "p \<noteq> a" by auto
  ultimately show thesis using that p key pre c(2) by metis
qed

definition delegated :: "nat \<Rightarrow> m3_state \<Rightarrow> address \<Rightarrow> principal_id \<Rightarrow> m3_state" where
  "delegated at s a i =
     after_seat (after_allocate at s (key_of a) \<lparr>alloc_addr = a, alloc_published = False\<rparr>)
       \<lparr>seat_prefix = a, seat_id = i\<rparr>"

text \<open>\<open>delegate\<close> on every branch, in the order of its checks.\<close>

lemma delegate_eq:
  assumes inv: "m3_inv s"
  shows "m3_transact (delegate d t i) s first =
    (let a = addr_of (comps t); ps = m3_principals s in
     if \<not> T4 (comps t) then err NotValid
     else if level a \<noteq> Account then err NotAccountTier
     else if 64 < tumbler_len t then err TooDeep
     else (case principal_prefix s d of
             None \<Rightarrow> err DelegatorUnknown
           | Some dp \<Rightarrow>
               if \<not> prefix_contains dp a \<or> dp = a then err NotAncestor
               else if effective_owner s a \<noteq> Some d then err NotAuthorized
               else if \<exists>e \<in> set ps. prefix_contains a (fst e) \<and> akey e \<noteq> t then err NotTopDown
               else if allocated s a then err NotFresh
               else if i \<in> snd ` set ps then err DuplicateId
               else if \<not> allocated s (the (the (parent a))) then err ParentNotRegistered
               else if a \<noteq> next_addr s (key_of a) then err NotNextForm
               else ok (delegated (first + 1) s a i, a)))"
proof (cases "T4 (comps t) \<and> level (addr_of (comps t)) = Account")
  case False
  then show ?thesis by (auto simp: staging_defs delegate_def validate_eq addr_of_def Let_def)
next
  case True
  let ?a = "addr_of (comps t)" and ?ps = "m3_principals s"
  have wf: "wf_address ?a" "level ?a = Account" "tumbler ?a = t"
    using True wf_addr_of [of "comps t"] by (simp_all add: addr_of_def)
  obtain p where p: "parent ?a = ret (Some p)" "wf_address p" "key_of ?a = account_ns p"
    "level p = Node \<or> level p = Account" by (rule account_parent [OF wf(1,2)])
  have pr: "inv_principals s" using inv by (simp add: m3_inv_def)
  have v: "validate t = ok ?a" using True by (simp add: validate_eq addr_of_def)
  have under: "has_principal_strictly_under s ?a \<longleftrightarrow>
      (\<exists>e \<in> set ?ps. prefix_contains ?a (fst e) \<and> akey e \<noteq> t)"
    using strictly_under_iff [of s ?a] pr wf(3) by (simp add: inv_principals_def)
  note steps = is_allocated_eq [OF wf(1)] is_effective_owner_def
    max_principal_components_def
  have seat: "apply_m3 at s' (RegisterPrincipal q) = ret (after_seat s' q)" for at s' q
    by (simp add: after_seat_def)
  have al: "apply_m3 at s (Allocate \<lparr>alloc_addr = ?a, alloc_published = False\<rparr>) =
      ret (after_allocate at s (account_ns p) \<lparr>alloc_addr = ?a, alloc_published = False\<rparr>)"
    if "allocated s p" "next_addr s (account_ns p) = ?a" for at
    using apply_allocate [of s "account_ns p" "\<lparr>alloc_addr = ?a, alloc_published = False\<rparr>" at]
      anchored_intros(5) [OF p(2)] p(4) that by (auto simp: next_addr_def simp del: apply_m3.simps)
  have body: "m3_transact (delegate_body d ?a i) s first =
    (case principal_prefix s d of
       None \<Rightarrow> err DelegatorUnknown
     | Some dp \<Rightarrow>
         if \<not> prefix_contains dp ?a \<or> dp = ?a then err NotAncestor
         else if effective_owner s ?a \<noteq> Some d then err NotAuthorized
         else if has_principal_strictly_under s ?a then err NotTopDown
         else if allocated s ?a then err NotFresh
         else if i \<in> snd ` set ?ps then err DuplicateId
         else if \<not> allocated s p then err ParentNotRegistered
         else if next_addr s (account_ns p) \<noteq> ?a then err NotNextForm
         else ok (delegated (first + 1) s ?a i, ?a))" (is "_ = ?R")
  proof -
    consider (unregistered) "\<not> allocated s p" | (other) "allocated s p" "next_addr s (account_ns p) \<noteq> ?a"
      | (own) "allocated s p" "next_addr s (account_ns p) = ?a" by blast
    then show ?thesis
    proof cases
      case unregistered
      then have m: "mint_account s p = ret None" by (simp add: mint_account_eq [OF p(2)])
      show ?thesis using unregistered unfolding staging_defs delegate_body_def
        by (simp add: p(1,3) wf(3) steps m Let_def principal_prefix_None [OF pr] and_then_if and_then_option
          del: apply_m3.simps not_None_eq split del: if_split cong: if_cong option.case_cong)
    next
      case other
      then have m: "mint_account s p = ret (Some (next_addr s (account_ns p),
          Allocate \<lparr>alloc_addr = next_addr s (account_ns p), alloc_published = False\<rparr>))"
        using p(4) by (auto simp: mint_account_eq [OF p(2)])
      show ?thesis using other unfolding staging_defs delegate_body_def
        by (simp add: p(1,3) wf(3) steps m Let_def principal_prefix_None [OF pr] and_then_if and_then_option
          del: apply_m3.simps not_None_eq split del: if_split cong: if_cong option.case_cong)
    next
      case own
      then have m: "mint_account s p = ret (Some (?a,
          Allocate \<lparr>alloc_addr = ?a, alloc_published = False\<rparr>))"
        using p(4) by (auto simp: mint_account_eq [OF p(2)])
      show ?thesis using own unfolding staging_defs delegate_body_def
        by (simp add: p(1,3) wf(3) steps m Let_def principal_prefix_None [OF pr] and_then_if and_then_option
          al seat delegated_def
          del: apply_m3.simps not_None_eq split del: if_split cong: if_cong option.case_cong)
    qed
  qed
  have pp: "the (the (parent ?a)) = p" by (simp add: p(1))
  have "tumbler_len (tumbler ?a) = tumbler_len t" using wf(3) by simp
  then have "m3_transact (delegate d t i) s first =
      (if 64 < tumbler_len t then err TooDeep else m3_transact (delegate_body d ?a i) s first)"
    unfolding m3_transact_def delegate_def v using wf(2) by (simp add: max_principal_components_def)
  then show ?thesis unfolding body using True wf(2)
    by (simp add: Let_def pp p(3) under eq_commute [of ?a] split del: if_split cong: if_cong option.case_cong)
qed


definition new_document_bit :: "m3_state \<Rightarrow> address \<Rightarrow> bool option \<Rightarrow> bool" where
  "new_document_bit s a pub = (case pub of Some b \<Rightarrow> b | None \<Rightarrow> \<not> has_documents s a)"

lemma create_new_document_eq:
  assumes "wf_address a"
  shows "m3_transact (create_new_document c a pub) s first =
    (if effective_owner s a \<noteq> Some c then err NotOwner
     else if \<not> (level a = Account \<and> allocated s a) then err (MintFailed NotAnAccount)
     else ok (after_allocate first s (document_ns a)
                \<lparr>alloc_addr = next_addr s (document_ns a), alloc_published = new_document_bit s a pub\<rparr>,
              next_addr s (document_ns a)))"
proof -
  have al: "apply_m3 at s (Allocate \<lparr>alloc_addr = next_addr s (document_ns a), alloc_published = b\<rparr>) =
      ret (after_allocate at s (document_ns a)
             \<lparr>alloc_addr = next_addr s (document_ns a), alloc_published = b\<rparr>)"
    if "level a = Account" "allocated s a" for at b
    using apply_allocate [OF anchored_intros(4) [OF assms that(2,1)],
        of "\<lparr>alloc_addr = next_addr s (document_ns a), alloc_published = b\<rparr>" at]
    by (simp add: next_addr_def del: apply_m3.simps)
  show ?thesis
    by (simp add: staging_defs create_new_document_def is_effective_owner_def mint_document_eq [OF assms]
        al Let_def new_document_bit_def del: apply_m3.simps)
qed

lemma register_node_eq:
  "m3_transact (register_node t) s first =
    (let a = addr_of (comps t) in
     if \<not> T4 (comps t) then err NodeNotValid
     else if level a \<noteq> Node then err NodeNotNode
     else if 32 < tumbler_len t then err NodeTooDeep
     else if a \<in> m3_nodes s then err NodeNotFresh
     else if hd (comps t) \<noteq> 1 then err NotDescendantOfBootstrap
     else ok (s\<lparr>m3_nodes := insert a (m3_nodes s)\<rparr>, a))"
proof (cases "T4 (comps t) \<and> level (addr_of (comps t)) = Node")
  case False
  then show ?thesis by (auto simp: staging_defs register_node_def validate_eq addr_of_def Let_def)
next
  case True
  let ?a = "addr_of (comps t)"
  have wf: "wf_address ?a" "tumbler ?a = t" and v: "validate t = ok ?a"
    using True wf_addr_of [of "comps t"] by (simp_all add: validate_eq addr_of_def)
  have "allocated s ?a \<longleftrightarrow> ?a \<in> m3_nodes s" using True by (simp add: allocated_def)
  then show ?thesis using True
    by (simp add: staging_defs register_node_def v entity_level_eq [OF wf(1)] wf(2) known_addresses
        max_node_components_def Let_def root_prefix_iff [unfolded One_nat_def])
qed

section \<open>Reachable slices\<close>

inductive m3_reachable :: "m3_state \<Rightarrow> bool" where
  reach_genesis: "genesis = ret s \<Longrightarrow> m3_reachable s"
| reach_mint: "m3_reachable s \<Longrightarrow> mints s r \<Longrightarrow> apply_m3 at s r = ret s' \<Longrightarrow> m3_reachable s'"
| reach_create: "m3_reachable s \<Longrightarrow> wf_address a \<Longrightarrow>
    m3_transact (create_new_document c a pub) s first = ok (s', b) \<Longrightarrow> m3_reachable s'"
| reach_fork: "m3_reachable s \<Longrightarrow> m3_reachable snap \<Longrightarrow>
    m3_transact (fork snap c pub) s first = ok (s', b) \<Longrightarrow> m3_reachable s'"
| reach_delegate: "m3_reachable s \<Longrightarrow>
    m3_transact (delegate d t i) s first = ok (s', b) \<Longrightarrow> m3_reachable s'"
| reach_node: "m3_reachable s \<Longrightarrow>
    m3_transact (register_node t) s first = ok (s', b) \<Longrightarrow> m3_reachable s'"

lemma delegated_inv:
  assumes "m3_inv s" "m3_transact (delegate d t i) s first = ok (s', a)"
  shows "tumbler a = t" "wf_address a" "level a = Account" "s' = delegated (first + 1) s a i"
    "\<not> allocated s a" "grows s {a} s'" "m3_inv s'" "i \<notin> snd ` set (m3_principals s)"
    "effective_owner s a = Some d"
    "\<forall>e \<in> set (m3_principals s). prefix_contains a (fst e) \<longrightarrow> akey e = t"
proof -
  note eq = assms(2) [unfolded delegate_eq [OF assms(1)] Let_def]
  show a: "tumbler a = t" "wf_address a" "level a = Account" and s': "s' = delegated (first + 1) s a i"
    and fresh: "\<not> allocated s a" and i: "i \<notin> snd ` set (m3_principals s)"
    and "effective_owner s a = Some d"
    and "\<forall>e \<in> set (m3_principals s). prefix_contains a (fst e) \<longrightarrow> akey e = t"
    using eq by (auto simp: wf_addr_of split: if_splits option.splits)
  obtain p where p: "parent a = ret (Some p)" "wf_address p" "key_of a = account_ns p"
    "level p = Node \<or> level p = Account" by (rule account_parent [OF a(2,3)])
  have "allocated s p" "a = next_addr s (account_ns p)"
    using eq p(1,3) by (auto split: if_splits option.splits)
  then have anc: "anchored s (account_ns p)" and na: "a = addr_of (chain (account_ns p) (frontier s (account_ns p) + 1))"
    using anchored_intros(5) [OF p(2)] p(4) by (auto simp: next_addr_def)
  let ?r = "\<lparr>alloc_addr = a, alloc_published = False\<rparr>"
  let ?s1 = "after_allocate (first + 1) s (account_ns p) ?r"
  have r: "alloc_addr ?r = addr_of (chain (account_ns p) (frontier s (account_ns p) + 1))" using na by simp
  note s1 = allocate_inv [OF assms(1) anc r, of "first + 1"]
  have "allocated ?s1 a" using s1(1) a(2) by (simp add: grows_def)
  moreover have "m3_principals ?s1 = m3_principals s" by (simp add: after_allocate_def)
  ultimately have m: "mintable ?s1 (RegisterPrincipal \<lparr>seat_prefix = a, seat_id = i\<rparr>)"
    using a i by simp
  note s2 = seat_inv [OF s1(2) m]
  have "s' = after_seat ?s1 \<lparr>seat_prefix = a, seat_id = i\<rparr>" by (simp add: s' delegated_def p(3))
  then show "grows s {a} s'" "m3_inv s'" using s1(1) s2 by (auto simp: grows_def)
qed

lemma created_inv:
  assumes "m3_inv s" "wf_address a" "m3_transact (create_new_document c a pub) s first = ok (s', b)"
  shows "grows s {b} s'" "m3_inv s'" "\<not> allocated s b"
proof -
  let ?k = "document_ns a"
  let ?r = "\<lparr>alloc_addr = next_addr s ?k, alloc_published = new_document_bit s a pub\<rparr>"
  have ok: "level a = Account" "allocated s a" "s' = after_allocate first s ?k ?r" "b = next_addr s ?k"
    using assms(3) unfolding create_new_document_eq [OF assms(2)] by (auto split: if_splits)
  have anc: "anchored s ?k" by (rule anchored_intros(4) [OF assms(2) ok(2,1)])
  have r: "alloc_addr ?r = addr_of (chain ?k (frontier s ?k + 1))" by (simp add: next_addr_def)
  show "grows s {b} s'" "m3_inv s'" using allocate_inv [OF assms(1) anc r, of first] ok by simp_all
  show "\<not> allocated s b" using not_allocated_next [OF anc, of 1] ok(4) by (simp add: next_addr_def)
qed

lemma fork_eq:
  "m3_transact (fork snap c pub) s first =
    (case principal_prefix snap c of None \<Rightarrow> err NotOwner
     | Some a \<Rightarrow> m3_transact (create_new_document c a pub) s first)"
  by (simp add: m3_transact_def fork_def split: option.splits)


text \<open>Genesis: the roots satisfy the invariant, and each seed record is staged where it belongs.\<close>

definition roots :: m3_state where
  "roots = \<lparr>m3_frontiers = Map.empty, m3_nodes = {addr_of [1]},
            m3_principals = [(addr_of [1], bootstrap_principal)], m3_publication = [],
            m3_minted_at = Map.empty\<rparr>"

lemma wf_known: "wf_address (addr_of [1])" "wf_address (addr_of [1, 1])"
  "wf_address (addr_of [1, 1, 0, 1])" "wf_address (addr_of [1, 1, 0, 1, 0, 1])"
  by (simp_all add: wf_addr_of del: One_nat_def)

lemma roots_inv: "m3_inv roots"
proof -
  have none: "allocated roots a \<longleftrightarrow> a = addr_of [1]" if "wf_address a" for a
  proof (cases "level a = Node")
    case False
    then have "a \<noteq> addr_of [1]" by (auto simp: level_of_def)
    then show ?thesis using False by (simp add: allocated_def roots_def stored_frontier_def)
  qed (simp add: allocated_def roots_def)
  have lvl: "level (addr_of [1]) = Node" by (simp add: level_of_def)
  have "inv_chains roots" using wf_known(1) lvl by (auto simp: inv_chains_def roots_def)
  moreover have "inv_principals roots"
    using none [OF wf_known(1)] wf_known(1)
    by (auto simp: inv_principals_def amap_sorted_def) (auto simp: roots_def)
  moreover have "inv_publication roots"
    using none lvl by (auto simp: inv_publication_def amap_sorted_def) (auto simp: roots_def)
  moreover have "inv_positions roots"
    using none lvl by (auto simp: inv_positions_def slot_in_def) (auto simp: roots_def)
  ultimately show ?thesis by (simp add: m3_inv_def)
qed

lemma genesis_returns: "\<exists>s. genesis = ret s \<and> m3_inv s"
proof -
  let ?node = "addr_of [1, 1]" and ?sa = "addr_of [1, 1, 0, 1]"
  let ?gh = "addr_of [1, 1, 0, 1, 0, 1]" and ?hd = "addr_of [1, 1, 0, 1, 0, 2]"
  let ?alloc = "\<lambda>a p. Allocate \<lparr>alloc_addr = a, alloc_published = p\<rparr>"
  have lvl: "level ?node = Node" "level ?sa = Account" by (simp_all add: level_of_def)
  have seed: "genesis_seed = ret [RegisterNode ?node, ?alloc ?sa False,
      RegisterPrincipal \<lparr>seat_prefix = ?sa, seat_id = system_principal\<rparr>, ?alloc ?gh True, ?alloc ?hd True]"
    by (simp add: genesis_seed_def known_addresses no_publication_state_def)
  define s1 where "s1 = roots\<lparr>m3_nodes := insert ?node (m3_nodes roots)\<rparr>"
  have s1: "m3_inv s1" unfolding s1_def
    by (rule node_inv(2) [OF roots_inv wf_known(2) lvl(1)]) simp
  define k where "k = account_ns ?node"
  have anc1: "anchored s1 k" unfolding k_def
    by (rule anchored_intros(5) [OF wf_known(2)]) (simp_all add: level_of_def allocated_def s1_def)
  have front: "frontier roots q = floor_of q" for q
    by (simp add: frontier_def stored_frontier_def roots_def)
  have kne: "k \<noteq> ghost_key" "document_ns ?sa \<noteq> ghost_key" "k \<noteq> document_ns ?sa"
    using lvl by (auto simp: k_def account_ns_def ghost_key_def document_ns_def ns_generator_def addr_of_def
        tumbler_eq_iff simp flip: comps_inject)
  have ck: "addr_of (chain k (frontier s1 k + 1)) = ?sa"
    using kne lvl by (simp add: s1_def front floor_of_def k_def chain_family)
  have a1: "alloc_addr \<lparr>alloc_addr = ?sa, alloc_published = False\<rparr> = addr_of (chain k (frontier s1 k + 1))"
    using ck by simp
  define s2 where "s2 = after_allocate 0 s1 k \<lparr>alloc_addr = ?sa, alloc_published = False\<rparr>"
  have s2: "m3_inv s2" and al2: "allocated s2 ?sa"
    using allocate_inv [OF s1 anc1 a1, of 0] wf_known(3) by (simp_all add: s2_def grows_def)
  define s3 where "s3 = after_seat s2 \<lparr>seat_prefix = ?sa, seat_id = system_principal\<rparr>"
  have m3: "mintable s2 (RegisterPrincipal \<lparr>seat_prefix = ?sa, seat_id = system_principal\<rparr>)"
    using wf_known(3) lvl(2) al2
    by (simp add: s2_def s1_def after_allocate_def roots_def system_principal_def bootstrap_principal_def)
  have s3: "m3_inv s3" unfolding s3_def by (rule seat_inv(2) [OF s2 m3])
  have al3: "allocated s3 ?sa" using al2 by (simp add: s3_def after_seat_def)
  define d where "d = document_ns ?sa"
  have anc3: "anchored s3 d" unfolding d_def by (rule anchored_intros(4) [OF wf_known(3) al3 lvl(2)])
  have f3: "frontier s3 d = 0"
    using kne by (simp add: s3_def after_seat_def s2_def after_allocate_def frontier_def stored_frontier_def
        s1_def roots_def floor_of_def d_def)
  have a3: "alloc_addr \<lparr>alloc_addr = ?gh, alloc_published = True\<rparr> = addr_of (chain d (frontier s3 d + 1))"
    by (simp add: f3) (simp add: d_def chain_family)
  define s4 where "s4 = after_allocate 0 s3 d \<lparr>alloc_addr = ?gh, alloc_published = True\<rparr>"
  have s4: "m3_inv s4" unfolding s4_def by (rule allocate_inv(2) [OF s3 anc3 a3])
  have anc4: "anchored s4 d"
    using anc3 allocate_inv(1) [OF s3 anc3 a3, of 0] grows_anchored by (auto simp: s4_def)
  have f4: "frontier s4 d = 1"
    using kne f3 by (simp add: s4_def after_allocate_def frontier_def stored_frontier_def floor_of_def d_def)
  have a4: "alloc_addr \<lparr>alloc_addr = ?hd, alloc_published = True\<rparr> = addr_of (chain d (frontier s4 d + 1))"
    by (simp add: f4) (simp add: d_def chain_family numeral_2_eq_2)
  have e1: "apply_m3 0 roots (RegisterNode ?node) = ret s1" by (simp add: s1_def)
  have e2: "apply_m3 0 s1 (?alloc ?sa False) = ret s2"
    using apply_allocate [OF anc1 a1] by (simp only: s2_def)
  have e3: "apply_m3 0 s2 (RegisterPrincipal \<lparr>seat_prefix = ?sa, seat_id = system_principal\<rparr>) = ret s3"
    by (simp add: s3_def after_seat_def)
  have e4: "apply_m3 0 s3 (?alloc ?gh True) = ret s4"
    using apply_allocate [OF anc3 a3] by (simp only: s4_def)
  note e5 = apply_allocate [OF anc4 a4, of 0]
  have "exec_fold (apply_m3 0) roots [RegisterNode ?node, ?alloc ?sa False,
      RegisterPrincipal \<lparr>seat_prefix = ?sa, seat_id = system_principal\<rparr>, ?alloc ?gh True, ?alloc ?hd True]
     = ret (after_allocate 0 s4 d \<lparr>alloc_addr = ?hd, alloc_published = True\<rparr>)"
    using e1 e2 e3 e4 e5 by (simp del: apply_m3.simps)
  moreover have "m3_inv (after_allocate 0 s4 d \<lparr>alloc_addr = ?hd, alloc_published = True\<rparr>)"
    by (rule allocate_inv(2) [OF s4 anc4 a4])
  moreover have "genesis = exec_fold (apply_m3 0) roots [RegisterNode ?node, ?alloc ?sa False,
      RegisterPrincipal \<lparr>seat_prefix = ?sa, seat_id = system_principal\<rparr>, ?alloc ?gh True, ?alloc ?hd True]"
    by (simp add: genesis_def seed known_addresses roots_def del: apply_m3.simps)
  ultimately show ?thesis by (auto simp del: apply_m3.simps exec_fold.simps)
qed

lemma reachable_inv: "m3_reachable s \<Longrightarrow> m3_inv s"
proof (induction rule: m3_reachable.induct)
  case (reach_genesis s)
  then show ?case using genesis_returns by (metis option.inject)
next
  case (reach_mint s r at s')
  then show ?case using mintable_step [of s r at] mints_mintable [of s r] by auto
next
  case (reach_create s a c pub first s' b)
  then show ?case using created_inv(2) by blast
next
  case (reach_fork s snap c pub first s' b)
  then obtain a where a: "principal_prefix snap c = Some a"
      "m3_transact (create_new_document c a pub) s first = ok (s', b)"
    by (auto simp: fork_eq split: option.splits)
  have pr: "inv_principals snap" using reach_fork.IH(2) by (simp add: m3_inv_def)
  then have "(a, c) \<in> set (m3_principals snap)" using a(1) by (simp add: principal_prefix_iff)
  then have "wf_address a" using pr by (auto simp: inv_principals_def)
  then show ?case using created_inv(2) [OF reach_fork.IH(1) _ a(2)] by blast
next
  case (reach_delegate s d t i first s' b)
  then show ?case using delegated_inv(7) by blast
next
  case (reach_node s t first s' b)
  then have "T4 (comps t)" "level (addr_of (comps t)) = Node" "hd (comps t) = 1"
    "s' = s\<lparr>m3_nodes := insert (addr_of (comps t)) (m3_nodes s)\<rparr>"
    by (auto simp: register_node_eq Let_def split: if_splits)
  then show ?case using node_inv(2) [OF reach_node.IH, of "addr_of (comps t)"] wf_addr_of by simp
qed


section \<open>Lineage and progress\<close>

lemma inv_parts:
  assumes "m3_inv s"
  shows "inv_chains s" "inv_principals s" "inv_publication s" "inv_positions s"
  using assms by (simp_all add: m3_inv_def)

lemma chain_inject_key:
  assumes "wf_key k" "wf_key l" "0 < m" "0 < n" "addr_of (chain k m) = addr_of (chain l n)"
  shows "k = l" "m = n"
  using assms by (metis key_of_chain, metis chain_simps(1,2) ordinal_addr_of)

text \<open>An allocated account or document hangs off a registered parent.\<close>

lemma parent_registered:
  assumes "inv_chains s" "wf_address a" "allocated s a" "level a = Account \<or> level a = Document"
  shows "\<exists>p. parent a = ret (Some p) \<and> wf_address p \<and> allocated s p \<and> level p \<noteq> Element"
proof -
  have node: "level a \<noteq> Node" using assms(4) by auto
  note c = allocated_on_anchored [OF assms(1-3) node]
  have lvl: "key_level (key_of a) = level a"
    using on_own_chain(3) [OF c(1,3)] c(2) by simp
  obtain p where p: "parent a = ret (Some p)" "wf_address p"
    using parent_eq [OF assms(2) not_node_len [OF assms(2) node]] by metis
  have "namespace_of a = ret (Some (key_of a))"
    using on_chain_key(4) [OF assms(2) not_node_len [OF assms(2) node]] .
  then have "key_of a = \<lparr>ns_parent = tumbler p, ns_gen = ns_generator (level p) (level a)\<rparr>"
    using p(1) by (simp add: namespace_of_def)
  then have key: "ns_parent (key_of a) = tumbler p" by simp
  have own: "x = p" if "wf_address x" "tumbler x = tumbler p" for x
    using that p(2) wf_address_eqI by blast
  from c(1) show ?thesis
  proof (cases rule: anchoredE)
    case (version d)
    then show ?thesis using own [of d] key p by (auto simp: version_ns_def)
  next
    case (document d)
    then show ?thesis using own [of d] key p by (auto simp: document_ns_def)
  next
    case (account d)
    then show ?thesis using own [of d] key p by (auto simp: account_ns_def)
  qed (use lvl key_levels assms(4) in auto)
qed

lemma document_of_element:
  assumes "wf_address d" "level d = Document" "0 < s" "0 < n"
    "wf_address (addr_of (comps (tumbler d) @ [0, s, n]))"
  shows "document_of (addr_of (comps (tumbler d) @ [0, s, n])) = ret (Some d)"
proof -
  let ?e = "addr_of (comps (tumbler d) @ [0, s, n])"
  have "addr_fields ?e = addr_fields d @ [[s, n]]"
    using assms(3,4) by (simp add: addr_fields_def split_zeros_append_zero)
  moreover have three: "length (addr_fields d) = 3" using wf_address_level(3) assms(1,2) by blast
  ultimately obtain d' where d': "document_of ?e = ret (Some d')" "wf_address d'"
      "addr_fields d' = addr_fields d"
    using document_of_Some [OF assms(5)] by (metis append_eq_conv_conj length_append le_add1)
  then have "tumbler d' = tumbler d" by (metis comps_join_fields comps_inject)
  then show ?thesis using d'(1,2) wf_address_eqI assms(1) by blast
qed

lemma element_home:
  assumes "inv_chains s" "wf_address e" "allocated s e" "level e = Element"
  shows "slot_in {1, 2} e \<and> (\<exists>d. document_of e = ret (Some d) \<and> wf_address d \<and> level d = Document \<and>
    allocated s d)"
proof -
  have node: "level e \<noteq> Node" using assms(4) by simp
  note c = allocated_on_anchored [OF assms(1-3) node]
  have lvl: "key_level (key_of e) = Element"
    using on_own_chain(3) [OF c(1,3)] c(2) assms(4) by simp
  have slot: "slot_in {1, 2} e" using anchored_slot [OF c(1,3) lvl] c(2) by simp
  obtain d j where d: "wf_address d" "allocated s d" "level d = Document" "0 < j"
      "e = addr_of (comps (tumbler d) @ [0, j, ordinal (tumbler e)])"
    using c(1)
  proof (cases rule: anchoredE)
    case (content d)
    then show ?thesis using that [of d 1] c(2) by (simp add: chain_content)
  next
    case (link d)
    then show ?thesis using that [of d 2] c(2) by (simp add: chain_content)
  qed (use lvl key_levels in auto)
  then have "document_of e = ret (Some d)"
    using document_of_element [OF d(1,3,4) c(3)] assms(2) by simp
  then show ?thesis using slot d(1-3) by blast
qed

text \<open>The ghost positions lie under the floor of their chain.\<close>

lemma ghost_position_chain: "ghost_position x =
    (if 1 \<le> x \<and> x \<le> 5 then ret (addr_of (chain ghost_key x)) else panic)"
proof (cases "1 \<le> x \<and> x \<le> 5")
  case True
  let ?d = "addr_of [1, 1, 0, 1, 0, 1]"
  have wf: "wf_address ?d" by (rule wf_known)
  obtain a where a: "elem_addr \<lparr>doc = ?d, pos_subspace = 1, pos_ordinal = x\<rparr> = ret (Ok a)"
    "wf_address a" "comps (tumbler a) = comps (tumbler ?d) @ [0, 1, x]"
    using elem_addr_Ok [of "\<lparr>doc = ?d, pos_subspace = 1, pos_ordinal = x\<rparr>"] wf True
    by (auto simp: level_of_def)
  then have "a = addr_of (chain ghost_key x)"
    using addr_of_comps [OF a(2)] by (simp add: chain_def ghost_key_def)
  then show ?thesis using True a(1)
    by (simp add: ghost_position_def ghost_positions_def known_addresses content_subspace_def)
qed (auto simp: ghost_position_def ghost_positions_def)

lemma ghost_not_issued:
  assumes "anchored s k" "0 < i" "ghost_position x = ret g"
  shows "g \<noteq> addr_of (chain k (frontier s k + i))"
proof
  assume e: "g = addr_of (chain k (frontier s k + i))"
  have x: "1 \<le> x" "x \<le> 5" "g = addr_of (chain ghost_key x)"
    using assms(3) by (auto simp: ghost_position_chain split: if_splits)
  have "wf_key ghost_key" by (simp add: wf_key_def ghost_key_def del: One_nat_def)
  then have "ghost_key = k" "x = frontier s k + i"
    using chain_inject_key [of ghost_key k x "frontier s k + i"] anchored_wf [OF assms(1)] e x assms(2)
    by auto
  then show False using x(2) assms(2) by (simp add: frontier_def floor_of_def)
qed


section \<open>Repeated mints\<close>

text \<open>Minting in one document \<open>k\<close> times, each mint folded before the next.\<close>

fun mint_times :: "nat \<Rightarrow> address \<Rightarrow> nat \<Rightarrow> m3_state \<Rightarrow> (m3_state \<times> address list) exec" where
  "mint_times at h 0 s = ret (s, [])"
| "mint_times at h (Suc k) s = do {
     m \<leftarrow> mint_content s h;
     (a, r) \<leftarrow> expect_ok m;
     s' \<leftarrow> apply_m3 at s r;
     (s'', as) \<leftarrow> mint_times at h k s';
     ret (s'', a # as) }"

lemma content_mints: "wf_address h \<Longrightarrow> mint_content s h = ok (a, r) \<Longrightarrow> mints s r"
  by (auto simp: mints_def)

lemma mint_times_run:
  assumes "m3_reachable s" "wf_address h" "level h = Document" "allocated s h"
  shows "\<exists>s' as. mint_times at h k s = ret (s', as) \<and> m3_reachable s' \<and>
    as = map (\<lambda>i. addr_of (chain (content_key h) (frontier s (content_key h) + 1 + i))) [0..<k] \<and>
    frontier s' (content_key h) = frontier s (content_key h) + k \<and>
    grows s (set as) s'"
  using assms
proof (induction k arbitrary: s)
  case 0
  then show ?case by (simp add: grows_def)
next
  case (Suc k)
  let ?k = "content_key h"
  have inv: "m3_inv s" by (rule reachable_inv [OF Suc.prems(1)])
  have anc: "anchored s ?k" by (rule anchored_intros(1) [OF assms(2) Suc.prems(4,3)])
  let ?r = "\<lparr>alloc_addr = next_addr s ?k, alloc_published = False\<rparr>"
  have m: "mint_content s h = ok (next_addr s ?k, Allocate ?r)"
    using Suc.prems(3,4) by (simp add: mint_content_eq [OF assms(2)])
  have r: "alloc_addr ?r = addr_of (chain ?k (frontier s ?k + 1))" by (simp add: next_addr_def)
  let ?s1 = "after_allocate at s ?k ?r"
  have ap: "apply_m3 at s (Allocate ?r) = ret ?s1" by (rule apply_allocate [OF anc r])
  have g: "grows s {next_addr s ?k} ?s1" using allocate_inv(1) [OF inv anc r] by simp
  have reach: "m3_reachable ?s1"
    by (rule reach_mint [OF Suc.prems(1) content_mints [OF assms(2) m] ap])
  have al: "allocated ?s1 h" using g assms(2) Suc.prems(4) by (simp add: grows_def)
  have f: "frontier ?s1 ?k = frontier s ?k + 1"
    by (simp add: after_allocate_def frontier_def stored_frontier_def)
  obtain s' as where ih: "mint_times at h k ?s1 = ret (s', as)" "m3_reachable s'"
    "as = map (\<lambda>i. addr_of (chain ?k (frontier ?s1 ?k + 1 + i))) [0..<k]"
    "frontier s' ?k = frontier ?s1 ?k + k" "grows ?s1 (set as) s'"
    using Suc.IH [OF reach assms(2) Suc.prems(3) al] by blast
  have lst: "next_addr s ?k # as = map (\<lambda>i. addr_of (chain ?k (frontier s ?k + 1 + i))) [0..<Suc k]"
    unfolding ih(3) f map_upt_Suc by (simp add: next_addr_def)
  have grow: "grows s (set (next_addr s ?k # as)) s'" using g ih(5) by (auto simp: grows_def)
  have run: "mint_times at h (Suc k) s = ret (s', next_addr s ?k # as)"
    using ih(1) by (simp add: m ap del: apply_m3.simps)
  have fr: "frontier s' ?k = frontier s ?k + Suc k" using ih(4) f by simp
  show ?case
    by (intro exI [of _ s'] exI [of _ "next_addr s ?k # as"] conjI) (fact run ih(2) lst fr grow)+
qed

section \<open>Properties\<close>

lemma genesis_reachable: "m3_reachable (the genesis)"
proof -
  obtain s where g: "genesis = ret s" using genesis_returns by blast
  have "the genesis = s" unfolding g by (rule option.sel)
  then show ?thesis using reach_genesis [OF g] by metis
qed

text \<open>
  C30: In every reachable slice the registry is exact. \<open>documents\<close> lists exactly the registered
  documents; a position is kept for exactly the allocated documents and links; an allocated account
  or document hangs off a registered parent; an allocated element lies on its document's content or
  link chain, and that document is registered.
\<close>

theorem registry_exact:
  assumes "m3_reachable s"
  shows "(\<forall>d. (\<exists>b. (d, b) \<in> set (documents s)) \<longleftrightarrow>
           wf_address d \<and> is_registered_document s d = ret True) \<and>
         (\<forall>a. wf_address a \<longrightarrow> (minted_at s a \<noteq> None \<longleftrightarrow> is_allocated s a = ret True \<and>
           (level a = Document \<or> is_link_slot a = ret True))) \<and>
         (\<forall>a. wf_address a \<and> is_allocated s a = ret True \<and> (level a = Account \<or> level a = Document) \<longrightarrow>
           (\<exists>p. parent a = ret (Some p) \<and> entity_level s p = ret (Some (level p)))) \<and>
         (\<forall>e. wf_address e \<and> is_allocated s e = ret True \<and> level e = Element \<longrightarrow>
           is_content_or_link_slot e = ret True \<and>
           (\<exists>d. document_of e = ret (Some d) \<and> is_registered_document s d = ret True))"
proof -
  note inv = inv_parts [OF reachable_inv [OF assms]]
  have "(\<exists>b. (d, b) \<in> set (documents s)) \<longleftrightarrow> d \<in> fst ` set (m3_publication s)" for d
    by (force simp: documents_def)
  then have 1: "\<forall>d. (\<exists>b. (d, b) \<in> set (documents s)) \<longleftrightarrow>
      wf_address d \<and> is_registered_document s d = ret True"
    using inv(3) by (auto simp: inv_publication_def registered_eq)
  have "minted_at s a \<noteq> None \<longleftrightarrow> a \<in> dom (m3_minted_at s)" for a by (auto simp: minted_at_def)
  then have 2: "\<forall>a. wf_address a \<longrightarrow> (minted_at s a \<noteq> None \<longleftrightarrow> is_allocated s a = ret True \<and>
      (level a = Document \<or> is_link_slot a = ret True))"
    using inv(4) by (auto simp: inv_positions_def is_allocated_eq slot_eq simp del: not_None_eq)
  have 3: "\<forall>a. wf_address a \<and> is_allocated s a = ret True \<and> (level a = Account \<or> level a = Document) \<longrightarrow>
      (\<exists>p. parent a = ret (Some p) \<and> entity_level s p = ret (Some (level p)))"
    using parent_registered [OF inv(1)] by (fastforce simp: is_allocated_eq entity_level_eq)
  have 4: "\<forall>e. wf_address e \<and> is_allocated s e = ret True \<and> level e = Element \<longrightarrow>
      is_content_or_link_slot e = ret True \<and>
      (\<exists>d. document_of e = ret (Some d) \<and> is_registered_document s d = ret True)"
    using element_home [OF inv(1)] by (fastforce simp: is_allocated_eq slot_eq registered_eq)
  show ?thesis using 1 2 3 4 by blast
qed

theorem registry_exact_witness:
  "is_registered_document (the genesis) (addr_of [1, 1, 0, 1, 0, 2]) = ret True \<longleftrightarrow>
   (\<exists>b. (addr_of [1, 1, 0, 1, 0, 2], b) \<in> set (documents (the genesis)))"
proof -
  have "wf_address (addr_of [1, 1, 0, 1, 0, 2])" by (simp add: wf_addr_of del: One_nat_def)
  then show ?thesis using registry_exact [OF genesis_reachable] by blast
qed

text \<open>
  C31: A mint is total and fresh. On a reachable slice no mint panics, on any home; what it issues is
  not allocated and is no ghost position, its record folds at any position, and afterwards exactly
  the issued addresses are allocated in addition to those that were.
\<close>

theorem mints_fresh:
  assumes "m3_reachable s" "wf_address h" "0 < n"
    and m: "m \<in> {mint_content s h, mint_content_range s h n, mint_link s h, mint_version s h p,
                 mint_document s h p}"
  shows "m \<noteq> panic \<and> (\<forall>a r. m = ok (a, r) \<longrightarrow> is_allocated s a = ret False \<and> a \<in> issues r \<and>
    (\<forall>x g. ghost_position x = ret g \<longrightarrow> g \<notin> issues r) \<and>
    (\<exists>s'. apply_m3 at s r = ret s' \<and>
       (\<forall>b. wf_address b \<longrightarrow>
          is_allocated s' b = ret (b \<in> issues r \<or> is_allocated s b = ret True))))"
proof -
  have inv: "m3_inv s" by (rule reachable_inv [OF assms(1)])
  note mint_eqs = mint_content_eq [OF assms(2)] mint_content_range_eq [OF assms(2,3)]
    mint_link_eq [OF assms(2)] mint_version_eq [OF assms(2)] mint_document_eq [OF assms(2)]
  define P where "P a r \<longleftrightarrow> is_allocated s a = ret False \<and> a \<in> issues r \<and>
    (\<forall>x g. ghost_position x = ret g \<longrightarrow> g \<notin> issues r) \<and>
    (\<exists>s'. apply_m3 at s r = ret s' \<and>
       (\<forall>b. wf_address b \<longrightarrow>
          is_allocated s' b = ret (b \<in> issues r \<or> is_allocated s b = ret True)))" for a r
  have main: "P a r"
    if k: "anchored s k" "a = next_addr s k" "mintable s r"
      and iss: "\<forall>b \<in> issues r. \<exists>i > 0. b = addr_of (chain k (frontier s k + i))" "a \<in> issues r" for a r k
  proof -
    have wf: "wf_address a" using on_own_chain(1) [OF k(1)] k(2) by (simp add: next_addr_def)
    obtain s' where s': "apply_m3 at s r = ret s'" "grows s (issues r) s'"
      using mintable_step [OF inv k(3), of at] by blast
    have "\<forall>x g. ghost_position x = ret g \<longrightarrow> g \<notin> issues r"
      using ghost_not_issued [OF k(1)] iss(1) by blast
    moreover have "is_allocated s a = ret False"
      using not_allocated_next [OF k(1), of 1] k(2) wf by (simp add: next_addr_def is_allocated_eq)
    moreover have "\<forall>b. wf_address b \<longrightarrow>
        is_allocated s' b = ret (b \<in> issues r \<or> is_allocated s b = ret True)"
      using s'(2) by (auto simp: grows_def is_allocated_eq)
    ultimately show ?thesis unfolding P_def using s'(1) iss(2) by blast
  qed
  have alloc: "m \<noteq> panic \<and> (\<forall>a r. m = ok (a, r) \<longrightarrow> P a r)"
    if "anchored s k" "m = ok (next_addr s k, Allocate \<lparr>alloc_addr = next_addr s k, alloc_published = q\<rparr>)"
    for k q
  proof -
    have "next_addr s k = addr_of (chain k (frontier s k + 1))" by (simp add: next_addr_def)
    then have "\<forall>b \<in> {next_addr s k}. \<exists>i > 0. b = addr_of (chain k (frontier s k + i))"
      by (metis singletonD zero_less_one)
    then show ?thesis using main [OF that(1) refl mintable_next [OF that(1)], of q] that(2)
      by (simp del: apply_m3.simps)
  qed
  have range: "m \<noteq> panic \<and> (\<forall>a r. m = ok (a, r) \<longrightarrow> P a r)"
    if d: "level h = Document" "allocated s h"
      and m: "m = ok (next_addr s (content_key h),
                     AllocateRange \<lparr>range_first = next_addr s (content_key h), range_count = n\<rparr>)"
  proof -
    let ?k = "content_key h" and ?r = "AllocateRange \<lparr>range_first = next_addr s (content_key h), range_count = n\<rparr>"
    have anc: "anchored s ?k" by (rule anchored_intros(1) [OF assms(2) d(2,1)])
    have iss: "issues ?r = (\<lambda>i. addr_of (chain ?k (frontier s ?k + Suc i))) ` {..<n}"
      using anchored_wf [OF anc] by (simp add: next_addr_def)
    have "mintable s ?r" using assms(2,3) d by (auto simp: next_addr_def)
    moreover have "\<forall>b \<in> issues ?r. \<exists>i > 0. b = addr_of (chain ?k (frontier s ?k + i))"
      unfolding iss by blast
    moreover have "next_addr s ?k \<in> issues ?r"
      unfolding iss using assms(3) by (intro image_eqI [of _ _ 0]) (simp_all add: next_addr_def)
    ultimately have found: "P (next_addr s ?k) ?r" by (rule main [OF anc refl])
    then show ?thesis unfolding m by simp
  qed
  have refused: "m \<noteq> panic \<and> (\<forall>a r. m = ok (a, r) \<longrightarrow> P a r)" if "m = err e" for e using that by simp
  have "m \<noteq> panic \<and> (\<forall>a r. m = ok (a, r) \<longrightarrow> P a r)"
    using m alloc range refused anchored_intros [OF assms(2)]
    unfolding mint_eqs by (auto split: if_splits)
  then show ?thesis unfolding P_def .
qed

theorem mints_fresh_witness:
  "\<exists>a r. mint_content (the genesis) (addr_of [1, 1, 0, 1, 0, 2]) = ok (a, r) \<and>
     is_allocated (the genesis) a = ret False"
proof -
  have w: "wf_address (addr_of [1, 1, 0, 1, 0, 2])" by (simp add: wf_addr_of del: One_nat_def)
  have "(case mint_content (the genesis) (addr_of [1, 1, 0, 1, 0, 2]) of
      Some (Inr _) \<Rightarrow> True | _ \<Rightarrow> False)" by code_simp
  then obtain a r where *: "mint_content (the genesis) (addr_of [1, 1, 0, 1, 0, 2]) = ok (a, r)"
    by (auto split: option.splits sum.splits)
  then show ?thesis using mints_fresh [OF genesis_reachable w zero_less_one insertI1] by blast
qed

text \<open>
  C32: Ownership is nearest-prefix. Every address under the bootstrap node, and so every allocated
  one, has exactly one effective owner: the principal whose prefix contains it and extends the prefix
  of every other principal that does; the owner's id names that prefix and no other.
\<close>

theorem owner_nearest:
  assumes "m3_reachable s" "wf_address a"
    and "hd (comps (tumbler a)) = 1 \<or> is_allocated s a = ret True"
  shows "\<exists>p i. effective_owner_pair s a = Some (p, i) \<and> effective_owner s a = Some i \<and>
    effective_owner_prefix s a = Some p \<and> principal_prefix s i = Some p \<and> prefix_contains p a \<and>
    is_allocated s p = ret True \<and>
    (\<forall>(q, j) \<in> set (m3_principals s). prefix_contains q a \<longrightarrow> prefix_contains q p)"
proof -
  note inv = inv_parts [OF reachable_inv [OF assms(1)]]
  have "hd (comps (tumbler a)) = 1"
    using assms(2,3) allocated_lineage [OF inv(1)] by (auto simp: is_allocated_eq)
  then obtain e where e: "omega s a = Some e" by (rule omega_exists [OF inv(2)])
  obtain p i where pi: "e = (p, i)" by (cases e)
  have o: "(p, i) \<in> set (m3_principals s)" "prefix_contains p a"
    "\<forall>f \<in> set (m3_principals s). prefix_contains (fst f) a \<longrightarrow>
       tumbler_len (akey f) \<le> tumbler_len (tumbler p)"
    using e pi by (auto simp: omega_iff [OF inv(2)])
  have p: "wf_address p" "allocated s p" using o(1) inv(2) by (auto simp: inv_principals_def)
  have "prefix_contains q p" if "(q, j) \<in> set (m3_principals s)" "prefix_contains q a" for q j
    using that o prefix_length_prefix [of "comps (tumbler q)" "comps (tumbler a)" "comps (tumbler p)"]
    by (fastforce simp: prefix_contains_def is_prefix_iff tumbler_len_def)
  moreover have "principal_prefix s i = Some p" using o(1) by (simp add: principal_prefix_iff [OF inv(2)])
  ultimately show ?thesis using e pi o(2) p
    by (auto simp: effective_owner_pair_def effective_owner_def effective_owner_prefix_def is_allocated_eq)
qed

theorem owner_nearest_witness:
  "\<exists>i. effective_owner (the genesis) (addr_of [1, 1, 0, 1, 0, 2]) = Some i"
proof -
  have "wf_address (addr_of [1, 1, 0, 1, 0, 2])" by (simp add: wf_addr_of del: One_nat_def)
  then show ?thesis using owner_nearest [OF genesis_reachable, of "addr_of [1, 1, 0, 1, 0, 2]"] by auto
qed

text \<open>
  C33: A delegation transfers exactly the subtree it names. When \<open>delegate\<close> commits on a reachable
  slice, the new prefix was unallocated and owned by the delegator; afterwards it is a registered
  account seated with the new id, every address under it is owned by that id, every other address
  keeps its owner, and nothing else is allocated.
\<close>

theorem delegate_transfers:
  assumes "m3_reachable s"
    and "m3_transact (delegate d t i) s first = ok (s', a)"
  shows "tumbler a = t \<and> is_allocated s a = ret False \<and> effective_owner s a = Some d \<and>
    is_registered_account s' a = ret True \<and> principal_prefix s' i = Some a \<and>
    (\<forall>b. effective_owner s' b = (if prefix_contains a b then Some i else effective_owner s b)) \<and>
    (\<forall>b. wf_address b \<and> b \<noteq> a \<longrightarrow> is_allocated s' b = is_allocated s b)"
proof -
  have inv: "m3_inv s" by (rule reachable_inv [OF assms(1)])
  note d = delegated_inv [OF inv assms(2)]
  have pr: "inv_principals s" and pr': "inv_principals s'" using inv d(7) by (simp_all add: m3_inv_def)
  have fresh: "\<not> amap_contains (m3_principals s) a"
  proof
    assume "amap_contains (m3_principals s) a"
    then obtain e where e: "e \<in> set (m3_principals s)" "tumbler a = akey e"
      by (auto simp: amap_contains_iff)
    then have "wf_address (fst e)" "allocated s (fst e)" using pr by (auto simp: inv_principals_def)
    then show False using e(2) d(2,5) wf_address_eqI [of "fst e" a] by simp
  qed
  have ps: "m3_principals s' = amap_insert a i (m3_principals s)"
    using d(4) fresh by (simp add: delegated_def after_seat_def after_allocate_def)
  then have set: "set (m3_principals s') = insert (a, i) (set (m3_principals s))"
    by (simp add: amap_insert_set [OF fresh])
  have own: "effective_owner s' b = (if prefix_contains a b then Some i else effective_owner s b)" for b
  proof (cases "prefix_contains a b")
    case True
    have "tumbler_len (akey f) \<le> tumbler_len (tumbler a)"
      if f: "f \<in> set (m3_principals s)" "prefix_contains (fst f) b" for f
    proof (rule ccontr)
      assume "\<not> ?thesis"
      then have "prefix_contains a (fst f)" "akey f \<noteq> tumbler a"
        using True f(2) prefix_length_prefix [of "comps (tumbler a)" "comps (tumbler b)" "comps (akey f)"]
        by (auto simp: prefix_contains_def is_prefix_iff tumbler_len_def)
      then show False using d(1,10) f(1) by blast
    qed
    then have "omega s' b = Some (a, i)" using True by (simp add: omega_iff [OF pr'] set)
    then show ?thesis using True by (simp add: effective_owner_def)
  next
    case False
    have "omega s' b = Some e \<longleftrightarrow> omega s b = Some e" for e
      using False by (auto simp: omega_iff [OF pr] omega_iff [OF pr'] set)
    then have "omega s' b = omega s b" by (metis not_None_eq)
    then show ?thesis using False by (simp add: effective_owner_def)
  qed
  have "principal_prefix s' i = Some a" by (simp add: principal_prefix_iff [OF pr'] set)
  moreover have "is_allocated s' b = is_allocated s b" if "wf_address b" "b \<noteq> a" for b
    using that d(6) by (simp add: is_allocated_eq grows_def)
  moreover have "is_registered_account s' a = ret True"
    using d(2,3,6) by (simp add: registered_eq grows_def)
  ultimately show ?thesis using d(1,2,5,9) own by (simp add: is_allocated_eq)
qed

lemma delegate_sample:
  "case m3_transact (delegate bootstrap_principal (Tumbler 1 [1, 0, 2]) (PrincipalId 7)) (the genesis) 1 of
     Some (Inr (s', a)) \<Rightarrow> effective_owner s' a = Some (PrincipalId 7) | _ \<Rightarrow> False"
  by code_simp

theorem delegate_transfers_witness:
  "\<exists>s' a. m3_transact (delegate bootstrap_principal (Tumbler 1 [1, 0, 2]) (PrincipalId 7)) (the genesis) 1
      = ok (s', a) \<and> principal_prefix s' (PrincipalId 7) = Some a"
proof -
  obtain s' a where *: "m3_transact (delegate bootstrap_principal (Tumbler 1 [1, 0, 2]) (PrincipalId 7))
      (the genesis) 1 = ok (s', a)"
    using delegate_sample by (auto split: option.splits sum.splits)
  then show ?thesis using delegate_transfers [OF genesis_reachable *] by auto
qed

text \<open>
  C34: Minting never blocks. In any reachable slice a registered document answers any number of mint
  requests, each folded before the next: the answers are the next ordinals of its content chain, all
  distinct, and every one of them is allocated in the slice that results.
\<close>

theorem minting_never_blocks:
  assumes "m3_reachable s" "wf_address h" "is_registered_document s h = ret True"
  shows "\<exists>key m s' as. content_ns h = ret key \<and> effective_frontier s key = ret m \<and>
    mint_times at h k s = ret (s', as) \<and> m3_reachable s' \<and> length as = k \<and> distinct as \<and>
    (\<forall>i < k. nth_in key (m + 1 + i) = ok (as ! i) \<and> is_allocated s' (as ! i) = ret True)"
proof -
  let ?k = "content_key h"
  have h: "level h = Document" "allocated s h" using assms(2,3) by (simp_all add: registered_eq)
  have wf: "wf_key ?k" by (rule wf_doc_keys(1) [OF assms(2) h(1)])
  obtain s' as where r: "mint_times at h k s = ret (s', as)" "m3_reachable s'"
    "as = map (\<lambda>i. addr_of (chain ?k (frontier s ?k + 1 + i))) [0..<k]" "grows s (set as) s'"
    using mint_times_run [OF assms(1,2) h] by blast
  have "distinct as"
    using chain_inject_key(2) [OF wf wf] unfolding r(3) distinct_map
    by (auto intro!: inj_onI) (metis add_left_cancel nat.inject zero_less_Suc)
  moreover have "as ! i = addr_of (chain ?k (frontier s ?k + 1 + i))" if "i < k" for i
    using that by (simp add: r(3))
  moreover have "is_allocated s' (as ! i) = ret True" if "i < k" for i
  proof -
    have "as ! i \<in> set as" using that by (simp add: r(3))
    moreover have "wf_address (as ! i)" using that wf_chain [OF wf] by (simp add: r(3))
    ultimately show ?thesis using r(4) by (simp add: grows_def is_allocated_eq)
  qed
  ultimately show ?thesis using r(1,2) wf
    by (intro exI [of _ ?k] exI [of _ "frontier s ?k"] exI [of _ s'] exI [of _ as])
       (simp add: content_ns_eq nth_in_eq, simp add: r(3))
qed

theorem minting_never_blocks_witness:
  "\<exists>s' as. mint_times 1 (addr_of [1, 1, 0, 1, 0, 2]) 3 (the genesis) = ret (s', as) \<and> length as = 3"
proof -
  have "wf_address (addr_of [1, 1, 0, 1, 0, 2])" by (simp add: wf_addr_of del: One_nat_def)
  moreover have "is_registered_document (the genesis) (addr_of [1, 1, 0, 1, 0, 2]) = ret True"
    by code_simp
  ultimately show ?thesis using minting_never_blocks [OF genesis_reachable] by blast
qed

end
