(* ===== verification/Journal_Frames.thy ===== *)
theory Journal_Frames
  imports Kernel_Staging "HOL-Library.Word"
begin

text \<open>
  The journal's frames (\<^verbatim>\<open>crates/skep-kernel/src/journal.rs\<close>, \<^verbatim>\<open>journal/attest.rs\<close>,
  \<^verbatim>\<open>journal/chain.rs\<close>): the frame format, the encoding of a transaction as record frames closed by
  a commit marker, the commit chain, and the frame parser with its resynchronisation.

  The third-party functions are the fields of a record \<open>jlib\<close>: the \<^verbatim>\<open>bincode\<close> serialiser of a frame
  payload and its decoder, the CRC-32C update and SHA-256. \<open>jlib_ok\<close> states what the code relies on:
  the decoder inverts the serialiser, and the fixed-width layout has the lengths the source pins.
\<close>

section \<open>Payloads and the third-party functions\<close>

type_synonym bytes = "8 word list"

record log_record =
  lr_seq :: nat
  lr_txn :: nat
  lr_bytes :: bytes

record marker =
  mk_txn :: nat
  mk_last_seq :: nat
  mk_checksum :: "32 word"
  mk_salt :: bytes
  mk_chain :: bytes
  mk_sig_alg :: "8 word"
  mk_sig :: bytes

datatype frame_payload = Record log_record | Marker marker

record jlib =
  bc_ser :: "frame_payload \<Rightarrow> bytes"
  bc_de :: "bytes \<Rightarrow> frame_payload option"
  crc_append :: "32 word \<Rightarrow> bytes \<Rightarrow> 32 word"
  sha256 :: "bytes \<Rightarrow> bytes"

text \<open>\<^verbatim>\<open>to_le_bytes\<close> and \<^verbatim>\<open>from_le_bytes\<close> at a width in bytes.\<close>

fun le_bytes :: "nat \<Rightarrow> nat \<Rightarrow> bytes" where
  "le_bytes 0 n = []"
| "le_bytes (Suc k) n = of_nat (n mod 256) # le_bytes k (n div 256)"

fun from_le :: "bytes \<Rightarrow> nat" where
  "from_le [] = 0"
| "from_le (b # bs) = unat b + 256 * from_le bs"

section \<open>Attestations\<close>

definition sig_alg_unsigned :: "8 word" where
  "sig_alg_unsigned = 0"

definition max_sig_bytes :: nat where
  "max_sig_bytes = 64 * 1024"

record attestation =
  att_alg :: "8 word"
  att_sig :: bytes

datatype attestation_error = UnsignedTag | EmptyBlob | TooWide nat

definition att_slot :: "8 word \<Rightarrow> bytes \<Rightarrow> (attestation option, attestation_error) result" where
  "att_slot alg sg =
     (if alg = sig_alg_unsigned then (if sg = [] then Ok None else Err UnsignedTag)
      else if sg = [] then Err EmptyBlob
      else if length sg > max_sig_bytes then Err (TooWide (length sg))
      else Ok (Some \<lparr>att_alg = alg, att_sig = sg\<rparr>))"

definition attestation_new :: "8 word \<Rightarrow> bytes \<Rightarrow> (attestation, attestation_error) result" where
  "attestation_new alg sg =
     (case att_slot alg sg of
        Inl e \<Rightarrow> Err e
      | Inr None \<Rightarrow> Err UnsignedTag
      | Inr (Some a) \<Rightarrow> Ok a)"

text \<open>\<^verbatim>\<open>TryFrom<MarkerShadow>\<close>: the slot of a decoded marker has one spelling of empty.\<close>

definition marker_try_from :: "marker \<Rightarrow> marker option" where
  "marker_try_from m =
     (case att_slot (mk_sig_alg m) (mk_sig m) of
        Inl _ \<Rightarrow> None
      | Inr None \<Rightarrow> Some (m\<lparr>mk_sig_alg := sig_alg_unsigned, mk_sig := []\<rparr>)
      | Inr (Some a) \<Rightarrow> Some (m\<lparr>mk_sig_alg := att_alg a, mk_sig := att_sig a\<rparr>))"

definition de_payload :: "jlib \<Rightarrow> bytes \<Rightarrow> frame_payload option" where
  "de_payload L bs =
     (case bc_de L bs of
        None \<Rightarrow> None
      | Some (Record r) \<Rightarrow> Some (Record r)
      | Some (Marker m) \<Rightarrow> map_option Marker (marker_try_from m))"

definition admitted_slot :: "8 word \<Rightarrow> bytes \<Rightarrow> attestation option exec" where
  "admitted_slot alg sg = expect_ok (att_slot alg sg)"

section \<open>The commit chain\<close>

definition chain_genesis :: bytes where
  "chain_genesis = replicate 32 0"

text \<open>A hash in progress is the input it has consumed.\<close>

datatype chain_link = ChainLink bytes

definition link_open :: "bytes \<Rightarrow> chain_link" where
  "link_open prev = ChainLink prev"

fun add_payload :: "chain_link \<Rightarrow> bytes \<Rightarrow> chain_link" where
  "add_payload (ChainLink bs) payload = ChainLink (bs @ payload)"

fun link_close :: "jlib \<Rightarrow> chain_link \<Rightarrow> nat \<Rightarrow> nat \<Rightarrow> 32 word \<Rightarrow> bytes \<Rightarrow> bytes \<Rightarrow> bytes" where
  "link_close L (ChainLink bs) txn last_seq checksum salt digest =
     sha256 L (bs @ le_bytes 8 txn @ le_bytes 8 last_seq @ le_bytes 4 (unat checksum) @ salt @ digest)"

definition slot_digest :: "jlib \<Rightarrow> 8 word \<Rightarrow> bytes \<Rightarrow> bytes" where
  "slot_digest L alg sg = sha256 L ([alg] @ le_bytes 8 (length sg) @ sg)"

section \<open>Frames\<close>

definition magic :: bytes where
  "magic = [0x53, 0x4B, 0x4A, 0x34]"

definition frame_header_len :: nat where
  "frame_header_len = 12"

definition max_frame_len :: nat where
  "max_frame_len = 64 * 1024 * 1024"

definition max_txn_bytes :: nat where
  "max_txn_bytes = max_frame_len"

definition segment_rotate_bytes :: nat where
  "segment_rotate_bytes = 1024 * 1024"

definition max_segment_len :: nat where
  "max_segment_len = 2 * max_txn_bytes"

definition max_crash_tail_bytes :: nat where
  "max_crash_tail_bytes = max_txn_bytes + max_sig_bytes"

definition resync_budget_passes :: nat where
  "resync_budget_passes = 8"

datatype frame_error = FrameTooLong

definition frame_bytes :: "jlib \<Rightarrow> bytes \<Rightarrow> bytes" where
  "frame_bytes L payload =
     (let len_le = le_bytes 4 (length payload);
          crc = crc_append L (crc_append L 0 len_le) payload
      in magic @ len_le @ le_bytes 4 (unat crc) @ payload)"

definition push_frame :: "jlib \<Rightarrow> bytes \<Rightarrow> bytes \<Rightarrow> (bytes, frame_error) result" where
  "push_frame L buf payload =
     (if length payload > max_frame_len then Err FrameTooLong
      else Ok (buf @ frame_bytes L payload))"

text \<open>The loop of \<^verbatim>\<open>encode_txn\<close>: buffer, checksum and link so far.\<close>

fun encode_records :: "jlib \<Rightarrow> nat \<Rightarrow> nat \<Rightarrow> bytes list \<Rightarrow> bytes \<times> 32 word \<times> chain_link \<Rightarrow>
    (bytes \<times> 32 word \<times> chain_link, frame_error) result" where
  "encode_records L txn s [] acc = Ok acc"
| "encode_records L txn s (bs # rest) (buf, checksum, link) =
     (let payload = bc_ser L (Record \<lparr>lr_seq = s, lr_txn = txn, lr_bytes = bs\<rparr>);
          checksum = crc_append L checksum payload;
          link = add_payload link payload
      in (case push_frame L buf payload of
            Inl e \<Rightarrow> Err e
          | Inr buf \<Rightarrow> encode_records L txn (s + 1) rest (buf, checksum, link)))"

definition encode_txn :: "jlib \<Rightarrow> nat \<Rightarrow> bytes list \<Rightarrow> bytes \<Rightarrow> bytes \<Rightarrow> attestation option \<Rightarrow>
    (bytes \<times> bytes, frame_error) result exec" where
  "encode_txn L first_seq record_bytes prev_chain salt att =
     (let n = length record_bytes in
      if n = 0 then panic
      else ret (case encode_records L first_seq first_seq record_bytes ([], 0, link_open prev_chain) of
          Inl e \<Rightarrow> Err e
        | Inr (buf, checksum, link) \<Rightarrow>
            (let last_seq = first_seq + (n - 1);
                 (alg, sg) = (case att of Some a \<Rightarrow> (att_alg a, att_sig a) | None \<Rightarrow> (sig_alg_unsigned, []));
                 chain = link_close L link first_seq last_seq checksum salt (slot_digest L alg sg);
                 payload = bc_ser L (Marker \<lparr>mk_txn = first_seq, mk_last_seq = last_seq,
                   mk_checksum = checksum, mk_salt = salt, mk_chain = chain, mk_sig_alg = alg, mk_sig = sg\<rparr>)
             in (case push_frame L buf payload of
                   Inl e \<Rightarrow> Err e
                 | Inr buf \<Rightarrow> Ok (buf, chain)))))"

definition record_payload_overhead :: nat where
  "record_payload_overhead = 28"

definition frame_len :: "nat \<Rightarrow> nat" where
  "frame_len payload_len = saturating_add frame_header_len payload_len"

definition marker_frame_len :: nat where
  "marker_frame_len = frame_len 97"

definition record_payload_len :: "nat \<Rightarrow> nat" where
  "record_payload_len record_len = saturating_add record_payload_overhead record_len"

definition record_frame_len :: "nat \<Rightarrow> nat" where
  "record_frame_len record_len = frame_len (record_payload_len record_len)"

definition txn_encoded_len :: "bytes list \<Rightarrow> attestation option \<Rightarrow> nat" where
  "txn_encoded_len record_bytes att =
     (let marker_len = saturating_add marker_frame_len
            (case att of None \<Rightarrow> 0 | Some a \<Rightarrow> length (att_sig a))
      in foldl (\<lambda>total bs. saturating_add total (record_frame_len (length bs))) marker_len record_bytes)"

section \<open>Parsing\<close>

datatype parsed = Intact nat nat | Bad nat

definition subbytes :: "bytes \<Rightarrow> nat \<Rightarrow> nat \<Rightarrow> bytes" where
  "subbytes buf a b = take (b - a) (drop a buf)"

definition parse_frame :: "jlib \<Rightarrow> bytes \<Rightarrow> nat \<Rightarrow> parsed" where
  "parse_frame L buf pos =
     (if pos + frame_header_len > length buf \<or> subbytes buf pos (pos + 4) \<noteq> magic then Bad 0
      else
        let len_le = subbytes buf (pos + 4) (pos + 8);
            len = from_le len_le;
            crc = from_le (subbytes buf (pos + 8) (pos + 12))
        in if len > max_frame_len then Bad 0
           else
             let end = pos + frame_header_len + len
             in if end > length buf then Bad 0
                else
                  let computed = crc_append L (crc_append L 0 len_le)
                                   (subbytes buf (pos + frame_header_len) end)
                  in if unat computed \<noteq> crc then Bad len
                     else Intact (pos + frame_header_len) end)"

text \<open>\<^verbatim>\<open>buf[from..].windows(4).position(|w| w == MAGIC)\<close>.\<close>

fun magic_at :: "bytes \<Rightarrow> nat option" where
  "magic_at [] = None"
| "magic_at (b # bs) =
     (if length (b # bs) < 4 then None
      else if take 4 (b # bs) = magic then Some 0
      else map_option Suc (magic_at bs))"

definition find_magic :: "bytes \<Rightarrow> nat \<Rightarrow> nat option" where
  "find_magic buf from =
     (if from \<ge> length buf then None
      else map_option (\<lambda>p. from + p) (magic_at (drop from buf)))"

end
