(* ===== verification/Journal_Scan.thy ===== *)
theory Journal_Scan
  imports Journal_Frames
begin

text \<open>
  The journal scan (\<^verbatim>\<open>crates/skep-kernel/src/journal/scan.rs\<close>, with the segment arithmetic of
  \<^verbatim>\<open>journal/segment.rs\<close>): the walk over the segments' frames that decides which transactions are
  committed, what the commit chain says of them, and where the torn tail begins.

  A segment is its first position and its bytes; its file name is a function of the position. The
  sentences a refusal is phrased in are the constructors of \<open>cause\<close>.
\<close>

section \<open>Segments\<close>

record segment =
  seg_first :: nat
  seg_bytes :: bytes

definition inferred_last_seq :: "segment list \<Rightarrow> nat \<Rightarrow> nat option" where
  "inferred_last_seq segs i =
     (if i + 1 < length segs then Some (seg_first (segs ! (i + 1)) - 1) else None)"

definition scanned_above :: "segment list \<Rightarrow> nat \<Rightarrow> (nat \<times> segment) list" where
  "scanned_above segs s_load =
     filter (\<lambda>(i, seg). case inferred_last_seq segs i of None \<Rightarrow> True | Some l \<Rightarrow> l > s_load)
       (enumerate 0 segs)"

definition reaches_genesis :: "segment list \<Rightarrow> bool" where
  "reaches_genesis segs = (case segs of [] \<Rightarrow> True | seg # _ \<Rightarrow> seg_first seg = 1)"

section \<open>The outcome\<close>

datatype run_end = Landed nat nat | Eof

definition landed_on_record :: "nat \<Rightarrow> run_end" where
  "landed_on_record s = Landed (s - 1) s"

definition landed_on_marker :: "nat \<Rightarrow> run_end" where
  "landed_on_marker s = Landed s (saturating_add s 1)"

record run_place =
  rp_segments :: "nat list"
  rp_from :: nat
  rp_to :: "nat option"
  rp_next :: "nat option"

record scan_run =
  run_end_of :: run_end
  run_place_of :: run_place

definition place_of :: "segment list \<Rightarrow> nat \<times> nat \<Rightarrow> (nat \<times> nat) option \<Rightarrow> run_place exec" where
  "place_of segs began landing = do {
     let (first, from) = began;
     (final, to) \<leftarrow> (case landing of
         Some (s, b) \<Rightarrow> if b = 0 then do { l \<leftarrow> nat_sub s 1; ret (l, None) } else ret (s, Some b)
       | None \<Rightarrow> do { l \<leftarrow> nat_sub (length segs) 1; ret (l, None) });
     named \<leftarrow> subslice segs first (final + 1);
     ret \<lparr>rp_segments = map seg_first named, rp_from = from, rp_to = to,
          rp_next = (if final + 1 < length segs then Some (seg_first (segs ! (final + 1))) else None)\<rparr> }"

datatype cause =
    OversizedSegment nat nat
  | Unenumerable nat
  | CorruptRun run_place
  | BaseMismatch nat
  | UncommittedIntact nat
  | ChainBreak nat

datatype scan_fail = Unscannable nat cause

datatype collect = CollectRecords "nat option" | CollectBoundaries

datatype tail_tell =
    MarkerCommitsNothing nat nat nat
  | FrameDoesNotDecode nat nat
  | LongerThanOneAppend nat

record committed_record =
  cr_seq :: nat
  cr_bytes :: bytes
  cr_committed_at :: nat

record tail_cut =
  tc_segment :: nat
  tc_offset :: nat
  tc_discard :: "nat list"
  tc_bytes :: nat
  tc_from :: "(nat \<times> nat) option"

record closing_marker =
  clm_chain :: bytes
  clm_attestation :: "attestation option"

record scan_outcome =
  so_s_load :: nat
  so_chain_at_base :: bytes
  so_collect :: collect
  so_committed_head :: nat
  so_commits_above_base :: nat
  so_records :: "committed_record list"
  so_nearest_below :: nat
  so_runs :: "scan_run list"
  so_tail_intact :: nat
  so_tail_tell :: "tail_tell option"
  so_tail_claimed :: "nat option"
  so_tail :: "tail_cut option"
  so_chain_head :: bytes
  so_chain_break :: "nat option"
  so_base_mismatch :: "nat option"
  so_uncommitted_intact :: "nat option"
  so_closing :: "closing_marker option"
  so_boundaries :: "(nat \<times> attestation option) list"

definition get_or_insert :: "'a option \<Rightarrow> 'a \<Rightarrow> 'a option" where
  "get_or_insert x v = (case x of None \<Rightarrow> Some v | Some y \<Rightarrow> Some y)"

section \<open>A transaction under way\<close>

record pending_txn =
  pt_txn :: nat
  pt_checksum :: "32 word"
  pt_last_seq :: "nat option"
  pt_ordered :: bool
  pt_accounted :: nat
  pt_oversize :: bool
  pt_records :: "committed_record list"
  pt_link :: chain_link
  pt_clean :: bool

definition pending_open :: "nat \<Rightarrow> bytes \<Rightarrow> pending_txn" where
  "pending_open txn prev_chain =
     \<lparr>pt_txn = txn, pt_checksum = 0, pt_last_seq = None, pt_ordered = True,
      pt_accounted = marker_frame_len, pt_oversize = False, pt_records = [],
      pt_link = link_open prev_chain, pt_clean = True\<rparr>"

definition recomputed_chain :: "jlib \<Rightarrow> pending_txn \<Rightarrow> marker \<Rightarrow> bytes" where
  "recomputed_chain L g m =
     link_close L (pt_link g) (mk_txn m) (mk_last_seq m) (mk_checksum m) (mk_salt m)
       (slot_digest L (mk_sig_alg m) (mk_sig m))"

definition pending_push :: "jlib \<Rightarrow> pending_txn \<Rightarrow> log_record \<Rightarrow> bytes \<Rightarrow> pending_txn" where
  "pending_push L g r payload =
     (let ordered = (case pt_last_seq g of
            Some prev \<Rightarrow> if lr_seq r \<le> prev then False else pt_ordered g
          | None \<Rightarrow> pt_ordered g);
          accounted = saturating_add (pt_accounted g) (frame_len (length payload));
          oversize = (pt_oversize g \<or> accounted > max_txn_bytes)
      in g\<lparr>pt_ordered := ordered,
           pt_last_seq := Some (lr_seq r),
           pt_checksum := crc_append L (pt_checksum g) payload,
           pt_link := add_payload (pt_link g) payload,
           pt_accounted := accounted,
           pt_oversize := oversize,
           pt_records :=
             (if ordered \<and> \<not> oversize
              then pt_records g @ [\<lparr>cr_seq = lr_seq r, cr_bytes = lr_bytes r, cr_committed_at = lr_seq r\<rparr>]
              else [])\<rparr>)"

definition commits :: "pending_txn \<Rightarrow> marker \<Rightarrow> bool" where
  "commits g m \<longleftrightarrow> pt_ordered g \<and> \<not> pt_oversize g \<and> pt_last_seq g = Some (mk_last_seq m) \<and>
     pt_checksum g = mk_checksum m"

definition collect_commit :: "jlib \<Rightarrow> scan_outcome \<Rightarrow> marker \<Rightarrow> pending_txn \<Rightarrow> scan_outcome exec" where
  "collect_commit L out m g = do {
     out \<leftarrow> (if mk_last_seq m > so_s_load out then do {
         let out = (if recomputed_chain L g m \<noteq> mk_chain m
           then out\<lparr>so_chain_break := get_or_insert (so_chain_break out) (mk_last_seq m)\<rparr> else out);
         let out = out\<lparr>so_chain_head := mk_chain m,
                       so_commits_above_base := so_commits_above_base out + 1\<rparr>;
         (case so_collect out of
            CollectRecords bound \<Rightarrow>
              if bound = Some (mk_last_seq m) then do {
                a \<leftarrow> admitted_slot (mk_sig_alg m) (mk_sig m);
                ret (out\<lparr>so_closing := Some \<lparr>clm_chain = mk_chain m, clm_attestation = a\<rparr>\<rparr>) }
              else ret out
          | CollectBoundaries \<Rightarrow> do {
              a \<leftarrow> admitted_slot (mk_sig_alg m) (mk_sig m);
              ret (out\<lparr>so_boundaries := so_boundaries out @ [(mk_last_seq m, a)]\<rparr>) }) }
       else ret (if mk_last_seq m = so_s_load out \<and> mk_chain m \<noteq> so_chain_at_base out
         then out\<lparr>so_base_mismatch := get_or_insert (so_base_mismatch out) (so_s_load out)\<rparr> else out));
     let out = out\<lparr>so_tail_intact := 0, so_tail_claimed := None, so_tail_tell := None,
                   so_committed_head := max (so_committed_head out) (mk_last_seq m)\<rparr>;
     (case so_collect out of
        CollectBoundaries \<Rightarrow> ret out
      | CollectRecords bound \<Rightarrow>
          let out = (case bound of
                Some b \<Rightarrow> if mk_last_seq m < b
                  then out\<lparr>so_nearest_below := max (so_nearest_below out) (mk_last_seq m)\<rparr> else out
              | None \<Rightarrow> out)
          in ret (out\<lparr>so_records := so_records out @
               map (\<lambda>e. e\<lparr>cr_committed_at := mk_last_seq m\<rparr>)
                 (filter (\<lambda>e. case bound of None \<Rightarrow> True | Some b \<Rightarrow> cr_seq e \<le> b) (pt_records g))\<rparr>)) }"

section \<open>The walk\<close>

record walk_state =
  ws_out :: scan_outcome
  ws_cut :: "(nat \<times> nat) option"
  ws_pending :: "pending_txn option"
  ws_run_began :: "(nat \<times> nat) option"

text \<open>A run of damage that an intact frame ends.\<close>

definition end_run :: "segment list \<Rightarrow> run_end \<Rightarrow> nat \<times> nat \<Rightarrow> walk_state \<Rightarrow> walk_state exec" where
  "end_run segs landed at ws =
     (case ws_run_began ws of
        None \<Rightarrow> ret ws
      | Some began \<Rightarrow> do {
          p \<leftarrow> place_of segs began (Some at);
          ret (ws\<lparr>ws_run_began := None,
                 ws_out := (ws_out ws)\<lparr>so_runs := so_runs (ws_out ws) @
                   [\<lparr>run_end_of = landed, run_place_of = p\<rparr>]\<rparr>\<rparr>) })"

definition take_record :: "jlib \<Rightarrow> segment list \<Rightarrow> nat \<times> nat \<Rightarrow> log_record \<Rightarrow> bytes \<Rightarrow> walk_state \<Rightarrow>
    walk_state exec" where
  "take_record L segs at r payload ws = do {
     let group = (case ws_pending ws of
         Some g \<Rightarrow> if pt_txn g = lr_txn r then g else pending_open (lr_txn r) (so_chain_head (ws_out ws))
       | None \<Rightarrow> pending_open (lr_txn r) (so_chain_head (ws_out ws)));
     let group = (if ws_run_began ws \<noteq> None then group\<lparr>pt_clean := False\<rparr> else group);
     ws \<leftarrow> end_run segs (landed_on_record (lr_seq r)) at ws;
     ret (ws\<lparr>ws_pending := Some (pending_push L group r payload)\<rparr>) }"

definition note_idle_marker :: "segment list \<Rightarrow> nat \<times> nat \<Rightarrow> marker \<Rightarrow> scan_outcome \<Rightarrow> scan_outcome" where
  "note_idle_marker segs at m out =
     out\<lparr>so_tail_intact := so_tail_intact out + 1,
         so_tail_claimed := Some (case so_tail_claimed out of
             None \<Rightarrow> mk_last_seq m | Some c \<Rightarrow> max c (mk_last_seq m)),
         so_tail_tell := get_or_insert (so_tail_tell out)
           (MarkerCommitsNothing (seg_first (segs ! fst at)) (snd at) (mk_last_seq m))\<rparr>"

definition take_marker :: "jlib \<Rightarrow> segment list \<Rightarrow> nat \<times> nat \<Rightarrow> nat \<Rightarrow> marker \<Rightarrow> walk_state \<Rightarrow>
    walk_state exec" where
  "take_marker L segs at end m ws = do {
     ws \<leftarrow> end_run segs (landed_on_marker (mk_last_seq m)) at ws;
     (case ws_pending ws of
        Some g \<Rightarrow>
          if pt_txn g = mk_txn m then
            if commits g m then do {
              out \<leftarrow> collect_commit L (ws_out ws) m g;
              ret (ws\<lparr>ws_pending := None, ws_out := out, ws_cut := Some (fst at, end)\<rparr>) }
            else
              let out = note_idle_marker segs at m (ws_out ws);
                  out = (if pt_clean g \<and> so_uncommitted_intact out = None
                         then out\<lparr>so_uncommitted_intact := Some
                           (case pt_last_seq g of Some l \<Rightarrow> l | None \<Rightarrow> mk_last_seq m)\<rparr> else out)
              in ret (ws\<lparr>ws_pending := None, ws_out := out\<rparr>)
          else
            let out = note_idle_marker segs at m (ws_out ws);
                out = (if pt_clean g \<and> so_uncommitted_intact out = None
                       then out\<lparr>so_uncommitted_intact := pt_last_seq g\<rparr> else out)
            in ret (ws\<lparr>ws_out := out\<rparr>)
      | None \<Rightarrow> ret (ws\<lparr>ws_out := note_idle_marker segs at m (ws_out ws)\<rparr>)) }"

definition taint :: "walk_state \<Rightarrow> walk_state" where
  "taint ws = ws\<lparr>ws_pending := map_option (\<lambda>g. g\<lparr>pt_clean := False\<rparr>) (ws_pending ws)\<rparr>"

definition take_undecodable :: "segment list \<Rightarrow> nat \<times> nat \<Rightarrow> walk_state \<Rightarrow> walk_state" where
  "take_undecodable segs at ws =
     taint (ws\<lparr>ws_run_began := get_or_insert (ws_run_began ws) at,
               ws_out := (ws_out ws)\<lparr>so_tail_intact := so_tail_intact (ws_out ws) + 1,
                 so_tail_tell := get_or_insert (so_tail_tell (ws_out ws))
                   (FrameDoesNotDecode (seg_first (segs ! fst at)) (snd at))\<rparr>\<rparr>)"

definition take_frame :: "jlib \<Rightarrow> segment list \<Rightarrow> nat \<times> nat \<Rightarrow> nat \<Rightarrow> bytes \<Rightarrow> walk_state \<Rightarrow>
    walk_state exec" where
  "take_frame L segs at end payload ws =
     (case de_payload L payload of
        Some (Record r) \<Rightarrow> take_record L segs at r payload ws
      | Some (Marker m) \<Rightarrow> take_marker L segs at end m ws
      | None \<Rightarrow> ret (take_undecodable segs at ws))"

lemma parse_frame_forward: "parse_frame L buf pos = Intact a b \<Longrightarrow> pos < b \<and> b \<le> length buf"
  by (auto simp: parse_frame_def frame_header_len_def Let_def split: if_splits)

lemma find_magic_forward: "find_magic buf from = Some p \<Longrightarrow> from \<le> p"
  by (auto simp: find_magic_def split: if_splits)

function walk_segment :: "jlib \<Rightarrow> segment list \<Rightarrow> nat \<Rightarrow> nat \<Rightarrow> bytes \<Rightarrow> nat \<Rightarrow> nat \<Rightarrow> nat \<Rightarrow> walk_state \<Rightarrow>
    (walk_state, scan_fail) result exec" where
  "walk_segment L segs s_load i buf budget pos spent ws =
     (if pos < length buf then
        (case parse_frame L buf pos of
           Intact a end \<Rightarrow>
             (case take_frame L segs (i, pos) end (subbytes buf a end) ws of
                None \<Rightarrow> panic
              | Some ws' \<Rightarrow> walk_segment L segs s_load i buf budget end spent ws')
         | Bad crc_bytes \<Rightarrow>
             if spent + crc_bytes > budget
             then err (Unscannable s_load (Unenumerable (seg_first (segs ! i))))
             else walk_segment L segs s_load i buf budget
                    (case find_magic buf (pos + 1) of Some p \<Rightarrow> p | None \<Rightarrow> length buf)
                    (spent + crc_bytes)
                    (taint (ws\<lparr>ws_run_began := get_or_insert (ws_run_began ws) (i, pos)\<rparr>)))
      else ok ws)"
  by pat_completeness auto
termination
  by (relation "measure (\<lambda>(L, segs, s_load, i, buf, budget, pos, spent, ws). length buf - pos)")
     (auto dest!: parse_frame_forward find_magic_forward split: option.splits)

declare walk_segment.simps [simp del]

fun walk_segments :: "jlib \<Rightarrow> segment list \<Rightarrow> nat \<Rightarrow> (nat \<times> segment) list \<Rightarrow> walk_state \<Rightarrow>
    (walk_state, scan_fail) result exec" where
  "walk_segments L segs s_load [] ws = ok ws"
| "walk_segments L segs s_load ((i, seg) # rest) ws =
     (let buf = seg_bytes seg in
      if length buf > max_segment_len
      then err (Unscannable s_load (OversizedSegment (seg_first seg) (length buf)))
      else and_then (walk_segment L segs s_load i buf (length buf * resync_budget_passes) 0 0 ws)
             (walk_segments L segs s_load rest))"

definition outcome_new :: "nat \<Rightarrow> collect \<Rightarrow> bytes \<Rightarrow> scan_outcome" where
  "outcome_new s_load coll chain_at_base =
     \<lparr>so_s_load = s_load, so_chain_at_base = chain_at_base, so_collect = coll,
      so_committed_head = s_load, so_commits_above_base = 0, so_records = [],
      so_nearest_below = s_load, so_runs = [], so_tail_intact = 0, so_tail_tell = None,
      so_tail_claimed = None, so_tail = None, so_chain_head = chain_at_base, so_chain_break = None,
      so_base_mismatch = None, so_uncommitted_intact = None, so_closing = None, so_boundaries = []\<rparr>"

text \<open>The tail: everything past the last commit, or past the start of the first scanned segment.\<close>

definition tail_of :: "segment list \<Rightarrow> (nat \<times> segment) list \<Rightarrow> (nat \<times> nat) option \<Rightarrow> tail_cut option" where
  "tail_of segs scanned cutp =
     (let len_of = (\<lambda>i. case map_of scanned i of Some seg \<Rightarrow> length (seg_bytes seg) | None \<Rightarrow> 0)
      in (case (case cutp of Some c \<Rightarrow> Some c
                | None \<Rightarrow> (case scanned of [] \<Rightarrow> None | (first, _) # _ \<Rightarrow> Some (first, 0))) of
            None \<Rightarrow> None
          | Some (i, offset) \<Rightarrow>
              let own = len_of i - offset;
                  later = drop (i + 1) (enumerate 0 segs);
                  from = (if own > 0 then Some (seg_first (segs ! i), offset) else None);
                  from = foldl (\<lambda>f (j, seg). if f = None \<and> len_of j > 0 then Some (seg_first seg, 0) else f)
                           from later;
                  total = foldl (\<lambda>n (j, seg). saturating_add n (len_of j)) own later
              in Some \<lparr>tc_segment = seg_first (segs ! i), tc_offset = offset,
                       tc_discard = map seg_first (drop (i + 1) segs), tc_bytes = total,
                       tc_from = from\<rparr>))"

definition walk :: "jlib \<Rightarrow> segment list \<Rightarrow> nat \<Rightarrow> collect \<Rightarrow> bytes \<Rightarrow>
    (scan_outcome, scan_fail) result exec" where
  "walk L segs s_load coll chain_at_base =
     (let scanned = scanned_above segs s_load in
      and_then (walk_segments L segs s_load scanned
         \<lparr>ws_out = outcome_new s_load coll chain_at_base, ws_cut = None, ws_pending = None,
          ws_run_began = None\<rparr>)
       (\<lambda>ws. do {
          out \<leftarrow> (case ws_run_began ws of
              None \<Rightarrow> ret (ws_out ws)
            | Some began \<Rightarrow> do {
                p \<leftarrow> place_of segs began None;
                ret ((ws_out ws)\<lparr>so_runs := so_runs (ws_out ws) @
                       [\<lparr>run_end_of = Eof, run_place_of = p\<rparr>]\<rparr>) });
          ok (out\<lparr>so_tail := tail_of segs scanned (ws_cut ws)\<rparr>) }))"

definition scan :: "jlib \<Rightarrow> segment list \<Rightarrow> nat \<Rightarrow> nat option \<Rightarrow> bytes \<Rightarrow>
    (scan_outcome, scan_fail) result exec" where
  "scan L segs s_load bound chain_at_base = walk L segs s_load (CollectRecords bound) chain_at_base"

definition scan_boundaries :: "jlib \<Rightarrow> segment list \<Rightarrow> nat \<Rightarrow> bytes \<Rightarrow>
    (scan_outcome, scan_fail) result exec" where
  "scan_boundaries L segs s_load chain_at_base = walk L segs s_load CollectBoundaries chain_at_base"

section \<open>Reading the outcome\<close>

definition fatal_run :: "scan_outcome \<Rightarrow> nat option \<Rightarrow> (nat \<times> run_place) option" where
  "fatal_run out bound =
     (case find (\<lambda>r. case run_end_of r of
          Landed inferred_max at \<Rightarrow> inferred_max > so_s_load out \<and>
            (case bound of None \<Rightarrow> True | Some b \<Rightarrow> inferred_max \<le> b)
        | Eof \<Rightarrow> False) (so_runs out) of
        Some r \<Rightarrow> (case run_end_of r of Landed m at \<Rightarrow> Some (at, run_place_of r) | Eof \<Rightarrow> None)
      | None \<Rightarrow> None)"

definition chain_verdict :: "scan_outcome \<Rightarrow> (nat \<times> cause) option" where
  "chain_verdict out =
     (case so_base_mismatch out of
        Some at \<Rightarrow> Some (at, BaseMismatch at)
      | None \<Rightarrow>
          (case so_uncommitted_intact out of
             Some at \<Rightarrow> Some (at, UncommittedIntact at)
           | None \<Rightarrow> map_option (\<lambda>at. (at, ChainBreak at)) (so_chain_break out)))"

definition halt_on :: "scan_outcome \<Rightarrow> (nat \<times> run_place) option \<Rightarrow> (nat \<times> cause) option" where
  "halt_on out fatal =
     (case fatal of
        Some (at, place) \<Rightarrow> Some (at, CorruptRun place)
      | None \<Rightarrow> chain_verdict out)"

definition halt_to_head :: "scan_outcome \<Rightarrow> (nat \<times> cause) option" where
  "halt_to_head out = halt_on out (fatal_run out (Some (so_committed_head out)))"

definition halt_anywhere :: "scan_outcome \<Rightarrow> (nat \<times> cause) option" where
  "halt_anywhere out = halt_on out (fatal_run out None)"

record damaged_tail =
  dt_from :: "nat \<times> nat"
  dt_head :: nat
  dt_bytes :: nat
  dt_intact :: nat
  dt_claimed :: "nat option"
  dt_tell :: tail_tell

definition damaged_tail_of :: "scan_outcome \<Rightarrow> damaged_tail option" where
  "damaged_tail_of out =
     (case so_tail out of
        None \<Rightarrow> None
      | Some t \<Rightarrow>
          (case tc_from t of
             None \<Rightarrow> None
           | Some from \<Rightarrow>
               (case (case so_tail_tell out of
                        Some tell \<Rightarrow> Some tell
                      | None \<Rightarrow> if tc_bytes t > max_crash_tail_bytes
                               then Some (LongerThanOneAppend max_crash_tail_bytes) else None) of
                  None \<Rightarrow> None
                | Some tell \<Rightarrow> Some \<lparr>dt_from = from, dt_head = so_committed_head out, dt_bytes = tc_bytes t,
                    dt_intact = so_tail_intact out, dt_claimed = so_tail_claimed out, dt_tell = tell\<rparr>)))"

definition restored_high_water :: "scan_outcome \<Rightarrow> nat" where
  "restored_high_water out =
     (let head = so_committed_head out in
      (case so_tail_claimed out of
         None \<Rightarrow> head
       | Some claimed \<Rightarrow>
           if claimed > head then
             let could_hold = (case so_tail out of None \<Rightarrow> 0 | Some t \<Rightarrow> tc_bytes t div record_frame_len 0)
             in if claimed - head \<le> could_hold \<and> claimed < u64_max - 1 then claimed else head
           else head))"

definition runs_passed_over :: "scan_outcome \<Rightarrow> nat \<times> (nat \<times> run_place) option" where
  "runs_passed_over out =
     (let below = concat (map (\<lambda>r. case run_end_of r of
            Landed m at \<Rightarrow> if m > 0 \<and> m \<le> so_s_load out then [(m, run_place_of r)] else []
          | Eof \<Rightarrow> []) (so_runs out))
      in (length below, case below of [] \<Rightarrow> None | b # _ \<Rightarrow> Some b))"

definition scan_covers :: "scan_outcome \<Rightarrow> nat \<Rightarrow> bool" where
  "scan_covers out bound =
     (case so_collect out of
        CollectRecords collected \<Rightarrow> (case collected of None \<Rightarrow> True | Some c \<Rightarrow> bound \<le> c)
      | CollectBoundaries \<Rightarrow> False)"

definition closing_marker_at :: "scan_outcome \<Rightarrow> nat \<Rightarrow> (closing_marker, nat) result exec" where
  "closing_marker_at out at =
     (if so_collect out = CollectRecords (Some at) \<and> at > so_s_load out then
        ret (case so_closing out of Some m \<Rightarrow> Ok m | None \<Rightarrow> Err (so_nearest_below out))
      else panic)"

definition into_boundaries :: "scan_outcome \<Rightarrow> (nat \<times> attestation option) list exec" where
  "into_boundaries out = (if so_collect out = CollectBoundaries then ret (so_boundaries out) else panic)"

section \<open>The first sync word, and the cut\<close>

datatype first_sync_word = SwScan | SwForeign bytes nat | SwDamaged bytes nat

definition stamp_prefix :: bytes where
  "stamp_prefix = [0x53, 0x4B, 0x4A]"

definition first_sync_word :: "segment list \<Rightarrow> nat \<Rightarrow> first_sync_word" where
  "first_sync_word segs s_load =
     (case scanned_above segs s_load of
        [] \<Rightarrow> SwScan
      | (_, seg) # _ \<Rightarrow>
          (let header = take frame_header_len (seg_bytes seg) in
           if length header < 4 then SwScan
           else
             let word = take 4 header; rest = drop 4 header
             in if word = magic \<or> take 3 word \<noteq> stamp_prefix then SwScan
                else if length rest < 4 then SwForeign word (seg_first seg)
                else
                  let len = from_le (take 4 rest);
                      successor = take 4 (drop (frame_header_len + len) (seg_bytes seg))
                  in if successor = magic then SwDamaged word (seg_first seg)
                     else SwForeign word (seg_first seg)))"

text \<open>
  What \<^verbatim>\<open>truncate_tail\<close> leaves of the segments. The files it keeps beside the journal are read by no
  listing, so they are no part of the segments.
\<close>

definition truncate_segs :: "segment list \<Rightarrow> tail_cut \<Rightarrow> segment list" where
  "truncate_segs segs t =
     map (\<lambda>seg. if seg_first seg = tc_segment t then seg\<lparr>seg_bytes := take (tc_offset t) (seg_bytes seg)\<rparr> else seg)
       (filter (\<lambda>seg. seg_first seg \<notin> set (tc_discard t)) segs)"

definition truncate_tail :: "segment list \<Rightarrow> scan_outcome \<Rightarrow> bool \<Rightarrow> segment list exec" where
  "truncate_tail segs out accept =
     (case so_tail out of
        None \<Rightarrow> ret segs
      | Some t \<Rightarrow>
          if accept \<or> damaged_tail_of out = None then ret (truncate_segs segs t) else panic)"

text \<open>\<^verbatim>\<open>sort_by_key\<close> is stable, and so is \<open>sort_key\<close>.\<close>

definition records_to :: "scan_outcome \<Rightarrow> nat \<Rightarrow> (committed_record list, nat) result exec" where
  "records_to out bound =
     (if \<not> scan_covers out bound then panic
      else
        let rs = sort_key cr_seq (filter (\<lambda>e. cr_seq e > so_s_load out \<and> cr_seq e \<le> bound) (so_records out))
        in ret (case find (\<lambda>(a, b). cr_seq a = cr_seq b) (zip rs (tl rs)) of
                  Some (a, b) \<Rightarrow> Err (cr_seq a)
                | None \<Rightarrow> Ok rs))"

section \<open>Replay\<close>

datatype fold_fail = FoldFail nat bool

text \<open>
  \<^verbatim>\<open>replay::fold_to\<close>: the committed records, decoded by the world's own codec, folded at the positions
  their transactions committed at.
\<close>

definition fold_to :: "(bytes \<Rightarrow> 'r option) \<Rightarrow> (nat \<Rightarrow> 'w \<Rightarrow> 'r \<Rightarrow> 'w exec) \<Rightarrow> 'w \<Rightarrow> scan_outcome \<Rightarrow> nat \<Rightarrow>
    ('w, fold_fail) result exec" where
  "fold_to decode app base out bound = do {
     rs \<leftarrow> records_to out bound;
     (case rs of
        Inl at \<Rightarrow> err (FoldFail at False)
      | Inr entries \<Rightarrow>
          exec_fold (\<lambda>w e. case w of
              Inl f \<Rightarrow> err f
            | Inr world \<Rightarrow>
                (case decode (cr_bytes e) of
                   None \<Rightarrow> err (FoldFail (cr_seq e) True)
                 | Some r \<Rightarrow> do { world' \<leftarrow> app (cr_committed_at e) world r; ok world' }))
            (Ok base) entries) }"

end
