(* ===== verification/Journal_Written.thy ===== *)
theory Journal_Written
  imports Journal_Scan
begin

text \<open>
  The journal the writer leaves, and the scan's walk over it. A transaction is what \<^verbatim>\<open>encode_txn\<close> is
  handed; \<open>tx_frames\<close> and \<open>tx_chain\<close> are what it appends and the chain value it closes on, by
  \<open>encode_txn_eq\<close>. A segment is named by a position and holds transactions in order (\<open>groups\<close>,
  \<open>journal_segs\<close>), and a crash leaves a torn append after the last of them (\<open>torn_append\<close>).

  The lemmas follow the walk over \<open>pre @ part @ post\<close> one part at a time: a frame, the records of a
  transaction, its marker, a run of transactions, a run of segments, the torn end; then the cut.
  \<open>jlib_ok\<close> is what they ask of the serialiser, its decoder and the hash.
\<close>

section \<open>What the code relies on of the third-party functions\<close>

fun wf_payload :: "frame_payload \<Rightarrow> bool" where
  "wf_payload (Record r) \<longleftrightarrow> lr_seq r < 2 ^ 64 \<and> lr_txn r < 2 ^ 64"
| "wf_payload (Marker m) \<longleftrightarrow> mk_txn m < 2 ^ 64 \<and> mk_last_seq m < 2 ^ 64 \<and>
     length (mk_salt m) = 32 \<and> length (mk_chain m) = 32"

text \<open>The serialiser is inverted by the decoder, and has the fixed-width lengths the source pins.\<close>

definition jlib_ok :: "jlib \<Rightarrow> bool" where
  "jlib_ok L \<longleftrightarrow>
     (\<forall>p. wf_payload p \<longrightarrow> bc_de L (bc_ser L p) = Some p) \<and>
     (\<forall>r. wf_payload (Record r) \<longrightarrow> length (bc_ser L (Record r)) = 28 + length (lr_bytes r)) \<and>
     (\<forall>m. wf_payload (Marker m) \<longrightarrow> length (bc_ser L (Marker m)) = 97 + length (mk_sig m)) \<and>
     (\<forall>bs. length (sha256 L bs) = 32)"

section \<open>Little-endian numbers\<close>

lemma length_le_bytes [simp]: "length (le_bytes k n) = k"
  by (induction k arbitrary: n) auto

lemma from_le_bytes: "from_le (le_bytes k n) = n mod 256 ^ k"
proof (induction k arbitrary: n)
  case (Suc k)
  have "unat (of_nat (n mod 256) :: 8 word) = n mod 256"
    by (simp add: unat_of_nat take_bit_eq_mod)
  then show ?case using Suc by (simp add: mod_mult2_eq)
qed simp

lemma length_magic [simp]: "length magic = 4"
  by (simp add: magic_def)

lemma length_frame_bytes [simp]: "length (frame_bytes L p) = 12 + length p"
  by (simp add: frame_bytes_def Let_def)

section \<open>Parsing what was pushed\<close>

lemma subbytes_append [simp]:
  "subbytes (pre @ xs) (length pre + a) (length pre + b) = subbytes xs a b"
  "subbytes (pre @ xs) (length pre) (length pre + b) = subbytes xs 0 b"
  by (simp_all add: subbytes_def)

lemma parse_frame_shift:
  "parse_frame L (pre @ xs) (length pre) =
     (case parse_frame L xs 0 of Intact a b \<Rightarrow> Intact (length pre + a) (length pre + b) | Bad n \<Rightarrow> Bad n)"
  by (simp add: parse_frame_def frame_header_len_def Let_def add.assoc)

lemma frame_fields:
  "subbytes (frame_bytes L p @ post) 0 4 = magic"
  "subbytes (frame_bytes L p @ post) 4 8 = le_bytes 4 (length p)"
  "subbytes (frame_bytes L p @ post) 8 12 =
     le_bytes 4 (unat (crc_append L (crc_append L 0 (le_bytes 4 (length p))) p))"
  "subbytes (frame_bytes L p @ post) 12 (12 + length p) = p"
  by (simp_all add: subbytes_def frame_bytes_def Let_def drop_append)

lemma unat_32: "unat (w :: 32 word) mod 4294967296 = unat w"
proof -
  have "unat w < 2 ^ LENGTH(32)" by (rule unsigned_less)
  then show ?thesis by simp
qed

lemma parse_frame_bytes:
  assumes "length p \<le> max_frame_len"
  shows "parse_frame L (pre @ frame_bytes L p @ post) (length pre)
           = Intact (length pre + 12) (length pre + 12 + length p)"
    and "subbytes (pre @ frame_bytes L p @ post) (length pre + 12) (length pre + 12 + length p) = p"
proof -
  have len: "length p mod 4294967296 = length p" using assms by (simp add: max_frame_len_def)
  have "parse_frame L (frame_bytes L p @ post) 0 = Intact 12 (12 + length p)"
    using assms frame_fields [of L p post]
    by (simp add: parse_frame_def frame_header_len_def Let_def from_le_bytes len unat_32)
  then show "parse_frame L (pre @ frame_bytes L p @ post) (length pre)
           = Intact (length pre + 12) (length pre + 12 + length p)"
    by (simp add: parse_frame_shift)
  show "subbytes (pre @ frame_bytes L p @ post) (length pre + 12) (length pre + 12 + length p) = p"
    using frame_fields(4) [of L p post] subbytes_append(1) [of pre "frame_bytes L p @ post" 12 "12 + length p"]
    by (simp add: add.assoc)
qed

text \<open>A frame cut short is refused before its checksum is computed.\<close>

lemma parse_torn:
  assumes "strict_prefix torn (frame_bytes L p)" "torn \<noteq> []" "length p \<le> max_frame_len"
  shows "parse_frame L (pre @ torn) (length pre) = Bad 0"
proof -
  obtain rest where rest: "frame_bytes L p = torn @ rest" "rest \<noteq> []"
    using assms(1) by (auto simp: strict_prefix_def prefix_def)
  have len: "length torn < 12 + length p" using rest length_frame_bytes [of L p] by (cases rest) auto
  have "parse_frame L torn 0 = Bad 0"
  proof (cases "length torn < 12")
    case True
    then show ?thesis by (simp add: parse_frame_def frame_header_len_def)
  next
    case False
    have "subbytes torn a b = subbytes (torn @ rest) a b" if "b \<le> 12" for a b
      using False that by (auto simp: subbytes_def)
    then have "subbytes torn 0 4 = magic" "subbytes torn 4 8 = le_bytes 4 (length p)"
      using frame_fields(1,2) [of L p "[]"] rest(1) by simp_all
    moreover have "length p mod 4294967296 = length p" using assms(3) by (simp add: max_frame_len_def)
    ultimately show ?thesis using len assms(3)
      by (simp add: parse_frame_def frame_header_len_def Let_def from_le_bytes)
  qed
  then show ?thesis by (simp add: parse_frame_shift)
qed

lemma find_magic_torn:
  assumes "magic_at (drop 1 torn) = None" "torn \<noteq> []"
  shows "find_magic (pre @ torn) (length pre + 1) = None"
  using assms by (auto simp: find_magic_def)


section \<open>Transactions as the writer encodes them\<close>

text \<open>What \<^verbatim>\<open>encode_txn\<close> is handed for a transaction, beside the chain it continues.\<close>

record txn =
  tx_first :: nat
  tx_records :: "bytes list"
  tx_salt :: bytes
  tx_att :: "attestation option"

definition tx_last :: "txn \<Rightarrow> nat" where
  "tx_last t = tx_first t + (length (tx_records t) - 1)"

definition tx_alg :: "txn \<Rightarrow> 8 word" where
  "tx_alg t = (case tx_att t of Some a \<Rightarrow> att_alg a | None \<Rightarrow> sig_alg_unsigned)"

definition tx_sig :: "txn \<Rightarrow> bytes" where
  "tx_sig t = (case tx_att t of Some a \<Rightarrow> att_sig a | None \<Rightarrow> [])"

fun rec_payloads :: "jlib \<Rightarrow> nat \<Rightarrow> nat \<Rightarrow> bytes list \<Rightarrow> bytes list" where
  "rec_payloads L txn s [] = []"
| "rec_payloads L txn s (bs # rest) =
     bc_ser L (Record \<lparr>lr_seq = s, lr_txn = txn, lr_bytes = bs\<rparr>) # rec_payloads L txn (s + 1) rest"

definition tx_payloads :: "jlib \<Rightarrow> txn \<Rightarrow> bytes list" where
  "tx_payloads L t = rec_payloads L (tx_first t) (tx_first t) (tx_records t)"

definition tx_checksum :: "jlib \<Rightarrow> txn \<Rightarrow> 32 word" where
  "tx_checksum L t = foldl (crc_append L) 0 (tx_payloads L t)"

definition tx_chain :: "jlib \<Rightarrow> bytes \<Rightarrow> txn \<Rightarrow> bytes" where
  "tx_chain L prev t =
     link_close L (ChainLink (prev @ concat (tx_payloads L t))) (tx_first t) (tx_last t) (tx_checksum L t)
       (tx_salt t) (slot_digest L (tx_alg t) (tx_sig t))"

definition tx_marker :: "jlib \<Rightarrow> bytes \<Rightarrow> txn \<Rightarrow> marker" where
  "tx_marker L prev t =
     \<lparr>mk_txn = tx_first t, mk_last_seq = tx_last t, mk_checksum = tx_checksum L t, mk_salt = tx_salt t,
      mk_chain = tx_chain L prev t, mk_sig_alg = tx_alg t, mk_sig = tx_sig t\<rparr>"

definition tx_frames :: "jlib \<Rightarrow> bytes \<Rightarrow> txn \<Rightarrow> bytes list" where
  "tx_frames L prev t = tx_payloads L t @ [bc_ser L (Marker (tx_marker L prev t))]"

abbreviation framed :: "jlib \<Rightarrow> bytes list \<Rightarrow> bytes" where
  "framed L ps \<equiv> concat (map (frame_bytes L) ps)"

text \<open>A transaction the journal admits: within the width of a position, and within the budget.\<close>

definition tx_ok :: "txn \<Rightarrow> bool" where
  "tx_ok t \<longleftrightarrow> tx_records t \<noteq> [] \<and> 1 \<le> tx_first t \<and> tx_first t + length (tx_records t) \<le> u64_max \<and>
     length (tx_salt t) = 32 \<and> att_slot (tx_alg t) (tx_sig t) = Ok (tx_att t) \<and>
     txn_encoded_len (tx_records t) None \<le> max_txn_bytes"

lemma tx_okD:
  assumes "tx_ok t"
  shows "tx_records t \<noteq> []" "1 \<le> tx_first t" "tx_first t \<le> tx_last t" "tx_last t < u64_max"
    "length (tx_salt t) = 32" "att_slot (tx_alg t) (tx_sig t) = Ok (tx_att t)"
    "length (tx_sig t) \<le> max_sig_bytes"
    "tx_last t + 1 = tx_first t + length (tx_records t)"
proof -
  obtain n where "length (tx_records t) = Suc n"
    using assms by (cases "length (tx_records t)") (auto simp: tx_ok_def)
  then show "tx_first t \<le> tx_last t" "tx_last t < u64_max" "tx_last t + 1 = tx_first t + length (tx_records t)"
    using assms by (auto simp: tx_ok_def tx_last_def u64_max_def)
  show "length (tx_sig t) \<le> max_sig_bytes"
    using assms by (auto simp: tx_ok_def att_slot_def tx_sig_def split: if_splits option.splits)
qed (use assms in \<open>auto simp: tx_ok_def\<close>)

lemma length_rec_payloads [simp]: "length (rec_payloads L x s bss) = length bss"
  by (induction bss arbitrary: s) auto

text \<open>The accounting saturates, and below its ceiling it is the sum.\<close>

lemma foldl_saturating:
  "foldl (\<lambda>n b. saturating_add n (f b)) n bss = (if bss = [] then n else min (n + sum_list (map f bss)) u64_max)"
  by (induction bss arbitrary: n) (auto simp: saturating_add_def min_def)

lemma accounted:
  assumes "txn_encoded_len bss None \<le> max_txn_bytes"
  shows "marker_frame_len + sum_list (map (\<lambda>b. 40 + length b) bss) \<le> max_txn_bytes"
proof -
  have *: "record_frame_len n = min (40 + n) u64_max" for n
    by (auto simp: record_frame_len_def record_payload_len_def frame_len_def saturating_add_def
        frame_header_len_def record_payload_overhead_def u64_max_def)
  have f: "sum_list (map (\<lambda>b. min (40 + length b) u64_max) bss) = sum_list (map (\<lambda>b. 40 + length b) bss)"
    if "sum_list (map (\<lambda>b. min (40 + length b) u64_max) bss) < u64_max"
    using that by (induction bss) auto
  have m: "marker_frame_len = 109" "saturating_add 109 0 = 109"
    by (simp_all add: marker_frame_len_def frame_len_def saturating_add_def frame_header_len_def u64_max_def)
  have "txn_encoded_len bss None = (if bss = [] then 109
      else min (109 + sum_list (map (\<lambda>b. min (40 + length b) u64_max) bss)) u64_max)"
    by (simp add: txn_encoded_len_def m foldl_saturating *)
  then show ?thesis using assms f
    by (auto simp: m max_txn_bytes_def max_frame_len_def u64_max_def split: if_splits)
qed

text \<open>What \<^verbatim>\<open>encode_txn\<close> appends: the record frames, then the marker frame.\<close>

lemma length_rec_payload:
  assumes "jlib_ok L" "s < 2 ^ 64" "x < 2 ^ 64"
  shows "length (bc_ser L (Record \<lparr>lr_seq = s, lr_txn = x, lr_bytes = bs\<rparr>)) = 28 + length bs"
  using assms by (simp add: jlib_ok_def)

lemma encode_records_eq:
  assumes "jlib_ok L" "x < 2 ^ 64" "s + length bss \<le> 2 ^ 64" "\<forall>bs \<in> set bss. 28 + length bs \<le> max_frame_len"
  shows "encode_records L x s bss (buf, c, ChainLink b) =
    Ok (buf @ framed L (rec_payloads L x s bss), foldl (crc_append L) c (rec_payloads L x s bss),
        ChainLink (b @ concat (rec_payloads L x s bss)))"
  using assms(3,4)
proof (induction bss arbitrary: s buf c b)
  case (Cons bs bss)
  have "length (bc_ser L (Record \<lparr>lr_seq = s, lr_txn = x, lr_bytes = bs\<rparr>)) = 28 + length bs"
    using Cons.prems by (intro length_rec_payload assms) simp
  then show ?case using Cons by (simp add: Let_def push_frame_def)
qed simp

lemma wf_tx_marker:
  assumes "jlib_ok L" "tx_ok t"
  shows "wf_payload (Marker (tx_marker L prev t))"
  using tx_okD [OF assms(2)] assms(1)
  by (auto simp: tx_marker_def tx_chain_def jlib_ok_def u64_max_def)

lemma length_tx_marker:
  assumes "jlib_ok L" "tx_ok t"
  shows "length (bc_ser L (Marker (tx_marker L prev t))) = 97 + length (tx_sig t)"
  using wf_tx_marker [OF assms, of prev] assms(1) by (simp add: jlib_ok_def tx_marker_def)

lemma tx_record_bound:
  assumes "tx_ok t" "bs \<in> set (tx_records t)"
  shows "28 + length bs \<le> max_frame_len"
proof -
  have "40 + length bs \<le> sum_list (map (\<lambda>b. 40 + length b) (tx_records t))"
    using assms(2) by (simp add: member_le_sum_list)
  then show ?thesis using accounted [of "tx_records t"] assms(1) by (simp add: tx_ok_def max_txn_bytes_def)
qed

lemma encode_txn_eq:
  assumes "jlib_ok L" "tx_ok t"
  shows "encode_txn L (tx_first t) (tx_records t) prev (tx_salt t) (tx_att t)
           = ok (framed L (tx_frames L prev t), tx_chain L prev t)"
proof -
  note t = tx_okD [OF assms(2)]
  have "encode_records L (tx_first t) (tx_first t) (tx_records t) ([], 0, link_open prev) =
    Ok (framed L (tx_payloads L t), tx_checksum L t, ChainLink (prev @ concat (tx_payloads L t)))"
    unfolding tx_payloads_def tx_checksum_def link_open_def
    using encode_records_eq [OF assms(1), of "tx_first t" "tx_first t" "tx_records t" "[]" 0 prev]
      t tx_record_bound [OF assms(2)] by (simp add: u64_max_def)
  moreover have "length (bc_ser L (Marker (tx_marker L prev t))) \<le> max_frame_len"
    using t by (simp add: length_tx_marker [OF assms] max_frame_len_def max_sig_bytes_def)
  ultimately show ?thesis using t(1)
    by (cases "tx_att t") (simp_all add: encode_txn_def Let_def tx_frames_def push_frame_def
        tx_marker_def tx_chain_def tx_alg_def tx_sig_def tx_last_def del: One_nat_def)
qed

section \<open>The walk over what was written\<close>

lemma walk_step:
  assumes "length p \<le> max_frame_len"
  shows "walk_segment L segs s i (pre @ frame_bytes L p @ post) budget (length pre) spent ws =
    (case take_frame L segs (i, length pre) (length pre + 12 + length p) p ws of
       None \<Rightarrow> panic
     | Some ws' \<Rightarrow> walk_segment L segs s i (pre @ frame_bytes L p @ post) budget
                     (length (pre @ frame_bytes L p)) spent ws')"
  using parse_frame_bytes [OF assms, where L = L and pre = pre and post = post]
  by (subst walk_segment.simps) (simp add: add.assoc cong: option.case_cong)

lemma rec_payloads_nth:
  "k < length bss \<Longrightarrow>
     rec_payloads L x s bss ! k = bc_ser L (Record \<lparr>lr_seq = s + k, lr_txn = x, lr_bytes = bss ! k\<rparr>)"
  by (induction bss arbitrary: s k) (auto simp: nth_Cons split: nat.split)

lemma tx_payloads_nth:
  "k < length (tx_records t) \<Longrightarrow> tx_payloads L t ! k =
     bc_ser L (Record \<lparr>lr_seq = tx_first t + k, lr_txn = tx_first t, lr_bytes = tx_records t ! k\<rparr>)"
  by (simp add: tx_payloads_def rec_payloads_nth)

lemma length_tx_payloads [simp]: "length (tx_payloads L t) = length (tx_records t)"
  by (simp add: tx_payloads_def)

text \<open>The transaction under way after its first \<open>k\<close> records.\<close>

definition entries :: "txn \<Rightarrow> committed_record list" where
  "entries t = map (\<lambda>k. \<lparr>cr_seq = tx_first t + k, cr_bytes = tx_records t ! k, cr_committed_at = tx_first t + k\<rparr>)
     [0..<length (tx_records t)]"

definition group_after :: "jlib \<Rightarrow> bytes \<Rightarrow> txn \<Rightarrow> nat \<Rightarrow> pending_txn" where
  "group_after L prev t k =
     \<lparr>pt_txn = tx_first t, pt_checksum = foldl (crc_append L) 0 (take k (tx_payloads L t)),
      pt_last_seq = (if k = 0 then None else Some (tx_first t + (k - 1))), pt_ordered = True,
      pt_accounted = marker_frame_len + sum_list (map (\<lambda>b. 40 + length b) (take k (tx_records t))),
      pt_oversize = False, pt_records = take k (entries t),
      pt_link = ChainLink (prev @ concat (take k (tx_payloads L t))), pt_clean = True\<rparr>"

lemma sum_list_take_le: "sum_list (map f (take k xs)) \<le> (sum_list (map f xs) :: nat)"
proof -
  have "sum_list (map f xs) = sum_list (map f (take k xs)) + sum_list (map f (drop k xs))"
    by (metis append_take_drop_id map_append sum_list_append)
  then show ?thesis by simp
qed

lemma pending_push_group:
  assumes "jlib_ok L" "tx_ok t" "k < length (tx_records t)"
  shows "pending_push L (group_after L prev t k)
      \<lparr>lr_seq = tx_first t + k, lr_txn = tx_first t, lr_bytes = tx_records t ! k\<rparr> (tx_payloads L t ! k)
    = group_after L prev t (Suc k)"
proof -
  have len: "length (tx_payloads L t ! k) = 28 + length (tx_records t ! k)"
    using tx_okD [OF assms(2)] assms(3)
    by (simp add: tx_payloads_nth length_rec_payload [OF assms(1)] u64_max_def)
  have b: "marker_frame_len + sum_list (map (\<lambda>b. 40 + length b) (take (Suc k) (tx_records t))) \<le> max_txn_bytes"
    using accounted [of "tx_records t"] assms(2)
      sum_list_take_le [of "\<lambda>b. 40 + length b" "Suc k" "tx_records t"] by (simp add: tx_ok_def)
  have e: "take (Suc k) (entries t) = take k (entries t) @
      [\<lparr>cr_seq = tx_first t + k, cr_bytes = tx_records t ! k, cr_committed_at = tx_first t + k\<rparr>]"
    using assms(3) by (simp add: take_Suc_conv_app_nth entries_def)
  have acc: "saturating_add (marker_frame_len + sum_list (map (\<lambda>b. 40 + length b) (take k (tx_records t))))
      (frame_len (length (tx_payloads L t ! k)))
    = marker_frame_len + sum_list (map (\<lambda>b. 40 + length b) (take (Suc k) (tx_records t)))"
    using b assms(3)
    by (simp add: take_Suc_conv_app_nth len saturating_add_def frame_len_def frame_header_len_def
        max_txn_bytes_def max_frame_len_def u64_max_def)
  show ?thesis
    unfolding group_after_def pending_push_def Let_def
    using acc b assms(3) by (auto simp: e take_Suc_conv_app_nth split: option.split)
qed

lemma de_record:
  assumes "jlib_ok L" "tx_ok t" "k < length (tx_records t)"
  shows "de_payload L (tx_payloads L t ! k) =
    Some (Record \<lparr>lr_seq = tx_first t + k, lr_txn = tx_first t, lr_bytes = tx_records t ! k\<rparr>)"
proof -
  have "wf_payload (Record \<lparr>lr_seq = tx_first t + k, lr_txn = tx_first t, lr_bytes = tx_records t ! k\<rparr>)"
    using tx_okD [OF assms(2)] assms(3) by (simp add: u64_max_def)
  then show ?thesis using assms(1) by (simp add: de_payload_def tx_payloads_nth [OF assms(3)] jlib_ok_def)
qed

lemma de_marker:
  assumes "jlib_ok L" "tx_ok t"
  shows "de_payload L (bc_ser L (Marker (tx_marker L prev t))) = Some (Marker (tx_marker L prev t))"
proof -
  have "marker_try_from (tx_marker L prev t) = Some (tx_marker L prev t)"
    using tx_okD(6) [OF assms(2)]
    by (cases "tx_att t")
       (auto simp: marker_try_from_def tx_marker_def tx_alg_def tx_sig_def split: sum.split option.split)
  then show ?thesis using wf_tx_marker [OF assms] assms(1) by (simp add: de_payload_def jlib_ok_def)
qed

definition ws_records :: "jlib \<Rightarrow> bytes \<Rightarrow> txn \<Rightarrow> nat \<Rightarrow> walk_state \<Rightarrow> walk_state" where
  "ws_records L prev t k ws =
     (if k = 0 then ws else ws\<lparr>ws_pending := Some (group_after L prev t k)\<rparr>)"

lemma take_record_group:
  assumes "jlib_ok L" "tx_ok t" "k < length (tx_records t)"
    and "ws_pending ws = None" "ws_run_began ws = None" "so_chain_head (ws_out ws) = prev"
  shows "take_frame L segs at end (tx_payloads L t ! k) (ws_records L prev t k ws)
           = ret (ws_records L prev t (Suc k) ws)"
proof -
  have "pending_open (tx_first t) prev = group_after L prev t 0"
    by (simp add: pending_open_def group_after_def link_open_def)
  then have "take_record L segs at
      \<lparr>lr_seq = tx_first t + k, lr_txn = tx_first t, lr_bytes = tx_records t ! k\<rparr> (tx_payloads L t ! k)
      (ws_records L prev t k ws) =
    ret ((ws_records L prev t k ws)\<lparr>ws_pending := Some (pending_push L (group_after L prev t k)
      \<lparr>lr_seq = tx_first t + k, lr_txn = tx_first t, lr_bytes = tx_records t ! k\<rparr> (tx_payloads L t ! k))\<rparr>)"
    using assms(4-6) by (simp add: take_record_def end_run_def ws_records_def group_after_def Let_def)
  then show ?thesis
    by (simp add: take_frame_def de_record [OF assms(1-3)] pending_push_group [OF assms(1-3)])
       (simp add: ws_records_def)
qed

lemma length_tx_payload:
  assumes "jlib_ok L" "tx_ok t" "k < length (tx_records t)"
  shows "length (tx_payloads L t ! k) = 28 + length (tx_records t ! k)"
    and "length (tx_payloads L t ! k) \<le> max_frame_len"
proof -
  show "length (tx_payloads L t ! k) = 28 + length (tx_records t ! k)"
    using tx_okD [OF assms(2)] assms(3)
    by (simp add: tx_payloads_nth length_rec_payload [OF assms(1)] u64_max_def)
  then show "length (tx_payloads L t ! k) \<le> max_frame_len"
    using tx_record_bound [OF assms(2), of "tx_records t ! k"] assms(3) by simp
qed

lemma walk_records:
  assumes "jlib_ok L" "tx_ok t" "k \<le> length (tx_records t)"
    and "ws_pending ws = None" "ws_run_began ws = None" "so_chain_head (ws_out ws) = prev"
  shows "walk_segment L segs s i (pre @ framed L (take k (tx_payloads L t)) @ post) budget (length pre) spent ws
    = walk_segment L segs s i (pre @ framed L (take k (tx_payloads L t)) @ post) budget
        (length (pre @ framed L (take k (tx_payloads L t)))) spent (ws_records L prev t k ws)"
  using assms(3)
proof (induction k arbitrary: post)
  case 0
  then show ?case by (simp add: ws_records_def)
next
  case (Suc k)
  let ?ps = "tx_payloads L t"
  have k: "k < length (tx_records t)" using Suc.prems by simp
  then have split: "framed L (take (Suc k) ?ps) = framed L (take k ?ps) @ frame_bytes L (?ps ! k)"
    by (simp add: take_Suc_conv_app_nth)
  have step: "walk_segment L segs s i ((pre @ framed L (take k ?ps)) @ frame_bytes L (?ps ! k) @ post) budget
      (length (pre @ framed L (take k ?ps))) spent (ws_records L prev t k ws) =
    walk_segment L segs s i ((pre @ framed L (take k ?ps)) @ frame_bytes L (?ps ! k) @ post) budget
      (length ((pre @ framed L (take k ?ps)) @ frame_bytes L (?ps ! k))) spent (ws_records L prev t (Suc k) ws)"
    by (subst walk_step [OF length_tx_payload(2) [OF assms(1,2) k]])
       (simp add: take_record_group [OF assms(1,2) k assms(4-6)])
  show ?case using Suc.IH [of "frame_bytes L (?ps ! k) @ post"] k step by (simp add: split)
qed

text \<open>The outcome once the marker has committed the transaction.\<close>

definition commit_out :: "jlib \<Rightarrow> bytes \<Rightarrow> txn \<Rightarrow> scan_outcome \<Rightarrow> scan_outcome" where
  "commit_out L prev t out =
     out\<lparr>so_chain_head := tx_chain L prev t, so_commits_above_base := so_commits_above_base out + 1,
         so_tail_intact := 0, so_tail_claimed := None, so_tail_tell := None, so_committed_head := tx_last t,
         so_records := so_records out @ map (\<lambda>e. e\<lparr>cr_committed_at := tx_last t\<rparr>) (entries t)\<rparr>"

text \<open>What the walk holds between transactions of an undamaged journal.\<close>

definition between :: "bytes \<Rightarrow> walk_state \<Rightarrow> bool" where
  "between prev ws \<longleftrightarrow> ws_pending ws = None \<and> ws_run_began ws = None \<and>
     so_chain_head (ws_out ws) = prev \<and> so_collect (ws_out ws) = CollectRecords None"

lemma collect_commit_eq:
  assumes "tx_ok t" "so_collect out = CollectRecords None"
    and "so_s_load out < tx_last t" "so_committed_head out \<le> tx_last t"
  shows "collect_commit L out (tx_marker L prev t) (group_after L prev t (length (tx_records t)))
           = ret (commit_out L prev t out)"
proof -
  have "take (length (tx_records t)) (entries t) = entries t" by (simp add: entries_def)
  moreover have "take (length (tx_records t)) (tx_payloads L t) = tx_payloads L t" by simp
  ultimately show ?thesis using assms
    by (simp add: collect_commit_def tx_marker_def group_after_def recomputed_chain_def commit_out_def
        tx_chain_def Let_def max_def)
qed

lemma commits_group:
  assumes "tx_ok t"
  shows "commits (group_after L prev t (length (tx_records t))) (tx_marker L prev t)"
  using tx_okD [OF assms]
  by (simp add: commits_def group_after_def tx_marker_def tx_last_def tx_checksum_def)

lemma take_marker_group:
  assumes "jlib_ok L" "tx_ok t" "between prev ws"
    and "so_s_load (ws_out ws) < tx_last t" "so_committed_head (ws_out ws) \<le> tx_last t"
  shows "take_frame L segs at end (bc_ser L (Marker (tx_marker L prev t)))
      (ws_records L prev t (length (tx_records t)) ws)
    = ret (ws\<lparr>ws_out := commit_out L prev t (ws_out ws), ws_cut := Some (fst at, end)\<rparr>)"
  using tx_okD(1) [OF assms(2)] assms(3)
    collect_commit_eq [OF assms(2) _ assms(4,5), where L = L and prev = prev]
    commits_group [OF assms(2), where L = L and prev = prev]
  by (simp add: take_frame_def de_marker [OF assms(1,2)] take_marker_def end_run_def ws_records_def between_def)
     (simp add: group_after_def tx_marker_def)

lemma walk_txn:
  assumes "jlib_ok L" "tx_ok t" "between prev ws"
    and "so_s_load (ws_out ws) < tx_last t" "so_committed_head (ws_out ws) \<le> tx_last t"
  shows "walk_segment L segs s i (pre @ framed L (tx_frames L prev t) @ post) budget (length pre) spent ws =
    walk_segment L segs s i (pre @ framed L (tx_frames L prev t) @ post) budget
      (length (pre @ framed L (tx_frames L prev t))) spent
      (ws\<lparr>ws_out := commit_out L prev t (ws_out ws),
          ws_cut := Some (i, length (pre @ framed L (tx_frames L prev t)))\<rparr>)"
proof -
  let ?ps = "tx_payloads L t" and ?m = "bc_ser L (Marker (tx_marker L prev t))"
  have len: "length ?m \<le> max_frame_len"
    using tx_okD [OF assms(2)]
    by (simp add: length_tx_marker [OF assms(1,2)] max_frame_len_def max_sig_bytes_def)
  have "framed L (tx_frames L prev t) = framed L ?ps @ frame_bytes L ?m" by (simp add: tx_frames_def)
  moreover have "walk_segment L segs s i (pre @ framed L ?ps @ frame_bytes L ?m @ post) budget (length pre) spent ws
    = walk_segment L segs s i ((pre @ framed L ?ps) @ frame_bytes L ?m @ post) budget
        (length (pre @ framed L ?ps)) spent (ws_records L prev t (length (tx_records t)) ws)"
    using walk_records [OF assms(1,2), of "length (tx_records t)"] assms(3) by (simp add: between_def)
  moreover have "\<dots> = walk_segment L segs s i ((pre @ framed L ?ps) @ frame_bytes L ?m @ post) budget
        (length ((pre @ framed L ?ps) @ frame_bytes L ?m)) spent
        (ws\<lparr>ws_out := commit_out L prev t (ws_out ws),
            ws_cut := Some (i, length ((pre @ framed L ?ps) @ frame_bytes L ?m))\<rparr>)"
    by (subst walk_step [OF len]) (simp add: take_marker_group [OF assms] add.assoc)
  ultimately show ?thesis by simp
qed

section \<open>Transactions in a row\<close>

fun txns_chain :: "jlib \<Rightarrow> bytes \<Rightarrow> txn list \<Rightarrow> bytes" where
  "txns_chain L prev [] = prev"
| "txns_chain L prev (t # ts) = txns_chain L (tx_chain L prev t) ts"

fun txns_bytes :: "jlib \<Rightarrow> bytes \<Rightarrow> txn list \<Rightarrow> bytes" where
  "txns_bytes L prev [] = []"
| "txns_bytes L prev (t # ts) = framed L (tx_frames L prev t) @ txns_bytes L (tx_chain L prev t) ts"

fun txns_head :: "nat \<Rightarrow> txn list \<Rightarrow> nat" where
  "txns_head h [] = h"
| "txns_head h (t # ts) = txns_head (tx_last t) ts"

fun txns_ok :: "nat \<Rightarrow> txn list \<Rightarrow> bool" where
  "txns_ok h [] \<longleftrightarrow> True"
| "txns_ok h (t # ts) \<longleftrightarrow> tx_ok t \<and> h < tx_first t \<and> txns_ok (tx_last t) ts"

fun commit_outs :: "jlib \<Rightarrow> bytes \<Rightarrow> txn list \<Rightarrow> scan_outcome \<Rightarrow> scan_outcome" where
  "commit_outs L prev [] out = out"
| "commit_outs L prev (t # ts) out = commit_outs L (tx_chain L prev t) ts (commit_out L prev t out)"

lemma txns_append:
  "txns_chain L prev (ts @ us) = txns_chain L (txns_chain L prev ts) us"
  "txns_bytes L prev (ts @ us) = txns_bytes L prev ts @ txns_bytes L (txns_chain L prev ts) us"
  "txns_head h (ts @ us) = txns_head (txns_head h ts) us"
  "txns_ok h (ts @ us) \<longleftrightarrow> txns_ok h ts \<and> txns_ok (txns_head h ts) us"
  "commit_outs L prev (ts @ us) out = commit_outs L (txns_chain L prev ts) us (commit_outs L prev ts out)"
  by (induction ts arbitrary: prev h out) auto

lemma txns_head_mono: "txns_ok h ts \<Longrightarrow> h \<le> txns_head h ts \<and> (ts \<noteq> [] \<longrightarrow> h < txns_head h ts)"
proof (induction ts arbitrary: h)
  case (Cons t ts)
  then show ?case using tx_okD(3) [of t] by fastforce
qed simp

definition all_entries :: "txn list \<Rightarrow> committed_record list" where
  "all_entries ts = concat (map (\<lambda>t. map (\<lambda>e. e\<lparr>cr_committed_at := tx_last t\<rparr>) (entries t)) ts)"

text \<open>The outcome of a run of transactions, field by field.\<close>

lemma commit_outs_eq:
  "commit_outs L prev ts out = (if ts = [] then out else
     out\<lparr>so_chain_head := txns_chain L prev ts, so_commits_above_base := so_commits_above_base out + length ts,
         so_tail_intact := 0, so_tail_claimed := None, so_tail_tell := None,
         so_committed_head := txns_head (so_committed_head out) ts,
         so_records := so_records out @ all_entries ts\<rparr>)"
proof (induction ts arbitrary: prev out)
  case (Cons t ts)
  then show ?case
    by (cases "ts = []") (simp_all add: commit_out_def all_entries_def)
qed simp

lemma commit_outs_fields [simp]:
  "so_s_load (commit_outs L prev ts out) = so_s_load out"
  "so_collect (commit_outs L prev ts out) = so_collect out"
  "so_runs (commit_outs L prev ts out) = so_runs out"
  "so_committed_head (commit_outs L prev ts out) = txns_head (so_committed_head out) ts"
  "so_records (commit_outs L prev ts out) = so_records out @ all_entries ts"
  "so_commits_above_base (commit_outs L prev ts out) = so_commits_above_base out + length ts"
  "so_chain_head out = prev \<Longrightarrow> so_chain_head (commit_outs L prev ts out) = txns_chain L prev ts"
  "so_chain_break (commit_outs L prev ts out) = so_chain_break out"
  "so_base_mismatch (commit_outs L prev ts out) = so_base_mismatch out"
  "so_uncommitted_intact (commit_outs L prev ts out) = so_uncommitted_intact out"
  "so_tail_claimed out = None \<Longrightarrow> so_tail_claimed (commit_outs L prev ts out) = None"
  "so_tail_tell out = None \<Longrightarrow> so_tail_tell (commit_outs L prev ts out) = None"
  by (simp_all add: commit_outs_eq all_entries_def)

lemma walk_txns:
  assumes "jlib_ok L" "txns_ok (so_committed_head (ws_out ws)) ts" "between prev ws"
    and "so_s_load (ws_out ws) \<le> so_committed_head (ws_out ws)"
  shows "walk_segment L segs s i (pre @ txns_bytes L prev ts @ post) budget (length pre) spent ws =
    walk_segment L segs s i (pre @ txns_bytes L prev ts @ post) budget
      (length (pre @ txns_bytes L prev ts)) spent
      (ws\<lparr>ws_out := commit_outs L prev ts (ws_out ws),
          ws_cut := (if ts = [] then ws_cut ws else Some (i, length (pre @ txns_bytes L prev ts)))\<rparr>)"
  using assms(2-)
proof (induction ts arbitrary: prev pre ws)
  case (Cons t ts)
  let ?b = "framed L (tx_frames L prev t)" and ?prev' = "tx_chain L prev t"
  let ?ws' = "ws\<lparr>ws_out := commit_out L prev t (ws_out ws), ws_cut := Some (i, length (pre @ ?b))\<rparr>"
  have t: "tx_ok t" "so_committed_head (ws_out ws) < tx_first t" "txns_ok (tx_last t) ts"
    using Cons.prems by simp_all
  have lt: "so_committed_head (ws_out ws) < tx_last t" using t tx_okD(3) [OF t(1)] by simp
  have "walk_segment L segs s i (pre @ ?b @ txns_bytes L ?prev' ts @ post) budget (length pre) spent ws =
    walk_segment L segs s i ((pre @ ?b) @ txns_bytes L ?prev' ts @ post) budget (length (pre @ ?b)) spent ?ws'"
    using walk_txn [OF assms(1) t(1) Cons.prems(2), where pre = pre and post = "txns_bytes L ?prev' ts @ post"]
      lt Cons.prems(3) by simp
  also have "\<dots> = walk_segment L segs s i ((pre @ ?b) @ txns_bytes L ?prev' ts @ post) budget
      (length ((pre @ ?b) @ txns_bytes L ?prev' ts)) spent
      (?ws'\<lparr>ws_out := commit_outs L ?prev' ts (ws_out ?ws'),
          ws_cut := (if ts = [] then ws_cut ?ws' else Some (i, length ((pre @ ?b) @ txns_bytes L ?prev' ts)))\<rparr>)"
    using t lt Cons.prems by (intro Cons.IH) (simp_all add: commit_out_def between_def)
  finally show ?case by (cases "ts = []") simp_all
qed simp

section \<open>A torn append\<close>

text \<open>
  What a crash in the middle of an append leaves of a transaction: whole record frames, then a frame
  cut short which holds no second sync word.
\<close>

definition torn_append :: "jlib \<Rightarrow> bytes \<Rightarrow> txn \<Rightarrow> bytes \<Rightarrow> bool" where
  "torn_append L prev t torn \<longleftrightarrow>
     (\<exists>k part. k \<le> length (tx_records t) \<and> torn = framed L (take k (tx_payloads L t)) @ part \<and>
        strict_prefix part (frame_bytes L (tx_frames L prev t ! k)) \<and> magic_at (drop 1 part) = None)"

lemma length_tx_frame:
  assumes "jlib_ok L" "tx_ok t" "k \<le> length (tx_records t)"
  shows "length (tx_frames L prev t ! k) \<le> max_frame_len"
proof (cases "k < length (tx_records t)")
  case True
  then show ?thesis using length_tx_payload(2) [OF assms(1,2) True] by (simp add: tx_frames_def nth_append)
next
  case False
  then show ?thesis using assms(3) tx_okD [OF assms(2)]
    by (simp add: tx_frames_def nth_append length_tx_marker [OF assms(1,2)] max_frame_len_def max_sig_bytes_def)
qed

lemma walk_end: "walk_segment L segs s i buf budget (length buf) spent ws = ok ws"
  by (subst walk_segment.simps) simp

lemma walk_torn:
  assumes "jlib_ok L" "tx_ok t" "between prev ws" "torn_append L prev t torn" "spent \<le> budget"
  shows "\<exists>ws'. walk_segment L segs s i (pre @ torn) budget (length pre) spent ws = ok ws' \<and>
     ws_out ws' = ws_out ws \<and> ws_cut ws' = ws_cut ws \<and>
     (case ws_run_began ws' of None \<Rightarrow> True | Some b \<Rightarrow> fst b = i)"
proof -
  obtain k part where k: "k \<le> length (tx_records t)" "torn = framed L (take k (tx_payloads L t)) @ part"
    "strict_prefix part (frame_bytes L (tx_frames L prev t ! k))" "magic_at (drop 1 part) = None"
    using assms(4) by (auto simp: torn_append_def)
  let ?pre = "pre @ framed L (take k (tx_payloads L t))" and ?ws = "ws_records L prev t k ws"
  have ws: "ws_out ?ws = ws_out ws" "ws_cut ?ws = ws_cut ws" "ws_run_began ?ws = None"
    using assms(3) by (simp_all add: ws_records_def between_def)
  have run: "walk_segment L segs s i (pre @ torn) budget (length pre) spent ws =
      walk_segment L segs s i (?pre @ part) budget (length ?pre) spent ?ws"
    using walk_records [OF assms(1,2) k(1), where pre = pre and post = part] assms(3)
    by (simp add: k(2) between_def)
  show ?thesis
  proof (cases "part = []")
    case True
    then show ?thesis using run ws walk_end [of L segs s i ?pre budget spent ?ws] by simp
  next
    case False
    have "walk_segment L segs s i (?pre @ part) budget (length ?pre) spent ?ws =
        ok (taint (?ws\<lparr>ws_run_began := Some (i, length ?pre)\<rparr>))"
      using parse_torn [OF k(3) False length_tx_frame [OF assms(1,2) k(1)], where pre = ?pre]
        find_magic_torn [OF k(4) False, of ?pre] False assms(5)
        walk_end [of L segs s i "?pre @ part" budget spent]
      by (subst walk_segment.simps) (simp add: ws get_or_insert_def)
    then show ?thesis using run ws by (simp add: taint_def)
  qed
qed

lemma length_framed: "length (framed L ps) = sum_list (map (\<lambda>p. 12 + length p) ps)"
  by (induction ps) simp_all

lemma length_tx_bytes:
  assumes "jlib_ok L" "tx_ok t"
  shows "length (framed L (tx_frames L prev t)) \<le> max_crash_tail_bytes"
proof -
  have len: "length p = 28 + length (tx_records t ! j)"
    if "j < length (tx_records t)" "p = tx_payloads L t ! j" for j p
    using length_tx_payload(1) [OF assms that(1)] that(2) by simp
  have m: "map (\<lambda>p. 12 + length p) (tx_payloads L t) = map (\<lambda>b. 40 + length b) (tx_records t)"
    by (rule nth_equalityI) (simp_all add: len)
  have "length (framed L (tx_frames L prev t)) =
      sum_list (map (\<lambda>b. 40 + length b) (tx_records t)) + (109 + length (tx_sig t))"
    by (simp add: tx_frames_def length_framed m length_tx_marker [OF assms] del: map_map)
  moreover have "marker_frame_len = 109"
    by (simp add: marker_frame_len_def frame_len_def saturating_add_def frame_header_len_def u64_max_def)
  ultimately show ?thesis using accounted [of "tx_records t"] assms(2) tx_okD(7) [OF assms(2)]
    by (simp add: tx_ok_def max_crash_tail_bytes_def)
qed

lemma torn_prefix:
  assumes "torn_append L prev t torn"
  shows "prefix torn (framed L (tx_frames L prev t))"
proof -
  obtain k part where k: "k \<le> length (tx_records t)" "torn = framed L (take k (tx_payloads L t)) @ part"
    "strict_prefix part (frame_bytes L (tx_frames L prev t ! k))"
    using assms by (auto simp: torn_append_def)
  have "k < length (tx_frames L prev t)" using k(1) by (simp add: tx_frames_def)
  then have "tx_frames L prev t = take k (tx_frames L prev t) @ tx_frames L prev t ! k # drop (Suc k) (tx_frames L prev t)"
    by (rule id_take_nth_drop)
  moreover have "take k (tx_frames L prev t) = take k (tx_payloads L t)" using k(1) by (simp add: tx_frames_def)
  ultimately have "framed L (tx_frames L prev t) = framed L (take k (tx_payloads L t)) @
      frame_bytes L (tx_frames L prev t ! k) @ framed L (drop (Suc k) (tx_frames L prev t))"
    by (metis (no_types, lifting) concat.simps(2) concat_append list.simps(9) map_append)
  then show ?thesis using k(2,3) by (auto simp: strict_prefix_def prefix_def)
qed

lemma length_torn:
  assumes "jlib_ok L" "tx_ok t" "torn_append L prev t torn"
  shows "length torn \<le> max_crash_tail_bytes"
  using prefix_length_le [OF torn_prefix [OF assms(3)]] length_tx_bytes [OF assms(1,2), of prev] by simp

section \<open>Segments\<close>

text \<open>A segment as the writer fills it: the position it is named by, and its transactions.\<close>

type_synonym groups = "(nat \<times> txn list) list"

abbreviation txns_of :: "groups \<Rightarrow> txn list" where
  "txns_of gs \<equiv> concat (map snd gs)"

fun groups_ok :: "nat \<Rightarrow> groups \<Rightarrow> bool" where
  "groups_ok h [] \<longleftrightarrow> True"
| "groups_ok h ((f, ts) # gs) \<longleftrightarrow> h < f \<and> txns_ok (f - 1) ts \<and> groups_ok (max f (txns_head h ts)) gs"

fun journal_segs :: "jlib \<Rightarrow> bytes \<Rightarrow> groups \<Rightarrow> segment list" where
  "journal_segs L prev [] = []"
| "journal_segs L prev ((f, ts) # gs) =
     \<lparr>seg_first = f, seg_bytes = txns_bytes L prev ts\<rparr> # journal_segs L (txns_chain L prev ts) gs"

fun cut_after :: "jlib \<Rightarrow> bytes \<Rightarrow> nat \<Rightarrow> groups \<Rightarrow> (nat \<times> nat) option \<Rightarrow> (nat \<times> nat) option" where
  "cut_after L prev n [] c = c"
| "cut_after L prev n ((f, ts) # gs) c = cut_after L (txns_chain L prev ts) (Suc n) gs
     (if ts = [] then c else Some (n, length (txns_bytes L prev ts)))"

lemma length_journal_segs [simp]: "length (journal_segs L prev gs) = length gs"
  by (induction gs arbitrary: prev) auto

lemma firsts_journal_segs [simp]: "map seg_first (journal_segs L prev gs) = map fst gs"
  by (induction gs arbitrary: prev) auto

lemma journal_segs_append:
  "journal_segs L prev (gs @ hs) = journal_segs L prev gs @ journal_segs L (txns_chain L prev (txns_of gs)) hs"
  by (induction gs arbitrary: prev) (auto simp: txns_append)

lemma cut_after_append:
  "cut_after L prev n (gs @ hs) c =
     cut_after L (txns_chain L prev (txns_of gs)) (n + length gs) hs (cut_after L prev n gs c)"
  by (induction gs arbitrary: prev n c) (auto simp: txns_append)

lemma txns_ok_mono: "txns_ok h' ts \<Longrightarrow> h \<le> h' \<Longrightarrow> txns_ok h ts"
  by (cases ts) auto

lemma groups_ok_mono: "groups_ok h' gs \<Longrightarrow> h \<le> h' \<Longrightarrow> groups_ok h gs"
proof (induction gs arbitrary: h h')
  case (Cons g gs)
  obtain f ts where g: "g = (f, ts)" by (cases g)
  have "max f (txns_head h ts) \<le> max f (txns_head h' ts)" using Cons.prems(2) by (cases ts) auto
  then show ?case using Cons g by auto
qed simp

lemma groups_txns_ok: "groups_ok h gs \<Longrightarrow> txns_ok h (txns_of gs)"
proof (induction gs arbitrary: h)
  case (Cons g gs)
  obtain f ts where g: "g = (f, ts)" by (cases g)
  have "h \<le> f - 1" using Cons.prems g by (cases f) auto
  moreover have "groups_ok (txns_head h ts) gs" using Cons.prems g by (auto intro: groups_ok_mono)
  ultimately show ?case using Cons g txns_ok_mono [of "f - 1" ts h] by (simp add: txns_append)
qed simp

text \<open>The files' names ascend.\<close>

lemma groups_firsts:
  "groups_ok h gs \<Longrightarrow> sorted_wrt (<) (map fst gs) \<and> (\<forall>g \<in> set gs. h < fst g)"
proof (induction gs arbitrary: h)
  case (Cons g gs)
  obtain f ts where g: "g = (f, ts)" by (cases g)
  have "sorted_wrt (<) (map fst gs) \<and> (\<forall>g \<in> set gs. max f (txns_head h ts) < fst g)"
    using Cons.IH [of "max f (txns_head h ts)"] Cons.prems g by simp
  then show ?case using Cons.prems g by fastforce
qed simp

lemma walk_groups:
  assumes "jlib_ok L" "groups_ok (so_committed_head (ws_out ws)) gs" "between prev ws"
    and "so_s_load (ws_out ws) \<le> so_committed_head (ws_out ws)"
    and "\<forall>seg \<in> set (journal_segs L prev gs). length (seg_bytes seg) \<le> max_segment_len"
  shows "walk_segments L segs s (enumerate n (journal_segs L prev gs) @ rest) ws =
    walk_segments L segs s rest (ws\<lparr>ws_out := commit_outs L prev (txns_of gs) (ws_out ws),
      ws_cut := cut_after L prev n gs (ws_cut ws)\<rparr>)"
  using assms(2-)
proof (induction gs arbitrary: prev n ws)
  case (Cons g gs)
  obtain f ts where g: "g = (f, ts)" by (cases g)
  let ?b = "txns_bytes L prev ts"
  let ?ws = "ws\<lparr>ws_out := commit_outs L prev ts (ws_out ws),
    ws_cut := (if ts = [] then ws_cut ws else Some (n, length ?b))\<rparr>"
  have head: "so_committed_head (commit_outs L prev ts (ws_out ws)) = txns_head (so_committed_head (ws_out ws)) ts"
    by (simp add: commit_outs_eq)
  have ok: "txns_ok (so_committed_head (ws_out ws)) ts"
    using Cons.prems(1) g by (cases f) (auto intro: txns_ok_mono)
  have "walk_segment L segs s n ?b (length ?b * resync_budget_passes) 0 0 ws = ok ?ws"
    using walk_txns [OF assms(1) ok Cons.prems(2,3), where pre = "[]" and post = "[]"] walk_end by simp
  moreover have "between (txns_chain L prev ts) ?ws" "so_s_load (ws_out ?ws) \<le> so_committed_head (ws_out ?ws)"
    using Cons.prems(2,3) txns_head_mono [OF ok] by (auto simp: between_def commit_outs_eq)
  ultimately show ?case
    using Cons.IH [of ?ws "txns_chain L prev ts" "Suc n"] Cons.prems(1,4)
      groups_ok_mono [of "max f (txns_head (so_committed_head (ws_out ws)) ts)" gs]
    by (simp add: g head txns_append)
qed simp

section \<open>Cutting the tail\<close>

text \<open>The active segment is the last file; an append extends it.\<close>

definition append_last :: "segment list \<Rightarrow> bytes \<Rightarrow> segment list" where
  "append_last segs b =
     segs[length segs - 1 := (last segs)\<lparr>seg_bytes := seg_bytes (last segs) @ b\<rparr>]"

lemma length_append_last [simp]: "length (append_last segs b) = length segs"
  by (simp add: append_last_def)

lemma append_last_nth:
  "j < length segs \<Longrightarrow> append_last segs b ! j =
     (if j = length segs - 1 then (segs ! j)\<lparr>seg_bytes := seg_bytes (segs ! j) @ b\<rparr> else segs ! j)"
  by (cases "segs = []") (auto simp: append_last_def nth_list_update last_conv_nth)

lemma firsts_append_last [simp]: "map seg_first (append_last segs b) = map seg_first segs"
  by (rule nth_equalityI) (simp_all add: append_last_nth)

lemma filter_drop_distinct:
  "distinct (map f xs) \<Longrightarrow> filter (\<lambda>x. f x \<notin> f ` set (drop k xs)) xs = take k xs"
proof -
  assume d: "distinct (map f xs)"
  have "distinct (map f (take k xs @ drop k xs))" using d by simp
  then have "f ` set (take k xs) \<inter> f ` set (drop k xs) = {}" by (simp only: map_append distinct_append set_map)
  then have "filter (\<lambda>x. f x \<notin> f ` set (drop k xs)) (take k xs @ drop k xs) = take k xs"
    by (subst filter_append) (auto simp: filter_id_conv filter_empty_conv)
  then show ?thesis by simp
qed

lemma txns_bytes_at:
  assumes "j < length gs" "snd (gs ! j) = []"
  shows "seg_bytes (journal_segs L prev gs ! j) = []"
  using assms
proof (induction gs arbitrary: prev j)
  case (Cons g gs)
  then show ?case by (cases g; cases j) auto
qed simp

lemma truncate_at:
  assumes "i < length segs" "distinct (map seg_first segs)"
    and "tc_segment t = seg_first (segs ! i)" "tc_offset t = length (seg_bytes (segs ! i))"
    and "tc_discard t = map seg_first (drop (i + 1) segs)"
  shows "truncate_segs (append_last segs b) t = take (i + 1) segs"
proof -
  let ?S = "append_last segs b"
  have disc: "set (tc_discard t) = seg_first ` set (drop (i + 1) ?S)"
    unfolding assms(5) by (metis drop_map firsts_append_last set_map)
  have "filter (\<lambda>seg. seg_first seg \<notin> set (tc_discard t)) ?S = take (i + 1) ?S"
    unfolding disc by (rule filter_drop_distinct) (simp add: assms(2))
  then have eq: "truncate_segs ?S t = map (\<lambda>seg. if seg_first seg = seg_first (segs ! i)
      then seg\<lparr>seg_bytes := take (length (seg_bytes (segs ! i))) (seg_bytes seg)\<rparr> else seg) (take (i + 1) ?S)"
    by (simp add: truncate_segs_def assms(3,4))
  show ?thesis unfolding eq
  proof (rule nth_equalityI)
    fix j assume "j < length (map (\<lambda>seg. if seg_first seg = seg_first (segs ! i)
      then seg\<lparr>seg_bytes := take (length (seg_bytes (segs ! i))) (seg_bytes seg)\<rparr> else seg) (take (i + 1) ?S))"
    then have j: "j \<le> i" "j < length segs" by auto
    have "seg_first (segs ! j) = seg_first (segs ! i) \<longleftrightarrow> j = i"
      using nth_eq_iff_index_eq [OF assms(2), of j i] j(2) assms(1) by simp
    then show "map (\<lambda>seg. if seg_first seg = seg_first (segs ! i)
        then seg\<lparr>seg_bytes := take (length (seg_bytes (segs ! i))) (seg_bytes seg)\<rparr> else seg) (take (i + 1) ?S) ! j
      = take (i + 1) segs ! j"
      using j assms(1) by (cases "j = i") (auto simp: append_last_nth)
  qed simp
qed

lemma map_of_enumerate:
  "map_of (enumerate n xs) i = (if n \<le> i \<and> i < n + length xs then Some (xs ! (i - n)) else None)"
  by (induction xs arbitrary: n) (auto simp: nth_Cons' )

lemma tail_at:
  assumes "i < length segs" "\<forall>j. i < j \<and> j < length segs \<longrightarrow> seg_bytes (segs ! j) = []"
    and "case c of Some c \<Rightarrow> c = (i, length (seg_bytes (segs ! i))) | None \<Rightarrow> i = 0 \<and> seg_bytes (segs ! i) = []"
    and "distinct (map seg_first segs)" "length b \<le> u64_max"
  shows "\<exists>t. tail_of (append_last segs b) (enumerate 0 (append_last segs b)) c = Some t \<and>
    tc_bytes t = length b \<and> truncate_segs (append_last segs b) t = take (i + 1) segs"
proof -
  let ?S = "append_last segs b" and ?off = "length (seg_bytes (segs ! i))"
  define len where "len = (\<lambda>j. case map_of (enumerate 0 ?S) j of Some seg \<Rightarrow> length (seg_bytes seg) | None \<Rightarrow> 0)"
  have len: "len j = length (seg_bytes (?S ! j))" if "j < length segs" for j
    using that by (simp add: len_def map_of_enumerate)
  have c: "(case c of Some c \<Rightarrow> Some c
      | None \<Rightarrow> (case enumerate 0 ?S of [] \<Rightarrow> None | (first, _) # _ \<Rightarrow> Some (first, 0))) = Some (i, ?off)"
  proof (cases c)
    case None
    moreover obtain x xs where "?S = x # xs" 
      using assms(1) length_append_last [of segs b] by (cases ?S) auto
    ultimately show ?thesis using assms(3) by auto
  qed (use assms(3) in simp)
  let ?later = "drop (i + 1) (enumerate 0 ?S)"
  have fold: "foldl (\<lambda>n (j, seg). saturating_add n (len j)) n ?later =
      foldl (\<lambda>n x. saturating_add n (len (fst x))) n ?later" for n
    by (simp add: case_prod_unfold)
  have idx: "map fst ?later = [i + 1..<length segs]"
    by (simp add: drop_map [symmetric])
  have sum: "(len i - ?off) + sum_list (map (\<lambda>x. len (fst x)) ?later) = length b"
  proof (cases "i + 1 = length segs")
    case True
    then show ?thesis using len [of i] assms(1) by (simp add: append_last_nth)
  next
    case False
    then have i: "i + 1 < length segs" using assms(1) by simp
    have "sum_list (map (\<lambda>x. len (fst x)) ?later) = sum_list (map len [i + 1..<length segs])"
      unfolding idx [symmetric] by (simp add: comp_def)
    also have "[i + 1..<length segs] = [i + 1..<length segs - 1] @ [length segs - 1]"
      using i by (cases "length segs") auto
    also have "sum_list (map len \<dots>) = 0 + length b"
    proof -
      have "map len [i + 1..<length segs - 1] = map (\<lambda>_. 0) [i + 1..<length segs - 1]"
        using assms(2) by (intro map_cong) (auto simp: len append_last_nth)
      moreover have "seg_bytes (segs ! (length segs - 1)) = []" using i assms(2) [rule_format, of "length segs - 1"] by linarith
      ultimately show ?thesis using i by (simp add: len append_last_nth)
    qed
    finally show ?thesis using i len [of i] by (simp add: append_last_nth)
  qed
  have total: "foldl (\<lambda>n (j, seg). saturating_add n (len j)) (len i - ?off) ?later = length b"
    unfolding fold foldl_saturating using sum assms(5) by (auto simp: min_def)
  have "\<exists>t. tail_of ?S (enumerate 0 ?S) c = Some t \<and> tc_segment t = seg_first (segs ! i) \<and>
      tc_offset t = ?off \<and> tc_discard t = map seg_first (drop (i + 1) segs) \<and> tc_bytes t = length b"
    unfolding tail_of_def len_def [symmetric] c Let_def option.case prod.case total
    using assms(1) firsts_append_last [of segs b] by (auto simp: append_last_nth drop_map [symmetric])
  then show ?thesis using truncate_at [OF assms(1,4)] by blast
qed

end
