(* ===== verification/Journal_Open.thy ===== *)
theory Journal_Open
  imports Journal_Written
begin

text \<open>
  Opening a journal (\<^verbatim>\<open>Kernel::recover_root\<close> in \<^verbatim>\<open>crates/skep-kernel/src/kernel.rs\<close>, from the
  choice of the base on): the sync-word probe, the scan, the verdicts in their order, the fold, the
  class of the tail, the cut, and the floor the sequencer continues from.

  The base is the root the choice of a checkpoint answered. The directory, its lock, the checkpoints
  and the report an open makes are left out; \<open>open_active\<close> is the writer's part that names the first
  segment of a journal that has none.
\<close>

datatype open_cause = CauseScan cause | CauseSyncWord bytes nat | CauseDecode | CauseTail damaged_tail

datatype open_error = OpenForeign bytes nat | OpenCorruption nat "open_cause option"

record 'w recovered =
  rec_root :: "('w, bytes) committed"
  rec_segs :: "segment list"
  rec_floor :: nat
  rec_replayed :: nat

definition open_active :: "segment list \<Rightarrow> nat \<Rightarrow> segment list" where
  "open_active segs next_seq =
     (if segs = [] then [\<lparr>seg_first = next_seq, seg_bytes = []\<rparr>] else segs)"

definition recover :: "jlib \<Rightarrow> (bytes \<Rightarrow> 'r option) \<Rightarrow> (nat \<Rightarrow> 'w \<Rightarrow> 'r \<Rightarrow> 'w exec) \<Rightarrow> bool \<Rightarrow>
    ('w, bytes) committed \<Rightarrow> segment list \<Rightarrow> ('w recovered, open_error) result exec" where
  "recover L decode app cut_damaged base segs =
     (case first_sync_word segs (com_seq base) of
        SwForeign found name \<Rightarrow> err (OpenForeign found name)
      | SwDamaged found name \<Rightarrow> err (OpenCorruption (com_seq base) (Some (CauseSyncWord found name)))
      | SwScan \<Rightarrow> do {
          sc \<leftarrow> scan L segs (com_seq base) None (com_chain base);
          (case sc of
             Inl (Unscannable at c) \<Rightarrow> err (OpenCorruption at (Some (CauseScan c)))
           | Inr out \<Rightarrow>
               (case halt_to_head out of
                  Some (at, c) \<Rightarrow> err (OpenCorruption at (Some (CauseScan c)))
                | None \<Rightarrow>
                    let head = so_committed_head out in
                    (case checked_add head 1 of
                       None \<Rightarrow> err (OpenCorruption head None)
                     | Some next_seq \<Rightarrow> do {
                         folded \<leftarrow> fold_to decode app (com_world base) out head;
                         (case folded of
                            Inl (FoldFail at decoding) \<Rightarrow>
                              err (OpenCorruption at (if decoding then Some CauseDecode else None))
                          | Inr world \<Rightarrow>
                              (case (if cut_damaged then None else damaged_tail_of out) of
                                 Some d \<Rightarrow> err (OpenCorruption
                                   (case dt_claimed d of Some c \<Rightarrow> c | None \<Rightarrow> next_seq) (Some (CauseTail d)))
                               | None \<Rightarrow> do {
                                   segs' \<leftarrow> truncate_tail segs out cut_damaged;
                                   let order_floor = restored_high_water out;
                                   (case checked_add order_floor 1 of
                                      None \<Rightarrow> err (OpenCorruption order_floor None)
                                    | Some next_seq \<Rightarrow>
                                        ok \<lparr>rec_root = \<lparr>com_seq = head, com_world = world,
                                                         com_chain = so_chain_head out\<rparr>,
                                            rec_segs = open_active segs' next_seq,
                                            rec_floor = order_floor,
                                            rec_replayed = so_commits_above_base out\<rparr>) })) })) ) })"

section \<open>What a journal replays to\<close>

text \<open>
  The reference: the records of each transaction, decoded and folded at the position it committed at.
\<close>

definition fold_txn :: "(bytes \<Rightarrow> 'r option) \<Rightarrow> (nat \<Rightarrow> 'w \<Rightarrow> 'r \<Rightarrow> 'w exec) \<Rightarrow> 'w \<Rightarrow> txn \<Rightarrow> 'w exec" where
  "fold_txn decode app w t =
     exec_fold (\<lambda>w bs. do { r \<leftarrow> decode bs; app (tx_last t) w r }) w (tx_records t)"

definition kept_groups :: "groups \<Rightarrow> groups" where
  "kept_groups gs = (let ks = rev (dropWhile (\<lambda>g. snd g = []) (rev gs)) in if ks = [] then take 1 gs else ks)"

section \<open>The records in order\<close>

lemma all_entries_Cons:
  "all_entries (t # ts) = map (\<lambda>e. e\<lparr>cr_committed_at := tx_last t\<rparr>) (entries t) @ all_entries ts"
  by (simp add: all_entries_def)

lemma entries_seqs:
  "map cr_seq (map (\<lambda>e. e\<lparr>cr_committed_at := x\<rparr>) (entries t)) = [tx_first t..<tx_first t + length (tx_records t)]"
proof -
  have "map (\<lambda>k. tx_first t + k) [0..<n] = [tx_first t..<tx_first t + n]" for n
    by (rule nth_equalityI) simp_all
  then show ?thesis by (simp add: entries_def comp_def)
qed

lemma entries_ascend:
  "txns_ok h ts \<Longrightarrow> sorted_wrt (<) (map cr_seq (all_entries ts)) \<and>
     (\<forall>e \<in> set (all_entries ts). h < cr_seq e \<and> cr_seq e \<le> txns_head h ts)"
proof (induction ts arbitrary: h)
  case Nil
  then show ?case by (simp add: all_entries_def)
next
  case (Cons t ts)
  let ?es = "map (\<lambda>e. e\<lparr>cr_committed_at := tx_last t\<rparr>) (entries t)"
  have t: "tx_ok t" "h < tx_first t" "txns_ok (tx_last t) ts" using Cons.prems by simp_all
  note IH = Cons.IH [OF t(3)] and mono = txns_head_mono [OF t(3)]
  have es: "\<forall>s \<in> set (map cr_seq ?es). tx_first t \<le> s \<and> s \<le> tx_last t"
    unfolding entries_seqs using tx_okD(8) [OF t(1)] by auto
  have "sorted_wrt (<) (map cr_seq ?es)" unfolding entries_seqs by simp
  moreover have "\<forall>s \<in> set (map cr_seq ?es). \<forall>s' \<in> set (map cr_seq (all_entries ts)). s < s'"
    using es IH by fastforce
  ultimately have "sorted_wrt (<) (map cr_seq (all_entries (t # ts)))"
    using IH by (simp only: all_entries_Cons map_append sorted_wrt_append)
  moreover have "h < s \<and> s \<le> txns_head h (t # ts)" 
    if s: "s \<in> set (map cr_seq ?es) \<union> set (map cr_seq (all_entries ts))" for s
  proof -
    show ?thesis
    proof (cases "s \<in> set (map cr_seq ?es)")
      case True
      then show ?thesis using es [rule_format, OF True] mono t(2) by simp
    next
      case False
      then obtain e where "e \<in> set (all_entries ts)" "s = cr_seq e" using s by auto
      then show ?thesis using IH t(2) tx_okD(3) [OF t(1)] by fastforce
    qed
  qed
  ultimately show ?case unfolding all_entries_Cons by auto
qed

lemma records_to_all:
  assumes "so_collect out = CollectRecords None" "so_s_load out = h" "txns_ok h ts"
    and "so_records out = all_entries ts" "bound = txns_head h ts"
  shows "records_to out bound = ret (Ok (all_entries ts))"
proof -
  note asc = entries_ascend [OF assms(3)]
  have "filter (\<lambda>e. h < cr_seq e \<and> cr_seq e \<le> bound) (all_entries ts) = all_entries ts"
    using asc assms(5) by (simp add: filter_id_conv)
  moreover have "sort_key cr_seq (all_entries ts) = all_entries ts"
    using asc by (simp add: sort_key_id_if_sorted strict_sorted_imp_sorted)
  moreover have "find (\<lambda>(a, b). cr_seq a = cr_seq b) (zip (all_entries ts) (tl (all_entries ts))) = None"
  proof -
    have "cr_seq a \<noteq> cr_seq b" if ab: "(a, b) \<in> set (zip es (tl es))" "sorted_wrt (<) (map cr_seq es)" for a b es
    proof -
      obtain i where "i < length (tl es)" "a = es ! i" "b = tl es ! i" using ab(1) by (auto simp: in_set_zip)
      moreover from this have "cr_seq (es ! i) < cr_seq (es ! Suc i)"
        using ab(2) by (simp add: sorted_wrt_iff_nth_less)
      ultimately show ?thesis by (simp add: nth_tl)
    qed
    then show ?thesis using asc by (fastforce simp: find_None_iff)
  qed
  ultimately show ?thesis using assms by (simp add: records_to_def scan_covers_def Let_def)
qed

definition fold_entry :: "(bytes \<Rightarrow> 'r option) \<Rightarrow> (nat \<Rightarrow> 'w \<Rightarrow> 'r \<Rightarrow> 'w exec) \<Rightarrow> ('w, fold_fail) result \<Rightarrow>
    committed_record \<Rightarrow> ('w, fold_fail) result exec" where
  "fold_entry decode app w e = (case w of
     Inl f \<Rightarrow> err f
   | Inr world \<Rightarrow>
       (case decode (cr_bytes e) of
          None \<Rightarrow> err (FoldFail (cr_seq e) True)
        | Some r \<Rightarrow> do { world' \<leftarrow> app (cr_committed_at e) world r; ok world' }))"

lemma fold_entries_bytes:
  assumes "exec_fold (\<lambda>w bs. do { r \<leftarrow> decode bs; app x w r }) w (map cr_bytes es) = ret w'"
    and "\<forall>e \<in> set es. cr_committed_at e = x"
  shows "exec_fold (fold_entry decode app) (Ok w) es = ret (Ok w')"
  using assms
proof (induction es arbitrary: w)
  case (Cons e es)
  then show ?case by (auto simp: fold_entry_def split: Option.bind_splits)
qed simp

lemma fold_all_entries:
  "exec_fold (fold_txn decode app) w ts = ret w' \<Longrightarrow>
     exec_fold (fold_entry decode app) (Ok w) (all_entries ts) = ret (Ok w')"
proof (induction ts arbitrary: w)
  case (Cons t ts)
  obtain w1 where w1: "fold_txn decode app w t = ret w1" "exec_fold (fold_txn decode app) w1 ts = ret w'"
    using Cons.prems by (auto split: Option.bind_splits)
  let ?es = "map (\<lambda>e. e\<lparr>cr_committed_at := tx_last t\<rparr>) (entries t)"
  have "map cr_bytes ?es = tx_records t" by (simp add: entries_def comp_def map_nth)
  then have "exec_fold (fold_entry decode app) (Ok w) ?es = ret (Ok w1)"
    using w1(1) by (intro fold_entries_bytes [where x = "tx_last t"]) (simp_all add: fold_txn_def)
  then show ?case using Cons.IH [OF w1(2)] by (simp add: all_entries_Cons exec_fold_append)
qed (simp add: all_entries_def)

lemma fold_to_all:
  assumes "so_collect out = CollectRecords None" "so_s_load out = h" "txns_ok h ts"
    and "so_records out = all_entries ts" "bound = txns_head h ts"
    and "exec_fold (fold_txn decode app) w ts = ret w'"
  shows "fold_to decode app w out bound = ok w'"
  using records_to_all [OF assms(1-5)] fold_all_entries [OF assms(6)]
  by (simp add: fold_to_def fold_entry_def [abs_def])

section \<open>The scan of a written journal\<close>

lemma groups_ok_prefix: "groups_ok h (gs @ hs) \<Longrightarrow> groups_ok h gs"
  by (induction gs arbitrary: h) auto

lemma append_last_snoc: "append_last (xs @ [seg]) b = xs @ [seg\<lparr>seg_bytes := seg_bytes seg @ b\<rparr>]"
  by (simp add: append_last_def)

lemma append_last_Nil: "append_last segs b = [] \<longleftrightarrow> segs = []"
  by (simp add: append_last_def)

lemma scanned_from_genesis:
  assumes "sorted_wrt (<) (map seg_first segs)" "\<forall>seg \<in> set segs. 0 < seg_first seg"
  shows "scanned_above segs 0 = enumerate 0 segs"
proof -
  have "1 < seg_first (segs ! (i + 1))" if "i + 1 < length segs" for i
  proof -
    have "seg_first (segs ! i) < seg_first (segs ! (i + 1))"
      using that assms(1) by (simp add: sorted_wrt_iff_nth_less)
    moreover have "0 < seg_first (segs ! i)" using that assms(2) by simp
    ultimately show ?thesis by linarith
  qed
  then show ?thesis
    unfolding scanned_above_def
    by (intro filter_True) (auto simp: inferred_last_seq_def in_set_enumerate_eq split: option.split)
qed

definition eof_only :: "scan_run list \<Rightarrow> bool" where
  "eof_only runs \<longleftrightarrow> (\<forall>r \<in> set runs. run_end_of r = Eof)"

lemma scan_written:
  assumes L: "jlib_ok L" and gs: "gs \<noteq> []" "groups_ok 0 gs"
    and S: "S = append_last (journal_segs L chain_genesis gs) torn"
    and size: "\<forall>seg \<in> set S. length (seg_bytes seg) \<le> max_segment_len"
    and torn: "tx_ok t" "torn_append L (txns_chain L chain_genesis (txns_of gs)) t torn"
  shows "\<exists>runs. eof_only runs \<and> scan L S 0 None chain_genesis =
    ok ((commit_outs L chain_genesis (txns_of gs) (outcome_new 0 (CollectRecords None) chain_genesis))
      \<lparr>so_runs := runs, so_tail := tail_of S (enumerate 0 S) (cut_after L chain_genesis 0 gs None)\<rparr>)"
proof -
  obtain hs f ts where g: "gs = hs @ [(f, ts)]" using gs(1) by (metis rev_exhaust surj_pair)
  let ?prev = "txns_chain L chain_genesis (txns_of hs)" and ?n = "length hs"
  let ?out0 = "outcome_new 0 (CollectRecords None) chain_genesis"
  let ?ws0 = "\<lparr>ws_out = ?out0, ws_cut = None, ws_pending = None, ws_run_began = None\<rparr>"
  let ?ws1 = "?ws0\<lparr>ws_out := commit_outs L chain_genesis (txns_of hs) ?out0,
    ws_cut := cut_after L chain_genesis 0 hs None\<rparr>"
  let ?b = "txns_bytes L ?prev ts"
  have S': "S = journal_segs L chain_genesis hs @ [\<lparr>seg_first = f, seg_bytes = ?b @ torn\<rparr>]"
    by (simp add: S g journal_segs_append append_last_snoc)
  have firsts: "sorted_wrt (<) (map seg_first S) \<and> (\<forall>seg \<in> set S. 0 < seg_first seg)"
  proof -
    have "map seg_first S = map fst gs" by (simp add: S)
    moreover from this have "\<forall>seg \<in> set S. seg_first seg \<in> fst ` set gs"
      by (metis image_eqI list.set_map)
    ultimately show ?thesis using groups_firsts [OF gs(2)] by fastforce
  qed
  have ok: "groups_ok 0 hs" "txns_ok (txns_head 0 (txns_of hs)) ts"
    using groups_ok_prefix [of 0 hs] groups_txns_ok [OF gs(2)] gs(2) by (auto simp: g txns_append)
  have out0: "so_committed_head ?out0 = 0" "so_s_load ?out0 = 0" "so_collect ?out0 = CollectRecords None"
    "so_chain_head ?out0 = chain_genesis" "so_runs ?out0 = []" by (simp_all add: outcome_new_def)
  have walk1: "walk_segments L S 0 (enumerate 0 S) ?ws0 =
      walk_segments L S 0 [(?n, \<lparr>seg_first = f, seg_bytes = ?b @ torn\<rparr>)] ?ws1"
    using walk_groups [OF L, where gs = hs and ws = ?ws0 and prev = chain_genesis and n = 0 and s = 0 and segs = S
        and rest = "[(?n, \<lparr>seg_first = f, seg_bytes = ?b @ torn\<rparr>)]"] ok(1) out0 size
    by (simp add: S' between_def enumerate_append_eq)
  have b1: "between ?prev ?ws1"
    by (simp add: between_def out0)
  have h1: "so_committed_head (ws_out ?ws1) = txns_head 0 (txns_of hs)" "so_s_load (ws_out ?ws1) = 0"
    by (simp_all add: out0)
  let ?ws2 = "?ws1\<lparr>ws_out := commit_outs L ?prev ts (ws_out ?ws1),
    ws_cut := (if ts = [] then ws_cut ?ws1 else Some (?n, length ?b))\<rparr>"
  let ?budget = "length (?b @ torn) * resync_budget_passes"
  have walk2: "walk_segment L S 0 ?n (?b @ torn) ?budget 0 0 ?ws1 =
      walk_segment L S 0 ?n (?b @ torn) ?budget (length ?b) 0 ?ws2"
    using walk_txns [OF L _ b1, where ts = ts and pre = "[]" and post = torn] ok(2) h1 by simp
  have b2: "between (txns_chain L ?prev ts) ?ws2" using b1 by (simp add: between_def)
  obtain ws3 where ws3: "walk_segment L S 0 ?n (?b @ torn) ?budget (length ?b) 0 ?ws2 = ok ws3"
    "ws_out ws3 = ws_out ?ws2" "ws_cut ws3 = ws_cut ?ws2"
    "case ws_run_began ws3 of None \<Rightarrow> True | Some b \<Rightarrow> fst b = ?n"
    using walk_torn [OF L torn(1) b2, of torn 0 ?budget S 0 ?n ?b] torn(2) by (auto simp: g txns_append)
  have walk3: "walk_segments L S 0 (enumerate 0 S) ?ws0 = ok ws3"
    unfolding walk1 using size walk2 ws3(1) by (simp add: S')
  have out: "ws_out ws3 = commit_outs L chain_genesis (txns_of gs) ?out0"
    "ws_cut ws3 = cut_after L chain_genesis 0 gs None"
    using ws3(2,3) by (simp_all add: g txns_append cut_after_append)
  have runs: "so_runs (ws_out ws3) = []" by (simp add: out out0)
  have scan: "scan L S 0 None chain_genesis = do {
      out \<leftarrow> (case ws_run_began ws3 of
          None \<Rightarrow> ret (ws_out ws3)
        | Some began \<Rightarrow> do { p \<leftarrow> place_of S began None;
            ret ((ws_out ws3)\<lparr>so_runs := so_runs (ws_out ws3) @ [\<lparr>run_end_of = Eof, run_place_of = p\<rparr>]\<rparr>) });
      ok (out\<lparr>so_tail := tail_of S (enumerate 0 S) (ws_cut ws3)\<rparr>) }"
    using walk3 scanned_from_genesis [of S] firsts by (simp add: scan_def walk_def Let_def)
  show ?thesis
  proof (cases "ws_run_began ws3")
    case None
    have "(ws_out ws3)\<lparr>so_runs := []\<rparr> = ws_out ws3" using runs by simp
    then show ?thesis using scan None by (intro exI [of _ "[]"]) (simp add: eof_only_def out)
  next
    case (Some b)
    then have "fst b = ?n" using ws3(4) by simp
    then obtain p where "place_of S b None = ret p"
      by (cases b) (simp add: place_of_def subslice_def S')
    then show ?thesis using scan Some runs
      by (intro exI [of _ "[\<lparr>run_end_of = Eof, run_place_of = p\<rparr>]"]) (simp add: eof_only_def out)
  qed
qed

section \<open>Recovery\<close>

lemma kept_at:
  assumes "gs \<noteq> []"
  shows "\<exists>i < length gs. (\<forall>j. i < j \<and> j < length gs \<longrightarrow> snd (gs ! j) = []) \<and> kept_groups gs = take (i + 1) gs \<and>
    (case cut_after L prev 0 gs None of
       Some c \<Rightarrow> c = (i, length (seg_bytes (journal_segs L prev gs ! i)))
     | None \<Rightarrow> i = 0 \<and> seg_bytes (journal_segs L prev gs ! i) = [])"
  using assms
proof (induction gs rule: rev_induct)
  case (snoc g hs)
  obtain f ts where g: "g = (f, ts)" by (cases g)
  have cut: "cut_after L prev 0 (hs @ [(f, ts)]) None =
      (if ts = [] then cut_after L prev 0 hs None
       else Some (length hs, length (txns_bytes L (txns_chain L prev (txns_of hs)) ts)))"
    by (simp add: cut_after_append)
  have nth: "journal_segs L prev (hs @ [(f, ts)]) ! j = journal_segs L prev hs ! j" if "j < length hs" for j
    using that by (simp add: journal_segs_append nth_append)
  consider "ts \<noteq> []" | "ts = []" "hs = []" | "ts = []" "hs \<noteq> []" by blast
  then show ?case
  proof cases
    case 1
    then show ?thesis
      by (intro exI [of _ "length hs"])
         (auto simp: cut journal_segs_append nth_append kept_groups_def g less_Suc_eq)
  next
    case 2
    then show ?thesis by (intro exI [of _ 0]) (simp add: g kept_groups_def)
  next
    case 3
    obtain i where i: "i < length hs" "\<forall>j. i < j \<and> j < length hs \<longrightarrow> snd (hs ! j) = []"
      "kept_groups hs = take (i + 1) hs"
      "case cut_after L prev 0 hs None of
         Some c \<Rightarrow> c = (i, length (seg_bytes (journal_segs L prev hs ! i)))
       | None \<Rightarrow> i = 0 \<and> seg_bytes (journal_segs L prev hs ! i) = []"
      using snoc.IH [OF 3(2)] by blast
    have "kept_groups (hs @ [(f, ts)]) = kept_groups hs" using 3 by (cases hs) (auto simp: kept_groups_def g Let_def)
    then show ?thesis using i 3 unfolding g
      by (intro exI [of _ i])
         (auto simp: cut [unfolded 3(1)] nth [unfolded 3(1)] nth_append less_Suc_eq
          cong: option.case_cong)
  qed
qed simp

lemma length_framed_ge: "ps \<noteq> [] \<Longrightarrow> 4 \<le> length (framed L ps) \<and> take 4 (framed L ps @ post) = magic"
  by (cases ps) (simp_all add: frame_bytes_def Let_def)

lemma first_sync_word_written:
  assumes "gs \<noteq> []" "groups_ok 0 gs" "torn_append L (txns_chain L chain_genesis (txns_of gs)) t torn"
  shows "first_sync_word (append_last (journal_segs L chain_genesis gs) torn) 0 = SwScan"
proof -
  let ?S = "append_last (journal_segs L chain_genesis gs) torn"
  obtain f ts gs' where g: "gs = (f, ts) # gs'" using assms(1) by (metis list.exhaust surj_pair)
  have torn: "take 4 torn = magic" if "4 \<le> length torn"
  proof -
    obtain rest where "framed L (tx_frames L (txns_chain L chain_genesis (txns_of gs)) t) = torn @ rest"
      using torn_prefix [OF assms(3)] by (auto simp: prefix_def)
    moreover have "tx_frames L prev t \<noteq> []" for prev by (simp add: tx_frames_def)
    ultimately show ?thesis using length_framed_ge [of _ L "[]"] that by (metis append_Nil2 take_append take_all
        diff_is_0_eq take0)
  qed
  have opens: "take 4 (txns_bytes L chain_genesis ts @ post) = magic \<and> 4 \<le> length (txns_bytes L chain_genesis ts)"
    if ne: "ts \<noteq> []" for post
  proof -
    obtain x xs where ts: "ts = x # xs" using ne by (cases ts) auto
    have "tx_frames L chain_genesis x \<noteq> []" by (simp add: tx_frames_def)
    from length_framed_ge [OF this, of L "txns_bytes L (tx_chain L chain_genesis x) xs @ post"]
    show ?thesis by (simp only: ts txns_bytes.simps append_assoc length_append) simp
  qed
  have "length (seg_bytes (hd ?S)) < 4 \<or> take 4 (seg_bytes (hd ?S)) = magic"
  proof (cases "gs' = []")
    case True
    then have "seg_bytes (hd ?S) = txns_bytes L chain_genesis ts @ torn" by (simp add: g append_last_def)
    then show ?thesis using opens [of torn] torn by (cases "ts = []"; cases "4 \<le> length torn") auto
  next
    case False
    then have "seg_bytes (hd ?S) = txns_bytes L chain_genesis ts"
      by (cases gs') (auto simp: g append_last_def nth_list_update hd_conv_nth)
    then show ?thesis using opens [of "[]"] by (cases "ts = []") auto
  qed
  moreover have "scanned_above ?S 0 = enumerate 0 ?S"
  proof (rule scanned_from_genesis)
    show "sorted_wrt (<) (map seg_first ?S)" using groups_firsts [OF assms(2)] by simp
    have "seg_first ` set ?S = fst ` set gs" by (metis firsts_append_last firsts_journal_segs list.set_map)
    then show "\<forall>seg \<in> set ?S. 0 < seg_first seg" using groups_firsts [OF assms(2)]
      by (metis image_eqI image_iff)
  qed
  moreover obtain seg segs where "?S = seg # segs"
    by (cases ?S) (simp_all add: append_last_Nil g)
  ultimately show ?thesis
    by (auto simp: first_sync_word_def Let_def frame_header_len_def min_def)
qed

lemma eof_fatal: "eof_only (so_runs out) \<Longrightarrow> fatal_run out b = None"
  unfolding fatal_run_def eof_only_def by (auto simp: find_Some_iff split: option.split run_end.split)

lemma txns_head_bound: "txns_ok h ts \<Longrightarrow> h < u64_max \<Longrightarrow> txns_head h ts < u64_max"
proof (induction ts arbitrary: h)
  case (Cons t ts)
  then show ?case using tx_okD(4) [of t] by simp
qed simp

lemma recover_written:
  assumes L: "jlib_ok L" and gs: "gs \<noteq> []" "groups_ok 0 gs"
    and S: "S = append_last (journal_segs L chain_genesis gs) torn"
    and size: "\<forall>seg \<in> set S. length (seg_bytes seg) \<le> max_segment_len"
    and torn: "tx_ok t" "torn_append L (txns_chain L chain_genesis (txns_of gs)) t torn"
    and world: "exec_fold (fold_txn decode app) w (txns_of gs) = ret w'"
  shows "recover L decode app cut_damaged \<lparr>com_seq = 0, com_world = w, com_chain = chain_genesis\<rparr> S =
    ok \<lparr>rec_root = \<lparr>com_seq = txns_head 0 (txns_of gs), com_world = w',
                    com_chain = txns_chain L chain_genesis (txns_of gs)\<rparr>,
        rec_segs = journal_segs L chain_genesis (kept_groups gs),
        rec_floor = txns_head 0 (txns_of gs),
        rec_replayed = length (txns_of gs)\<rparr>"
proof -
  let ?J = "journal_segs L chain_genesis gs" and ?c = "cut_after L chain_genesis 0 gs None"
  let ?o = "commit_outs L chain_genesis (txns_of gs) (outcome_new 0 (CollectRecords None) chain_genesis)"
  obtain runs where runs: "eof_only runs" and scan: "scan L S 0 None chain_genesis =
      ok (?o\<lparr>so_runs := runs, so_tail := tail_of S (enumerate 0 S) ?c\<rparr>)"
    using scan_written [OF L gs S size torn] by blast
  define out where "out = ?o\<lparr>so_runs := runs, so_tail := tail_of S (enumerate 0 S) ?c\<rparr>"
  have ok: "txns_ok 0 (txns_of gs)" by (rule groups_txns_ok [OF gs(2)])
  have f: "so_s_load out = 0" "so_collect out = CollectRecords None" "so_runs out = runs"
    "so_committed_head out = txns_head 0 (txns_of gs)" "so_records out = all_entries (txns_of gs)"
    "so_commits_above_base out = length (txns_of gs)"
    "so_chain_head out = txns_chain L chain_genesis (txns_of gs)" "so_chain_break out = None"
    "so_base_mismatch out = None" "so_uncommitted_intact out = None" "so_tail_claimed out = None"
    "so_tail_tell out = None"
    unfolding out_def by (simp_all add: outcome_new_def)
  obtain i where i: "i < length gs" "\<forall>j. i < j \<and> j < length gs \<longrightarrow> snd (gs ! j) = []"
    "kept_groups gs = take (i + 1) gs"
    "case ?c of Some c \<Rightarrow> c = (i, length (seg_bytes (?J ! i))) | None \<Rightarrow> i = 0 \<and> seg_bytes (?J ! i) = []"
    using kept_at [OF gs(1), of L chain_genesis] by blast
  have small: "length torn \<le> max_crash_tail_bytes" by (rule length_torn [OF L torn])
  obtain tc where tail: "so_tail out = Some tc" "tc_bytes tc = length torn" "truncate_segs S tc = take (i + 1) ?J"
  proof -
    have "distinct (map seg_first ?J)" 
      using groups_firsts [OF gs(2)] strict_sorted_iff [of "map fst gs"] by simp
    moreover have "\<forall>j. i < j \<and> j < length ?J \<longrightarrow> seg_bytes (?J ! j) = []"
      using i(2) txns_bytes_at by simp
    moreover have "length torn \<le> u64_max"
      using small by (simp add: max_crash_tail_bytes_def max_txn_bytes_def max_frame_len_def max_sig_bytes_def u64_max_def)
    ultimately show ?thesis using tail_at [of i ?J ?c torn] i(1,4) that by (auto simp: out_def S)
  qed
  have kept: "take (i + 1) ?J = journal_segs L chain_genesis (kept_groups gs)"
    unfolding i(3) by (metis append_eq_conv_conj append_take_drop_id i(1) journal_segs_append length_journal_segs
        length_take min.absorb2 Suc_leI Suc_eq_plus1)
  have damaged: "damaged_tail_of out = None"
    using tail(1,2) small f by (simp add: damaged_tail_of_def split: option.split)
  have halt: "halt_to_head out = None"
  proof -
    have "fatal_run out b = None" for b by (rule eof_fatal) (simp add: runs f)
    then show ?thesis using f by (simp add: halt_to_head_def halt_on_def chain_verdict_def)
  qed
  have "txns_head 0 (txns_of gs) < u64_max" by (rule txns_head_bound [OF ok]) (simp add: u64_max_def)
  then have add: "checked_add (txns_head 0 (txns_of gs)) 1 = Some (txns_head 0 (txns_of gs) + 1)"
    by (simp add: checked_add_def)
  have fold: "fold_to decode app w out (txns_head 0 (txns_of gs)) = ok w'"
    by (rule fold_to_all [OF f(2,1) ok f(5) refl world])
  have cut: "truncate_tail S out acc = ret (journal_segs L chain_genesis (kept_groups gs))" for acc
    using tail damaged kept by (simp add: truncate_tail_def)
  have "kept_groups gs \<noteq> []" using i(1,3) by auto
  then have active: "open_active (journal_segs L chain_genesis (kept_groups gs)) n =
      journal_segs L chain_genesis (kept_groups gs)" for n
    by (cases "kept_groups gs") (auto simp: open_active_def)
  have floor: "restored_high_water out = txns_head 0 (txns_of gs)"
    using f by (simp add: restored_high_water_def)
  have scan': "scan L S 0 None chain_genesis = ok out" using scan by (simp only: out_def)
  have sync: "first_sync_word S 0 = SwScan" using first_sync_word_written [OF gs torn(2)] by (simp only: S)
  show ?thesis
    by (simp add: recover_def sync scan' halt f add fold damaged cut floor active Let_def del: One_nat_def)
qed

text \<open>
  C4: Crash recovery is exact. A journal whose segments hold the transactions the writer encoded, in
  order, followed by what a crash in the middle of the next append left, is recovered whatever the
  configuration says of a damaged tail: the root is the head the last complete transaction committed
  at, with the world its records and every earlier one's replay to and the chain value of its marker;
  the torn append is cut, byte for byte, and the sequencer continues from the head.
\<close>

theorem crash_recovery:
  assumes L: "jlib_ok L" and gs: "gs \<noteq> []" "groups_ok 0 gs"
    and S: "S = append_last (journal_segs L chain_genesis gs) torn"
    and size: "\<forall>seg \<in> set S. length (seg_bytes seg) \<le> max_segment_len"
    and torn: "tx_ok t" "torn_append L (txns_chain L chain_genesis (txns_of gs)) t torn"
    and world: "exec_fold (fold_txn decode app) w (txns_of gs) = ret w'"
  shows "recover L decode app cut_damaged \<lparr>com_seq = 0, com_world = w, com_chain = chain_genesis\<rparr> S =
    ok \<lparr>rec_root = \<lparr>com_seq = txns_head 0 (txns_of gs), com_world = w',
                    com_chain = txns_chain L chain_genesis (txns_of gs)\<rparr>,
        rec_segs = journal_segs L chain_genesis (kept_groups gs),
        rec_floor = txns_head 0 (txns_of gs),
        rec_replayed = length (txns_of gs)\<rparr>"
  by (rule recover_written [OF assms])

section \<open>A codec with the layout the source pins\<close>

text \<open>
  \<^verbatim>\<open>bincode\<close>'s fixed-width little-endian layout, with a sum in place of the checksum and the first
  thirty-two bytes in place of the hash: the third-party functions the witnesses are evaluated at.
\<close>

fun fixint_ser :: "frame_payload \<Rightarrow> bytes" where
  "fixint_ser (Record r) = le_bytes 4 0 @ le_bytes 8 (lr_seq r) @ le_bytes 8 (lr_txn r) @
     le_bytes 8 (length (lr_bytes r)) @ lr_bytes r"
| "fixint_ser (Marker m) = le_bytes 4 1 @ le_bytes 8 (mk_txn m) @ le_bytes 8 (mk_last_seq m) @
     le_bytes 4 (unat (mk_checksum m)) @ mk_salt m @ mk_chain m @ [mk_sig_alg m] @
     le_bytes 8 (length (mk_sig m)) @ mk_sig m"

definition fixint_de :: "bytes \<Rightarrow> frame_payload option" where
  "fixint_de bs =
     (if from_le (subbytes bs 0 4) = 0 then
        Some (Record \<lparr>lr_seq = from_le (subbytes bs 4 12), lr_txn = from_le (subbytes bs 12 20),
          lr_bytes = drop 28 bs\<rparr>)
      else if from_le (subbytes bs 0 4) = 1 then
        Some (Marker \<lparr>mk_txn = from_le (subbytes bs 4 12), mk_last_seq = from_le (subbytes bs 12 20),
          mk_checksum = of_nat (from_le (subbytes bs 20 24)), mk_salt = subbytes bs 24 56,
          mk_chain = subbytes bs 56 88, mk_sig_alg = hd (drop 88 bs), mk_sig = drop 97 bs\<rparr>)
      else None)"

definition fixint_lib :: jlib where
  "fixint_lib = \<lparr>bc_ser = fixint_ser, bc_de = fixint_de,
     crc_append = foldl (\<lambda>c b. 31 * c + ucast b), sha256 = (\<lambda>bs. take 32 (bs @ replicate 32 0))\<rparr>"

lemma fixint_ok: "jlib_ok fixint_lib"
proof -
  have "fixint_de (fixint_ser p) = Some p" if "wf_payload p" for p
  proof (cases p)
    case (Record r)
    then show ?thesis using that
      by (simp add: fixint_de_def subbytes_def from_le_bytes)
  next
    case (Marker m)
    have "unat (mk_checksum m) mod 4294967296 = unat (mk_checksum m)" by (rule unat_32)
    then show ?thesis using that Marker
      by (simp add: fixint_de_def subbytes_def from_le_bytes)
  qed
  then show ?thesis by (auto simp: jlib_ok_def fixint_lib_def)
qed

definition sample_txn :: "nat \<Rightarrow> txn" where
  "sample_txn n = \<lparr>tx_first = n, tx_records = [[7], [8, 9]], tx_salt = replicate 32 0, tx_att = None\<rparr>"

lemma sample_txn_ok: "n \<in> {1, 3} \<Longrightarrow> tx_ok (sample_txn n)"
  by (auto simp: tx_ok_def sample_txn_def u64_max_def att_slot_def tx_alg_def tx_sig_def sig_alg_unsigned_def
      txn_encoded_len_def max_txn_bytes_def max_frame_len_def saturating_add_def marker_frame_len_def
      frame_len_def frame_header_len_def record_frame_len_def record_payload_len_def record_payload_overhead_def)

theorem crash_recovery_witness:
  "recover fixint_lib Some (\<lambda>at w r. ret (w @ [(at, r)])) False
      \<lparr>com_seq = 0, com_world = [], com_chain = chain_genesis\<rparr>
      (append_last (journal_segs fixint_lib chain_genesis [(1, [sample_txn 1])])
        (framed fixint_lib (take 1 (tx_payloads fixint_lib (sample_txn 3))))) =
    ok \<lparr>rec_root = \<lparr>com_seq = 2, com_world = [(2, [7]), (2, [8, 9])],
                    com_chain = tx_chain fixint_lib chain_genesis (sample_txn 1)\<rparr>,
        rec_segs = journal_segs fixint_lib chain_genesis [(1, [sample_txn 1])],
        rec_floor = 2, rec_replayed = 1\<rparr>"
proof -
  let ?gs = "[(1, [sample_txn 1])]" and ?L = fixint_lib
  let ?torn = "framed ?L (take 1 (tx_payloads ?L (sample_txn 3)))"
  have last: "tx_last (sample_txn 1) = 2" by (simp add: tx_last_def sample_txn_def)
  have ok: "groups_ok 0 ?gs"
    using sample_txn_ok [of 1] by (simp add: last del: One_nat_def) (simp add: sample_txn_def)
  have torn: "torn_append ?L prev (sample_txn 3) ?torn" for prev
    unfolding torn_append_def
    by (intro exI [of _ 1] exI [of _ "[]"])
       (simp add: sample_txn_def tx_frames_def frame_bytes_def magic_def Let_def strict_prefix_def)
  have len: "length (bc_ser ?L (Record r)) = 28 + length (lr_bytes r)" for r
    by (simp add: fixint_lib_def)
  have size: "\<forall>seg \<in> set (append_last (journal_segs ?L chain_genesis ?gs) ?torn).
      length (seg_bytes seg) \<le> max_segment_len"
    by (simp add: append_last_def length_framed tx_frames_def tx_payloads_def sample_txn_def len
        length_tx_marker [OF fixint_ok sample_txn_ok, unfolded sample_txn_def] tx_sig_def
        max_segment_len_def max_txn_bytes_def max_frame_len_def)
  have fold: "exec_fold (fold_txn Some (\<lambda>at w r. ret (w @ [(at, r)]))) [] (txns_of ?gs) =
      ret [(2, [7]), (2, [8, 9])]"
    by (simp add: fold_txn_def last del: One_nat_def) (simp add: sample_txn_def)
  have kept: "kept_groups ?gs = ?gs" by (simp add: kept_groups_def)
  show ?thesis
    using crash_recovery [OF fixint_ok _ ok refl size sample_txn_ok [of 3] torn fold, of False]
    by (simp add: last kept del: One_nat_def)
qed

end
