(* ===== verification/Journal_Writer.thy ===== *)
theory Journal_Writer
  imports Journal_Open
begin

text \<open>
  The journal's writer and the commit path (\<^verbatim>\<open>journal/writer.rs\<close> and \<^verbatim>\<open>Kernel::transact\<close> in
  \<^verbatim>\<open>crates/skep-kernel/src/kernel.rs\<close>): what a transaction appends, what a failed append leaves, how
  the journal repairs it, and when the new root becomes visible.

  The file system is a list of segments. What it does is a plan, an argument of the operations: the
  salt drawn or its failure, whether a segment is created (and whether a creation that fails has made
  the file), how many bytes of an append land, whether the barrier completes, and whether a repair
  does. The files of a listing are in the order of their names.
\<close>

section \<open>The plan\<close>

datatype create_fault = CreateOk | CreateFails bool
datatype append_fault = AppendOk | AppendFails nat
datatype repair_fault = RepairOk | RepairFails bool

record io_plan =
  io_salt :: "bytes option"
  io_create :: create_fault
  io_append :: append_fault
  io_barrier :: bool
  io_repair :: repair_fault

section \<open>The writer\<close>

datatype in_flight = Idle | Appending nat | Barriered

record writer =
  jw_segs :: "segment list"
  jw_file :: nat
  jw_len :: nat
  jw_chain :: bytes
  jw_flight :: in_flight

datatype commit_fail = FailClean | FailUnencodable | FailOverBudget nat | FailUnrepaired

datatype unwind_repair = RepairedClean | Unrepaired | AfterBarrier

definition seg_update :: "nat \<Rightarrow> (bytes \<Rightarrow> bytes) \<Rightarrow> segment list \<Rightarrow> segment list" where
  "seg_update name g segs =
     map (\<lambda>seg. if seg_first seg = name then seg\<lparr>seg_bytes := g (seg_bytes seg)\<rparr> else seg) segs"

definition seg_len :: "nat \<Rightarrow> segment list \<Rightarrow> nat" where
  "seg_len name segs =
     (case find (\<lambda>seg. seg_first seg = name) segs of Some seg \<Rightarrow> length (seg_bytes seg) | None \<Rightarrow> 0)"

definition set_len :: "nat \<Rightarrow> bytes \<Rightarrow> bytes" where
  "set_len n bs = take n bs @ replicate (n - length bs) 0"

definition with_file :: "nat \<Rightarrow> segment list \<Rightarrow> segment list" where
  "with_file name segs =
     (if name \<in> set (map seg_first segs) then segs
      else insort_key seg_first \<lparr>seg_first = name, seg_bytes = []\<rparr> segs)"

text \<open>\<^verbatim>\<open>create_segment\<close>, taken by \<^verbatim>\<open>maybe_rotate\<close> once the active segment is long enough.\<close>

definition create_segment :: "io_plan \<Rightarrow> nat \<Rightarrow> writer \<Rightarrow> bool \<times> writer" where
  "create_segment plan first_seq w =
     (case io_create plan of
        CreateOk \<Rightarrow>
          let segs = with_file first_seq (jw_segs w)
          in (True, w\<lparr>jw_segs := segs, jw_file := first_seq, jw_len := seg_len first_seq segs, jw_flight := Idle\<rparr>)
      | CreateFails made \<Rightarrow>
          (False, if made then w\<lparr>jw_segs := with_file first_seq (jw_segs w)\<rparr> else w))"

definition maybe_rotate :: "io_plan \<Rightarrow> nat \<Rightarrow> writer \<Rightarrow> bool \<times> writer" where
  "maybe_rotate plan first_seq w =
     (if jw_len w = 0 \<or> jw_len w < segment_rotate_bytes then (True, w)
      else create_segment plan first_seq w)"

definition writer_append :: "io_plan \<Rightarrow> bytes \<Rightarrow> writer \<Rightarrow> bool \<times> writer" where
  "writer_append plan buf w =
     (case io_append plan of
        AppendOk \<Rightarrow> (True, w\<lparr>jw_segs := seg_update (jw_file w) (\<lambda>bs. bs @ buf) (jw_segs w),
                             jw_len := jw_len w + length buf\<rparr>)
      | AppendFails n \<Rightarrow> (False, w\<lparr>jw_segs := seg_update (jw_file w) (\<lambda>bs. bs @ take n buf) (jw_segs w)\<rparr>))"

definition truncate_to :: "io_plan \<Rightarrow> nat \<Rightarrow> writer \<Rightarrow> bool \<times> writer" where
  "truncate_to plan mark w =
     (case io_repair plan of
        RepairOk \<Rightarrow> (True, w\<lparr>jw_segs := seg_update (jw_file w) (set_len mark) (jw_segs w),
                             jw_len := mark, jw_flight := Idle\<rparr>)
      | RepairFails done \<Rightarrow>
          (False, if done then w\<lparr>jw_segs := seg_update (jw_file w) (set_len mark) (jw_segs w)\<rparr> else w))"

text \<open>
  \<^verbatim>\<open>JournalWriter::commit_txn\<close>, with the bytes appended and the chain the install is handed as its
  value.
\<close>

definition writer_commit :: "jlib \<Rightarrow> io_plan \<Rightarrow> nat \<Rightarrow> bytes list \<Rightarrow> attestation option \<Rightarrow> writer \<Rightarrow>
    (nat \<times> bytes, commit_fail) result exec \<times> writer" where
  "writer_commit L plan first_seq record_bytes att w =
     (case io_salt plan of
        None \<Rightarrow> (err FailClean, w)
      | Some salt \<Rightarrow>
          (case encode_txn L first_seq record_bytes (jw_chain w) salt att of
             None \<Rightarrow> (panic, w)
           | Some (Inl e) \<Rightarrow> (err FailUnencodable, w)
           | Some (Inr (buf, chain)) \<Rightarrow>
               (let (rotated, w) = maybe_rotate plan first_seq w in
                if \<not> rotated then (err FailClean, w)
                else
                  let mark = jw_len w;
                      w = w\<lparr>jw_flight := Appending mark\<rparr>;
                      (appended, w) = writer_append plan buf w
                  in if appended \<and> io_barrier plan
                     then (ok (length buf, chain), w\<lparr>jw_chain := chain, jw_flight := Idle\<rparr>)
                     else
                       let (repaired, w) = truncate_to plan mark w
                       in (err (if repaired then FailClean else FailUnrepaired), w))))"

definition writer_repair_after_unwind :: "io_plan \<Rightarrow> writer \<Rightarrow> unwind_repair \<times> writer" where
  "writer_repair_after_unwind plan w =
     (case jw_flight w of
        Idle \<Rightarrow> (RepairedClean, w)
      | Appending mark \<Rightarrow>
          let (repaired, w) = truncate_to plan mark (w\<lparr>jw_flight := Idle\<rparr>)
          in (if repaired then RepairedClean else Unrepaired, w)
      | Barriered \<Rightarrow> (AfterBarrier, w\<lparr>jw_flight := Idle\<rparr>))"

section \<open>The journal\<close>

datatype journal = InMemory | Segments writer

text \<open>
  The loop of \<^verbatim>\<open>Journal::commit_txn\<close> over the staged records: what they serialise to, the bytes
  accounted, and whether the budget is passed. A serialiser answers, refuses, or panics.
\<close>

fun journal_records :: "('r \<Rightarrow> bytes option exec) \<Rightarrow> 'r list \<Rightarrow> bytes list \<times> nat \<times> bool \<Rightarrow>
    (bytes list \<times> nat \<times> bool, commit_fail) result exec" where
  "journal_records enc [] acc = ok acc"
| "journal_records enc (r # rs) (recs, accounted, over_budget) =
     (case enc r of
        None \<Rightarrow> panic
      | Some None \<Rightarrow> err FailUnencodable
      | Some (Some bs) \<Rightarrow>
          if record_payload_len (length bs) > max_frame_len then err FailUnencodable
          else
            let accounted = saturating_add accounted (record_frame_len (length bs));
                over_budget = (over_budget \<or> accounted > max_txn_bytes)
            in journal_records enc rs
                 (if over_budget then recs else recs @ [bs], accounted, over_budget))"

definition journal_commit :: "jlib \<Rightarrow> ('r \<Rightarrow> bytes option exec) \<Rightarrow> io_plan \<Rightarrow> nat \<Rightarrow> 'r list \<Rightarrow>
    attestation option \<Rightarrow> journal \<Rightarrow> (nat \<times> bytes, commit_fail) result exec \<times> journal" where
  "journal_commit L enc plan first_seq records att j =
     (if records = [] then (panic, j)
      else
        (case journal_records enc records ([], marker_frame_len, False) of
           None \<Rightarrow> (panic, j)
         | Some (Inl e) \<Rightarrow> (err e, j)
         | Some (Inr (recs, accounted, over_budget)) \<Rightarrow>
             if over_budget then (err (FailOverBudget accounted), j)
             else
               (case j of
                  InMemory \<Rightarrow> (ok (0, chain_genesis), j)
                | Segments w \<Rightarrow>
                    let (r, w) = writer_commit L plan first_seq recs att w in (r, Segments w))))"

definition repair_after_unwind :: "io_plan \<Rightarrow> journal \<Rightarrow> unwind_repair \<times> journal" where
  "repair_after_unwind plan j =
     (case j of
        InMemory \<Rightarrow> (RepairedClean, j)
      | Segments w \<Rightarrow> let (u, w) = writer_repair_after_unwind plan w in (u, Segments w))"

section \<open>Transactions\<close>

record 'w kernel =
  k_root :: "('w, bytes) committed"
  k_poisoned :: bool
  k_sequencer :: sequencer
  k_journal :: journal

datatype ('v, 'e) txn_out =
    Committed 'v nat
  | Rejected 'e
  | Poisoned
  | Durability
  | Unencodable
  | OverBudget nat
  | Unwound

type_synonym ('w, 'r, 'v, 'e) closure =
  "('w, bytes, 'r) staging \<Rightarrow> (('w, bytes, 'r) staging \<times> 'v, 'e) result exec"

text \<open>\<^verbatim>\<open>Kernel::transact_attested\<close>, up to the checkpoint a commit may trigger.\<close>

definition transact :: "jlib \<Rightarrow> (nat \<Rightarrow> 'w \<Rightarrow> 'r \<Rightarrow> 'w exec) \<Rightarrow> ('r \<Rightarrow> bytes option exec) \<Rightarrow> io_plan \<Rightarrow>
    attestation option \<Rightarrow> ('w, 'r, 'v, 'e) closure \<Rightarrow> 'w kernel \<Rightarrow> ('v, 'e) txn_out \<times> 'w kernel" where
  "transact L app enc plan att f k =
     (if k_poisoned k then (Poisoned, k)
      else
        let base = k_root k;
            base_seq = com_seq base
        in (case f (staging_new base (saturating_add (high_water (k_sequencer k)) 1)) of
              None \<Rightarrow> (Unwound, k)
            | Some (Inl e) \<Rightarrow> (Rejected e, k)
            | Some (Inr (stg, v)) \<Rightarrow>
                (case sealed app stg of
                   None \<Rightarrow> (Unwound, k)
                 | Some stg \<Rightarrow>
                     let records = stg_records stg; n = length records in
                     if n = 0 then (Committed v base_seq, k)
                     else
                       (case sequencer_mint (k_sequencer k) n of
                          None \<Rightarrow> (Poisoned, k\<lparr>k_poisoned := True\<rparr>)
                        | Some ((first, final), sq) \<Rightarrow>
                            let (r, j) = journal_commit L enc plan first records att (k_journal k);
                                k = k\<lparr>k_sequencer := sq, k_journal := j\<rparr>;
                                rolled = k\<lparr>k_sequencer := roll_back_to sq base_seq\<rparr>
                            in (case r of
                                  None \<Rightarrow>
                                    (case repair_after_unwind plan j of
                                       (RepairedClean, j) \<Rightarrow> (Unwound, rolled\<lparr>k_journal := j\<rparr>)
                                     | (_, j) \<Rightarrow> (Unwound, k\<lparr>k_journal := j, k_poisoned := True\<rparr>))
                                | Some (Inl FailClean) \<Rightarrow> (Durability, rolled)
                                | Some (Inl FailUnencodable) \<Rightarrow> (Unencodable, rolled)
                                | Some (Inl (FailOverBudget bytes)) \<Rightarrow> (OverBudget bytes, rolled)
                                | Some (Inl FailUnrepaired) \<Rightarrow> (Poisoned, k\<lparr>k_poisoned := True\<rparr>)
                                | Some (Inr (bytes, chain)) \<Rightarrow>
                                    (Committed v final,
                                     k\<lparr>k_root := \<lparr>com_seq = final, com_world = stg_working stg,
                                                  com_chain = chain\<rparr>\<rparr>))))))"

text \<open>The kernel an open of a journal assembles (\<^verbatim>\<open>JournalWriter::open_active\<close>, \<^verbatim>\<open>Kernel::assemble\<close>).\<close>

definition kernel_of :: "burned_seq_policy \<Rightarrow> 'w recovered \<Rightarrow> 'w kernel" where
  "kernel_of policy r =
     \<lparr>k_root = rec_root r, k_poisoned = False,
      k_sequencer = sequencer_recovered (rec_floor r) policy,
      k_journal = Segments \<lparr>jw_segs = rec_segs r, jw_file = seg_first (last (rec_segs r)),
        jw_len = length (seg_bytes (last (rec_segs r))), jw_chain = com_chain (rec_root r),
        jw_flight = Idle\<rparr>\<rparr>"

section \<open>The segments a writer leaves\<close>

lemma seg_update_last:
  assumes "distinct (map seg_first (xs @ [seg]))"
  shows "seg_update (seg_first seg) g (xs @ [seg]) = xs @ [seg\<lparr>seg_bytes := g (seg_bytes seg)\<rparr>]"
proof -
  have "map (\<lambda>x. if seg_first x = seg_first seg then x\<lparr>seg_bytes := g (seg_bytes x)\<rparr> else x) xs = xs"
    using assms by (intro map_idI) (auto intro: rev_image_eqI)
  then show ?thesis by (simp add: seg_update_def)
qed

lemma seg_len_last:
  assumes "distinct (map seg_first (xs @ [seg]))"
  shows "seg_len (seg_first seg) (xs @ [seg]) = length (seg_bytes seg)"
proof -
  have "find (\<lambda>x. seg_first x = seg_first seg) (xs @ [seg]) = Some seg"
    using assms by (induction xs) auto
  then show ?thesis by (simp add: seg_len_def)
qed

lemma seg_len_append:
  "n \<in> seg_first ` set segs \<Longrightarrow> seg_len n (segs @ rest) = seg_len n segs"
  by (induction segs) (auto simp: seg_len_def)

lemma groups_distinct: "groups_ok h gs \<Longrightarrow> distinct (map fst gs)"
  using groups_firsts [of h gs] strict_sorted_iff [of "map fst gs"] by simp

lemma txns_head_max: "a < f \<Longrightarrow> txns_head b ts < f \<Longrightarrow> txns_head (max a b) ts < f"
  by (cases ts) auto

lemma groups_ok_snoc:
  assumes "groups_ok h gs" "\<forall>g \<in> set gs. fst g < f" "txns_head h (txns_of gs) < f" "txns_ok (f - 1) ts"
  shows "groups_ok h (gs @ [(f, ts)])"
  using assms(1-3)
proof (induction gs arbitrary: h)
  case Nil
  then show ?case using assms(4) by simp
next
  case (Cons g gs)
  obtain f' ts' where g: "g = (f', ts')" by (cases g)
  have "txns_head (max f' (txns_head h ts')) (txns_of gs) < f"
    using Cons.prems by (intro txns_head_max) (simp_all add: g txns_append)
  then show ?case using Cons g by auto
qed

lemma groups_ok_extend:
  assumes "groups_ok h (gs @ [(f, ts)])" "tx_ok t" "f \<le> tx_first t"
    and "txns_head h (txns_of (gs @ [(f, ts)])) < tx_first t"
  shows "groups_ok h (gs @ [(f, ts @ [t])])"
  using assms(1,4)
proof (induction gs arbitrary: h)
  case Nil
  have "txns_head (f - 1) ts < tx_first t" using Nil assms(3) by (cases ts) auto
  then show ?case using Nil assms(2) by (simp add: txns_append)
next
  case (Cons g gs)
  obtain f' ts' where g: "g = (f', ts')" by (cases g)
  let ?h = "max f' (txns_head h ts')"
  have ok: "groups_ok ?h (gs @ [(f, ts)])" using Cons.prems g by simp
  have "f' < tx_first t" using groups_firsts [OF ok] assms(3) by simp
  moreover have "txns_head (txns_head h ts') (txns_of (gs @ [(f, ts)])) < tx_first t"
    using Cons.prems(2) by (simp add: g txns_append)
  ultimately have "txns_head ?h (txns_of (gs @ [(f, ts)])) < tx_first t" by (rule txns_head_max)
  then show ?case using Cons.IH [OF ok] Cons.prems g by simp
qed

lemma txns_head_ge:
  assumes "groups_ok h gs" "(f, ts) \<in> set gs" "ts \<noteq> []"
  shows "f \<le> txns_head h (txns_of gs)"
  using assms(1,2)
proof (induction gs arbitrary: h)
  case (Cons g gs)
  obtain f' ts' where g: "g = (f', ts')" by (cases g)
  have ok2: "groups_ok (max f' (txns_head h ts')) gs" using Cons.prems(1) g by simp
  note ok = groups_txns_ok [OF groups_ok_mono [OF ok2 max.cobounded2]] ok2
  show ?case
  proof (cases "g = (f, ts)")
    case True
    then have "f \<le> txns_head h ts"
      using Cons.prems(1) assms(3) txns_head_mono [of "f - 1" ts] by (cases ts) auto
    then show ?thesis using txns_head_mono [OF ok(1)] True g by (simp add: txns_append)
  next
    case False
    then have "f \<le> txns_head (max f' (txns_head h ts')) (txns_of gs)" using Cons g ok(2) by auto
    moreover have "(f, ts) \<in> set gs" using False Cons.prems(2) by simp
    then have "txns_of gs \<noteq> []" using assms(3) by (auto intro!: bexI [of _ "(f, ts)"])
    ultimately show ?thesis using g by (cases "txns_of gs") (auto simp: txns_append)
  qed
qed simp

text \<open>A file the writer creates is the last of the listing, and holds no transaction yet.\<close>

lemma with_file_ok:
  assumes "gs \<noteq> []" "groups_ok 0 gs" "\<forall>g \<in> set gs. fst g \<le> f" "txns_head 0 (txns_of gs) < f"
  shows "\<exists>gs'. gs' \<noteq> [] \<and> groups_ok 0 gs' \<and> txns_of gs' = txns_of gs \<and> last gs' = (f, []) \<and>
    (\<forall>g \<in> set gs'. fst g \<le> f) \<and> with_file f (journal_segs L prev gs) = journal_segs L prev gs' \<and>
    (\<exists>rest. gs' = gs @ rest)"
proof (cases "f \<in> set (map fst gs)")
  case True
  obtain hs f' ts where g: "gs = hs @ [(f', ts)]" using assms(1) by (metis rev_exhaust surj_pair)
  have "f' = f"
  proof (rule ccontr)
    assume "f' \<noteq> f"
    then have "f \<in> set (map fst hs)" using True g by auto
    then have "f < f'" using groups_firsts [OF assms(2)] g by (fastforce simp: sorted_wrt_append)
    then show False using assms(3) g by auto
  qed
  moreover have "ts = []" using txns_head_ge [OF assms(2), of f' ts] assms(4) g calculation by fastforce
  ultimately show ?thesis using assms True g
    by (intro exI [of _ gs]) (simp add: with_file_def)
next
  case False
  then have lt: "\<forall>g \<in> set gs. fst g < f"
    using assms(3) by (metis image_eqI le_neq_implies_less list.set_map)
  have names: "set (map seg_first (journal_segs L prev gs)) = set (map fst gs)" by simp
  have insort: "insort_key seg_first x segs = segs @ [x]" if "\<forall>seg \<in> set segs. seg_first seg < seg_first x" for x segs
    using that by (induction segs) auto
  have "with_file f (journal_segs L prev gs) = journal_segs L prev gs @ [\<lparr>seg_first = f, seg_bytes = []\<rparr>]"
  proof -
    have "\<forall>seg \<in> set (journal_segs L prev gs). seg_first seg < f"
    proof
      fix seg assume "seg \<in> set (journal_segs L prev gs)"
      then have "seg_first seg \<in> set (map fst gs)" using names by (metis image_eqI list.set_map)
      then show "seg_first seg < f" using lt by auto
    qed
    moreover have "f \<notin> set (map seg_first (journal_segs L prev gs))" unfolding names by (rule False)
    ultimately show ?thesis
      using insort [of "journal_segs L prev gs" "\<lparr>seg_first = f, seg_bytes = []\<rparr>"]
      unfolding with_file_def by (simp del: firsts_journal_segs)
  qed
  moreover have "groups_ok 0 (gs @ [(f, [])])" 
    by (rule groups_ok_snoc [OF assms(2) lt assms(4)]) simp
  ultimately show ?thesis using lt
    by (intro exI [of _ "gs @ [(f, [])]"]) (auto simp: journal_segs_append less_imp_le)
qed

text \<open>What the writer and the segments agree on between transactions.\<close>

definition writer_ok :: "jlib \<Rightarrow> groups \<Rightarrow> writer \<Rightarrow> bool" where
  "writer_ok L gs w \<longleftrightarrow> gs \<noteq> [] \<and> fst (hd gs) = 1 \<and> groups_ok 0 gs \<and> jw_segs w = journal_segs L chain_genesis gs \<and>
     jw_chain w = txns_chain L chain_genesis (txns_of gs) \<and>
     (\<forall>seg \<in> set (jw_segs w). length (seg_bytes seg) \<le> max_segment_len) \<and> jw_flight w = Idle \<and>
     jw_file w \<in> fst ` set gs \<and> jw_len w = seg_len (jw_file w) (jw_segs w) \<and>
     (jw_file w = fst (last gs) \<or> segment_rotate_bytes \<le> jw_len w)"

definition active :: "groups \<Rightarrow> writer \<Rightarrow> bool" where
  "active gs w \<longleftrightarrow> jw_file w = fst (last gs) \<and> jw_len w \<le> segment_rotate_bytes"

lemma rotate_pos: "0 < segment_rotate_bytes"
  by (simp add: segment_rotate_bytes_def)

lemma maybe_rotate_ok:
  assumes "writer_ok L gs w" "\<forall>g \<in> set gs. fst g \<le> f" "txns_head 0 (txns_of gs) < f"
    and "maybe_rotate plan f w = (b, w')"
  shows "\<exists>gs'. writer_ok L gs' w' \<and> txns_of gs' = txns_of gs \<and> (\<forall>g \<in> set gs'. fst g \<le> f) \<and>
    (b \<longrightarrow> active gs' w')"
proof (cases "jw_len w = 0 \<or> jw_len w < segment_rotate_bytes")
  case True
  then have "w' = w" "active gs w"
    using assms(1,4) rotate_pos by (auto simp: maybe_rotate_def writer_ok_def active_def)
  then show ?thesis using assms(1,2) by blast
next
  case False
  then have w': "create_segment plan f w = (b, w')" and long: "segment_rotate_bytes \<le> jw_len w"
    using assms(4) by (auto simp: maybe_rotate_def)
  note ok = assms(1) [unfolded writer_ok_def]
  obtain gs' rest where gs': "gs' \<noteq> []" "groups_ok 0 gs'" "txns_of gs' = txns_of gs" "last gs' = (f, [])"
    "\<forall>g \<in> set gs'. fst g \<le> f" "with_file f (jw_segs w) = journal_segs L chain_genesis gs'" "gs' = gs @ rest"
    using with_file_ok [OF _ _ assms(2,3)] ok by metis
  have sizes: "\<forall>seg \<in> set (journal_segs L chain_genesis gs'). length (seg_bytes seg) \<le> max_segment_len"
  proof -
    have "\<forall>seg \<in> set (with_file f (jw_segs w)). length (seg_bytes seg) \<le> max_segment_len"
      using ok by (auto simp: with_file_def set_insort_key)
    then show ?thesis by (simp add: gs'(6))
  qed
  have names: "seg_first ` set (journal_segs L chain_genesis hs) = fst ` set hs" for hs
    by (metis firsts_journal_segs list.set_map)
  have split: "journal_segs L chain_genesis gs' = journal_segs L chain_genesis gs @
      journal_segs L (txns_chain L chain_genesis (txns_of gs)) rest"
    by (simp add: gs'(7) journal_segs_append)
  show ?thesis
  proof (cases "io_create plan")
    case CreateOk
    obtain xs where g: "gs' = xs @ [(f, [])]" using gs'(1,4) by (metis append_butlast_last_id)
    have "seg_len f (journal_segs L chain_genesis gs') = 0"
      using seg_len_last [of "journal_segs L chain_genesis xs" "\<lparr>seg_first = f, seg_bytes = []\<rparr>"]
        groups_distinct [OF gs'(2)] by (simp add: g journal_segs_append)
    moreover have "w' = w\<lparr>jw_segs := journal_segs L chain_genesis gs', jw_file := f,
        jw_len := seg_len f (journal_segs L chain_genesis gs'), jw_flight := Idle\<rparr>" "b"
      using w' CreateOk gs'(6) by (auto simp: create_segment_def Let_def)
    moreover have "fst (hd gs') = 1" using ok gs'(7) by simp
    ultimately have "writer_ok L gs' w' \<and> active gs' w'"
      using gs'(1-6) ok sizes by (auto simp: writer_ok_def active_def g)
    then show ?thesis using gs' by blast
  next
    case (CreateFails made)
    show ?thesis
    proof (cases made)
      case True
      then have "w' = w\<lparr>jw_segs := journal_segs L chain_genesis gs'\<rparr>" "\<not> b"
        using w' CreateFails gs'(6) by (auto simp: create_segment_def)
      moreover have "seg_len (jw_file w) (journal_segs L chain_genesis gs') = jw_len w"
        unfolding split using ok by (subst seg_len_append) (simp_all add: names)
      moreover have "jw_file w \<in> fst ` set gs'" "fst (hd gs') = 1" using ok gs'(7) by auto
      ultimately have "writer_ok L gs' w'"
        using gs'(1-6) ok sizes long by (auto simp: writer_ok_def)
      then show ?thesis using gs' \<open>\<not> b\<close> by blast
    next
      case False
      then show ?thesis using assms(1,2) w' CreateFails by (auto simp: create_segment_def)
    qed
  qed
qed

section \<open>A commit, step by step\<close>

definition add_txn :: "groups \<Rightarrow> txn \<Rightarrow> groups" where
  "add_txn gs t = butlast gs @ [(fst (last gs), snd (last gs) @ [t])]"

lemma journal_segs_snoc:
  "journal_segs L prev (hs @ [(f, ts)]) = journal_segs L prev hs @
     [\<lparr>seg_first = f, seg_bytes = txns_bytes L (txns_chain L prev (txns_of hs)) ts\<rparr>]"
  by (simp add: journal_segs_append)

lemma add_txn_ok:
  assumes "gs \<noteq> []" "groups_ok 0 gs" "tx_ok t" "\<forall>g \<in> set gs. fst g \<le> tx_first t"
    and "txns_head 0 (txns_of gs) < tx_first t"
  shows "groups_ok 0 (add_txn gs t)" "txns_of (add_txn gs t) = txns_of gs @ [t]" "add_txn gs t \<noteq> []"
    "map fst (add_txn gs t) = map fst gs" "fst (last (add_txn gs t)) = fst (last gs)"
    "journal_segs L chain_genesis (add_txn gs t) = append_last (journal_segs L chain_genesis gs)
       (framed L (tx_frames L (txns_chain L chain_genesis (txns_of gs)) t))"
proof -
  obtain hs f ts where g: "gs = hs @ [(f, ts)]" using assms(1) by (metis rev_exhaust surj_pair)
  show "groups_ok 0 (add_txn gs t)"
    using groups_ok_extend [of 0 hs f ts t] assms by (simp add: g add_txn_def)
  show "txns_of (add_txn gs t) = txns_of gs @ [t]" "add_txn gs t \<noteq> []"
    "map fst (add_txn gs t) = map fst gs" "fst (last (add_txn gs t)) = fst (last gs)"
    "journal_segs L chain_genesis (add_txn gs t) = append_last (journal_segs L chain_genesis gs)
       (framed L (tx_frames L (txns_chain L chain_genesis (txns_of gs)) t))"
    by (simp_all add: g add_txn_def journal_segs_snoc append_last_snoc txns_append)
qed

lemma active_parts:
  assumes "writer_ok L gs w" "active gs w"
  obtains xs seg where "jw_segs w = xs @ [seg]" "seg_first seg = jw_file w" "length (seg_bytes seg) = jw_len w"
    "distinct (map seg_first (xs @ [seg]))"
proof -
  note ok = assms(1) [unfolded writer_ok_def]
  obtain hs f ts where g: "gs = hs @ [(f, ts)]" using ok by (metis rev_exhaust surj_pair)
  let ?xs = "journal_segs L chain_genesis hs"
  let ?seg = "\<lparr>seg_first = f, seg_bytes = txns_bytes L (txns_chain L chain_genesis (txns_of hs)) ts\<rparr>"
  have segs: "jw_segs w = ?xs @ [?seg]" using ok by (simp add: g journal_segs_snoc)
  have d: "distinct (map seg_first (?xs @ [?seg]))" using groups_distinct [of 0 gs] ok by (simp add: g)
  have named: "seg_first ?seg = jw_file w" using assms(2) by (simp add: active_def g)
  have "length (seg_bytes ?seg) = jw_len w"
    using ok seg_len_last [OF d] named by (simp add: segs)
  then show ?thesis using that segs d named by blast
qed

lemma seg_update_active:
  assumes "writer_ok L gs w" "active gs w"
  shows "seg_update (jw_file w) (\<lambda>bs. bs @ x) (jw_segs w) = append_last (jw_segs w) x"
    and "seg_update (jw_file w) (set_len (jw_len w)) (append_last (jw_segs w) x) = jw_segs w"
    and "seg_update (jw_file w) (set_len (jw_len w)) (jw_segs w) = jw_segs w"
    and "seg_len (jw_file w) (append_last (jw_segs w) x) = jw_len w + length x"
proof -
  obtain xs seg where p: "jw_segs w = xs @ [seg]" "seg_first seg = jw_file w"
    "length (seg_bytes seg) = jw_len w" "distinct (map seg_first (xs @ [seg]))"
    by (rule active_parts [OF assms])
  have d: "distinct (map seg_first (xs @ [seg\<lparr>seg_bytes := b\<rparr>]))" for b using p(4) by simp
  show "seg_update (jw_file w) (\<lambda>bs. bs @ x) (jw_segs w) = append_last (jw_segs w) x"
    using seg_update_last [OF p(4)] p(2) by (simp add: p(1) append_last_snoc)
  show "seg_update (jw_file w) (set_len (jw_len w)) (append_last (jw_segs w) x) = jw_segs w"
    using seg_update_last [OF d, where g = "set_len (jw_len w)"] p(2,3)
    by (simp add: p(1) append_last_snoc set_len_def)
  show "seg_update (jw_file w) (set_len (jw_len w)) (jw_segs w) = jw_segs w"
    using seg_update_last [OF p(4), where g = "set_len (jw_len w)"] p(2,3) by (simp add: p(1) set_len_def)
  show "seg_len (jw_file w) (append_last (jw_segs w) x) = jw_len w + length x"
    using seg_len_last [OF d] p(2,3) by (simp add: p(1) append_last_snoc)
qed

text \<open>An append fits the segment: the active one is short, and a transaction is bounded.\<close>

lemma append_fits:
  assumes "writer_ok L gs w" "active gs w" "length x \<le> max_crash_tail_bytes"
  shows "\<forall>seg \<in> set (append_last (jw_segs w) x). length (seg_bytes seg) \<le> max_segment_len"
proof -
  obtain xs seg where p: "jw_segs w = xs @ [seg]" "length (seg_bytes seg) = jw_len w"
    by (rule active_parts [OF assms(1,2)])
  have "\<forall>seg \<in> set xs. length (seg_bytes seg) \<le> max_segment_len"
    using assms(1) p(1) by (simp add: writer_ok_def)
  moreover have "jw_len w \<le> segment_rotate_bytes" using assms(2) by (simp add: active_def)
  ultimately show ?thesis using assms(3) p(2)
    by (auto simp: p(1) append_last_snoc segment_rotate_bytes_def max_segment_len_def
        max_crash_tail_bytes_def max_txn_bytes_def max_frame_len_def max_sig_bytes_def)
qed

lemma append_ok:
  assumes L: "jlib_ok L" and w: "writer_ok L gs w" "active gs w"
    and t: "tx_ok t" "\<forall>g \<in> set gs. fst g \<le> tx_first t" "txns_head 0 (txns_of gs) < tx_first t"
  shows "writer_ok L (add_txn gs t)
    (w\<lparr>jw_segs := append_last (jw_segs w) (framed L (tx_frames L (jw_chain w) t)),
       jw_len := jw_len w + length (framed L (tx_frames L (jw_chain w) t)),
       jw_chain := tx_chain L (jw_chain w) t\<rparr>)"
proof -
  note ok = w(1) [unfolded writer_ok_def]
  have chain: "jw_chain w = txns_chain L chain_genesis (txns_of gs)" using ok by simp
  note add = add_txn_ok [OF _ _ t(1) t(2) t(3)]
  have "length (framed L (tx_frames L (jw_chain w) t)) \<le> max_crash_tail_bytes"
    by (rule length_tx_bytes [OF L t(1)])
  moreover have "fst (hd (add_txn gs t)) = 1"
    using add(3,4) ok by (metis hd_map)
  ultimately show ?thesis
    using append_fits [OF w, of "framed L (tx_frames L (jw_chain w) t)"] ok w(2) add(1,2,3,5) add(6) [of L] seg_update_active(4) [OF w]
      arg_cong [OF add(4), of set]
    by (auto simp: writer_ok_def active_def chain txns_append)
qed

lemma writer_ok_idle: "writer_ok L gs w \<Longrightarrow> writer_ok L gs (w\<lparr>jw_flight := Idle\<rparr>)"
  by (auto simp: writer_ok_def)

lemma names_le:
  assumes "map fst gs' = map fst gs"
  shows "(\<forall>g \<in> set gs'. fst g \<le> f) \<longleftrightarrow> (\<forall>g \<in> set gs. fst g \<le> f)"
proof -
  have "fst ` set gs' = fst ` set gs" using assms by (metis list.set_map)
  then have "(\<forall>n \<in> fst ` set gs'. n \<le> f) \<longleftrightarrow> (\<forall>n \<in> fst ` set gs. n \<le> f)" by (rule arg_cong)
  then show ?thesis by simp
qed

definition plan_ok :: "io_plan \<Rightarrow> bool" where
  "plan_ok plan \<longleftrightarrow> (\<forall>s. io_salt plan = Some s \<longrightarrow> length s = 32)"

abbreviation appended :: "nat \<Rightarrow> bytes list \<Rightarrow> bytes \<Rightarrow> attestation option \<Rightarrow> txn" where
  "appended first recs salt att \<equiv> \<lparr>tx_first = first, tx_records = recs, tx_salt = salt, tx_att = att\<rparr>"

lemma writer_commit_cases:
  assumes L: "jlib_ok L" and w: "writer_ok L gs w" "\<forall>g \<in> set gs. fst g \<le> first" "txns_head 0 (txns_of gs) < first"
    and plan: "plan_ok plan" and t: "\<And>salt. length salt = 32 \<Longrightarrow> tx_ok (appended first recs salt att)"
    and c: "writer_commit L plan first recs att w = (r, w')"
  shows "r = err FailUnrepaired \<or>
    (\<exists>gs'. writer_ok L gs' w' \<and> (\<forall>g \<in> set gs'. fst g \<le> first) \<and>
       (r = err FailClean \<and> txns_of gs' = txns_of gs \<or>
        (\<exists>n salt. r = ok (n, jw_chain w') \<and> tx_ok (appended first recs salt att) \<and>
           txns_of gs' = txns_of gs @ [appended first recs salt att])))"
proof (cases "io_salt plan")
  case None
  then show ?thesis using c w by (auto simp: writer_commit_def)
next
  case (Some salt)
  let ?t = "appended first recs salt att" and ?chain = "jw_chain w"
  let ?buf = "framed L (tx_frames L ?chain ?t)"
  have ok: "tx_ok ?t" using plan Some by (intro t) (simp add: plan_ok_def)
  have enc: "encode_txn L first recs ?chain salt att = ok (?buf, tx_chain L ?chain ?t)"
    using encode_txn_eq [OF L ok] by simp
  obtain b w1 where rot: "maybe_rotate plan first w = (b, w1)" by (cases "maybe_rotate plan first w")
  obtain gs1 where w1: "writer_ok L gs1 w1" "txns_of gs1 = txns_of gs" "\<forall>g \<in> set gs1. fst g \<le> first"
    "b \<Longrightarrow> active gs1 w1"
    using maybe_rotate_ok [OF w rot] by blast
  have same: "jw_chain w1 = ?chain" using w(1) w1(1,2) by (simp add: writer_ok_def)
  show ?thesis
  proof (cases b)
    case False
    then show ?thesis using c w1 Some by (auto simp: writer_commit_def enc rot)
  next
    case True
    note act = w1(4) [OF True]
    note upd = seg_update_active [OF w1(1) act]
    have idle: "jw_flight w1 = Idle" using w1(1) by (simp add: writer_ok_def)
    let ?w2 = "w1\<lparr>jw_flight := Appending (jw_len w1)\<rparr>"
    have restored: "truncate_to plan (jw_len w1) (?w2\<lparr>jw_segs := append_last (jw_segs w1) x, jw_len := n\<rparr>) = (d, w3) \<Longrightarrow>
        d \<and> w3 = w1 \<or> \<not> d" for x n d w3
      using upd(2) [of x] idle by (auto simp: truncate_to_def split: repair_fault.splits)
    show ?thesis
    proof (cases "io_append plan = AppendOk \<and> io_barrier plan")
      case True
      have "writer_ok L (add_txn gs1 ?t) w'" "r = ok (length ?buf, jw_chain w')"
        using c writer_ok_idle [OF append_ok [OF L w1(1) act ok]] w1(2,3) w(3) True Some idle \<open>b\<close>
        by (auto simp: writer_commit_def enc rot writer_append_def upd(1) same)
      moreover have "txns_of (add_txn gs1 ?t) = txns_of gs @ [?t]" "map fst (add_txn gs1 ?t) = map fst gs1"
        using add_txn_ok [OF _ _ ok] w1 w(3) by (auto simp: writer_ok_def)
      moreover from this have "\<forall>g \<in> set (add_txn gs1 ?t). fst g \<le> first"
        using w1(3) names_le by blast
      ultimately show ?thesis using ok by blast
    next
      case False
      obtain x n where landed: "writer_append plan ?buf ?w2 = (io_append plan = AppendOk,
          ?w2\<lparr>jw_segs := append_last (jw_segs w1) x, jw_len := n\<rparr>)"
      proof (cases "io_append plan")
        case AppendOk
        then show ?thesis using that [where x = ?buf and n = "jw_len w1 + length ?buf"] by (simp add: writer_append_def upd(1))
      next
        case (AppendFails k)
        then show ?thesis using that [where x = "take k ?buf" and n = "jw_len w1"] by (simp add: writer_append_def upd(1))
      qed
      obtain d w3 where tr: "truncate_to plan (jw_len w1)
          (?w2\<lparr>jw_segs := append_last (jw_segs w1) x, jw_len := n\<rparr>) = (d, w3)" by force
      have "r = err (if d then FailClean else FailUnrepaired)" "w' = w3"
        using c False Some \<open>b\<close> landed tr by (auto simp: writer_commit_def enc rot Let_def)
      then show ?thesis using restored [OF tr] w1 by auto
    qed
  qed
qed

lemma journal_records_ok:
  "journal_records enc rs (recs0, a0, over) = ok (recs, a, False) \<Longrightarrow>
     \<not> over \<and> (\<exists>bss. recs = recs0 @ bss \<and> list_all2 (\<lambda>r bs. enc r = ret (Some bs)) rs bss \<and>
       a = foldl (\<lambda>n bs. saturating_add n (record_frame_len (length bs))) a0 bss \<and>
       (bss \<noteq> [] \<longrightarrow> a \<le> max_txn_bytes))"
proof (induction rs arbitrary: recs0 a0 over)
  case (Cons r rs)
  obtain bs where enc: "enc r = ret (Some bs)" and fits: "\<not> record_payload_len (length bs) > max_frame_len"
    using Cons.prems by (auto split: option.splits if_splits)
  let ?a = "saturating_add a0 (record_frame_len (length bs))"
  let ?over = "over \<or> ?a > max_txn_bytes"
  have step: "journal_records enc rs (if ?over then recs0 else recs0 @ [bs], ?a, ?over) = ok (recs, a, False)"
    using Cons.prems enc fits by (simp add: Let_def split: if_splits)
  from Cons.IH [OF step] obtain bss where bss: "\<not> ?over" "recs = (if ?over then recs0 else recs0 @ [bs]) @ bss"
    "list_all2 (\<lambda>r bs. enc r = ret (Some bs)) rs bss"
    "a = foldl (\<lambda>n bs. saturating_add n (record_frame_len (length bs))) ?a bss" "bss \<noteq> [] \<longrightarrow> a \<le> max_txn_bytes"
    by blast
  then show ?case using enc by (intro conjI exI [of _ "bs # bss"]) auto
qed auto

lemma fold_decoded:
  assumes "list_all2 (\<lambda>r bs. enc r = ret (Some bs)) rs bss" "\<forall>r bs. enc r = ret (Some bs) \<longrightarrow> decode bs = Some r"
  shows "exec_fold (\<lambda>w bs. do { r \<leftarrow> decode bs; app at w r }) w bss = exec_fold (app at) w rs"
  using assms(1)
proof (induction arbitrary: w rule: list_all2_induct)
  case (Cons r rs bs bss)
  then show ?case using assms(2) by (cases "app at w r") auto
qed simp

section \<open>The kernel's invariant\<close>

definition codec_ok :: "('r \<Rightarrow> bytes option exec) \<Rightarrow> (bytes \<Rightarrow> 'r option) \<Rightarrow> bool" where
  "codec_ok enc decode \<longleftrightarrow> (\<forall>r bs. enc r = ret (Some bs) \<longrightarrow> decode bs = Some r)"

text \<open>A closure stages by pushing records, one at a time.\<close>

definition closure_ok :: "(nat \<Rightarrow> 'w \<Rightarrow> 'r \<Rightarrow> 'w exec) \<Rightarrow> ('w, 'r, 'v, 'e) closure \<Rightarrow> bool" where
  "closure_ok app f \<longleftrightarrow>
     (\<forall>base first stg v. f (staging_new base first) = ok (stg, v) \<longrightarrow> staged app base first stg)"

text \<open>\<^verbatim>\<open>Attestation::new\<close> makes every attestation there is.\<close>

definition att_ok :: "attestation option \<Rightarrow> bool" where
  "att_ok att \<longleftrightarrow> (\<forall>a. att = Some a \<longrightarrow> attestation_new (att_alg a) (att_sig a) = Ok a)"

definition root_ok :: "jlib \<Rightarrow> (bytes \<Rightarrow> 'r option) \<Rightarrow> (nat \<Rightarrow> 'w \<Rightarrow> 'r \<Rightarrow> 'w exec) \<Rightarrow> 'w \<Rightarrow> txn list \<Rightarrow>
    ('w, bytes) committed \<Rightarrow> bool" where
  "root_ok L decode app genesis ts root \<longleftrightarrow> txns_ok 0 ts \<and>
     com_seq root = txns_head 0 ts \<and> com_chain root = txns_chain L chain_genesis ts \<and>
     exec_fold (fold_txn decode app) genesis ts = ret (com_world root)"

definition journal_ok :: "jlib \<Rightarrow> txn list \<Rightarrow> 'w kernel \<Rightarrow> bool" where
  "journal_ok L ts k \<longleftrightarrow>
     (\<exists>w gs. k_journal k = Segments w \<and> writer_ok L gs w \<and> txns_of gs = ts \<and>
        (\<forall>g \<in> set gs. fst g \<le> high_water (k_sequencer k) + 1) \<and>
        com_seq (k_root k) \<le> high_water (k_sequencer k) \<and>
        (burned_seq (k_sequencer k) = Rollback \<longrightarrow>
           high_water (k_sequencer k) = max (com_seq (k_root k)) (seq_floor (k_sequencer k))))"

definition kernel_ok :: "jlib \<Rightarrow> (bytes \<Rightarrow> 'r option) \<Rightarrow> (nat \<Rightarrow> 'w \<Rightarrow> 'r \<Rightarrow> 'w exec) \<Rightarrow> 'w \<Rightarrow> txn list \<Rightarrow>
    'w kernel \<Rightarrow> bool" where
  "kernel_ok L decode app genesis ts k \<longleftrightarrow> root_ok L decode app genesis ts (k_root k) \<and>
     (\<not> k_poisoned k \<longrightarrow> journal_ok L ts k)"

lemma root_ok_snoc:
  assumes "root_ok L decode app genesis ts root" "tx_ok t" "com_seq root < tx_first t"
    and "fold_txn decode app (com_world root) t = ret world"
  shows "root_ok L decode app genesis (ts @ [t])
    \<lparr>com_seq = tx_last t, com_world = world, com_chain = txns_chain L chain_genesis (ts @ [t])\<rparr>"
  using assms by (simp add: root_ok_def txns_append exec_fold_append)

lemma mint_parts:
  assumes "sequencer_mint sq n = Some ((first, final), sq')" "0 < n"
  shows "first = high_water sq + 1" "final = high_water sq + n" "first + n \<le> u64_max"
    "sq' = sq\<lparr>high_water := final\<rparr>" "saturating_add (high_water sq) 1 = first"
  using assms by (auto simp: sequencer_mint_def checked_add_def Let_def saturating_add_def
      split: if_splits option.splits)

lemma rolled_back:
  assumes "burned_seq sq = Rollback \<Longrightarrow> high_water sq = max base (seq_floor sq)" "base \<le> high_water sq" "0 < n"
  shows "high_water sq \<le> high_water (roll_back_to (sq\<lparr>high_water := high_water sq + n\<rparr>) base)"
    and "burned_seq (roll_back_to (sq\<lparr>high_water := m\<rparr>) base) = burned_seq sq"
    and "seq_floor (roll_back_to (sq\<lparr>high_water := m\<rparr>) base) = seq_floor sq"
    and "burned_seq sq = Rollback \<Longrightarrow>
      high_water (roll_back_to (sq\<lparr>high_water := m\<rparr>) base) = max base (seq_floor sq)"
  using assms by (auto simp: roll_back_to_def)

text \<open>A commit path that leaves the journal as it found it leaves the invariant.\<close>

lemma journal_ok_rolled:
  assumes "journal_ok L ts k" "sequencer_mint (k_sequencer k) n = Some ((first, final), sq)" "0 < n"
    and "k_journal k' = Segments w" "writer_ok L gs w" "txns_of gs = ts" "\<forall>g \<in> set gs. fst g \<le> first"
    and "k_root k' = k_root k" "k_sequencer k' = roll_back_to sq (com_seq (k_root k))"
  shows "journal_ok L ts k'"
proof -
  let ?sq = "k_sequencer k" and ?base = "com_seq (k_root k)"
  note m = mint_parts [OF assms(2,3)]
  have h: "?base \<le> high_water ?sq"
    "burned_seq ?sq = Rollback \<Longrightarrow> high_water ?sq = max ?base (seq_floor ?sq)"
    using assms(1) by (auto simp: journal_ok_def)
  note r = rolled_back [OF h(2,1) assms(3)]
  have "high_water ?sq \<le> high_water (k_sequencer k')" using r(1) m(2,4) assms(9) by simp
  moreover from this have "\<forall>g \<in> set gs. fst g \<le> high_water (k_sequencer k') + 1" using assms(7) m(1) by fastforce
  ultimately show ?thesis unfolding journal_ok_def
    using assms(4-6,8,9) h(1) r(2-4) m(4) by (intro exI [of _ w] exI [of _ gs]) auto
qed

lemma journal_records_err:
  "journal_records enc rs acc = err e \<Longrightarrow> e = FailUnencodable"
  by (induction enc rs acc rule: journal_records.induct) (auto simp: Let_def split: option.splits if_splits)

lemma att_slot_ok: "att_ok att \<Longrightarrow> att_slot (tx_alg (appended f r s att)) (tx_sig (appended f r s att)) = Ok att"
  by (cases att) (auto simp: att_ok_def attestation_new_def att_slot_def tx_alg_def tx_sig_def
      split: if_splits sum.splits option.splits)

lemma appended_ok:
  assumes "att_ok att" "length salt = 32" "recs \<noteq> []" "1 \<le> first" "first + length recs \<le> u64_max"
    and "foldl (\<lambda>n bs. saturating_add n (record_frame_len (length bs))) marker_frame_len recs \<le> max_txn_bytes"
  shows "tx_ok (appended first recs salt att)"
proof -
  have "saturating_add marker_frame_len 0 = marker_frame_len"
    by (simp add: saturating_add_def marker_frame_len_def frame_len_def frame_header_len_def u64_max_def)
  then show ?thesis using assms att_slot_ok [OF assms(1), of first recs salt]
    by (simp add: tx_ok_def txn_encoded_len_def)
qed

lemma journal_commit_cases:
  assumes L: "jlib_ok L" and w: "writer_ok L gs w" "\<forall>g \<in> set gs. fst g \<le> first" "txns_head 0 (txns_of gs) < first"
    and env: "plan_ok plan" "att_ok att"
    and n: "records \<noteq> []" "1 \<le> first" "first + length records \<le> u64_max"
    and c: "journal_commit L enc plan first records att (Segments w) = (r, j')"
  shows "r = err FailUnrepaired \<or>
    (\<exists>gs' w'. j' = Segments w' \<and> writer_ok L gs' w' \<and> (\<forall>g \<in> set gs'. fst g \<le> first) \<and>
       ((r = panic \<or> (\<exists>e. r = err e \<and> e \<noteq> FailUnrepaired)) \<and> txns_of gs' = txns_of gs \<or>
        (\<exists>n recs salt. r = ok (n, jw_chain w') \<and> tx_ok (appended first recs salt att) \<and>
           list_all2 (\<lambda>r bs. enc r = ret (Some bs)) records recs \<and>
           txns_of gs' = txns_of gs @ [appended first recs salt att])))"
proof (cases "\<exists>recs a. journal_records enc records ([], marker_frame_len, False) = ok (recs, a, False)")
  case False
  then have "j' = Segments w \<and> (r = panic \<or> (\<exists>e. r = err e \<and> e \<noteq> FailUnrepaired))"
    using c n(1) journal_records_err [of enc records "([], marker_frame_len, False)"]
    by (auto simp: journal_commit_def split: option.splits sum.splits if_splits prod.splits)
  then show ?thesis using w by blast
next
  case True
  then obtain recs a where rec: "journal_records enc records ([], marker_frame_len, False) = ok (recs, a, False)"
    by blast
  have all: "list_all2 (\<lambda>r bs. enc r = ret (Some bs)) records recs"
    and fold: "a = foldl (\<lambda>n bs. saturating_add n (record_frame_len (length bs))) marker_frame_len recs"
    "recs \<noteq> [] \<longrightarrow> a \<le> max_txn_bytes"
    using journal_records_ok [OF rec] by auto
  have len: "length recs = length records" using all by (simp add: list_all2_lengthD)
  then have "recs \<noteq> []" using n(1) by auto
  then have ok: "tx_ok (appended first recs salt att)" if "length salt = 32" for salt
    using fold n(2,3) len by (intro appended_ok [OF env(2) that]) simp_all
  obtain r1 w1 where wc: "writer_commit L plan first recs att w = (r1, w1)" by force
  then have "r = r1" "j' = Segments w1" using c n(1) rec by (auto simp: journal_commit_def)
  then show ?thesis using writer_commit_cases [OF L w env(1) ok wc] all by blast
qed

text \<open>What a committed transaction makes of the root: its records replayed at its last position.\<close>

lemma committed_world:
  assumes "staged app base first stg0" "sealed app stg0 = ret stg" "stg_records stg \<noteq> []"
    and "codec_ok enc decode" "list_all2 (\<lambda>r bs. enc r = ret (Some bs)) (stg_records stg) recs"
  shows "fold_txn decode app (com_world base) (appended first recs salt att) = ret (stg_working stg)"
    and "exec_fold (app (first + length (stg_records stg) - 1)) (com_world base) (stg_records stg) = ret (stg_working stg)"
    and "tx_last (appended first recs salt att) = first + length (stg_records stg) - 1"
proof -
  note s = sealed_is_replay [OF assms(1,2)]
  have len: "length recs = length (stg_records stg)" using assms(5) by (simp add: list_all2_lengthD)
  have "0 < length recs" using len assms(3) by simp
  then show last: "tx_last (appended first recs salt att) = first + length (stg_records stg) - 1"
    using len by (cases recs) (auto simp: tx_last_def)
  show fold: "exec_fold (app (first + length (stg_records stg) - 1)) (com_world base) (stg_records stg) = ret (stg_working stg)"
    using s by simp
  then show "fold_txn decode app (com_world base) (appended first recs salt att) = ret (stg_working stg)"
    using fold_decoded [OF assms(5), of decode app] assms(4)
    by (simp add: fold_txn_def last codec_ok_def)
qed

lemma transact_step:
  assumes L: "jlib_ok L" and env: "codec_ok enc decode" "closure_ok app f" "plan_ok plan" "att_ok att"
    and k: "kernel_ok L decode app genesis ts k"
    and t: "transact L app enc plan att f k = (out, k')"
  shows "\<exists>ts'. kernel_ok L decode app genesis ts' k'"
proof -
  have same: ?thesis if "k_root k' = k_root k" "k_poisoned k'"
    using k that by (auto simp: kernel_ok_def)
  have unchanged: ?thesis if "k' = k" using k that by blast
  consider "k' = k" | stg0 v stg where "\<not> k_poisoned k"
      "f (staging_new (k_root k) (saturating_add (high_water (k_sequencer k)) 1)) = ok (stg0, v)"
      "sealed app stg0 = ret stg" "stg_records stg \<noteq> []"
    using t by (auto simp: transact_def Let_def split: if_splits option.splits sum.splits prod.splits)
  then show ?thesis
  proof cases
    case 1
    then show ?thesis by (rule unchanged)
  next
    case (2 stg0 v stg)
    let ?n = "length (stg_records stg)" and ?sq = "k_sequencer k"
    have n: "0 < ?n" using 2(4) by simp
    note j = k [unfolded kernel_ok_def root_ok_def, THEN conjunct2, rule_format, OF 2(1)]
    obtain w gs where w: "k_journal k = Segments w" "writer_ok L gs w" "txns_of gs = ts"
      "\<forall>g \<in> set gs. fst g \<le> high_water ?sq + 1" "com_seq (k_root k) \<le> high_water ?sq"
      "burned_seq ?sq = Rollback \<longrightarrow> high_water ?sq = max (com_seq (k_root k)) (seq_floor ?sq)"
      using j by (auto simp: journal_ok_def)
    show ?thesis
    proof (cases "sequencer_mint ?sq ?n")
      case None
      then show ?thesis using t 2 n by (intro same) (auto simp: transact_def Let_def)
    next
      case (Some m)
      obtain first final sq where m: "m = ((first, final), sq)" "sequencer_mint ?sq ?n = Some ((first, final), sq)"
        using Some by (cases m) auto
      note mp = mint_parts [OF m(2) n]
      obtain r jr where jc: "journal_commit L enc plan first (stg_records stg) att (Segments w) = (r, jr)" by force
      have head: "txns_head 0 (txns_of gs) < first" "com_seq (k_root k) < first"
        using k w(3,5) mp(1) by (auto simp: kernel_ok_def root_ok_def)
      have names: "\<forall>g \<in> set gs. fst g \<le> first" using w(4) mp(1) by simp
      have out: "k' = (case r of
          None \<Rightarrow> (case repair_after_unwind plan jr of
              (RepairedClean, j) \<Rightarrow> k\<lparr>k_sequencer := roll_back_to sq (com_seq (k_root k)), k_journal := j\<rparr>
            | (_, j) \<Rightarrow> k\<lparr>k_sequencer := sq, k_journal := j, k_poisoned := True\<rparr>)
        | Some (Inl e) \<Rightarrow> if e = FailUnrepaired then k\<lparr>k_sequencer := sq, k_journal := jr, k_poisoned := True\<rparr>
            else k\<lparr>k_sequencer := roll_back_to sq (com_seq (k_root k)), k_journal := jr\<rparr>
        | Some (Inr (bytes, chain)) \<Rightarrow> k\<lparr>k_sequencer := sq, k_journal := jr,
            k_root := \<lparr>com_seq = final, com_world = stg_working stg, com_chain = chain\<rparr>\<rparr>)"
        using t 2 n m w(1) jc
        by (auto simp: transact_def Let_def split: option.splits sum.splits commit_fail.splits
            unwind_repair.splits prod.splits)
      consider "r = err FailUnrepaired"
        | gs' w' where "jr = Segments w'" "writer_ok L gs' w'" "\<forall>g \<in> set gs'. fst g \<le> first"
            "r = panic \<or> (\<exists>e. r = err e \<and> e \<noteq> FailUnrepaired)" "txns_of gs' = txns_of gs"
        | gs' w' x recs salt where "jr = Segments w'" "writer_ok L gs' w'" "\<forall>g \<in> set gs'. fst g \<le> first"
            "r = ok (x, jw_chain w')" "tx_ok (appended first recs salt att)"
            "list_all2 (\<lambda>r bs. enc r = ret (Some bs)) (stg_records stg) recs"
            "txns_of gs' = txns_of gs @ [appended first recs salt att]"
        using journal_commit_cases [OF L w(2) names head(1) env(3,4) 2(4) _ mp(3) jc] mp(1) by force
      then show ?thesis
      proof cases
        case 1
        then show ?thesis using out by (intro same) simp_all
      next
        case 2
        have idle: "repair_after_unwind plan (Segments w') = (RepairedClean, Segments w')"
          using 2(2) by (simp add: repair_after_unwind_def writer_repair_after_unwind_def writer_ok_def)
        have k': "k' = k\<lparr>k_sequencer := roll_back_to sq (com_seq (k_root k)), k_journal := Segments w'\<rparr>"
          using 2(4) out by (auto simp: 2(1) idle)
        have "journal_ok L ts k'"
          by (rule journal_ok_rolled [OF j m(2) n _ 2(2) _ 2(3)]) (simp_all add: k' 2(5) w(3))
        then show ?thesis using k by (auto simp: kernel_ok_def k')
      next
        case 3
        let ?t = "appended first recs salt att"
        have k': "k' = k\<lparr>k_sequencer := sq, k_journal := Segments w',
            k_root := \<lparr>com_seq = final, com_world = stg_working stg, com_chain = jw_chain w'\<rparr>\<rparr>"
          using out by (simp add: 3(1,4))
        have st: "staged app (k_root k) first stg0" using env(2) 2(2) mp(5) by (auto simp: closure_ok_def)
        note cw = committed_world(1,3) [OF st 2(3,4) env(1) 3(6), where salt = salt and att = att]
        have chain: "jw_chain w' = txns_chain L chain_genesis (ts @ [?t])"
          using 3(2,7) w(3) by (simp add: writer_ok_def)
        have "tx_last ?t = final" using cw(2) mp(1,2) by simp
        then have "root_ok L decode app genesis (ts @ [?t]) (k_root k')"
          using root_ok_snoc [OF _ 3(5) _ cw(1), of L genesis ts] k head(2) by (simp add: k' chain kernel_ok_def)
        moreover have "\<forall>g \<in> set gs'. fst g \<le> final + 1" using 3(3) mp(1,2) by fastforce
        then have "journal_ok L (ts @ [?t]) k'"
          unfolding journal_ok_def using 3(2,7) w(3,6) mp(1,2,4) n
          by (intro exI [of _ w'] exI [of _ gs']) (auto simp: k')
        ultimately show ?thesis by (auto simp: kernel_ok_def)
      qed
    qed
  qed
qed

section \<open>The durable kernel\<close>

abbreviation genesis_root :: "'w \<Rightarrow> ('w, bytes) committed" where
  "genesis_root genesis \<equiv> \<lparr>com_seq = 0, com_world = genesis, com_chain = chain_genesis\<rparr>"

text \<open>
  What a crash leaves of the segments: those at rest, those a rotation had left, or those with part
  of an append after them.
\<close>

definition crash_disk :: "io_plan \<Rightarrow> nat \<Rightarrow> bytes \<Rightarrow> writer \<Rightarrow> segment list" where
  "crash_disk plan first_seq torn w =
     (let (rotated, w) = maybe_rotate plan first_seq w
      in if rotated then seg_update (jw_file w) (\<lambda>bs. bs @ torn) (jw_segs w) else jw_segs w)"

text \<open>
  The kernels a session reaches from an empty directory, with the outcomes it acknowledged on the way:
  transactions under any plan, and crashes followed by an open.
\<close>

inductive durable :: "jlib \<Rightarrow> ('r \<Rightarrow> bytes option exec) \<Rightarrow> (bytes \<Rightarrow> 'r option) \<Rightarrow>
    (nat \<Rightarrow> 'w \<Rightarrow> 'r \<Rightarrow> 'w exec) \<Rightarrow> 'w \<Rightarrow> ('v, 'e) txn_out list \<Rightarrow> 'w kernel \<Rightarrow> bool"
  for L enc decode app genesis where
  fresh: "recover L decode app c (genesis_root genesis) [] = ok r \<Longrightarrow>
    durable L enc decode app genesis [] (kernel_of policy r)"
| txn: "durable L enc decode app genesis outs k \<Longrightarrow> closure_ok app f \<Longrightarrow> plan_ok plan \<Longrightarrow> att_ok att \<Longrightarrow>
    transact L app enc plan att f k = (out, k') \<Longrightarrow> durable L enc decode app genesis (outs @ [out]) k'"
| crash: "durable L enc decode app genesis outs k \<Longrightarrow> \<not> k_poisoned k \<Longrightarrow> k_journal k = Segments w \<Longrightarrow>
    tx_ok t \<Longrightarrow> torn_append L (com_chain (k_root k)) t torn \<Longrightarrow>
    recover L decode app c (genesis_root genesis)
      (crash_disk plan (high_water (k_sequencer k) + 1) torn w) = ok r \<Longrightarrow>
    durable L enc decode app genesis outs (kernel_of policy r)"

text \<open>The last position a session was told of.\<close>

definition last_ack :: "('v, 'e) txn_out list \<Rightarrow> nat" where
  "last_ack outs = foldl (\<lambda>a out. case out of Committed v n \<Rightarrow> n | _ \<Rightarrow> a) 0 outs"

lemma transact_root:
  assumes "transact L app enc plan att f k = (out, k')"
  shows "com_seq (k_root k') = (case out of Committed v n \<Rightarrow> n | _ \<Rightarrow> com_seq (k_root k))"
    and "\<forall>v n. out \<noteq> Committed v n \<Longrightarrow> k_root k' = k_root k"
  using assms by (auto simp: transact_def Let_def split: if_splits option.splits sum.splits prod.splits
      commit_fail.splits unwind_repair.splits)

lemma fresh_recover:
  "recover L decode app c (genesis_root genesis) [] =
     ok \<lparr>rec_root = genesis_root genesis, rec_segs = [\<lparr>seg_first = 1, seg_bytes = []\<rparr>],
         rec_floor = 0, rec_replayed = 0\<rparr>"
  by (simp add: recover_def first_sync_word_def scanned_above_def scan_def walk_def outcome_new_def tail_of_def
      halt_to_head_def halt_on_def fatal_run_def chain_verdict_def checked_add_def u64_max_def fold_to_def
      records_to_def scan_covers_def damaged_tail_of_def truncate_tail_def restored_high_water_def open_active_def
      Let_def)

lemma kept_ok:
  assumes "gs \<noteq> []" "groups_ok 0 gs" "fst (hd gs) = 1"
  shows "kept_groups gs \<noteq> []" "groups_ok 0 (kept_groups gs)" "txns_of (kept_groups gs) = txns_of gs"
    "fst (hd (kept_groups gs)) = 1" "set (kept_groups gs) \<subseteq> set gs"
    "\<forall>g \<in> set (kept_groups gs). fst g \<le> txns_head 0 (txns_of gs) + 1"
    "\<exists>rest. gs = kept_groups gs @ rest"
proof -
  obtain i where i: "i < length gs" "\<forall>j. i < j \<and> j < length gs \<longrightarrow> snd (gs ! j) = []"
    "kept_groups gs = take (i + 1) gs"
    using kept_at [OF assms(1), of undefined undefined] by blast
  have split: "gs = kept_groups gs @ drop (i + 1) gs" by (simp add: i(3))
  then show "\<exists>rest. gs = kept_groups gs @ rest" by blast
  show ne: "kept_groups gs \<noteq> []" using i(1,3) by auto
  show ok: "groups_ok 0 (kept_groups gs)" using assms(2) split groups_ok_prefix by metis
  have "snd g = []" if g: "g \<in> set (drop (i + 1) gs)" for g
  proof -
    obtain j where "j < length gs - (i + 1)" "g = gs ! (i + 1 + j)" using g by (auto simp: in_set_conv_nth)
    then show ?thesis using i(2) [rule_format, of "i + 1 + j"] by simp
  qed
  then have "txns_of (drop (i + 1) gs) = []" by simp
  then show txns: "txns_of (kept_groups gs) = txns_of gs"
    using arg_cong [OF split, of txns_of] by simp
  show hd: "fst (hd (kept_groups gs)) = 1" using assms(3) ne split by (metis hd_append2)
  show "set (kept_groups gs) \<subseteq> set gs" unfolding i(3) by (rule set_take_subset)
  show "\<forall>g \<in> set (kept_groups gs). fst g \<le> txns_head 0 (txns_of gs) + 1"
  proof (cases "\<exists>g \<in> set gs. snd g \<noteq> []")
    case False
    then have "dropWhile (\<lambda>g. snd g = []) (rev gs) = []" by simp
    then have "kept_groups gs = take 1 gs" by (simp add: kept_groups_def)
    then show ?thesis using hd ne by (cases gs) auto
  next
    case True
    let ?d = "dropWhile (\<lambda>g. snd g = []) (rev gs)"
    have d: "?d \<noteq> []" using True by auto
    then have "kept_groups gs = rev ?d" unfolding kept_groups_def Let_def by (metis rev_is_Nil_conv)
    moreover have "snd (last (rev ?d)) \<noteq> []"
      using hd_dropWhile [OF d] by (simp add: last_rev)
    ultimately obtain hs f ts where g: "kept_groups gs = hs @ [(f, ts)]" "ts \<noteq> []"
      using ne by (metis rev_exhaust surj_pair last_snoc snd_conv)
    have "f \<le> txns_head 0 (txns_of gs)" using txns_head_ge [OF ok, of f ts] g txns by simp
    moreover have "\<forall>x \<in> set hs. fst x < f" using groups_firsts [OF ok] g by (simp add: sorted_wrt_append)
    ultimately show ?thesis using g by fastforce
  qed
qed

text \<open>The kernel an open assembles over what it kept.\<close>

lemma reopened_ok:
  assumes root: "root_ok L decode app genesis (txns_of gs) root"
    and gs: "gs \<noteq> []" "groups_ok 0 gs" "fst (hd gs) = 1"
    and size: "\<forall>seg \<in> set (journal_segs L chain_genesis gs). length (seg_bytes seg) \<le> max_segment_len"
    and names: "\<forall>g \<in> set gs. fst g \<le> txns_head 0 (txns_of gs) + 1"
    and r: "rec_root r = root" "rec_segs r = journal_segs L chain_genesis gs" "rec_floor r = txns_head 0 (txns_of gs)"
  shows "kernel_ok L decode app genesis (txns_of gs) (kernel_of policy r)"
proof -
  obtain hs f ts where g: "gs = hs @ [(f, ts)]" using gs(1) by (metis rev_exhaust surj_pair)
  let ?segs = "journal_segs L chain_genesis gs"
  have len: "seg_len f ?segs = length (seg_bytes (last ?segs))" "seg_first (last ?segs) = f"
    using seg_len_last [where xs = "journal_segs L chain_genesis hs"
        and seg = "\<lparr>seg_first = f, seg_bytes = txns_bytes L (txns_chain L chain_genesis (txns_of hs)) ts\<rparr>"]
      groups_distinct [OF gs(2)]
    by (simp_all add: g journal_segs_snoc)
  have "writer_ok L gs \<lparr>jw_segs = ?segs, jw_file = seg_first (last ?segs),
      jw_len = length (seg_bytes (last ?segs)), jw_chain = com_chain root, jw_flight = Idle\<rparr>"
    using gs size root len by (simp add: writer_ok_def root_ok_def) (simp add: g)
  then show ?thesis
    using root names r by (auto simp: kernel_ok_def journal_ok_def kernel_of_def sequencer_recovered_def root_ok_def)
qed

lemma append_last_empty: "append_last segs [] = segs"
  by (cases segs rule: rev_cases) (simp_all add: append_last_snoc, simp add: append_last_def)

text \<open>What a crash leaves is a written journal with a torn append after it, so it is recovered.\<close>

lemma crash_disk_ok:
  assumes L: "jlib_ok L" and k: "kernel_ok L decode app genesis ts k" "\<not> k_poisoned k" "k_journal k = Segments w"
    and t: "tx_ok t" "torn_append L (com_chain (k_root k)) t torn"
  obtains gs x where "gs \<noteq> []" "groups_ok 0 gs" "fst (hd gs) = 1" "txns_of gs = ts"
    "torn_append L (txns_chain L chain_genesis (txns_of gs)) t x"
    "crash_disk plan (high_water (k_sequencer k) + 1) torn w = append_last (journal_segs L chain_genesis gs) x"
    "\<forall>seg \<in> set (append_last (journal_segs L chain_genesis gs) x). length (seg_bytes seg) \<le> max_segment_len"
    "\<forall>seg \<in> set (journal_segs L chain_genesis gs). length (seg_bytes seg) \<le> max_segment_len"
proof -
  let ?first = "high_water (k_sequencer k) + 1"
  obtain gs where w: "writer_ok L gs w" "txns_of gs = ts" "\<forall>g \<in> set gs. fst g \<le> ?first"
    "txns_head 0 (txns_of gs) < ?first"
    using k by (auto simp: kernel_ok_def journal_ok_def root_ok_def)
  have chain: "com_chain (k_root k) = txns_chain L chain_genesis ts" using k(1) by (simp add: kernel_ok_def root_ok_def)
  obtain b w1 where rot: "maybe_rotate plan ?first w = (b, w1)" by force
  obtain gs1 where g: "writer_ok L gs1 w1" "txns_of gs1 = ts" "b \<longrightarrow> active gs1 w1"
    using maybe_rotate_ok [OF w(1,3,4) rot] w(2) by blast
  note ok = g(1) [unfolded writer_ok_def]
  have same: "append_last (jw_segs w1) [] = jw_segs w1" by (rule append_last_empty)
  have sizes: "\<forall>seg \<in> set (jw_segs w1). length (seg_bytes seg) \<le> max_segment_len" using ok by blast
  have none: "torn_append L (txns_chain L chain_genesis (txns_of gs1)) t []"
    unfolding torn_append_def
    by (intro exI [of _ 0] exI [of _ "[]"]) (simp add: frame_bytes_def magic_def Let_def strict_prefix_def)
  show thesis
  proof (cases b)
    case True
    have "length torn \<le> max_crash_tail_bytes" by (rule length_torn [OF L t])
    then have "\<forall>seg \<in> set (append_last (jw_segs w1) torn). length (seg_bytes seg) \<le> max_segment_len"
      using append_fits [OF g(1)] g(3) True by blast
    moreover have "crash_disk plan ?first torn w = append_last (jw_segs w1) torn"
      using seg_update_active(1) [OF g(1)] g(3) True by (simp add: crash_disk_def rot del: One_nat_def)
    ultimately show thesis using that [of gs1 torn] ok g(2) t(2) chain sizes by auto
  next
    case False
    then have "crash_disk plan ?first torn w = append_last (jw_segs w1) []" by (simp add: crash_disk_def rot same del: One_nat_def)
    then show thesis using that [of gs1 "[]"] ok g(2) none sizes same by auto
  qed
qed

lemma crash_recovers:
  assumes L: "jlib_ok L" and k: "kernel_ok L decode app genesis ts k" "\<not> k_poisoned k" "k_journal k = Segments w"
    and t: "tx_ok t" "torn_append L (com_chain (k_root k)) t torn"
  shows "\<exists>r. recover L decode app c (genesis_root genesis)
      (crash_disk plan (high_water (k_sequencer k) + 1) torn w) = ok r \<and> rec_root r = k_root k \<and>
    kernel_ok L decode app genesis ts (kernel_of policy r)"
proof -
  obtain gs x where g: "gs \<noteq> []" "groups_ok 0 gs" "fst (hd gs) = 1" "txns_of gs = ts"
    "torn_append L (txns_chain L chain_genesis (txns_of gs)) t x"
    "crash_disk plan (high_water (k_sequencer k) + 1) torn w = append_last (journal_segs L chain_genesis gs) x"
    "\<forall>seg \<in> set (append_last (journal_segs L chain_genesis gs) x). length (seg_bytes seg) \<le> max_segment_len"
    "\<forall>seg \<in> set (journal_segs L chain_genesis gs). length (seg_bytes seg) \<le> max_segment_len"
    by (rule crash_disk_ok [OF L k t, where plan = plan])
  have root: "root_ok L decode app genesis (txns_of gs) (k_root k)" using k(1) g(4) by (simp add: kernel_ok_def)
  then have world: "exec_fold (fold_txn decode app) genesis (txns_of gs) = ret (com_world (k_root k))"
    by (simp add: root_ok_def)
  note kept = kept_ok [OF g(1-3)]
  obtain r where r: "recover L decode app c (genesis_root genesis)
      (append_last (journal_segs L chain_genesis gs) x) = ok r"
    "rec_root r = k_root k" "rec_segs r = journal_segs L chain_genesis (kept_groups gs)"
    "rec_floor r = txns_head 0 (txns_of gs)"
    using recover_written [OF L g(1,2) refl g(7) t(1) g(5) world, of c] root by (simp add: root_ok_def)
  obtain rest where "gs = kept_groups gs @ rest" using kept(7) by blast
  then have "set (journal_segs L chain_genesis (kept_groups gs)) \<subseteq> set (journal_segs L chain_genesis gs)"
    by (metis Un_upper1 journal_segs_append set_append)
  then have "kernel_ok L decode app genesis (txns_of (kept_groups gs)) (kernel_of policy r)"
    using root kept g(8) r
    by (intro reopened_ok [where root = "k_root k"]) (auto simp: kept(3))
  then show ?thesis using r kept(3) g(4,6) by auto
qed

lemma durable_ok:
  assumes "jlib_ok L" "codec_ok enc decode" "durable L enc decode app genesis outs k"
  shows "\<exists>ts. kernel_ok L decode app genesis ts k \<and> com_seq (k_root k) = last_ack outs"
  using assms(3)
proof (induction rule: durable.induct)
  case (fresh c r policy)
  have "root_ok L decode app genesis [] (genesis_root genesis)" by (simp add: root_ok_def)
  then have "kernel_ok L decode app genesis (txns_of [(1, [])]) (kernel_of policy r)"
    using fresh by (intro reopened_ok [where root = "genesis_root genesis"]) (auto simp: fresh_recover)
  moreover have "com_seq (k_root (kernel_of policy r)) = 0"
    using fresh by (auto simp: fresh_recover kernel_of_def)
  ultimately show ?case by (auto simp: last_ack_def)
next
  case (txn outs k f plan att out k')
  obtain ts where ts: "kernel_ok L decode app genesis ts k" "com_seq (k_root k) = last_ack outs"
    using txn.IH by blast
  have "last_ack (outs @ [out]) = com_seq (k_root k')"
    using transact_root(1) [OF txn.hyps(5)] ts(2) by (simp add: last_ack_def split: txn_out.split)
  then show ?case using transact_step [OF assms(1,2) txn.hyps(2-4) ts(1) txn.hyps(5)] by metis
next
  case (crash outs k w t torn c plan r policy)
  obtain ts where ts: "kernel_ok L decode app genesis ts k" "com_seq (k_root k) = last_ack outs"
    using crash.IH by blast
  from crash_recovers [OF assms(1) ts(1) crash.hyps(2-5), of c plan policy] crash.hyps(6)
  have "kernel_ok L decode app genesis ts (kernel_of policy r) \<and> rec_root r = k_root k" by auto
  then show ?case using ts(2) by (auto simp: kernel_of_def)
qed

section \<open>What a session is promised\<close>

lemma journal_bytes: "concat (map seg_bytes (journal_segs L prev gs)) = txns_bytes L prev (txns_of gs)"
  by (induction gs arbitrary: prev) (auto simp: txns_append)




section \<open>A session\<close>

definition log_world :: "nat \<Rightarrow> (nat \<times> bytes) list \<Rightarrow> bytes \<Rightarrow> (nat \<times> bytes) list exec" where
  "log_world at w r = ret (w @ [(at, r)])"

definition sample_enc :: "bytes \<Rightarrow> bytes option exec" where
  "sample_enc bs = ret (Some bs)"

definition sample_plan :: io_plan where
  "sample_plan = \<lparr>io_salt = Some (replicate 32 0), io_create = CreateOk, io_append = AppendOk,
     io_barrier = True, io_repair = RepairOk\<rparr>"

definition sample_closure :: "((nat \<times> bytes) list, bytes, nat, unit) closure" where
  "sample_closure stg = (case stg_push log_world stg [7] of
     None \<Rightarrow> panic
   | Some stg \<Rightarrow> (case stg_push log_world stg [8, 9] of None \<Rightarrow> panic | Some stg \<Rightarrow> ok (stg, 5)))"

definition sample_kernel :: "(nat \<times> bytes) list kernel" where
  "sample_kernel = kernel_of Rollback \<lparr>rec_root = genesis_root [],
     rec_segs = [\<lparr>seg_first = 1, seg_bytes = []\<rparr>], rec_floor = 0, rec_replayed = 0\<rparr>"

definition sample_session :: "(nat, unit) txn_out \<times> (nat \<times> bytes) list kernel" where
  "sample_session = transact fixint_lib log_world sample_enc sample_plan None sample_closure sample_kernel"

lemma sample_closure_ok: "closure_ok log_world sample_closure"
  unfolding closure_ok_def
proof (intro allI impI)
  fix base first and stg :: "((nat \<times> bytes) list, bytes, bytes) staging" and v
  assume "sample_closure (staging_new base first) = ok (stg, v)"
  then obtain stg1 where "stg_push log_world (staging_new base first) [7] = ret stg1"
    "stg_push log_world stg1 [8, 9] = ret stg"
    by (auto simp: sample_closure_def split: option.splits)
  then show "staged log_world base first stg" by (blast intro: staged.intros)
qed

lemma sample_session_eq:
  "\<exists>w. sample_session = (Committed 5 2, \<lparr>k_root = \<lparr>com_seq = 2, com_world = [(2, [7]), (2, [8, 9])],
       com_chain = tx_chain fixint_lib chain_genesis (sample_txn 1)\<rparr>, k_poisoned = False,
     k_sequencer = \<lparr>high_water = 2, seq_floor = 0, burned_seq = Rollback\<rparr>, k_journal = Segments w\<rparr>)"
proof -
  have enc: "encode_txn fixint_lib 1 [[7], [8, 9]] chain_genesis (replicate 32 0) None =
      ok (framed fixint_lib (tx_frames fixint_lib chain_genesis (sample_txn 1)),
          tx_chain fixint_lib chain_genesis (sample_txn 1))"
    using encode_txn_eq [OF fixint_ok sample_txn_ok [of 1], of chain_genesis] by (simp add: sample_txn_def)
  have mint: "sequencer_mint \<lparr>high_water = 0, seq_floor = 0, burned_seq = Rollback\<rparr> (Suc (Suc 0)) =
      Some ((1, 2), \<lparr>high_water = 2, seq_floor = 0, burned_seq = Rollback\<rparr>)"
    by (simp add: sequencer_mint_def checked_add_def u64_max_def)
  have recs: "\<exists>a. journal_records sample_enc [[7], [8, 9]] ([], marker_frame_len, False) = ok ([[7], [8, 9]], a, False)"
    by (simp add: sample_enc_def Let_def max_txn_bytes_def max_frame_len_def saturating_add_def marker_frame_len_def
      frame_len_def frame_header_len_def record_frame_len_def record_payload_len_def record_payload_overhead_def
      u64_max_def)
  have stage: "sample_closure (staging_new (genesis_root []) 1) = ok (\<lparr>stg_base_root = genesis_root [],
      stg_working = [(1, [7]), (2, [8, 9])], stg_records = [[7], [8, 9]], stg_first = 1\<rparr>, 5)"
    by (simp add: sample_closure_def stg_push_def staging_new_def log_world_def)
  have seal: "sealed log_world \<lparr>stg_base_root = genesis_root [],
      stg_working = [(1, [7]), (2, [8, 9])], stg_records = [[7], [8, 9]], stg_first = 1\<rparr> =
    ret \<lparr>stg_base_root = genesis_root [],
      stg_working = [(2, [7]), (2, [8, 9])], stg_records = [[7], [8, 9]], stg_first = 1\<rparr>"
    by (simp add: sealed_def log_world_def stg_base_def numeral_2_eq_2)
  have first: "saturating_add 0 1 = 1" by (simp add: saturating_add_def u64_max_def)
  obtain x w where jc: "journal_commit fixint_lib sample_enc sample_plan 1 [[7], [8, 9]] None (k_journal sample_kernel) =
      (ok (x, tx_chain fixint_lib chain_genesis (sample_txn 1)), Segments w)"
    using recs
    by (auto simp: sample_kernel_def kernel_of_def journal_commit_def writer_commit_def sample_plan_def enc
        maybe_rotate_def writer_append_def simp del: One_nat_def journal_records.simps)
  have k: "k_poisoned sample_kernel = False" "k_root sample_kernel = genesis_root []"
    "k_sequencer sample_kernel = \<lparr>high_water = 0, seq_floor = 0, burned_seq = Rollback\<rparr>"
    by (simp_all add: sample_kernel_def kernel_of_def sequencer_recovered_def)
  have upd: "k_root_update (\<lambda>_. c) (k_sequencer_update (\<lambda>_. a) (k_journal_update (\<lambda>_. b) sample_kernel)) =
      \<lparr>k_root = c, k_poisoned = False, k_sequencer = a, k_journal = b\<rparr>" for a b c
    by (simp add: sample_kernel_def kernel_of_def)
  have "sample_session = (Committed 5 2, k_root_update (\<lambda>_. \<lparr>com_seq = 2, com_world = [(2, [7]), (2, [8, 9])],
       com_chain = tx_chain fixint_lib chain_genesis (sample_txn 1)\<rparr>)
     (k_sequencer_update (\<lambda>_. \<lparr>high_water = 2, seq_floor = 0, burned_seq = Rollback\<rparr>)
       (k_journal_update (\<lambda>_. Segments w) sample_kernel)))"
    unfolding sample_session_def transact_def k sequencer.simps first stage
    by (simp add: seal mint jc Let_def k first stage del: One_nat_def)
  then show ?thesis unfolding upd by blast
qed

lemma sample_fields:
  "fst sample_session = Committed 5 2" "\<not> k_poisoned (snd sample_session)"
  "com_seq (k_root (snd sample_session)) = 2" "com_world (k_root (snd sample_session)) = [(2, [7]), (2, [8, 9])]"
  "high_water (k_sequencer (snd sample_session)) = 2" "\<exists>w. k_journal (snd sample_session) = Segments w"
proof -
  obtain w where s: "sample_session = (Committed 5 2, \<lparr>k_root = \<lparr>com_seq = 2, com_world = [(2, [7]), (2, [8, 9])],
       com_chain = tx_chain fixint_lib chain_genesis (sample_txn 1)\<rparr>, k_poisoned = False,
     k_sequencer = \<lparr>high_water = 2, seq_floor = 0, burned_seq = Rollback\<rparr>, k_journal = Segments w\<rparr>)"
    using sample_session_eq by blast
  show "fst sample_session = Committed 5 2" "\<not> k_poisoned (snd sample_session)"
    "com_seq (k_root (snd sample_session)) = 2" "com_world (k_root (snd sample_session)) = [(2, [7]), (2, [8, 9])]"
    "high_water (k_sequencer (snd sample_session)) = 2" "\<exists>w. k_journal (snd sample_session) = Segments w"
    by (simp_all add: s)
qed

text \<open>The session's transaction is acknowledged, and a crash in the next append loses nothing of it.\<close>

lemma sample_durable:
  "durable fixint_lib sample_enc Some log_world [] [fst sample_session] (snd sample_session)"
proof -
  have "durable fixint_lib sample_enc Some log_world [] ([] :: (nat, unit) txn_out list) sample_kernel"
    unfolding sample_kernel_def by (rule durable.fresh) (rule fresh_recover)
  moreover have "plan_ok sample_plan" by (simp add: plan_ok_def sample_plan_def)
  moreover have "att_ok None" by (simp add: att_ok_def)
  ultimately have "durable fixint_lib sample_enc Some log_world [] ([] @ [fst sample_session]) (snd sample_session)"
    by (intro durable.txn [where f = sample_closure and plan = sample_plan and att = None, OF _ sample_closure_ok])
       (simp_all add: sample_session_def)
  then show ?thesis by simp
qed

lemma sample_codec_ok: "codec_ok sample_enc Some"
  by (simp add: codec_ok_def sample_enc_def)




end
