(* ===== verification/Arrangement.thy ===== *)
theory Arrangement
  imports Run_Lists Namespace_Ops
begin

text \<open>
  The arrangement layer's slice (\<^verbatim>\<open>crates/skep-arrangement\<close>: \<^verbatim>\<open>vspace.rs\<close>, \<^verbatim>\<open>chain.rs\<close>, \<^verbatim>\<open>provenance.rs\<close>,
  \<^verbatim>\<open>state.rs\<close>, \<^verbatim>\<open>reads.rs\<close>, \<^verbatim>\<open>seat.rs\<close>): what every document arranges now, what it has ever contained,
  the facts noted beside them, the fold of its records and its reads.

  The maps that are read by key alone are HOL maps; the provenance relation is walked in document
  order and is a sorted list. \<open>vstream\<close> is the abstract state, the plain list of addresses of each
  document and the set of addresses it ever contained; the fold refines operations on it.
\<close>

section \<open>Positions and V-spans\<close>

record v_pos =
  vp_subspace :: nat
  vp_ordinal :: nat

definition VPos_content :: "nat \<Rightarrow> v_pos" where
  "VPos_content n = \<lparr>vp_subspace = content_subspace, vp_ordinal = n\<rparr>"

definition vpos_is_content :: "v_pos \<Rightarrow> bool" where
  "vpos_is_content p \<longleftrightarrow> vp_subspace p = content_subspace"

record vspec =
  vs_source :: address
  vs_span :: span

record ordinal_vspan =
  ov_subspace :: nat
  ov_ordinal :: nat
  ov_count :: nat

definition ov_is_content :: "ordinal_vspan \<Rightarrow> bool" where
  "ov_is_content v \<longleftrightarrow> ov_subspace v = content_subspace"

definition as_ordinal_vspan :: "span \<Rightarrow> ordinal_vspan option" where
  "as_ordinal_vspan s =
     (if tumbler_len (start s) \<noteq> 2 \<or> tumbler_len (width s) \<noteq> 2 \<or>
         \<not> (case tumbler_get (width s) 1 of None \<Rightarrow> False | Some w \<Rightarrow> nat_is_zero w) then None
      else do {
        a \<leftarrow> tumbler_get (start s) 1;
        b \<leftarrow> tumbler_get (start s) 2;
        c \<leftarrow> tumbler_get (width s) 2;
        Some \<lparr>ov_subspace = a, ov_ordinal = b, ov_count = c\<rparr> })"

definition is_ordinal_vspan :: "span \<Rightarrow> bool" where
  "is_ordinal_vspan s \<longleftrightarrow> as_ordinal_vspan s \<noteq> None"

definition mk_ordinal_vspan :: "v_pos \<Rightarrow> nat \<Rightarrow> span option exec" where
  "mk_ordinal_vspan at n =
     (if nat_is_zero n then ret None
      else do {
        s \<leftarrow> expect_ok (Tumbler_new [vp_subspace at, vp_ordinal at]);
        w \<leftarrow> expect_ok (Tumbler_new [0, n]);
        x \<leftarrow> expect_ok (Span_new s w);
        ret (Some x) })"

section \<open>Version chains\<close>

definition trunk_of :: "address \<Rightarrow> address exec" where
  "trunk_of a = do {
     f \<leftarrow> document_field a;
     (case (level a, f) of
        (Document, Some df) \<Rightarrow> do {
          versions \<leftarrow> nat_sub (length df) 1;
          (if versions = 0 then ret a
           else do {
             kept \<leftarrow> nat_sub (tumbler_len (tumbler a)) versions;
             t \<leftarrow> expect_ok (Tumbler_new (take kept (comps (tumbler a))));
             r \<leftarrow> validate t;
             expect_ok r }) }
      | _ \<Rightarrow> ret a) }"

definition trunk_head :: "m3_state \<Rightarrow> address \<Rightarrow> address option exec" where
  "trunk_head m3 d = do { t \<leftarrow> trunk_of d; latest_version m3 t }"

definition birth_version :: "m3_state \<Rightarrow> address \<Rightarrow> address option exec" where
  "birth_version m3 d = do {
     h \<leftarrow> trunk_head m3 d;
     (case h of
        None \<Rightarrow> ret None
      | Some _ \<Rightarrow> do { t \<leftarrow> trunk_of d; first_version_address t }) }"

definition is_birth_version :: "address \<Rightarrow> bool exec" where
  "is_birth_version d = do {
     trunk \<leftarrow> trunk_of d;
     (if trunk = d then ret False
      else do { f \<leftarrow> first_version_address trunk; ret (f = Some d) }) }"

definition published_target :: "m3_state \<Rightarrow> address \<Rightarrow> bool exec" where
  "published_target m3 d = do { t \<leftarrow> trunk_of d; ret (published m3 t) }"

definition reading_surface :: "m3_state \<Rightarrow> address \<Rightarrow> address exec" where
  "reading_surface m3 d = do {
     t \<leftarrow> trunk_of d;
     (if t \<noteq> d then ret d
      else do {
        p \<leftarrow> published_target m3 d;
        (if \<not> p then ret d
         else do { h \<leftarrow> trunk_head m3 d; ret (case h of Some v \<Rightarrow> v | None \<Rightarrow> d) }) }) }"

definition deposit_surface :: "m3_state \<Rightarrow> address \<Rightarrow> address exec" where
  "deposit_surface m3 d = do {
     p \<leftarrow> published_target m3 d;
     (if \<not> p then ret d
      else do {
        h \<leftarrow> trunk_head m3 d;
        (case h of Some v \<Rightarrow> ret v | None \<Rightarrow> trunk_of d) }) }"

section \<open>Provenance\<close>

datatype provenance = Provenance (recorded: "(address \<times> span list) list")

definition spans_of :: "provenance \<Rightarrow> address \<Rightarrow> span list" where
  "spans_of r d = (case amap_get (recorded r) d of None \<Rightarrow> [] | Some ss \<Rightarrow> ss)"

definition prov_append :: "provenance \<Rightarrow> address \<Rightarrow> run list \<Rightarrow> provenance exec" where
  "prov_append r d rs = do {
     xs \<leftarrow> exec_map iextent rs;
     ret (Provenance (amap_insert d (spans_of r d @ xs) (recorded r))) }"

definition ever_contained :: "provenance \<Rightarrow> address \<Rightarrow> span_set" where
  "ever_contained r d =
     (case amap_get (recorded r) d of Some ss \<Rightarrow> spanset_from_iter ss | None \<Rightarrow> spanset_empty)"

definition recorded_span_count :: "provenance \<Rightarrow> address \<Rightarrow> nat" where
  "recorded_span_count r d = length (spans_of r d)"

definition docs_ever_containing :: "provenance \<Rightarrow> span_set \<Rightarrow> address list exec" where
  "docs_ever_containing r cov = do {
     es \<leftarrow> exec_filter (\<lambda>(d, ss).
       exec_any (\<lambda>p. exec_any (\<lambda>c. do { x \<leftarrow> classify_spans p c; ret (x \<noteq> Separated) }) (spans cov)) ss)
       (recorded r);
     ret (map fst es) }"

text \<open>The decode door: every recorded span is level-uniform.\<close>

definition provenance_try_from :: "(address \<times> span list) list \<Rightarrow> (provenance, unit) result" where
  "provenance_try_from m =
     (if list_all (\<lambda>(d, ss). list_all is_level_uniform ss) m then Ok (Provenance m) else Err ())"

section \<open>The slice and its fold\<close>

record doc_arrangement =
  arr_content :: run_list
  arr_link :: run_list

definition empty_arrangement :: doc_arrangement where
  "empty_arrangement = \<lparr>arr_content = RunList [], arr_link = RunList []\<rparr>"

definition arr_list :: "doc_arrangement \<Rightarrow> nat \<Rightarrow> run_list option" where
  "arr_list a s =
     (if s = content_subspace then Some (arr_content a)
      else if s = link_subspace then Some (arr_link a)
      else None)"

record merge_terms =
  mt_sides :: "address list"
  mt_head :: address
  mt_head_copied :: nat

record marker = merge_terms +
  mk_at :: nat

definition merge_of :: "marker \<Rightarrow> merge_terms" where
  "merge_of m = merge_terms.truncate m"

definition stamped :: "merge_terms \<Rightarrow> nat \<Rightarrow> marker" where
  "stamped m at = merge_terms.extend m \<lparr>mk_at = at\<rparr>"

record draft_base =
  db_base :: address
  db_extent :: nat
  db_source :: address
  db_merge :: "marker option"

record shot_terms =
  st_placed :: nat
  st_base_extent :: "nat option"

datatype m5_rec =
    ContentPlace address nat "run list"
  | ContentRemove address nat nat
  | ContentReorder address "nat list"
  | LinkSeat address address
  | VersionSnapshot address address
  | ShotPlace address "run list" shot_terms "address option"
  | DraftBaseSet address address nat address "merge_terms option"

record m5_state =
  arrangements :: "address \<rightharpoonup> doc_arrangement"
  provenance :: provenance
  birth_extents :: "address \<rightharpoonup> nat"
  shot_terms_of :: "address \<rightharpoonup> shot_terms"
  fork_sources :: "address \<rightharpoonup> address"
  arranged_at :: "address \<rightharpoonup> nat"
  draft_bases :: "address \<rightharpoonup> draft_base"

definition m5_genesis :: m5_state where
  "m5_genesis = \<lparr>arrangements = Map.empty, provenance = Provenance [], birth_extents = Map.empty,
     shot_terms_of = Map.empty, fork_sources = Map.empty, arranged_at = Map.empty, draft_bases = Map.empty\<rparr>"

definition arrangement_of :: "m5_state \<Rightarrow> address \<Rightarrow> doc_arrangement" where
  "arrangement_of s d = (case arrangements s d of Some a \<Rightarrow> a | None \<Rightarrow> empty_arrangement)"

definition content_list :: "m5_state \<Rightarrow> address \<Rightarrow> run_list" where
  "content_list s d = arr_content (arrangement_of s d)"

definition link_list :: "m5_state \<Rightarrow> address \<Rightarrow> run_list" where
  "link_list s d = arr_link (arrangement_of s d)"

definition arrangements_with_content ::
    "m5_state \<Rightarrow> address \<Rightarrow> (run_list \<Rightarrow> run_list exec) \<Rightarrow> (address \<rightharpoonup> doc_arrangement) exec" where
  "arrangements_with_content s d f = do {
     l \<leftarrow> f (content_list s d);
     ret ((arrangements s)(d \<mapsto> (arrangement_of s d)\<lparr>arr_content := l\<rparr>)) }"

definition arrangements_with_link ::
    "m5_state \<Rightarrow> address \<Rightarrow> (run_list \<Rightarrow> run_list exec) \<Rightarrow> (address \<rightharpoonup> doc_arrangement) exec" where
  "arrangements_with_link s d f = do {
     l \<leftarrow> f (link_list s d);
     ret ((arrangements s)(d \<mapsto> (arrangement_of s d)\<lparr>arr_link := l\<rparr>)) }"

definition birth_extents_noting :: "m5_state \<Rightarrow> address \<Rightarrow> nat \<Rightarrow> (address \<rightharpoonup> nat) exec" where
  "birth_extents_noting s d born_with = do {
     b \<leftarrow> is_birth_version d;
     ret (if \<not> b \<or> birth_extents s d \<noteq> None then birth_extents s
          else (birth_extents s)(d \<mapsto> born_with)) }"

definition moved :: "m5_state \<Rightarrow> address \<Rightarrow> nat \<Rightarrow> (address \<rightharpoonup> nat)" where
  "moved s d at = (arranged_at s)(d \<mapsto> at)"

fun apply_m5 :: "nat \<Rightarrow> m5_state \<Rightarrow> m5_rec \<Rightarrow> m5_state exec" where
  "apply_m5 at s (ContentPlace d ord rs) = do {
     arr \<leftarrow> arrangements_with_content s d (\<lambda>c. splice_in c ord rs);
     r \<leftarrow> prov_append (provenance s) d rs;
     ret (s\<lparr>arrangements := arr, provenance := r, arranged_at := moved s d at\<rparr>) }"
| "apply_m5 at s (ContentRemove d from w) = do {
     arr \<leftarrow> arrangements_with_content s d (\<lambda>c. remove_range c from w);
     ret (s\<lparr>arrangements := arr, arranged_at := moved s d at\<rparr>) }"
| "apply_m5 at s (ContentReorder d cuts) = do {
     arr \<leftarrow> arrangements_with_content s d (\<lambda>c. reorder c cuts);
     ret (s\<lparr>arrangements := arr, arranged_at := moved s d at\<rparr>) }"
| "apply_m5 at s (LinkSeat d link) = do {
     r \<leftarrow> Run_new link 1;
     arr \<leftarrow> (case r of
               Inr seated \<Rightarrow> arrangements_with_link s d (\<lambda>l. rl_append l seated)
             | Inl _ \<Rightarrow> ret (arrangements s));
     ret (s\<lparr>arrangements := arr\<rparr>) }"
| "apply_m5 at s (VersionSnapshot source new) = do {
     let c = content_list s source;
     b \<leftarrow> birth_extents_noting s new (total_width c);
     let s' = s\<lparr>birth_extents := b, fork_sources := (fork_sources s)(new \<mapsto> source),
                arranged_at := moved s new at\<rparr>;
     (if rl_is_empty c then ret s'
      else do {
        r \<leftarrow> prov_append (provenance s) new (rl_runs c);
        ret (s'\<lparr>arrangements := (arrangements s)(new \<mapsto> \<lparr>arr_content = c, arr_link = RunList []\<rparr>),
                provenance := r\<rparr>) }) }"
| "apply_m5 at s (ShotPlace d rs terms draft) = do {
     c \<leftarrow> splice_in (content_list s d) 1 rs;
     b \<leftarrow> birth_extents_noting s d (total_width c);
     let db = (case draft of
                 Some dr \<Rightarrow> (draft_bases s)(dr \<mapsto>
                   \<lparr>db_base = d, db_extent = total_width c,
                    db_source = (case draft_bases s dr of None \<Rightarrow> d | Some x \<Rightarrow> db_source x),
                    db_merge = None\<rparr>)
               | None \<Rightarrow> draft_bases s);
     let s' = s\<lparr>birth_extents := b, shot_terms_of := (shot_terms_of s)(d \<mapsto> terms),
                arranged_at := moved s d at, draft_bases := db\<rparr>;
     (if rs = [] then ret s'
      else do {
        arr \<leftarrow> arrangements_with_content s d (\<lambda>_. ret c);
        r \<leftarrow> prov_append (provenance s) d rs;
        ret (s'\<lparr>arrangements := arr, provenance := r\<rparr>) }) }"
| "apply_m5 at s (DraftBaseSet draft base ext source mg) =
     ret (s\<lparr>draft_bases := (draft_bases s)(draft \<mapsto>
       \<lparr>db_base = base, db_extent = ext, db_source = source,
        db_merge = map_option (\<lambda>m. stamped m at) mg\<rparr>)\<rparr>)"

section \<open>Reads\<close>

definition resolve :: "m5_state \<Rightarrow> address \<Rightarrow> span \<Rightarrow> run list exec" where
  "resolve s d sp =
     (case as_ordinal_vspan sp of
        None \<Rightarrow> ret []
      | Some v \<Rightarrow>
          (case arr_list (arrangement_of s d) (ov_subspace v) of
             None \<Rightarrow> ret []
           | Some l \<Rightarrow> iter_resolve_range l (ov_ordinal v) (ov_count v)))"

definition m5_point :: "m5_state \<Rightarrow> address \<Rightarrow> v_pos \<Rightarrow> address option exec" where
  "m5_point s d p =
     (case arr_list (arrangement_of s d) (vp_subspace p) of
        None \<Rightarrow> ret None
      | Some l \<Rightarrow> point l (vp_ordinal p))"

definition content_count :: "m5_state \<Rightarrow> address \<Rightarrow> nat" where
  "content_count s d = total_width (content_list s d)"

definition link_count :: "m5_state \<Rightarrow> address \<Rightarrow> nat" where
  "link_count s d = total_width (link_list s d)"

definition content_run_count :: "m5_state \<Rightarrow> address \<Rightarrow> nat" where
  "content_run_count s d = run_count (content_list s d)"

definition admits_content_boundary :: "m5_state \<Rightarrow> address \<Rightarrow> nat \<Rightarrow> bool" where
  "admits_content_boundary s d ord \<longleftrightarrow> ord \<ge> 1 \<and> ord \<le> content_count s d + 1"

definition content_is_empty :: "m5_state \<Rightarrow> address \<Rightarrow> bool" where
  "content_is_empty s d = rl_is_empty (content_list s d)"

definition arranges_content_position :: "m5_state \<Rightarrow> address \<Rightarrow> nat \<Rightarrow> bool exec" where
  "arranges_content_position s d ord = do {
     x \<leftarrow> locate (content_list s d) ord;
     ret (x \<noteq> None) }"

definition names_fresh_content_position :: "m5_state \<Rightarrow> address \<Rightarrow> v_pos \<Rightarrow> bool" where
  "names_fresh_content_position s d at \<longleftrightarrow> vpos_is_content at \<and> vp_ordinal at > content_count s d"

definition contains_content_range :: "m5_state \<Rightarrow> address \<Rightarrow> nat \<Rightarrow> nat \<Rightarrow> bool" where
  "contains_content_range s d from w \<longleftrightarrow> from + w \<le> content_count s d + 1"

definition content_runs_past :: "m5_state \<Rightarrow> address \<Rightarrow> nat \<Rightarrow> run list exec" where
  "content_runs_past s d extent = iter_resolve_from (content_list s d) (extent + 1)"

definition seats_link :: "m5_state \<Rightarrow> address \<Rightarrow> address \<Rightarrow> bool exec" where
  "seats_link s d link = holds (link_list s d) link"

definition project_block :: "block \<Rightarrow> span \<Rightarrow> span list exec" where
  "project_block b cv = do {
     g \<leftarrow> offsets_covered_by (block_run b) cv;
     (case g of
        None \<Rightarrow> ret []
      | Some covered \<Rightarrow> do {
          w \<leftarrow> offset_width covered;
          x \<leftarrow> mk_ordinal_vspan (VPos_content (v_start b + lo covered)) w;
          x \<leftarrow> x;
          ret [x] }) }"

definition project :: "m5_state \<Rightarrow> address \<Rightarrow> span_set \<Rightarrow> span_set exec" where
  "project s d cov = do {
     xss \<leftarrow> exec_map (\<lambda>b. do { ys \<leftarrow> exec_map (project_block b) (spans cov); ret (concat ys) })
              (iter_blocks (content_list s d));
     r \<leftarrow> normalize (spanset_from_iter (concat xss));
     expect_ok r }"

definition arranges_any :: "m5_state \<Rightarrow> address \<Rightarrow> span_set \<Rightarrow> bool exec" where
  "arranges_any s d cov =
     exec_any (\<lambda>r. exec_any (\<lambda>c. do { g \<leftarrow> offsets_covered_by r c; ret (g \<noteq> None) }) (spans cov))
       (rl_runs (content_list s d))"

definition deletions :: "m5_state \<Rightarrow> address \<Rightarrow> span_set exec" where
  "deletions s d = do {
     im \<leftarrow> rl_image (content_list s d);
     let now = by_level_class im;
     exec_fold (\<lambda>out (len, ever). do {
         r \<leftarrow> difference_sets ever (case map_of now len of Some x \<Rightarrow> x | None \<Rightarrow> spanset_empty);
         deleted \<leftarrow> expect_ok r;
         ret (union out deleted) })
       spanset_empty (by_level_class (ever_contained (provenance s) d)) }"

section \<open>Seating a link\<close>

datatype seat_error = NotLinkAddress | NotHomeLink | AlreadySeated

definition stage_seat_link :: "m5_state \<Rightarrow> address \<Rightarrow> address \<Rightarrow> (m5_rec, seat_error) result exec" where
  "stage_seat_link s d link = do {
     adm \<leftarrow> admits_start link;
     sub \<leftarrow> (if adm then subspace link else ret None);
     (if \<not> adm \<or> sub \<noteq> Some link_subspace then err NotLinkAddress
      else do {
        home \<leftarrow> document_of link;
        (if home \<noteq> Some d then err NotHomeLink
         else do {
           seated \<leftarrow> seats_link s d link;
           (if seated then err AlreadySeated else ok (LinkSeat d link)) }) }) }"

end
