(* ===== verification/Arrangement_Laws.thy ===== *)
theory Arrangement_Laws
  imports Arrangement
begin

text \<open>
  What the arrangement layer's fold does (\<^verbatim>\<open>state.rs\<close>'s class invariants): the trunk of a document, the
  abstract state \<open>vstream\<close>, the provenance relation as the extents of legal runs, and the refinement of
  each record, one lemma per kind of change. The properties are stated over logs of legal records.
\<close>

section \<open>Version chains\<close>

text \<open>The document-level address cut back to one component of its document field.\<close>

definition trunk :: "address \<Rightarrow> address" where
  "trunk a = (if level a = Document
     then addr_of (take (tumbler_len (tumbler a) - (length (addr_fields a ! 2) - 1)) (comps (tumbler a)))
     else a)"

lemma trunk_eq:
  assumes "wf_address a"
  shows "trunk_of a = ret (trunk a)" "wf_address (trunk a)" "level (trunk a) = level a"
    "level a = Document \<Longrightarrow> addr_fields (trunk a) = take 2 (addr_fields a) @ [[hd (addr_fields a ! 2)]]"
proof -
  have *: "trunk_of a = ret (trunk a) \<and> wf_address (trunk a) \<and> level (trunk a) = level a \<and>
    (level a = Document \<longrightarrow> addr_fields (trunk a) = take 2 (addr_fields a) @ [[hd (addr_fields a ! 2)]])"
  proof (cases "level a = Document")
    case False
    then show ?thesis using assms
      by (cases "level a") (simp_all add: trunk_of_def trunk_def document_field_def field_eq split: option.splits)
  next
    case True
    then have "length (addr_fields a) = 3" using wf_address_level(3) [OF assms] by simp
    then obtain n u d where f: "addr_fields a = [n, u, d]"
      by (auto simp: numeral_3_eq_3 length_Suc_conv)
    have ne: "n \<noteq> []" "u \<noteq> []" "d \<noteq> []" "0 \<notin> set n" "0 \<notin> set u" "0 \<notin> set d"
      using wf_field_nonempty [OF assms] fields_zero_free [of _ a] f by simp_all
    then obtain c ds where d: "d = c # ds" by (cases d) auto
    have cs: "comps (tumbler a) = n @ 0 # u @ 0 # c # ds"
      using comps_join_fields [of a] f d by (simp add: join_zeros_Cons)
    let ?t = "n @ 0 # u @ [0, c]"
    have kept: "take (tumbler_len (tumbler a) - (length (addr_fields a ! 2) - 1)) (comps (tumbler a)) = ?t"
    proof -
      have "comps (tumbler a) = ?t @ ds" using cs by simp
      moreover from this have "tumbler_len (tumbler a) - (length (addr_fields a ! 2) - 1) = length ?t"
        using f d by (simp add: tumbler_len_def)
      ultimately show ?thesis by (simp only: take_append) simp
    qed
    have sp: "split_zeros ?t = [n, u, [c]]"
      using split_join_zeros [of "[n, u, [c]]"] ne d by (simp add: join_zeros_Cons)
    have T4: "T4 ?t" using ne d T4_iff_fields [of ?t] sp by simp
    have tr: "trunk a = addr_of ?t" using True kept by (simp add: trunk_def)
    have wf: "wf_address (trunk a)" using tr T4 by (simp add: wf_addr_of)
    have fs: "addr_fields (trunk a) = [n, u, [c]]" using tr sp by (simp add: addr_fields_def)
    have lv: "level (trunk a) = Document" using wf_address_level(3) [OF wf] fs by simp
    have "trunk_of a = ret (trunk a)"
    proof (cases "ds = []")
      case True
      then have "trunk a = a" using tr cs addr_of_comps [OF assms] by simp
      then show ?thesis using \<open>level a = Document\<close> f d True assms
        by (simp add: trunk_of_def document_field_def field_eq)
    next
      case False
      have "length ds \<le> tumbler_len (tumbler a)" using cs by (simp add: tumbler_len_def)
      moreover have "take (tumbler_len (tumbler a) - length ds) (comps (tumbler a)) = ?t"
        using kept f d by simp
      moreover have "Tumbler_new ?t = Ok (tumbler_of ?t)" by simp
      then have new: "expect_ok (Tumbler_new ?t) = ret (tumbler_of ?t)" by (simp only: expect_ok.simps)
      ultimately show ?thesis using True f d False assms validate_addr_of [OF T4] tr
        by (simp add: trunk_of_def document_field_def field_eq new)
    qed
    then show ?thesis using wf fs lv f d True by (simp add: numeral_2_eq_2)
  qed
  then show "trunk_of a = ret (trunk a)" "wf_address (trunk a)" "level (trunk a) = level a"
    "level a = Document \<Longrightarrow> addr_fields (trunk a) = take 2 (addr_fields a) @ [[hd (addr_fields a ! 2)]]"
    by simp_all
qed


lemma birth_version_returns:
  assumes "wf_address d"
  shows "is_birth_version d = ret (level d = Document \<and> trunk d \<noteq> d \<and>
    addr_of (chain (version_ns (trunk d)) 1) = d)"
proof -
  note t = trunk_eq [OF assms]
  show ?thesis
  proof (cases "level d = Document")
    case True
    then have "wf_key (version_ns (trunk d))" using wf_doc_keys(3) t(2,3) by simp
    then show ?thesis using True t
      by (auto simp: is_birth_version_def first_version_address_def first_in_eq)
  next
    case False
    then show ?thesis using t by (simp add: is_birth_version_def trunk_def)
  qed
qed

lemma birth_extents_noting_returns:
  "wf_address d \<Longrightarrow> \<exists>b. birth_extents_noting s d n = ret b \<and> birth_extents s \<subseteq>\<^sub>m b"
  by (auto simp: birth_extents_noting_def birth_version_returns map_le_def)

section \<open>The abstract state\<close>

definition arranged :: "m5_state \<Rightarrow> address \<Rightarrow> address list" where
  "arranged s d = rl_elems (content_list s d)"

definition seated :: "m5_state \<Rightarrow> address \<Rightarrow> address list" where
  "seated s d = rl_elems (link_list s d)"

definition ever :: "m5_state \<Rightarrow> address \<Rightarrow> address set" where
  "ever s d = {a. full_pos a \<and> tumbler a \<in> den_list (spans_of (provenance s) d)}"

record vstream =
  vm_content :: "address \<Rightarrow> address list"
  vm_links :: "address \<Rightarrow> address list"
  vm_ever :: "address \<Rightarrow> address set"

definition vstream_of :: "m5_state \<Rightarrow> vstream" where
  "vstream_of s = \<lparr>vm_content = arranged s, vm_links = seated s,
     vm_ever = (\<lambda>d. if wf_address d then ever s d else {})\<rparr>"

definition place :: "nat \<Rightarrow> 'a list \<Rightarrow> 'a list \<Rightarrow> 'a list" where
  "place ord ys xs = take (ord - 1) xs @ ys @ drop (ord - 1) xs"

definition vm_place :: "address \<Rightarrow> nat \<Rightarrow> address list \<Rightarrow> vstream \<Rightarrow> vstream" where
  "vm_place d ord as v = v\<lparr>vm_content := (vm_content v)(d := place ord as (vm_content v d)),
     vm_ever := (vm_ever v)(d := vm_ever v d \<union> set as)\<rparr>"

fun vstream_step :: "m5_rec \<Rightarrow> vstream \<Rightarrow> vstream" where
  "vstream_step (ContentPlace d ord rs) v = vm_place d ord (flat rs) v"
| "vstream_step (ContentRemove d from w) v = v\<lparr>vm_content := (vm_content v)(d :=
     take (from - 1) (vm_content v d) @ drop (from - 1 + w) (vm_content v d))\<rparr>"
| "vstream_step (ContentReorder d cuts) v =
     v\<lparr>vm_content := (vm_content v)(d := seq_reorder (vm_content v d) cuts)\<rparr>"
| "vstream_step (LinkSeat d link) v =
     (if full_pos link then v\<lparr>vm_links := (vm_links v)(d := vm_links v d @ [link])\<rparr> else v)"
| "vstream_step (VersionSnapshot source new) v =
     (if vm_content v source = [] then v
      else v\<lparr>vm_content := (vm_content v)(new := vm_content v source),
             vm_links := (vm_links v)(new := []),
             vm_ever := (vm_ever v)(new := vm_ever v new \<union> set (vm_content v source))\<rparr>)"
| "vstream_step (ShotPlace d rs terms draft) v = vm_place d 1 (flat rs) v"
| "vstream_step (DraftBaseSet draft base ext source mg) v = v"

section \<open>The provenance relation\<close>

lemma amap_entry_insert:
  "amap_entry (amap_insert k v m) a = (if tumbler k = tumbler a then Some (k, v) else amap_entry m a)"
  by (induction k v m rule: amap_insert.induct) auto

lemma amap_get_insert [simp]:
  "amap_get (amap_insert k v m) a = (if tumbler k = tumbler a then Some v else amap_get m a)"
  by (simp add: amap_get_def amap_entry_insert)

lemma amap_insert_subset: "set (amap_insert k v m) \<subseteq> insert (k, v) (set m)"
  by (induction k v m rule: amap_insert.induct) auto

lemma amap_insert_sorts:
  assumes "amap_sorted m"
  shows "amap_sorted (amap_insert k v m)"
  using assms
proof (induction m)
  case (Cons e m)
  obtain k' v' where e: "e = (k', v')" by (cases e)
  have ih: "amap_sorted (amap_insert k v m)" and
    below: "\<forall>f \<in> set m. tumbler k' < akey f" using Cons e by (auto simp: amap_sorted_def)
  then have "tumbler k' < tumbler k \<Longrightarrow> \<forall>f \<in> set (amap_insert k v m). tumbler k' < akey f"
    using amap_insert_subset [of k v m] by auto
  then show ?case using ih below Cons.prems e
    by (auto simp: amap_sorted_def not_less_iff_gr_or_eq intro: less_trans)
qed (simp add: amap_sorted_def)

definition inv_prov :: "provenance \<Rightarrow> bool" where
  "inv_prov r \<longleftrightarrow> amap_sorted (recorded r) \<and>
     (\<forall>(d, ss) \<in> set (recorded r). wf_address d \<and> (\<exists>rs. wf_runs rs \<and> ss = map iextent_of rs))"

lemma den_runs:
  "wf_runs rs \<Longrightarrow> full_pos a \<Longrightarrow> tumbler a \<in> den_list (map iextent_of rs) \<longleftrightarrow> a \<in> set (flat rs)"
  by (induction rs) (auto simp: iextent_full_pos)

lemma exec_map_iextent: "wf_runs rs \<Longrightarrow> exec_map iextent rs = ret (map iextent_of rs)"
  by (intro exec_map_ret iextent_of_props(1)) (simp add: wf_runs_def)

lemma spans_of_runs:
  assumes "inv_prov r"
  obtains rs where "wf_runs rs" "spans_of r d = map iextent_of rs"
proof (cases "amap_get (recorded r) d")
  case None
  then show thesis using that [of "[]"] by (simp add: spans_of_def)
next
  case (Some ss)
  then obtain k where "(k, ss) \<in> set (recorded r)"
    by (auto simp: amap_get_def dest: amap_entry_SomeD)
  then obtain rs where "wf_runs rs" "ss = map iextent_of rs" using assms by (auto simp: inv_prov_def)
  then show thesis using that Some by (simp add: spans_of_def)
qed

lemma prov_append_spec:
  assumes "inv_prov r" "wf_address d" "wf_runs rs"
  obtains r' where "prov_append r d rs = ret r'" "inv_prov r'"
    "\<And>b. spans_of r' b = (if tumbler b = tumbler d then spans_of r d @ map iextent_of rs else spans_of r b)"
proof -
  let ?r = "Provenance (amap_insert d (spans_of r d @ map iextent_of rs) (recorded r))"
  let ?P = "\<lambda>(b, ss). wf_address b \<and> (\<exists>us. wf_runs us \<and> ss = map iextent_of us)"
  obtain qs where qs: "wf_runs qs" "spans_of r d = map iextent_of qs"
    by (rule spans_of_runs [OF assms(1)])
  then have "wf_runs (qs @ rs) \<and> spans_of r d @ map iextent_of rs = map iextent_of (qs @ rs)"
    using assms(3) by simp
  then have "\<exists>us. wf_runs us \<and> spans_of r d @ map iextent_of rs = map iextent_of us" by blast
  then have all: "\<forall>e \<in> insert (d, spans_of r d @ map iextent_of rs) (set (recorded r)). ?P e"
    using assms(1,2) by (simp add: inv_prov_def)
  have "\<forall>e \<in> set (recorded ?r). ?P e"
  proof
    fix e assume "e \<in> set (recorded ?r)"
    then have "e \<in> insert (d, spans_of r d @ map iextent_of rs) (set (recorded r))"
      using subsetD [OF amap_insert_subset] by simp
    then show "?P e" by (rule bspec [OF all])
  qed
  then have "inv_prov ?r" using assms(1) by (simp add: inv_prov_def amap_insert_sorts)
  moreover have "prov_append r d rs = ret ?r"
    by (simp add: prov_append_def exec_map_iextent [OF assms(3)])
  ultimately show thesis using that [of ?r] by (simp add: spans_of_def)
qed

text \<open>What an append does to the set of addresses a document has ever contained.\<close>

lemma ever_append:
  assumes "wf_runs rs" "wf_address d" "provenance s' = r'"
    and "\<And>b. spans_of r' b = (if tumbler b = tumbler d then spans_of (provenance s) d @ map iextent_of rs
      else spans_of (provenance s) b)"
  shows "(\<lambda>b. if wf_address b then ever s' b else {}) =
    (\<lambda>b. if wf_address b then ever s b else {})(d := ever s d \<union> set (flat rs))"
proof
  fix b
  have full: "full_pos a" if "a \<in> set (flat rs)" for a
    using that assms(1) run_addrs_full by (auto simp: flat_def wf_runs_def)
  have "spans_of r' b = spans_of (provenance s) b" if "b \<noteq> d" "wf_address b"
    using that assms(2,4) wf_address_eqI by auto
  moreover have "ever s' d = ever s d \<union> set (flat rs)"
    using full den_runs [OF assms(1)] by (auto simp: ever_def assms(3,4))
  ultimately show "(if wf_address b then ever s' b else {}) =
    ((\<lambda>b. if wf_address b then ever s b else {})(d := ever s d \<union> set (flat rs))) b"
    using assms(2,3) by (auto simp: ever_def)
qed


section \<open>The fold refines the abstract state\<close>

definition m5_inv :: "m5_state \<Rightarrow> bool" where
  "m5_inv s \<longleftrightarrow>
     (\<forall>d. rl_inv (content_list s d) \<and> rl_inv (link_list s d)) \<and> inv_prov (provenance s) \<and>
     (\<forall>d. wf_address d \<longrightarrow> set (arranged s d) \<subseteq> ever s d)"

fun wf_m5_rec :: "m5_rec \<Rightarrow> bool" where
  "wf_m5_rec (ContentPlace d ord rs) \<longleftrightarrow> wf_address d \<and> wf_runs rs"
| "wf_m5_rec (ContentRemove d from w) \<longleftrightarrow> wf_address d"
| "wf_m5_rec (ContentReorder d cuts) \<longleftrightarrow> wf_address d"
| "wf_m5_rec (LinkSeat d link) \<longleftrightarrow> wf_address d \<and> wf_address link"
| "wf_m5_rec (VersionSnapshot source new) \<longleftrightarrow> wf_address source \<and> wf_address new"
| "wf_m5_rec (ShotPlace d rs terms draft) \<longleftrightarrow> wf_address d \<and> wf_runs rs"
| "wf_m5_rec (DraftBaseSet draft base ext source mg) \<longleftrightarrow> wf_address draft"

lemma rl_inv_Nil [simp]: "rl_inv (RunList [])" "rl_elems (RunList []) = []"
  by (simp_all add: rl_inv_def rl_elems_def merged_def)

lemma m5_invD:
  assumes "m5_inv s"
  shows "rl_inv (content_list s d)" "rl_inv (link_list s d)" "inv_prov (provenance s)"
    "wf_address d \<Longrightarrow> set (arranged s d) \<subseteq> ever s d"
  using assms by (simp_all add: m5_inv_def)

text \<open>How the two writers of the arrangements map change what the documents arrange.\<close>

lemma content_list_update [simp]:
  "arrangements s' = (arrangements s)(d \<mapsto> (arrangement_of s d)\<lparr>arr_content := l\<rparr>) \<Longrightarrow>
     content_list s' b = (if b = d then l else content_list s b) \<and> link_list s' b = link_list s b"
  by (simp add: content_list_def link_list_def arrangement_of_def)

lemma link_list_update [simp]:
  "arrangements s' = (arrangements s)(d \<mapsto> (arrangement_of s d)\<lparr>arr_link := l\<rparr>) \<Longrightarrow>
     link_list s' b = (if b = d then l else link_list s b) \<and> content_list s' b = content_list s b"
  by (simp add: content_list_def link_list_def arrangement_of_def)

lemma lists_by:
  "arrangements s' = arrangements s \<Longrightarrow> content_list s' b = content_list s b \<and> link_list s' b = link_list s b"
  by (simp add: content_list_def link_list_def arrangement_of_def)

text \<open>A change of the content lists and the relation that keeps present containment recorded.\<close>

lemma refines:
  assumes "m5_inv s" "\<And>b. rl_inv (content_list s' b) \<and> rl_inv (link_list s' b)" "inv_prov (provenance s')"
    and "vstream_of s' = v" "\<And>b. wf_address b \<Longrightarrow> set (vm_content v b) \<subseteq> vm_ever v b"
  shows "m5_inv s' \<and> vstream_of s' = v"
proof -
  have "set (arranged s' b) \<subseteq> ever s' b" if "wf_address b" for b
    using assms(5) [OF that] that by (auto simp: vstream_of_def simp flip: assms(4))
  then show ?thesis using assms(2-4) by (simp add: m5_inv_def)
qed


lemma vstream_sel [simp]:
  "vm_content (vstream_of s) = arranged s" "vm_links (vstream_of s) = seated s"
  "vm_ever (vstream_of s) d = (if wf_address d then ever s d else {})"
  by (simp_all add: vstream_of_def)

lemma fold_place:
  assumes inv: "m5_inv s" and d: "wf_address d" "wf_runs rs"
    and c: "splice_in (content_list s d) ord rs = ret c"
    and arr: "arrangements s' = (arrangements s)(d \<mapsto> (arrangement_of s d)\<lparr>arr_content := c\<rparr>)"
    and r: "prov_append (provenance s) d rs = ret (provenance s')"
  shows "m5_inv s' \<and> vstream_of s' = vm_place d ord (flat rs) (vstream_of s)"
proof (rule refines [OF inv])
  note u = content_list_update [OF arr]
  obtain m where m: "splice_in (content_list s d) ord rs = ret m" "rl_inv m"
    "rl_elems m = take (ord - 1) (rl_elems (content_list s d)) @ flat rs @
       drop (ord - 1) (rl_elems (content_list s d))"
    by (rule splice_in_spec [OF m5_invD(1) [OF inv] d(2)])
  then have c': "rl_inv c" "rl_elems c = place ord (flat rs) (arranged s d)"
    using c by (simp_all add: place_def arranged_def)
  show "rl_inv (content_list s' b) \<and> rl_inv (link_list s' b)" for b
    using u c'(1) m5_invD(1,2) [OF inv] by simp
  obtain r' where r': "prov_append (provenance s) d rs = ret r'" "inv_prov r'"
    "\<And>b. spans_of r' b = (if tumbler b = tumbler d then spans_of (provenance s) d @ map iextent_of rs
       else spans_of (provenance s) b)"
    using prov_append_spec [OF m5_invD(3) [OF inv] d] by blast
  then have eq: "provenance s' = r'" using r by simp
  then show "inv_prov (provenance s')" using r'(2) by simp
  have "arranged s' = (arranged s)(d := place ord (flat rs) (arranged s d))"
    using u c'(2) by (simp add: arranged_def fun_eq_iff)
  moreover have "seated s' = seated s" using u by (simp add: seated_def fun_eq_iff)
  ultimately show "vstream_of s' = vm_place d ord (flat rs) (vstream_of s)"
    using ever_append [OF d(2,1) eq r'(3)] d(1) by (simp add: vstream_of_def vm_place_def)
  show "set (vm_content (vm_place d ord (flat rs) (vstream_of s)) b)
      \<subseteq> vm_ever (vm_place d ord (flat rs) (vstream_of s)) b" if "wf_address b" for b
    using m5_invD(4) [OF inv] that d(1)
    by (auto simp: vm_place_def place_def dest: in_set_takeD in_set_dropD)
qed

text \<open>An edit that places nothing new.\<close>

lemma fold_edit:
  assumes inv: "m5_inv s" and c: "rl_inv c" "set (rl_elems c) \<subseteq> set (arranged s d)"
    and arr: "arrangements s' = (arrangements s)(d \<mapsto> (arrangement_of s d)\<lparr>arr_content := c\<rparr>)"
    and r: "provenance s' = provenance s"
  shows "m5_inv s' \<and> vstream_of s' = (vstream_of s)\<lparr>vm_content := (arranged s)(d := rl_elems c)\<rparr>"
proof (rule refines [OF inv])
  note u = content_list_update [OF arr]
  show "rl_inv (content_list s' b) \<and> rl_inv (link_list s' b)" for b
    using u c(1) m5_invD(1,2) [OF inv] by simp
  show "inv_prov (provenance s')" using r m5_invD(3) [OF inv] by simp
  have "arranged s' = (arranged s)(d := rl_elems c)" using u by (simp add: arranged_def fun_eq_iff)
  moreover have "seated s' = seated s" using u by (simp add: seated_def fun_eq_iff)
  moreover have "ever s' = ever s" by (simp add: ever_def fun_eq_iff r)
  ultimately show "vstream_of s' = (vstream_of s)\<lparr>vm_content := (arranged s)(d := rl_elems c)\<rparr>"
    by (simp add: vstream_of_def cong: if_cong)
  show "set (vm_content ((vstream_of s)\<lparr>vm_content := (arranged s)(d := rl_elems c)\<rparr>) b)
      \<subseteq> vm_ever ((vstream_of s)\<lparr>vm_content := (arranged s)(d := rl_elems c)\<rparr>) b" if "wf_address b" for b
    using m5_invD(4) [OF inv that] c(2) that by auto
qed

lemma fold_notes:
  assumes inv: "m5_inv s" and "arrangements s' = arrangements s" "provenance s' = provenance s"
  shows "m5_inv s' \<and> vstream_of s' = vstream_of s"
proof -
  have "content_list s' = content_list s" "link_list s' = link_list s"
    using lists_by [OF assms(2)] by auto
  moreover from this have "arranged s' = arranged s" "seated s' = seated s"
    by (simp_all add: arranged_def seated_def fun_eq_iff)
  moreover have "ever s' = ever s" by (simp add: ever_def fun_eq_iff assms(3))
  ultimately show ?thesis using inv assms(3) by (simp add: m5_inv_def vstream_of_def cong: if_cong)
qed

lemma splice_in_Nil: "rl_inv c \<Longrightarrow> splice_in c ord [] = ret c"
  using splice_in_spec [of c "[]" ord] rl_canonical by (metis append_Nil append_take_drop_id flat_simps(1) wf_runs_simps(1))


lemma seat_run:
  assumes "wf_address link"
  shows "Run_new link 1 = ret (if full_pos link then Ok \<lparr>i_start = link, run_width = 1\<rparr>
    else Err NotAnElementPosition)"
  using assms by (simp add: Run_new_def nat_is_zero_def admits_start_eq)

lemma fold_seat:
  assumes inv: "m5_inv s" and l: "rl_inv l" "rl_elems l = seated s d @ [link]"
    and arr: "arrangements s' = (arrangements s)(d \<mapsto> (arrangement_of s d)\<lparr>arr_link := l\<rparr>)"
    and r: "provenance s' = provenance s"
  shows "m5_inv s' \<and> vstream_of s' = (vstream_of s)\<lparr>vm_links := (seated s)(d := seated s d @ [link])\<rparr>"
proof (rule refines [OF inv])
  note u = link_list_update [OF arr]
  show "rl_inv (content_list s' b) \<and> rl_inv (link_list s' b)" for b
    using u l(1) m5_invD(1,2) [OF inv] by simp
  show "inv_prov (provenance s')" using r m5_invD(3) [OF inv] by simp
  have "seated s' = (seated s)(d := seated s d @ [link])" using u l(2) by (simp add: seated_def fun_eq_iff)
  moreover have "arranged s' = arranged s" using u by (simp add: arranged_def fun_eq_iff)
  moreover have "ever s' = ever s" by (simp add: ever_def fun_eq_iff r)
  ultimately show "vstream_of s' = (vstream_of s)\<lparr>vm_links := (seated s)(d := seated s d @ [link])\<rparr>"
    by (simp add: vstream_of_def cong: if_cong)
  show "set (vm_content ((vstream_of s)\<lparr>vm_links := (seated s)(d := seated s d @ [link])\<rparr>) b)
      \<subseteq> vm_ever ((vstream_of s)\<lparr>vm_links := (seated s)(d := seated s d @ [link])\<rparr>) b" if "wf_address b" for b
    using m5_invD(4) [OF inv that] that by simp
qed

lemma fold_snapshot:
  assumes inv: "m5_inv s" and d: "wf_address d" and c: "c = content_list s source"
    and arr: "arrangements s' = (arrangements s)(d \<mapsto> \<lparr>arr_content = c, arr_link = RunList []\<rparr>)"
    and r: "prov_append (provenance s) d (rl_runs c) = ret (provenance s')"
  shows "m5_inv s' \<and> vstream_of s' = (vstream_of s)\<lparr>vm_content := (arranged s)(d := arranged s source),
    vm_links := (seated s)(d := []),
    vm_ever := (vm_ever (vstream_of s))(d := ever s d \<union> set (arranged s source))\<rparr>" (is "_ \<and> _ = ?v")
proof (rule refines [OF inv])
  have u: "content_list s' b = (if b = d then c else content_list s b)"
    "link_list s' b = (if b = d then RunList [] else link_list s b)" for b
    using arr by (simp_all add: content_list_def link_list_def arrangement_of_def)
  show "rl_inv (content_list s' b) \<and> rl_inv (link_list s' b)" for b
    using u c m5_invD(1,2) [OF inv] by simp
  have wf: "wf_runs (rl_runs c)" using c rl_inv_wf m5_invD(1) [OF inv] by simp
  obtain r' where r': "prov_append (provenance s) d (rl_runs c) = ret r'" "inv_prov r'"
    "\<And>b. spans_of r' b = (if tumbler b = tumbler d then spans_of (provenance s) d @ map iextent_of (rl_runs c)
       else spans_of (provenance s) b)"
    using prov_append_spec [OF m5_invD(3) [OF inv] d wf] by blast
  then have eq: "provenance s' = r'" using r by simp
  then show "inv_prov (provenance s')" using r'(2) by simp
  have "arranged s' = (arranged s)(d := arranged s source)"
    using u c by (simp add: arranged_def fun_eq_iff)
  moreover have "seated s' = (seated s)(d := [])" using u by (simp add: seated_def fun_eq_iff)
  moreover have "flat (rl_runs c) = arranged s source" using c by (simp add: arranged_def rl_elems_def)
  ultimately show "vstream_of s' = ?v"
    using ever_append [OF wf d eq r'(3)] by (simp add: vstream_of_def)
  show "set (vm_content ?v b) \<subseteq> vm_ever ?v b" if "wf_address b" for b
    using m5_invD(4) [OF inv that] that by auto
qed


lemma set_seq_reorder: "set (seq_reorder xs cuts) = set xs"
  by (metis mset_seq_reorder set_mset_mset)

lemma apply_m5_step:
  assumes inv: "m5_inv s" and wf: "wf_m5_rec r"
  shows "\<exists>s'. apply_m5 at s r = ret s' \<and> m5_inv s' \<and> vstream_of s' = vstream_step r (vstream_of s)"
proof (cases r)
  case (ContentPlace d ord rs)
  then have d: "wf_address d" "wf_runs rs" using wf by simp_all
  obtain c where c: "splice_in (content_list s d) ord rs = ret c"
    using splice_in_spec [OF m5_invD(1) [OF inv] d(2)] by metis
  obtain q where q: "prov_append (provenance s) d rs = ret q"
    using prov_append_spec [OF m5_invD(3) [OF inv] d] by metis
  let ?s = "s\<lparr>arrangements := (arrangements s)(d \<mapsto> (arrangement_of s d)\<lparr>arr_content := c\<rparr>),
              provenance := q, arranged_at := moved s d at\<rparr>"
  have "apply_m5 at s r = ret ?s" using ContentPlace c q by (simp add: arrangements_with_content_def)
  moreover have "m5_inv ?s \<and> vstream_of ?s = vm_place d ord (flat rs) (vstream_of s)"
    by (rule fold_place [OF inv d c]) (simp_all add: q)
  ultimately show ?thesis using ContentPlace by simp
next
  case (ContentRemove d frm w)
  obtain c where c: "remove_range (content_list s d) frm w = ret c" "rl_inv c"
    "rl_elems c = take (frm - 1) (arranged s d) @ drop (frm - 1 + w) (arranged s d)"
    using remove_range_spec [OF m5_invD(1) [OF inv], of d frm w] by (metis arranged_def)
  let ?s = "s\<lparr>arrangements := (arrangements s)(d \<mapsto> (arrangement_of s d)\<lparr>arr_content := c\<rparr>),
              arranged_at := moved s d at\<rparr>"
  have "apply_m5 at s r = ret ?s" using ContentRemove c(1) by (simp add: arrangements_with_content_def)
  moreover have "m5_inv ?s \<and> vstream_of ?s = (vstream_of s)\<lparr>vm_content := (arranged s)(d := rl_elems c)\<rparr>"
    by (rule fold_edit [OF inv c(2)]) (simp_all add: c(3) set_take_subset set_drop_subset)
  ultimately show ?thesis using ContentRemove c(3) by simp
next
  case (ContentReorder d cuts)
  obtain c where c: "reorder (content_list s d) cuts = ret c" "rl_inv c"
    "rl_elems c = seq_reorder (arranged s d) cuts"
    using reorder_spec [OF m5_invD(1) [OF inv], of d cuts] by (metis arranged_def)
  let ?s = "s\<lparr>arrangements := (arrangements s)(d \<mapsto> (arrangement_of s d)\<lparr>arr_content := c\<rparr>),
              arranged_at := moved s d at\<rparr>"
  have "apply_m5 at s r = ret ?s" using ContentReorder c(1) by (simp add: arrangements_with_content_def)
  moreover have "m5_inv ?s \<and> vstream_of ?s = (vstream_of s)\<lparr>vm_content := (arranged s)(d := rl_elems c)\<rparr>"
    by (rule fold_edit [OF inv c(2)]) (simp_all add: c(3) set_seq_reorder)
  ultimately show ?thesis using ContentReorder c(3) by simp
next
  case (LinkSeat d link)
  show ?thesis
  proof (cases "full_pos link")
    case False
    have "apply_m5 at s r = ret s" using LinkSeat False wf by (simp add: seat_run del: One_nat_def)
    then show ?thesis using LinkSeat False inv by simp
  next
    case True
    then have "wf_run \<lparr>i_start = link, run_width = 1\<rparr>" by (simp add: wf_run_def)
    then obtain l where l: "rl_append (link_list s d) \<lparr>i_start = link, run_width = 1\<rparr> = ret l" "rl_inv l"
      "rl_elems l = rl_elems (link_list s d) @ run_addrs \<lparr>i_start = link, run_width = 1\<rparr>"
      by (rule append_spec [OF m5_invD(2) [OF inv]])
    have le: "rl_elems l = seated s d @ [link]" using l(3) True by (simp add: seated_def run_addrs_def)
    let ?s = "s\<lparr>arrangements := (arrangements s)(d \<mapsto> (arrangement_of s d)\<lparr>arr_link := l\<rparr>)\<rparr>"
    have "apply_m5 at s r = ret ?s" using LinkSeat True wf l(1)
      by (simp add: seat_run arrangements_with_link_def del: One_nat_def)
    moreover have "m5_inv ?s \<and> vstream_of ?s = (vstream_of s)\<lparr>vm_links := (seated s)(d := seated s d @ [link])\<rparr>"
      by (rule fold_seat [OF inv l(2) le]) simp_all
    ultimately show ?thesis using LinkSeat True by simp
  qed
next
  case (VersionSnapshot source new)
  let ?c = "content_list s source"
  obtain b where b: "birth_extents_noting s new (total_width ?c) = ret b"
    using birth_extents_noting_returns wf VersionSnapshot by fastforce
  let ?s = "s\<lparr>birth_extents := b, fork_sources := (fork_sources s)(new \<mapsto> source), arranged_at := moved s new at\<rparr>"
  have nil: "rl_is_empty ?c \<longleftrightarrow> arranged s source = []"
  proof -
    have "flat rs = [] \<longleftrightarrow> rs = []" if "wf_runs rs" for rs
      using that by (cases rs) simp_all
    then show ?thesis using rl_inv_wf [OF m5_invD(1) [OF inv], of source]
      by (simp add: rl_is_empty_def arranged_def rl_elems_def)
  qed
  show ?thesis
  proof (cases "rl_is_empty ?c")
    case True
    have "apply_m5 at s r = ret ?s" using VersionSnapshot b True by simp
    then show ?thesis using VersionSnapshot True nil fold_notes [OF inv, of ?s] by simp
  next
    case False
    have "wf_runs (rl_runs ?c)" by (rule rl_inv_wf [OF m5_invD(1) [OF inv]])
    then obtain q where q: "prov_append (provenance s) new (rl_runs ?c) = ret q"
      using prov_append_spec [OF m5_invD(3) [OF inv]] wf VersionSnapshot by (metis wf_m5_rec.simps(5))
    let ?s' = "?s\<lparr>arrangements := (arrangements s)(new \<mapsto> \<lparr>arr_content = ?c, arr_link = RunList []\<rparr>), provenance := q\<rparr>"
    have "apply_m5 at s r = ret ?s'" using VersionSnapshot b False q by simp
    moreover have "m5_inv ?s' \<and> vstream_of ?s' = (vstream_of s)\<lparr>vm_content := (arranged s)(new := arranged s source),
        vm_links := (seated s)(new := []),
        vm_ever := (vm_ever (vstream_of s))(new := ever s new \<union> set (arranged s source))\<rparr>"
      using wf VersionSnapshot by (intro fold_snapshot [OF inv _ refl]) (simp_all add: q)
    ultimately show ?thesis using VersionSnapshot False nil wf by simp
  qed
next
  case (ShotPlace d rs terms draft)
  then have d: "wf_address d" "wf_runs rs" using wf by simp_all
  obtain c where c: "splice_in (content_list s d) 1 rs = ret c"
    using splice_in_spec [OF m5_invD(1) [OF inv] d(2)] by metis
  obtain b where b: "birth_extents_noting s d (total_width c) = ret b"
    using birth_extents_noting_returns [OF d(1)] by metis
  obtain q where q: "prov_append (provenance s) d rs = ret q"
    using prov_append_spec [OF m5_invD(3) [OF inv] d] by metis
  define db where "db = (case draft of
                 Some dr \<Rightarrow> (draft_bases s)(dr \<mapsto>
                   \<lparr>db_base = d, db_extent = total_width c,
                    db_source = (case draft_bases s dr of None \<Rightarrow> d | Some x \<Rightarrow> db_source x),
                    db_merge = None\<rparr>)
               | None \<Rightarrow> draft_bases s)"
  let ?s = "s\<lparr>birth_extents := b, shot_terms_of := (shot_terms_of s)(d \<mapsto> terms),
                arranged_at := moved s d at, draft_bases := db\<rparr>"
  show ?thesis
  proof (cases "rs = []")
    case True
    have "apply_m5 at s r = ret ?s" using ShotPlace b c True by (simp add: db_def)
    moreover have "vm_place d 1 (flat rs) (vstream_of s) = vstream_of s"
      using True d(1) by (simp add: vm_place_def place_def vstream_of_def fun_upd_idem)
    ultimately show ?thesis using ShotPlace fold_notes [OF inv, of ?s] by simp
  next
    case False
    let ?s' = "?s\<lparr>arrangements := (arrangements s)(d \<mapsto> (arrangement_of s d)\<lparr>arr_content := c\<rparr>), provenance := q\<rparr>"
    have "apply_m5 at s r = ret ?s'"
      using ShotPlace b c q False by (simp add: db_def arrangements_with_content_def)
    moreover have "m5_inv ?s' \<and> vstream_of ?s' = vm_place d 1 (flat rs) (vstream_of s)"
      by (rule fold_place [OF inv d c]) (simp_all add: q)
    ultimately show ?thesis using ShotPlace by simp
  qed
next
  case (DraftBaseSet draft base ext source mg)
  let ?s = "s\<lparr>draft_bases := (draft_bases s)(draft \<mapsto>
    \<lparr>db_base = base, db_extent = ext, db_source = source, db_merge = map_option (\<lambda>m. stamped m at) mg\<rparr>)\<rparr>"
  have "m5_inv ?s \<and> vstream_of ?s = vstream_of s" by (rule fold_notes [OF inv]) simp_all
  then show ?thesis using DraftBaseSet by simp
qed

section \<open>Replaying a log\<close>

definition wf_m5_log :: "(nat \<times> m5_rec) list \<Rightarrow> bool" where
  "wf_m5_log log \<longleftrightarrow> (\<forall>e \<in> set log. wf_m5_rec (snd e))"

lemma wf_m5_log_snoc [simp]: "wf_m5_log (log @ [e]) \<longleftrightarrow> wf_m5_log log \<and> wf_m5_rec (snd e)" "wf_m5_log []"
  by (auto simp: wf_m5_log_def)

definition m5_replay :: "(nat \<times> m5_rec) list \<Rightarrow> m5_state exec" where
  "m5_replay log = exec_fold (\<lambda>s (at, r). apply_m5 at s r) m5_genesis log"

definition vstream_empty :: vstream where
  "vstream_empty = \<lparr>vm_content = (\<lambda>_. []), vm_links = (\<lambda>_. []), vm_ever = (\<lambda>_. {})\<rparr>"

definition vstream_run :: "(nat \<times> m5_rec) list \<Rightarrow> vstream" where
  "vstream_run log = foldl (\<lambda>v (at, r). vstream_step r v) vstream_empty log"

lemma genesis_lists [simp]: "content_list m5_genesis d = RunList []" "link_list m5_genesis d = RunList []"
  "spans_of (provenance m5_genesis) d = []"
  by (simp_all add: content_list_def link_list_def arrangement_of_def m5_genesis_def empty_arrangement_def
      spans_of_def amap_get_def)

lemma m5_genesis_inv: "m5_inv m5_genesis" "vstream_of m5_genesis = vstream_empty"
proof -
  have "arranged m5_genesis = (\<lambda>_. [])" "seated m5_genesis = (\<lambda>_. [])" "ever m5_genesis = (\<lambda>_. {})"
    by (simp_all add: arranged_def seated_def ever_def fun_eq_iff)
  moreover have "inv_prov (provenance m5_genesis)" by (simp add: m5_genesis_def inv_prov_def amap_sorted_def)
  ultimately show "m5_inv m5_genesis" "vstream_of m5_genesis = vstream_empty"
    by (simp_all add: m5_inv_def vstream_of_def vstream_empty_def cong: if_cong)
qed

lemma m5_replay_step:
  assumes "wf_m5_log log"
  shows "\<exists>s. m5_replay log = ret s \<and> m5_inv s \<and> vstream_of s = vstream_run log"
  using assms
proof (induction log rule: rev_induct)
  case Nil
  then show ?case by (simp add: m5_replay_def vstream_run_def m5_genesis_inv)
next
  case (snoc e log)
  obtain at r where e: "e = (at, r)" by (cases e)
  obtain s where s: "m5_replay log = ret s" "m5_inv s" "vstream_of s = vstream_run log"
    using snoc by auto
  obtain s' where "apply_m5 at s r = ret s'" "m5_inv s'" "vstream_of s' = vstream_step r (vstream_of s)"
    using apply_m5_step [OF s(2)] snoc.prems e by fastforce
  then show ?case using s e by (simp add: m5_replay_def vstream_run_def exec_fold_append)
qed

text \<open>What a document has ever contained is what it arranged at some point of its history.\<close>

lemma set_place [simp]: "set (place ord ys xs) = set ys \<union> set xs"
proof -
  have "set (take (ord - 1) xs) \<union> set (drop (ord - 1) xs) = set xs"
    by (metis append_take_drop_id set_append)
  then show ?thesis unfolding place_def set_append by blast
qed

lemma vstream_step_ever:
  assumes "wf_m5_rec r" "set (vm_content v d) \<subseteq> vm_ever v d"
  shows "vm_ever (vstream_step r v) d = vm_ever v d \<union> set (vm_content (vstream_step r v) d)"
proof (cases r)
  case (ContentRemove b frm w)
  then show ?thesis using assms(2)
    by (auto simp del: One_nat_def dest: in_set_takeD in_set_dropD)
qed (use assms(2) in \<open>auto simp: vm_place_def set_seq_reorder\<close>)

lemma vstream_run_ever:
  assumes "wf_m5_log log" "wf_address d"
  shows "vm_ever (vstream_run log) d = (\<Union>p \<in> {p. prefix p log}. set (vm_content (vstream_run p) d))"
  using assms(1)
proof (induction log rule: rev_induct)
  case Nil
  then show ?case by (simp add: vstream_run_def vstream_empty_def)
next
  case (snoc e log)
  obtain at r where e: "e = (at, r)" by (cases e)
  have wf: "wf_m5_log log" using snoc.prems by simp
  obtain s where "m5_inv s" "vstream_of s = vstream_run log"
    using m5_replay_step [OF wf] by blast
  then have "set (vm_content (vstream_run log) d) \<subseteq> vm_ever (vstream_run log) d"
    using m5_invD(4) [of s d] assms(2) by (simp flip: \<open>vstream_of s = vstream_run log\<close>)
  then have "vm_ever (vstream_run (log @ [e])) d =
      vm_ever (vstream_run log) d \<union> set (vm_content (vstream_run (log @ [e])) d)"
    using vstream_step_ever [of r "vstream_run log" d] snoc.prems e by (simp add: vstream_run_def)
  moreover have "{p. prefix p (log @ [e])} = insert (log @ [e]) {p. prefix p log}" by auto
  ultimately show ?case using snoc by auto
qed


lemma m5_replay_unique:
  assumes "wf_m5_log log" "m5_replay log = ret s"
  shows "m5_inv s" "vstream_of s = vstream_run log"
  using m5_replay_step [OF assms(1)] assms(2) by auto

lemma ever_full: "a \<in> ever s d \<Longrightarrow> full_pos a"
  by (simp add: ever_def)

lemma ever_history:
  assumes "wf_m5_log log" "m5_replay log = ret s" "wf_address d"
  shows "a \<in> ever s d \<longleftrightarrow> (\<exists>p t. prefix p log \<and> m5_replay p = ret t \<and> a \<in> set (arranged t d))"
proof -
  have "ever s d = vm_ever (vstream_run log) d"
    using assms(3) by (simp flip: m5_replay_unique(2) [OF assms(1,2)])
  also have "\<dots> = (\<Union>p \<in> {p. prefix p log}. set (vm_content (vstream_run p) d))"
    by (rule vstream_run_ever [OF assms(1,3)])
  finally have "a \<in> ever s d \<longleftrightarrow> (\<exists>p. prefix p log \<and> a \<in> set (vm_content (vstream_run p) d))" by blast
  moreover have "\<exists>t. m5_replay p = ret t \<and> vm_content (vstream_run p) d = arranged t d" if "prefix p log" for p
  proof -
    have "wf_m5_log p" using that assms(1) by (auto simp: wf_m5_log_def prefix_def)
    then show ?thesis using m5_replay_step [of p] by (metis vstream_sel(1))
  qed
  ultimately show ?thesis by (metis option.inject)
qed


section \<open>The notes\<close>

text \<open>The document whose content arrangement a record changes, and the fork and the shot it notes.\<close>

fun changes :: "m5_rec \<Rightarrow> address option" where
  "changes (ContentPlace d ord rs) = Some d"
| "changes (ContentRemove d from w) = Some d"
| "changes (ContentReorder d cuts) = Some d"
| "changes (LinkSeat d link) = None"
| "changes (VersionSnapshot source new) = Some new"
| "changes (ShotPlace d rs terms draft) = Some d"
| "changes (DraftBaseSet draft base ext source mg) = None"

fun forks :: "m5_rec \<Rightarrow> (address \<times> address) option" where
  "forks (VersionSnapshot source new) = Some (new, source)"
| "forks _ = None"

fun shoots :: "m5_rec \<Rightarrow> (address \<times> shot_terms) option" where
  "shoots (ShotPlace d rs terms draft) = Some (d, terms)"
| "shoots _ = None"

text \<open>The map of the last note a log takes at each address.\<close>

definition last_notes :: "('e \<Rightarrow> ('k \<times> 'v) option) \<Rightarrow> 'e list \<Rightarrow> ('k \<rightharpoonup> 'v)" where
  "last_notes f log = map_of (rev (List.map_filter f log))"

lemma last_notes_snoc [simp]:
  "last_notes f [] = Map.empty"
  "last_notes f (log @ [e]) = (case f e of None \<Rightarrow> last_notes f log | Some (k, v) \<Rightarrow> (last_notes f log)(k \<mapsto> v))"
  by (auto simp: last_notes_def List.map_filter_def split: option.split)

lemma birth_noting:
  assumes "birth_extents_noting s d n = ret b"
  shows "birth_extents s \<subseteq>\<^sub>m b \<and> (\<forall>x. b x \<noteq> None \<longrightarrow> birth_extents s x \<noteq> None \<or> is_birth_version x = ret True)"
  using assms by (auto simp: birth_extents_noting_def map_le_def split: if_splits Option.bind_splits)

lemma apply_m5_notes:
  assumes "apply_m5 at s r = ret s'"
  shows "arranged_at s' = (case changes r of None \<Rightarrow> arranged_at s | Some d \<Rightarrow> (arranged_at s)(d \<mapsto> at))"
    "fork_sources s' = (case forks r of None \<Rightarrow> fork_sources s | Some (n, d) \<Rightarrow> (fork_sources s)(n \<mapsto> d))"
    "shot_terms_of s' = (case shoots r of None \<Rightarrow> shot_terms_of s | Some (d, t) \<Rightarrow> (shot_terms_of s)(d \<mapsto> t))"
    "birth_extents s \<subseteq>\<^sub>m birth_extents s'"
    "\<forall>x. birth_extents s' x \<noteq> None \<longrightarrow> birth_extents s x \<noteq> None \<or> is_birth_version x = ret True"
  using assms
  by (cases r; auto simp: moved_def Let_def split: Option.bind_splits if_splits sum.splits dest: birth_noting)+


lemma apply_m5_replay:
  assumes "m5_replay (log @ [e]) = ret s'"
  obtains s where "m5_replay log = ret s" "apply_m5 (fst e) s (snd e) = ret s'"
  using assms by (auto simp: m5_replay_def exec_fold_append case_prod_unfold split: Option.bind_splits)

lemma replay_notes:
  assumes "m5_replay log = ret s"
  shows "arranged_at s = last_notes (\<lambda>(at, r). map_option (\<lambda>d. (d, at)) (changes r)) log"
    "fork_sources s = last_notes (\<lambda>(at, r). forks r) log"
    "shot_terms_of s = last_notes (\<lambda>(at, r). shoots r) log"
    "\<forall>x. birth_extents s x \<noteq> None \<longrightarrow> is_birth_version x = ret True"
proof -
  have "arranged_at s = last_notes (\<lambda>(at, r). map_option (\<lambda>d. (d, at)) (changes r)) log \<and>
    fork_sources s = last_notes (\<lambda>(at, r). forks r) log \<and>
    shot_terms_of s = last_notes (\<lambda>(at, r). shoots r) log \<and>
    (\<forall>x. birth_extents s x \<noteq> None \<longrightarrow> is_birth_version x = ret True)"
    using assms
  proof (induction log arbitrary: s rule: rev_induct)
    case Nil
    then show ?case by (auto simp: m5_replay_def m5_genesis_def)
  next
    case (snoc e log)
    obtain t where t: "m5_replay log = ret t" "apply_m5 (fst e) t (snd e) = ret s"
      using snoc.prems by (rule apply_m5_replay)
    note n = apply_m5_notes [OF t(2)] and ih = snoc.IH [OF t(1)]
    show ?case using n(1-3) ih n(5)
      by (cases e) (auto split: option.splits)
  qed
  then show "arranged_at s = last_notes (\<lambda>(at, r). map_option (\<lambda>d. (d, at)) (changes r)) log"
    "fork_sources s = last_notes (\<lambda>(at, r). forks r) log"
    "shot_terms_of s = last_notes (\<lambda>(at, r). shoots r) log"
    "\<forall>x. birth_extents s x \<noteq> None \<longrightarrow> is_birth_version x = ret True" by simp_all
qed

lemma birth_fixed:
  assumes "m5_replay (log @ later) = ret s'"
  shows "\<exists>s. m5_replay log = ret s \<and> birth_extents s \<subseteq>\<^sub>m birth_extents s'"
  using assms
proof (induction later arbitrary: s' rule: rev_induct)
  case (snoc e later)
  then have "m5_replay ((log @ later) @ [e]) = ret s'" by simp
  then obtain t where t: "m5_replay (log @ later) = ret t" "apply_m5 (fst e) t (snd e) = ret s'"
    by (rule apply_m5_replay)
  then show ?case using snoc.IH [OF t(1)] apply_m5_notes(4) [OF t(2)] map_le_trans by blast
qed simp

section \<open>Properties\<close>

text \<open>A document, a place in it, a removal and a fork of it.\<close>

definition sample_m5_log :: "(nat \<times> m5_rec) list" where
  "sample_m5_log = [(1, ContentPlace sample_doc 1 sample_runs), (2, ContentRemove sample_doc 2 3),
     (3, VersionSnapshot sample_doc (addr_of [1, 0, 2, 0, 4]))]"

lemma wf_sample_log [simp]: "wf_m5_log sample_m5_log"
  by (simp add: wf_m5_log_def sample_m5_log_def wf_addr_of T4_unfold)

text \<open>
  C35: The fold of the arrangement records refines plain lists and sets. A log of legal records replays
  from genesis without a panic; the last record does to the address lists and history sets exactly its
  abstract operation, on the document it names and no other; every run list stays maximally merged; and
  what a document arranges is always among what it has ever contained.
\<close>

theorem m5_fold_refines:
  assumes "wf_m5_log (log @ [(at, r)])"
  shows "\<exists>s s'. m5_replay log = ret s \<and> m5_replay (log @ [(at, r)]) = ret s' \<and>
    vstream_of s' = vstream_step r (vstream_of s) \<and>
    (\<forall>d. rl_inv (content_list s' d) \<and> rl_inv (link_list s' d)) \<and>
    (\<forall>d. wf_address d \<longrightarrow> set (arranged s' d) \<subseteq> ever s' d)"
proof -
  obtain s where s: "m5_replay log = ret s" "m5_inv s" using m5_replay_step [of log] assms by auto
  obtain s' where s': "apply_m5 at s r = ret s'" "m5_inv s'" "vstream_of s' = vstream_step r (vstream_of s)"
    using apply_m5_step [OF s(2), of r "at"] assms by auto
  have "m5_replay (log @ [(at, r)]) = ret s'" using s(1) s'(1) by (simp add: m5_replay_def exec_fold_append)
  then show ?thesis using s(1) s'(2,3) by (auto simp: m5_inv_def)
qed

theorem m5_fold_refines_witness:
  "\<exists>s s'. m5_replay (butlast sample_m5_log) = ret s \<and> m5_replay sample_m5_log = ret s' \<and>
     vstream_of s' = vstream_step (snd (last sample_m5_log)) (vstream_of s)"
proof -
  have e: "sample_m5_log = butlast sample_m5_log @ [(fst (last sample_m5_log), snd (last sample_m5_log))]"
    by (simp add: sample_m5_log_def)
  then have "wf_m5_log (butlast sample_m5_log @ [(fst (last sample_m5_log), snd (last sample_m5_log))])"
    using wf_sample_log by simp
  from m5_fold_refines [OF this] show ?thesis using e by metis
qed

text \<open>
  C36: Provenance is the history, no more and no less. After a log of legal records the spans recorded for
  a document hold a full element address exactly when the document arranged that address after some
  prefix of the log.
\<close>

theorem ever_contained_exact:
  assumes "wf_m5_log log" "m5_replay log = ret s" "wf_address d" "full_pos a"
  shows "denotes (ever_contained (provenance s) d) (tumbler a) =
    ret (\<exists>p t. prefix p log \<and> m5_replay p = ret t \<and> a \<in> set (arranged t d))"
proof -
  obtain rs where rs: "wf_runs rs" "spans_of (provenance s) d = map iextent_of rs"
    by (rule spans_of_runs [OF m5_invD(3) [OF m5_replay_unique(1) [OF assms(1,2)]]])
  have "ever_contained (provenance s) d = SpanSet (spans_of (provenance s) d)"
    by (simp add: ever_contained_def spans_of_def spanset_from_iter_def spanset_empty_def split: option.split)
  moreover have "wf_set (SpanSet (spans_of (provenance s) d))"
    using rs by (auto simp: wf_set_def wf_runs_def iextent_of_props(2))
  ultimately have "denotes (ever_contained (provenance s) d) (tumbler a) = ret (a \<in> ever s d)"
    using assms(4) by (simp add: denotes_eq ever_def)
  then show ?thesis using ever_history [OF assms(1-3)] by simp
qed

theorem ever_contained_exact_witness:
  "\<exists>s. m5_replay sample_m5_log = ret s \<and> denotes (ever_contained (provenance s) sample_doc) (tumbler sample_elem) =
     ret (\<exists>p t. prefix p sample_m5_log \<and> m5_replay p = ret t \<and> sample_elem \<in> set (arranged t sample_doc))"
proof -
  obtain s where s: "m5_replay sample_m5_log = ret s" using m5_replay_step [OF wf_sample_log] by blast
  show ?thesis using s ever_contained_exact [OF wf_sample_log s wf_samples(2) full_pos_sample] by blast
qed



end
