(* ===== verification/Arrangement_Reads.thy ===== *)
theory Arrangement_Reads
  imports Arrangement_Laws
begin

text \<open>
  What the arrangement layer's reads answer (\<^verbatim>\<open>vspace.rs\<close>, \<^verbatim>\<open>reads.rs\<close>): the V-spans of a block, the
  projection of a coverage onto positions, the deleted set by length class, and the candidate documents
  of a history query.
\<close>

section \<open>Ordinal V-spans\<close>

definition vspan_of :: "nat \<Rightarrow> nat \<Rightarrow> nat \<Rightarrow> span" where
  "vspan_of s ord n = \<lparr>start = tumbler_of [s, ord], width = tumbler_of [0, n]\<rparr>"

lemma vspan_props:
  assumes "0 < n"
  shows "at_level 2 (vspan_of s ord n)" "reach_of (vspan_of s ord n) = tumbler_of [s, ord + n]"
    "tumbler_of [s, k] \<in> den (vspan_of s ord n) \<longleftrightarrow> ord \<le> k \<and> k < ord + n"
proof -
  have ap: "action_point (tumbler_of [0, n]) = Some 2"
    using assms by (simp add: action_point_def nat_is_zero_def)
  then have dom: "add_domain (tumbler_of [s, ord]) (tumbler_of [0, n]) = Ok 2"
    by (simp add: add_domain_def tumbler_len_def)
  then show "at_level 2 (vspan_of s ord n)"
    by (simp add: at_level_def vspan_of_def wf_span_def tumbler_len_def)
  show r: "reach_of (vspan_of s ord n) = tumbler_of [s, ord + n]"
    using ap by (simp add: reach_of_def vspan_of_def oplus_def tumbler_eq_iff)
  show "tumbler_of [s, k] \<in> den (vspan_of s ord n) \<longleftrightarrow> ord \<le> k \<and> k < ord + n"
    unfolding den_def r by (auto simp: vspan_of_def less_eq_tumbler_def less_tumbler_def)
qed

lemma mk_ordinal_vspan_eq:
  "mk_ordinal_vspan p n = ret (if n = 0 then None else Some (vspan_of (vp_subspace p) (vp_ordinal p) n))"
proof (cases "n = 0")
  case False
  have "Span_new (tumbler_of [vp_subspace p, vp_ordinal p]) (tumbler_of [0, n]) =
      Ok (vspan_of (vp_subspace p) (vp_ordinal p) n)"
    using at_level_wf [OF vspan_props(1) [of n]] False
    by (simp add: Span_new_Ok_iff) (simp add: vspan_of_def)
  then have s: "expect_ok (Span_new (tumbler_of [vp_subspace p, vp_ordinal p]) (tumbler_of [0, n])) =
      ret (vspan_of (vp_subspace p) (vp_ordinal p) n)" by (simp only: expect_ok.simps)
  have t: "tumbler_of [x, y] = Tumbler x [y]" for x y by (simp add: tumbler_of_def)
  show ?thesis using False s by (simp add: mk_ordinal_vspan_def nat_is_zero_def t)
qed (simp add: mk_ordinal_vspan_def nat_is_zero_def)


section \<open>The projection of a coverage\<close>

lemma offsets_covers:
  "wf_run r \<Longrightarrow> wf_span c \<Longrightarrow> \<exists>g. offsets_covered_by r c = ret g \<and> covers_offsets r c g"
  using offsets_search [of c r] offsets_intersect [of r c] by (metis at_level_iff)

text \<open>The V-spans one block answers for one span, as a total function.\<close>

definition block_spans :: "block \<Rightarrow> span \<Rightarrow> span list" where
  "block_spans b c = the (project_block b c)"

lemma project_block_spec:
  assumes "wf_run (block_run b)" "wf_span c"
  shows "project_block b c = ret (block_spans b c)" "\<forall>y \<in> set (block_spans b c). at_level 2 y"
    "tumbler_of [1, k] \<in> den_list (block_spans b c) \<longleftrightarrow>
       v_start b \<le> k \<and> k < v_reach b \<and> tumbler (run_addrs (block_run b) ! (k - v_start b)) \<in> den c"
proof -
  obtain g where g: "offsets_covered_by (block_run b) c = ret g" "covers_offsets (block_run b) c g"
    using offsets_covers [OF assms] by blast
  let ?ys = "case g of None \<Rightarrow> [] | Some x \<Rightarrow> [vspan_of 1 (v_start b + lo x) (hi x - lo x)]"
  have le: "lo x < hi x \<and> hi x \<le> run_width (block_run b)" if "g = Some x" for x
    using that g(2) by (simp add: covers_offsets_def)
  have p: "project_block b c = ret ?ys"
    using g(1) le by (auto simp: project_block_def mk_ordinal_vspan_eq offset_width_def VPos_content_def
        content_subspace_def split: option.split)
  then have eq: "block_spans b c = ?ys" by (simp add: block_spans_def)
  show "project_block b c = ret (block_spans b c)" using p eq by simp
  show "\<forall>y \<in> set (block_spans b c). at_level 2 y"
    using le by (auto simp: eq vspan_props split: option.split)
  have at: "tumbler (run_addrs (block_run b) ! j) = advance (tumbler (i_start (block_run b))) j"
    if "j < run_width (block_run b)" for j using that by (simp add: nth_run_addrs)
  show "tumbler_of [1, k] \<in> den_list (block_spans b c) \<longleftrightarrow>
       v_start b \<le> k \<and> k < v_reach b \<and> tumbler (run_addrs (block_run b) ! (k - v_start b)) \<in> den c"
  proof (cases g)
    case None
    then show ?thesis using g(2) at [of "k - v_start b"]
      by (auto simp: eq covers_offsets_def v_reach_def)
  next
    case (Some x)
    have "tumbler_of [1, k] \<in> den_list (block_spans b c) \<longleftrightarrow> v_start b + lo x \<le> k \<and> k < v_start b + hi x"
      using le [OF Some] by (auto simp: eq Some vspan_props)
    also have "\<dots> \<longleftrightarrow> v_start b \<le> k \<and> k < v_reach b \<and>
        tumbler (run_addrs (block_run b) ! (k - v_start b)) \<in> den c"
    proof (cases "v_start b \<le> k \<and> k < v_reach b")
      case True
      then have "k - v_start b < run_width (block_run b)" by (auto simp: v_reach_def)
      then show ?thesis using True g(2) Some at [of "k - v_start b"]
        by (auto simp: covers_offsets_def)
    next
      case False
      then show ?thesis using le [OF Some] by (auto simp: v_reach_def)
    qed
    finally show ?thesis .
  qed
qed

lemma den_list_concat [simp]: "den_list (concat xss) = (\<Union>xs \<in> set xss. den_list xs)"
  by (auto simp: den_list_def)

lemma blocks_from_wf: "wf_runs rs \<Longrightarrow> b \<in> set (blocks_from v rs) \<Longrightarrow> wf_run (block_run b)"
  by (induction rs arbitrary: v) auto

text \<open>Over the blocks of a list, the positions whose address lies in a set.\<close>

lemma blocks_positions:
  assumes "wf_runs rs"
  shows "(\<exists>b \<in> set (blocks_from v rs). v_start b \<le> k \<and> k < v_reach b \<and>
      run_addrs (block_run b) ! (k - v_start b) \<in> A) \<longleftrightarrow>
    v \<le> k \<and> k < v + length (flat rs) \<and> flat rs ! (k - v) \<in> A"
  using assms
proof (induction rs arbitrary: v)
  case (Cons r rs)
  have IH: "(\<exists>b \<in> set (blocks_from (v + run_width r) rs). v_start b \<le> k \<and> k < v_reach b \<and>
      run_addrs (block_run b) ! (k - v_start b) \<in> A) \<longleftrightarrow>
    v + run_width r \<le> k \<and> k < v + run_width r + length (flat rs) \<and> flat rs ! (k - (v + run_width r)) \<in> A"
    using Cons by simp
  show ?case
  proof (cases "v + run_width r \<le> k")
    case True
    then show ?thesis using IH by (auto simp: v_reach_def nth_append)
  next
    case False
    then show ?thesis using IH by (auto simp: v_reach_def nth_append)
  qed
qed simp

lemma project_spec:
  assumes inv: "m5_inv s" and cov: "wf_set cov"
  obtains xs where "project s d cov = ret (SpanSet xs)" "canonical 2 xs"
    "\<And>k. tumbler_of [1, k] \<in> den_list xs \<longleftrightarrow>
       1 \<le> k \<and> k \<le> length (arranged s d) \<and> tumbler (arranged s d ! (k - 1)) \<in> den_set cov"
proof -
  let ?rs = "rl_runs (content_list s d)"
  let ?bs = "blocks_from 1 ?rs"
  let ?xss = "map (\<lambda>b. concat (map (block_spans b) (spans cov))) ?bs"
  have wf: "wf_runs ?rs" by (rule rl_inv_wf [OF m5_invD(1) [OF inv]])
  have sp: "wf_span c" if "c \<in> set (spans cov)" for c using that cov by (simp add: wf_set_def)
  note blk = project_block_spec [OF blocks_from_wf [OF wf, of _ 1] sp]
  have "exec_map (project_block b) (spans cov) = ret (map (block_spans b) (spans cov))" if "b \<in> set ?bs" for b
    by (intro exec_map_ret blk(1) that)
  then have m: "exec_map (\<lambda>b. do { ys \<leftarrow> exec_map (project_block b) (spans cov); ret (concat ys) }) ?bs = ret ?xss"
    by (intro exec_map_ret) simp
  have "uniform 2 (SpanSet (concat ?xss))" using blk(2) by (fastforce simp: uniform_def)
  then obtain xs where xs: "normalize (SpanSet (concat ?xss)) = ret (Ok (SpanSet xs))" "canonical 2 xs"
    "den_list xs = den_set (SpanSet (concat ?xss))" by (rule normalize_Ok)
  have "tumbler_of [1, k] \<in> den_list xs \<longleftrightarrow>
      (\<exists>b \<in> set ?bs. v_start b \<le> k \<and> k < v_reach b \<and>
        run_addrs (block_run b) ! (k - v_start b) \<in> {a. tumbler a \<in> den_set cov})" for k
  proof -
    have "tumbler_of [1, k] \<in> den_list xs \<longleftrightarrow>
        (\<exists>b \<in> set ?bs. \<exists>c \<in> set (spans cov). tumbler_of [1, k] \<in> den_list (block_spans b c))"
      by (simp add: xs(3))
    also have "\<dots> \<longleftrightarrow> (\<exists>b \<in> set ?bs. \<exists>c \<in> set (spans cov). v_start b \<le> k \<and> k < v_reach b \<and>
        tumbler (run_addrs (block_run b) ! (k - v_start b)) \<in> den c)"
      using blk(3) by (intro bex_cong refl) simp
    finally show ?thesis by (auto simp: den_set_def den_list_def)
  qed
  then have "tumbler_of [1, k] \<in> den_list xs \<longleftrightarrow>
       1 \<le> k \<and> k \<le> length (arranged s d) \<and> tumbler (arranged s d ! (k - 1)) \<in> den_set cov" for k
    using blocks_positions [OF wf, of 1 k "{a. tumbler a \<in> den_set cov}"]
    by (simp add: arranged_def rl_elems_def less_Suc_eq_le)
  moreover have "project s d cov = ret (SpanSet xs)"
    using m xs(1) by (simp add: project_def iter_blocks_def blocks_of_def spanset_from_iter_def)
  ultimately show thesis using that xs(2) by blast
qed

lemma arranges_any_spec:
  assumes inv: "m5_inv s" and cov: "wf_set cov"
  shows "arranges_any s d cov = ret (\<exists>a \<in> set (arranged s d). tumbler a \<in> den_set cov)"
proof -
  let ?q = "\<lambda>r c. \<exists>a \<in> set (run_addrs r). tumbler a \<in> den c"
  have wf: "wf_run r" if "r \<in> set (rl_runs (content_list s d))" for r
    using rl_inv_wf [OF m5_invD(1) [OF inv]] that by (auto simp: wf_runs_def)
  have one: "do { g \<leftarrow> offsets_covered_by r c; ret (g \<noteq> None) } = ret (?q r c)"
    if w: "wf_run r" "wf_span c" for r c
  proof -
    obtain g where g: "offsets_covered_by r c = ret g" "covers_offsets r c g"
      using offsets_covers [OF w] by blast
    then have "g \<noteq> None \<longleftrightarrow> ?q r c"
      by (cases g) (auto simp: covers_offsets_def set_run_addrs)
    then show ?thesis using g(1) by simp
  qed
  have "exec_any (\<lambda>c. do { g \<leftarrow> offsets_covered_by r c; ret (g \<noteq> None) }) (spans cov) =
      ret (\<exists>c \<in> set (spans cov). ?q r c)" if "wf_run r" for r
    using cov that by (intro exec_any_ret one) (simp_all add: wf_set_def)
  then have "arranges_any s d cov =
      ret (\<exists>r \<in> set (rl_runs (content_list s d)). \<exists>c \<in> set (spans cov). ?q r c)"
    unfolding arranges_any_def by (rule exec_any_ret) (simp add: wf)
  also have "(\<exists>r \<in> set (rl_runs (content_list s d)). \<exists>c \<in> set (spans cov). ?q r c) \<longleftrightarrow>
      (\<exists>a \<in> set (arranged s d). tumbler a \<in> den_set cov)"
    by (auto simp: arranged_def rl_elems_def flat_def den_set_def den_list_def)
  finally show ?thesis .
qed


section \<open>The deleted set\<close>

lemma wf_set_SpanSet [simp]: "wf_set (SpanSet xs) \<longleftrightarrow> (\<forall>s \<in> set xs. wf_span s)"
  by (simp add: wf_set_def)

text \<open>The class of one length of a set of run extents.\<close>

definition runs_of_len :: "nat \<Rightarrow> run list \<Rightarrow> run list" where
  "runs_of_len n rs = filter (\<lambda>r. tumbler_len (tumbler (i_start r)) = n) rs"

lemma filter_extents:
  assumes "wf_runs rs"
  shows "filter (\<lambda>s. tumbler_len (start s) = n) (map iextent_of rs) = map iextent_of (runs_of_len n rs)"
proof -
  have "filter (\<lambda>r. tumbler_len (start (iextent_of r)) = n) rs = runs_of_len n rs"
    unfolding runs_of_len_def using assms
    by (intro filter_cong refl) (simp add: iextent_of_props(5) wf_runs_def)
  then show ?thesis by (simp add: filter_map comp_def)
qed

lemma runs_of_len_props:
  assumes "wf_runs rs"
  shows "wf_runs (runs_of_len n rs)" "uniform n (SpanSet (map iextent_of (runs_of_len n rs)))"
    "full_pos a \<Longrightarrow> tumbler a \<in> den_list (map iextent_of (runs_of_len n rs)) \<longleftrightarrow>
       a \<in> set (flat rs) \<and> tumbler_len (tumbler a) = n"
proof -
  show wf: "wf_runs (runs_of_len n rs)" using assms by (auto simp: runs_of_len_def wf_runs_def)
  show "uniform n (SpanSet (map iextent_of (runs_of_len n rs)))"
    using wf by (auto simp: uniform_def wf_runs_def runs_of_len_def iextent_of_props(3))
  assume a: "full_pos a"
  have "a \<in> set (run_addrs r) \<Longrightarrow> tumbler_len (tumbler a) = tumbler_len (tumbler (i_start r))" for r
    by (auto simp: set_run_addrs)
  then show "tumbler a \<in> den_list (map iextent_of (runs_of_len n rs)) \<longleftrightarrow>
       a \<in> set (flat rs) \<and> tumbler_len (tumbler a) = n"
    unfolding den_runs [OF wf a] by (auto simp: flat_def runs_of_len_def)
qed

lemma class_of_extents:
  assumes "wf_runs rs"
  shows "(case map_of (by_level_class (SpanSet (map iextent_of rs))) n of None \<Rightarrow> spanset_empty | Some c \<Rightarrow> c) =
    SpanSet (map iextent_of (runs_of_len n rs))"
  using by_level_class_lookup(2) [of "SpanSet (map iextent_of rs)" n] filter_extents [OF assms, of n]
  by (cases "map_of (by_level_class (SpanSet (map iextent_of rs))) n")
     (auto simp: spanset_empty_def intro: span_set.expand)

lemma class_member:
  assumes "wf_runs rs" "(n, c) \<in> set (by_level_class (SpanSet (map iextent_of rs)))"
  shows "c = SpanSet (map iextent_of (runs_of_len n rs))"
proof -
  have "distinct (map fst (by_level_class (SpanSet (map iextent_of rs))))"
    using by_level_class_lookup(1) strict_sorted_iff by blast
  then have "map_of (by_level_class (SpanSet (map iextent_of rs))) n = Some c"
    using assms(2) by simp
  then show ?thesis using class_of_extents [OF assms(1), of n] by simp
qed

lemma class_covers:
  assumes "wf_runs rs" "a \<in> set (flat rs)" "full_pos a"
  shows "\<exists>c. (tumbler_len (tumbler a), c) \<in> set (by_level_class (SpanSet (map iextent_of rs)))"
proof (rule ccontr)
  let ?n = "tumbler_len (tumbler a)"
  assume "\<not> ?thesis"
  then have "map_of (by_level_class (SpanSet (map iextent_of rs))) ?n = None"
    by (simp add: map_of_eq_None_iff) (metis imageE prod.collapse)
  then have "runs_of_len ?n rs = []" using class_of_extents [OF assms(1), of ?n] by (simp add: spanset_empty_def)
  then show False using runs_of_len_props(3) [OF assms(1,3), of ?n] assms(2) by simp
qed

lemma difference_fold:
  assumes "wf_runs es" "wf_runs ns" "set cs \<subseteq> set (by_level_class (SpanSet (map iextent_of es)))"
    and now: "now = by_level_class (SpanSet (map iextent_of ns))" and "wf_set out"
  shows "\<exists>out'. exec_fold (\<lambda>out (len, ever). do {
         r \<leftarrow> difference_sets ever (case map_of now len of Some x \<Rightarrow> x | None \<Rightarrow> spanset_empty);
         deleted \<leftarrow> expect_ok r;
         ret (union out deleted) }) out cs = ret out' \<and> wf_set out' \<and>
    den_set out' = den_set out \<union> (\<Union>(n, c) \<in> set cs.
      den_list (map iextent_of (runs_of_len n es)) - den_list (map iextent_of (runs_of_len n ns)))"
  using assms(3,5)
proof (induction cs arbitrary: out)
  case (Cons e cs)
  obtain n c where e: "e = (n, c)" by (cases e)
  have c: "c = SpanSet (map iextent_of (runs_of_len n es))"
    using class_member [OF assms(1)] Cons.prems(1) e by simp
  obtain zs where zs: "difference_sets c (SpanSet (map iextent_of (runs_of_len n ns))) = ret (Ok (SpanSet zs))"
    "canonical n zs" "den_list zs = den_set c - den_set (SpanSet (map iextent_of (runs_of_len n ns)))"
    using difference_sets_Ok runs_of_len_props(2) assms(1,2) c by metis
  have wf: "wf_set (union out (SpanSet zs))"
    using Cons.prems(2) uniform_wf [OF uniform_canonical [OF zs(2)]] by (auto simp: wf_set_def union_def)
  have at: "(case map_of now n of Some x \<Rightarrow> x | None \<Rightarrow> spanset_empty) =
      SpanSet (map iextent_of (runs_of_len n ns))"
    using class_of_extents [OF assms(2), of n] by (simp add: now cong: option.case_cong)
  obtain out' where "exec_fold (\<lambda>out (len, ever). do {
         r \<leftarrow> difference_sets ever (case map_of now len of Some x \<Rightarrow> x | None \<Rightarrow> spanset_empty);
         deleted \<leftarrow> expect_ok r;
         ret (union out deleted) }) (union out (SpanSet zs)) cs = ret out'" "wf_set out'"
    "den_set out' = den_set (union out (SpanSet zs)) \<union> (\<Union>(n, c) \<in> set cs.
      den_list (map iextent_of (runs_of_len n es)) - den_list (map iextent_of (runs_of_len n ns)))"
    using Cons.IH [OF _ wf] Cons.prems(1) by auto
  then show ?case using zs(1,3) at c e by (auto simp: Un_assoc)
qed simp

lemma deletions_spec:
  assumes inv: "m5_inv s"
  obtains D where "deletions s d = ret D" "wf_set D"
    "\<And>a. full_pos a \<Longrightarrow> tumbler a \<in> den_set D \<longleftrightarrow> a \<in> ever s d \<and> a \<notin> set (arranged s d)"
proof -
  let ?ns = "rl_runs (content_list s d)"
  obtain es where es: "wf_runs es" "spans_of (provenance s) d = map iextent_of es"
    by (rule spans_of_runs [OF m5_invD(3) [OF inv]])
  have ns: "wf_runs ?ns" by (rule rl_inv_wf [OF m5_invD(1) [OF inv]])
  have ec: "ever_contained (provenance s) d = SpanSet (map iextent_of es)"
    using es(2) by (simp add: ever_contained_def spans_of_def spanset_from_iter_def spanset_empty_def
        split: option.splits)
  have im: "rl_image (content_list s d) = ret (SpanSet (map iextent_of ?ns))"
    by (rule image_spec [OF m5_invD(1) [OF inv]])
  have "wf_set spanset_empty" by (simp add: spanset_empty_def)
  from difference_fold [OF es(1) ns order_refl refl this]
  obtain D where D: "deletions s d = ret D" "wf_set D"
    "den_set D = (\<Union>(n, c) \<in> set (by_level_class (SpanSet (map iextent_of es))).
      den_list (map iextent_of (runs_of_len n es)) - den_list (map iextent_of (runs_of_len n ?ns)))"
    by (auto simp: deletions_def ec im)
  have "tumbler a \<in> den_set D \<longleftrightarrow> a \<in> ever s d \<and> a \<notin> set (arranged s d)" if a: "full_pos a" for a
  proof -
    have ev: "a \<in> ever s d \<longleftrightarrow> a \<in> set (flat es)" using a den_runs [OF es(1) a] by (simp add: ever_def es(2))
    note p = runs_of_len_props(3) [OF es(1) a] runs_of_len_props(3) [OF ns a]
    have "tumbler a \<in> den_set D \<longleftrightarrow> (\<exists>(n, c) \<in> set (by_level_class (SpanSet (map iextent_of es))).
        a \<in> set (flat es) \<and> tumbler_len (tumbler a) = n \<and> a \<notin> set (flat ?ns))"
      unfolding D(3) using p by auto
    then show ?thesis using ev class_covers [OF es(1) _ a]
      by (auto simp: arranged_def rl_elems_def)
  qed
  then show thesis using that D(1,2) by blast
qed

section \<open>The documents that may contain a coverage\<close>

lemma docs_ever_containing_spec:
  assumes inv: "inv_prov r" and cov: "wf_set cov"
  shows "docs_ever_containing r cov = ret (map fst (filter (\<lambda>(d, ss).
    \<exists>p \<in> set ss. \<exists>c \<in> set (spans cov). \<not> rel_holds Separated p c) (recorded r)))"
proof -
  let ?q = "\<lambda>p c. \<not> rel_holds Separated p c"
  have sp: "wf_span p" if m: "(d, ss) \<in> set (recorded r)" "p \<in> set ss" for d ss p
  proof -
    obtain rs where "wf_runs rs" "ss = map iextent_of rs" using inv m(1) by (auto simp: inv_prov_def)
    then show ?thesis using m(2) by (auto simp: wf_runs_def iextent_of_props(2))
  qed
  have one: "do { x \<leftarrow> classify_spans p c; ret (x \<noteq> Separated) } = ret (?q p c)"
    if w: "wf_span p" "wf_span c" for p c
  proof -
    obtain x where "classify_spans p c = ret x" "rel_holds x p c" by (rule classify_spans_den [OF w])
    then show ?thesis using rel_holds_unique [OF w, of x Separated] by (auto simp del: rel_holds.simps)
  qed
  have two: "exec_any (\<lambda>c. do { x \<leftarrow> classify_spans p c; ret (x \<noteq> Separated) }) (spans cov) =
      ret (\<exists>c \<in> set (spans cov). ?q p c)" if "wf_span p" for p
    using cov that by (intro exec_any_ret one) (simp_all add: wf_set_def)
  have "exec_filter (\<lambda>(d, ss). exec_any (\<lambda>p. exec_any (\<lambda>c. do { x \<leftarrow> classify_spans p c; ret (x \<noteq> Separated) })
        (spans cov)) ss) (recorded r) =
      ret (filter (\<lambda>(d, ss). \<exists>p \<in> set ss. \<exists>c \<in> set (spans cov). ?q p c) (recorded r))"
  proof (rule exec_filter_ret)
    fix e assume e: "e \<in> set (recorded r)"
    obtain d ss where ds: "e = (d, ss)" by (cases e)
    have "exec_any (\<lambda>p. exec_any (\<lambda>c. do { x \<leftarrow> classify_spans p c; ret (x \<noteq> Separated) }) (spans cov)) ss =
        ret (\<exists>p \<in> set ss. \<exists>c \<in> set (spans cov). ?q p c)"
      by (rule exec_any_ret) (rule two, rule sp [of d ss], use e ds in auto)
    then show "(case e of (d, ss) \<Rightarrow> exec_any (\<lambda>p. exec_any (\<lambda>c. do { x \<leftarrow> classify_spans p c; ret (x \<noteq> Separated) })
        (spans cov)) ss) = ret (case e of (d, ss) \<Rightarrow> \<exists>p \<in> set ss. \<exists>c \<in> set (spans cov). ?q p c)"
      by (simp add: ds)
  qed
  then show ?thesis by (simp add: docs_ever_containing_def)
qed


lemma candidate:
  assumes inv: "m5_inv s" and cov: "wf_set cov" and a: "wf_address d" "a \<in> ever s d" "tumbler a \<in> den_set cov"
    and r: "docs_ever_containing (provenance s) cov = ret ds"
  shows "d \<in> set ds"
proof -
  obtain p where p: "p \<in> set (spans_of (provenance s) d)" "tumbler a \<in> den p"
    using a(2) by (auto simp: ever_def den_list_def)
  obtain c where c: "c \<in> set (spans cov)" "tumbler a \<in> den c"
    using a(3) by (auto simp: den_set_def den_list_def)
  have ne: "\<not> rel_holds Separated p c" using p(2) c(2) by auto
  obtain ss where ss: "amap_get (recorded (provenance s)) d = Some ss" "p \<in> set ss"
    using p(1) by (cases "amap_get (recorded (provenance s)) d") (auto simp: spans_of_def)
  then obtain k where k: "(k, ss) \<in> set (recorded (provenance s))" "tumbler k = tumbler d"
    by (auto simp: amap_get_def dest: amap_entry_SomeD)
  then have "k = d" using m5_invD(3) [OF inv] a(1) wf_address_eqI by (auto simp: inv_prov_def)
  then have mem: "(d, ss) \<in> set (filter (\<lambda>(d, ss). \<exists>p \<in> set ss. \<exists>c \<in> set (spans cov). \<not> rel_holds Separated p c)
      (recorded (provenance s)))"
    using k(1) ss(2) c(1) ne by (auto simp del: rel_holds.simps)
  have "ds = map fst (filter (\<lambda>(d, ss). \<exists>p \<in> set ss. \<exists>c \<in> set (spans cov). \<not> rel_holds Separated p c)
      (recorded (provenance s)))"
    using r docs_ever_containing_spec [OF m5_invD(3) [OF inv] cov] by simp
  then show ?thesis using imageI [OF mem, of fst] by (simp only: set_map fst_conv)
qed

lemma candidates_sorted:
  assumes inv: "inv_prov r" and cov: "wf_set cov" and r: "docs_ever_containing r cov = ret ds"
  shows "sorted_wrt (<) (map tumbler ds)"
proof -
  let ?es = "filter (\<lambda>(d, ss). \<exists>p \<in> set ss. \<exists>c \<in> set (spans cov). \<not> rel_holds Separated p c) (recorded r)"
  have "sorted_wrt (<) (map akey ?es)"
    using inv by (simp add: inv_prov_def amap_sorted_def sorted_wrt_map sorted_wrt_filter)
  moreover have "ds = map fst ?es" using r docs_ever_containing_spec [OF inv cov] by simp
  ultimately show ?thesis by (simp add: comp_def)
qed


section \<open>Properties\<close>

lemma canonical_normalized: "canonical n xs \<Longrightarrow> is_normalized (SpanSet xs) = ret True"
  by (simp add: is_normalized_def normalize_canonical)

lemma vspan_view: "0 < n \<Longrightarrow> as_ordinal_vspan (vspan_of s ord n) =
    Some \<lparr>ov_subspace = s, ov_ordinal = ord, ov_count = n\<rparr>"
  by (simp add: as_ordinal_vspan_def vspan_of_def tumbler_len_def tumbler_get_def nat_is_zero_def numeral_2_eq_2)

text \<open>
  C38: The content reads answer from the positions a document arranges. In any state a log of legal
  records reaches, and for any coverage, \<open>project\<close> returns a normalised set of V-spans that holds the
  content position \<open>k\<close> exactly when \<open>k\<close> is arranged and the address there lies in the coverage;
  \<open>arranges_any\<close> says whether there is one; \<open>point\<close> answers exactly the arranged positions; and
  \<open>resolve\<close> of an ordinal V-span answers the addresses of its positions in order.
\<close>

theorem content_reads_exact:
  assumes "wf_m5_log log" "m5_replay log = ret s" "wf_set cov"
    and "addresses = flat (rl_runs (content_list s d))"
  shows "\<exists>P. project s d cov = ret P \<and> is_normalized P = ret True \<and>
    (\<forall>k. denotes P (tumbler_of [content_subspace, k]) =
       ret (1 \<le> k \<and> k \<le> content_count s d \<and> tumbler (addresses ! (k - 1)) \<in> den_set cov)) \<and>
    arranges_any s d cov = ret (\<exists>a \<in> set addresses. tumbler a \<in> den_set cov) \<and>
    (\<forall>k. m5_point s d (VPos_content k) =
       ret (if 0 < k \<and> k \<le> content_count s d then Some (addresses ! (k - 1)) else None)) \<and>
    (\<forall>k n. \<exists>us. resolve s d (vspan_of content_subspace (Suc k) (Suc n)) = ret us \<and>
       flat us = take (Suc n) (drop k addresses))"
proof -
  obtain t where "m5_replay log = ret t" "m5_inv t" using m5_replay_step [OF assms(1)] by blast
  then have inv: "m5_inv s" using assms(2) by simp
  have ad: "addresses = arranged s d" using assms(4) by (simp add: arranged_def rl_elems_def)
  have n: "content_count s d = length addresses"
    by (simp add: content_count_def total_width_eq assms(4))
  note rl = m5_invD(1) [OF inv, of d]
  obtain xs where xs: "project s d cov = ret (SpanSet xs)" "canonical 2 xs"
    "\<And>k. tumbler_of [1, k] \<in> den_list xs \<longleftrightarrow>
       1 \<le> k \<and> k \<le> length (arranged s d) \<and> tumbler (arranged s d ! (k - 1)) \<in> den_set cov"
    using project_spec [OF inv assms(3), of d] by blast
  have "wf_set (SpanSet xs)" by (rule uniform_wf [OF uniform_canonical [OF xs(2)]])
  then have "\<forall>k. denotes (SpanSet xs) (tumbler_of [content_subspace, k]) =
       ret (1 \<le> k \<and> k \<le> content_count s d \<and> tumbler (addresses ! (k - 1)) \<in> den_set cov)"
    using xs(3) by (simp only: denotes_eq n ad den_set_simps(4) content_subspace_def simp_thms)
  moreover have "m5_point s d (VPos_content k) =
       ret (if 0 < k \<and> k \<le> content_count s d then Some (addresses ! (k - 1)) else None)" for k
    using point_spec [OF rl, of k] ad
    by (simp add: m5_point_def VPos_content_def arr_list_def content_count_def arranged_def
        content_list_def)
  moreover have "\<exists>us. resolve s d (vspan_of content_subspace (Suc k) (Suc n)) = ret us \<and>
       flat us = take (Suc n) (drop k addresses)" for k n
  proof -
    have "resolve s d (vspan_of content_subspace (Suc k) (Suc n)) =
        iter_resolve_range (content_list s d) (Suc k) (Suc n)"
      by (simp add: resolve_def vspan_view arr_list_def content_list_def)
    moreover obtain us where "iter_resolve_range (content_list s d) (Suc k) (Suc n) = ret us"
      "flat us = take (Suc n) (drop (Suc k - 1) (rl_elems (content_list s d)))"
      using iter_resolve_range_spec [OF rl, of "Suc k" "Suc n"] by blast
    ultimately show ?thesis by (simp add: ad arranged_def)
  qed
  ultimately show ?thesis
    using xs(1) canonical_normalized [OF xs(2)] arranges_any_spec [OF inv assms(3)]
    by (intro exI [of _ "SpanSet xs"]) (simp only: ad simp_thms)
qed

theorem content_reads_exact_witness:
  "\<exists>s P. m5_replay sample_m5_log = ret s \<and> project s sample_doc sample_set = ret P \<and> is_normalized P = ret True"
proof -
  obtain s where s: "m5_replay sample_m5_log = ret s" using m5_replay_step [OF wf_sample_log] by blast
  show ?thesis using s content_reads_exact [OF wf_sample_log s uniform_wf [OF uniform_sample] refl, of sample_doc]
    by blast
qed

text \<open>
  C39: \<open>deletions\<close> is the deleted set. In any state a log of legal records reaches it returns a legal
  set of spans that holds a full element address exactly when the document arranged that address at
  some point of the log and does not arrange it now.
\<close>

theorem deletions_exact:
  assumes "wf_m5_log log" "m5_replay log = ret s" "wf_address d" "full_pos a"
  shows "\<exists>D. deletions s d = ret D \<and>
    denotes D (tumbler a) = ret ((\<exists>p t. prefix p log \<and> m5_replay p = ret t \<and> a \<in> set (arranged t d)) \<and>
      a \<notin> set (arranged s d))"
proof -
  obtain t where "m5_replay log = ret t" "m5_inv t" using m5_replay_step [OF assms(1)] by blast
  then have inv: "m5_inv s" using assms(2) by simp
  obtain D where D: "deletions s d = ret D" "wf_set D"
    "\<And>a. full_pos a \<Longrightarrow> tumbler a \<in> den_set D \<longleftrightarrow> a \<in> ever s d \<and> a \<notin> set (arranged s d)"
    using deletions_spec [OF inv, of d] by blast
  then show ?thesis using ever_history [OF assms(1-3)] assms(4) by (simp add: denotes_eq)
qed

theorem deletions_exact_witness:
  "\<exists>s D. m5_replay sample_m5_log = ret s \<and> deletions s sample_doc = ret D \<and>
     denotes D (tumbler sample_elem) =
       ret ((\<exists>p t. prefix p sample_m5_log \<and> m5_replay p = ret t \<and> sample_elem \<in> set (arranged t sample_doc)) \<and>
         sample_elem \<notin> set (arranged s sample_doc))"
proof -
  obtain s where s: "m5_replay sample_m5_log = ret s" using m5_replay_step [OF wf_sample_log] by blast
  show ?thesis using s deletions_exact [OF wf_sample_log s wf_samples(2) full_pos_sample] by blast
qed

text \<open>
  C40: The candidates of a history query miss nothing. \<open>docs_ever_containing\<close> answers documents in
  ascending tumbler order without repetition, and among them every document that arranges, or arranged
  at any point of the log, an address in the coverage, so narrowing them by \<open>arranges_any\<close> finds
  exactly the documents that contain the coverage now.
\<close>

theorem candidates_complete:
  assumes "wf_m5_log log" "m5_replay log = ret s" "wf_set cov"
  shows "\<exists>ds. docs_ever_containing (provenance s) cov = ret ds \<and> sorted_wrt (<) (map tumbler ds) \<and>
    (\<forall>d. wf_address d \<longrightarrow>
      ((\<exists>p t. prefix p log \<and> m5_replay p = ret t \<and> arranges_any t d cov = ret True) \<longrightarrow> d \<in> set ds) \<and>
      (d \<in> set ds \<and> arranges_any s d cov = ret True \<longleftrightarrow> (\<exists>a \<in> set (arranged s d). tumbler a \<in> den_set cov)))"
proof -
  obtain t where "m5_replay log = ret t" "m5_inv t" using m5_replay_step [OF assms(1)] by blast
  then have inv: "m5_inv s" using assms(2) by simp
  obtain ds where ds: "docs_ever_containing (provenance s) cov = ret ds"
    using docs_ever_containing_spec [OF m5_invD(3) [OF inv] assms(3)] by blast
  have past: "d \<in> set ds" if d: "wf_address d" and p: "prefix p log" "m5_replay p = ret t"
    "arranges_any t d cov = ret True" for d p t
  proof -
    have "wf_m5_log p" using p(1) assms(1) by (auto simp: wf_m5_log_def prefix_def)
    then have "m5_inv t" using m5_replay_step [of p] p(2) by auto
    then obtain a where a: "a \<in> set (arranged t d)" "tumbler a \<in> den_set cov"
      using arranges_any_spec [OF _ assms(3)] p(3) by auto
    then have "a \<in> ever s d" using ever_history [OF assms(1,2) d] p by blast
    then show ?thesis using candidate [OF inv assms(3) d _ a(2) ds] by blast
  qed
  moreover have "(d \<in> set ds \<and> arranges_any s d cov = ret True) \<longleftrightarrow>
      (\<exists>a \<in> set (arranged s d). tumbler a \<in> den_set cov)" if "wf_address d" for d
    using past [OF that _ assms(2)] arranges_any_spec [OF inv assms(3), of d] by auto
  ultimately show ?thesis
    using ds candidates_sorted [OF m5_invD(3) [OF inv] assms(3) ds] by blast
qed

theorem candidates_complete_witness:
  "\<exists>s ds. m5_replay sample_m5_log = ret s \<and> docs_ever_containing (provenance s) sample_set = ret ds \<and>
     sorted_wrt (<) (map tumbler ds)"
proof -
  obtain s where s: "m5_replay sample_m5_log = ret s" using m5_replay_step [OF wf_sample_log] by blast
  show ?thesis using s candidates_complete [OF wf_sample_log s uniform_wf [OF uniform_sample]] by blast
qed

end
