(* ===== verification/Arrangement_Ops.thy ===== *)
theory Arrangement_Ops
  imports Arrangement Content_Store Kernel_Staging
begin

text \<open>
  The arrangement layer's operations (\<^verbatim>\<open>crates/skep-arrangement\<close>: \<^verbatim>\<open>ownership.rs\<close>, \<^verbatim>\<open>shot.rs\<close>,
  \<^verbatim>\<open>deposit.rs\<close>, \<^verbatim>\<open>ops.rs\<close> and \<^verbatim>\<open>ops/*.rs\<close>) as closures over a staging, and the part of the engine's
  world they read and write (\<^verbatim>\<open>crates/skep-engine/src/world.rs\<close>): the namespace, the content and the
  arrangements, with the fold that routes each record to its slice.

  The operations' lock keys have no counterpart, since one applier serialises every transaction. The
  reads an operation takes of a snapshot before its transaction are taken of a world passed beside the
  staging.
\<close>

section \<open>The world\<close>

record world =
  w_namespace :: m3_state
  w_content :: content_store
  w_arrangement :: m5_state

datatype world_rec =
    NamespaceRec m3_rec
  | ContentRec content_write
  | ArrangementRec m5_rec
  | ContentStretchRec content_stretch

definition stretch_within_frontier :: "m3_state \<Rightarrow> content_stretch \<Rightarrow> bool exec" where
  "stretch_within_frontier m3 x = do {
     h \<leftarrow> document_of (cs_first x);
     (case h of
        None \<Rightarrow> ret True
      | Some home \<Rightarrow> do {
          nx \<leftarrow> next_content_address m3 home;
          (case nx of
             None \<Rightarrow> ret True
           | Some a \<Rightarrow> do { q \<leftarrow> shift (tumbler (cs_first x)) (length (cs_bytes x)); ret (q \<le> tumbler a) }) }) }"

text \<open>\<open>dbg\<close> is the build's \<^verbatim>\<open>debug_assertions\<close>.\<close>

fun apply_world :: "bool \<Rightarrow> nat \<Rightarrow> world \<Rightarrow> world_rec \<Rightarrow> world exec" where
  "apply_world dbg at w (NamespaceRec x) = do {
     m \<leftarrow> apply_m3 at (w_namespace w) x;
     ret (w\<lparr>w_namespace := m\<rparr>) }"
| "apply_world dbg at w (ContentRec x) = do {
     c \<leftarrow> apply_write dbg (w_content w) x;
     ret (w\<lparr>w_content := c\<rparr>) }"
| "apply_world dbg at w (ContentStretchRec x) = do {
     _ \<leftarrow> (if dbg then do {
            within \<leftarrow> stretch_within_frontier (w_namespace w) x;
            (if within then ret () else panic) }
          else ret ());
     c \<leftarrow> apply_stretch dbg (w_content w) x;
     ret (w\<lparr>w_content := c\<rparr>) }"
| "apply_world dbg at w (ArrangementRec x) = do {
     m \<leftarrow> apply_m5 at (w_arrangement w) x;
     ret (w\<lparr>w_arrangement := m\<rparr>) }"

type_synonym 'c world_staging = "(world, 'c, world_rec) staging"

section \<open>Callers and the write gate\<close>

datatype caller = CallerPrincipal principal_id | CallerSystem

fun is_owner :: "caller \<Rightarrow> m3_state \<Rightarrow> address \<Rightarrow> bool" where
  "is_owner CallerSystem m3 d = True"
| "is_owner (CallerPrincipal p) m3 d = is_effective_owner m3 p d"

definition passes_ownership_gate :: "caller \<Rightarrow> m3_state \<Rightarrow> address \<Rightarrow> bool exec" where
  "passes_ownership_gate c m3 d = do {
     reg \<leftarrow> is_registered_document m3 d;
     ret (reg \<and> is_owner c m3 d) }"

definition gate_write :: "m3_state \<Rightarrow> caller \<Rightarrow> address \<Rightarrow> 'e \<Rightarrow> (address \<Rightarrow> 'e) \<Rightarrow> (unit, 'e) result exec" where
  "gate_write m3 c d not_registered not_owner = do {
     reg \<leftarrow> is_registered_document m3 d;
     (if \<not> reg then err not_registered
      else if \<not> is_owner c m3 d then err (not_owner d)
      else ok ()) }"

section \<open>The arrangement's age\<close>

datatype as_of = Typed nat | Unchecked

definition arrangement_moved :: "m5_state \<Rightarrow> address \<Rightarrow> as_of \<Rightarrow> (nat \<times> nat) option" where
  "arrangement_moved m5 d a =
     (case a of
        Unchecked \<Rightarrow> None
      | Typed typed \<Rightarrow>
          (case arranged_at m5 d of
             Some current \<Rightarrow> if typed < current then Some (typed, current) else None
           | None \<Rightarrow> None))"

section \<open>Runs with their origin\<close>

record shot_run =
  sr_origin :: address
  sr_run :: run

record base =
  b_member :: address
  b_extent :: nat

definition run_origin_document :: "run \<Rightarrow> address option exec" where
  "run_origin_document r = do {
     s \<leftarrow> subspace (i_start r);
     (if s \<noteq> Some content_subspace then ret None
      else do {
        d \<leftarrow> document_of (i_start r);
        (case d of
           None \<Rightarrow> ret None
         | Some d \<Rightarrow> do { t \<leftarrow> trunk_of d; ret (Some t) }) }) }"

section \<open>Declared deposits\<close>

datatype deposit = Undeclared | Declared address

definition commons_type_subspace :: nat where
  "commons_type_subspace = 3"

definition deposit_class_types :: "address list exec" where
  "deposit_class_types =
     exec_map (\<lambda>n. do {
         g \<leftarrow> ghost_home_document;
         r \<leftarrow> elem_addr \<lparr>doc = g, pos_subspace = commons_type_subspace, pos_ordinal = n\<rparr>;
         expect_ok r })
       [1, 2, 55, 56]"

section \<open>Limits\<close>

definition max_placed_runs :: nat where
  "max_placed_runs = 2 ^ 16"

definition max_copy_resolve_steps :: nat where
  "max_copy_resolve_steps = 2 ^ 20"

section \<open>Allocation for a placement\<close>

text \<open>
  Both helpers mint, stage the write against the store the mint left, and extend the placement. They
  are generic in the operation's error, which the two conversions inject into.
\<close>

definition w_m3 :: "'c world_staging \<Rightarrow> m3_state" where
  "w_m3 stg = w_namespace (stg_working stg)"

definition w_store :: "'c world_staging \<Rightarrow> content_store" where
  "w_store stg = w_content (stg_working stg)"

definition w_m5 :: "'c world_staging \<Rightarrow> m5_state" where
  "w_m5 stg = w_arrangement (stg_working stg)"

definition from_err :: "('e \<Rightarrow> 'f) \<Rightarrow> ('a, 'e) result exec \<Rightarrow> ('a, 'f) result exec" where
  "from_err f m = do { r \<leftarrow> m; ret (case r of Inl e \<Rightarrow> Err (f e) | Inr x \<Rightarrow> Ok x) }"

definition allocate_for_placement ::
    "bool \<Rightarrow> (mint_error \<Rightarrow> 'e) \<Rightarrow> (content_error \<Rightarrow> 'e) \<Rightarrow> address \<Rightarrow> val \<Rightarrow> 'c world_staging \<times> run list \<Rightarrow>
     ('c world_staging \<times> run list, 'e) result exec" where
  "allocate_for_placement dbg of_mint of_content home v = (\<lambda>(stg, runs).
     and_then (from_err of_mint (mint_content (w_m3 stg) home)) (\<lambda>(a, m3rec). do {
       stg \<leftarrow> stg_push (apply_world dbg) stg (NamespaceRec m3rec);
       and_then (from_err of_content (stage_write dbg (w_store stg) a v)) (\<lambda>x. do {
         stg \<leftarrow> stg_push (apply_world dbg) stg (ContentRec x);
         runs \<leftarrow> extend_or_push_run runs \<lparr>i_start = a, run_width = 1\<rparr>;
         ok (stg, runs) }) }))"

definition allocate_stretch_for_placement ::
    "bool \<Rightarrow> (mint_error \<Rightarrow> 'e) \<Rightarrow> (content_error \<Rightarrow> 'e) \<Rightarrow> address \<Rightarrow> byte list \<Rightarrow> 'c world_staging \<times> run list \<Rightarrow>
     ('c world_staging \<times> run list, 'e) result exec" where
  "allocate_stretch_for_placement dbg of_mint of_content home bs = (\<lambda>(stg, runs).
     and_then (from_err of_mint (mint_content_range (w_m3 stg) home (length bs))) (\<lambda>(first, m3rec). do {
       let minted = (case m3rec of AllocateRange rg \<Rightarrow> Some (range_count rg) | _ \<Rightarrow> None);
       stg \<leftarrow> stg_push (apply_world dbg) stg (NamespaceRec m3rec);
       and_then (from_err of_content (stage_stretch dbg (w_store stg) first bs)) (\<lambda>x. do {
         let written = length (cs_bytes x);
         stg \<leftarrow> stg_push (apply_world dbg) stg (ContentStretchRec x);
         _ \<leftarrow> (if dbg \<and> minted \<noteq> Some written then panic else ret ());
         runs \<leftarrow> extend_or_push_run runs \<lparr>i_start = first, run_width = length bs\<rparr>;
         ok (stg, runs) }) }))"

section \<open>INSERT\<close>

datatype insert_error =
    InsDocNotRegistered
  | InsNotOwner address
  | InsPublishedTarget
  | InsArrangementMoved nat nat
  | InsNotContentSubspace
  | InsOutOfBounds
  | InsEmptyContent
  | InsMint mint_error
  | InsContent content_error

text \<open>The surface an insert lands on: the document itself, or the head of a published chain.\<close>

definition insert_surface ::
    "m3_state \<Rightarrow> m5_state \<Rightarrow> address \<Rightarrow> v_pos \<Rightarrow> deposit \<Rightarrow> (address, insert_error) result exec" where
  "insert_surface m3 m5 d at dep = do {
     p \<leftarrow> published_target m3 d;
     (if \<not> p then ok d
      else case dep of
             Undeclared \<Rightarrow> err InsPublishedTarget
           | Declared ty \<Rightarrow> do {
               tys \<leftarrow> deposit_class_types;
               (if ty \<notin> set tys then err InsPublishedTarget
                else do {
                  surface \<leftarrow> deposit_surface m3 d;
                  (if \<not> names_fresh_content_position m5 surface at then err InsPublishedTarget
                   else ok surface) }) }) }"

text \<open>The loop over the values; \<open>pending\<close> collects the run of single-byte values not yet allocated.\<close>

fun insert_loop :: "bool \<Rightarrow> address \<Rightarrow> 'c world_staging \<times> run list \<Rightarrow> byte list \<Rightarrow> val list \<Rightarrow>
    ('c world_staging \<times> run list, insert_error) result exec" where
  "insert_loop dbg d acc pending [] =
     (if pending = [] then ok acc
      else allocate_stretch_for_placement dbg InsMint InsContent d pending acc)"
| "insert_loop dbg d acc pending (v # vs) =
     (case as_bytes v of
        [b] \<Rightarrow> insert_loop dbg d acc (pending @ [b]) vs
      | _ \<Rightarrow>
          and_then (if pending = [] then ok acc
                    else allocate_stretch_for_placement dbg InsMint InsContent d pending acc) (\<lambda>acc.
          and_then (allocate_for_placement dbg InsMint InsContent d v acc) (\<lambda>acc.
          insert_loop dbg d acc [] vs)))"

definition insert_op ::
    "bool \<Rightarrow> caller \<Rightarrow> address \<Rightarrow> v_pos \<Rightarrow> val list \<Rightarrow> deposit \<Rightarrow> as_of \<Rightarrow> 'c world_staging \<Rightarrow>
     ('c world_staging \<times> address, insert_error) result exec" where
  "insert_op dbg c d at vs dep asof stg =
     and_then (gate_write (w_m3 stg) c d InsDocNotRegistered InsNotOwner) (\<lambda>_.
     and_then (insert_surface (w_m3 stg) (w_m5 stg) d at dep) (\<lambda>surface.
       (case arrangement_moved (w_m5 stg) surface asof of
          Some (typed, current) \<Rightarrow> err (InsArrangementMoved typed current)
        | None \<Rightarrow>
            if vs = [] then err InsEmptyContent
            else if \<not> vpos_is_content at then err InsNotContentSubspace
            else if \<not> admits_content_boundary (w_m5 stg) surface (vp_ordinal at) then err InsOutOfBounds
            else and_then (insert_loop dbg d (stg, []) [] vs) (\<lambda>(stg, runs).
              (case runs of
                 [] \<Rightarrow> panic
               | r # _ \<Rightarrow> do {
                   stg \<leftarrow> stg_push (apply_world dbg) stg
                            (ArrangementRec (ContentPlace surface (vp_ordinal at) runs));
                   ok (stg, i_start r) })))))"

section \<open>COPY\<close>

datatype copy_error =
    CpDocNotRegistered
  | CpNotOwner address
  | CpPublishedTarget
  | CpArrangementMoved nat nat
  | CpNotContentSubspace
  | CpOutOfBounds
  | CpSourceNotRegistered
  | CpEmptySource
  | CpNotOrdinalVSpan
  | CpSourceNotContentSubspace
  | CpDanglingSource
  | CpTooManyRuns
  | CpEmptyResult

text \<open>The inner loop of \<^verbatim>\<open>copy\<close>, over the runs one spec resolves to.\<close>

fun copy_runs :: "content_store \<Rightarrow> run list \<Rightarrow> run list \<Rightarrow> (run list, copy_error) result exec" where
  "copy_runs c acc [] = ok acc"
| "copy_runs c acc (r # rs) = do {
     stored \<leftarrow> store_contains c (tumbler (i_start r));
     (if \<not> stored then err CpDanglingSource
      else do {
        acc \<leftarrow> extend_or_push_run acc r;
        (if length acc > max_placed_runs then err CpTooManyRuns else copy_runs c acc rs) }) }"

text \<open>The outer loop, over the specs; \<open>steps\<close> is a \<^verbatim>\<open>usize\<close> with a saturating addition.\<close>

fun copy_specs :: "world \<Rightarrow> nat \<Rightarrow> run list \<Rightarrow> vspec list \<Rightarrow> (run list, copy_error) result exec" where
  "copy_specs w steps acc [] = ok acc"
| "copy_specs w steps acc (sp # sps) = do {
     reg \<leftarrow> is_registered_document (w_namespace w) (vs_source sp);
     (if \<not> reg then err CpSourceNotRegistered
      else case as_ordinal_vspan (vs_span sp) of
             None \<Rightarrow> err CpNotOrdinalVSpan
           | Some v \<Rightarrow>
               if \<not> ov_is_content v then err CpSourceNotContentSubspace
               else if content_is_empty (w_arrangement w) (vs_source sp) then err CpEmptySource
               else
                 let steps = saturating_add steps (content_run_count (w_arrangement w) (vs_source sp)) in
                 if steps > max_copy_resolve_steps then err CpTooManyRuns
                 else do {
                   rs \<leftarrow> resolve (w_arrangement w) (vs_source sp) (vs_span sp);
                   and_then (copy_runs (w_content w) acc rs) (\<lambda>acc. copy_specs w steps acc sps) }) }"

definition copy_op ::
    "bool \<Rightarrow> caller \<Rightarrow> address \<Rightarrow> v_pos \<Rightarrow> vspec list \<Rightarrow> as_of \<Rightarrow> 'c world_staging \<Rightarrow>
     ('c world_staging \<times> unit, copy_error) result exec" where
  "copy_op dbg c d at specs asof stg =
     and_then (gate_write (w_m3 stg) c d CpDocNotRegistered CpNotOwner) (\<lambda>_. do {
       p \<leftarrow> published_target (w_m3 stg) d;
       (if p then err CpPublishedTarget
        else case arrangement_moved (w_m5 stg) d asof of
               Some (typed, current) \<Rightarrow> err (CpArrangementMoved typed current)
             | None \<Rightarrow>
                 if \<not> vpos_is_content at then err CpNotContentSubspace
                 else if \<not> admits_content_boundary (w_m5 stg) d (vp_ordinal at) then err CpOutOfBounds
                 else and_then (copy_specs (stg_working stg) 0 [] specs) (\<lambda>runs.
                   if runs = [] then err CpEmptyResult
                   else do {
                     stg \<leftarrow> stg_push (apply_world dbg) stg
                              (ArrangementRec (ContentPlace d (vp_ordinal at) runs));
                     ok (stg, ()) })) })"

section \<open>DELETE\<close>

datatype delete_error =
    DelDocNotRegistered
  | DelNotOwner address
  | DelPublishedTarget
  | DelArrangementMoved nat nat
  | DelNotContentSubspace
  | DelNotArranged
  | DelOutOfBounds
  | DelEmptyWidth

definition stage_delete_at ::
    "bool \<Rightarrow> caller \<Rightarrow> address \<Rightarrow> v_pos \<Rightarrow> nat \<Rightarrow> as_of \<Rightarrow> 'c world_staging \<Rightarrow>
     ('c world_staging \<times> unit, delete_error) result exec" where
  "stage_delete_at dbg c d p wd asof stg =
     and_then (gate_write (w_m3 stg) c d DelDocNotRegistered DelNotOwner) (\<lambda>_. do {
       pub \<leftarrow> published_target (w_m3 stg) d;
       (if pub then err DelPublishedTarget
        else case arrangement_moved (w_m5 stg) d asof of
               Some (typed, current) \<Rightarrow> err (DelArrangementMoved typed current)
             | None \<Rightarrow>
                 if \<not> vpos_is_content p then err DelNotContentSubspace
                 else do {
                   arr \<leftarrow> arranges_content_position (w_m5 stg) d (vp_ordinal p);
                   (if \<not> arr then err DelNotArranged
                    else if \<not> contains_content_range (w_m5 stg) d (vp_ordinal p) wd then err DelOutOfBounds
                    else if nat_is_zero wd then err DelEmptyWidth
                    else do {
                      stg \<leftarrow> stg_push (apply_world dbg) stg
                               (ArrangementRec (ContentRemove d (vp_ordinal p) wd));
                      ok (stg, ()) }) }) })"

section \<open>REARRANGE\<close>

datatype rearrange_error =
    ReDocNotRegistered
  | ReNotOwner address
  | RePublishedTarget
  | ReArrangementMoved nat nat
  | ReBadCutCount
  | ReNotAscending
  | ReNotContentSubspace
  | ReOutOfBounds
  | ReEmptyContentSubspace

definition cut_ends :: "v_pos list \<Rightarrow> (v_pos \<times> v_pos) option" where
  "cut_ends cuts =
     (case cuts of [a, _, b] \<Rightarrow> Some (a, b) | [a, _, _, b] \<Rightarrow> Some (a, b) | _ \<Rightarrow> None)"

definition rearrange_op ::
    "bool \<Rightarrow> caller \<Rightarrow> address \<Rightarrow> v_pos list \<Rightarrow> as_of \<Rightarrow> 'c world_staging \<Rightarrow>
     ('c world_staging \<times> unit, rearrange_error) result exec" where
  "rearrange_op dbg c d cuts asof stg =
     and_then (gate_write (w_m3 stg) c d ReDocNotRegistered ReNotOwner) (\<lambda>_. do {
       pub \<leftarrow> published_target (w_m3 stg) d;
       (if pub then err RePublishedTarget
        else case arrangement_moved (w_m5 stg) d asof of
               Some (typed, current) \<Rightarrow> err (ReArrangementMoved typed current)
             | None \<Rightarrow>
                 (case cut_ends cuts of
                    None \<Rightarrow> err ReBadCutCount
                  | Some (a, b) \<Rightarrow>
                      if \<not> list_all (\<lambda>(x, y). vp_ordinal x < vp_ordinal y) (zip cuts (tl cuts)) then err ReNotAscending
                      else if \<not> list_all vpos_is_content cuts then err ReNotContentSubspace
                      else if \<not> admits_content_boundary (w_m5 stg) d (vp_ordinal a) \<or>
                              \<not> admits_content_boundary (w_m5 stg) d (vp_ordinal b) then err ReOutOfBounds
                      else if content_is_empty (w_m5 stg) d then err ReEmptyContentSubspace
                      else do {
                        stg \<leftarrow> stg_push (apply_world dbg) stg
                                 (ArrangementRec (ContentReorder d (map vp_ordinal cuts)));
                        ok (stg, ()) })) })"

section \<open>REINSTATE\<close>

datatype reinstate_error =
    RsDocNotRegistered
  | RsNotOwner address
  | RsPublishedTarget
  | RsArrangementMoved nat nat
  | RsNotContentSubspace
  | RsOutOfBounds
  | RsBadRun
  | RsSourceNotRegistered
  | RsDanglingSource
  | RsTooManyRuns
  | RsEmptyResult

fun reinstate_runs :: "world \<Rightarrow> run list \<Rightarrow> shot_run list \<Rightarrow> (run list, reinstate_error) result exec" where
  "reinstate_runs w acc [] = ok acc"
| "reinstate_runs w acc (sr # srs) = do {
     od \<leftarrow> run_origin_document (sr_run sr);
     (case od of
        None \<Rightarrow> err RsBadRun
      | Some origin_doc \<Rightarrow> do {
          t \<leftarrow> trunk_of (sr_origin sr);
          (if origin_doc \<noteq> t then err RsBadRun
           else do {
             reg \<leftarrow> is_registered_document (w_namespace w) origin_doc;
             (if \<not> reg then err RsSourceNotRegistered
              else do {
                cov \<leftarrow> pieces_covered
                  (store_pieces (w_content w) (tumbler (i_start (sr_run sr))) (run_width (sr_run sr)));
                (if \<not> cov then err RsDanglingSource
                 else do {
                   acc \<leftarrow> extend_or_push_run acc (sr_run sr);
                   (if length acc > max_placed_runs then err RsTooManyRuns
                    else reinstate_runs w acc srs) }) }) }) }) }"

definition stage_reinstate_at ::
    "bool \<Rightarrow> caller \<Rightarrow> address \<Rightarrow> v_pos \<Rightarrow> shot_run list \<Rightarrow> as_of \<Rightarrow> 'c world_staging \<Rightarrow>
     ('c world_staging \<times> unit, reinstate_error) result exec" where
  "stage_reinstate_at dbg c d at srs asof stg =
     and_then (gate_write (w_m3 stg) c d RsDocNotRegistered RsNotOwner) (\<lambda>_. do {
       pub \<leftarrow> published_target (w_m3 stg) d;
       (if pub then err RsPublishedTarget
        else case arrangement_moved (w_m5 stg) d asof of
               Some (typed, current) \<Rightarrow> err (RsArrangementMoved typed current)
             | None \<Rightarrow>
                 if \<not> vpos_is_content at then err RsNotContentSubspace
                 else if \<not> admits_content_boundary (w_m5 stg) d (vp_ordinal at) then err RsOutOfBounds
                 else and_then (reinstate_runs (stg_working stg) [] srs) (\<lambda>placement.
                   if placement = [] then err RsEmptyResult
                   else do {
                     stg \<leftarrow> stg_push (apply_world dbg) stg
                              (ArrangementRec (ContentPlace d (vp_ordinal at) placement));
                     ok (stg, ()) })) })"

section \<open>SET-ARRANGEMENT\<close>

datatype set_arrangement_error =
    SaDocNotRegistered
  | SaNotOwner address
  | SaPublishedTarget
  | SaArrangementMoved nat nat
  | SaBaseNotInChain
  | SaBaseExtentTooLarge
  | SaForkBaseMoved address
  | SaNoBaseToRecord
  | SaBadRun
  | SaSourceNotRegistered
  | SaDanglingSource
  | SaTooManyRuns

record set_arrangement =
  sa_runs :: "shot_run list"
  sa_head :: "base option"
  sa_base :: "base option"
  sa_merge :: "address list option"

definition in_chain :: "address \<Rightarrow> address \<Rightarrow> bool exec" where
  "in_chain member t =
     (if member = t then ret True else do { u \<leftarrow> trunk_of member; ret (u = t) })"

definition judge_registration :: "m3_state \<Rightarrow> base \<Rightarrow> (unit, set_arrangement_error) result exec" where
  "judge_registration m3 b = do {
     reg \<leftarrow> is_registered_document m3 (b_member b);
     (if reg then ok () else err SaSourceNotRegistered) }"

definition judge_pair ::
    "bool \<Rightarrow> m3_state \<Rightarrow> m5_state \<Rightarrow> base \<Rightarrow> address \<Rightarrow> (unit, set_arrangement_error) result exec" where
  "judge_pair dbg m3 m5 b t =
     and_then (judge_registration m3 b) (\<lambda>_. do {
       i \<leftarrow> in_chain (b_member b) t;
       (if \<not> i then err SaBaseNotInChain
        else do {
          p \<leftarrow> (if dbg then published_target m3 (b_member b) else ret True);
          (if \<not> p then panic
           else if b_extent b > content_count m5 (b_member b) then err SaBaseExtentTooLarge
           else ok ()) }) })"

text \<open>The verdicts \<^verbatim>\<open>unreachable!\<close> excludes are panics.\<close>

fun of_delete :: "delete_error \<Rightarrow> set_arrangement_error exec" where
  "of_delete DelDocNotRegistered = ret SaDocNotRegistered"
| "of_delete (DelNotOwner a) = ret (SaNotOwner a)"
| "of_delete DelPublishedTarget = ret SaPublishedTarget"
| "of_delete (DelArrangementMoved typed current) = ret (SaArrangementMoved typed current)"
| "of_delete _ = panic"

fun of_reinstate :: "reinstate_error \<Rightarrow> set_arrangement_error exec" where
  "of_reinstate RsDocNotRegistered = ret SaDocNotRegistered"
| "of_reinstate (RsNotOwner a) = ret (SaNotOwner a)"
| "of_reinstate RsPublishedTarget = ret SaPublishedTarget"
| "of_reinstate (RsArrangementMoved typed current) = ret (SaArrangementMoved typed current)"
| "of_reinstate RsBadRun = ret SaBadRun"
| "of_reinstate RsSourceNotRegistered = ret SaSourceNotRegistered"
| "of_reinstate RsDanglingSource = ret SaDanglingSource"
| "of_reinstate RsTooManyRuns = ret SaTooManyRuns"
| "of_reinstate _ = panic"

definition map_err_exec :: "('e \<Rightarrow> 'f exec) \<Rightarrow> ('a, 'e) result exec \<Rightarrow> ('a, 'f) result exec" where
  "map_err_exec f m = do { r \<leftarrow> m; (case r of Inl e \<Rightarrow> do { x \<leftarrow> f e; err x } | Inr x \<Rightarrow> ok x) }"

text \<open>The judgement of the head the landing was composed on, then of the base to record.\<close>

definition judge_head ::
    "bool \<Rightarrow> m3_state \<Rightarrow> m5_state \<Rightarrow> draft_base option \<Rightarrow> address option \<Rightarrow> base option \<Rightarrow>
     (unit, set_arrangement_error) result exec" where
  "judge_head dbg m3 m5 standing fork_source hd_of =
     (case hd_of of
        None \<Rightarrow> ok ()
      | Some h \<Rightarrow> do {
          ch \<leftarrow> (case standing of
                   Some b \<Rightarrow> do { t \<leftarrow> trunk_of (db_base b); ret (Some t) }
                 | None \<Rightarrow> (case fork_source of
                       Some s \<Rightarrow> do { t \<leftarrow> trunk_of s; ret (Some t) }
                     | None \<Rightarrow> ret None));
          and_then (case ch of Some t \<Rightarrow> judge_pair dbg m3 m5 h t | None \<Rightarrow> judge_registration m3 h) (\<lambda>_.
            (case fork_source of
               Some s \<Rightarrow> if s \<noteq> b_member h then err (SaForkBaseMoved s) else ok ()
             | None \<Rightarrow> ok ())) })"

definition judge_base ::
    "bool \<Rightarrow> m3_state \<Rightarrow> m5_state \<Rightarrow> draft_base option \<Rightarrow> base option \<Rightarrow>
     (unit, set_arrangement_error) result exec" where
  "judge_base dbg m3 m5 standing b =
     (case b of
        None \<Rightarrow> ok ()
      | Some b \<Rightarrow>
          (case standing of
             None \<Rightarrow> err SaNoBaseToRecord
           | Some s \<Rightarrow> do { t \<leftarrow> trunk_of (db_base s); judge_pair dbg m3 m5 b t }))"

definition stage_set_arrangement ::
    "bool \<Rightarrow> caller \<Rightarrow> address \<Rightarrow> set_arrangement \<Rightarrow> as_of \<Rightarrow> 'c world_staging \<Rightarrow>
     ('c world_staging \<times> address option, set_arrangement_error) result exec" where
  "stage_set_arrangement dbg c d req asof stg =
     (let m3 = w_m3 stg; m5 = w_m5 stg in
      and_then (gate_write m3 c d SaDocNotRegistered SaNotOwner) (\<lambda>_. do {
        pub \<leftarrow> published_target m3 d;
        (if pub then err SaPublishedTarget
         else case arrangement_moved m5 d asof of
                Some (typed, current) \<Rightarrow> err (SaArrangementMoved typed current)
              | None \<Rightarrow> do {
                  let standing = draft_bases m5 d;
                  fork_source \<leftarrow> (case (standing, fork_sources m5 d) of
                       (None, Some s) \<Rightarrow> do { p \<leftarrow> published_target m3 s; ret (if p then Some s else None) }
                     | _ \<Rightarrow> ret None);
                  and_then (judge_head dbg m3 m5 standing fork_source (sa_head req)) (\<lambda>_.
                  and_then (judge_base dbg m3 m5 standing (sa_base req)) (\<lambda>_. do {
                    head_moved \<leftarrow> (case sa_head req of
                        None \<Rightarrow> ret None
                      | Some h \<Rightarrow> do {
                          cur \<leftarrow> trunk_head m3 (b_member h);
                          ret (case cur of Some x \<Rightarrow> if x \<noteq> b_member h then Some x else None | None \<Rightarrow> None) });
                    let count = content_count m5 d;
                    and_then (if nat_is_zero count then ok stg
                              else map_err_exec of_delete (and_then
                                (stage_delete_at dbg c d (VPos_content 1) count Unchecked stg) (\<lambda>(stg, _). ok stg))) (\<lambda>stg.
                    and_then (if sa_runs req = [] then ok stg
                              else map_err_exec of_reinstate (and_then
                                (stage_reinstate_at dbg c d (VPos_content 1) (sa_runs req) Unchecked stg) (\<lambda>(stg, _). ok stg))) (\<lambda>stg.
                      (case (sa_base req, standing) of
                         (Some b, Some s) \<Rightarrow> do {
                           let mg = (case (sa_head req, sa_merge req) of
                               (Some h, Some sides) \<Rightarrow>
                                 Some \<lparr>mt_sides = sides, mt_head = b_member h, mt_head_copied = b_extent h\<rparr>
                             | _ \<Rightarrow> None);
                           stg \<leftarrow> stg_push (apply_world dbg) stg (ArrangementRec
                                    (DraftBaseSet d (b_member b) (b_extent b) (db_source s) mg));
                           ok (stg, head_moved) }
                       | _ \<Rightarrow> ok (stg, head_moved)))) })) }) }))"

section \<open>VERSION\<close>

datatype version_error =
    VsSourceNotRegistered
  | VsNotAPrincipal
  | VsNodeTierCrossOwner
  | VsPrivateSourceVersionless
  | VsPrivateVersionOfPublished
  | VsMint mint_error

datatype version_branch = Owned | CrossOwner address

text \<open>The branch, read of the snapshot.\<close>

definition version_branch_of ::
    "m3_state \<Rightarrow> principal_id \<Rightarrow> address \<Rightarrow> (version_branch, version_error) result exec" where
  "version_branch_of snap p source = do {
     reg \<leftarrow> is_registered_document snap source;
     (if \<not> reg then err VsSourceNotRegistered
      else if is_effective_owner snap p source then ok Owned
      else case principal_prefix snap p of
             None \<Rightarrow> err VsNotAPrincipal
           | Some pfx \<Rightarrow> do {
               acc \<leftarrow> is_registered_account snap pfx;
               (if \<not> acc then err VsNodeTierCrossOwner else ok (CrossOwner pfx)) }) }"

definition version_op ::
    "bool \<Rightarrow> m3_state \<Rightarrow> principal_id \<Rightarrow> address \<Rightarrow> bool option \<Rightarrow> 'c world_staging \<Rightarrow>
     ('c world_staging \<times> address, version_error) result exec" where
  "version_op dbg snap p source pub stg =
     and_then (version_branch_of snap p source) (\<lambda>branch. do {
       let m3 = w_m3 stg;
       source_published \<leftarrow> published_target m3 source;
       let fork_published = (case pub of Some b \<Rightarrow> b | None \<Rightarrow> source_published);
       and_then (case branch of
            Owned \<Rightarrow>
              if \<not> source_published then err VsPrivateSourceVersionless
              else if \<not> fork_published then err VsPrivateVersionOfPublished
              else from_err VsMint (mint_version m3 source fork_published)
          | CrossOwner pfx \<Rightarrow> from_err VsMint (mint_document m3 pfx fork_published)) (\<lambda>(new, m3rec). do {
         surface \<leftarrow> reading_surface m3 source;
         stg \<leftarrow> stg_push (apply_world dbg) stg (NamespaceRec m3rec);
         stg \<leftarrow> stg_push (apply_world dbg) stg (ArrangementRec (VersionSnapshot surface new));
         ok (stg, new) }) })"

section \<open>STAGE\<close>

datatype stage_error =
    StSourceNotRegistered
  | StNotAPrincipal
  | StNodeTierCrossOwner
  | StMint mint_error

definition stage_prefix :: "m3_state \<Rightarrow> principal_id \<Rightarrow> address \<Rightarrow> (address, stage_error) result exec" where
  "stage_prefix snap p source = do {
     reg \<leftarrow> is_registered_document snap source;
     (if \<not> reg then err StSourceNotRegistered
      else case principal_prefix snap p of
             None \<Rightarrow> err StNotAPrincipal
           | Some pfx \<Rightarrow> do {
               acc \<leftarrow> is_registered_account snap pfx;
               (if \<not> acc then err StNodeTierCrossOwner else ok pfx) }) }"

definition stage_op ::
    "bool \<Rightarrow> m3_state \<Rightarrow> principal_id \<Rightarrow> address \<Rightarrow> 'c world_staging \<Rightarrow>
     ('c world_staging \<times> address, stage_error) result exec" where
  "stage_op dbg snap p source stg =
     and_then (stage_prefix snap p source) (\<lambda>pfx. do {
       let m3 = w_m3 stg;
       surface \<leftarrow> reading_surface m3 source;
       pub \<leftarrow> published_target m3 surface;
       let recorded = (if pub then Some (surface, content_count (w_m5 stg) surface, None)
                       else map_option (\<lambda>b. (db_base b, db_extent b, map_option merge_of (db_merge b)))
                              (draft_bases (w_m5 stg) surface));
       and_then (from_err StMint (mint_document m3 pfx False)) (\<lambda>(draft, m3rec). do {
         stg \<leftarrow> stg_push (apply_world dbg) stg (NamespaceRec m3rec);
         stg \<leftarrow> stg_push (apply_world dbg) stg (ArrangementRec (VersionSnapshot surface draft));
         (case recorded of
            None \<Rightarrow> ok (stg, draft)
          | Some (b, ext, mg) \<Rightarrow> do {
              stg \<leftarrow> stg_push (apply_world dbg) stg (ArrangementRec (DraftBaseSet draft b ext surface mg));
              ok (stg, draft) }) }) })"

end
