(* ===== verification/World_Laws.thy ===== *)
theory World_Laws
  imports Arrangement_Ops Arrangement_Laws
begin

text \<open>
  The world as one state machine. \<open>world_inv\<close> joins the invariants of the namespace, the content and the
  arrangements with what holds between them: every stored entry lies on the content chain of a
  registered document within its frontier, every arranged address is stored, and only registered
  documents arrange anything. A record an operation stages is \<open>legal\<close>; the fold of a legal record
  returns and keeps the invariant.

  A transaction folds a composite twice, at the positions of its staging and at its commit position.
  \<open>undated\<close> erases what depends on the position, and \<open>transact_sound\<close> lifts what a closure leaves in its
  staging to the world its transaction installs.
\<close>

section \<open>The surfaces of a version chain\<close>

abbreviation registered :: "m3_state \<Rightarrow> address \<Rightarrow> bool" where
  "registered m3 d \<equiv> wf_address d \<and> level d = Document \<and> allocated m3 d"

lemma version_key_floor: "wf_address d \<Longrightarrow> level d = Document \<Longrightarrow> floor_of (version_ns d) = 0"
proof -
  assume "wf_address d" "level d = Document"
  then have "count_list (comps (tumbler d)) 0 = 2" using wf_level_zeros(3) by blast
  moreover have "tumbler d = tumbler_of [1, 1, 0, 1, 0, 1, 0, 1] \<Longrightarrow> count_list (comps (tumbler d)) 0 = 3"
    by simp
  ultimately have "version_ns d \<noteq> ghost_key" by (auto simp: version_ns_def ghost_key_def)
  then show ?thesis by (simp add: floor_of_def)
qed

lemma latest_version_eq:
  assumes "wf_address d"
  shows "latest_version m3 d = ret (if level d = Document \<and> stored_frontier m3 (version_ns d) \<noteq> 0
    then Some (addr_of (chain (version_ns d) (stored_frontier m3 (version_ns d)))) else None)"
  using assms wf_doc_keys(3) [OF assms]
  by (auto simp: latest_version_def stored_frontier_def nth_in_eq split: option.splits)

lemma latest_version_registered:
  assumes "wf_address d" "latest_version m3 d = ret (Some v)"
  shows "registered m3 v"
proof -
  let ?n = "stored_frontier m3 (version_ns d)"
  have v: "level d = Document" "0 < ?n" "v = addr_of (chain (version_ns d) ?n)"
    using assms by (auto simp: latest_version_eq split: if_splits)
  have k: "wf_key (version_ns d)" using wf_doc_keys(3) assms(1) v(1) by blast
  show ?thesis
    using v k version_key_floor [OF assms(1) v(1)] key_levels(3) [OF assms(1) v(1)]
    by (simp add: wf_chain allocated_def)
qed

lemma fields_eqI: "wf_address a \<Longrightarrow> wf_address b \<Longrightarrow> addr_fields a = addr_fields b \<Longrightarrow> a = b"
  by (metis comps_join_fields comps_inject wf_address_eqI)

lemma trunk_version:
  assumes "wf_address p" "level p = Document" "0 < n"
  shows "trunk (addr_of (chain (version_ns p) n)) = trunk p"
proof -
  let ?d = "addr_of (chain (version_ns p) n)"
  have d: "wf_address ?d" "level ?d = Document"
    using assms wf_chain [OF wf_doc_keys(3) [OF assms(1,2)] assms(3)] key_levels(3) [OF assms(1,2)] by simp_all
  have "length (addr_fields p) = 3" using wf_address_level(3) [OF assms(1)] assms(2) by simp
  then obtain x y z where f: "addr_fields p = [x, y, z]" by (auto simp: numeral_3_eq_3 length_Suc_conv)
  have "z \<noteq> []" using wf_field_nonempty [OF assms(1)] f by simp
  moreover have "addr_fields ?d = [x, y, z @ [n]]"
    using assms(3) split_zeros_snoc [of n "comps (tumbler p)"] f
    by (simp add: addr_fields_def chain_family)
  ultimately have "addr_fields (trunk ?d) = addr_fields (trunk p)"
    using trunk_eq(4) [OF d] trunk_eq(4) [OF assms(1,2)] f by (simp add: numeral_2_eq_2)
  then show ?thesis using fields_eqI trunk_eq(2) d(1) assms(1) by blast
qed

lemma trunk_document:
  assumes "wf_address a" "level a = Account" "0 < n"
  shows "trunk (addr_of (chain (document_ns a) n)) = addr_of (chain (document_ns a) n)"
proof -
  let ?d = "addr_of (chain (document_ns a) n)"
  have d: "wf_address ?d" "level ?d = Document"
    using assms wf_chain [OF wf_account_keys(1) [OF assms(1,2)] assms(3)] key_levels(4) [OF assms(1,2)] by simp_all
  have "length (addr_fields a) = 2" using wf_address_level(2) [OF assms(1)] assms(2) by simp
  then obtain x y where f: "addr_fields a = [x, y]" by (auto simp: numeral_2_eq_2 length_Suc_conv)
  have "addr_fields ?d = [x, y, [n]]"
    using assms(3) f by (simp add: addr_fields_def chain_family split_zeros_append_zero)
  then have "addr_fields (trunk ?d) = addr_fields ?d" using trunk_eq(4) [OF d] by (simp add: numeral_2_eq_2)
  then show ?thesis using fields_eqI trunk_eq(2) d(1) by blast
qed

lemma trunk_registered:
  assumes "inv_chains m3" "registered m3 d"
  shows "registered m3 (trunk d)"
  using assms(2)
proof (induction "tumbler_len (tumbler d)" arbitrary: d rule: less_induct)
  case less
  then have d: "wf_address d" "allocated m3 d" "level d = Document" by simp_all
  note c = allocated_on_anchored [OF assms(1) d(1,2)]
  let ?n = "ordinal (tumbler d)"
  have an: "anchored m3 (key_of d)" "d = addr_of (chain (key_of d) ?n)" "0 < ?n"
    using c d(3) by simp_all
  have lvl: "key_level (key_of d) = Document" using on_own_chain(3) [OF an(1,3)] an(2) d(3) by simp
  from an(1) show ?case
  proof (cases rule: anchoredE)
    case (version p)
    have "comps (tumbler d) = comps (tumbler p) @ [?n]"
      using an(2) version(4) by (metis chain_family(1) chain_simps(1) comps_addr_of)
    then have "tumbler_len (tumbler p) < tumbler_len (tumbler d)" by (simp add: tumbler_len_def)
    moreover have "trunk d = trunk p" using trunk_version [OF version(1,3) an(3)] an(2) version(4) by simp
    ultimately show ?thesis using less.hyps [of p] version by simp
  next
    case (document a)
    then have "trunk d = d" using trunk_document [OF document(1,3) an(3)] an(2) by simp
    then show ?thesis using less.prems by simp
  qed (use lvl key_levels in auto)
qed

text \<open>The closed forms of the chain's reads.\<close>

definition head_of :: "m3_state \<Rightarrow> address \<Rightarrow> address option" where
  "head_of m3 d = the (latest_version m3 (trunk d))"

lemma chain_reads [returns]:
  assumes "wf_address d"
  shows "published_target m3 d = ret (published m3 (trunk d))"
    "trunk_head m3 d = ret (head_of m3 d)"
    "deposit_surface m3 d = ret (if published m3 (trunk d)
       then (case head_of m3 d of Some v \<Rightarrow> v | None \<Rightarrow> trunk d) else d)"
    "reading_surface m3 d = ret (if trunk d = d \<and> published m3 d
       then (case head_of m3 d of Some v \<Rightarrow> v | None \<Rightarrow> d) else d)"
proof -
  show p: "published_target m3 d = ret (published m3 (trunk d))"
    using trunk_eq(1) [OF assms] by (simp add: published_target_def)
  have "latest_version m3 (trunk d) = ret (head_of m3 d)"
    using latest_version_eq [OF trunk_eq(2) [OF assms]] by (simp add: head_of_def)
  then show h: "trunk_head m3 d = ret (head_of m3 d)"
    using trunk_eq(1) [OF assms] by (simp add: trunk_head_def)
  show "deposit_surface m3 d = ret (if published m3 (trunk d)
       then (case head_of m3 d of Some v \<Rightarrow> v | None \<Rightarrow> trunk d) else d)"
    using p h trunk_eq(1) [OF assms] by (auto simp: deposit_surface_def split: option.splits)
  show "reading_surface m3 d = ret (if trunk d = d \<and> published m3 d
       then (case head_of m3 d of Some v \<Rightarrow> v | None \<Rightarrow> d) else d)"
    using p h trunk_eq(1) [OF assms] by (auto simp: reading_surface_def split: option.splits)
qed

lemma head_registered: "wf_address d \<Longrightarrow> head_of m3 d = Some v \<Longrightarrow> registered m3 v \<and> trunk v = trunk d"
proof -
  assume d: "wf_address d" and h: "head_of m3 d = Some v"
  note t = trunk_eq(2) [OF d]
  have l: "latest_version m3 (trunk d) = ret (Some v)" using h latest_version_eq [OF t] by (simp add: head_of_def)
  then have v: "level (trunk d) = Document" "v = addr_of (chain (version_ns (trunk d)) (stored_frontier m3 (version_ns (trunk d))))"
    "0 < stored_frontier m3 (version_ns (trunk d))"
    using latest_version_eq [OF t, of m3] by (auto split: if_splits)
  then have "trunk v = trunk (trunk d)" using trunk_version [OF t v(1,3)] by simp
  moreover have "trunk (trunk d) = trunk d"
  proof -
    have lv: "level d = Document" using trunk_eq(3) [OF d] v(1) by simp
    have "addr_fields (trunk (trunk d)) = addr_fields (trunk d)"
      using trunk_eq(4) [OF t v(1)] trunk_eq(4) [OF d lv] wf_address_level(3) [OF d] lv
      by (simp add: min_def nth_append)
    then show ?thesis using fields_eqI trunk_eq(2) t by blast
  qed
  ultimately show ?thesis using latest_version_registered [OF t l] by simp
qed


section \<open>Content slots\<close>

text \<open>An entry of width \<open>w\<close> lies on the content chain of a registered document, within its frontier.\<close>

definition slotted :: "m3_state \<Rightarrow> address \<Rightarrow> nat \<Rightarrow> bool" where
  "slotted m3 a w \<longleftrightarrow> (\<exists>h k. registered m3 h \<and> 0 < w \<and> 0 < k \<and> floor_of (content_key h) < k \<and>
     k + w \<le> frontier m3 (content_key h) + 1 \<and> a = addr_of (chain (content_key h) k))"

lemma content_slot:
  assumes "wf_address h" "level h = Document" "0 < k"
  shows "full_pos (addr_of (chain (content_key h) k))"
    "document_of (addr_of (chain (content_key h) k)) = ret (Some h)"
    "debug_assert_content_address_routing dbg (addr_of (chain (content_key h) k)) = ret ()"
    "addr_plus (addr_of (chain (content_key h) k)) i = addr_of (chain (content_key h) (k + i))"
    "advance (tumbler (addr_of (chain (content_key h) k))) i = tumbler (addr_of (chain (content_key h) (k + i)))"
proof -
  let ?a = "addr_of (chain (content_key h) k)"
  have wf: "wf_address ?a" by (rule wf_chain [OF wf_doc_keys(1) [OF assms(1,2)] assms(3)])
  have "length (addr_fields h) = 3" using wf_address_level(3) [OF assms(1)] assms(2) by simp
  then have "addr_fields ?a = addr_fields h @ [[1, k]]" "addr_fields ?a ! 3 = [1, k]"
    using assms(3) by (simp_all add: addr_fields_def chain_content split_zeros_append_zero nth_append)
  note f = this
  have lvl: "level ?a = Element" using assms(3) key_levels(1) [OF assms(1,2)] by simp
  show "full_pos ?a" using wf lvl f by (simp add: full_pos_def)
  then have full: "full_pos (addr_plus ?a i)" "wf_address (addr_plus ?a i)" by (rule full_pos_addr_plus)+
  show "document_of ?a = ret (Some h)"
    using document_of_element [OF assms(1,2) _ assms(3), of 1] wf by (simp add: chain_content)
  show "debug_assert_content_address_routing dbg ?a = ret ()"
    using subspace_eq [OF wf] lvl f(2) by (simp add: debug_assert_content_address_routing_def content_subspace_def)
  show "advance (tumbler ?a) i = tumbler (addr_of (chain (content_key h) (k + i)))"
    by (simp add: chain_content butlast_append flip: comps_inject)
  then show "addr_plus ?a i = addr_of (chain (content_key h) (k + i))"
    using wf_address_eqI [OF full(2)] wf_chain [OF wf_doc_keys(1) [OF assms(1,2)], of "k + i"] assms(3) by simp
qed

lemma slotted_full: "slotted m3 a w \<Longrightarrow> full_pos a"
  by (auto simp: slotted_def content_slot)

text \<open>What lies in an entry's extent extends one of its addresses.\<close>

lemma extent_prefix:
  assumes "t \<in> extent (a, st)"
  shows "\<exists>i < stored_width st. is_prefix (advance (tumbler a) i) t"
proof (cases st)
  case (Value v)
  then show ?thesis using assms by (simp add: is_prefix_iff)
next
  case (Stretch bs)
  then have "advance (tumbler a) 0 \<le> t \<and> t < advance (tumbler a) (length bs)" using assms by simp
  then show ?thesis unfolding between_advances_iff using Stretch by auto
qed

lemma slots_apart:
  assumes "registered m3 h" "registered m3 g" "0 < k" "0 < j"
    and "is_prefix (tumbler (addr_of (chain (content_key h) k))) (tumbler (addr_of (chain (content_key g) j)))"
  shows "content_key h = content_key g \<and> k = j"
proof -
  have "addr_of (chain (content_key h) k) = addr_of (chain (content_key g) j)"
    using join_zeros_prefix_fields content_slot(1) assms by metis
  then show ?thesis using chain_inject_key wf_doc_keys(1) assms by metis
qed

text \<open>An entry at the next position of a content chain touches no entry within the frontiers.\<close>

lemma next_fresh:
  assumes "\<forall>e \<in> set (entries c). slotted m3 (fst e) (stored_width (snd e))" "registered m3 h"
  shows "fresh c (next_addr m3 (content_key h), st)"
proof -
  let ?f = "frontier m3 (content_key h)"
  have "tumbler (next_addr m3 (content_key h)) \<notin> extent e \<and>
      key e \<notin> extent (next_addr m3 (content_key h), st)" if e: "e \<in> set (entries c)" for e
  proof -
    obtain a u where au: "e = (a, u)" by (cases e)
    then have "slotted m3 a (stored_width u)" using assms(1) e by fastforce
    then obtain g k where g: "registered m3 g" "0 < k" "k + stored_width u \<le> frontier m3 (content_key g) + 1"
      "a = addr_of (chain (content_key g) k)" "0 < stored_width u" by (auto simp: slotted_def)
    have "tumbler (next_addr m3 (content_key h)) \<notin> extent (a, u)"
    proof
      assume "tumbler (next_addr m3 (content_key h)) \<in> extent (a, u)"
      then obtain i where i: "i < stored_width u" "is_prefix (tumbler (addr_of (chain (content_key g) (k + i))))
          (tumbler (addr_of (chain (content_key h) (?f + 1))))"
        using extent_prefix content_slot(5) g(1,2,4) by (metis next_addr_def)
      then have "content_key g = content_key h \<and> k + i = ?f + 1"
        using slots_apart [OF g(1) assms(2) _ _ i(2)] g(2) by linarith
      then show False using g(3) i(1) by simp
    qed
    moreover have "key e \<notin> extent (next_addr m3 (content_key h), st)"
    proof
      assume "key e \<in> extent (next_addr m3 (content_key h), st)"
      then obtain i where i: "is_prefix (tumbler (addr_of (chain (content_key h) (?f + 1 + i))))
          (tumbler (addr_of (chain (content_key g) k)))"
        using extent_prefix content_slot(5) assms(2) g(4) au by (metis next_addr_def fst_conv add_gr_0 less_one)
      then have "content_key h = content_key g \<and> ?f + 1 + i = k"
        using slots_apart [OF assms(2) g(1) _ _ i] g(2) by linarith
      then have "k = frontier m3 (content_key g) + 1 + i" by (elim conjE) simp
      then show False using g(3,5) by simp
    qed
    ultimately show ?thesis using au by simp
  qed
  then show ?thesis by (simp add: fresh_def)
qed


section \<open>The world's invariant\<close>

definition stored_at :: "world \<Rightarrow> address \<Rightarrow> bool" where
  "stored_at w a \<longleftrightarrow> content (w_content w) (tumbler a) \<noteq> None"

definition placed_ok :: "world \<Rightarrow> bool" where
  "placed_ok w \<longleftrightarrow> (\<forall>d. arranged (w_arrangement w) d \<noteq> [] \<longrightarrow> registered (w_namespace w) d) \<and>
     (\<forall>d. \<forall>a \<in> set (arranged (w_arrangement w) d). stored_at w a)"

definition bases_ok :: "world \<Rightarrow> bool" where
  "bases_ok w \<longleftrightarrow>
     (\<forall>d b. draft_bases (w_arrangement w) d = Some b \<longrightarrow>
        wf_address (db_base b) \<and> published (w_namespace w) (trunk (db_base b))) \<and>
     (\<forall>d s. fork_sources (w_arrangement w) d = Some s \<longrightarrow> wf_address s)"

definition world_inv :: "world \<Rightarrow> bool" where
  "world_inv w \<longleftrightarrow> m3_inv (w_namespace w) \<and> wf_store (w_content w) \<and> m5_inv (w_arrangement w) \<and>
     (\<forall>e \<in> set (entries (w_content w)). slotted (w_namespace w) (fst e) (stored_width (snd e))) \<and>
     placed_ok w \<and> bases_ok w"

lemma world_invD:
  assumes "world_inv w"
  shows "m3_inv (w_namespace w)" "wf_store (w_content w)" "m5_inv (w_arrangement w)"
    "\<forall>e \<in> set (entries (w_content w)). slotted (w_namespace w) (fst e) (stored_width (snd e))"
    "placed_ok w" "bases_ok w" "inv_chains (w_namespace w)"
  using assms by (simp_all add: world_inv_def m3_inv_def)

lemma placed_okD:
  "placed_ok w \<Longrightarrow> a \<in> set (arranged (w_arrangement w) d) \<Longrightarrow> stored_at w a \<and> registered (w_namespace w) d"
  by (metis placed_ok_def emptyE empty_set)

text \<open>The records the operations stage against a world.\<close>

definition publishable :: "m3_state \<Rightarrow> address \<Rightarrow> bool" where
  "publishable m3 d \<longleftrightarrow> wf_address d \<and> published m3 (trunk d)"

fun legal_m5 :: "world \<Rightarrow> m5_rec \<Rightarrow> bool" where
  "legal_m5 w (ContentPlace d ord rs) \<longleftrightarrow>
     registered (w_namespace w) d \<and> wf_runs rs \<and> (\<forall>a \<in> set (flat rs). stored_at w a)"
| "legal_m5 w (VersionSnapshot s d) \<longleftrightarrow> wf_address s \<and> registered (w_namespace w) d"
| "legal_m5 w (ShotPlace d rs terms draft) \<longleftrightarrow>
     registered (w_namespace w) d \<and> wf_runs rs \<and> (\<forall>a \<in> set (flat rs). stored_at w a) \<and>
     (draft \<noteq> None \<longrightarrow> publishable (w_namespace w) d)"
| "legal_m5 w (DraftBaseSet d b ext s mg) \<longleftrightarrow> wf_address d \<and> publishable (w_namespace w) b"
| "legal_m5 w r \<longleftrightarrow> wf_m5_rec r"

fun legal :: "world \<Rightarrow> world_rec \<Rightarrow> bool" where
  "legal w (NamespaceRec r) \<longleftrightarrow> mintable (w_namespace w) r"
| "legal w (ContentRec r) \<longleftrightarrow> slotted (w_namespace w) (cw_addr r) 1 \<and>
     fresh (w_content w) (rec_entry (WriteRec r))"
| "legal w (ContentStretchRec r) \<longleftrightarrow> slotted (w_namespace w) (cs_first r) (length (cs_bytes r)) \<and>
     length (cs_bytes r) < 2 ^ 64 \<and> fresh (w_content w) (rec_entry (StretchRec r))"
| "legal w (ArrangementRec r) \<longleftrightarrow> legal_m5 w r"

lemma legal_m5_wf: "legal_m5 w r \<Longrightarrow> wf_m5_rec r"
  by (cases r) auto

text \<open>What the namespace's growth keeps.\<close>

definition namespace_extends :: "m3_state \<Rightarrow> m3_state \<Rightarrow> bool" where
  "namespace_extends m m' \<longleftrightarrow>
     (\<forall>a. wf_address a \<longrightarrow> allocated m a \<longrightarrow> allocated m' a) \<and>
     (\<forall>k. frontier m k \<le> frontier m' k) \<and>
     (\<forall>d. amap_contains (m3_publication m) d \<longrightarrow> published m' d = published m d) \<and>
     (\<forall>d. amap_contains (m3_publication m) d \<longrightarrow> amap_contains (m3_publication m') d)"

lemma extends_refl [simp]: "namespace_extends m m"
  by (simp add: namespace_extends_def)

lemma extends_trans: "namespace_extends m m' \<Longrightarrow> namespace_extends m' m'' \<Longrightarrow> namespace_extends m m''"
  unfolding namespace_extends_def by (meson le_trans)

lemma published_contained: "published m d \<Longrightarrow> amap_contains (m3_publication m) d"
  by (auto simp: published_def amap_contains_def amap_get_def split: option.splits)

lemma extends_keeps:
  assumes "namespace_extends m m'"
  shows "registered m d \<Longrightarrow> registered m' d" "slotted m a w \<Longrightarrow> slotted m' a w"
    "published m d \<Longrightarrow> published m' d"
proof -
  note * = assms [unfolded namespace_extends_def]
  show "registered m d \<Longrightarrow> registered m' d" using * by blast
  show "slotted m a w \<Longrightarrow> slotted m' a w"
    unfolding slotted_def using *
    by (elim exE conjE, intro exI conjI) (auto intro: order_trans)
  show "published m d \<Longrightarrow> published m' d" using * published_contained by blast
qed

lemma registered_published:
  assumes "inv_publication m" "namespace_extends m m'" "registered m d"
  shows "published m' d = published m d"
proof -
  have "d \<in> fst ` set (m3_publication m)" using assms(1,3) by (simp add: inv_publication_def)
  then have "amap_contains (m3_publication m) d" by (auto simp: amap_contains_iff)
  then show ?thesis using assms(2) by (simp add: namespace_extends_def)
qed

lemma amap_entry_cong: "tumbler a = tumbler b \<Longrightarrow> amap_entry m a = amap_entry m b"
  by (induction m) auto

lemma mintable_extends:
  assumes "m3_inv m" "mintable m r" "apply_m3 at m r = ret m'"
  shows "namespace_extends m m'"
proof -
  obtain m'' where "apply_m3 at m r = ret m''" "grows m (issues r) m''"
    using mintable_step [OF assms(1,2)] by blast
  then have g: "grows m (issues r) m'" using assms(3) by simp
  have "frontier m k \<le> frontier m' k \<and>
     (amap_contains (m3_publication m) d \<longrightarrow> published m' d = published m d \<and> amap_contains (m3_publication m') d)" for k d
  proof (cases r)
    case (Allocate x)
    then obtain j where j: "anchored m j" "alloc_addr x = addr_of (chain j (frontier m j + 1))"
      using assms(2) by auto
    then have m': "m' = after_allocate at m j x" using assms(3) Allocate apply_allocate [OF j] by simp
    have "frontier m k \<le> frontier m' k"
      by (auto simp: m' after_allocate_def frontier_def stored_frontier_def)
    moreover have "amap_get (m3_publication m') d = amap_get (m3_publication m) d \<and> amap_contains (m3_publication m') d"
      if "amap_contains (m3_publication m) d"
      using that amap_entry_cong [of "alloc_addr x" d "m3_publication m"]
      by (auto simp: m' after_allocate_def amap_contains_def amap_entry_insert)
    ultimately show ?thesis by (simp add: published_def)
  next
    case (AllocateRange x)
    then obtain h where h: "registered m h" "range_first x = addr_of (chain (content_key h) (frontier m (content_key h) + 1))"
      using assms(2) by auto
    have "anchored m (content_key h)" using h(1) by blast
    then have "m' = m\<lparr>m3_frontiers := (m3_frontiers m)(content_key h \<mapsto> frontier m (content_key h) + range_count x)\<rparr>"
      using assms(3) AllocateRange apply_range [OF _ h(2)] by simp
    then show ?thesis by (auto simp: frontier_def stored_frontier_def published_def)
  qed (use assms(3) in \<open>auto simp: published_def split: if_splits\<close>)
  then show ?thesis using g by (simp add: namespace_extends_def grows_def)
qed


section \<open>One record\<close>

text \<open>What a legal record does to the world: nothing stored or registered is lost.\<close>

definition world_extends :: "world \<Rightarrow> world \<Rightarrow> bool" where
  "world_extends w w' \<longleftrightarrow> namespace_extends (w_namespace w) (w_namespace w') \<and>
     content (w_content w) \<subseteq>\<^sub>m content (w_content w')"

lemma world_extends_refl [simp]: "world_extends w w"
  by (simp add: world_extends_def)

lemma world_extends_trans: "world_extends w w' \<Longrightarrow> world_extends w' w'' \<Longrightarrow> world_extends w w''"
  unfolding world_extends_def using extends_trans map_le_trans by blast

lemma world_extends_stored: "world_extends w w' \<Longrightarrow> stored_at w a \<Longrightarrow> stored_at w' a"
  by (auto simp: world_extends_def stored_at_def map_le_def dom_def)

text \<open>The world after a record of the namespace or the content: the arrangement stands.\<close>

lemma extends_inv:
  assumes "world_inv w" "world_extends w w'" "w_arrangement w' = w_arrangement w"
    "m3_inv (w_namespace w')" "wf_store (w_content w')"
    "\<forall>e \<in> set (entries (w_content w')). slotted (w_namespace w') (fst e) (stored_width (snd e))"
  shows "world_inv w'"
proof -
  have ext: "namespace_extends (w_namespace w) (w_namespace w')" using assms(2) by (simp add: world_extends_def)
  have "placed_ok w'"
    unfolding placed_ok_def assms(3)
    using world_invD(5) [OF assms(1)] extends_keeps(1) [OF ext] world_extends_stored [OF assms(2)]
    by (auto simp: placed_ok_def)
  moreover have "bases_ok w'"
    using world_invD(6) [OF assms(1)] extends_keeps(3) [OF ext] by (simp add: bases_ok_def assms(3))
  ultimately show ?thesis using assms world_invD(3) [OF assms(1)] by (simp add: world_inv_def)
qed

lemma apply_namespace:
  assumes "world_inv w" "mintable (w_namespace w) r"
  obtains m where "apply_world dbg at w (NamespaceRec r) = ret (w\<lparr>w_namespace := m\<rparr>)"
    "apply_m3 at (w_namespace w) r = ret m" "m3_inv m" "grows (w_namespace w) (issues r) m"
    "world_inv (w\<lparr>w_namespace := m\<rparr>)" "world_extends w (w\<lparr>w_namespace := m\<rparr>)"
proof -
  obtain m where m: "apply_m3 at (w_namespace w) r = ret m" "m3_inv m" "grows (w_namespace w) (issues r) m"
    using mintable_step [OF world_invD(1) [OF assms(1)] assms(2)] by blast
  have ext: "namespace_extends (w_namespace w) m"
    by (rule mintable_extends [OF world_invD(1) [OF assms(1)] assms(2) m(1)])
  then have wext: "world_extends w (w\<lparr>w_namespace := m\<rparr>)" by (simp add: world_extends_def)
  have "world_inv (w\<lparr>w_namespace := m\<rparr>)"
    by (rule extends_inv [OF assms(1) wext])
       (use m(2) world_invD(2,4) [OF assms(1)] extends_keeps(2) [OF ext] in auto)
  then show thesis using that m wext by simp
qed

text \<open>Both content records at once: \<open>x\<close> is the record of the content slice.\<close>

fun content_rec_of :: "content_rec \<Rightarrow> world_rec" where
  "content_rec_of (WriteRec x) = ContentRec x"
| "content_rec_of (StretchRec x) = ContentStretchRec x"

lemma within_frontier:
  assumes "slotted m3 (cs_first x) (length (cs_bytes x))"
  shows "stretch_within_frontier m3 x = ret True"
proof -
  let ?a = "cs_first x" and ?n = "length (cs_bytes x)"
  obtain h k where h: "registered m3 h" "0 < k" "k + ?n \<le> frontier m3 (content_key h) + 1"
    "?a = addr_of (chain (content_key h) k)" "0 < ?n" using assms by (auto simp: slotted_def)
  have "next_content_address m3 h = ret (Some (next_addr m3 (content_key h)))"
    using mint_content_eq [of h m3] h(1) by (simp add: next_content_address_def)
  moreover have "shift (tumbler ?a) ?n = ret (advance (tumbler ?a) ?n)" using h(5) by simp
  moreover have "advance (tumbler ?a) ?n \<le> tumbler (next_addr m3 (content_key h))"
  proof -
    have "advance (tumbler ?a) ?n = tumbler (addr_of (chain (content_key h) (k + ?n)))"
      using content_slot(5) h(1,2,4) by simp
    then show ?thesis using h(3) by (simp add: next_addr_def chain_content less_eq_tumbler_def le_less)
  qed
  ultimately show ?thesis using content_slot(2) [of h k] h(1,2,4)
    by (simp add: stretch_within_frontier_def)
qed

lemma apply_content:
  assumes "world_inv w" "legal w (content_rec_of x)"
  obtains c where "apply_world dbg at w (content_rec_of x) = ret (w\<lparr>w_content := c\<rparr>)"
    "content c = content (w_content w) ++ cell_at (rec_entry x)"
    "dom (content (w_content w)) \<inter> dom (cell_at (rec_entry x)) = {}"
    "world_inv (w\<lparr>w_content := c\<rparr>)" "world_extends w (w\<lparr>w_content := c\<rparr>)"
proof -
  note inv = world_invD [OF assms(1)]
  have sl: "slotted (w_namespace w) (fst (rec_entry x)) (stored_width (snd (rec_entry x)))"
    using assms(2) by (cases x) simp_all
  have "wf_address (fst (rec_entry x))" using slotted_full [OF sl] by (simp add: full_pos_def)
  then have wf: "wf_entry (rec_entry x)" using assms(2) by (cases x) (auto simp: slotted_def)
  have fr: "fresh (w_content w) (rec_entry x)" using assms(2) by (cases x) simp_all
  obtain c where c: "content_fold dbg (w_content w) x = ret c" "wf_store c"
    "content c = content (w_content w) ++ cell_at (rec_entry x)"
    "dom (content (w_content w)) \<inter> dom (cell_at (rec_entry x)) = {}"
    "set (entries c) = insert (rec_entry x) (set (entries (w_content w)))"
    by (rule content_fold_fresh [OF inv(2) wf fr])
  have "content (w_content w) \<subseteq>\<^sub>m content c"
    using c(3,4) by (auto simp: map_le_def map_add_def split: option.splits)
  then have ext: "world_extends w (w\<lparr>w_content := c\<rparr>)" by (simp add: world_extends_def)
  have "world_inv (w\<lparr>w_content := c\<rparr>)"
    by (rule extends_inv [OF assms(1) ext]) (use inv c(2,5) sl in auto)
  moreover have "apply_world dbg at w (content_rec_of x) = ret (w\<lparr>w_content := c\<rparr>)"
  proof (cases x)
    case (StretchRec y)
    then have "stretch_within_frontier (w_namespace w) y = ret True"
      using within_frontier [of _ y] sl by simp
    then show ?thesis using StretchRec c(1) by simp
  qed (use c(1) in simp)
  ultimately show thesis using that c(3,4) ext by blast
qed

lemma apply_m5_bases:
  assumes "apply_m5 at s r = ret s'"
  shows "draft_bases s' d = Some b \<Longrightarrow> draft_bases s d = Some b \<or>
      (\<exists>dr e x mg. r = DraftBaseSet dr (db_base b) e x mg) \<or>
      (\<exists>rs t dr. r = ShotPlace (db_base b) rs t (Some dr))"
    "fork_sources s' d = Some x \<Longrightarrow> fork_sources s d = Some x \<or> (\<exists>n. r = VersionSnapshot x n)"
  using assms
  by (cases r; auto simp: Let_def split: Option.bind_splits if_splits option.splits sum.splits)+

lemma apply_arrangement:
  assumes "world_inv w" "legal_m5 w r"
  obtains m where "apply_world dbg at w (ArrangementRec r) = ret (w\<lparr>w_arrangement := m\<rparr>)"
    "apply_m5 at (w_arrangement w) r = ret m" "vstream_of m = vstream_step r (vstream_of (w_arrangement w))"
    "world_inv (w\<lparr>w_arrangement := m\<rparr>)"
proof -
  note inv = world_invD [OF assms(1)]
  obtain m where m: "apply_m5 at (w_arrangement w) r = ret m" "m5_inv m"
    "vstream_of m = vstream_step r (vstream_of (w_arrangement w))"
    using apply_m5_step [OF inv(3) legal_m5_wf [OF assms(2)]] by metis
  have arr: "arranged m = vm_content (vstream_step r (vstream_of (w_arrangement w)))"
    by (simp flip: m(3))
  have src: "stored_at w a" "registered (w_namespace w) d" if "a \<in> set (arranged m d)" for a d
  proof -
    have "stored_at w a \<and> registered (w_namespace w) d"
      using that assms(2) placed_okD [OF inv(5)] unfolding arr
      by (cases r) (auto simp: vm_place_def place_def set_seq_reorder dest: in_set_takeD in_set_dropD split: if_splits)
    then show "stored_at w a" "registered (w_namespace w) d" by simp_all
  qed
  have "placed_ok (w\<lparr>w_arrangement := m\<rparr>)"
    unfolding placed_ok_def using src by (simp add: stored_at_def) (metis list.set_intros(1) neq_Nil_conv)
  moreover have "bases_ok (w\<lparr>w_arrangement := m\<rparr>)"
    using apply_m5_bases [OF m(1)] inv(6) assms(2)
    by (fastforce simp: bases_ok_def publishable_def)
  ultimately have "world_inv (w\<lparr>w_arrangement := m\<rparr>)" using assms(1) m(2) by (simp add: world_inv_def)
  then show thesis using that m(1,3) by simp
qed


lemma apply_legal:
  assumes "world_inv w" "legal w r"
  obtains w' where "apply_world dbg at w r = ret w'" "world_inv w'" "world_extends w w'"
proof -
  note result = that
  have content: thesis if x: "r = content_rec_of x" for x
  proof -
    have l: "legal w (content_rec_of x)" using assms(2) x by simp
    obtain c where "apply_world dbg at w (content_rec_of x) = ret (w\<lparr>w_content := c\<rparr>)"
      "world_inv (w\<lparr>w_content := c\<rparr>)" "world_extends w (w\<lparr>w_content := c\<rparr>)"
      by (rule apply_content [OF assms(1) l])
    then show thesis using result x by blast
  qed
  show thesis
  proof (cases r)
    case (NamespaceRec x)
    then have l: "mintable (w_namespace w) x" using assms(2) by simp
    obtain m where "apply_world dbg at w (NamespaceRec x) = ret (w\<lparr>w_namespace := m\<rparr>)"
      "world_inv (w\<lparr>w_namespace := m\<rparr>)" "world_extends w (w\<lparr>w_namespace := m\<rparr>)"
      by (rule apply_namespace [OF assms(1) l])
    then show thesis using that NamespaceRec by blast
  next
    case (ArrangementRec x)
    then have l: "legal_m5 w x" using assms(2) by simp
    obtain m where "apply_world dbg at w (ArrangementRec x) = ret (w\<lparr>w_arrangement := m\<rparr>)"
      "world_inv (w\<lparr>w_arrangement := m\<rparr>)"
      by (rule apply_arrangement [OF assms(1) l])
    moreover have "world_extends w (w\<lparr>w_arrangement := m\<rparr>)" by (simp add: world_extends_def)
    ultimately show thesis using that ArrangementRec by blast
  next
    case (ContentRec x)
    then show thesis by (intro content [of "WriteRec x"]) simp
  next
    case (ContentStretchRec x)
    then show thesis by (intro content [of "StretchRec x"]) simp
  qed
qed

section \<open>The second fold\<close>

text \<open>
  The positions a world keeps: a composite is folded once more at its commit position, and the two
  folds agree but for them.
\<close>

definition undated_m3 :: "m3_state \<Rightarrow> m3_state" where
  "undated_m3 m = m\<lparr>m3_minted_at := Map.empty\<rparr>"

definition undated_m5 :: "m5_state \<Rightarrow> m5_state" where
  "undated_m5 s = s\<lparr>arranged_at := Map.empty,
     draft_bases := (\<lambda>d. map_option (\<lambda>b. b\<lparr>db_merge := None\<rparr>) (draft_bases s d))\<rparr>"

definition undated :: "world \<Rightarrow> world" where
  "undated w = w\<lparr>w_namespace := undated_m3 (w_namespace w), w_arrangement := undated_m5 (w_arrangement w)\<rparr>"

lemma undated_iff: "undated w = undated w' \<longleftrightarrow> undated_m3 (w_namespace w) = undated_m3 (w_namespace w') \<and>
    w_content w = w_content w' \<and> undated_m5 (w_arrangement w) = undated_m5 (w_arrangement w')"
  by (cases w; cases w') (auto simp: undated_def)

lemma undated_m3_sel:
  assumes "undated_m3 m = undated_m3 m'"
  shows "m3_nodes m = m3_nodes m'" "m3_frontiers m = m3_frontiers m'" "m3_principals m = m3_principals m'"
    "m3_publication m = m3_publication m'"
    "allocated m = allocated m'" "frontier m = frontier m'" "anchored m = anchored m'"
    "published m = published m'" "slotted m = slotted m'"
proof -
  show f: "m3_nodes m = m3_nodes m'" "m3_frontiers m = m3_frontiers m'" "m3_principals m = m3_principals m'"
    "m3_publication m = m3_publication m'"
    using assms by (cases m; cases m'; simp add: undated_m3_def)+
  show a: "allocated m = allocated m'" "frontier m = frontier m'"
    using f by (auto simp: fun_eq_iff allocated_def frontier_def stored_frontier_def)
  show "anchored m = anchored m'" "published m = published m'" "slotted m = slotted m'"
    by (auto simp: fun_eq_iff anchored_def published_def slotted_def a f)
qed

lemma undated_m5_sel:
  assumes "undated_m5 s = undated_m5 s'"
  shows "arrangements s = arrangements s'" "provenance s = provenance s'" "birth_extents s = birth_extents s'"
    "shot_terms_of s = shot_terms_of s'" "fork_sources s = fork_sources s'"
    "map_option (\<lambda>b. b\<lparr>db_merge := None\<rparr>) (draft_bases s d) = map_option (\<lambda>b. b\<lparr>db_merge := None\<rparr>) (draft_bases s' d)"
    "arranged s = arranged s'" "arrangement_of s = arrangement_of s'" "content_list s = content_list s'"
    "link_list s = link_list s'"
proof -
  show a: "arrangements s = arrangements s'" "provenance s = provenance s'" "birth_extents s = birth_extents s'"
    "shot_terms_of s = shot_terms_of s'" "fork_sources s = fork_sources s'"
    "map_option (\<lambda>b. b\<lparr>db_merge := None\<rparr>) (draft_bases s d) = map_option (\<lambda>b. b\<lparr>db_merge := None\<rparr>) (draft_bases s' d)"
    using assms by (cases s; cases s'; auto simp: undated_m5_def fun_eq_iff)+
  show b: "arrangement_of s = arrangement_of s'" by (auto simp: fun_eq_iff arrangement_of_def a)
  show "arranged s = arranged s'" "content_list s = content_list s'" "link_list s = link_list s'"
    by (auto simp: fun_eq_iff arranged_def content_list_def link_list_def b)
qed

lemma legal_undated:
  assumes "undated w = undated w'"
  shows "legal w r = legal w' r"
proof -
  note u = assms [unfolded undated_iff]
  note m = undated_m3_sel [OF conjunct1 [OF u]]
  have st: "stored_at w = stored_at w'" using u by (simp add: fun_eq_iff stored_at_def)
  have mi: "mintable (w_namespace w) x = mintable (w_namespace w') x" for x
    by (cases x) (simp_all add: m)
  have "legal_m5 w x = legal_m5 w' x" for x
    by (cases x) (simp_all add: m st publishable_def)
  then show ?thesis using u by (cases r) (simp_all add: m mi)
qed

lemma apply_m3_undated:
  assumes "undated_m3 s = undated_m3 t" "apply_m3 at s r = ret s'" "apply_m3 at' t r = ret t'"
  shows "undated_m3 s' = undated_m3 t'"
proof -
  obtain x where t: "t = s\<lparr>m3_minted_at := x\<rparr>"
    using assms(1) by (cases s; cases t) (auto simp: undated_m3_def)
  show ?thesis using assms(2,3) unfolding t
    by (cases r) (auto simp: undated_m3_def Let_def split: Option.bind_splits if_splits)
qed

lemma apply_m5_undated:
  assumes "undated_m5 s = undated_m5 t" "apply_m5 at s r = ret s'" "apply_m5 at' t r = ret t'"
  shows "undated_m5 s' = undated_m5 t'"
proof -
  obtain x y where t: "t = s\<lparr>arranged_at := x, draft_bases := y\<rparr>"
    and y: "\<And>d. map_option (\<lambda>b. b\<lparr>db_merge := None\<rparr>) (draft_bases s d) = map_option (\<lambda>b. b\<lparr>db_merge := None\<rparr>) (y d)"
    using assms(1) by (cases s; cases t) (auto simp: undated_m5_def fun_eq_iff)
  have src: "(case draft_bases s d of None \<Rightarrow> e | Some b \<Rightarrow> db_source b) = (case y d of None \<Rightarrow> e | Some b \<Rightarrow> db_source b)" for d e
    using y [of d] by (cases "draft_bases s d"; cases "y d") (auto dest: arg_cong [of _ _ db_source])
  note defs = undated_m5_def arrangements_with_content_def arrangements_with_link_def content_list_def
    link_list_def arrangement_of_def birth_extents_noting_def
  show ?thesis using assms(2,3) y src unfolding t
    by (cases r) (auto simp: defs Let_def fun_eq_iff split: Option.bind_splits if_splits sum.splits option.splits)
qed


lemma apply_undated:
  assumes "undated w = undated w'" "apply_world dbg at w r = ret v" "apply_world dbg at' w' r = ret v'"
  shows "undated v = undated v'"
proof -
  note u = assms(1) [unfolded undated_iff]
  note u3 = conjunct1 [OF u] and u4 = conjunct1 [OF conjunct2 [OF u]] and u5 = conjunct2 [OF conjunct2 [OF u]]
  show ?thesis
  proof (cases r)
    case (NamespaceRec x)
    obtain m where m: "apply_m3 at (w_namespace w) x = ret m" "v = w\<lparr>w_namespace := m\<rparr>"
      using assms(2) NamespaceRec by (auto split: Option.bind_splits)
    obtain m' where m': "apply_m3 at' (w_namespace w') x = ret m'" "v' = w'\<lparr>w_namespace := m'\<rparr>"
      using assms(3) NamespaceRec by (auto split: Option.bind_splits)
    show ?thesis using apply_m3_undated [OF u3 m(1) m'(1)] u4 u5 m(2) m'(2) by (simp add: undated_iff)
  next
    case (ArrangementRec x)
    obtain m where m: "apply_m5 at (w_arrangement w) x = ret m" "v = w\<lparr>w_arrangement := m\<rparr>"
      using assms(2) ArrangementRec by (auto split: Option.bind_splits)
    obtain m' where m': "apply_m5 at' (w_arrangement w') x = ret m'" "v' = w'\<lparr>w_arrangement := m'\<rparr>"
      using assms(3) ArrangementRec by (auto split: Option.bind_splits)
    show ?thesis using apply_m5_undated [OF u5 m(1) m'(1)] u3 u4 m(2) m'(2) by (simp add: undated_iff)
  next
    case (ContentRec x)
    obtain c where c: "apply_write dbg (w_content w) x = ret c" "v = w\<lparr>w_content := c\<rparr>"
      using assms(2) ContentRec by (auto split: Option.bind_splits)
    have "v' = w'\<lparr>w_content := c\<rparr>" using assms(3) ContentRec c(1) u4 by (auto split: Option.bind_splits)
    then show ?thesis using u3 u5 c(2) by (simp add: undated_iff)
  next
    case (ContentStretchRec x)
    obtain c where c: "apply_stretch dbg (w_content w) x = ret c" "v = w\<lparr>w_content := c\<rparr>"
      using assms(2) ContentStretchRec by (auto split: Option.bind_splits)
    have "v' = w'\<lparr>w_content := c\<rparr>"
      using assms(3) ContentStretchRec c(1) u4 by (auto split: Option.bind_splits)
    then show ?thesis using u3 u5 c(2) by (simp add: undated_iff)
  qed
qed

section \<open>Stagings and transactions\<close>

text \<open>A staging whose records were each legal where they were pushed.\<close>

inductive lawful :: "bool \<Rightarrow> (world, 'c) committed \<Rightarrow> nat \<Rightarrow> 'c world_staging \<Rightarrow> bool"
  for dbg base first where
  lawful_new: "lawful dbg base first (staging_new base first)"
| lawful_push: "lawful dbg base first stg \<Longrightarrow> legal (stg_working stg) r \<Longrightarrow>
    stg_push (apply_world dbg) stg r = ret stg' \<Longrightarrow> lawful dbg base first stg'"

lemma lawful_staged: "lawful dbg base first stg \<Longrightarrow> staged (apply_world dbg) base first stg"
  by (induction rule: lawful.induct) (auto intro: staged.intros)

lemma push_eq:
  "stg_push app stg r = ret stg' \<longleftrightarrow> (\<exists>w. app (stg_first stg + length (stg_records stg)) (stg_working stg) r = ret w \<and>
     stg' = stg\<lparr>stg_working := w, stg_records := stg_records stg @ [r]\<rparr>)"
  by (auto simp: stg_push_def Let_def split: Option.bind_splits)

lemma lawful_working:
  assumes "lawful dbg base first stg" "world_inv (com_world base)"
  shows "world_inv (stg_working stg)" "world_extends (com_world base) (stg_working stg)"
    "\<exists>w. exec_fold (apply_world dbg at) (com_world base) (stg_records stg) = ret w \<and> world_inv w \<and>
       undated w = undated (stg_working stg)"
proof -
  have "world_inv (stg_working stg) \<and> world_extends (com_world base) (stg_working stg) \<and>
    (\<exists>w. exec_fold (apply_world dbg at) (com_world base) (stg_records stg) = ret w \<and> world_inv w \<and>
       undated w = undated (stg_working stg))"
    using assms
  proof (induction rule: lawful.induct)
    case lawful_new
    then show ?case by (auto simp: staging_new_def)
  next
    case (lawful_push stg r stg')
    then obtain w where w: "exec_fold (apply_world dbg at) (com_world base) (stg_records stg) = ret w"
      "world_inv w" "undated w = undated (stg_working stg)" and
      s: "world_inv (stg_working stg)" "world_extends (com_world base) (stg_working stg)" by blast
    obtain v where v: "apply_world dbg (stg_first stg + length (stg_records stg)) (stg_working stg) r = ret v"
      "stg' = stg\<lparr>stg_working := v, stg_records := stg_records stg @ [r]\<rparr>"
      using lawful_push.hyps(3) by (auto simp: push_eq)
    obtain v1 where v1: "apply_world dbg (stg_first stg + length (stg_records stg)) (stg_working stg) r = ret v1"
      "world_inv v1" "world_extends (stg_working stg) v1"
      by (rule apply_legal [OF s(1) lawful_push.hyps(2)])
    have "legal w r" using legal_undated [OF w(3)] lawful_push.hyps(2) by simp
    then obtain v2 where v2: "apply_world dbg at w r = ret v2" "world_inv v2"
      using apply_legal [OF w(2)] by metis
    have "undated v2 = undated v" by (rule apply_undated [OF w(3) v2(1) v(1)])
    moreover have "exec_fold (apply_world dbg at) (com_world base) (stg_records stg') = ret v2"
      using w(1) v2(1) v(2) by (simp add: exec_fold_append)
    moreover have "v1 = v" using v1(1) v(1) by simp
    ultimately have "world_inv (stg_working stg')" "world_extends (com_world base) (stg_working stg')"
      "exec_fold (apply_world dbg at) (com_world base) (stg_records stg') = ret v2"
      "undated v2 = undated (stg_working stg')"
      using v1(2,3) v(2) world_extends_trans [OF s(2)] by simp_all
    then show ?case using v2(2) by blast
  qed
  then show "world_inv (stg_working stg)" "world_extends (com_world base) (stg_working stg)"
    "\<exists>w. exec_fold (apply_world dbg at) (com_world base) (stg_records stg) = ret w \<and> world_inv w \<and>
       undated w = undated (stg_working stg)" by blast+
qed

text \<open>An operation run as a transaction from a committed world.\<close>

definition world_transact ::
    "bool \<Rightarrow> (unit world_staging \<Rightarrow> (unit world_staging \<times> 'a, 'e) result exec) \<Rightarrow> world \<Rightarrow> nat \<Rightarrow>
     (world \<times> 'a, 'e) result exec" where
  "world_transact dbg body w first =
     and_then (body (staging_new \<lparr>com_seq = first - 1, com_world = w, com_chain = ()\<rparr> first))
       (\<lambda>(stg, a). do { stg' \<leftarrow> sealed (apply_world dbg) stg; ok (stg_working stg', a) })"

text \<open>What a closure over a staging guarantees: it refuses, or it leaves a lawful staging with \<open>Q\<close>.\<close>

definition sound_body ::
    "bool \<Rightarrow> 'c world_staging \<Rightarrow> ('c world_staging \<times> 'a, 'e) result exec \<Rightarrow> (world \<Rightarrow> 'a \<Rightarrow> bool) \<Rightarrow> ('e \<Rightarrow> bool) \<Rightarrow> bool" where
  "sound_body dbg stg res Q E \<longleftrightarrow>
     (\<exists>e. res = err e \<and> E e) \<or>
     (\<exists>stg' a. res = ok (stg', a) \<and> Q (stg_working stg') a \<and>
        world_inv (stg_working stg') \<and> world_extends (stg_working stg) (stg_working stg') \<and>
        (\<forall>base first. lawful dbg base first stg \<longrightarrow> lawful dbg base first stg'))"

lemma push_legal:
  assumes "world_inv (stg_working stg)" "legal (stg_working stg) r"
  obtains stg' w where "stg_push (apply_world dbg) stg r = ret stg'" "stg_working stg' = w"
    "apply_world dbg (stg_first stg + length (stg_records stg)) (stg_working stg) r = ret w"
    "world_inv w" "world_extends (stg_working stg) w"
    "\<And>base first. lawful dbg base first stg \<Longrightarrow> lawful dbg base first stg'"
proof -
  obtain w where w: "apply_world dbg (stg_first stg + length (stg_records stg)) (stg_working stg) r = ret w"
    "world_inv w" "world_extends (stg_working stg) w"
    by (rule apply_legal [OF assms])
  let ?s = "stg\<lparr>stg_working := w, stg_records := stg_records stg @ [r]\<rparr>"
  have "stg_push (apply_world dbg) stg r = ret ?s" using w(1) by (simp add: push_eq)
  then show thesis using that [of ?s w] w lawful_push [OF _ assms(2)] by simp
qed

text \<open>
  A transaction of a sound closure returns; its world satisfies the invariant and agrees with the
  closure's but for the positions.
\<close>

lemma sealed_lawful:
  assumes "lawful dbg base first stg" "world_inv (com_world base)"
  obtains stg' where "sealed (apply_world dbg) stg = ret stg'" "world_inv (stg_working stg')"
    "undated (stg_working stg') = undated (stg_working stg)"
proof (cases "length (stg_records stg) \<le> 1")
  case True
  then show thesis using that [of stg] lawful_working(1) [OF assms] by (simp add: sealed_def)
next
  case False
  have b: "stg_base stg = com_world base"
    using staged_base [OF lawful_staged [OF assms(1)]] by (simp add: stg_base_def)
  obtain w where "exec_fold (apply_world dbg (stg_first stg + length (stg_records stg) - 1)) (com_world base) (stg_records stg) = ret w"
    "world_inv w" "undated w = undated (stg_working stg)"
    using lawful_working(3) [OF assms] by blast
  then show thesis using that [of "stg\<lparr>stg_working := w\<rparr>"] False b by (simp add: sealed_def Let_def)
qed

lemma transact_sound:
  assumes "world_inv w" "\<And>stg. stg_working stg = w \<Longrightarrow> sound_body dbg stg (body stg) Q E"
  shows "(\<exists>e. world_transact dbg body w first = err e \<and> E e) \<or>
    (\<exists>w' v a. world_transact dbg body w first = ok (w', a) \<and> world_inv w' \<and> undated w' = undated v \<and> Q v a \<and>
       world_extends w v)"
proof -
  let ?base = "\<lparr>com_seq = first - 1, com_world = w, com_chain = ()\<rparr>"
  let ?stg = "staging_new ?base first"
  have "stg_working ?stg = w" by (simp add: staging_new_def)
  from assms(2) [OF this] consider (err) e where "body ?stg = err e" "E e"
    | (ok) stg a where "body ?stg = ok (stg, a)" "Q (stg_working stg) a" "lawful dbg ?base first stg"
    unfolding sound_body_def using lawful_new by blast
  then show ?thesis
  proof cases
    case err
    then show ?thesis by (simp add: world_transact_def)
  next
    case ok
    have inv: "world_inv (com_world ?base)" using assms(1) by simp
    obtain stg' where "sealed (apply_world dbg) stg = ret stg'" "world_inv (stg_working stg')"
      "undated (stg_working stg') = undated (stg_working stg)"
      by (rule sealed_lawful [OF ok(3) inv])
    moreover from this have "world_transact dbg body w first = ok (stg_working stg', a)"
      using ok(1) by (simp add: world_transact_def)
    ultimately show ?thesis using ok(2) lawful_working(2) [OF ok(3) inv] by auto
  qed
qed


lemma sound_and_then:
  assumes "sound_body dbg stg m P F" "\<And>e. F e \<Longrightarrow> E e"
    and "\<And>stg' a. P (stg_working stg') a \<Longrightarrow> world_inv (stg_working stg') \<Longrightarrow>
      world_extends (stg_working stg) (stg_working stg') \<Longrightarrow> sound_body dbg stg' (f (stg', a)) Q E"
  shows "sound_body dbg stg (and_then m f) Q E"
proof -
  consider (err) e where "m = err e" "F e"
    | (ok) stg' a where "m = ok (stg', a)" "P (stg_working stg') a" "world_inv (stg_working stg')"
      "world_extends (stg_working stg) (stg_working stg')"
      "\<forall>base first. lawful dbg base first stg \<longrightarrow> lawful dbg base first stg'"
    using assms(1) unfolding sound_body_def by blast
  then show ?thesis
  proof cases
    case err
    then show ?thesis using assms(2) by (simp add: sound_body_def)
  next
    case ok
    then show ?thesis using assms(3) [OF ok(2-4)] world_extends_trans [OF ok(4)]
      by (fastforce simp: sound_body_def)
  qed
qed

lemma sound_weaken:
  assumes "sound_body dbg stg m P F" "\<And>e. F e \<Longrightarrow> E e" "\<And>v a. P v a \<Longrightarrow> Q v a"
  shows "sound_body dbg stg m Q E"
  using assms unfolding sound_body_def by blast

end
