(* ===== verification/World_Edits.thy ===== *)
theory World_Edits
  imports World_Laws
begin

text \<open>
  The five edits of a document's content (\<^verbatim>\<open>crates/skep-arrangement/src/ops\<close>: \<^verbatim>\<open>insert.rs\<close>,
  \<^verbatim>\<open>copy.rs\<close>, \<^verbatim>\<open>delete.rs\<close>, \<^verbatim>\<open>rearrange.rs\<close>, \<^verbatim>\<open>reinstate.rs\<close>) against the world's invariant. Each
  closure is a \<open>sound_body\<close>: it returns, it refuses only where its conditions fail, and otherwise it
  leaves a lawful staging whose world differs from the one it found by exactly the edit.
\<close>

section \<open>Minting and storing for a placement\<close>

lemma slot_within:
  assumes "registered m h" "0 < k" "0 < n" "allocated m (addr_of (chain (content_key h) k))"
    "allocated m (addr_of (chain (content_key h) (k + n - 1)))"
  shows "slotted m (addr_of (chain (content_key h) k)) n"
proof -
  have key: "wf_key (content_key h)" using wf_doc_keys(1) assms(1) by blast
  have lvl: "level (addr_of (chain (content_key h) i)) \<noteq> Node" if "0 < i" for i
    using that key_levels(1) assms(1) by simp
  have "floor_of (content_key h) < k" using assms(2,4) lvl key by (simp add: allocated_def)
  moreover have "k + n - 1 \<le> frontier m (content_key h)"
    using assms(2,3,5) lvl [of "k + n - 1"] key by (simp add: allocated_def frontier_def)
  ultimately show ?thesis using assms(1-3) unfolding slotted_def
    by (intro exI [of _ h] exI [of _ k]) simp
qed

text \<open>Every stored address was issued.\<close>

lemma stored_allocated:
  assumes "world_inv w" "stored_at w a" "full_pos a"
  shows "allocated (w_namespace w) a"
proof -
  let ?m = "w_namespace w"
  obtain p where "content (w_content w) (tumbler a) = Some p" using assms(2) by (auto simp: stored_at_def)
  then obtain e where e: "e \<in> set (entries (w_content w))" "(tumbler a, p) \<in> set (cells_of e)"
    using content_Some_iff [OF world_invD(2) [OF assms(1)]] by blast
  obtain b st where b: "e = (b, st)" by (cases e)
  then obtain i where i: "i < stored_width st" "tumbler a = advance (tumbler b) i"
    using e(2) by (cases st) auto
  have "slotted ?m b (stored_width st)" using world_invD(4) [OF assms(1)] e(1) b by fastforce
  then obtain h k where h: "registered ?m h" "0 < k" "floor_of (content_key h) < k"
    "k + stored_width st \<le> frontier ?m (content_key h) + 1" "b = addr_of (chain (content_key h) k)"
    by (auto simp: slotted_def)
  have key: "wf_key (content_key h)" using wf_doc_keys(1) h(1) by blast
  have "tumbler a = tumbler (addr_of (chain (content_key h) (k + i)))"
    using i(2) content_slot(5) h(1,2,5) by simp
  then have a: "a = addr_of (chain (content_key h) (k + i))"
    using wf_address_eqI wf_chain [OF key, of "k + i"] h(2) assms(3) by (simp add: full_pos_def)
  have "k + i \<le> frontier ?m (content_key h)" using h(4) i(1) by simp
  then have "k + i \<le> stored_frontier ?m (content_key h)" using h(3) by (simp add: frontier_def)
  then show ?thesis using h(1,2,3) key key_levels(1) [of h] by (simp add: a allocated_def)
qed

text \<open>What the values \<open>vs\<close> of a placement are, at the addresses \<open>as\<close> they were given.\<close>

definition given :: "world \<Rightarrow> world \<Rightarrow> address \<Rightarrow> address list \<Rightarrow> val list \<Rightarrow> bool" where
  "given w v d as vs \<longleftrightarrow> world_inv v \<and> world_extends w v \<and> w_arrangement v = w_arrangement w \<and>
     map (\<lambda>a. map_option to_val (content (w_content v) (tumbler a))) as = map Some vs \<and> distinct as \<and>
     (\<forall>a \<in> set as. full_pos a \<and> document_of a = ret (Some d) \<and> \<not> stored_at w a \<and> \<not> allocated (w_namespace w) a)"

lemma given_Nil: "world_inv w \<Longrightarrow> given w w d [] []"
  by (simp add: given_def)

lemma given_trans:
  assumes "given w v d as vs" "given v x d bs us"
  shows "given w x d (as @ bs) (vs @ us)"
proof -
  note g = assms [unfolded given_def]
  have up: "content (w_content v) \<subseteq>\<^sub>m content (w_content x)" "namespace_extends (w_namespace w) (w_namespace v)"
    using g by (simp_all add: world_extends_def)
  have st: "stored_at v a" if "a \<in> set as" for a
  proof -
    have "map_option to_val (content (w_content v) (tumbler a)) \<in> Some ` set vs"
      using g(1) that by (metis image_eqI image_set)
    then show ?thesis by (auto simp: stored_at_def)
  qed
  have "content (w_content x) (tumbler a) = content (w_content v) (tumbler a)" if "a \<in> set as" for a
    using up(1) st [OF that] by (auto simp: stored_at_def map_le_def dom_def)
  then have "map (\<lambda>a. map_option to_val (content (w_content x) (tumbler a))) as = map Some vs"
    using g(1) by (metis (mono_tags, lifting) map_eq_conv)
  moreover have "\<not> stored_at w b \<and> \<not> allocated (w_namespace w) b" if "b \<in> set bs" for b
    using g that world_extends_stored up(2) by (auto simp: namespace_extends_def full_pos_def)
  moreover have "set as \<inter> set bs = {}" using g(2) st by blast
  ultimately show ?thesis using g world_extends_trans by (auto simp: given_def)
qed

lemma mint_and_store:
  assumes inv: "world_inv (stg_working stg)" and d: "registered (w_m3 stg) d"
    and a: "a = next_addr (w_m3 stg) (content_key d)" "fst (rec_entry x) = a"
    and n: "n = stored_width (snd (rec_entry x))" "0 < n" "n < 2 ^ 64"
    and r: "mintable (w_m3 stg) r" "\<forall>i < n. addr_plus a i \<in> issues r"
  obtains stg1 stg2 where "stg_push (apply_world dbg) stg (NamespaceRec r) = ret stg1"
    "w_store stg1 = w_store stg" "fresh (w_store stg) (rec_entry x)"
    "stg_push (apply_world dbg) stg1 (content_rec_of x) = ret stg2"
    "world_inv (stg_working stg2)" "world_extends (stg_working stg) (stg_working stg2)"
    "w_m5 stg2 = w_m5 stg" "content (w_store stg2) = content (w_store stg) ++ cell_at (rec_entry x)"
    "\<And>i. i < n \<Longrightarrow> \<not> allocated (w_m3 stg) (addr_plus a i) \<and> \<not> stored_at (stg_working stg) (addr_plus a i)"
    "\<And>i. full_pos (addr_plus a i) \<and> document_of (addr_plus a i) = ret (Some d)"
    "\<And>base first. lawful dbg base first stg \<Longrightarrow> lawful dbg base first stg2"
proof -
  let ?w = "stg_working stg" and ?k = "content_key d"
  let ?f = "frontier (w_m3 stg) ?k + 1"
  note defs = w_m3_def w_store_def w_m5_def
  have slot: "addr_plus a i = addr_of (chain ?k (?f + i))" for i
    using content_slot(4) [of d ?f i] d a(1) by (simp add: next_addr_def)
  have full: "full_pos (addr_plus a i) \<and> document_of (addr_plus a i) = ret (Some d)" for i
    unfolding slot using content_slot(1,2) [of d "?f + i"] d by simp
  have fr: "fresh (w_content ?w) (rec_entry x)"
    using next_fresh [OF world_invD(4) [OF inv], of d "snd (rec_entry x)"] d a
    by (cases "rec_entry x") (simp add: defs)
  obtain m where m: "apply_world dbg (stg_first stg + length (stg_records stg)) ?w (NamespaceRec r) = ret (?w\<lparr>w_namespace := m\<rparr>)"
    "grows (w_m3 stg) (issues r) m" "world_inv (?w\<lparr>w_namespace := m\<rparr>)" "world_extends ?w (?w\<lparr>w_namespace := m\<rparr>)"
    using apply_namespace [OF inv, of r dbg "stg_first stg + length (stg_records stg)"] r(1) by (metis w_m3_def)
  let ?w1 = "?w\<lparr>w_namespace := m\<rparr>"
  let ?stg1 = "stg\<lparr>stg_working := ?w1, stg_records := stg_records stg @ [NamespaceRec r]\<rparr>"
  have p1: "stg_push (apply_world dbg) stg (NamespaceRec r) = ret ?stg1" using m(1) by (simp add: push_eq)
  have al: "allocated m (addr_of (chain ?k (?f + i)))" if "i < n" for i
  proof -
    have "wf_address (addr_plus a i)" using full by (simp add: full_pos_def)
    then show ?thesis using that r(2) m(2) unfolding slot [symmetric] by (simp add: grows_def)
  qed
  have reg: "registered m d"
    using extends_keeps(1) [of "w_namespace ?w" m] m(4) d by (simp add: world_extends_def w_m3_def)
  have "slotted m (addr_of (chain ?k ?f)) n"
    using slot_within [OF reg _ n(2), of ?f] al [of 0] al [of "n - 1"] n(2) by simp
  then have sl: "slotted m a n" using slot [of 0] full [of 0] a(1) by (simp add: next_addr_def)
  have leg: "legal ?w1 (content_rec_of x)" using sl fr n a(2) by (cases x) simp_all
  have inv1: "world_inv (stg_working ?stg1)" using m(3) by simp
  obtain c where c: "apply_world dbg (stg_first ?stg1 + length (stg_records ?stg1)) ?w1 (content_rec_of x) = ret (?w1\<lparr>w_content := c\<rparr>)"
    "content c = content (w_content ?w1) ++ cell_at (rec_entry x)"
    "world_inv (?w1\<lparr>w_content := c\<rparr>)" "world_extends ?w1 (?w1\<lparr>w_content := c\<rparr>)"
    by (rule apply_content [OF m(3) leg])
  let ?stg2 = "?stg1\<lparr>stg_working := ?w1\<lparr>w_content := c\<rparr>, stg_records := stg_records ?stg1 @ [content_rec_of x]\<rparr>"
  have p2: "stg_push (apply_world dbg) ?stg1 (content_rec_of x) = ret ?stg2" using c(1) by (simp add: push_eq)
  have fresh_at: "\<not> allocated (w_m3 stg) (addr_plus a i) \<and> \<not> stored_at ?w (addr_plus a i)" if "i < n" for i
  proof -
    have "anchored (w_m3 stg) ?k" using d by blast
    then have na: "\<not> allocated (w_m3 stg) (addr_plus a i)"
      unfolding slot using not_allocated_next [of "w_m3 stg" ?k "i + 1"] by simp
    have "\<not> stored_at ?w (addr_plus a i)"
      using na stored_allocated [OF inv, of "addr_plus a i"] full by (auto simp: w_m3_def)
    then show ?thesis using na by simp
  qed
  have law: "lawful dbg base first ?stg2" if l: "lawful dbg base first stg" for base first
  proof -
    have "lawful dbg base first ?stg1" by (rule lawful_push [OF l _ p1]) (use r(1) in \<open>simp add: w_m3_def\<close>)
    then show ?thesis by (rule lawful_push [OF _ _ p2]) (use leg in simp)
  qed
  show thesis
    by (rule that [of ?stg1 ?stg2])
       (use p1 p2 fr c(2,3) m(4) world_extends_trans [OF m(4) c(4)] fresh_at full law in \<open>simp_all add: defs\<close>)
qed


text \<open>The two allocation helpers: never refused, and what they leave is \<open>given\<close>.\<close>

lemma given_cells:
  assumes "world_inv v" "world_extends w v" "w_arrangement v = w_arrangement w" "full_pos a"
    "content (w_content v) = content (w_content w) ++ cell_at (a, st)"
    "\<And>i. i < stored_width st \<Longrightarrow> \<not> allocated (w_namespace w) (addr_plus a i) \<and> \<not> stored_at w (addr_plus a i)"
    "\<And>i. full_pos (addr_plus a i) \<and> document_of (addr_plus a i) = ret (Some d)"
    and vs: "case st of Value x \<Rightarrow> vs = [x] | Stretch bs \<Rightarrow> vs = map (\<lambda>b. Val [b]) bs"
  shows "given w v d (map (addr_plus a) [0..<stored_width st]) vs"
proof -
  have cell: "cell_at (a, st) (advance (tumbler a) i) =
      Some (case st of Value x \<Rightarrow> PieceValue x | Stretch bs \<Rightarrow> Bytes [bs ! i])" if "i < stored_width st" for i
    using that by (cases st) (auto simp: cell_at_Value cell_at_Stretch)
  then have "map (\<lambda>b. map_option to_val (content (w_content v) (tumbler b))) (map (addr_plus a) [0..<stored_width st])
      = map Some vs"
    using vs by (cases st) (auto simp: assms(5) map_add_def intro!: nth_equalityI)
  moreover have "distinct (map (addr_plus a) [0..<stored_width st])" by (simp add: distinct_map inj_on_def)
  ultimately show ?thesis using assms(1-3,6,7) by (auto simp: given_def)
qed

lemma allocate_spec:
  assumes inv: "world_inv (stg_working stg)" and d: "registered (w_m3 stg) d"
    and runs: "wf_runs runs" "merged runs"
  obtains stg' runs' as where "allocate_for_placement dbg om oc d v (stg, runs) = ok (stg', runs')"
    "wf_runs runs'" "merged runs'" "flat runs' = flat runs @ as"
    "given (stg_working stg) (stg_working stg') d as [v]"
    "\<And>base first. lawful dbg base first stg \<Longrightarrow> lawful dbg base first stg'"
proof -
  let ?a = "next_addr (w_m3 stg) (content_key d)"
  let ?r = "Allocate \<lparr>alloc_addr = ?a, alloc_published = False\<rparr>" and ?x = "WriteRec \<lparr>cw_addr = ?a, cw_val = v\<rparr>"
  have mint: "mint_content (w_m3 stg) d = ok (?a, ?r)" using d by (simp add: mint_content_eq)
  have full: "full_pos ?a" using content_slot(1) d by (simp add: next_addr_def)
  have r: "mintable (w_m3 stg) ?r" "\<forall>i < 1. addr_plus ?a i \<in> issues ?r"
    using d full mintable_next [of "w_m3 stg" "content_key d" False] anchored_intros(1) by simp_all
  obtain stg1 stg2 where s: "stg_push (apply_world dbg) stg (NamespaceRec ?r) = ret stg1"
    "w_store stg1 = w_store stg" "fresh (w_store stg) (rec_entry ?x)"
    "stg_push (apply_world dbg) stg1 (content_rec_of ?x) = ret stg2"
    "world_inv (stg_working stg2)" "world_extends (stg_working stg) (stg_working stg2)"
    "w_m5 stg2 = w_m5 stg" "content (w_store stg2) = content (w_store stg) ++ cell_at (rec_entry ?x)"
    "\<And>i. i < 1 \<Longrightarrow> \<not> allocated (w_m3 stg) (addr_plus ?a i) \<and> \<not> stored_at (stg_working stg) (addr_plus ?a i)"
    "\<And>i. full_pos (addr_plus ?a i) \<and> document_of (addr_plus ?a i) = ret (Some d)"
    "\<And>base first. lawful dbg base first stg \<Longrightarrow> lawful dbg base first stg2"
    by (rule mint_and_store [OF inv d refl, of ?x 1 ?r dbg]) (use r in simp_all)
  have "debug_assert_content_address_routing dbg ?a = ret ()" using content_slot(3) d by (simp add: next_addr_def)
  moreover have "wf_store (w_store stg)" using world_invD(2) [OF inv] by (simp add: w_store_def)
  ultimately have stage: "stage_write dbg (w_store stg1) ?a v = ok \<lparr>cw_addr = ?a, cw_val = v\<rparr>"
    using stage_write_eq s(2,3) by simp
  have run: "wf_run \<lparr>i_start = ?a, run_width = 1\<rparr>" using full by (simp add: wf_run_def)
  obtain runs' where runs': "extend_or_push_run runs \<lparr>i_start = ?a, run_width = 1\<rparr> = ret runs'" "wf_runs runs'"
    "merged runs'" "flat runs' = flat runs @ run_addrs \<lparr>i_start = ?a, run_width = 1\<rparr>"
    by (rule extend_or_push_run_spec [OF runs(1) run runs(2)])
  have "given (stg_working stg) (stg_working stg2) d (map (addr_plus ?a) [0..<stored_width (Value v)]) [v]"
    by (rule given_cells [OF s(5,6) _ full]) (use s(7-10) in \<open>simp_all add: w_m3_def w_m5_def w_store_def\<close>)
  moreover have "allocate_for_placement dbg om oc d v (stg, runs) = ok (stg2, runs')"
    using mint s(1,4) stage runs'(1) by (simp add: allocate_for_placement_def from_err_def)
  ultimately show thesis using that [of stg2 runs'] runs'(2-4) s(11) by (simp add: run_addrs_def)
qed

lemma allocate_stretch_spec:
  assumes inv: "world_inv (stg_working stg)" and d: "registered (w_m3 stg) d"
    and runs: "wf_runs runs" "merged runs" and bs: "bs \<noteq> []" "length bs < 2 ^ 64"
  obtains stg' runs' as where "allocate_stretch_for_placement dbg om oc d bs (stg, runs) = ok (stg', runs')"
    "wf_runs runs'" "merged runs'" "flat runs' = flat runs @ as"
    "given (stg_working stg) (stg_working stg') d as (map (\<lambda>b. Val [b]) bs)"
    "\<And>base first. lawful dbg base first stg \<Longrightarrow> lawful dbg base first stg'"
proof -
  let ?n = "length bs" and ?k = "content_key d"
  let ?a = "next_addr (w_m3 stg) ?k" and ?f = "frontier (w_m3 stg) (content_key d) + 1"
  let ?r = "AllocateRange \<lparr>range_first = ?a, range_count = ?n\<rparr>" and ?x = "StretchRec \<lparr>cs_first = ?a, cs_bytes = bs\<rparr>"
  have n: "0 < ?n" using bs by simp
  have mint: "mint_content_range (w_m3 stg) d ?n = ok (?a, ?r)" using d n by (simp add: mint_content_range_eq)
  have full: "full_pos ?a" using content_slot(1) d by (simp add: next_addr_def)
  have "key_of ?a = ?k" "ordinal (tumbler ?a) = ?f"
    using wf_doc_keys(1) d by (simp_all add: next_addr_def)
  moreover have "addr_plus ?a i = addr_of (chain ?k (?f + i))" for i
    using content_slot(4) [of d ?f i] d by (simp add: next_addr_def)
  ultimately have r1: "\<forall>i < ?n. addr_plus ?a i \<in> issues ?r" by simp
  have r2: "mintable (w_m3 stg) ?r" using d n unfolding next_addr_def by auto
  obtain stg1 stg2 where s: "stg_push (apply_world dbg) stg (NamespaceRec ?r) = ret stg1"
    "w_store stg1 = w_store stg" "fresh (w_store stg) (rec_entry ?x)"
    "stg_push (apply_world dbg) stg1 (content_rec_of ?x) = ret stg2"
    "world_inv (stg_working stg2)" "world_extends (stg_working stg) (stg_working stg2)"
    "w_m5 stg2 = w_m5 stg" "content (w_store stg2) = content (w_store stg) ++ cell_at (rec_entry ?x)"
    "\<And>i. i < ?n \<Longrightarrow> \<not> allocated (w_m3 stg) (addr_plus ?a i) \<and> \<not> stored_at (stg_working stg) (addr_plus ?a i)"
    "\<And>i. full_pos (addr_plus ?a i) \<and> document_of (addr_plus ?a i) = ret (Some d)"
    "\<And>base first. lawful dbg base first stg \<Longrightarrow> lawful dbg base first stg2"
    by (rule mint_and_store [OF inv d refl, of ?x ?n ?r dbg]) (use bs r1 r2 in simp_all)
  have rout: "debug_assert_content_address_routing dbg ?a = ret ()" using content_slot(3) d by (simp add: next_addr_def)
  have ws: "wf_store (w_store stg)" using world_invD(2) [OF inv] by (simp add: w_store_def)
  have "\<not> (\<exists>e \<in> set (entries (w_store stg)). tumbler ?a \<in> extent e)" using s(3) by (auto simp: fresh_def)
  then have stage: "stage_stretch dbg (w_store stg1) ?a bs = ok \<lparr>cs_first = ?a, cs_bytes = bs\<rparr>"
    using stage_stretch_eq [OF ws rout bs(1)] s(2,3) by simp
  have run: "wf_run \<lparr>i_start = ?a, run_width = ?n\<rparr>" using full n by (simp add: wf_run_def)
  obtain runs' where runs': "extend_or_push_run runs \<lparr>i_start = ?a, run_width = ?n\<rparr> = ret runs'" "wf_runs runs'"
    "merged runs'" "flat runs' = flat runs @ run_addrs \<lparr>i_start = ?a, run_width = ?n\<rparr>"
    by (rule extend_or_push_run_spec [OF runs(1) run runs(2)])
  have "given (stg_working stg) (stg_working stg2) d (map (addr_plus ?a) [0..<stored_width (Stretch bs)])
      (map (\<lambda>b. Val [b]) bs)"
    by (rule given_cells [OF s(5,6) _ full]) (use s(7-10) in \<open>simp_all add: w_m3_def w_m5_def w_store_def\<close>)
  moreover have "allocate_stretch_for_placement dbg om oc d bs (stg, runs) = ok (stg2, runs')"
    using mint s(1,4) stage runs'(1) by (simp add: allocate_stretch_for_placement_def from_err_def Let_def)
  ultimately show thesis using that [of stg2 runs'] runs'(2-4) s(11) by (simp add: run_addrs_def)
qed


text \<open>The coalescing walk of an insert places all its values, in order.\<close>

lemma given_registered: "given w v d as vs \<Longrightarrow> registered (w_namespace w) b \<Longrightarrow> registered (w_namespace v) b"
  by (rule extends_keeps(1) [of "w_namespace w"]) (simp_all add: given_def world_extends_def)

lemma insert_loop_spec:
  assumes "world_inv (stg_working stg)" "registered (w_m3 stg) d" "wf_runs runs" "merged runs"
    "length pending + length vs < 2 ^ 64"
  shows "\<exists>stg' runs' as. insert_loop dbg d (stg, runs) pending vs = ok (stg', runs') \<and>
    wf_runs runs' \<and> merged runs' \<and> flat runs' = flat runs @ as \<and>
    given (stg_working stg) (stg_working stg') d as (map (\<lambda>b. Val [b]) pending @ vs) \<and>
    (\<forall>base first. lawful dbg base first stg \<longrightarrow> lawful dbg base first stg')"
  using assms
proof (induction vs arbitrary: stg runs pending)
  case Nil
  show ?case
  proof (cases "pending = []")
    case True
    then show ?thesis using Nil.prems given_Nil
      by (intro exI [of _ stg] exI [of _ runs] exI [of _ "[]"]) simp
  next
    case False
    obtain stg' runs' as where "allocate_stretch_for_placement dbg InsMint InsContent d pending (stg, runs) = ok (stg', runs')"
      "wf_runs runs'" "merged runs'" "flat runs' = flat runs @ as"
      "given (stg_working stg) (stg_working stg') d as (map (\<lambda>b. Val [b]) pending)"
      "\<And>base first. lawful dbg base first stg \<Longrightarrow> lawful dbg base first stg'"
      by (rule allocate_stretch_spec [OF Nil.prems(1-4) False, where dbg = dbg and om = InsMint and oc = InsContent])
         (use Nil.prems(5) in simp_all)
    then show ?thesis using False by auto
  qed
next
  case (Cons v vs)
  show ?case
  proof (cases "\<exists>b. as_bytes v = [b]")
    case True
    then obtain b where b: "v = Val [b]" by (cases v) auto
    then show ?thesis using Cons.IH [of stg runs "pending @ [b]"] Cons.prems by simp
  next
    case False
    then have step: "insert_loop dbg d (stg, runs) pending (v # vs) =
        and_then (if pending = [] then ok (stg, runs)
                  else allocate_stretch_for_placement dbg InsMint InsContent d pending (stg, runs)) (\<lambda>acc.
        and_then (allocate_for_placement dbg InsMint InsContent d v acc) (\<lambda>acc. insert_loop dbg d acc [] vs))"
      by (auto split: list.splits)
    obtain stg1 runs1 as1 where p: "(if pending = [] then ok (stg, runs)
        else allocate_stretch_for_placement dbg InsMint InsContent d pending (stg, runs)) = ok (stg1, runs1)"
      "wf_runs runs1" "merged runs1" "flat runs1 = flat runs @ as1"
      "given (stg_working stg) (stg_working stg1) d as1 (map (\<lambda>b. Val [b]) pending)"
      "\<And>base first. lawful dbg base first stg \<Longrightarrow> lawful dbg base first stg1"
    proof (cases "pending = []")
      case True
      then show thesis using that [of stg runs "[]"] Cons.prems given_Nil by simp
    next
      case pend: False
      obtain stg' runs' as where a: "allocate_stretch_for_placement dbg InsMint InsContent d pending (stg, runs) = ok (stg', runs')"
        "wf_runs runs'" "merged runs'" "flat runs' = flat runs @ as"
        "given (stg_working stg) (stg_working stg') d as (map (\<lambda>b. Val [b]) pending)"
        "\<And>base first. lawful dbg base first stg \<Longrightarrow> lawful dbg base first stg'"
        by (rule allocate_stretch_spec [OF Cons.prems(1-4) pend, where dbg = dbg and om = InsMint and oc = InsContent])
           (use Cons.prems(5) in simp_all)
      show thesis by (rule that [of stg' runs']) (use a pend in simp_all)
    qed
    have reg1: "registered (w_m3 stg1) d" using given_registered [OF p(5)] Cons.prems(2) by (simp add: w_m3_def)
    have inv1: "world_inv (stg_working stg1)" using p(5) by (simp add: given_def)
    obtain stg2 runs2 as2 where q: "allocate_for_placement dbg InsMint InsContent d v (stg1, runs1) = ok (stg2, runs2)"
      "wf_runs runs2" "merged runs2" "flat runs2 = flat runs1 @ as2"
      "given (stg_working stg1) (stg_working stg2) d as2 [v]"
      "\<And>base first. lawful dbg base first stg1 \<Longrightarrow> lawful dbg base first stg2"
      by (rule allocate_spec [OF inv1 reg1 p(2,3), where dbg = dbg and om = InsMint and oc = InsContent and v = v]) (rule that)
    have reg2: "registered (w_m3 stg2) d" using given_registered [OF q(5)] reg1 by (simp add: w_m3_def)
    have inv2: "world_inv (stg_working stg2)" using q(5) by (simp add: given_def)
    obtain stg3 runs3 as3 where t: "insert_loop dbg d (stg2, runs2) [] vs = ok (stg3, runs3)"
      "wf_runs runs3" "merged runs3" "flat runs3 = flat runs2 @ as3"
      "given (stg_working stg2) (stg_working stg3) d as3 vs"
      "\<And>base first. lawful dbg base first stg2 \<Longrightarrow> lawful dbg base first stg3"
      using Cons.IH [OF inv2 reg2 q(2,3), of "[]"] Cons.prems(5) by auto
    have "given (stg_working stg) (stg_working stg3) d (as1 @ as2 @ as3) (map (\<lambda>b. Val [b]) pending @ v # vs)"
      using given_trans [OF p(5) given_trans [OF q(5) t(5)]] by simp
    moreover have "insert_loop dbg d (stg, runs) pending (v # vs) = ok (stg3, runs3)"
      unfolding step by (simp only: p(1) q(1) t(1) and_then_simps)
    moreover have "flat runs3 = flat runs @ as1 @ as2 @ as3" using p(4) q(4) t(4) by simp
    moreover have "\<forall>base first. lawful dbg base first stg \<longrightarrow> lawful dbg base first stg3"
      using p(6) q(6) t(6) by blast
    ultimately show ?thesis using t(2,3) by blast
  qed
qed

section \<open>One record of the arrangement\<close>

lemma push_arrangement:
  assumes "world_inv (stg_working stg)" "legal_m5 (stg_working stg) r"
  obtains stg' m where "stg_push (apply_world dbg) stg (ArrangementRec r) = ret stg'"
    "stg_working stg' = (stg_working stg)\<lparr>w_arrangement := m\<rparr>"
    "vstream_of m = vstream_step r (vstream_of (w_m5 stg))" "world_inv (stg_working stg')"
    "apply_m5 (stg_first stg + length (stg_records stg)) (w_m5 stg) r = ret m"
    "\<And>base first. lawful dbg base first stg \<Longrightarrow> lawful dbg base first stg'"
proof -
  obtain m where m: "apply_world dbg (stg_first stg + length (stg_records stg)) (stg_working stg) (ArrangementRec r)
      = ret ((stg_working stg)\<lparr>w_arrangement := m\<rparr>)"
    "apply_m5 (stg_first stg + length (stg_records stg)) (w_arrangement (stg_working stg)) r = ret m"
    "vstream_of m = vstream_step r (vstream_of (w_arrangement (stg_working stg)))"
    "world_inv ((stg_working stg)\<lparr>w_arrangement := m\<rparr>)"
    by (rule apply_arrangement [OF assms])
  let ?s = "stg\<lparr>stg_working := (stg_working stg)\<lparr>w_arrangement := m\<rparr>, stg_records := stg_records stg @ [ArrangementRec r]\<rparr>"
  have p: "stg_push (apply_world dbg) stg (ArrangementRec r) = ret ?s" using m(1) by (simp add: push_eq)
  have "lawful dbg base first ?s" if "lawful dbg base first stg" for base first
    by (rule lawful_push [OF that _ p]) (use assms(2) in simp)
  then show thesis using that [of ?s m] p m(2-4) by (simp add: w_m5_def)
qed

section \<open>The gates\<close>

lemma gate_write_eq [returns]:
  "wf_address d \<Longrightarrow> gate_write m3 c d e f =
     (if \<not> registered m3 d then err e else if \<not> is_owner c m3 d then err (f d) else ok ())"
  by (simp add: gate_write_def registered_eq)

definition insert_refusal :: "insert_error \<Rightarrow> bool" where
  "insert_refusal e \<longleftrightarrow> (\<forall>x. e \<noteq> InsMint x) \<and> (\<forall>x. e \<noteq> InsContent x)"

lemma deposit_types_return: "\<exists>tys. deposit_class_types = ret tys"
proof -
  let ?d = "addr_of [1, 1, 0, 1, 0, 1]"
  have one: "\<exists>a. elem_addr \<lparr>doc = ?d, pos_subspace = 3, pos_ordinal = n\<rparr> = ok a" if n: "0 < n" for n
  proof -
    have wf: "wf_address ?d" by (rule wf_known)
    obtain a where "elem_addr \<lparr>doc = ?d, pos_subspace = 3, pos_ordinal = n\<rparr> = ret (Ok a)"
      by (rule elem_addr_Ok [of "\<lparr>doc = ?d, pos_subspace = 3, pos_ordinal = n\<rparr>"])
         (use wf n in \<open>auto simp: level_of_def\<close>)
    then show ?thesis by simp
  qed
  show ?thesis using one [of 1] one [of 2] one [of 55] one [of 56]
    by (auto simp: deposit_class_types_def known_addresses commons_type_subspace_def del: One_nat_def)
qed

section \<open>INSERT\<close>

text \<open>What let an edit of the surface \<open>s\<close> of document \<open>d\<close> through.\<close>

definition permitted :: "world \<Rightarrow> caller \<Rightarrow> address \<Rightarrow> address \<Rightarrow> as_of \<Rightarrow> bool" where
  "permitted w c d s asof \<longleftrightarrow> registered (w_namespace w) d \<and> is_owner c (w_namespace w) d \<and>
     arrangement_moved (w_arrangement w) s asof = None"

definition place_site :: "world \<Rightarrow> address \<Rightarrow> v_pos \<Rightarrow> bool" where
  "place_site w d p \<longleftrightarrow> vpos_is_content p \<and> 1 \<le> vp_ordinal p \<and>
     vp_ordinal p \<le> length (arranged (w_arrangement w) d) + 1"

text \<open>A published document takes declared deposits only, past its last position.\<close>

definition deposit_allowed :: "world \<Rightarrow> address \<Rightarrow> address \<Rightarrow> v_pos \<Rightarrow> deposit \<Rightarrow> bool" where
  "deposit_allowed w d s at dep \<longleftrightarrow> (published (w_namespace w) (trunk d) \<longrightarrow>
     (\<exists>ty tys. dep = Declared ty \<and> deposit_class_types = ret tys \<and> ty \<in> set tys) \<and>
     names_fresh_content_position (w_arrangement w) s at)"

definition insert_admitted ::
    "world \<Rightarrow> caller \<Rightarrow> address \<Rightarrow> v_pos \<Rightarrow> val list \<Rightarrow> deposit \<Rightarrow> as_of \<Rightarrow> address \<Rightarrow> bool" where
  "insert_admitted w c d at vs dep asof s \<longleftrightarrow> deposit_surface (w_namespace w) d = ret s \<and>
     permitted w c d s asof \<and> deposit_allowed w d s at dep \<and> vs \<noteq> [] \<and> place_site w s at"

lemma insert_surface_spec:
  assumes "world_inv w" "registered (w_namespace w) d"
  obtains s where "deposit_surface (w_namespace w) d = ret s" "registered (w_namespace w) s"
    "insert_surface (w_namespace w) (w_arrangement w) d at dep =
       (if deposit_allowed w d s at dep then ok s else err InsPublishedTarget)"
proof -
  note d = conjunct1 [OF assms(2)]
  obtain tys where tys: "deposit_class_types = ret tys" using deposit_types_return by blast
  obtain s where s: "deposit_surface (w_namespace w) d = ret s"
    "s = (if published (w_namespace w) (trunk d)
       then (case head_of (w_namespace w) d of Some v \<Rightarrow> v | None \<Rightarrow> trunk d) else d)"
    using chain_reads(3) [OF d] by blast
  have reg: "registered (w_namespace w) s"
    using s(2) assms(2) head_registered [OF d] trunk_registered [OF world_invD(7) [OF assms(1)] assms(2)]
    by (auto split: option.splits)
  have unpub: "\<not> published (w_namespace w) (trunk d) \<Longrightarrow> s = d" using s(2) by simp
  have "insert_surface (w_namespace w) (w_arrangement w) d at dep =
      (if \<not> published (w_namespace w) (trunk d) then ok d
       else case dep of Undeclared \<Rightarrow> err InsPublishedTarget
            | Declared ty \<Rightarrow> if ty \<notin> set tys \<or> \<not> names_fresh_content_position (w_arrangement w) s at
                then err InsPublishedTarget else ok s)"
    unfolding insert_surface_def tys s(1) chain_reads(1) [OF d] by (simp split: deposit.split)
  also have "\<dots> = (if deposit_allowed w d s at dep then ok s else err InsPublishedTarget)"
    using unpub by (cases dep) (auto simp: deposit_allowed_def tys)
  finally show thesis by (rule that [OF s(1) reg])
qed

definition inserted :: "world \<Rightarrow> world \<Rightarrow> address \<Rightarrow> address \<Rightarrow> nat \<Rightarrow> val list \<Rightarrow> address \<Rightarrow> bool" where
  "inserted w v d s ord vs first \<longleftrightarrow> (\<exists>as.
     arranged (w_arrangement v) = (arranged (w_arrangement w))(s := place ord as (arranged (w_arrangement w) s)) \<and>
     map (\<lambda>a. map_option to_val (content (w_content v) (tumbler a))) as = map Some vs \<and>
     distinct as \<and> as \<noteq> [] \<and> first = hd as \<and>
     (\<forall>a \<in> set as. full_pos a \<and> document_of a = ret (Some d) \<and> \<not> stored_at w a \<and> \<not> allocated (w_namespace w) a))"

lemma content_count_eq: "content_count s d = length (arranged s d)"
  by (simp add: content_count_def total_width_eq arranged_def rl_elems_def)

lemma run_start: "wf_runs (r # rs) \<Longrightarrow> hd (flat (r # rs)) = i_start r"
  by (simp add: run_addrs_def wf_runD upt_conv_Cons hd_append)

lemma insert_sound:
  assumes inv: "world_inv (stg_working stg)" and d: "wf_address d" and len: "length vs < 2 ^ 64"
  shows "sound_body dbg stg (insert_op dbg c d at vs dep asof stg)
    (\<lambda>v first. \<exists>s. insert_admitted (stg_working stg) c d at vs dep asof s \<and>
       inserted (stg_working stg) v d s (vp_ordinal at) vs first)
    (\<lambda>e. insert_refusal e \<and> (\<nexists>s. insert_admitted (stg_working stg) c d at vs dep asof s))"
proof -
  let ?w = "stg_working stg" and ?op = "insert_op dbg c d at vs dep asof stg"
  note refused = insert_refusal_def sound_body_def
  note gate = gate_write_eq [OF d, of "w_m3 stg" c InsDocNotRegistered InsNotOwner]
  show ?thesis
  proof (cases "registered (w_m3 stg) d \<and> is_owner c (w_m3 stg) d")
    case False
    then have "?op = err InsDocNotRegistered \<or> ?op = err (InsNotOwner d)"
      unfolding insert_op_def gate by auto
    then show ?thesis using False by (auto simp: refused insert_admitted_def permitted_def w_m3_def)
  next
    case own: True
    then have reg: "registered (w_namespace ?w) d" by (simp add: w_m3_def)
    have op: "?op = and_then (insert_surface (w_m3 stg) (w_m5 stg) d at dep) (\<lambda>surface.
       (case arrangement_moved (w_m5 stg) surface asof of
          Some (typed, current) \<Rightarrow> err (InsArrangementMoved typed current)
        | None \<Rightarrow>
            if vs = [] then err InsEmptyContent
            else if \<not> vpos_is_content at then err InsNotContentSubspace
            else if \<not> admits_content_boundary (w_m5 stg) surface (vp_ordinal at) then err InsOutOfBounds
            else and_then (insert_loop dbg d (stg, []) [] vs) (\<lambda>(stg, runs).
              (case runs of
                 [] \<Rightarrow> panic
               | r # _ \<Rightarrow> do {
                   stg \<leftarrow> stg_push (apply_world dbg) stg
                            (ArrangementRec (ContentPlace surface (vp_ordinal at) runs));
                   ok (stg, i_start r) }))))"
      unfolding insert_op_def gate using own by simp
    obtain s where s: "deposit_surface (w_m3 stg) d = ret s" "registered (w_m3 stg) s"
      "insert_surface (w_m3 stg) (w_m5 stg) d at dep =
         (if deposit_allowed ?w d s at dep then ok s else err InsPublishedTarget)"
      by (rule insert_surface_spec [OF inv reg, of "at" dep]) (simp add: w_m3_def w_m5_def that)
    have adm: "insert_admitted ?w c d at vs dep asof x \<longleftrightarrow> x = s \<and> deposit_allowed ?w d s at dep \<and>
        arrangement_moved (w_m5 stg) s asof = None \<and> vs \<noteq> [] \<and> place_site ?w s at" for x
      using s(1) own by (auto simp: insert_admitted_def permitted_def w_m3_def w_m5_def)
    have site: "place_site ?w s at \<longleftrightarrow> vpos_is_content at \<and> admits_content_boundary (w_m5 stg) s (vp_ordinal at)"
      by (simp add: place_site_def admits_content_boundary_def content_count_eq w_m5_def)
    show ?thesis
    proof (cases "deposit_allowed ?w d s at dep \<and> arrangement_moved (w_m5 stg) s asof = None \<and> vs \<noteq> [] \<and>
        place_site ?w s at")
      case False
      then have "\<exists>e. ?op = err e \<and> insert_refusal e"
        unfolding op s(3) site by (auto simp: insert_refusal_def split: option.splits)
      then show ?thesis using False adm by (auto simp: sound_body_def)
    next
      case pass: True
      then have srf: "insert_surface (w_m3 stg) (w_m5 stg) d at dep = ok s" using s(3) by simp
        obtain stg' runs as where l: "insert_loop dbg d (stg, []) [] vs = ok (stg', runs)"
          "wf_runs runs" "flat runs = as" "given ?w (stg_working stg') d as vs"
          "\<forall>base first. lawful dbg base first stg \<longrightarrow> lawful dbg base first stg'"
          using insert_loop_spec [OF inv, of d "[]" "[]" vs dbg] own len by (auto simp: merged_def)
        have as: "as \<noteq> []" using l(4) pass by (auto simp: given_def)
        then obtain r rs where rr: "runs = r # rs" using l(3) by (cases runs) auto
        have hd: "i_start r = hd as" using run_start l(2,3) rr by metis
        note g = l(4) [unfolded given_def]
        have stored: "stored_at (stg_working stg') a" if "a \<in> set as" for a
        proof -
          have "map_option to_val (content (w_content (stg_working stg')) (tumbler a)) \<in> Some ` set vs"
            using g that by (metis image_eqI image_set)
          then show ?thesis by (auto simp: stored_at_def)
        qed
        have leg: "legal_m5 (stg_working stg') (ContentPlace s (vp_ordinal at) runs)"
          using given_registered [OF l(4), of s] s(2) l(2,3) stored by (simp add: w_m3_def)
        obtain stg'' m where p: "stg_push (apply_world dbg) stg' (ArrangementRec (ContentPlace s (vp_ordinal at) runs)) = ret stg''"
          "stg_working stg'' = (stg_working stg')\<lparr>w_arrangement := m\<rparr>"
          "vstream_of m = vstream_step (ContentPlace s (vp_ordinal at) runs) (vstream_of (w_m5 stg'))"
          "\<And>base first. lawful dbg base first stg' \<Longrightarrow> lawful dbg base first stg''"
          "world_inv (stg_working stg'')"
          by (rule push_arrangement [OF conjunct1 [OF g] leg, where dbg = dbg]) (rule that)
        have "arranged m = (arranged (w_arrangement ?w))(s := place (vp_ordinal at) as (arranged (w_arrangement ?w) s))"
          using arg_cong [OF p(3), of vm_content] g l(3) by (simp add: vm_place_def w_m5_def)
        then have "inserted ?w (stg_working stg'') d s (vp_ordinal at) vs (hd as)"
          using g as p(2) by (auto simp: inserted_def)
        moreover have "?op = ok (stg'', hd as)"
          unfolding op srf using pass l(1) rr p(1) hd site by simp
        moreover have "world_extends ?w (stg_working stg'')" using g p(2) by (simp add: world_extends_def)
        ultimately show ?thesis
          unfolding sound_body_def using adm pass l(5) p(4,5) by auto
    qed
  qed
qed


section \<open>The in-place edits\<close>

text \<open>
  The edits that stage one record on an unpublished document: what they leave differs from the world
  they started from by one document's list.
\<close>

definition edited :: "world \<Rightarrow> world \<Rightarrow> address \<Rightarrow> (address list \<Rightarrow> address list) \<Rightarrow> bool" where
  "edited w v d f \<longleftrightarrow> w_namespace v = w_namespace w \<and> w_content v = w_content w \<and>
     seated (w_arrangement v) = seated (w_arrangement w) \<and>
     arranged (w_arrangement v) = (arranged (w_arrangement w))(d := f (arranged (w_arrangement w) d))"

lemma push_edit:
  assumes "world_inv (stg_working stg)" "legal_m5 (stg_working stg) r"
    and "vm_content (vstream_step r (vstream_of (w_m5 stg))) = (arranged (w_m5 stg))(d := f (arranged (w_m5 stg) d))"
    and "vm_links (vstream_step r (vstream_of (w_m5 stg))) = seated (w_m5 stg)"
  obtains stg' where "stg_push (apply_world dbg) stg (ArrangementRec r) = ret stg'"
    "edited (stg_working stg) (stg_working stg') d f" "world_inv (stg_working stg')"
    "\<And>base first. lawful dbg base first stg \<Longrightarrow> lawful dbg base first stg'"
proof -
  obtain stg' m where p: "stg_push (apply_world dbg) stg (ArrangementRec r) = ret stg'"
    "stg_working stg' = (stg_working stg)\<lparr>w_arrangement := m\<rparr>"
    "vstream_of m = vstream_step r (vstream_of (w_m5 stg))"
    "\<And>base first. lawful dbg base first stg \<Longrightarrow> lawful dbg base first stg'"
    "world_inv (stg_working stg')"
    by (rule push_arrangement [OF assms(1,2), where dbg = dbg]) (rule that)
  have "arranged m = (arranged (w_m5 stg))(d := f (arranged (w_m5 stg) d))"
    using arg_cong [OF p(3), of vm_content] assms(3) by simp
  moreover have "seated m = seated (w_m5 stg)" using arg_cong [OF p(3), of vm_links] assms(4) by simp
  ultimately have "edited (stg_working stg) (stg_working stg') d f" using p(2) by (simp add: edited_def w_m5_def)
  then show thesis using that p(1,4,5) by blast
qed

text \<open>The three gates each of them opens with, in the order of the code.\<close>

definition in_place :: "world \<Rightarrow> caller \<Rightarrow> address \<Rightarrow> as_of \<Rightarrow> bool" where
  "in_place w c d asof \<longleftrightarrow> permitted w c d d asof \<and> \<not> published (w_namespace w) (trunk d)"

lemma in_place_gates:
  assumes "wf_address d"
    and "res = and_then (gate_write (w_m3 stg) c d e0 e1) (\<lambda>_. do {
       p \<leftarrow> published_target (w_m3 stg) d;
       (if p then err e2
        else case arrangement_moved (w_m5 stg) d asof of
               Some (typed, current) \<Rightarrow> err (e3 typed current)
             | None \<Rightarrow> rest) })"
    and refusals: "\<not> in_place (stg_working stg) c d asof \<Longrightarrow> E e0 \<and> E (e1 d) \<and> E e2 \<and> (\<forall>a b. E (e3 a b))"
    and rest: "in_place (stg_working stg) c d asof \<Longrightarrow> sound_body dbg stg rest Q E"
  shows "sound_body dbg stg res (\<lambda>v a. in_place (stg_working stg) c d asof \<and> Q v a) E"
proof -
  note r = assms(2) [unfolded gate_write_eq [OF assms(1)] chain_reads(1) [OF assms(1)]]
  show ?thesis
  proof (cases "in_place (stg_working stg) c d asof")
    case True
    then have "res = rest" unfolding r by (simp add: in_place_def permitted_def w_m3_def w_m5_def)
    then show ?thesis using rest True by (auto simp: sound_body_def)
  next
    case False
    then have "\<exists>e. res = err e \<and> E e"
      unfolding r using refusals by (auto simp: in_place_def permitted_def w_m3_def w_m5_def split: option.splits)
    then show ?thesis by (simp add: sound_body_def)
  qed
qed

lemma sound_err: "E e \<Longrightarrow> sound_body dbg stg (err e) Q E"
  by (simp add: sound_body_def)

lemma sound_edit:
  assumes "world_inv (stg_working stg)" "legal_m5 (stg_working stg) r"
    and "vm_content (vstream_step r (vstream_of (w_m5 stg))) = (arranged (w_m5 stg))(d := f (arranged (w_m5 stg) d))"
    and "vm_links (vstream_step r (vstream_of (w_m5 stg))) = seated (w_m5 stg)"
    and "\<And>v. edited (stg_working stg) v d f \<Longrightarrow> Q v ()"
  shows "sound_body dbg stg (do { stg' \<leftarrow> stg_push (apply_world dbg) stg (ArrangementRec r); ok (stg', ()) }) Q E"
proof -
  obtain stg' where "stg_push (apply_world dbg) stg (ArrangementRec r) = ret stg'"
    "edited (stg_working stg) (stg_working stg') d f" "world_inv (stg_working stg')"
    "\<And>base first. lawful dbg base first stg \<Longrightarrow> lawful dbg base first stg'"
    by (rule push_edit [where f = f and d = d and dbg = dbg, OF assms(1-4)]) (rule that)
  then show ?thesis using assms(5) by (auto simp: sound_body_def edited_def world_extends_def)
qed

lemma arranges_position_eq [returns]:
  assumes "m5_inv s"
  shows "arranges_content_position s d ord = ret (1 \<le> ord \<and> ord \<le> length (arranged s d))"
proof -
  note p = point_spec [OF m5_invD(1) [OF assms, of d], of ord]
  then obtain x where "locate (content_list s d) ord = ret x"
    "x \<noteq> None \<longleftrightarrow> 0 < ord \<and> ord \<le> total_width (content_list s d)"
    by (auto simp: point_def split: Option.bind_splits option.splits if_splits)
  then show ?thesis by (auto simp: arranges_content_position_def arranged_def rl_elems_def total_width_eq)
qed

lemma content_empty_eq: "m5_inv s \<Longrightarrow> content_is_empty s d \<longleftrightarrow> arranged s d = []"
proof -
  assume "m5_inv s"
  then have "wf_runs (rl_runs (content_list s d))" by (intro rl_inv_wf m5_invD(1))
  then show ?thesis by (cases "rl_runs (content_list s d)")
    (auto simp: content_is_empty_def rl_is_empty_def arranged_def rl_elems_def)
qed

text \<open>DELETE, with what it removes.\<close>

definition delete_sites :: "world \<Rightarrow> address \<Rightarrow> v_pos \<Rightarrow> nat \<Rightarrow> bool" where
  "delete_sites w d p n \<longleftrightarrow> vpos_is_content p \<and> 1 \<le> vp_ordinal p \<and> 0 < n \<and>
     vp_ordinal p + n \<le> length (arranged (w_arrangement w) d) + 1"

lemma delete_sound:
  assumes inv: "world_inv (stg_working stg)" and d: "wf_address d"
  shows "sound_body dbg stg (stage_delete_at dbg c d p n asof stg)
    (\<lambda>v _. in_place (stg_working stg) c d asof \<and>
       (delete_sites (stg_working stg) d p n \<and>
        edited (stg_working stg) v d (\<lambda>as. take (vp_ordinal p - 1) as @ drop (vp_ordinal p - 1 + n) as)))
    (\<lambda>e. \<not> (in_place (stg_working stg) c d asof \<and> delete_sites (stg_working stg) d p n))"
  (is "sound_body _ _ _ _ ?E")
  unfolding stage_delete_at_def
proof (rule in_place_gates [OF d refl])
  have m5: "m5_inv (w_m5 stg)" using world_invD(3) [OF inv] by (simp add: w_m5_def)
  note arr = arranges_position_eq [OF m5, of d "vp_ordinal p"]
  show "sound_body dbg stg (if \<not> vpos_is_content p then err DelNotContentSubspace
     else do {
       arr \<leftarrow> arranges_content_position (w_m5 stg) d (vp_ordinal p);
       (if \<not> arr then err DelNotArranged
        else if \<not> contains_content_range (w_m5 stg) d (vp_ordinal p) n then err DelOutOfBounds
        else if nat_is_zero n then err DelEmptyWidth
        else do {
          stg \<leftarrow> stg_push (apply_world dbg) stg (ArrangementRec (ContentRemove d (vp_ordinal p) n));
          ok (stg, ()) }) })
    (\<lambda>v a. delete_sites (stg_working stg) d p n \<and>
        edited (stg_working stg) v d (\<lambda>as. take (vp_ordinal p - 1) as @ drop (vp_ordinal p - 1 + n) as)) ?E"
  proof (cases "delete_sites (stg_working stg) d p n")
    case True
    then have r: "?thesis = sound_body dbg stg (do {
          stg \<leftarrow> stg_push (apply_world dbg) stg (ArrangementRec (ContentRemove d (vp_ordinal p) n));
          ok (stg, ()) })
      (\<lambda>v a. delete_sites (stg_working stg) d p n \<and>
        edited (stg_working stg) v d (\<lambda>as. take (vp_ordinal p - 1) as @ drop (vp_ordinal p - 1 + n) as)) ?E"
      unfolding arr by (simp add: delete_sites_def contains_content_range_def content_count_eq nat_is_zero_def w_m5_def)
    show ?thesis unfolding r
      by (rule sound_edit [OF inv, where d = d and f = "\<lambda>as. take (vp_ordinal p - 1) as @ drop (vp_ordinal p - 1 + n) as"])
         (use d True in simp_all)
  next
    case False
    then show ?thesis
      unfolding arr
      by (auto simp: delete_sites_def contains_content_range_def content_count_eq nat_is_zero_def w_m5_def intro!: sound_err)
  qed
qed auto


text \<open>REARRANGE; its last verdict, an empty document, is never reached.\<close>

definition rearrange_sites :: "world \<Rightarrow> address \<Rightarrow> v_pos list \<Rightarrow> bool" where
  "rearrange_sites w d cuts \<longleftrightarrow> length cuts \<in> {3, 4} \<and> sorted_wrt (<) (map vp_ordinal cuts) \<and>
     list_all vpos_is_content cuts \<and> 1 \<le> vp_ordinal (hd cuts) \<and>
     vp_ordinal (last cuts) \<le> length (arranged (w_arrangement w) d) + 1"

lemma cut_ends_eq: "cut_ends cuts = (if length cuts \<in> {3, 4} then Some (hd cuts, last cuts) else None)"
  by (auto simp: cut_ends_def split: list.splits)

lemma ascending_iff: "list_all (\<lambda>(x, y). vp_ordinal x < vp_ordinal y) (zip cuts (tl cuts)) \<longleftrightarrow>
    sorted_wrt (<) (map vp_ordinal cuts)"
proof (induction cuts)
  case (Cons x cuts)
  then show ?case
  proof (cases cuts)
    case (Cons y ys)
    then show ?thesis using Cons.IH by (auto dest: less_trans)
  qed simp
qed simp

lemma rearrange_sound:
  assumes inv: "world_inv (stg_working stg)" and d: "wf_address d"
  shows "sound_body dbg stg (rearrange_op dbg c d cuts asof stg)
    (\<lambda>v _. in_place (stg_working stg) c d asof \<and>
       (rearrange_sites (stg_working stg) d cuts \<and>
        edited (stg_working stg) v d (\<lambda>as. seq_reorder as (map vp_ordinal cuts))))
    (\<lambda>e. e \<noteq> ReEmptyContentSubspace \<and>
       \<not> (in_place (stg_working stg) c d asof \<and> rearrange_sites (stg_working stg) d cuts))"
  (is "sound_body _ _ _ _ ?E")
  unfolding rearrange_op_def
proof (rule in_place_gates [OF d refl])
  have m5: "m5_inv (w_m5 stg)" using world_invD(3) [OF inv] by (simp add: w_m5_def)
  let ?push = "do { stg' \<leftarrow> stg_push (apply_world dbg) stg (ArrangementRec (ContentReorder d (map vp_ordinal cuts)));
    ok (stg', ()) }"
  let ?body = "case cut_ends cuts of
        None \<Rightarrow> err ReBadCutCount
      | Some (a, b) \<Rightarrow>
          if \<not> list_all (\<lambda>(x, y). vp_ordinal x < vp_ordinal y) (zip cuts (tl cuts)) then err ReNotAscending
          else if \<not> list_all vpos_is_content cuts then err ReNotContentSubspace
          else if \<not> admits_content_boundary (w_m5 stg) d (vp_ordinal a) \<or>
                  \<not> admits_content_boundary (w_m5 stg) d (vp_ordinal b) then err ReOutOfBounds
          else if content_is_empty (w_m5 stg) d then err ReEmptyContentSubspace
          else ?push"
  let ?Q = "\<lambda>v a. rearrange_sites (stg_working stg) d cuts \<and>
        edited (stg_working stg) v d (\<lambda>as. seq_reorder as (map vp_ordinal cuts))"
  show "sound_body dbg stg ?body ?Q ?E"
  proof (cases "rearrange_sites (stg_working stg) d cuts")
    case True
    then obtain x y z us where cuts: "cuts = x # y # us @ [z]"
      by (auto simp: rearrange_sites_def eval_nat_numeral length_Suc_conv)
    have asc: "vp_ordinal x < vp_ordinal y" "vp_ordinal y < vp_ordinal z" "1 \<le> vp_ordinal x"
      "vp_ordinal z \<le> length (arranged (w_m5 stg) d) + 1"
      using True by (auto simp: rearrange_sites_def cuts sorted_wrt_append w_m5_def)
    then have "arranged (w_m5 stg) d \<noteq> []" by auto
    then have "?body = ?push"
      unfolding cut_ends_eq ascending_iff content_empty_eq [OF m5] using True asc
      by (auto simp: rearrange_sites_def admits_content_boundary_def content_count_eq cuts w_m5_def)
    moreover have "sound_body dbg stg ?push ?Q ?E"
      by (rule sound_edit [OF inv, where d = d and f = "\<lambda>as. seq_reorder as (map vp_ordinal cuts)"])
         (use d True in simp_all)
    ultimately show ?thesis by (simp only:)
  next
    case False
    have "\<exists>e. ?body = err e \<and> ?E e"
    proof (cases "length cuts \<in> {3, 4}")
      case len: True
      then obtain x y z us where cuts: "cuts = x # y # us @ [z]"
        by (auto simp: eval_nat_numeral length_Suc_conv)
      show ?thesis using len False unfolding cut_ends_eq ascending_iff content_empty_eq [OF m5]
        by (auto simp: rearrange_sites_def admits_content_boundary_def content_count_eq cuts w_m5_def
            sorted_wrt_append)
    qed (use False in \<open>simp add: cut_ends_eq\<close>)
    then show ?thesis by (auto simp: sound_body_def)
  qed
qed auto

text \<open>REINSTATE places the runs it names, each checked against what is stored.\<close>

lemma pieces_covered_eq [returns]:
  assumes "wf_store c"
  shows "pieces_covered (store_pieces c t n) = ret (\<forall>k < n. content c (advance t k) \<noteq> None)"
proof -
  obtain ps w where d: "pieces_drain (store_pieces c t n) = ret (ps, w)" "delivers c t n ps (remaining w)"
    using store_pieces_spec [OF assms] by blast
  have "remaining w = 0 \<longleftrightarrow> (\<forall>k < n. content c (advance t k) \<noteq> None)"
  proof
    assume all: "\<forall>k < n. content c (advance t k) \<noteq> None"
    show "remaining w = 0"
    proof (rule ccontr)
      assume "remaining w \<noteq> 0"
      then have "n - remaining w < n" "content c (advance t (n - remaining w)) = None"
        using d(2) by (auto simp: delivers_def)
      then show False using all by blast
    qed
  qed (use d(2) in \<open>simp add: delivers_def\<close>)
  then show ?thesis using d(1) by (simp add: pieces_covered_def)
qed

lemma origin_returns:
  assumes "wf_run r"
  obtains x where "run_origin_document r = ret x" "x = None \<or> (\<exists>d. x = Some d \<and> wf_address d)"
proof -
  have wf: "wf_address (i_start r)" using wf_runD(3) [OF assms] .
  obtain s where s: "subspace (i_start r) = ret s" using subspace_eq [OF wf] by blast
  obtain x where x: "document_of (i_start r) = ret x" "x = None \<or> (\<exists>d. x = Some d \<and> wf_address d)"
    using document_of_cases [OF wf] by (metis option.exhaust)
  show thesis
  proof (cases "s = Some content_subspace")
    case False
    then show thesis using that [of None] s by (simp add: run_origin_document_def)
  next
    case True
    show thesis
    proof (cases x)
      case None
      then show thesis using that [of None] s x True by (simp add: run_origin_document_def)
    next
      case (Some d)
      then show thesis using that [of "Some (trunk d)"] s x True trunk_eq(1,2) [of d]
        by (simp add: run_origin_document_def)
    qed
  qed
qed


text \<open>A run is reinstated when its start settles the stated origin, a registered document, and each of its
  addresses is stored.\<close>

definition run_admitted :: "world \<Rightarrow> shot_run \<Rightarrow> bool" where
  "run_admitted w x \<longleftrightarrow> run_origin_document (sr_run x) = ret (Some (trunk (sr_origin x))) \<and>
     registered (w_namespace w) (trunk (sr_origin x)) \<and> (\<forall>a \<in> set (run_addrs (sr_run x)). stored_at w a)"

lemma reinstate_runs_spec:
  assumes inv: "world_inv w" and "wf_runs acc" "merged acc"
    and "\<forall>x \<in> set srs. wf_run (sr_run x) \<and> wf_address (sr_origin x)"
  shows "(\<exists>e. reinstate_runs w acc srs = err e \<and>
      (e = RsTooManyRuns \<or> e \<in> {RsBadRun, RsSourceNotRegistered, RsDanglingSource} \<and>
         \<not> (\<forall>x \<in> set srs. run_admitted w x))) \<or>
    (\<exists>acc'. reinstate_runs w acc srs = ok acc' \<and> wf_runs acc' \<and> merged acc' \<and>
       flat acc' = flat acc @ flat (map sr_run srs) \<and> (\<forall>x \<in> set srs. run_admitted w x))"
  using assms(2-4)
proof (induction srs arbitrary: acc)
  case (Cons sr srs)
  let ?r = "sr_run sr"
  have sr: "wf_run ?r" "wf_address (sr_origin sr)" using Cons.prems by simp_all
  obtain x where x: "run_origin_document ?r = ret x" "x = None \<or> (\<exists>d. x = Some d \<and> wf_address d)"
    by (rule origin_returns [OF sr(1)])
  define cv where "cv \<longleftrightarrow> (\<forall>k < run_width ?r. content (w_content w) (advance (tumbler (i_start ?r)) k) \<noteq> None)"
  have cov: "pieces_covered (store_pieces (w_content w) (tumbler (i_start ?r)) (run_width ?r)) = ret cv"
    unfolding cv_def by (rule pieces_covered_eq [OF world_invD(2) [OF inv]])
  obtain acc1 where acc1: "extend_or_push_run acc ?r = ret acc1" "wf_runs acc1" "merged acc1"
    "flat acc1 = flat acc @ run_addrs ?r"
    by (rule extend_or_push_run_spec [OF Cons.prems(1) sr(1) Cons.prems(2)])
  have adm: "run_admitted w sr \<longleftrightarrow> x = Some (trunk (sr_origin sr)) \<and>
      registered (w_namespace w) (trunk (sr_origin sr)) \<and> cv"
    using x(1) by (auto simp: run_admitted_def cv_def stored_at_def set_run_addrs)
  show ?case
  proof (cases "run_admitted w sr")
    case True
    then have step: "reinstate_runs w acc (sr # srs) =
        (if length acc1 > max_placed_runs then err RsTooManyRuns else reinstate_runs w acc1 srs)"
      using x(1) adm acc1(1) cov registered_eq(1) [of "trunk (sr_origin sr)" "w_namespace w"] trunk_eq(1) [OF sr(2)]
      by simp
    show ?thesis
      unfolding step using Cons.IH [OF acc1(2,3)] Cons.prems(3) acc1(4) True by auto
  next
    case False
    have "\<exists>e. reinstate_runs w acc (sr # srs) = err e \<and> e \<in> {RsBadRun, RsSourceNotRegistered, RsDanglingSource}"
    proof (cases x)
      case None
      then show ?thesis using x(1) by simp
    next
      case (Some d)
      then have "wf_address d" using x(2) by simp
      then show ?thesis
        using x(1) Some False [unfolded adm] trunk_eq(1) [OF sr(2)] registered_eq(1) [of d "w_namespace w"]
        by (auto simp: cov)
    qed
    then show ?thesis using False by auto
  qed
qed simp

lemma sound_place:
  assumes "world_inv (stg_working stg)" "registered (w_m3 stg) d" "wf_runs rs"
    and "\<forall>a \<in> set (flat rs). stored_at (stg_working stg) a"
    and "\<And>v. edited (stg_working stg) v d (place ord (flat rs)) \<Longrightarrow> Q v ()"
  shows "sound_body dbg stg (do { stg' \<leftarrow> stg_push (apply_world dbg) stg (ArrangementRec (ContentPlace d ord rs));
    ok (stg', ()) }) Q E"
  by (rule sound_edit [OF assms(1), where d = d and f = "place ord (flat rs)"])
     (use assms(2-5) in \<open>simp_all add: vm_place_def w_m3_def\<close>)

lemma reinstate_sound:
  assumes inv: "world_inv (stg_working stg)" and d: "wf_address d"
    and srs: "\<forall>x \<in> set srs. wf_run (sr_run x) \<and> wf_address (sr_origin x)"
  shows "sound_body dbg stg (stage_reinstate_at dbg c d p srs asof stg)
    (\<lambda>v _. in_place (stg_working stg) c d asof \<and>
       (place_site (stg_working stg) d p \<and> srs \<noteq> [] \<and> (\<forall>x \<in> set srs. run_admitted (stg_working stg) x) \<and>
        edited (stg_working stg) v d (place (vp_ordinal p) (flat (map sr_run srs)))))
    (\<lambda>e. (e = RsTooManyRuns \<or> \<not> (in_place (stg_working stg) c d asof \<and> place_site (stg_working stg) d p \<and>
         srs \<noteq> [] \<and> (\<forall>x \<in> set srs. run_admitted (stg_working stg) x))) \<and>
       (place_site (stg_working stg) d p \<and> srs \<noteq> [] \<longrightarrow> e \<notin> {RsNotContentSubspace, RsOutOfBounds, RsEmptyResult}))"
  (is "sound_body _ _ _ _ ?E")
  unfolding stage_reinstate_at_def
proof (rule in_place_gates [OF d refl])
  assume perm: "in_place (stg_working stg) c d asof"
  let ?Q = "\<lambda>v a. place_site (stg_working stg) d p \<and> srs \<noteq> [] \<and>
        (\<forall>x \<in> set srs. run_admitted (stg_working stg) x) \<and>
        edited (stg_working stg) v d (place (vp_ordinal p) (flat (map sr_run srs)))"
  let ?rest = "if \<not> vpos_is_content p then err RsNotContentSubspace
     else if \<not> admits_content_boundary (w_m5 stg) d (vp_ordinal p) then err RsOutOfBounds
     else and_then (reinstate_runs (stg_working stg) [] srs) (\<lambda>placement.
       if placement = [] then err RsEmptyResult
       else do { stg' \<leftarrow> stg_push (apply_world dbg) stg (ArrangementRec (ContentPlace d (vp_ordinal p) placement));
                 ok (stg', ()) })"
  show "sound_body dbg stg ?rest ?Q ?E"
  proof (cases "place_site (stg_working stg) d p")
    case False
    then have "\<exists>e. ?rest = err e \<and> ?E e"
      by (auto simp: place_site_def admits_content_boundary_def content_count_eq w_m5_def)
    then show ?thesis by (auto simp: sound_body_def)
  next
    case site: True
    then have rest: "?rest = and_then (reinstate_runs (stg_working stg) [] srs) (\<lambda>placement.
       if placement = [] then err RsEmptyResult
       else do { stg' \<leftarrow> stg_push (apply_world dbg) stg (ArrangementRec (ContentPlace d (vp_ordinal p) placement));
                 ok (stg', ()) })"
      by (simp add: place_site_def admits_content_boundary_def content_count_eq w_m5_def)
    have "wf_runs []" "merged []" by (simp_all add: merged_def)
    from reinstate_runs_spec [OF inv this srs]
    consider (err) e where "reinstate_runs (stg_working stg) [] srs = err e"
        "e = RsTooManyRuns \<or> \<not> (\<forall>x \<in> set srs. run_admitted (stg_working stg) x)"
        "e \<notin> {RsNotContentSubspace, RsOutOfBounds, RsEmptyResult}"
      | (ok) rs where "reinstate_runs (stg_working stg) [] srs = ok rs" "wf_runs rs"
        "flat rs = flat (map sr_run srs)" "\<forall>x \<in> set srs. run_admitted (stg_working stg) x"
      by auto
    then show ?thesis
    proof cases
      case err
      then show ?thesis unfolding rest by (auto intro!: sound_err)
    next
      case ok
      have ne: "rs = [] \<longleftrightarrow> srs = []"
        using ok(2,3) srs by (cases rs; cases srs) auto
      show ?thesis
      proof (cases "srs = []")
        case True
        then show ?thesis unfolding rest unfolding ok(1) using ne by (auto intro!: sound_err)
      next
        case nonempty: False
        have "registered (w_m3 stg) d" using perm by (simp add: in_place_def permitted_def w_m3_def)
        moreover have "\<forall>a \<in> set (flat rs). stored_at (stg_working stg) a"
          using ok(3,4) by (auto simp: run_admitted_def flat_def)
        ultimately have "sound_body dbg stg (do { stg' \<leftarrow> stg_push (apply_world dbg) stg (ArrangementRec (ContentPlace d (vp_ordinal p) rs));
                 ok (stg', ()) }) ?Q ?E"
          by (rule sound_place [OF inv _ ok(2)]) (use ok(3,4) site nonempty in auto)
        then show ?thesis unfolding rest unfolding ok(1) using ne nonempty by simp
      qed
    qed
  qed
qed auto


text \<open>COPY places what its specs resolve to, before the edit; no source it resolves is dangling.\<close>

definition spec_addrs :: "world \<Rightarrow> vspec \<Rightarrow> address list" where
  "spec_addrs w sp = (case as_ordinal_vspan (vs_span sp) of
      None \<Rightarrow> []
    | Some v \<Rightarrow> take (ov_ordinal v + ov_count v - max (ov_ordinal v) 1)
        (drop (max (ov_ordinal v) 1 - 1) (arranged (w_arrangement w) (vs_source sp))))"

lemma resolve_content:
  assumes "m5_inv s" "as_ordinal_vspan sp = Some v" "ov_is_content v"
  obtains rs where "resolve s d sp = ret rs" "wf_runs rs"
    "flat rs = take (ov_ordinal v + ov_count v - max (ov_ordinal v) 1) (drop (max (ov_ordinal v) 1 - 1) (arranged s d))"
proof -
  let ?l = "content_list s d" and ?m = "max (ov_ordinal v) 1" and ?h = "ov_ordinal v + ov_count v"
  note inv = m5_invD(1) [OF assms(1), of d]
  have r: "resolve s d sp = iter_resolve_range ?l (ov_ordinal v) (ov_count v)"
    using assms(2,3) by (simp add: resolve_def arr_list_def ov_is_content_def content_list_def)
  show thesis
  proof (cases "?m < ?h")
    case False
    then have "resolve s d sp = ret []" unfolding r iter_resolve_range_def Let_def by (simp only: if_False)
    moreover have "?h - ?m = 0" using False by linarith
    ultimately show thesis using that [of "[]"] by (simp only: wf_runs_simps flat_simps take_0 simp_thms)
  next
    case True
    then obtain xs where xs: "exec_map (clip_block ?m (Some ?h))
      (takeWhile (\<lambda>b. case Some ?h of None \<Rightarrow> True | Some k \<Rightarrow> v_start b < k) (blocks_from 1 (rl_runs ?l))) = ret xs"
      "wf_runs (List.map_filter id xs)" "flat (List.map_filter id xs) = cap ?m (Some ?h) 1 (flat (rl_runs ?l))"
      using clip_list_spec [OF rl_inv_wf [OF inv], of "Some ?h" ?m 1] by auto
    show thesis
      by (rule that [of "List.map_filter id xs"])
         (use r True xs in \<open>simp_all add: iter_resolve_range_def clipped_runs_def iter_blocks_def
            blocks_of_def Let_def cap_def arranged_def rl_elems_def\<close>)
  qed
qed

lemma copy_runs_spec:
  assumes "wf_store c" "wf_runs acc" "merged acc" "wf_runs rs"
    and "\<forall>a \<in> set (flat rs). content c (tumbler a) \<noteq> None"
  shows "copy_runs c acc rs = err CpTooManyRuns \<or>
    (\<exists>acc'. copy_runs c acc rs = ok acc' \<and> wf_runs acc' \<and> merged acc' \<and> flat acc' = flat acc @ flat rs)"
  using assms(2-5)
proof (induction rs arbitrary: acc)
  case (Cons r rs)
  then have r: "wf_run r" by simp
  have "i_start r \<in> set (run_addrs r)"
    using wf_runD(1,2) [OF r] by (auto simp: set_run_addrs intro!: image_eqI [of _ _ 0])
  then obtain p where "content c (tumbler (i_start r)) = Some p" using Cons.prems(4) by auto
  then have st: "store_contains c (tumbler (i_start r)) = ret True"
    using content_covered [OF assms(1)] store_contains_eq [OF assms(1)] by simp
  obtain acc1 where acc1: "extend_or_push_run acc r = ret acc1" "wf_runs acc1" "merged acc1"
    "flat acc1 = flat acc @ run_addrs r"
    by (rule extend_or_push_run_spec [OF Cons.prems(1) r Cons.prems(2)])
  show ?case using Cons.IH [OF acc1(2,3)] Cons.prems(3,4) acc1(1,4) st by simp
qed simp

definition spec_admitted :: "world \<Rightarrow> vspec \<Rightarrow> bool" where
  "spec_admitted w sp \<longleftrightarrow> registered (w_namespace w) (vs_source sp) \<and>
     (case as_ordinal_vspan (vs_span sp) of None \<Rightarrow> False | Some v \<Rightarrow> ov_is_content v) \<and>
     arranged (w_arrangement w) (vs_source sp) \<noteq> []"

definition copy_refusal :: "world \<Rightarrow> vspec list \<Rightarrow> copy_error \<Rightarrow> bool" where
  "copy_refusal w sps e \<longleftrightarrow> e = CpTooManyRuns \<or>
     e \<in> {CpSourceNotRegistered, CpNotOrdinalVSpan, CpSourceNotContentSubspace, CpEmptySource} \<and>
       \<not> (\<forall>sp \<in> set sps. spec_admitted w sp)"

lemma copy_specs_spec:
  assumes inv: "world_inv w" and "wf_runs acc" "merged acc" "\<forall>sp \<in> set sps. wf_address (vs_source sp)"
  shows "(\<exists>e. copy_specs w steps acc sps = err e \<and> copy_refusal w sps e) \<or>
    (\<exists>acc'. copy_specs w steps acc sps = ok acc' \<and> wf_runs acc' \<and> merged acc' \<and>
       flat acc' = flat acc @ concat (map (spec_addrs w) sps) \<and> (\<forall>sp \<in> set sps. spec_admitted w sp))"
  using assms(2-4)
proof (induction sps arbitrary: acc steps)
  case (Cons sp sps)
  note m5 = world_invD(3) [OF inv]
  let ?s = "saturating_add steps (content_run_count (w_arrangement w) (vs_source sp))"
  have reg: "is_registered_document (w_namespace w) (vs_source sp) = ret (registered (w_namespace w) (vs_source sp))"
    using registered_eq(1) Cons.prems(3) by simp
  note empty = content_empty_eq [OF m5, of "vs_source sp"]
  show ?case
  proof (cases "spec_admitted w sp")
    case False
    then have "\<exists>e. copy_specs w steps acc (sp # sps) = err e \<and>
        e \<in> {CpSourceNotRegistered, CpNotOrdinalVSpan, CpSourceNotContentSubspace, CpEmptySource}"
      using reg empty by (cases "as_ordinal_vspan (vs_span sp)") (auto simp: spec_admitted_def Let_def)
    then show ?thesis using False by (auto simp: copy_refusal_def simp del: copy_specs.simps)
  next
    case True
    then obtain v where v: "as_ordinal_vspan (vs_span sp) = Some v" "ov_is_content v"
      by (auto simp: spec_admitted_def split: option.splits)
    obtain rs where rs: "resolve (w_arrangement w) (vs_source sp) (vs_span sp) = ret rs" "wf_runs rs"
      "flat rs = spec_addrs w sp"
      by (rule resolve_content [OF m5 v, of "vs_source sp"]) (simp add: spec_addrs_def v(1) that)
    have step: "copy_specs w steps acc (sp # sps) = (if ?s > max_copy_resolve_steps then err CpTooManyRuns
        else and_then (copy_runs (w_content w) acc rs) (\<lambda>acc. copy_specs w ?s acc sps))"
      using True v rs(1) reg empty by (simp add: Let_def spec_admitted_def)
    have "\<forall>a \<in> set (flat rs). content (w_content w) (tumbler a) \<noteq> None"
      using placed_okD [OF world_invD(5) [OF inv]] v(1)
      by (auto simp: rs(3) spec_addrs_def stored_at_def dest!: in_set_takeD in_set_dropD)
    from copy_runs_spec [OF world_invD(2) [OF inv] Cons.prems(1,2) rs(2) this] show ?thesis
    proof
      assume "copy_runs (w_content w) acc rs = err CpTooManyRuns"
      then show ?thesis unfolding step by (simp add: copy_refusal_def)
    next
      assume "\<exists>acc'. copy_runs (w_content w) acc rs = ok acc' \<and> wf_runs acc' \<and> merged acc' \<and>
        flat acc' = flat acc @ flat rs"
      then obtain acc1 where "copy_runs (w_content w) acc rs = ok acc1" "wf_runs acc1" "merged acc1"
        "flat acc1 = flat acc @ spec_addrs w sp" using rs(3) by auto
      then show ?thesis unfolding step using Cons.IH [of acc1 ?s] Cons.prems(3) True
        by (auto simp: copy_refusal_def)
    qed
  qed
qed simp

lemma copy_sound:
  assumes inv: "world_inv (stg_working stg)" and d: "wf_address d"
    and sps: "\<forall>sp \<in> set sps. wf_address (vs_source sp)"
  shows "sound_body dbg stg (copy_op dbg c d p sps asof stg)
    (\<lambda>v _. in_place (stg_working stg) c d asof \<and>
       (place_site (stg_working stg) d p \<and> concat (map (spec_addrs (stg_working stg)) sps) \<noteq> [] \<and>
        (\<forall>sp \<in> set sps. spec_admitted (stg_working stg) sp) \<and>
        edited (stg_working stg) v d (place (vp_ordinal p) (concat (map (spec_addrs (stg_working stg)) sps)))))
    (\<lambda>e. e \<noteq> CpDanglingSource \<and> (e = CpTooManyRuns \<or>
       \<not> (in_place (stg_working stg) c d asof \<and> place_site (stg_working stg) d p \<and>
          concat (map (spec_addrs (stg_working stg)) sps) \<noteq> [] \<and>
          (\<forall>sp \<in> set sps. spec_admitted (stg_working stg) sp))))"
  (is "sound_body _ _ _ _ ?E")
  unfolding copy_op_def
proof (rule in_place_gates [OF d refl])
  assume perm: "in_place (stg_working stg) c d asof"
  let ?as = "concat (map (spec_addrs (stg_working stg)) sps)"
  let ?Q = "\<lambda>v a. place_site (stg_working stg) d p \<and> ?as \<noteq> [] \<and>
        (\<forall>sp \<in> set sps. spec_admitted (stg_working stg) sp) \<and>
        edited (stg_working stg) v d (place (vp_ordinal p) ?as)"
  let ?tail = "and_then (copy_specs (stg_working stg) 0 [] sps) (\<lambda>runs.
       if runs = [] then err CpEmptyResult
       else do { stg' \<leftarrow> stg_push (apply_world dbg) stg (ArrangementRec (ContentPlace d (vp_ordinal p) runs));
                 ok (stg', ()) })"
  let ?rest = "if \<not> vpos_is_content p then err CpNotContentSubspace
     else if \<not> admits_content_boundary (w_m5 stg) d (vp_ordinal p) then err CpOutOfBounds else ?tail"
  show "sound_body dbg stg ?rest ?Q ?E"
  proof (cases "place_site (stg_working stg) d p")
    case False
    then have "\<exists>e. ?rest = err e \<and> ?E e"
      by (auto simp: place_site_def admits_content_boundary_def content_count_eq w_m5_def)
    then show ?thesis by (auto simp: sound_body_def)
  next
    case site: True
    then have rest: "?rest = ?tail"
      by (simp add: place_site_def admits_content_boundary_def content_count_eq w_m5_def)
    have "wf_runs []" "merged []" by (simp_all add: merged_def)
    from copy_specs_spec [OF inv this sps, of 0]
    consider (err) e where "copy_specs (stg_working stg) 0 [] sps = err e" "copy_refusal (stg_working stg) sps e"
      | (ok) rs where "copy_specs (stg_working stg) 0 [] sps = ok rs" "wf_runs rs" "flat rs = ?as"
        "\<forall>sp \<in> set sps. spec_admitted (stg_working stg) sp"
      by auto
    then show ?thesis
    proof cases
      case err
      then show ?thesis unfolding rest by (auto simp: copy_refusal_def intro!: sound_err)
    next
      case ok
      have ne: "rs = [] \<longleftrightarrow> ?as = []" using ok(2) unfolding ok(3) [symmetric] by (cases rs) auto
      show ?thesis
      proof (cases "?as = []")
        case True
        then show ?thesis unfolding rest unfolding ok(1) using ne by (auto intro!: sound_err)
      next
        case nonempty: False
        have reg: "registered (w_m3 stg) d" using perm by (simp add: in_place_def permitted_def w_m3_def)
        have st: "\<forall>a \<in> set (flat rs). stored_at (stg_working stg) a"
          using placed_okD [OF world_invD(5) [OF inv]]
          by (auto simp: ok(3) spec_addrs_def split: option.splits dest!: in_set_takeD in_set_dropD)
        have "sound_body dbg stg (do { stg' \<leftarrow> stg_push (apply_world dbg) stg (ArrangementRec (ContentPlace d (vp_ordinal p) rs));
                 ok (stg', ()) }) ?Q ?E"
          by (rule sound_place [OF inv reg ok(2) st]) (use ok(3,4) site nonempty in auto)
        moreover have "rs \<noteq> []" using ne nonempty by blast
        ultimately show ?thesis unfolding rest unfolding ok(1) by simp
      qed
    qed
  qed
qed auto

end
